(* ===== verification/Go_Prelude.thy ===== *)
theory Go_Prelude
  imports Main "HOL-Library.Word" "HOL-Library.AList" "HOL-Library.List_Lexorder"
    "HOL-Library.Char_ord"
begin

text \<open>
  What the components share: the Go values the program is written with (machine integers, instants
  and durations, maps, byte strings), the shape of a Go function that returns an \<^verbatim>\<open>error\<close>, and
  the generic lemmas on them.

  \<^item> \<open>uint64\<close> and \<open>uint32\<close> are words, so \<open>+\<close> wraps around as it does in Go.
  \<^item> A \<open>time.Time\<close> is the number of nanoseconds since Go's zero time, so \<open>IsZero\<close> is \<open>t = 0\<close> and
    \<open>Before\<close> and \<open>After\<close> are the order of the integers. \<open>Sub\<close> saturates at the bounds of the
    64-bit \<open>time.Duration\<close>, as the Go library documents.
  \<^item> A Go map is an association list whose keys are distinct (\<open>wf_map\<close>); a nil map and an empty map
    are both the empty list. Iteration follows the list, which is one of the orders Go may take.
  \<^item> A string and a byte slice are both lists of 8-bit characters, so \<open>length\<close> counts bytes and the
    lexicographic order is the one of \<open>strings.Compare\<close> and \<open>bytes.Compare\<close>.
  \<^item> An \<open>error\<close> result is an option (\<open>None\<close> is Go's nil error); a value-or-error result is a sum.
\<close>

section \<open>Machine integers and time\<close>

type_synonym u64 = "64 word"
type_synonym u32 = "32 word"
type_synonym gotime = int
type_synonym duration = int

definition max_u64 :: u64 where
  "max_u64 = - 1"

definition max_duration :: duration where
  "max_duration = 2 ^ 63 - 1"

definition min_duration :: duration where
  "min_duration = - (2 ^ 63)"

definition time_zero :: gotime where
  "time_zero = 0"

definition IsZero :: "gotime \<Rightarrow> bool" where
  "IsZero t \<longleftrightarrow> t = time_zero"

definition time_sub :: "gotime \<Rightarrow> gotime \<Rightarrow> duration" where
  "time_sub t u = max min_duration (min max_duration (t - u))"

definition second :: duration where
  "second = 1000000000"

lemma time_sub_le_iff: "0 \<le> d \<Longrightarrow> d \<le> max_duration \<Longrightarrow> d \<le> time_sub t u \<longleftrightarrow> d \<le> t - u"
  by (auto simp: time_sub_def min_duration_def max_duration_def)

lemma time_sub_ge_D: "min_duration < d \<Longrightarrow> d \<le> time_sub t u \<Longrightarrow> d \<le> t - u"
  by (auto simp: time_sub_def split: if_splits)

lemma time_sub_le_D: "d < max_duration \<Longrightarrow> time_sub t u \<le> d \<Longrightarrow> t - u \<le> d"
  by (auto simp: time_sub_def min_duration_def max_duration_def split: if_splits)

section \<open>Functions that return an error\<close>

text \<open>
  A validator of the source is a sequence of guards, each of which returns the first error it finds.
  \<open>first_err\<close> is that sequence and \<open>err_if\<close> a guard; a loop that returns at the first error is
  \<open>first_err\<close> over the mapped list.
\<close>

fun first_err :: "'e option list \<Rightarrow> 'e option" where
  "first_err [] = None"
| "first_err (None # es) = first_err es"
| "first_err (Some e # es) = Some e"

definition err_if :: "bool \<Rightarrow> 'e \<Rightarrow> 'e option" where
  "err_if b e = (if b then Some e else None)"

lemma first_err_Cons_None [simp]: "first_err (x # xs) = None \<longleftrightarrow> x = None \<and> first_err xs = None"
  by (cases x) auto

lemma first_err_None_iff: "first_err xs = None \<longleftrightarrow> (\<forall>x \<in> set xs. x = None)"
  by (induction xs) auto

lemma first_err_map_None [simp]: "first_err (map f xs) = None \<longleftrightarrow> (\<forall>x \<in> set xs. f x = None)"
  by (auto simp: first_err_None_iff)

lemma err_if_None [simp]: "err_if b e = None \<longleftrightarrow> \<not> b"
  by (simp add: err_if_def)

lemma err_if_Some [simp]: "err_if b e = Some e' \<longleftrightarrow> b \<and> e' = e"
  by (auto simp: err_if_def)

lemma err_if_simps [simp]: "err_if True e = Some e" "err_if False e = None"
  by (simp_all add: err_if_def)

lemma Inr_in_bind: "(case x of Inl e \<Rightarrow> Inl e | Inr y \<Rightarrow> f y) = Inr z \<longleftrightarrow> (\<exists>y. x = Inr y \<and> f y = Inr z)"
  by (cases x) auto

section \<open>Go maps\<close>

type_synonym ('k, 'v) gomap = "('k \<times> 'v) list"

definition wf_map :: "('k, 'v) gomap \<Rightarrow> bool" where
  "wf_map m \<longleftrightarrow> distinct (map fst m)"

abbreviation mget :: "('k, 'v) gomap \<Rightarrow> 'k \<Rightarrow> 'v option" where
  "mget m k \<equiv> map_of m k"

definition mput :: "'k \<Rightarrow> 'v \<Rightarrow> ('k, 'v) gomap \<Rightarrow> ('k, 'v) gomap" where
  "mput k v m = AList.update k v m"

definition mdel :: "'k \<Rightarrow> ('k, 'v) gomap \<Rightarrow> ('k, 'v) gomap" where
  "mdel k m = AList.delete k m"

text \<open>Reading a missing key gives the value type's zero value.\<close>

definition mget_or :: "('k, 'v) gomap \<Rightarrow> 'k \<Rightarrow> 'v \<Rightarrow> 'v" where
  "mget_or m k z = (case mget m k of None \<Rightarrow> z | Some v \<Rightarrow> v)"

text \<open>\<open>maps.Equal\<close>: the same length, and every entry of the first is an entry of the second.\<close>

definition maps_equal :: "('k, 'v) gomap \<Rightarrow> ('k, 'v) gomap \<Rightarrow> bool" where
  "maps_equal m n \<longleftrightarrow> length m = length n \<and> list_all (\<lambda>(k, v). mget n k = Some v) m"

lemma mget_mput [simp]: "mget (mput k v m) k' = (if k' = k then Some v else mget m k')"
  by (simp add: mput_def update_conv)

lemma mget_mdel [simp]: "mget (mdel k m) k' = (if k' = k then None else mget m k')"
  by (simp add: mdel_def delete_conv)

lemma wf_map_empty [simp]: "wf_map []"
  by (simp add: wf_map_def)

lemma wf_map_mput [simp]: "wf_map m \<Longrightarrow> wf_map (mput k v m)"
  by (simp add: wf_map_def mput_def distinct_update)

lemma wf_map_mdel [simp]: "wf_map m \<Longrightarrow> wf_map (mdel k m)"
  by (simp add: wf_map_def mdel_def distinct_delete)

lemma wf_map_mget: "wf_map m \<Longrightarrow> (k, v) \<in> set m \<Longrightarrow> mget m k = Some v"
  by (simp add: wf_map_def)

lemma set_mput: "wf_map m \<Longrightarrow> set (mput k v m) = insert (k, v) {p \<in> set m. fst p \<noteq> k}"
  by (induction m) (auto simp: wf_map_def mput_def image_iff)

lemma mdel_eq_filter: "mdel k m = filter (\<lambda>p. fst p \<noteq> k) m"
  by (induction m) (auto simp: mdel_def)

lemma mget_or_mput [simp]: "mget_or (mput k v m) k' z = (if k' = k then v else mget_or m k' z)"
  by (simp add: mget_or_def)

lemma maps_equal_refl: "wf_map m \<Longrightarrow> maps_equal m m"
  by (auto simp: maps_equal_def list_all_iff wf_map_mget)

lemma maps_equal_mget:
  assumes "wf_map m" and "wf_map n" and "maps_equal m n"
  shows "mget m = mget n"
proof -
  have sub: "fst ` set m \<subseteq> fst ` set n"
    using assms(3) by (force simp: maps_equal_def list_all_iff dest: map_of_SomeD)
  have "card (fst ` set m) = card (fst ` set n)"
    using assms by (simp add: maps_equal_def wf_map_def distinct_card flip: set_map)
  with sub have keys: "fst ` set m = fst ` set n"
    by (simp add: card_subset_eq)
  show ?thesis
  proof
    fix k
    show "mget m k = mget n k"
    proof (cases "mget m k")
      case None
      then have "k \<notin> fst ` set n" by (simp add: map_of_eq_None_iff keys)
      then have "mget n k = None" by (simp only: map_of_eq_None_iff not_False_eq_True)
      with None show ?thesis by simp
    next
      case (Some v)
      then have "(k, v) \<in> set m" by (rule map_of_SomeD)
      with assms(3) Some show ?thesis by (auto simp: maps_equal_def list_all_iff)
    qed
  qed
qed

section \<open>Loops over a slice with a set of values already seen\<close>

text \<open>
  The source detects duplicates with a loop that keeps the values seen so far in a map and returns
  at the first repetition.
\<close>

fun has_dup :: "'a list \<Rightarrow> 'a list \<Rightarrow> bool" where
  "has_dup seen [] = False"
| "has_dup seen (x # xs) = (x \<in> set seen \<or> has_dup (x # seen) xs)"

lemma has_dup_iff: "has_dup seen xs \<longleftrightarrow> \<not> distinct xs \<or> set xs \<inter> set seen \<noteq> {}"
  by (induction xs arbitrary: seen) auto

lemma has_dup_Nil [simp]: "has_dup [] xs \<longleftrightarrow> \<not> distinct xs"
  by (simp add: has_dup_iff)

end
