(* ===== verification/Go_Text.thy ===== *)
theory Go_Text
  imports Go_Prelude
begin

text \<open>
  What the program uses of Go's text libraries, on byte strings: UTF-8 validity and decoding
  (\<open>unicode/utf8\<close>, \<open>range\<close> over a string), \<open>unicode.IsControl\<close>, lower-case hexadecimal
  (\<open>encoding/hex\<close>), big-endian 32-bit lengths (\<open>encoding/binary\<close>) and the parts of a URL that
  \<open>url.Parse\<close> separates. A bracketed host is accepted when it is built from the characters of an
  IPv6 literal; the address itself is not checked further.
\<close>

section \<open>Bytes and UTF-8\<close>

abbreviation byte :: "char \<Rightarrow> nat" where
  "byte c \<equiv> of_char c"

definition bytes :: "string \<Rightarrow> nat list" where
  "bytes s = map of_char s"

definition utf8_cont :: "nat \<Rightarrow> bool" where
  "utf8_cont b \<longleftrightarrow> 128 \<le> b \<and> b \<le> 191"

text \<open>The code points of a valid UTF-8 string, \<open>None\<close> for an invalid one (\<open>utf8.ValidString\<close>).\<close>

fun utf8_runes :: "nat list \<Rightarrow> nat list option" where
  "utf8_runes [] = Some []"
| "utf8_runes (b # bs) =
     (if b < 128 then map_option ((#) b) (utf8_runes bs)
      else case bs of [] \<Rightarrow> None | b1 # bs1 \<Rightarrow>
        if 194 \<le> b \<and> b \<le> 223 then
          if utf8_cont b1 then map_option ((#) ((b - 192) * 64 + (b1 - 128))) (utf8_runes bs1)
          else None
        else case bs1 of [] \<Rightarrow> None | b2 # bs2 \<Rightarrow>
          if 224 \<le> b \<and> b \<le> 239 then
            if (if b = 224 then 160 else 128) \<le> b1 \<and> b1 \<le> (if b = 237 then 159 else 191) \<and> utf8_cont b2
            then map_option ((#) ((b - 224) * 4096 + (b1 - 128) * 64 + (b2 - 128))) (utf8_runes bs2)
            else None
          else case bs2 of [] \<Rightarrow> None | b3 # bs3 \<Rightarrow>
            if 240 \<le> b \<and> b \<le> 244 \<and> (if b = 240 then 144 else 128) \<le> b1 \<and>
               b1 \<le> (if b = 244 then 143 else 191) \<and> utf8_cont b2 \<and> utf8_cont b3
            then map_option ((#) ((b - 240) * 262144 + (b1 - 128) * 4096 + (b2 - 128) * 64 + (b3 - 128)))
                   (utf8_runes bs3)
            else None)"

definition utf8_valid :: "string \<Rightarrow> bool" where
  "utf8_valid s \<longleftrightarrow> utf8_runes (bytes s) \<noteq> None"

definition runes :: "string \<Rightarrow> nat list" where
  "runes s = (case utf8_runes (bytes s) of None \<Rightarrow> [] | Some rs \<Rightarrow> rs)"

text \<open>\<open>unicode.IsControl\<close>: the category Cc.\<close>

definition is_control :: "nat \<Rightarrow> bool" where
  "is_control r \<longleftrightarrow> r < 32 \<or> 127 \<le> r \<and> r < 160"

text \<open>\<open>strings.IndexByte(s, 0) >= 0\<close>\<close>

definition has_nul :: "string \<Rightarrow> bool" where
  "has_nul s \<longleftrightarrow> CHR 0x00 \<in> set s"

text \<open>\<open>strconv.FormatUint\<close> in base ten, and \<open>%d\<close> of an unsigned integer.\<close>

fun format_uint :: "nat \<Rightarrow> string" where
  "format_uint n = (if n < 10 then [char_of (48 + n)] else format_uint (n div 10) @ [char_of (48 + n mod 10)])"

section \<open>Hexadecimal and big-endian lengths\<close>

definition hex_digit :: "nat \<Rightarrow> char" where
  "hex_digit n = char_of (if n < 10 then 48 + n else 87 + n)"

definition hex_value :: "char \<Rightarrow> nat option" where
  "hex_value c =
     (let n = byte c
      in if 48 \<le> n \<and> n \<le> 57 then Some (n - 48)
         else if 97 \<le> n \<and> n \<le> 102 then Some (n - 87)
         else if 65 \<le> n \<and> n \<le> 70 then Some (n - 55)
         else None)"

fun hex_encode :: "string \<Rightarrow> string" where
  "hex_encode [] = []"
| "hex_encode (c # cs) = hex_digit (byte c div 16) # hex_digit (byte c mod 16) # hex_encode cs"

fun hex_decode :: "string \<Rightarrow> string option" where
  "hex_decode [] = Some []"
| "hex_decode [c] = None"
| "hex_decode (c # d # cs) =
     (case (hex_value c, hex_value d) of
        (Some x, Some y) \<Rightarrow> map_option ((#) (char_of (16 * x + y))) (hex_decode cs)
      | _ \<Rightarrow> None)"

definition be32 :: "nat \<Rightarrow> string" where
  "be32 n = map char_of [(n div 16777216) mod 256, (n div 65536) mod 256, (n div 256) mod 256, n mod 256]"

lemma hex_value_digit [simp]: "n < 16 \<Longrightarrow> hex_value (hex_digit n) = Some n"
  by (auto simp: hex_value_def hex_digit_def Let_def)

lemma length_hex_encode [simp]: "length (hex_encode s) = 2 * length s"
  by (induction s) auto

lemma hex_decode_encode [simp]: "hex_decode (hex_encode s) = Some s"
proof (induction s)
  case (Cons c s)
  have "byte c < 16 * 16"
    using nat_of_char_less_256 [of c] by simp
  then have "byte c div 16 < 16"
    by (rule less_mult_imp_div_less)
  with Cons show ?case by simp
qed simp

lemma hex_decode_length: "hex_decode s = Some d \<Longrightarrow> length s = 2 * length d"
  by (induction s arbitrary: d rule: hex_decode.induct) (auto split: option.splits)

lemma length_be32 [simp]: "length (be32 n) = 4"
  by (simp add: be32_def)

lemma be32_inject:
  assumes "m < 2 ^ 32" and "n < 2 ^ 32" and "be32 m = be32 n"
  shows "m = n"
proof -
  have eqs: "(m div 16777216) mod 256 = (n div 16777216) mod 256" "(m div 65536) mod 256 = (n div 65536) mod 256"
    "(m div 256) mod 256 = (n div 256) mod 256" "m mod 256 = n mod 256"
    using assms(3) by (simp_all add: be32_def char_of_eq_iff take_bit_eq_mod)
  have step: "a = b" if "a div 256 = b div 256" "a mod 256 = b mod 256" for a b :: nat
    using that by (metis div_mult_mod_eq)
  have "m div 16777216 = n div 16777216"
    using eqs(1) assms(1,2) by (simp add: div_less_iff_less_mult)
  then have "m div 65536 div 256 = n div 65536 div 256"
    by (simp only: div_mult2_eq [symmetric]) simp
  then have "m div 65536 = n div 65536"
    using eqs(2) by (rule step)
  then have "m div 256 div 256 = n div 256 div 256"
    by (simp only: div_mult2_eq [symmetric]) simp
  then have "m div 256 = n div 256"
    using eqs(3) by (rule step)
  then show ?thesis
    using eqs(4) by (rule step)
qed

section \<open>URLs\<close>

record url =
  url_scheme :: string
  url_user :: bool
  url_host :: string
  url_path :: string
  url_raw_query :: string
  url_fragment :: string

definition is_digit :: "char \<Rightarrow> bool" where
  "is_digit c \<longleftrightarrow> 48 \<le> byte c \<and> byte c \<le> 57"

definition is_lower :: "char \<Rightarrow> bool" where
  "is_lower c \<longleftrightarrow> 97 \<le> byte c \<and> byte c \<le> 122"

definition is_alpha :: "char \<Rightarrow> bool" where
  "is_alpha c \<longleftrightarrow> is_lower c \<or> 65 \<le> byte c \<and> byte c \<le> 90"

definition to_lower :: "string \<Rightarrow> string" where
  "to_lower s = map (\<lambda>c. if 65 \<le> byte c \<and> byte c \<le> 90 then char_of (byte c + 32) else c) s"

text \<open>\<open>strings.Cut\<close>: the text before and after the first separator.\<close>

definition cut :: "char \<Rightarrow> string \<Rightarrow> string \<times> string" where
  "cut c s = (takeWhile (\<lambda>x. x \<noteq> c) s, tl (dropWhile (\<lambda>x. x \<noteq> c) s))"

text \<open>The text before and after the last separator, \<open>None\<close> where there is none.\<close>

definition cut_last :: "char \<Rightarrow> string \<Rightarrow> (string \<times> string) option" where
  "cut_last c s =
     (if c \<in> set s then let (a, b) = cut c (rev s) in Some (rev b, rev a) else None)"

fun pct_ok :: "(string \<Rightarrow> bool) \<Rightarrow> string \<Rightarrow> bool" where
  "pct_ok esc [] = True"
| "pct_ok esc (c # cs) =
     (if c = CHR ''%'' then
        (case cs of a # b # ds \<Rightarrow> hex_value a \<noteq> None \<and> hex_value b \<noteq> None \<and> esc [c, a, b] \<and> pct_ok esc ds
         | _ \<Rightarrow> False)
      else pct_ok esc cs)"

text \<open>
  \<open>getScheme\<close>: \<open>None\<close> for a missing scheme before a colon, an empty scheme where there is none.
\<close>

fun get_scheme_from :: "string \<Rightarrow> string \<Rightarrow> string \<Rightarrow> (string \<times> string) option" where
  "get_scheme_from whole acc [] = Some ([], whole)"
| "get_scheme_from whole acc (c # cs) =
     (if is_alpha c then get_scheme_from whole (acc @ [c]) cs
      else if is_digit c \<or> c \<in> set ''+-.'' then
        (if acc = [] then Some ([], whole) else get_scheme_from whole (acc @ [c]) cs)
      else if c = CHR '':'' then (if acc = [] then None else Some (acc, cs))
      else Some ([], whole))"

definition host_char_ok :: "char \<Rightarrow> bool" where
  "host_char_ok c \<longleftrightarrow>
     is_alpha c \<or> is_digit c \<or> 128 \<le> byte c \<or> c = CHR ''%'' \<or>
     c \<in> set ''!$&()*+,;=:[]<>-_.~'' \<or> c = CHR 0x27 \<or> c = CHR 0x22"

definition host_escape_ok :: "string \<Rightarrow> bool" where
  "host_escape_ok e \<longleftrightarrow> e = ''%25'' \<or> (case hex_value (e ! 1) of None \<Rightarrow> False | Some v \<Rightarrow> 8 \<le> v)"

definition parse_host :: "string \<Rightarrow> string option" where
  "parse_host h =
     (if take 1 h = ''['' then
        (case cut_last (CHR '']'') h of None \<Rightarrow> None
         | Some (inside, port) \<Rightarrow>
             if (port = [] \<or> hd port = CHR '':'' \<and> list_all is_digit (tl port)) \<and> tl inside \<noteq> [] \<and>
                list_all (\<lambda>c. hex_value c \<noteq> None \<or> c \<in> set '':.'') (fst (cut (CHR ''%'') (tl inside)))
             then Some h else None)
      else if list_all is_digit (snd (cut (CHR '':'') h)) \<and> list_all host_char_ok h \<and> pct_ok host_escape_ok h
      then Some h else None)"

definition userinfo_ok :: "string \<Rightarrow> bool" where
  "userinfo_ok s \<longleftrightarrow>
     list_all (\<lambda>c. is_alpha c \<or> is_digit c \<or> c \<in> set ''-._:~!$&()*+,;=%@'' \<or> c = CHR 0x27) s \<and>
     pct_ok (\<lambda>_. True) s"

definition parse_authority :: "string \<Rightarrow> (bool \<times> string) option" where
  "parse_authority a =
     (case cut_last (CHR ''@'') a of
        None \<Rightarrow> map_option (Pair False) (parse_host a)
      | Some (userinfo, h) \<Rightarrow>
          if userinfo_ok userinfo then map_option (Pair True) (parse_host h) else None)"

definition url_parse :: "string \<Rightarrow> url option" where
  "url_parse raw =
     (let (u, frag) = cut (CHR ''#'') raw in
      if list_ex (\<lambda>c. byte c < 32 \<or> byte c = 127) raw then None
      else if u = ''*'' then
        Some \<lparr>url_scheme = [], url_user = False, url_host = [], url_path = ''*'', url_raw_query = [],
              url_fragment = frag\<rparr>
      else case get_scheme_from u [] u of None \<Rightarrow> None
      | Some (scheme, rest0) \<Rightarrow>
        let (rest, query) = cut (CHR ''?'') rest0;
            done = (\<lambda>usr host path.
              if pct_ok (\<lambda>_. True) path \<and> pct_ok (\<lambda>_. True) frag then
                Some \<lparr>url_scheme = to_lower scheme, url_user = usr, url_host = host, url_path = path,
                      url_raw_query = query, url_fragment = frag\<rparr>
              else None)
        in if take 1 rest \<noteq> ''/'' then
             (if scheme \<noteq> [] then
                (if pct_ok (\<lambda>_. True) frag then
                   Some \<lparr>url_scheme = to_lower scheme, url_user = False, url_host = [], url_path = [],
                         url_raw_query = query, url_fragment = frag\<rparr>
                 else None)
              else if CHR '':'' \<in> set (fst (cut (CHR ''/'') rest)) then None
              else done False [] rest)
           else if (scheme \<noteq> [] \<or> take 3 rest \<noteq> ''///'') \<and> take 2 rest = ''//'' then
             (case parse_authority (takeWhile (\<lambda>c. c \<noteq> CHR ''/'') (drop 2 rest)) of
                None \<Rightarrow> None
              | Some (usr, host) \<Rightarrow> done usr host (dropWhile (\<lambda>c. c \<noteq> CHR ''/'') (drop 2 rest)))
           else done False [] rest)"

end
