(* ===== verification/Customer.thy ===== *)
theory Customer
  imports Go_Text
begin

text \<open>
  The customer boundary (\<^verbatim>\<open>customer/customer.go\<close>): the borrowed message view, the business hash and
  rendezvous score contracts, the default entity-affinity library, and the length-prefixed canonical
  encoding both hashes are computed from. SHA-256 is the argument \<open>sha\<close> of the definitions that call
  it: the theorems hold for every function of that type.
\<close>

section \<open>Data\<close>

definition DigestBytes :: nat where
  "DigestBytes = 32"

definition EntityAffinityContract :: string where
  "EntityAffinityContract = ''entity-affinity-v1''"

definition RendezvousSHA256Contract :: string where
  "RendezvousSHA256Contract = ''swlb-rendezvous-v1''"

definition entityAffinityDomain :: string where
  "entityAffinityDomain = ''entity-affinity-v1''"

type_synonym business_hash = string
type_synonym routing_score = string

record ScoreInput =
  si_algorithm :: string
  si_group :: string
  si_hash :: business_hash
  si_broker :: string

record 'p MessageView =
  mv_topic :: string
  mv_headers :: "(string, string) gomap"
  mv_payload :: 'p
  mv_event_id :: string

datatype customer_error =
    NotConfigured string
  | NoRoutingPolicy
  | AlgorithmRequired
  | ComponentRequired nat
  | ComponentHasNUL nat
  | UnsupportedAlgorithm string
  | BadScoreInput
  | UnsupportedGroup string
  | BadBusinessHash
  | NotUTF8
  | CanonicalTooLarge

text \<open>\<open>RoutingHashPolicy\<close>: the score function and the algorithm identifier.\<close>

record RoutingHashPolicy =
  GetRendezvousScore :: "ScoreInput \<Rightarrow> customer_error + routing_score"
  RoutingAlgorithm :: string

text \<open>A customer library that does not implement the routing policy has no \<open>cu_policy\<close>.\<close>

record 'p CustomerLibrary =
  cu_group :: "'p MessageView \<Rightarrow> customer_error + string"
  cu_hash :: "'p MessageView \<Rightarrow> customer_error + business_hash"
  cu_policy :: "RoutingHashPolicy option"

section \<open>Canonical encoding\<close>

text \<open>The first loop of \<open>canonicalBytes\<close> bounds every component and the total.\<close>

fun canonical_total :: "nat \<Rightarrow> string list \<Rightarrow> nat option" where
  "canonical_total tot [] = Some tot"
| "canonical_total tot (c # cs) =
     (if 4294967295 < length c \<or> 2 ^ 63 - 1 - 4 - int (length c) < int tot then None
      else canonical_total (tot + (4 + length c)) cs)"

fun canonical_encode :: "string list \<Rightarrow> string" where
  "canonical_encode [] = []"
| "canonical_encode (c # cs) = be32 (length c) @ c @ canonical_encode cs"

definition canonicalBytes :: "string list \<Rightarrow> customer_error + string" where
  "canonicalBytes cs =
     (case canonical_total 0 cs of
        None \<Rightarrow> Inl CanonicalTooLarge
      | Some tot \<Rightarrow> Inr (canonical_encode cs))"

definition canonicalStrings :: "string list \<Rightarrow> customer_error + string" where
  "canonicalStrings cs =
     (if list_ex (\<lambda>c. \<not> utf8_valid c) cs then Inl NotUTF8 else canonicalBytes cs)"

section \<open>Hash contracts\<close>

fun check_components :: "nat \<Rightarrow> string list \<Rightarrow> customer_error option" where
  "check_components i [] = None"
| "check_components i (c # cs) =
     first_err [err_if (c = []) (ComponentRequired i), err_if (has_nul c) (ComponentHasNUL i),
                check_components (Suc i) cs]"

definition EntityHash :: "(string \<Rightarrow> string) \<Rightarrow> string \<Rightarrow> string \<Rightarrow> customer_error + business_hash" where
  "EntityHash sha grp entityID =
     (case check_components 0 [grp, entityID] of
        Some e \<Rightarrow> Inl e
      | None \<Rightarrow>
          (case canonicalStrings [entityAffinityDomain, grp, entityID] of
             Inl e \<Rightarrow> Inl e
           | Inr encoded \<Rightarrow> Inr (sha encoded)))"

definition SHA256RendezvousScore :: "(string \<Rightarrow> string) \<Rightarrow> ScoreInput \<Rightarrow> customer_error + routing_score" where
  "SHA256RendezvousScore sha i =
     (if si_algorithm i \<noteq> RendezvousSHA256Contract then Inl (UnsupportedAlgorithm (si_algorithm i))
      else if si_group i = [] \<or> si_broker i = [] \<or> \<not> utf8_valid (si_group i) \<or> \<not> utf8_valid (si_broker i)
      then Inl BadScoreInput
      else case canonicalBytes [si_algorithm i, si_group i, si_hash i, si_broker i] of
             Inl e \<Rightarrow> Inl e
           | Inr encoded \<Rightarrow> Inr (sha encoded))"

definition ParseBusinessHash :: "string \<Rightarrow> customer_error + business_hash" where
  "ParseBusinessHash value =
     (if length value \<noteq> 2 * DigestBytes then Inl BadBusinessHash
      else case hex_decode value of
             None \<Rightarrow> Inl BadBusinessHash
           | Some decoded \<Rightarrow> if hex_encode decoded \<noteq> value then Inl BadBusinessHash else Inr decoded)"

section \<open>The libraries\<close>

definition entity_GetScalingGroup :: "'p MessageView \<Rightarrow> customer_error + string" where
  "entity_GetScalingGroup m =
     (let grp = mget_or (mv_headers m) ''scaling-group'' []
      in if grp \<noteq> ''events-a'' \<and> grp \<noteq> ''events-b'' then Inl (UnsupportedGroup grp) else Inr grp)"

definition entity_GetBusinessHash :: "(string \<Rightarrow> string) \<Rightarrow> 'p MessageView \<Rightarrow> customer_error + business_hash" where
  "entity_GetBusinessHash sha m =
     EntityHash sha (mget_or (mv_headers m) ''scaling-group'' []) (mget_or (mv_headers m) ''entity_id'' [])"

definition EntityCustomerLibrary :: "(string \<Rightarrow> string) \<Rightarrow> RoutingHashPolicy" where
  "EntityCustomerLibrary sha =
     \<lparr>GetRendezvousScore = SHA256RendezvousScore sha, RoutingAlgorithm = RendezvousSHA256Contract\<rparr>"

text \<open>\<open>CustomerLibraryFuncs\<close>: a nil function is \<open>None\<close>.\<close>

record 'p CustomerLibraryFuncs =
  f_ScalingGroup :: "('p MessageView \<Rightarrow> customer_error + string) option"
  f_BusinessHash :: "('p MessageView \<Rightarrow> customer_error + business_hash) option"
  f_RendezvousScore :: "(ScoreInput \<Rightarrow> customer_error + routing_score) option"
  f_Algorithm :: string

definition funcs_GetScalingGroup :: "'p CustomerLibraryFuncs \<Rightarrow> 'p MessageView \<Rightarrow> customer_error + string" where
  "funcs_GetScalingGroup f m =
     (case f_ScalingGroup f of None \<Rightarrow> Inl (NotConfigured ''GetScalingGroup'') | Some g \<Rightarrow> g m)"

definition funcs_GetBusinessHash :: "'p CustomerLibraryFuncs \<Rightarrow> 'p MessageView \<Rightarrow> customer_error + business_hash" where
  "funcs_GetBusinessHash f m =
     (case f_BusinessHash f of None \<Rightarrow> Inl (NotConfigured ''GetBusinessHash'') | Some g \<Rightarrow> g m)"

definition funcs_policy :: "(string \<Rightarrow> string) \<Rightarrow> 'p CustomerLibraryFuncs \<Rightarrow> RoutingHashPolicy" where
  "funcs_policy sha f =
     \<lparr>GetRendezvousScore = (case f_RendezvousScore f of None \<Rightarrow> SHA256RendezvousScore sha | Some g \<Rightarrow> g),
      RoutingAlgorithm = (if f_Algorithm f = [] then RendezvousSHA256Contract else f_Algorithm f)\<rparr>"

text \<open>\<open>RoutingPolicy\<close>: a library that does not implement the policy interface is \<open>None\<close>.\<close>

definition RoutingPolicy :: "RoutingHashPolicy option \<Rightarrow> customer_error + RoutingHashPolicy" where
  "RoutingPolicy library =
     (case library of
        None \<Rightarrow> Inl NoRoutingPolicy
      | Some policy \<Rightarrow> if RoutingAlgorithm policy = [] then Inl AlgorithmRequired else Inr policy)"

section \<open>Lemmas\<close>

lemma canonical_total_bounds:
  "canonical_total t cs = Some n \<Longrightarrow> list_all (\<lambda>c. length c < 2 ^ 32) cs"
  by (induction t cs rule: canonical_total.induct) (auto split: if_splits)

lemma canonicalBytes_Inr:
  "canonicalBytes cs = Inr e \<Longrightarrow> e = canonical_encode cs \<and> list_all (\<lambda>c. length c < 2 ^ 32) cs"
  by (auto simp: canonicalBytes_def dest: canonical_total_bounds split: option.splits)

lemma canonical_encode_inject:
  assumes "list_all (\<lambda>c. length c < 2 ^ 32) xs" and "list_all (\<lambda>c. length c < 2 ^ 32) ys"
    and "canonical_encode xs = canonical_encode ys"
  shows "xs = ys"
  using assms
proof (induction xs arbitrary: ys)
  case Nil
  then show ?case
    by (cases ys) (auto dest: arg_cong [where f = length])
next
  case (Cons x xs)
  then obtain y ys' where ys: "ys = y # ys'"
    by (cases ys) (auto dest: arg_cong [where f = length])
  have "be32 (length x) = be32 (length y)" and rest: "x @ canonical_encode xs = y @ canonical_encode ys'"
    using Cons.prems(3) by (simp_all add: ys append_eq_append_conv)
  then have "length x = length y"
    using Cons.prems(1,2) by (intro be32_inject) (simp_all add: ys)
  with rest have "x = y" and "canonical_encode xs = canonical_encode ys'"
    by (simp_all add: append_eq_append_conv)
  with Cons ys show ?case by simp
qed

lemma canonicalStrings_Inr: "canonicalStrings cs = Inr e \<Longrightarrow> canonicalBytes cs = Inr e"
  by (simp add: canonicalStrings_def split: if_splits)

lemma EntityHash_Inr:
  "EntityHash sha g e = Inr h \<Longrightarrow>
     \<exists>enc. canonicalBytes [entityAffinityDomain, g, e] = Inr enc \<and> h = sha enc"
  by (auto simp: EntityHash_def dest: canonicalStrings_Inr split: option.splits sum.splits)

section \<open>Properties\<close>

text \<open>
  C1. The canonical encoding is injective: two component lists that \<open>canonicalBytes\<close> accepts and maps
  to the same bytes are the same list, so no shift of a boundary between the group, the hash and the
  broker identifier can make two routing inputs look alike.
\<close>

theorem canonicalBytes_injective:
  assumes "canonicalBytes xs = Inr enc" and "canonicalBytes ys = Inr enc"
  shows "xs = ys"
  using assms by (auto dest!: canonicalBytes_Inr intro: canonical_encode_inject)

theorem canonicalBytes_injective_witness:
  "canonicalBytes [''ab'', ''c''] = canonicalBytes [CHR ''a'' # ''b'', ''c''] \<and>
   canonicalBytes [''ab'', ''c''] = Inr (be32 2 @ ''ab'' @ be32 1 @ ''c'') \<and> [''ab'', ''c''] = [CHR ''a'' # ''b'', ''c'']"
proof -
  have enc: "canonicalBytes [''ab'', ''c''] = Inr (be32 2 @ ''ab'' @ be32 1 @ ''c'')"
    and enc': "canonicalBytes [CHR ''a'' # ''b'', ''c''] = Inr (be32 2 @ ''ab'' @ be32 1 @ ''c'')"
    by (simp_all add: canonicalBytes_def numeral_2_eq_2)
  then show ?thesis using canonicalBytes_injective [OF enc enc'] by simp
qed

text \<open>
  Business affinity is lost only through a hash collision: when two different (group, entity)
  keys are accepted by \<open>EntityHash\<close> with the same digest, the two canonical encodings are different
  inputs on which SHA-256 agrees.
\<close>

lemma EntityHash_separates_keys:
  assumes "EntityHash sha g1 e1 = Inr h" and "EntityHash sha g2 e2 = Inr h" and "(g1, e1) \<noteq> (g2, e2)"
  shows "\<exists>a b. a \<noteq> b \<and> sha a = sha b \<and>
     canonicalBytes [entityAffinityDomain, g1, e1] = Inr a \<and> canonicalBytes [entityAffinityDomain, g2, e2] = Inr b"
proof -
  obtain a where a: "canonicalBytes [entityAffinityDomain, g1, e1] = Inr a" "h = sha a"
    using EntityHash_Inr [OF assms(1)] by blast
  obtain b where b: "canonicalBytes [entityAffinityDomain, g2, e2] = Inr b" "h = sha b"
    using EntityHash_Inr [OF assms(2)] by blast
  have "a \<noteq> b"
    using assms(3) a(1) b(1) by (auto dest!: canonicalBytes_Inr dest: canonical_encode_inject)
  with a b show ?thesis by metis
qed

text \<open>
  Business hashes round-trip through their wire form: \<open>ParseBusinessHash\<close> accepts exactly the
  lower-case hexadecimal spelling of a 32-byte digest, and returns that digest.
\<close>

lemma ParseBusinessHash_roundtrip:
  "ParseBusinessHash value = Inr d \<longleftrightarrow> length d = DigestBytes \<and> value = hex_encode d"
proof
  assume "ParseBusinessHash value = Inr d"
  then have len: "length value = 2 * DigestBytes" and "value = hex_encode d"
    by (simp_all add: ParseBusinessHash_def split: option.splits if_splits)
  then show "length d = DigestBytes \<and> value = hex_encode d" by simp
next
  assume "length d = DigestBytes \<and> value = hex_encode d"
  then show "ParseBusinessHash value = Inr d" by (simp add: ParseBusinessHash_def)
qed

end
