(* ===== verification/Routing.thy ===== *)
theory Routing
  imports Customer
begin

text \<open>
  Rendezvous selection (\<^verbatim>\<open>routing/membership.go\<close>): the loop that asks the customer policy for a score
  per broker and keeps the highest, ties going to the smaller identifier. The reference definition is
  the best member of a finite set under a strict total order; the locale \<open>strict_preference\<close> states
  what such an order promises, its lemmas give uniqueness and minimal disruption once, and the
  interpretation shows that the score order of the code is one.
\<close>

section \<open>The router\<close>

datatype routing_error =
    PolicyRequired
  | MembershipEmpty
  | EmptyAlgorithm
  | EmptyBrokerID
  | DuplicateBrokerID string
  | ScoreFailed string customer_error

definition score_input :: "string \<Rightarrow> string \<Rightarrow> business_hash \<Rightarrow> string \<Rightarrow> ScoreInput" where
  "score_input alg grp h b = \<lparr>si_algorithm = alg, si_group = grp, si_hash = h, si_broker = b\<rparr>"

text \<open>The loop of \<open>RendezvousBroker\<close>, with its \<open>seen\<close>, \<open>selected\<close> and \<open>highest\<close> variables.\<close>

fun rendezvous_loop ::
  "RoutingHashPolicy \<Rightarrow> string \<Rightarrow> string \<Rightarrow> business_hash \<Rightarrow> string list \<Rightarrow> string \<Rightarrow> routing_score \<Rightarrow>
   string list \<Rightarrow> routing_error + string" where
  "rendezvous_loop policy alg grp h seen selected highest [] = Inr selected"
| "rendezvous_loop policy alg grp h seen selected highest (b # bs) =
     (if b = [] then Inl EmptyBrokerID
      else if b \<in> set seen then Inl (DuplicateBrokerID b)
      else case GetRendezvousScore policy (score_input alg grp h b) of
             Inl e \<Rightarrow> Inl (ScoreFailed b e)
           | Inr score \<Rightarrow>
               if selected = [] \<or> highest < score \<or> score = highest \<and> b < selected
               then rendezvous_loop policy alg grp h (b # seen) b score bs
               else rendezvous_loop policy alg grp h (b # seen) selected highest bs)"

definition RendezvousBroker ::
  "RoutingHashPolicy option \<Rightarrow> string \<Rightarrow> business_hash \<Rightarrow> string list \<Rightarrow> routing_error + string" where
  "RendezvousBroker policy grp h membership =
     (case policy of
        None \<Rightarrow> Inl PolicyRequired
      | Some p \<Rightarrow>
          if membership = [] then Inl MembershipEmpty
          else if RoutingAlgorithm p = [] then Inl EmptyAlgorithm
          else rendezvous_loop p (RoutingAlgorithm p) grp h [] [] (replicate DigestBytes (CHR 0x00)) membership)"

section \<open>The best member of a set\<close>

definition best :: "('a \<Rightarrow> 'a \<Rightarrow> bool) \<Rightarrow> 'a set \<Rightarrow> 'a \<Rightarrow> bool" where
  "best beats A b \<longleftrightarrow> b \<in> A \<and> (\<forall>c \<in> A. c \<noteq> b \<longrightarrow> beats b c)"

locale strict_preference =
  fixes beats :: "'a \<Rightarrow> 'a \<Rightarrow> bool"
  assumes beats_irrefl: "\<not> beats a a"
    and beats_trans: "beats a b \<Longrightarrow> beats b c \<Longrightarrow> beats a c"
    and beats_total: "a \<noteq> b \<Longrightarrow> beats a b \<or> beats b a"
begin

lemma beats_asym: "beats a b \<Longrightarrow> \<not> beats b a"
  using beats_irrefl beats_trans by metis

lemma best_unique: "best beats A a \<Longrightarrow> best beats A b \<Longrightarrow> a = b"
  unfolding best_def using beats_asym by metis

lemma best_absorb: "beats a c \<Longrightarrow> best beats (insert a (insert c A)) x \<longleftrightarrow> best beats (insert a A) x"
  unfolding best_def by (auto dest: beats_asym intro: beats_trans)

lemma best_insert: "best beats A a \<Longrightarrow> best beats (insert x A) b \<Longrightarrow> b = a \<or> b = x"
  unfolding best_def using beats_asym by (metis insert_iff)

lemma best_remove: "best beats A b \<Longrightarrow> B \<subseteq> A \<Longrightarrow> b \<in> B \<Longrightarrow> best beats B b"
  unfolding best_def by blast

end

section \<open>The score order\<close>

definition score_of :: "RoutingHashPolicy \<Rightarrow> string \<Rightarrow> business_hash \<Rightarrow> string \<Rightarrow> routing_score" where
  "score_of policy grp h b =
     (case GetRendezvousScore policy (score_input (RoutingAlgorithm policy) grp h b) of
        Inl e \<Rightarrow> [] | Inr s \<Rightarrow> s)"

definition scored :: "RoutingHashPolicy \<Rightarrow> string \<Rightarrow> business_hash \<Rightarrow> string \<Rightarrow> bool" where
  "scored policy grp h b \<longleftrightarrow>
     (case GetRendezvousScore policy (score_input (RoutingAlgorithm policy) grp h b) of
        Inl e \<Rightarrow> False | Inr s \<Rightarrow> True)"

definition outscores :: "(string \<Rightarrow> routing_score) \<Rightarrow> string \<Rightarrow> string \<Rightarrow> bool" where
  "outscores sc b c \<longleftrightarrow> sc c < sc b \<or> sc b = sc c \<and> b < c"

interpretation rv: strict_preference "outscores sc" for sc
  by unfold_locales (auto simp: outscores_def)

lemma rendezvous_loop_selected:
  assumes "selected \<noteq> []" and "highest = score_of policy grp h selected" and "selected \<in> set seen"
  shows "rendezvous_loop policy (RoutingAlgorithm policy) grp h seen selected highest bs = Inr b \<longleftrightarrow>
     [] \<notin> set bs \<and> distinct bs \<and> set bs \<inter> set seen = {} \<and> (\<forall>c \<in> set bs. scored policy grp h c) \<and>
     best (outscores (score_of policy grp h)) (insert selected (set bs)) b"
  using assms
proof (induction bs arbitrary: seen selected highest)
  case Nil
  then show ?case by (auto simp: best_def)
next
  case (Cons c bs)
  let ?sc = "score_of policy grp h"
  show ?case
  proof (cases "c = [] \<or> c \<in> set seen \<or> \<not> scored policy grp h c")
    case True
    then show ?thesis by (auto simp: scored_def split: sum.splits)
  next
    case False
    then have ok: "c \<noteq> []" "c \<notin> set seen" "scored policy grp h c" by auto
    with Cons.prems have ne: "c \<noteq> selected" by auto
    have score: "GetRendezvousScore policy (score_input (RoutingAlgorithm policy) grp h c) = Inr (?sc c)"
      using ok(3) by (auto simp: scored_def score_of_def split: sum.splits)
    show ?thesis
    proof (cases "outscores ?sc c selected")
      case True
      then have step: "highest < ?sc c \<or> ?sc c = highest \<and> c < selected"
        using Cons.prems(2) by (auto simp: outscores_def)
      have "best (outscores ?sc) (insert selected (insert c (set bs))) b \<longleftrightarrow>
          best (outscores ?sc) (insert c (set bs)) b"
        using rv.best_absorb [OF True] by (simp add: insert_commute)
      with step ok score Cons.IH [of c "?sc c" "c # seen"] show ?thesis by auto
    next
      case False
      then have keep: "outscores ?sc selected c"
        using rv.beats_total [of c selected] ne by blast
      have step: "\<not> (selected = [] \<or> highest < ?sc c \<or> ?sc c = highest \<and> c < selected)"
        using False Cons.prems(1,2) by (auto simp: outscores_def)
      show ?thesis
        using step ok score Cons.prems Cons.IH [of selected highest "c # seen"] rv.best_absorb [OF keep] by auto
    qed
  qed
qed

lemma RendezvousBroker_Inr_iff:
  "RendezvousBroker (Some policy) grp h ms = Inr b \<longleftrightarrow>
     RoutingAlgorithm policy \<noteq> [] \<and> [] \<notin> set ms \<and> distinct ms \<and> (\<forall>c \<in> set ms. scored policy grp h c) \<and>
     best (outscores (score_of policy grp h)) (set ms) b"
proof (cases ms)
  case Nil
  then show ?thesis by (simp add: RendezvousBroker_def best_def)
next
  case (Cons c cs)
  show ?thesis
  proof (cases "scored policy grp h c")
    case True
    then have "GetRendezvousScore policy (score_input (RoutingAlgorithm policy) grp h c) = Inr (score_of policy grp h c)"
      by (auto simp: scored_def score_of_def split: sum.splits)
    then show ?thesis
      using True Cons rendezvous_loop_selected [of c _ policy grp h "[c]" cs b]
      by (auto simp: RendezvousBroker_def)
  next
    case False
    then show ?thesis using Cons by (auto simp: RendezvousBroker_def scored_def split: sum.splits)
  qed
qed

lemma RendezvousBroker_total:
  assumes "ms \<noteq> []" and "RoutingAlgorithm policy \<noteq> []" and "[] \<notin> set ms" and "distinct ms"
    and "\<forall>c \<in> set ms. scored policy grp h c"
  shows "\<exists>b. RendezvousBroker (Some policy) grp h ms = Inr b"
proof -
  have "\<exists>b. best (outscores (score_of policy grp h)) (set ms) b"
    using assms(1)
  proof (induction ms rule: list_nonempty_induct)
    case (single x)
    then show ?case by (auto simp: best_def)
  next
    case (cons x xs)
    then obtain b where b: "best (outscores (score_of policy grp h)) (set xs) b" by blast
    show ?case
    proof (cases "x = b \<or> outscores (score_of policy grp h) b x")
      case True
      with b show ?thesis by (auto simp: best_def)
    next
      case False
      then have "outscores (score_of policy grp h) x b" using rv.beats_total by blast
      with b have "best (outscores (score_of policy grp h)) (set (x # xs)) x"
        by (auto simp: best_def intro: rv.beats_trans)
      then show ?thesis by blast
    qed
  qed
  with assms show ?thesis by (auto simp: RendezvousBroker_Inr_iff)
qed

section \<open>Properties\<close>

definition sample_policy :: RoutingHashPolicy where
  "sample_policy = \<lparr>GetRendezvousScore = (\<lambda>i. Inr (rev (si_broker i))), RoutingAlgorithm = ''rev''\<rparr>"

lemma sample_policy_scored [simp]: "scored sample_policy grp h b"
  by (simp add: scored_def sample_policy_def)

lemma sample_policy_routes: "RendezvousBroker (Some sample_policy) ''g'' ''h'' [''b1'', ''b3'', ''b2''] = Inr ''b3''"
  by (simp add: RendezvousBroker_def sample_policy_def score_input_def)

text \<open>
  C4. \<open>RendezvousBroker\<close> routes exactly when the algorithm is named, the membership is non-empty with
  distinct non-empty identifiers and every broker has a score, and then it returns the member with the
  highest score, the smaller identifier among equals.
\<close>

theorem RendezvousBroker_selects_best:
  "RendezvousBroker (Some policy) grp h ms = Inr b \<longleftrightarrow>
     RoutingAlgorithm policy \<noteq> [] \<and> [] \<notin> set ms \<and> distinct ms \<and> (\<forall>c \<in> set ms. scored policy grp h c) \<and>
     b \<in> set ms \<and>
     (\<forall>c \<in> set ms. c \<noteq> b \<longrightarrow> score_of policy grp h c < score_of policy grp h b \<or>
        score_of policy grp h b = score_of policy grp h c \<and> b < c)"
  by (auto simp: RendezvousBroker_Inr_iff best_def outscores_def)

theorem RendezvousBroker_selects_best_witness:
  "RendezvousBroker (Some sample_policy) ''g'' ''h'' [''b1'', ''b3'', ''b2''] = Inr ''b3'' \<and>
   score_of sample_policy ''g'' ''h'' ''b2'' < score_of sample_policy ''g'' ''h'' ''b3''"
  using sample_policy_routes RendezvousBroker_selects_best [THEN iffD1, OF sample_policy_routes] by simp

text \<open>
  Placement depends on the set of brokers only: reordering an accepted membership (\<open>ms'\<close> lists the
  same brokers once each) never moves a key.
\<close>

lemma RendezvousBroker_order_independent:
  assumes "RendezvousBroker policy grp h ms = Inr b" and "set ms' = set ms" and "distinct ms'"
  shows "RendezvousBroker policy grp h ms' = Inr b"
proof (cases policy)
  case None
  with assms(1) show ?thesis by (simp add: RendezvousBroker_def)
next
  case (Some p)
  with assms show ?thesis by (simp add: RendezvousBroker_Inr_iff)
qed

text \<open>
  C6. Minimal disruption: after adding one broker a key stays where it was or moves to the new broker,
  and removing any broker other than the chosen one leaves the key in place.
\<close>

theorem RendezvousBroker_minimal_disruption:
  assumes "RendezvousBroker policy grp h ms = Inr a"
  shows "(\<forall>x b. RendezvousBroker policy grp h (ms @ [x]) = Inr b \<longrightarrow> b = a \<or> b = x) \<and>
     (\<forall>x. x \<noteq> a \<longrightarrow> RendezvousBroker policy grp h (filter (\<lambda>m. m \<noteq> x) ms) = Inr a)"
proof (cases policy)
  case None
  with assms show ?thesis by (simp add: RendezvousBroker_def)
next
  case (Some p)
  with assms have best: "best (outscores (score_of p grp h)) (set ms) a"
    by (simp add: RendezvousBroker_Inr_iff)
  have "b = a \<or> b = x" if "RendezvousBroker policy grp h (ms @ [x]) = Inr b" for x b
    using that Some rv.best_insert [OF best] by (simp add: RendezvousBroker_Inr_iff)
  moreover have "RendezvousBroker policy grp h (filter (\<lambda>m. m \<noteq> x) ms) = Inr a" if "x \<noteq> a" for x
  proof -
    have "a \<in> set (filter (\<lambda>m. m \<noteq> x) ms)" using best that by (auto simp: best_def)
    then have "best (outscores (score_of p grp h)) (set (filter (\<lambda>m. m \<noteq> x) ms)) a"
      by (intro rv.best_remove [OF best]) auto
    with assms Some show ?thesis by (auto simp: RendezvousBroker_Inr_iff)
  qed
  ultimately show ?thesis by blast
qed

theorem RendezvousBroker_minimal_disruption_witness:
  "RendezvousBroker (Some sample_policy) ''g'' ''h'' (filter (\<lambda>m. m \<noteq> ''b2'') [''b1'', ''b3'', ''b2'']) = Inr ''b3''"
  by (rule RendezvousBroker_minimal_disruption [OF sample_policy_routes, THEN conjunct2, THEN spec, THEN mp]) simp

end
