(* ===== verification/Snapshot.thy ===== *)
theory Snapshot
  imports Go_Text
begin

text \<open>
  The control-plane contract (\<^verbatim>\<open>control/snapshot.go\<close>, \<^verbatim>\<open>control/messages.go\<close>): participant roles,
  snapshot phases, the versioned \<open>MembershipSnapshot\<close> and its validation. A string-typed Go enumeration
  is a datatype with one constructor per constant and one for every other string, so that the default
  branches of the code stay branches of the model. Decoding from JSON is left to the callers: the model
  starts at the decoded value.
\<close>

section \<open>Roles and phases\<close>

datatype ParticipantRole =
    RoleUnset
  | RolePublisher
  | RoleSubscriber
  | RoleBroker
  | RoleObserver
  | RoleOther string

fun role_string :: "ParticipantRole \<Rightarrow> string" where
  "role_string RoleUnset = []"
| "role_string RolePublisher = ''publisher''"
| "role_string RoleSubscriber = ''subscriber''"
| "role_string RoleBroker = ''broker''"
| "role_string RoleObserver = ''observer''"
| "role_string (RoleOther s) = s"

datatype ctl_phase =
    CtlActive
  | CtlPrepare
  | CtlPaused
  | CtlDrain
  | CtlCommitted
  | CtlOther string

datatype DestinationKind = DestinationTopic | DestinationQueue | DestinationOther string

datatype control_error =
    UnsupportedRole string
  | UnsupportedSnapshotVersion u32
  | UnsupportedProtocolVersion u32
  | InvalidIdentifier string
  | ControlCharacter string
  | URLCredentials string
  | InvalidNameComponent string
  | ZeroRevision
  | ZeroEpoch
  | NoMembers string
  | TooManyMembers string
  | DuplicateMember string string
  | DescriptorsIncomplete string
  | DescriptorsUnexpected string
  | DescriptorUnknown string string
  | DescriptorRepeated string string
  | DescriptorEndpoint string string
  | QueueNotDurable
  | DestinationNotTopic
  | NoResources string
  | ResourceEpoch string
  | ResourceOutsideMembership string string
  | ResourceRepeated string
  | ResourceQueueRepeated string
  | ResourceCoverage string string
  | ActiveWithProposal
  | CommittedShape
  | CommittedEpoch
  | ProposalRequired
  | ProposalUnchanged
  | TransitionRequired
  | TransitionFromEpoch
  | TransitionToEpoch
  | UnsupportedPhase
  | RoleNotAllowed ParticipantRole ctl_phase
  | TimestampRequired
  | BadDeadline
  | NotReady
  | ScopeMismatch
  | LibraryVersionRequired
  | ConsumerSetForbidden
  | UnknownCountWithValue string

fun role_Validate :: "ParticipantRole \<Rightarrow> control_error option" where
  "role_Validate RolePublisher = None"
| "role_Validate RoleSubscriber = None"
| "role_Validate RoleBroker = None"
| "role_Validate RoleObserver = None"
| "role_Validate r = Some (UnsupportedRole (role_string r))"

section \<open>The snapshot\<close>

definition SnapshotVersion :: u32 where
  "SnapshotVersion = 3"

definition maxIdentifierBytes :: nat where
  "maxIdentifierBytes = 1024"

definition maxMembershipSize :: nat where
  "maxMembershipSize = 65536"

type_synonym membership = "string list"

record Transition =
  tr_id :: string
  tr_from :: u64
  tr_to :: u64

record QueueInfo =
  q_name :: string
  q_durable :: bool

record DestinationInfo =
  d_kind :: DestinationKind
  d_name :: string

record BrokerDescriptor =
  bd_id :: string
  bd_endpoint :: string

record EpochResourceIdentity =
  er_epoch :: u64
  er_broker :: string
  er_set :: string
  er_queue :: string
  er_topic :: string

record MembershipSnapshot =
  ms_version :: u32
  ms_namespace :: string
  ms_library :: string
  ms_group :: string
  ms_revision :: u64
  ms_epoch :: u64
  ms_phase :: ctl_phase
  ms_hash :: string
  ms_algorithm :: string
  ms_current :: membership
  ms_proposed :: membership
  ms_current_brokers :: "BrokerDescriptor list"
  ms_proposed_brokers :: "BrokerDescriptor list"
  ms_transition :: "Transition option"
  ms_queue :: QueueInfo
  ms_destination :: DestinationInfo
  ms_current_resources :: "EpochResourceIdentity list"
  ms_proposed_resources :: "EpochResourceIdentity list"

section \<open>Identifiers\<close>

definition validateIdentifier :: "string \<Rightarrow> string \<Rightarrow> control_error option" where
  "validateIdentifier field value =
     first_err
       [err_if (value = [] \<or> maxIdentifierBytes < length value \<or> \<not> utf8_valid value \<or> has_nul value)
          (InvalidIdentifier field),
        first_err (map (\<lambda>r. err_if (is_control r) (ControlCharacter field)) (runes value)),
        (case url_parse value of
           None \<Rightarrow> None
         | Some parsed \<Rightarrow> err_if (url_scheme parsed \<noteq> [] \<and> url_user parsed) (URLCredentials field))]"

definition name_rune_ok :: "nat \<Rightarrow> bool" where
  "name_rune_ok r \<longleftrightarrow> 97 \<le> r \<and> r \<le> 122 \<or> 48 \<le> r \<and> r \<le> 57 \<or> r = 45 \<or> r = 95 \<or> r = 46"

definition validateNameComponent :: "string \<Rightarrow> string \<Rightarrow> control_error option" where
  "validateNameComponent field value =
     first_err
       [validateIdentifier field value,
        first_err (map (\<lambda>r. err_if (\<not> name_rune_ok r) (InvalidNameComponent field)) (runes value))]"

section \<open>Memberships, descriptors and resources\<close>

fun validate_members :: "string \<Rightarrow> string list \<Rightarrow> membership \<Rightarrow> control_error option" where
  "validate_members field seen [] = None"
| "validate_members field seen (b # bs) =
     first_err
       [validateIdentifier field b, err_if (b \<in> set seen) (DuplicateMember field b),
        validate_members field (b # seen) bs]"

definition validateMembership :: "string \<Rightarrow> membership \<Rightarrow> bool \<Rightarrow> control_error option" where
  "validateMembership field ms required =
     first_err
       [err_if (required \<and> ms = []) (NoMembers field),
        err_if (maxMembershipSize < length ms) (TooManyMembers field),
        validate_members field [] ms]"

definition endpoint_ok :: "string \<Rightarrow> bool" where
  "endpoint_ok e =
     (case url_parse e of
        None \<Rightarrow> False
      | Some u \<Rightarrow> \<not> (url_host u = [] \<or> url_user u \<or> url_path u \<noteq> [] \<and> url_path u \<noteq> ''/'' \<or>
                  url_raw_query u \<noteq> [] \<or> url_fragment u \<noteq> [] \<or>
                  url_scheme u \<noteq> ''amqp'' \<and> url_scheme u \<noteq> ''amqps'' \<and> url_scheme u \<noteq> ''amqp+ssl''))"

fun validate_descriptors ::
  "string \<Rightarrow> membership \<Rightarrow> string list \<Rightarrow> BrokerDescriptor list \<Rightarrow> control_error option" where
  "validate_descriptors field ms seen [] = None"
| "validate_descriptors field ms seen (d # ds) =
     first_err
       [validateIdentifier field (bd_id d),
        err_if (bd_id d \<notin> set ms) (DescriptorUnknown field (bd_id d)),
        err_if (bd_id d \<in> set seen) (DescriptorRepeated field (bd_id d)),
        err_if (\<not> endpoint_ok (bd_endpoint d)) (DescriptorEndpoint field (bd_id d)),
        validate_descriptors field ms (bd_id d # seen) ds]"

definition validateBrokerDescriptors ::
  "string \<Rightarrow> BrokerDescriptor list \<Rightarrow> membership \<Rightarrow> bool \<Rightarrow> control_error option" where
  "validateBrokerDescriptors field ds ms required =
     first_err
       [err_if (required \<and> length ds \<noteq> length ms) (DescriptorsIncomplete field),
        err_if (\<not> required \<and> ds \<noteq> []) (DescriptorsUnexpected field),
        validate_descriptors field ms [] ds]"

definition resource_key :: "EpochResourceIdentity \<Rightarrow> string" where
  "resource_key r = er_broker r @ [CHR 0x00] @ er_set r"

fun validate_resource_list ::
  "string \<Rightarrow> u64 \<Rightarrow> membership \<Rightarrow> string list \<Rightarrow> string list \<Rightarrow> EpochResourceIdentity list \<Rightarrow> control_error option" where
  "validate_resource_list field epoch ms seen queues [] = None"
| "validate_resource_list field epoch ms seen queues (r # rs) =
     first_err
       [err_if (er_epoch r \<noteq> epoch) (ResourceEpoch field),
        validateNameComponent field (er_broker r),
        err_if (er_broker r \<notin> set ms) (ResourceOutsideMembership field (er_broker r)),
        validateNameComponent field (er_set r),
        validateIdentifier field (er_queue r),
        validateIdentifier field (er_topic r),
        err_if (resource_key r \<in> set seen) (ResourceRepeated field),
        err_if (er_queue r \<in> set queues) (ResourceQueueRepeated field),
        validate_resource_list field epoch ms (resource_key r # seen) (er_queue r # queues) rs]"

definition broker_sets :: "EpochResourceIdentity list \<Rightarrow> string \<Rightarrow> string list" where
  "broker_sets rs b = remdups (map er_set (filter (\<lambda>r. er_broker r = b) rs))"

definition consumer_sets :: "EpochResourceIdentity list \<Rightarrow> string list" where
  "consumer_sets rs = remdups (map er_set rs)"

definition broker_coverage :: "string \<Rightarrow> EpochResourceIdentity list \<Rightarrow> string \<Rightarrow> control_error option" where
  "broker_coverage field rs b =
     first_err
       [err_if (length (broker_sets rs b) \<noteq> length (consumer_sets rs)) (ResourceCoverage field b),
        err_if (list_ex (\<lambda>c. c \<notin> set (broker_sets rs b)) (consumer_sets rs)) (ResourceCoverage field b)]"

definition validateResources ::
  "string \<Rightarrow> EpochResourceIdentity list \<Rightarrow> u64 \<Rightarrow> membership \<Rightarrow> control_error option" where
  "validateResources field rs epoch ms =
     first_err
       [err_if (rs = []) (NoResources field),
        validate_resource_list field epoch ms [] [] rs,
        first_err (map (broker_coverage field rs) ms)]"

section \<open>Validate\<close>

definition validate_transition_id :: "Transition \<Rightarrow> control_error option" where
  "validate_transition_id t = validateIdentifier ''transition ID'' (tr_id t)"

text \<open>The \<open>switch\<close> over the phase at the end of \<open>MembershipSnapshot.Validate\<close>.\<close>

definition validate_phase_shape :: "MembershipSnapshot \<Rightarrow> control_error option" where
  "validate_phase_shape s =
     (case ms_phase s of
        CtlActive \<Rightarrow>
          err_if (ms_proposed s \<noteq> [] \<or> ms_transition s \<noteq> None \<or> ms_proposed_resources s \<noteq> [] \<or>
                  ms_proposed_brokers s \<noteq> []) ActiveWithProposal
      | CtlCommitted \<Rightarrow>
          (case ms_transition s of
             None \<Rightarrow> Some CommittedShape
           | Some t \<Rightarrow>
               first_err
                 [err_if (ms_proposed s \<noteq> [] \<or> ms_proposed_resources s \<noteq> []) CommittedShape,
                  validate_transition_id t,
                  err_if (tr_from t = max_u64 \<or> tr_to t \<noteq> tr_from t + 1 \<or> ms_epoch s \<noteq> tr_to t) CommittedEpoch])
      | CtlOther p \<Rightarrow> Some UnsupportedPhase
      | _ \<Rightarrow>
          first_err
            [err_if (ms_proposed s = []) ProposalRequired,
             (case ms_transition s of
                None \<Rightarrow> None
              | Some t \<Rightarrow> validateResources ''proposed resources'' (ms_proposed_resources s) (tr_to t) (ms_proposed s)),
             err_if (ms_current s = ms_proposed s) ProposalUnchanged,
             (case ms_transition s of
                None \<Rightarrow> Some TransitionRequired
              | Some t \<Rightarrow>
                  first_err
                    [validate_transition_id t,
                     err_if (tr_from t \<noteq> ms_epoch s) TransitionFromEpoch,
                     err_if (ms_epoch s = max_u64 \<or> tr_to t \<noteq> ms_epoch s + 1) TransitionToEpoch])])"

definition Validate :: "MembershipSnapshot \<Rightarrow> control_error option" where
  "Validate s =
     first_err
       [err_if (ms_version s \<noteq> SnapshotVersion) (UnsupportedSnapshotVersion (ms_version s)),
        (if ms_namespace s \<noteq> [] then validateNameComponent ''namespace'' (ms_namespace s) else None),
        (if ms_library s \<noteq> [] then validateIdentifier ''library version'' (ms_library s) else None),
        validateIdentifier ''scaling group'' (ms_group s),
        err_if (ms_revision s = 0) ZeroRevision,
        err_if (ms_epoch s = 0) ZeroEpoch,
        validateIdentifier ''hash contract'' (ms_hash s),
        validateIdentifier ''routing algorithm'' (ms_algorithm s),
        validateMembership ''current membership'' (ms_current s) True,
        validateMembership ''proposed membership'' (ms_proposed s) False,
        validateBrokerDescriptors ''current brokers'' (ms_current_brokers s) (ms_current s) True,
        validateBrokerDescriptors ''proposed brokers'' (ms_proposed_brokers s) (ms_proposed s) (ms_proposed s \<noteq> []),
        validateIdentifier ''queue name'' (q_name (ms_queue s)),
        err_if (\<not> q_durable (ms_queue s)) QueueNotDurable,
        err_if (d_kind (ms_destination s) \<noteq> DestinationTopic) DestinationNotTopic,
        validateIdentifier ''destination name'' (d_name (ms_destination s)),
        validateResources ''current resources'' (ms_current_resources s) (ms_epoch s) (ms_current s),
        validate_phase_shape s]"

fun find_endpoint :: "string \<Rightarrow> BrokerDescriptor list \<Rightarrow> string option" where
  "find_endpoint b [] = None"
| "find_endpoint b (d # ds) = (if bd_id d = b then Some (bd_endpoint d) else find_endpoint b ds)"

definition BrokerEndpoint :: "MembershipSnapshot \<Rightarrow> string \<Rightarrow> bool \<Rightarrow> string option" where
  "BrokerEndpoint s b proposed =
     find_endpoint b (if proposed then ms_proposed_brokers s else ms_current_brokers s)"

definition snapshotsEqual :: "MembershipSnapshot \<Rightarrow> MembershipSnapshot \<Rightarrow> bool" where
  "snapshotsEqual l r \<longleftrightarrow>
     ms_version l = ms_version r \<and> ms_namespace l = ms_namespace r \<and> ms_library l = ms_library r \<and>
     ms_group l = ms_group r \<and> ms_revision l = ms_revision r \<and> ms_epoch l = ms_epoch r \<and>
     ms_phase l = ms_phase r \<and> ms_hash l = ms_hash r \<and> ms_algorithm l = ms_algorithm r \<and>
     ms_current l = ms_current r \<and> ms_proposed l = ms_proposed r \<and> ms_queue l = ms_queue r \<and>
     ms_destination l = ms_destination r \<and> ms_current_brokers l = ms_current_brokers r \<and>
     ms_proposed_brokers l = ms_proposed_brokers r \<and> ms_current_resources l = ms_current_resources r \<and>
     ms_proposed_resources l = ms_proposed_resources r \<and> ms_transition l = ms_transition r"

section \<open>Lemmas\<close>

definition identifier_ok :: "string \<Rightarrow> bool" where
  "identifier_ok v \<longleftrightarrow> validateIdentifier [] v = None"

definition name_ok :: "string \<Rightarrow> bool" where
  "name_ok v \<longleftrightarrow> validateNameComponent [] v = None"

lemma validateIdentifier_None [simp]: "validateIdentifier f v = None \<longleftrightarrow> identifier_ok v"
  by (auto simp: identifier_ok_def validateIdentifier_def split: option.splits)

lemma validateNameComponent_None [simp]: "validateNameComponent f v = None \<longleftrightarrow> name_ok v"
  by (auto simp: name_ok_def validateNameComponent_def)

lemma name_ok_identifier: "name_ok v \<Longrightarrow> identifier_ok v"
  by (simp add: name_ok_def validateNameComponent_def)

lemma identifier_ok_nonempty: "identifier_ok v \<Longrightarrow> v \<noteq> []"
  by (auto simp: identifier_ok_def validateIdentifier_def)

lemma validate_members_None:
  "validate_members f seen ms = None \<longleftrightarrow> list_all identifier_ok ms \<and> distinct ms \<and> set ms \<inter> set seen = {}"
  by (induction ms arbitrary: seen) auto

definition membership_ok :: "membership \<Rightarrow> bool" where
  "membership_ok ms \<longleftrightarrow> length ms \<le> maxMembershipSize \<and> list_all identifier_ok ms \<and> distinct ms"

lemma validateMembership_None [simp]:
  "validateMembership f ms req = None \<longleftrightarrow> (req \<longrightarrow> ms \<noteq> []) \<and> membership_ok ms"
  by (auto simp: validateMembership_def membership_ok_def validate_members_None)

lemma membership_ok_Nil [simp]: "membership_ok []"
  by (simp add: membership_ok_def)

lemma validate_descriptors_None:
  "validate_descriptors f ms seen ds = None \<longleftrightarrow>
     list_all (\<lambda>d. identifier_ok (bd_id d) \<and> bd_id d \<in> set ms \<and> endpoint_ok (bd_endpoint d)) ds \<and>
     distinct (map bd_id ds) \<and> set (map bd_id ds) \<inter> set seen = {}"
  by (induction ds arbitrary: seen) auto

definition descriptors_ok :: "BrokerDescriptor list \<Rightarrow> membership \<Rightarrow> bool" where
  "descriptors_ok ds ms \<longleftrightarrow>
     length ds = length ms \<and> distinct (map bd_id ds) \<and>
     list_all (\<lambda>d. identifier_ok (bd_id d) \<and> bd_id d \<in> set ms \<and> endpoint_ok (bd_endpoint d)) ds"

lemma validateBrokerDescriptors_required [simp]:
  "validateBrokerDescriptors f ds ms True = None \<longleftrightarrow> descriptors_ok ds ms"
  by (auto simp: validateBrokerDescriptors_def validate_descriptors_None descriptors_ok_def)

lemma validateBrokerDescriptors_None:
  "validateBrokerDescriptors f ds ms req = None \<longleftrightarrow> (if req then descriptors_ok ds ms else ds = [])"
  by (auto simp: validateBrokerDescriptors_def validate_descriptors_None descriptors_ok_def)

lemma validate_resource_list_None_field:
  "validate_resource_list f e ms seen queues rs = None \<longleftrightarrow> validate_resource_list f' e ms seen queues rs = None"
  by (induction rs arbitrary: seen queues) auto

definition resources_ok :: "EpochResourceIdentity list \<Rightarrow> u64 \<Rightarrow> membership \<Rightarrow> bool" where
  "resources_ok rs e ms \<longleftrightarrow> validateResources [] rs e ms = None"

lemma validateResources_None [simp]: "validateResources f rs e ms = None \<longleftrightarrow> resources_ok rs e ms"
  using validate_resource_list_None_field [of f e ms "[]" "[]" rs "[]"]
  by (auto simp: resources_ok_def validateResources_def broker_coverage_def)

lemma snapshotsEqual_eq [simp]: "snapshotsEqual l r \<longleftrightarrow> l = r"
  by (cases l; cases r) (auto simp: snapshotsEqual_def)

text \<open>The descriptors of a validated membership name exactly its brokers.\<close>

lemma descriptors_ok_ids:
  assumes "descriptors_ok ds ms" and "distinct ms"
  shows "set (map bd_id ds) = set ms"
proof -
  have "set (map bd_id ds) \<subseteq> set ms"
    using assms(1) by (auto simp: descriptors_ok_def list_all_iff)
  moreover have "card (set (map bd_id ds)) = card (set ms)"
    using assms by (metis descriptors_ok_def distinct_card length_map)
  ultimately show ?thesis by (simp add: card_subset_eq)
qed

lemma find_endpoint_None: "find_endpoint b ds = None \<longleftrightarrow> b \<notin> set (map bd_id ds)"
  by (induction ds) auto

lemma find_endpoint_Some: "find_endpoint b ds = Some e \<Longrightarrow> \<exists>d \<in> set ds. bd_id d = b \<and> bd_endpoint d = e"
  by (induction ds) (auto split: if_splits)

lemma resource_list_facts:
  "validate_resource_list f e ms seen queues rs = None \<Longrightarrow>
     list_all (\<lambda>r. er_epoch r = e \<and> er_broker r \<in> set ms \<and> name_ok (er_broker r) \<and> name_ok (er_set r)) rs \<and>
     distinct (map er_queue rs) \<and> set (map er_queue rs) \<inter> set queues = {}"
proof (induction rs arbitrary: seen queues)
  case (Cons r rs)
  then show ?case using Cons.IH [of "resource_key r # seen" "er_queue r # queues"] by auto
qed simp

lemma resources_ok_facts:
  assumes "resources_ok rs e ms"
  shows "rs \<noteq> []" and "list_all (\<lambda>r. er_epoch r = e \<and> er_broker r \<in> set ms) rs" and "distinct (map er_queue rs)"
    and "b \<in> set ms \<Longrightarrow> set (consumer_sets rs) \<subseteq> set (broker_sets rs b)"
  using assms resource_list_facts [of "[]" e ms "[]" "[]" rs]
  by (auto simp: resources_ok_def validateResources_def broker_coverage_def list_ex_iff list_all_iff)

subsection \<open>Printable identifiers without a colon\<close>

definition plain_char :: "char \<Rightarrow> bool" where
  "plain_char c \<longleftrightarrow> 32 \<le> byte c \<and> byte c < 127 \<and> c \<noteq> CHR '':''"

lemma utf8_runes_plain: "list_all plain_char s \<Longrightarrow> utf8_runes (bytes s) = Some (bytes s)"
  by (induction s) (auto simp: bytes_def plain_char_def)

lemma get_scheme_plain: "CHR '':'' \<notin> set s \<Longrightarrow> get_scheme_from w acc s = Some ([], w)"
  by (induction s arbitrary: acc) auto

lemma url_parse_plain:
  assumes "list_all plain_char s" and "url_parse s = Some u"
  shows "url_scheme u = []"
proof -
  have "CHR '':'' \<notin> set (fst (cut (CHR ''#'') s))"
    using assms(1) by (auto simp: cut_def list_all_iff plain_char_def dest: set_takeWhileD)
  then have "get_scheme_from (fst (cut (CHR ''#'') s)) [] (fst (cut (CHR ''#'') s)) = Some ([], fst (cut (CHR ''#'') s))"
    by (rule get_scheme_plain)
  then show ?thesis
    using assms(2) by (auto simp: url_parse_def to_lower_def Let_def split: prod.splits if_splits option.splits)
qed

lemma plain_identifier_ok:
  assumes "s \<noteq> []" and "length s \<le> 1024" and "list_all plain_char s"
  shows "identifier_ok s"
proof -
  have range: "32 \<le> byte c \<and> byte c < 127" if "c \<in> set s" for c
    using assms(3) that by (simp add: list_all_iff plain_char_def)
  have ctl: "\<forall>r \<in> set (bytes s). \<not> is_control r"
    using range by (fastforce simp: is_control_def bytes_def)
  have nul: "\<not> has_nul s"
    using range [of "CHR 0x00"] by (auto simp: has_nul_def)
  have decoded: "utf8_valid s" "runes s = bytes s"
    using utf8_runes_plain [OF assms(3)] by (simp_all add: utf8_valid_def runes_def)
  have url: "(case url_parse s of None \<Rightarrow> None
      | Some parsed \<Rightarrow> err_if (url_scheme parsed \<noteq> [] \<and> url_user parsed) (URLCredentials [])) = None"
    using url_parse_plain [OF assms(3)] by (cases "url_parse s") simp_all
  show ?thesis
    unfolding identifier_ok_def validateIdentifier_def url decoded
    using assms(1,2) ctl nul decoded(1) by (simp add: maxIdentifierBytes_def)
qed

lemma plain_name_ok:
  assumes "s \<noteq> []" and "length s \<le> 1024" and "list_all (\<lambda>c. name_rune_ok (byte c)) s"
  shows "name_ok s"
proof -
  have "list_all plain_char s"
    using assms(3) by (auto simp: list_all_iff plain_char_def name_rune_ok_def)
  with assms plain_identifier_ok [OF assms(1,2)] utf8_runes_plain show ?thesis
    by (auto simp: name_ok_def validateNameComponent_def runes_def bytes_def list_all_iff)
qed

section \<open>Properties\<close>

text \<open>
  C7. A validated snapshot describes every broker it routes to: the descriptors name exactly the
  current membership, so \<open>BrokerEndpoint\<close> finds an acceptable credential-free endpoint for each member
  and for no other identifier, and every member has a resource of the snapshot's epoch for every
  consumer set.
\<close>

theorem Validate_describes_members:
  assumes "Validate s = None"
  shows "(\<forall>b. b \<in> set (ms_current s) \<longleftrightarrow> (\<exists>e. BrokerEndpoint s b False = Some e)) \<and>
     (\<forall>b e. BrokerEndpoint s b False = Some e \<longrightarrow> endpoint_ok e) \<and>
     (\<forall>b \<in> set (ms_current s). \<forall>c \<in> set (consumer_sets (ms_current_resources s)).
        \<exists>r \<in> set (ms_current_resources s). er_broker r = b \<and> er_set r = c \<and> er_epoch r = ms_epoch s)"
proof -
  have ds: "descriptors_ok (ms_current_brokers s) (ms_current s)" and dist: "distinct (ms_current s)"
    and rs: "resources_ok (ms_current_resources s) (ms_epoch s) (ms_current s)"
    using assms by (auto simp: Validate_def membership_ok_def)
  have members: "b \<in> set (ms_current s) \<longleftrightarrow> (\<exists>e. BrokerEndpoint s b False = Some e)" for b
  proof -
    have "b \<in> set (ms_current s) \<longleftrightarrow> b \<in> set (map bd_id (ms_current_brokers s))"
      using descriptors_ok_ids [OF ds dist] by simp
    also have "\<dots> \<longleftrightarrow> find_endpoint b (ms_current_brokers s) \<noteq> None"
      by (simp add: find_endpoint_None)
    finally show ?thesis by (simp add: BrokerEndpoint_def)
  qed
  have endpoints: "endpoint_ok e" if "BrokerEndpoint s b False = Some e" for b e
    using that ds by (auto simp: BrokerEndpoint_def descriptors_ok_def list_all_iff dest!: find_endpoint_Some)
  have cover: "\<exists>r \<in> set (ms_current_resources s). er_broker r = b \<and> er_set r = c \<and> er_epoch r = ms_epoch s"
    if "b \<in> set (ms_current s)" and "c \<in> set (consumer_sets (ms_current_resources s))" for b c
    using that resources_ok_facts(2) [OF rs] resources_ok_facts(4) [OF rs that(1)]
    by (auto simp: broker_sets_def list_all_iff)
  from members endpoints cover show ?thesis by blast
qed

definition sample_resource :: "u64 \<Rightarrow> string \<Rightarrow> string \<Rightarrow> EpochResourceIdentity" where
  "sample_resource e b q = \<lparr>er_epoch = e, er_broker = b, er_set = ''main'', er_queue = q, er_topic = ''ingress''\<rparr>"

definition sample_active :: MembershipSnapshot where
  "sample_active =
     \<lparr>ms_version = 3, ms_namespace = ''ns'', ms_library = ''v1'', ms_group = ''events-a'', ms_revision = 7,
      ms_epoch = 1, ms_phase = CtlActive, ms_hash = ''entity-affinity-v1'', ms_algorithm = ''swlb-rendezvous-v1'',
      ms_current = [''broker-a''], ms_proposed = [],
      ms_current_brokers = [\<lparr>bd_id = ''broker-a'', bd_endpoint = ''amqps://a.example:5671''\<rparr>],
      ms_proposed_brokers = [], ms_transition = None, ms_queue = \<lparr>q_name = ''queue'', q_durable = True\<rparr>,
      ms_destination = \<lparr>d_kind = DestinationTopic, d_name = ''events''\<rparr>,
      ms_current_resources = [sample_resource 1 ''broker-a'' ''q-a-1''], ms_proposed_resources = []\<rparr>"

lemma sample_endpoint_ok: "endpoint_ok ''amqps://a.example:5671''" "endpoint_ok ''amqps://b.example:5671''"
  by (simp_all add: endpoint_ok_def url_parse_def cut_def is_alpha_def is_digit_def is_lower_def parse_authority_def
      cut_last_def parse_host_def to_lower_def host_char_ok_def)

lemma sample_names_ok [simp]:
  "name_ok ''broker-a''" "name_ok ''broker-b''" "name_ok ''main''" "name_ok ''ns''"
  by (simp_all add: plain_name_ok name_rune_ok_def)

lemma sample_identifiers_ok [simp]:
  "identifier_ok ''broker-a''" "identifier_ok ''broker-b''" "identifier_ok ''v1''" "identifier_ok ''events-a''"
  "identifier_ok ''entity-affinity-v1''" "identifier_ok ''swlb-rendezvous-v1''" "identifier_ok ''queue''"
  "identifier_ok ''events''" "identifier_ok ''ingress''" "identifier_ok ''q-a-1''" "identifier_ok ''q-a-2''"
  "identifier_ok ''q-b-2''" "identifier_ok ''t1''"
  by (simp_all add: plain_identifier_ok plain_char_def)

lemma sample_active_valid: "Validate sample_active = None"
  by (simp add: Validate_def sample_active_def SnapshotVersion_def membership_ok_def maxMembershipSize_def
      descriptors_ok_def sample_endpoint_ok resources_ok_def validateResources_def broker_coverage_def
      broker_sets_def consumer_sets_def sample_resource_def validate_phase_shape_def validateBrokerDescriptors_None)

definition sample_prepare :: MembershipSnapshot where
  "sample_prepare = sample_active
     \<lparr>ms_revision := 8, ms_phase := CtlPrepare, ms_proposed := [''broker-a'', ''broker-b''],
      ms_proposed_brokers := [\<lparr>bd_id = ''broker-a'', bd_endpoint = ''amqps://a.example:5671''\<rparr>,
                              \<lparr>bd_id = ''broker-b'', bd_endpoint = ''amqps://b.example:5671''\<rparr>],
      ms_transition := Some \<lparr>tr_id = ''t1'', tr_from = 1, tr_to = 2\<rparr>,
      ms_proposed_resources := [sample_resource 2 ''broker-a'' ''q-a-2'', sample_resource 2 ''broker-b'' ''q-b-2'']\<rparr>"

lemma sample_prepare_valid: "Validate sample_prepare = None"
  by (simp add: Validate_def sample_prepare_def sample_active_def SnapshotVersion_def membership_ok_def
      maxMembershipSize_def descriptors_ok_def sample_endpoint_ok resources_ok_def validateResources_def
      broker_coverage_def broker_sets_def consumer_sets_def sample_resource_def validate_phase_shape_def
      validateBrokerDescriptors_None validate_transition_id_def resource_key_def max_u64_def)

theorem Validate_describes_members_witness:
  "Validate sample_active = None \<and> (\<exists>e. BrokerEndpoint sample_active ''broker-a'' False = Some e)"
proof -
  have "''broker-a'' \<in> set (ms_current sample_active)" by (simp add: sample_active_def)
  then show ?thesis
    using sample_active_valid Validate_describes_members [OF sample_active_valid] by blast
qed

end
