(* ===== verification/Reconciler.thy ===== *)
theory Reconciler
  imports Snapshot "HOL-Library.Product_Lexorder"
begin

text \<open>
  The client-side bootstrap reconciler (\<^verbatim>\<open>control/reconciler.go\<close>): a participant subscribes, takes an
  authoritative baseline, buffers the updates that arrive meanwhile, and then installs updates only
  when they advance the revision along the coordinated transition. The mutex makes every method one
  atomic step, so a run is a sequence of steps of the relation \<open>rec_step\<close>. \<open>Clone\<close> protects against
  aliasing and is the identity on the values of the model. \<open>NilDereference\<close> stands for the panic of a
  nil \<open>current\<close> pointer; the invariant shows that it is never reached.
\<close>

section \<open>State\<close>

datatype reconcile_error =
    NotSubscribed
  | SnapshotRequired
  | StaleUpdate
  | ConflictingUpdate
  | AlreadyStarted
  | InvalidSnapshot control_error
  | GroupChanged string string
  | VersionChanged
  | BaselineFinished
  | NilDereference

record Reconciler =
  rec_started :: bool
  rec_ready :: bool
  rec_baseline :: "MembershipSnapshot option"
  rec_buffered :: "MembershipSnapshot list"
  rec_current :: "MembershipSnapshot option"
  rec_group :: string

definition NewReconciler :: Reconciler where
  "NewReconciler =
     \<lparr>rec_started = False, rec_ready = False, rec_baseline = None, rec_buffered = [], rec_current = None,
      rec_group = []\<rparr>"

section \<open>Comparing snapshots\<close>

definition validateRoutingCompatibility :: "MembershipSnapshot \<Rightarrow> MembershipSnapshot \<Rightarrow> reconcile_error option" where
  "validateRoutingCompatibility l r =
     err_if (ms_namespace l \<noteq> ms_namespace r \<or> ms_library l \<noteq> ms_library r \<or> ms_hash l \<noteq> ms_hash r \<or>
             ms_algorithm l \<noteq> ms_algorithm r \<or> ms_queue l \<noteq> ms_queue r \<or> ms_destination l \<noteq> ms_destination r)
       ConflictingUpdate"

fun phase_rank :: "ctl_phase \<Rightarrow> nat" where
  "phase_rank CtlPrepare = 1"
| "phase_rank CtlPaused = 2"
| "phase_rank CtlDrain = 3"
| "phase_rank _ = 0"

definition same_current :: "MembershipSnapshot \<Rightarrow> MembershipSnapshot \<Rightarrow> bool" where
  "same_current l r \<longleftrightarrow> ms_current r = ms_current l \<and> ms_current_resources r = ms_current_resources l"

definition takes_proposal :: "MembershipSnapshot \<Rightarrow> MembershipSnapshot \<Rightarrow> bool" where
  "takes_proposal l r \<longleftrightarrow> ms_current r = ms_proposed l \<and> ms_current_resources r = ms_proposed_resources l"

definition validateAdvance :: "MembershipSnapshot \<Rightarrow> MembershipSnapshot \<Rightarrow> reconcile_error option" where
  "validateAdvance l r =
     (case validateRoutingCompatibility l r of
        Some e \<Rightarrow> Some e
      | None \<Rightarrow>
          if ms_phase r = CtlActive then
            (if ms_phase l = CtlActive then
               err_if (ms_epoch r = ms_epoch l \<and> \<not> same_current l r) ConflictingUpdate
             else case ms_transition l of
                    None \<Rightarrow> Some ConflictingUpdate
                  | Some t \<Rightarrow>
                      if ms_epoch r = ms_epoch l then err_if (\<not> same_current l r) ConflictingUpdate
                      else err_if (ms_epoch r \<noteq> tr_to t \<or> \<not> takes_proposal l r) ConflictingUpdate)
          else if ms_phase r = CtlCommitted then
            (case (ms_transition l, ms_transition r) of
               (Some t, Some t') \<Rightarrow>
                 err_if (ms_phase l \<noteq> CtlDrain \<or> t \<noteq> t' \<or> ms_epoch r \<noteq> tr_to t \<or> \<not> takes_proposal l r) ConflictingUpdate
             | _ \<Rightarrow> Some ConflictingUpdate)
          else if ms_phase l = CtlCommitted then Some ConflictingUpdate
          else if ms_phase l = CtlActive then
            err_if (ms_phase r \<noteq> CtlPrepare \<or> ms_epoch r \<noteq> ms_epoch l \<or> \<not> same_current l r) ConflictingUpdate
          else case (ms_transition l, ms_transition r) of
                 (Some t, Some t') \<Rightarrow>
                   first_err
                     [err_if (t \<noteq> t' \<or> ms_epoch r \<noteq> ms_epoch l \<or> \<not> same_current l r \<or>
                              ms_proposed r \<noteq> ms_proposed l \<or> ms_proposed_resources r \<noteq> ms_proposed_resources l)
                        ConflictingUpdate,
                      err_if (phase_rank (ms_phase r) < phase_rank (ms_phase l)) StaleUpdate]
               | _ \<Rightarrow> Some ConflictingUpdate)"

text \<open>The sign of the comparison: \<open>-1\<close> when the right snapshot advances the left one.\<close>

definition compareSnapshots :: "MembershipSnapshot \<Rightarrow> MembershipSnapshot \<Rightarrow> reconcile_error + int" where
  "compareSnapshots l r =
     (if ms_version l \<noteq> ms_version r then Inl VersionChanged
      else if ms_group l \<noteq> ms_group r then Inl (GroupChanged (ms_group l) (ms_group r))
      else if ms_revision r = ms_revision l then
        (if snapshotsEqual l r then Inr 0 else Inl ConflictingUpdate)
      else if ms_revision r < ms_revision l then
        (if ms_epoch l < ms_epoch r then Inl ConflictingUpdate else Inr 1)
      else if ms_epoch r < ms_epoch l then Inr 1
      else case validateAdvance l r of Some e \<Rightarrow> Inl e | None \<Rightarrow> Inr (- 1))"

section \<open>Operations\<close>

definition BeginSubscribe :: "Reconciler \<Rightarrow> reconcile_error option \<times> Reconciler" where
  "BeginSubscribe r =
     (if rec_started r then (Some AlreadyStarted, r) else (None, r\<lparr>rec_started := True\<rparr>))"

definition adopt_group :: "MembershipSnapshot \<Rightarrow> Reconciler \<Rightarrow> Reconciler" where
  "adopt_group s r = (if rec_group r = [] then r\<lparr>rec_group := ms_group s\<rparr> else r)"

definition wrong_group :: "MembershipSnapshot \<Rightarrow> Reconciler \<Rightarrow> bool" where
  "wrong_group s r \<longleftrightarrow> rec_group r \<noteq> [] \<and> ms_group s \<noteq> rec_group r"

definition ApplyBaseline :: "MembershipSnapshot \<Rightarrow> Reconciler \<Rightarrow> reconcile_error option \<times> Reconciler" where
  "ApplyBaseline s r =
     (case Validate s of
        Some e \<Rightarrow> (Some (InvalidSnapshot e), r)
      | None \<Rightarrow>
          if \<not> rec_started r then (Some NotSubscribed, r)
          else if wrong_group s r then (Some (GroupChanged (rec_group r) (ms_group s)), r)
          else let r = adopt_group s r in
            if rec_ready r then (Some BaselineFinished, r)
            else case rec_baseline r of
                   None \<Rightarrow> (None, r\<lparr>rec_baseline := Some s\<rparr>)
                 | Some b \<Rightarrow>
                     (case compareSnapshots b s of
                        Inl e \<Rightarrow> (Some e, r)
                      | Inr c \<Rightarrow>
                          if c < 0 then (None, r\<lparr>rec_baseline := Some s\<rparr>)
                          else if 0 < c \<and> ms_revision b < ms_revision s then (Some StaleUpdate, r)
                          else (None, r)))"

definition applyLocked :: "MembershipSnapshot \<Rightarrow> Reconciler \<Rightarrow> (bool \<times> reconcile_error option) \<times> Reconciler" where
  "applyLocked s r =
     (case rec_current r of
        None \<Rightarrow> ((False, Some NilDereference), r)
      | Some cur \<Rightarrow>
          (case compareSnapshots cur s of
             Inl e \<Rightarrow> ((False, Some e), r)
           | Inr c \<Rightarrow>
               if 0 < c then ((False, Some StaleUpdate), r)
               else if c = 0 then ((False, None), r)
               else ((True, None), r\<lparr>rec_current := Some s\<rparr>)))"

definition ApplyUpdate :: "MembershipSnapshot \<Rightarrow> Reconciler \<Rightarrow> (bool \<times> reconcile_error option) \<times> Reconciler" where
  "ApplyUpdate s r =
     (case Validate s of
        Some e \<Rightarrow> ((False, Some (InvalidSnapshot e)), r)
      | None \<Rightarrow>
          if \<not> rec_started r then ((False, Some NotSubscribed), r)
          else if wrong_group s r then ((False, Some (GroupChanged (rec_group r) (ms_group s))), r)
          else let r = adopt_group s r in
            if \<not> rec_ready r then ((False, None), r\<lparr>rec_buffered := rec_buffered r @ [s]\<rparr>)
            else applyLocked s r)"

text \<open>The loop of \<open>FinishBootstrap\<close> over the sorted buffer.\<close>

fun replay_buffer :: "MembershipSnapshot \<Rightarrow> MembershipSnapshot list \<Rightarrow> reconcile_error + MembershipSnapshot" where
  "replay_buffer cur [] = Inr cur"
| "replay_buffer cur (u # us) =
     (case compareSnapshots cur u of
        Inl e \<Rightarrow> Inl e
      | Inr c \<Rightarrow>
          if 0 < c then (if ms_revision cur < ms_revision u then Inl StaleUpdate else replay_buffer cur us)
          else if c = 0 then replay_buffer cur us
          else replay_buffer u us)"

definition FinishBootstrap :: "Reconciler \<Rightarrow> (reconcile_error + MembershipSnapshot) \<times> Reconciler" where
  "FinishBootstrap r =
     (if \<not> rec_started r then (Inl NotSubscribed, r)
      else if rec_ready r then
        (case rec_current r of None \<Rightarrow> (Inl NilDereference, r) | Some cur \<Rightarrow> (Inr cur, r))
      else case rec_baseline r of
             None \<Rightarrow> (Inl SnapshotRequired, r)
           | Some b \<Rightarrow>
               let sorted_updates = sort_key (\<lambda>s. (ms_revision s, ms_epoch s)) (rec_buffered r) in
               (case replay_buffer b sorted_updates of
                  Inl e \<Rightarrow> (Inl e, r\<lparr>rec_buffered := sorted_updates, rec_current := None\<rparr>)
                | Inr cur \<Rightarrow>
                    (Inr cur, r\<lparr>rec_buffered := [], rec_baseline := None, rec_current := Some cur, rec_ready := True\<rparr>)))"

definition Reconciler_Snapshot :: "Reconciler \<Rightarrow> MembershipSnapshot option" where
  "Reconciler_Snapshot r = (if \<not> rec_ready r then None else rec_current r)"

section \<open>Runs\<close>

inductive rec_step :: "Reconciler \<Rightarrow> Reconciler \<Rightarrow> bool" where
  subscribe: "rec_step r (snd (BeginSubscribe r))"
| baseline: "rec_step r (snd (ApplyBaseline s r))"
| update: "rec_step r (snd (ApplyUpdate s r))"
| finish: "rec_step r (snd (FinishBootstrap r))"

inductive rec_reach :: "Reconciler \<Rightarrow> bool" where
  new: "rec_reach NewReconciler"
| step: "rec_reach r \<Longrightarrow> rec_step r r' \<Longrightarrow> rec_reach r'"

section \<open>Lemmas\<close>

definition same_contract :: "MembershipSnapshot \<Rightarrow> MembershipSnapshot \<Rightarrow> bool" where
  "same_contract l r \<longleftrightarrow>
     ms_version l = ms_version r \<and> ms_group l = ms_group r \<and> ms_namespace l = ms_namespace r \<and>
     ms_library l = ms_library r \<and> ms_hash l = ms_hash r \<and> ms_algorithm l = ms_algorithm r \<and>
     ms_queue l = ms_queue r \<and> ms_destination l = ms_destination r"

definition advances :: "MembershipSnapshot \<Rightarrow> MembershipSnapshot \<Rightarrow> bool" where
  "advances l r \<longleftrightarrow> ms_revision l < ms_revision r \<and> ms_epoch l \<le> ms_epoch r \<and> same_contract l r"

lemma same_contract_trans: "same_contract a b \<Longrightarrow> same_contract b c \<Longrightarrow> same_contract a c"
  by (simp add: same_contract_def)

lemma advances_trans: "advances a b \<Longrightarrow> advances b c \<Longrightarrow> advances a c"
  by (auto simp: advances_def intro: same_contract_trans)

lemma validateAdvance_contract:
  "validateAdvance l r = None \<Longrightarrow> ms_version l = ms_version r \<Longrightarrow> ms_group l = ms_group r \<Longrightarrow> same_contract l r"
  by (auto simp: validateAdvance_def validateRoutingCompatibility_def same_contract_def split: option.splits)

lemma compareSnapshots_less: "compareSnapshots l r = Inr c \<Longrightarrow> c < 0 \<Longrightarrow> advances l r"
  by (auto simp: compareSnapshots_def advances_def dest: validateAdvance_contract split: if_splits option.splits)

lemma compareSnapshots_zero: "compareSnapshots l r = Inr c \<Longrightarrow> c = 0 \<Longrightarrow> r = l"
  by (auto simp: compareSnapshots_def split: if_splits option.splits)

lemma compareSnapshots_greater:
  "compareSnapshots l r = Inr c \<Longrightarrow> 0 < c \<Longrightarrow> ms_revision r < ms_revision l \<or> ms_epoch r < ms_epoch l"
  by (auto simp: compareSnapshots_def split: if_splits option.splits)

lemma compareSnapshots_refl: "compareSnapshots l l = Inr 0"
  by (simp add: compareSnapshots_def)

lemma compareSnapshots_group: "compareSnapshots l r = Inr c \<Longrightarrow> ms_group r = ms_group l"
  by (auto simp: compareSnapshots_def split: if_splits)

lemma replay_buffer_result:
  "replay_buffer cur us = Inr fin \<Longrightarrow>
     (fin = cur \<or> fin \<in> set us \<and> advances cur fin) \<and> (\<forall>u \<in> set us. ms_revision u \<le> ms_revision fin)"
proof (induction cur us rule: replay_buffer.induct)
  case (2 cur u us)
  then obtain c where c: "compareSnapshots cur u = Inr c"
    by (auto split: sum.splits)
  consider "0 < c" | "c = 0" | "c < 0" by linarith
  then show ?case
  proof cases
    case 1
    with 2 c have IH: "(fin = cur \<or> fin \<in> set us \<and> advances cur fin) \<and> (\<forall>u \<in> set us. ms_revision u \<le> ms_revision fin)"
      and "\<not> ms_revision cur < ms_revision u"
      by (auto split: if_splits)
    then show ?thesis by (auto simp: advances_def)
  next
    case 2
    with "2.IH"(2) "2.prems" c compareSnapshots_zero [OF c] show ?thesis
      by (auto simp: advances_def)
  next
    case 3
    then have adv: "advances cur u" using c by (simp add: compareSnapshots_less)
    with "2.IH"(3) "2.prems" c 3 show ?thesis
      by (auto simp: advances_def dest: same_contract_trans [rotated])
  qed
qed simp

definition rec_inv :: "Reconciler \<Rightarrow> bool" where
  "rec_inv r \<longleftrightarrow>
     (rec_ready r \<longleftrightarrow> rec_current r \<noteq> None) \<and>
     (rec_ready r \<longrightarrow> rec_started r \<and> rec_baseline r = None \<and> rec_buffered r = []) \<and>
     (\<forall>s \<in> set_option (rec_current r) \<union> set_option (rec_baseline r) \<union> set (rec_buffered r).
        Validate s = None \<and> ms_group s = rec_group r)"

lemma Validate_group_nonempty: "Validate s = None \<Longrightarrow> ms_group s \<noteq> []"
  by (auto simp: Validate_def dest: identifier_ok_nonempty)

lemma adopt_group_group [simp]: "Validate s = None \<Longrightarrow> \<not> wrong_group s r \<Longrightarrow> rec_group (adopt_group s r) = ms_group s"
  by (auto simp: adopt_group_def wrong_group_def)

lemma adopt_group_fields [simp]:
  "rec_ready (adopt_group s r) = rec_ready r" "rec_started (adopt_group s r) = rec_started r"
  "rec_current (adopt_group s r) = rec_current r" "rec_baseline (adopt_group s r) = rec_baseline r"
  "rec_buffered (adopt_group s r) = rec_buffered r"
  by (simp_all add: adopt_group_def)

lemma rec_inv_no_group:
  assumes "rec_inv r" and "rec_group r = []"
  shows "rec_current r = None" "rec_baseline r = None" "rec_buffered r = []"
proof -
  have none: "s \<notin> set_option (rec_current r) \<union> set_option (rec_baseline r) \<union> set (rec_buffered r)" for s
    using assms Validate_group_nonempty [of s] unfolding rec_inv_def by metis
  show "rec_current r = None" using none by (cases "rec_current r") auto
  show "rec_baseline r = None" using none by (cases "rec_baseline r") auto
  show "rec_buffered r = []" using none by (cases "rec_buffered r") auto
qed

lemma rec_inv_adopt: "rec_inv r \<Longrightarrow> Validate s = None \<Longrightarrow> \<not> wrong_group s r \<Longrightarrow> rec_inv (adopt_group s r)"
proof (cases "rec_group r = []")
  case True
  assume "rec_inv r"
  with rec_inv_no_group [OF this True] True show ?thesis by (simp add: rec_inv_def adopt_group_def)
qed (simp add: adopt_group_def)

lemma ApplyBaseline_inv: "rec_inv r \<Longrightarrow> rec_inv (snd (ApplyBaseline s r))"
  using rec_inv_adopt [of r s]
  by (auto simp: ApplyBaseline_def Let_def rec_inv_def split: option.splits sum.splits)

lemma applyLocked_inv:
  "rec_inv r \<Longrightarrow> Validate s = None \<Longrightarrow> ms_group s = rec_group r \<Longrightarrow> rec_inv (snd (applyLocked s r))"
  by (auto simp: applyLocked_def rec_inv_def split: option.splits sum.splits)

lemma rec_inv_buffer:
  "rec_inv r \<Longrightarrow> Validate s = None \<Longrightarrow> ms_group s = rec_group r \<Longrightarrow> \<not> rec_ready r \<Longrightarrow>
     rec_inv (r\<lparr>rec_buffered := rec_buffered r @ [s]\<rparr>)"
  by (auto simp: rec_inv_def)

lemma ApplyUpdate_inv:
  assumes "rec_inv r"
  shows "rec_inv (snd (ApplyUpdate s r))"
proof (cases "Validate s = None \<and> rec_started r \<and> \<not> wrong_group s r")
  case True
  then have "rec_inv (adopt_group s r)" and "ms_group s = rec_group (adopt_group s r)"
    using assms rec_inv_adopt by simp_all
  with True show ?thesis
    by (auto simp: ApplyUpdate_def Let_def intro: applyLocked_inv
        rec_inv_buffer [of "adopt_group s r" s, simplified])
next
  case False
  with assms show ?thesis by (auto simp: ApplyUpdate_def split: option.splits)
qed

lemma FinishBootstrap_inv: "rec_inv r \<Longrightarrow> rec_inv (snd (FinishBootstrap r))"
  by (auto simp: FinishBootstrap_def Let_def rec_inv_def dest!: replay_buffer_result split: option.splits sum.splits)

lemma BeginSubscribe_inv: "rec_inv r \<Longrightarrow> rec_inv (snd (BeginSubscribe r))"
  by (auto simp: BeginSubscribe_def rec_inv_def)

lemma rec_step_inv: "rec_step r r' \<Longrightarrow> rec_inv r \<Longrightarrow> rec_inv r'"
  by (induction rule: rec_step.induct)
    (simp_all add: BeginSubscribe_inv ApplyBaseline_inv ApplyUpdate_inv FinishBootstrap_inv)

lemma rec_reach_inv: "rec_reach r \<Longrightarrow> rec_inv r"
proof (induction rule: rec_reach.induct)
  case new
  then show ?case by (simp add: rec_inv_def NewReconciler_def)
qed (rule rec_step_inv)

text \<open>One step either keeps the installed snapshot or advances it.\<close>

lemma rec_step_forward:
  assumes "rec_step r r'" and "rec_inv r" and "rec_current r = Some cur"
  shows "\<exists>cur'. rec_current r' = Some cur' \<and> (cur' = cur \<or> advances cur cur')"
  using assms
proof (induction rule: rec_step.induct)
  case (subscribe r)
  then show ?case by (simp add: BeginSubscribe_def)
next
  case (baseline r s)
  then show ?case
    by (auto simp: ApplyBaseline_def Let_def rec_inv_def split: option.splits)
next
  case (update r s)
  then show ?case
    by (auto simp: ApplyUpdate_def applyLocked_def Let_def rec_inv_def dest: compareSnapshots_less
        split: option.splits sum.splits)
next
  case (finish r)
  then show ?case by (auto simp: FinishBootstrap_def rec_inv_def)
qed

lemma rec_steps_forward:
  assumes "rec_step\<^sup>*\<^sup>* r r'" and "rec_inv r" and "rec_current r = Some cur"
  shows "rec_inv r' \<and> (\<exists>cur'. rec_current r' = Some cur' \<and> (cur' = cur \<or> advances cur cur'))"
  using assms(1)
proof (induction rule: rtranclp_induct)
  case base
  then show ?case using assms(2,3) by simp
next
  case (step y z)
  then obtain c where c: "rec_inv y" "rec_current y = Some c" "c = cur \<or> advances cur c" by blast
  then obtain d where "rec_current z = Some d" "d = c \<or> advances c d"
    using rec_step_forward [OF step.hyps(2)] by blast
  with c step.hyps(2) show ?case by (auto intro: advances_trans rec_step_inv)
qed

section \<open>Properties\<close>

definition sample_subscribed :: Reconciler where
  "sample_subscribed = snd (ApplyUpdate sample_prepare (snd (ApplyBaseline sample_active (snd (BeginSubscribe NewReconciler)))))"

definition sample_ready :: Reconciler where
  "sample_ready = snd (FinishBootstrap (snd (ApplyBaseline sample_active (snd (BeginSubscribe NewReconciler)))))"

lemma sample_subscribed_eq:
  "sample_subscribed = \<lparr>rec_started = True, rec_ready = False, rec_baseline = Some sample_active,
     rec_buffered = [sample_prepare], rec_current = None, rec_group = ''events-a''\<rparr>"
  by (simp add: sample_subscribed_def BeginSubscribe_def NewReconciler_def ApplyBaseline_def ApplyUpdate_def
      sample_active_valid sample_prepare_valid wrong_group_def adopt_group_def)
    (simp add: sample_active_def sample_prepare_def)

lemma sample_ready_eq:
  "sample_ready = \<lparr>rec_started = True, rec_ready = True, rec_baseline = None, rec_buffered = [],
     rec_current = Some sample_active, rec_group = ''events-a''\<rparr>"
  by (simp add: sample_ready_def BeginSubscribe_def NewReconciler_def ApplyBaseline_def FinishBootstrap_def
      sample_active_valid wrong_group_def adopt_group_def) (simp add: sample_active_def)

lemma sample_prepare_advances: "compareSnapshots sample_active sample_prepare = Inr (- 1)"
  by (simp add: compareSnapshots_def validateAdvance_def validateRoutingCompatibility_def same_current_def
      sample_prepare_def sample_active_def)

text \<open>
  C8. Installed control state only moves forward. From any reachable reconciler that has a current
  snapshot, whatever sequence of subscriptions, baselines, updates and bootstrap calls follows, the
  reconciler still has a valid snapshot, and it is the same one or one of a strictly higher revision, an
  epoch that is not lower, and the same group, namespace, library, hash contract, algorithm, queue and
  destination.
\<close>

theorem reconciler_moves_forward:
  assumes "rec_reach r" and "rec_step\<^sup>*\<^sup>* r r'" and "rec_current r = Some cur"
  shows "\<exists>cur'. rec_current r' = Some cur' \<and> Validate cur' = None \<and>
     (cur' = cur \<or> ms_revision cur < ms_revision cur' \<and> ms_epoch cur \<le> ms_epoch cur' \<and> same_contract cur cur')"
proof -
  obtain cur' where cur': "rec_inv r'" "rec_current r' = Some cur'" "cur' = cur \<or> advances cur cur'"
    using rec_steps_forward [OF assms(2) rec_reach_inv [OF assms(1)] assms(3)] by blast
  then have "Validate cur' = None" by (auto simp: rec_inv_def)
  with cur' show ?thesis by (auto simp: advances_def)
qed

theorem reconciler_moves_forward_witness:
  "rec_reach sample_ready \<and> rec_current sample_ready = Some sample_active \<and>
   (\<exists>cur'. rec_current (snd (ApplyUpdate sample_prepare sample_ready)) = Some cur' \<and> Validate cur' = None \<and>
      (cur' = sample_active \<or> ms_revision sample_active < ms_revision cur' \<and>
       ms_epoch sample_active \<le> ms_epoch cur' \<and> same_contract sample_active cur'))"
proof -
  have reach: "rec_reach sample_ready"
    unfolding sample_ready_def by (intro rec_reach.step [OF _ rec_step.finish] rec_reach.step [OF _ rec_step.baseline]
        rec_reach.step [OF _ rec_step.subscribe] rec_reach.new)
  have cur: "rec_current sample_ready = Some sample_active" by (simp add: sample_ready_eq)
  have "rec_step\<^sup>*\<^sup>* sample_ready (snd (ApplyUpdate sample_prepare sample_ready))"
    by (intro r_into_rtranclp rec_step.update)
  from reach cur reconciler_moves_forward [OF reach this cur] show ?thesis by blast
qed

text \<open>
  C9. Bootstrap installs the newest state it has seen: when \<open>FinishBootstrap\<close> succeeds for the first
  time, the installed snapshot is the baseline or one of the buffered updates, no buffered update and
  not the baseline has a higher revision, and the reconciler is ready with that snapshot and an empty
  buffer.
\<close>

theorem FinishBootstrap_installs_newest:
  assumes "rec_baseline r = Some b" and "\<not> rec_ready r" and "FinishBootstrap r = (Inr cur, r')"
  shows "cur \<in> insert b (set (rec_buffered r)) \<and>
     (\<forall>u \<in> insert b (set (rec_buffered r)). ms_revision u \<le> ms_revision cur) \<and>
     rec_ready r' \<and> Reconciler_Snapshot r' = Some cur \<and> rec_buffered r' = [] \<and> rec_baseline r' = None"
proof -
  have "replay_buffer b (sort_key (\<lambda>s. (ms_revision s, ms_epoch s)) (rec_buffered r)) = Inr cur"
    and r': "r' = r\<lparr>rec_buffered := [], rec_baseline := None, rec_current := Some cur, rec_ready := True\<rparr>"
    using assms by (auto simp: FinishBootstrap_def Let_def split: sum.splits if_splits)
  from replay_buffer_result [OF this(1)] r' show ?thesis
    by (auto simp: advances_def Reconciler_Snapshot_def)
qed

theorem FinishBootstrap_installs_newest_witness:
  "sample_prepare \<in> insert sample_active (set (rec_buffered sample_subscribed)) \<and>
   ms_revision sample_active \<le> ms_revision sample_prepare"
proof -
  obtain r' where fin: "FinishBootstrap sample_subscribed = (Inr sample_prepare, r')"
    by (simp add: FinishBootstrap_def sample_subscribed_eq sample_prepare_advances)
  have "rec_baseline sample_subscribed = Some sample_active" "\<not> rec_ready sample_subscribed"
    by (simp_all add: sample_subscribed_eq)
  from FinishBootstrap_installs_newest [OF this fin] show ?thesis by blast
qed

end
