(* ===== verification/Transition_Spec.thy ===== *)
theory Transition_Spec
  imports Snapshot
begin

text \<open>
  The immutable input of a membership transition (\<^verbatim>\<open>controller/types.go\<close>) and the snapshots the
  controller derives from it (\<open>controlSnapshot\<close> in \<^verbatim>\<open>controller/controller.go\<close>): phases, participant
  requirements, validation, and the one snapshot per phase with its revision. The main fact is that a
  validated specification yields a valid snapshot in every phase and for a rollback.
\<close>

section \<open>Data\<close>

datatype Phase =
    PhasePrepare
  | PhasePause
  | PhaseDrain
  | PhaseCommit
  | PhaseActivate
  | PhaseOther string

fun phase_string :: "Phase \<Rightarrow> string" where
  "phase_string PhasePrepare = ''PREPARE''"
| "phase_string PhasePause = ''PAUSE''"
| "phase_string PhaseDrain = ''DRAIN''"
| "phase_string PhaseCommit = ''COMMIT''"
| "phase_string PhaseActivate = ''ACTIVATE''"
| "phase_string (PhaseOther s) = s"

datatype controller_error =
    ErrTransitionInProgress
  | ErrTransitionNotFound
  | ErrStaleMessage
  | ErrUnknownParticipant
  | ErrCommitReached
  | ErrRollbackUnproven
  | ErrPhaseDeadline Phase
  | ErrReadinessStale
  | ErrInvalidSpec string
  | ErrUnsupportedPhase Phase
  | ErrParticipantEmpty
  | ErrParticipantRepeated string
  | ErrRole control_error
  | ErrRolePhase ParticipantRole Phase
  | ErrBrokerFields
  | ErrBrokerRepeated string
  | ErrSnapshotInvalid control_error
  | ErrNotPrepareSnapshot
  | ErrPersist
  | ErrMembershipRegressed string
  | ErrMembershipConflict string
  | ErrPublish Phase
  | ErrFenceCall string
  | ErrInvalidState string
  | ErrLoad string

record Broker =
  br_id :: string
  br_destination :: string

record ParticipantRequirement =
  pr_participant :: string
  pr_role :: ParticipantRole

record TransitionSpec =
  ts_id :: string
  ts_namespace :: string
  ts_library :: string
  ts_group :: string
  ts_revision :: u64
  ts_from :: u64
  ts_to :: u64
  ts_current :: "Broker list"
  ts_proposed :: "Broker list"
  ts_current_brokers :: "BrokerDescriptor list"
  ts_proposed_brokers :: "BrokerDescriptor list"
  ts_queue :: QueueInfo
  ts_destination :: DestinationInfo
  ts_current_resources :: "EpochResourceIdentity list"
  ts_proposed_resources :: "EpochResourceIdentity list"
  ts_hash :: string
  ts_algorithm :: string
  ts_drain_grace :: duration
  ts_required :: "string list"
  ts_participants :: "(Phase, string list) gomap"
  ts_roles :: "(Phase, ParticipantRequirement list) gomap"

section \<open>Participant requirements\<close>

fun validRequirementPhase :: "Phase \<Rightarrow> bool" where
  "validRequirementPhase (PhaseOther s) = False"
| "validRequirementPhase _ = True"

fun roleAllowedForPhase :: "ParticipantRole \<Rightarrow> Phase \<Rightarrow> bool" where
  "roleAllowedForPhase RolePublisher ph = (ph = PhasePause \<or> ph = PhaseActivate)"
| "roleAllowedForPhase RoleSubscriber ph = (ph = PhasePrepare \<or> ph = PhaseDrain \<or> ph = PhaseActivate)"
| "roleAllowedForPhase RoleBroker ph = validRequirementPhase ph"
| "roleAllowedForPhase _ ph = False"

fun check_requirements :: "Phase \<Rightarrow> string list \<Rightarrow> ParticipantRequirement list \<Rightarrow> controller_error option" where
  "check_requirements ph seen [] = None"
| "check_requirements ph seen (r # rs) =
     first_err
       [err_if (pr_participant r = []) ErrParticipantEmpty,
        err_if (pr_participant r \<in> set seen) (ErrParticipantRepeated (pr_participant r)),
        (if pr_role r \<noteq> RoleUnset then
           first_err [map_option ErrRole (role_Validate (pr_role r)),
                      err_if (\<not> roleAllowedForPhase (pr_role r) ph) (ErrRolePhase (pr_role r) ph)]
         else None),
        check_requirements ph (pr_participant r # seen) rs]"

definition untyped :: "string \<Rightarrow> ParticipantRequirement" where
  "untyped p = \<lparr>pr_participant = p, pr_role = RoleUnset\<rparr>"

text \<open>The legacy maps contribute a phase only when they name a participant for it.\<close>

definition legacy_requirements :: "TransitionSpec \<Rightarrow> (Phase, string list) gomap" where
  "legacy_requirements s =
     (if ts_participants s = [] then
        map (\<lambda>ph. (ph, ts_required s)) [PhasePrepare, PhasePause, PhaseDrain, PhaseActivate]
      else ts_participants s)"

definition requirement_table :: "TransitionSpec \<Rightarrow> (Phase, ParticipantRequirement list) gomap" where
  "requirement_table s =
     (if ts_roles s \<noteq> [] then ts_roles s
      else map (\<lambda>(ph, ps). (ph, map untyped ps)) (filter (\<lambda>(ph, ps). ps \<noteq> []) (legacy_requirements s)))"

definition requirement_phases :: "TransitionSpec \<Rightarrow> Phase list" where
  "requirement_phases s = (if ts_roles s \<noteq> [] then map fst (ts_roles s) else map fst (legacy_requirements s))"

definition normalizedRoleRequirements ::
  "TransitionSpec \<Rightarrow> controller_error + (Phase, ParticipantRequirement list) gomap" where
  "normalizedRoleRequirements s =
     (case first_err
        [first_err (map (\<lambda>ph. err_if (\<not> validRequirementPhase ph) (ErrUnsupportedPhase ph)) (requirement_phases s)),
         first_err (map (\<lambda>(ph, rs). check_requirements ph [] rs) (requirement_table s))] of
        Some e \<Rightarrow> Inl e
      | None \<Rightarrow> Inr (requirement_table s))"

definition participant_table :: "(Phase, ParticipantRequirement list) gomap \<Rightarrow> (Phase, string list) gomap" where
  "participant_table m = map (\<lambda>(ph, rs). (ph, map pr_participant rs)) m"

definition normalizedRequirements :: "TransitionSpec \<Rightarrow> controller_error + (Phase, string list) gomap" where
  "normalizedRequirements s =
     (case normalizedRoleRequirements s of Inl e \<Rightarrow> Inl e | Inr typed \<Rightarrow> Inr (participant_table typed))"

fun check_brokers :: "string list \<Rightarrow> Broker list \<Rightarrow> controller_error option" where
  "check_brokers seen [] = None"
| "check_brokers seen (b # bs) =
     first_err
       [err_if (br_id b = [] \<or> br_destination b = []) ErrBrokerFields,
        err_if (br_id b \<in> set seen) (ErrBrokerRepeated (br_id b)),
        check_brokers (br_id b # seen) bs]"

definition validateBrokers :: "Broker list list \<Rightarrow> controller_error option" where
  "validateBrokers sets = first_err (map (check_brokers []) sets)"

definition requirementFor :: "TransitionSpec \<Rightarrow> Phase \<Rightarrow> string \<Rightarrow> ParticipantRequirement option" where
  "requirementFor s ph p = find (\<lambda>r. pr_participant r = p) (mget_or (ts_roles s) ph [])"

definition hasTypedRequirements :: "TransitionSpec \<Rightarrow> bool" where
  "hasTypedRequirements s \<longleftrightarrow> list_ex (\<lambda>(ph, rs). list_ex (\<lambda>r. pr_role r \<noteq> RoleUnset) rs) (ts_roles s)"

section \<open>Snapshots of a transition\<close>

definition broker_membership :: "Broker list \<Rightarrow> membership" where
  "broker_membership bs = map br_id bs"

definition revisionFor :: "u64 \<Rightarrow> u64 \<Rightarrow> u64" where
  "revisionFor base offset = (if base = 0 then 1 else base) + offset"

definition spec_transition :: "TransitionSpec \<Rightarrow> Transition" where
  "spec_transition s = \<lparr>tr_id = ts_id s, tr_from = ts_from s, tr_to = ts_to s\<rparr>"

text \<open>The common fields; the phase-dependent fields start at their zero values.\<close>

definition base_snapshot :: "TransitionSpec \<Rightarrow> MembershipSnapshot" where
  "base_snapshot s =
     \<lparr>ms_version = SnapshotVersion, ms_namespace = ts_namespace s, ms_library = ts_library s, ms_group = ts_group s,
      ms_revision = 0, ms_epoch = 0, ms_phase = CtlOther [], ms_hash = ts_hash s, ms_algorithm = ts_algorithm s,
      ms_current = [], ms_proposed = [], ms_current_brokers = [], ms_proposed_brokers = [], ms_transition = None,
      ms_queue = ts_queue s, ms_destination = ts_destination s, ms_current_resources = [],
      ms_proposed_resources = []\<rparr>"

definition proposing_snapshot :: "TransitionSpec \<Rightarrow> u64 \<Rightarrow> ctl_phase \<Rightarrow> MembershipSnapshot" where
  "proposing_snapshot s offset ph = (base_snapshot s)
     \<lparr>ms_revision := revisionFor (ts_revision s) offset, ms_epoch := ts_from s, ms_phase := ph,
      ms_current := broker_membership (ts_current s), ms_proposed := broker_membership (ts_proposed s),
      ms_current_brokers := ts_current_brokers s, ms_proposed_brokers := ts_proposed_brokers s,
      ms_current_resources := ts_current_resources s, ms_proposed_resources := ts_proposed_resources s,
      ms_transition := Some (spec_transition s)\<rparr>"

definition target_snapshot :: "TransitionSpec \<Rightarrow> u64 \<Rightarrow> ctl_phase \<Rightarrow> Transition option \<Rightarrow> MembershipSnapshot" where
  "target_snapshot s offset ph t = (base_snapshot s)
     \<lparr>ms_revision := revisionFor (ts_revision s) offset, ms_epoch := ts_to s, ms_phase := ph,
      ms_current := broker_membership (ts_proposed s), ms_current_brokers := ts_proposed_brokers s,
      ms_current_resources := ts_proposed_resources s, ms_transition := t\<rparr>"

definition rollback_snapshot :: "TransitionSpec \<Rightarrow> MembershipSnapshot" where
  "rollback_snapshot s = (base_snapshot s)
     \<lparr>ms_revision := revisionFor (ts_revision s) 5, ms_epoch := ts_from s, ms_phase := CtlActive,
      ms_current := broker_membership (ts_current s), ms_current_brokers := ts_current_brokers s,
      ms_current_resources := ts_current_resources s\<rparr>"

definition controlSnapshot :: "TransitionSpec \<Rightarrow> Phase \<Rightarrow> bool \<Rightarrow> MembershipSnapshot" where
  "controlSnapshot s ph rollback =
     (if rollback then rollback_snapshot s
      else case ph of
             PhasePrepare \<Rightarrow> proposing_snapshot s 0 CtlPrepare
           | PhasePause \<Rightarrow> proposing_snapshot s 1 CtlPaused
           | PhaseDrain \<Rightarrow> proposing_snapshot s 2 CtlDrain
           | PhaseCommit \<Rightarrow> target_snapshot s 3 CtlCommitted (Some (spec_transition s))
           | PhaseActivate \<Rightarrow> target_snapshot s 4 CtlActive None
           | PhaseOther p \<Rightarrow> base_snapshot s)"

section \<open>Validation\<close>

definition requirements_complete :: "(Phase, ParticipantRequirement list) gomap \<Rightarrow> bool" where
  "requirements_complete m \<longleftrightarrow>
     list_all (\<lambda>ph. mget_or m ph [] \<noteq> []) [PhasePrepare, PhasePause, PhaseDrain, PhaseActivate]"

definition spec_Validate :: "TransitionSpec \<Rightarrow> controller_error option" where
  "spec_Validate s =
     first_err
       [err_if (ts_id s = [] \<or> ts_group s = []) (ErrInvalidSpec ''id''),
        err_if (ts_to s \<noteq> ts_from s + 1 \<or> ts_from s = max_u64) (ErrInvalidSpec ''epoch''),
        err_if (ts_revision s = 0 \<or> max_u64 - 5 < ts_revision s) (ErrInvalidSpec ''revision''),
        err_if (ts_hash s = [] \<or> ts_algorithm s = []) (ErrInvalidSpec ''contract''),
        err_if (q_name (ts_queue s) = [] \<or> \<not> q_durable (ts_queue s)) (ErrInvalidSpec ''queue''),
        err_if (d_name (ts_destination s) = [] \<or> d_kind (ts_destination s) \<noteq> DestinationTopic)
          (ErrInvalidSpec ''destination''),
        err_if (ts_current s = [] \<or> ts_proposed s = []) (ErrInvalidSpec ''membership''),
        (case normalizedRoleRequirements s of
           Inl e \<Rightarrow> Some e
         | Inr reqs \<Rightarrow> err_if (\<not> requirements_complete reqs) (ErrInvalidSpec ''requirements'')),
        validateBrokers [ts_current s, ts_proposed s],
        map_option ErrSnapshotInvalid (Validate (controlSnapshot s PhasePrepare False))]"

text \<open>\<open>TransitionSpecFromSnapshot\<close>: the controller's input from a PREPARE snapshot.\<close>

definition TransitionSpecFromSnapshot ::
  "MembershipSnapshot \<Rightarrow> string list \<Rightarrow> controller_error + TransitionSpec" where
  "TransitionSpecFromSnapshot s required =
     (case Validate s of
        Some e \<Rightarrow> Inl (ErrSnapshotInvalid e)
      | None \<Rightarrow>
          (case ms_transition s of
             None \<Rightarrow> Inl ErrNotPrepareSnapshot
           | Some t \<Rightarrow>
               if ms_phase s \<noteq> CtlPrepare then Inl ErrNotPrepareSnapshot
               else let broker = (\<lambda>b. \<lparr>br_id = b, br_destination = d_name (ms_destination s)\<rparr>);
                        spec = \<lparr>ts_id = tr_id t, ts_namespace = ms_namespace s, ts_library = ms_library s,
                          ts_group = ms_group s, ts_revision = ms_revision s, ts_from = tr_from t, ts_to = tr_to t,
                          ts_current = map broker (ms_current s), ts_proposed = map broker (ms_proposed s),
                          ts_current_brokers = ms_current_brokers s, ts_proposed_brokers = ms_proposed_brokers s,
                          ts_queue = ms_queue s, ts_destination = ms_destination s,
                          ts_current_resources = ms_current_resources s,
                          ts_proposed_resources = ms_proposed_resources s, ts_hash = ms_hash s,
                          ts_algorithm = ms_algorithm s, ts_drain_grace = 0, ts_required = required,
                          ts_participants =
                            map (\<lambda>ph. (ph, required)) [PhasePrepare, PhasePause, PhaseDrain, PhaseActivate],
                          ts_roles = []\<rparr>
                    in (case spec_Validate spec of Some e \<Rightarrow> Inl e | None \<Rightarrow> Inr spec)))"

section \<open>Lemmas\<close>

named_theorems snapshot_defs \<open>the snapshots a specification gives\<close>

lemmas [snapshot_defs] = controlSnapshot_def rollback_snapshot_def proposing_snapshot_def target_snapshot_def
  base_snapshot_def spec_transition_def

lemma spec_Validate_facts:
  assumes "spec_Validate s = None"
  shows "Validate (controlSnapshot s PhasePrepare False) = None" and "ts_to s = ts_from s + 1"
    and "ts_from s \<noteq> max_u64" and "ts_revision s \<noteq> 0" and "ts_revision s \<le> max_u64 - 5"
  using assms by (auto simp: spec_Validate_def)

lemma revision_offset_less:
  assumes "r \<noteq> 0" and "r \<le> max_u64 - 5" and "m < n" and "n \<le> (5 :: u64)"
  shows "r + m < r + n" and "r + n \<noteq> 0"
proof -
  have max: "unat (max_u64 - 5) = 2 ^ 64 - 6" by (simp add: max_u64_def)
  have r: "0 < unat r" "unat r \<le> 2 ^ 64 - 6"
    using assms(1,2) max by (simp_all add: word_le_nat_alt unat_gt_0)
  have n: "unat n \<le> 5" using assms(4) by (simp add: word_le_nat_alt)
  have m: "unat m < unat n" using assms(3) by (simp add: word_less_nat_alt)
  have sums: "unat (r + m) = unat r + unat m" "unat (r + n) = unat r + unat n"
    using r n m by (simp_all add: unat_word_ariths)
  show "r + m < r + n" using sums m by (simp add: word_less_nat_alt)
  show "r + n \<noteq> 0"
  proof
    assume "r + n = 0"
    then have "unat (r + n) = 0" by simp
    with sums r show False by simp
  qed
qed

text \<open>Every snapshot the controller publishes validates, given that its PREPARE snapshot does.\<close>

lemma controlSnapshot_valid_cases:
  assumes prep: "Validate (proposing_snapshot s 0 CtlPrepare) = None" and rev: "ts_revision s \<noteq> 0"
    and bound: "ts_revision s \<le> max_u64 - 5"
  shows "ph \<in> {CtlPrepare, CtlPaused, CtlDrain} \<Longrightarrow> off \<le> 5 \<Longrightarrow> Validate (proposing_snapshot s off ph) = None"
    and "off \<le> 5 \<Longrightarrow> Validate (target_snapshot s off CtlCommitted (Some (spec_transition s))) = None"
    and "off \<le> 5 \<Longrightarrow> Validate (target_snapshot s off CtlActive None) = None"
    and "Validate (rollback_snapshot s) = None"
proof -
  have nz: "ts_revision s + off \<noteq> 0" if "off \<le> 5" for off :: u64
  proof (cases "off = 0")
    case False
    then have "0 < off" by (simp add: word_neq_0_conv)
    with that show ?thesis by (intro revision_offset_less(2) [OF rev bound, of 0])
  qed (simp add: rev)
  have to: "ts_to s = ts_from s + 1" "ts_from s \<noteq> max_u64"
    using prep by (auto simp: Validate_def validate_phase_shape_def snapshot_defs)
  have to_nz: "ts_to s \<noteq> 0"
    using to unfolding max_u64_def by (metis add.commute add_cancel_right_right add_diff_cancel diff_0 uminus_add_conv_diff)
  show "Validate (proposing_snapshot s off ph) = None" if "ph \<in> {CtlPrepare, CtlPaused, CtlDrain}" "off \<le> 5"
    using that prep rev nz [OF that(2)]
    by (auto simp: Validate_def validate_phase_shape_def snapshot_defs revisionFor_def split: option.splits)
  show "Validate (target_snapshot s off CtlCommitted (Some (spec_transition s))) = None" if "off \<le> 5"
    using prep rev nz [OF that] to to_nz
    by (auto simp: Validate_def validate_phase_shape_def snapshot_defs revisionFor_def validateBrokerDescriptors_None
        validate_transition_id_def split: option.splits)
  show "Validate (target_snapshot s off CtlActive None) = None" if "off \<le> 5"
    using prep rev nz [OF that] to_nz
    by (auto simp: Validate_def validate_phase_shape_def snapshot_defs revisionFor_def validateBrokerDescriptors_None
        split: option.splits)
  show "Validate (rollback_snapshot s) = None"
    using prep rev nz [of 5]
    by (auto simp: Validate_def validate_phase_shape_def snapshot_defs revisionFor_def validateBrokerDescriptors_None
        split: option.splits)
qed


lemma controlSnapshot_validates:
  assumes "spec_Validate s = None" and "validRequirementPhase ph"
  shows "Validate (controlSnapshot s ph rollback) = None"
proof -
  have prep: "Validate (proposing_snapshot s 0 CtlPrepare) = None"
    using spec_Validate_facts(1) [OF assms(1)] by (simp add: controlSnapshot_def)
  note cases = controlSnapshot_valid_cases [OF prep spec_Validate_facts(4,5) [OF assms(1)]]
  show ?thesis
    using assms(2) cases(1) [of CtlPrepare 0] cases(1) [of CtlPaused 1] cases(1) [of CtlDrain 2] cases(2) [of 3]
      cases(3) [of 4] cases(4)
    by (cases ph) (simp_all add: controlSnapshot_def)
qed

fun phase_offset :: "Phase \<Rightarrow> nat" where
  "phase_offset PhasePrepare = 0"
| "phase_offset PhasePause = 1"
| "phase_offset PhaseDrain = 2"
| "phase_offset PhaseCommit = 3"
| "phase_offset PhaseActivate = 4"
| "phase_offset (PhaseOther s) = 0"

lemma unat_revisionFor:
  assumes "r \<noteq> 0" and "r \<le> max_u64 - 5" and "off \<le> (5 :: u64)"
  shows "unat (revisionFor r off) = unat r + unat off"
proof -
  have "unat (max_u64 - 5) = 2 ^ 64 - 6" by (simp add: max_u64_def)
  moreover have "unat off \<le> 5" using assms(3) by (simp add: word_le_nat_alt)
  ultimately have "unat r + unat off < 2 ^ 64" using assms(2) by (simp add: word_le_nat_alt)
  then show ?thesis using assms(1) by (simp add: revisionFor_def unat_word_ariths)
qed

section \<open>A specification that the validation accepts\<close>

definition sample_broker :: "string \<Rightarrow> Broker" where
  "sample_broker b = \<lparr>br_id = b, br_destination = ''events''\<rparr>"

definition sample_spec :: TransitionSpec where
  "sample_spec =
     \<lparr>ts_id = ''t1'', ts_namespace = ''ns'', ts_library = ''v1'', ts_group = ''events-a'', ts_revision = 8,
      ts_from = 1, ts_to = 2, ts_current = [sample_broker ''broker-a''],
      ts_proposed = [sample_broker ''broker-a'', sample_broker ''broker-b''],
      ts_current_brokers = ms_current_brokers sample_prepare, ts_proposed_brokers = ms_proposed_brokers sample_prepare,
      ts_queue = ms_queue sample_prepare, ts_destination = ms_destination sample_prepare,
      ts_current_resources = ms_current_resources sample_prepare,
      ts_proposed_resources = ms_proposed_resources sample_prepare,
      ts_hash = ''entity-affinity-v1'', ts_algorithm = ''swlb-rendezvous-v1'', ts_drain_grace = 0,
      ts_required = [''p1''],
      ts_participants = map (\<lambda>ph. (ph, [''p1''])) [PhasePrepare, PhasePause, PhaseDrain, PhaseActivate],
      ts_roles = []\<rparr>"

lemma sample_spec_prepare: "controlSnapshot sample_spec PhasePrepare False = sample_prepare"
  by (simp add: snapshot_defs sample_spec_def sample_prepare_def sample_active_def revisionFor_def SnapshotVersion_def
      broker_membership_def sample_broker_def)

lemma sample_spec_valid: "spec_Validate sample_spec = None"
proof -
  have "normalizedRoleRequirements sample_spec = Inr (map (\<lambda>ph. (ph, [untyped ''p1''])) [PhasePrepare, PhasePause, PhaseDrain, PhaseActivate])"
    by (simp add: normalizedRoleRequirements_def sample_spec_def requirement_phases_def requirement_table_def
        legacy_requirements_def untyped_def)
  then show ?thesis
    unfolding spec_Validate_def
    by (simp add: sample_spec_prepare sample_prepare_valid requirements_complete_def mget_or_def)
      (simp add: sample_spec_def sample_prepare_def sample_active_def validateBrokers_def sample_broker_def max_u64_def)
qed

section \<open>Properties\<close>

text \<open>
  C10. Every snapshot the controller derives from an accepted specification is itself valid: in each of
  the five phases, and for the rollback, \<open>controlSnapshot\<close> passes the snapshot contract that clients
  check, although the specification was validated on its PREPARE snapshot alone.
\<close>

theorem controlSnapshot_valid:
  assumes "spec_Validate s = None" and "validRequirementPhase ph"
  shows "Validate (controlSnapshot s ph rollback) = None"
  using assms by (rule controlSnapshot_validates)

theorem controlSnapshot_valid_witness:
  "spec_Validate sample_spec = None \<and> Validate (controlSnapshot sample_spec PhaseCommit False) = None \<and>
   Validate (controlSnapshot sample_spec PhaseActivate True) = None"
  using sample_spec_valid controlSnapshot_valid [of sample_spec PhaseCommit False]
    controlSnapshot_valid [of sample_spec PhaseActivate True] by simp

text \<open>
  C11. The publications of one transition carry strictly increasing 64-bit revisions that never wrap:
  the snapshot of a phase has the base revision plus the position of the phase, read as natural numbers,
  and the rollback snapshot has the base plus five, so it supersedes every forward publication.
\<close>

theorem controlSnapshot_revisions:
  assumes "spec_Validate s = None" and "validRequirementPhase ph"
  shows "unat (ms_revision (controlSnapshot s ph False)) = unat (ts_revision s) + phase_offset ph \<and>
     unat (ms_revision (controlSnapshot s ph True)) = unat (ts_revision s) + 5 \<and>
     ms_revision (controlSnapshot s ph False) < ms_revision (controlSnapshot s ph' True)"
proof -
  note rev = unat_revisionFor [OF spec_Validate_facts(4,5) [OF assms(1)]]
  have fwd: "unat (ms_revision (controlSnapshot s ph False)) = unat (ts_revision s) + phase_offset ph"
    using assms(2) rev [of 0] rev [of 1] rev [of 2] rev [of 3] rev [of 4] by (cases ph) (simp_all add: snapshot_defs)
  have roll: "unat (ms_revision (controlSnapshot s p True)) = unat (ts_revision s) + 5" for p
    using rev [of 5] by (simp add: snapshot_defs)
  have "phase_offset ph < 5" by (cases ph) simp_all
  with fwd roll show ?thesis by (simp add: word_less_nat_alt)
qed

theorem controlSnapshot_revisions_witness:
  "spec_Validate sample_spec = None \<and> unat (ms_revision (controlSnapshot sample_spec PhaseActivate False)) = 12 \<and>
   unat (ms_revision (controlSnapshot sample_spec PhaseActivate True)) = 13"
  using sample_spec_valid controlSnapshot_revisions [of sample_spec PhaseActivate]
  by (simp add: sample_spec_def)

text \<open>
  Adapting a PREPARE snapshot loses nothing: whenever \<open>TransitionSpecFromSnapshot\<close> accepts a
  snapshot, the specification is valid and the PREPARE snapshot the controller derives from it is the
  original, field for field and with the broker order unchanged.
\<close>

lemma TransitionSpecFromSnapshot_roundtrip:
  assumes "TransitionSpecFromSnapshot m required = Inr s"
  shows "spec_Validate s = None \<and> controlSnapshot s PhasePrepare False = m \<and>
     ts_participants s = map (\<lambda>ph. (ph, required)) [PhasePrepare, PhasePause, PhaseDrain, PhaseActivate]"
proof -
  obtain t where t: "Validate m = None" "ms_transition m = Some t" "ms_phase m = CtlPrepare"
    using assms by (auto simp: TransitionSpecFromSnapshot_def split: option.splits if_splits)
  have shape: "ms_version m = SnapshotVersion" "ms_revision m \<noteq> 0" "tr_from t = ms_epoch m"
    using t by (auto simp: Validate_def validate_phase_shape_def)
  have ids: "broker_membership (map (\<lambda>b. \<lparr>br_id = b, br_destination = d\<rparr>) bs) = bs" for d bs
    by (simp add: broker_membership_def comp_def)
  show ?thesis
    using assms t shape ids
    by (auto simp: TransitionSpecFromSnapshot_def snapshot_defs revisionFor_def Let_def split: option.splits)
qed

end
