(* ===== verification/Controller_State.thy ===== *)
theory Controller_State
  imports Transition_Spec "HOL-Library.Product_Lexorder"
begin

text \<open>
  The durable state of the transition controller and the functions on it that call nothing outside
  (\<^verbatim>\<open>controller/types.go\<close> and the helpers of \<^verbatim>\<open>controller/controller.go\<close>): acknowledgements, telemetry and
  its sources, command identities, phase bookkeeping, completion records and the check a restart makes
  of what it loaded. A Go pointer to a time or a sample is an option; a nil map is the empty map.
\<close>

section \<open>Data\<close>

record Acknowledgement =
  ak_command :: string
  ak_namespace :: string
  ak_group :: string
  ak_transition :: string
  ak_epoch :: u64
  ak_phase :: Phase
  ak_participant :: string
  ak_authenticated :: string
  ak_role :: ParticipantRole
  ak_observed :: gotime

record Count =
  ct_known :: bool
  ct_value :: u64

text \<open>
  Two samples are compared with Go's \<open>==\<close>, which compares a \<open>time.Time\<close> by its representation: besides the instant it has the address of its
  location and, for a local time, a monotonic clock reading. \<open>UTC\<close> is the representation that \<open>UTC()\<close> and the decoding of a UTC time
  produce; any other one is a number. All other times are only compared as instants.
\<close>

datatype zone = UTC | Zone nat

record Telemetry =
  tm_message :: string
  tm_namespace :: string
  tm_group :: string
  tm_transition :: string
  tm_epoch :: u64
  tm_participant :: string
  tm_role :: ParticipantRole
  tm_broker :: string
  tm_queue :: string
  tm_observed :: gotime
  tm_zone :: zone
  tm_queued :: Count
  tm_stored :: Count
  tm_unacked :: Count

definition count_zero :: "Count \<Rightarrow> bool" where
  "count_zero c \<longleftrightarrow> ct_known c \<and> ct_value c = 0"

definition isKnownZero :: "Telemetry \<Rightarrow> bool" where
  "isKnownZero t \<longleftrightarrow> count_zero (tm_queued t) \<and> count_zero (tm_stored t) \<and> count_zero (tm_unacked t)"

record FenceRequest =
  fr_operation :: string
  fr_group :: string
  fr_transition :: string
  fr_epoch :: u64
  fr_brokers :: "Broker list"

record FenceStatus =
  fs_fenced :: bool
  fs_observed :: gotime

record IngressStatus =
  is_enabled :: bool
  is_observed :: gotime

record ControlUpdate =
  cu_operation :: string
  cu_group :: string
  cu_transition :: string
  cu_from :: u64
  cu_to :: u64
  cu_phase :: Phase
  cu_current :: "Broker list"
  cu_proposed :: "Broker list"
  cu_rollback :: bool
  cu_snapshot :: MembershipSnapshot
  cu_issued :: "(string, string) gomap"

record RollbackProof =
  rp_transition :: string
  rp_intact :: bool
  rp_inactive :: bool
  rp_reversible :: bool

record Options =
  op_telemetry :: duration
  op_readiness :: duration
  op_fence :: duration
  op_grace :: duration
  op_grace_by :: "(string, duration) gomap"
  op_timeout :: duration
  op_timeout_by :: "(string, duration) gomap"
  op_telemetry_by :: "(string, duration) gomap"
  op_history :: int

definition telemetryFreshness :: "Options \<Rightarrow> string \<Rightarrow> duration" where
  "telemetryFreshness o1 g = (let configured = mget_or (op_telemetry_by o1) g 0 in
     if 0 < configured then configured else op_telemetry o1)"

definition phaseTimeout :: "Options \<Rightarrow> string \<Rightarrow> duration" where
  "phaseTimeout o1 g = (let configured = mget_or (op_timeout_by o1) g 0 in
     if 0 < configured then configured else op_timeout o1)"

definition or_default :: "duration \<Rightarrow> duration \<Rightarrow> duration" where
  "or_default d dflt = (if d \<le> 0 then dflt else d)"

definition withDefaults :: "Options \<Rightarrow> Options" where
  "withDefaults o1 = o1
     \<lparr>op_telemetry := or_default (op_telemetry o1) (15 * second),
      op_readiness := or_default (op_readiness o1) (30 * second),
      op_fence := or_default (op_fence o1) (15 * second),
      op_grace := or_default (op_grace o1) (5 * second),
      op_timeout := or_default (op_timeout o1) (5 * 60 * second),
      op_history := (if op_history o1 \<le> 0 then 64 else op_history o1)\<rparr>"

definition configured_grace :: "Options \<Rightarrow> string \<Rightarrow> duration" where
  "configured_grace o1 g = (let configured = mget_or (op_grace_by o1) g 0 in
     if 0 < configured then configured else op_grace o1)"

record PhaseEvent =
  pe_phase :: Phase
  pe_entered :: gotime
  pe_exited :: "gotime option"

datatype outcome = Committed | RolledBack

record TransitionRecord =
  rc_transition :: string
  rc_from :: u64
  rc_to :: u64
  rc_started :: gotime
  rc_completed :: gotime
  rc_outcome :: outcome
  rc_phases :: "PhaseEvent list"

record DrainSourceEvidence =
  ds_broker :: string
  ds_queue :: string
  ds_message :: string
  ds_zero_since :: gotime
  ds_observed :: gotime

record CleanupEvidence =
  ce_transition :: string
  ce_source :: u64
  ce_target :: u64
  ce_zero_since :: gotime
  ce_drain_observed :: gotime
  ce_fence_verified :: gotime
  ce_committed :: gotime
  ce_fenced :: bool
  ce_sources :: "DrainSourceEvidence list"

record GroupState =
  gs_spec :: TransitionSpec
  gs_phase :: Phase
  gs_acks :: "(Phase, (string, gotime) gomap) gomap"
  gs_issued :: "(Phase, (string, string) gomap) gomap"
  gs_latest :: "(string, Telemetry) gomap"
  gs_zero :: "(string, gotime) gomap"
  gs_messages :: "(string, Telemetry) gomap"
  gs_prepare_published :: bool
  gs_fence_attempted :: bool
  gs_fenced :: bool
  gs_pause_published :: bool
  gs_drain_published :: bool
  gs_commit_published :: bool
  gs_ingress_enabled :: bool
  gs_ingress_verified :: bool
  gs_activate_published :: bool
  gs_latest_telemetry :: "Telemetry option"
  gs_zero_since :: "gotime option"
  gs_rolling :: bool
  gs_rollback_published :: bool
  gs_unfenced :: bool
  gs_completed :: bool
  gs_started :: gotime
  gs_entered :: gotime
  gs_deadline :: gotime
  gs_completed_at :: "gotime option"
  gs_history :: "PhaseEvent list"
  gs_fence_verified_at :: "gotime option"
  gs_ingress_verified_at :: "gotime option"
  gs_cleanup_recorded :: bool

record PersistentState =
  ps_version :: int
  ps_membership :: "(string, MembershipSnapshot) gomap"
  ps_groups :: "(string, GroupState) gomap"
  ps_history :: "(string, TransitionRecord list) gomap"
  ps_cleanup :: "(string, CleanupEvidence list) gomap"

section \<open>Command identities\<close>

definition operationID :: "TransitionSpec \<Rightarrow> string \<Rightarrow> bool \<Rightarrow> string" where
  "operationID s action rollback =
     ts_group s @ ''/'' @ ts_id s @ ''/'' @ (if rollback then ''rollback'' else ''forward'') @ ''/'' @ action"

definition commandID :: "TransitionSpec \<Rightarrow> Phase \<Rightarrow> ParticipantRequirement \<Rightarrow> string" where
  "commandID s ph r =
     operationID s (''command/'' @ phase_string ph @ ''/'' @ role_string (pr_role r) @ ''/'' @ pr_participant r) False"

definition phase_commands :: "TransitionSpec \<Rightarrow> Phase \<Rightarrow> ParticipantRequirement list \<Rightarrow> (string, string) gomap" where
  "phase_commands s ph rs = fold (\<lambda>r m. mput (pr_participant r) (commandID s ph r) m) rs []"

definition expectedCommandIDs :: "TransitionSpec \<Rightarrow> (Phase, (string, string) gomap) gomap" where
  "expectedCommandIDs s = map (\<lambda>(ph, rs). (ph, phase_commands s ph rs)) (ts_roles s)"

fun phasePublished :: "GroupState \<Rightarrow> Phase \<Rightarrow> bool" where
  "phasePublished gs PhasePrepare = gs_prepare_published gs"
| "phasePublished gs PhasePause = gs_pause_published gs"
| "phasePublished gs PhaseDrain = gs_drain_published gs"
| "phasePublished gs PhaseCommit = gs_commit_published gs"
| "phasePublished gs PhaseActivate = gs_activate_published gs"
| "phasePublished gs (PhaseOther s) = False"

definition expected_for :: "TransitionSpec \<Rightarrow> Phase \<Rightarrow> (string, string) gomap" where
  "expected_for s ph = mget_or (expectedCommandIDs s) ph []"

definition recordIssuedCommands :: "Phase \<Rightarrow> GroupState \<Rightarrow> GroupState" where
  "recordIssuedCommands ph gs = gs\<lparr>gs_issued := mput ph (expected_for (gs_spec gs) ph) (gs_issued gs)\<rparr>"

definition commandsIssued :: "GroupState \<Rightarrow> Phase \<Rightarrow> bool" where
  "commandsIssued gs ph \<longleftrightarrow>
     0 < length (expected_for (gs_spec gs) ph) \<and> maps_equal (mget_or (gs_issued gs) ph []) (expected_for (gs_spec gs) ph)"

text \<open>\<open>initializeMessageState\<close> adds the commands that a published phase must have issued.\<close>

definition fill_commands :: "(string, string) gomap \<Rightarrow> (string, string) gomap \<Rightarrow> (string, string) gomap" where
  "fill_commands commands issued =
     fold (\<lambda>(p, c) m. if mget_or m p [] = [] then mput p c m else m) commands issued"

definition initializeMessageState :: "GroupState \<Rightarrow> GroupState" where
  "initializeMessageState gs =
     gs\<lparr>gs_issued := fold (\<lambda>(ph, commands) m.
          if phasePublished gs ph then mput ph (fill_commands commands (mget_or m ph [])) m else m)
        (expectedCommandIDs (gs_spec gs)) (gs_issued gs)\<rparr>"

section \<open>Acknowledgements\<close>

definition allAcknowledged :: "GroupState \<Rightarrow> Phase \<Rightarrow> bool" where
  "allAcknowledged gs ph \<longleftrightarrow>
     list_all (\<lambda>p. mget (mget_or (gs_acks gs) ph []) p \<noteq> None) (mget_or (ts_participants (gs_spec gs)) ph [])"

definition participant_fresh :: "Options \<Rightarrow> gotime \<Rightarrow> GroupState \<Rightarrow> string \<Rightarrow> bool" where
  "participant_fresh o1 now gs p =
     ((case mget (mget_or (gs_acks gs) PhaseDrain []) p of
         None \<Rightarrow> False
       | Some at \<Rightarrow> \<not> at < gs_entered gs \<and> \<not> now < at \<and> time_sub now at \<le> op_readiness o1)
      \<or> \<not> hasTypedRequirements (gs_spec gs) \<and>
        (case mget (mget_or (gs_acks gs) PhasePrepare []) p of
           None \<Rightarrow> False
         | Some at \<Rightarrow> \<not> now < at \<and> \<not> op_readiness o1 < time_sub now at))"

definition readinessFresh :: "Options \<Rightarrow> gotime \<Rightarrow> GroupState \<Rightarrow> bool" where
  "readinessFresh o1 now gs \<longleftrightarrow>
     list_all (participant_fresh o1 now gs) (mget_or (ts_participants (gs_spec gs)) PhaseDrain [])"

section \<open>Telemetry sources\<close>

record telemetrySource =
  so_broker :: string
  so_queue :: string

definition source_key :: "telemetrySource \<Rightarrow> string" where
  "source_key so = so_broker so @ [CHR 0x00] @ so_queue so"

definition queues_of :: "EpochResourceIdentity list \<Rightarrow> string \<Rightarrow> string list" where
  "queues_of rs b = map er_queue (filter (\<lambda>r. er_broker r = b) rs)"

definition exact_sources :: "TransitionSpec \<Rightarrow> bool" where
  "exact_sources s \<longleftrightarrow> ts_current_resources s \<noteq> [] \<and>
     list_all (\<lambda>r. er_broker r \<in> br_id ` set (ts_current s)) (ts_current_resources s) \<and>
     list_all (\<lambda>b. queues_of (ts_current_resources s) (br_id b) \<noteq> []) (ts_current s)"

fun first_occurrences :: "'a list \<Rightarrow> 'a list \<Rightarrow> 'a list" where
  "first_occurrences seen [] = []"
| "first_occurrences seen (x # xs) =
     (if x \<in> set seen then first_occurrences seen xs else x # first_occurrences (x # seen) xs)"

definition unsorted_sources :: "TransitionSpec \<Rightarrow> telemetrySource list" where
  "unsorted_sources s =
     (if exact_sources s then
        concat (map (\<lambda>b. map (\<lambda>q. \<lparr>so_broker = br_id b, so_queue = q\<rparr>) (queues_of (ts_current_resources s) (br_id b)))
          (ts_current s))
      else let queues = (if ts_current_resources s \<noteq> [] then first_occurrences [] (map er_queue (ts_current_resources s))
                         else [q_name (ts_queue s)])
           in concat (map (\<lambda>b. map (\<lambda>q. \<lparr>so_broker = br_id b, so_queue = q\<rparr>) queues) (ts_current s)))"

definition requiredTelemetrySources :: "TransitionSpec \<Rightarrow> telemetrySource list" where
  "requiredTelemetrySources s =
     (if ts_current_resources s = [] \<and> \<not> hasTypedRequirements s then []
      else sort_key (\<lambda>so. (so_broker so, so_queue so)) (unsorted_sources s))"

fun ingress_topic_loop :: "string \<Rightarrow> string \<Rightarrow> EpochResourceIdentity list \<Rightarrow> string" where
  "ingress_topic_loop queue topic [] = topic"
| "ingress_topic_loop queue topic (r # rs) =
     (if er_queue r \<noteq> queue then ingress_topic_loop queue topic rs
      else if topic \<noteq> [] \<and> topic \<noteq> er_topic r then []
      else ingress_topic_loop queue (er_topic r) rs)"

definition resourceIngressTopic :: "TransitionSpec \<Rightarrow> string \<Rightarrow> string" where
  "resourceIngressTopic s queue = ingress_topic_loop queue [] (ts_current_resources s)"

definition sample_source :: "Telemetry \<Rightarrow> telemetrySource" where
  "sample_source t = \<lparr>so_broker = tm_broker t, so_queue = tm_queue t\<rparr>"

definition telemetrySourcesForSample :: "TransitionSpec \<Rightarrow> Telemetry \<Rightarrow> telemetrySource list \<times> bool" where
  "telemetrySourcesForSample s t =
     (let required = requiredTelemetrySources s in
      if required = [] then ([sample_source t], False)
      else if sample_source t \<in> set required then ([sample_source t], False)
      else if tm_message t = [] \<and> tm_namespace t = [] \<and> tm_role t = RoleObserver \<and> tm_broker t = ''aggregate'' then
        (if list_ex (\<lambda>so. so_queue so \<noteq> tm_queue t \<and> resourceIngressTopic s (so_queue so) \<noteq> tm_queue t) required
         then ([], False) else (required, True))
      else ([], False))"

definition telemetrySourceKey :: "TransitionSpec \<Rightarrow> Telemetry \<Rightarrow> string option" where
  "telemetrySourceKey s t =
     (case fst (telemetrySourcesForSample s t) of [so] \<Rightarrow> Some (source_key so) | _ \<Rightarrow> None)"

definition commonZeroSince :: "(string, gotime) gomap \<Rightarrow> gotime option" where
  "commonZeroSince m =
     (let latest = fold (\<lambda>(k, at) latest. if latest < at then at else latest) m time_zero in
      if IsZero latest then None else Some latest)"

section \<open>Drain completion\<close>

text \<open>The loop keeps the latest start of a zero interval and the earliest latest sample.\<close>

fun drain_loop :: "Options \<Rightarrow> gotime \<Rightarrow> GroupState \<Rightarrow> telemetrySource list \<Rightarrow> gotime \<Rightarrow> gotime \<Rightarrow> bool" where
  "drain_loop o1 now gs [] zero earliest = (ts_drain_grace (gs_spec gs) \<le> time_sub earliest zero)"
| "drain_loop o1 now gs (so # sos) zero earliest =
     (case (mget (gs_latest gs) (source_key so), mget (gs_zero gs) (source_key so)) of
        (Some t, Some z) \<Rightarrow>
          if \<not> isKnownZero t \<or> tm_observed t < gs_entered gs \<or> now < tm_observed t \<or>
             telemetryFreshness o1 (ts_group (gs_spec gs)) < time_sub now (tm_observed t) then False
          else drain_loop o1 now gs sos (if zero < z then z else zero)
                 (if IsZero earliest \<or> tm_observed t < earliest then tm_observed t else earliest)
      | _ \<Rightarrow> False)"

definition legacy_zero :: "GroupState \<Rightarrow> bool" where
  "legacy_zero gs \<longleftrightarrow>
     (case (gs_latest_telemetry gs, gs_zero_since gs) of (Some t, Some z) \<Rightarrow> isKnownZero t | _ \<Rightarrow> False)"

definition legacy_drained :: "Options \<Rightarrow> gotime \<Rightarrow> GroupState \<Rightarrow> bool" where
  "legacy_drained o1 now gs \<longleftrightarrow>
     (case (gs_latest_telemetry gs, gs_zero_since gs) of
        (Some t, Some z) \<Rightarrow>
          \<not> tm_observed t < gs_entered gs \<and> \<not> now < tm_observed t \<and>
          \<not> telemetryFreshness o1 (ts_group (gs_spec gs)) < time_sub now (tm_observed t) \<and>
          ts_drain_grace (gs_spec gs) \<le> time_sub (tm_observed t) z
      | _ \<Rightarrow> False)"

definition drain_proved :: "Options \<Rightarrow> gotime \<Rightarrow> GroupState \<Rightarrow> bool" where
  "drain_proved o1 now gs \<longleftrightarrow>
     (if requiredTelemetrySources (gs_spec gs) = [] then legacy_zero gs \<and> legacy_drained o1 now gs
      else drain_loop o1 now gs (requiredTelemetrySources (gs_spec gs)) (gs_entered gs) time_zero)"

section \<open>Phases, completion and evidence\<close>

definition close_last :: "gotime \<Rightarrow> PhaseEvent list \<Rightarrow> PhaseEvent list" where
  "close_last now es =
     (if es \<noteq> [] \<and> pe_exited (last es) = None then butlast es @ [(last es)\<lparr>pe_exited := Some now\<rparr>] else es)"

definition enterPhase :: "Phase \<Rightarrow> gotime \<Rightarrow> duration \<Rightarrow> GroupState \<Rightarrow> GroupState" where
  "enterPhase ph now timeout gs =
     gs\<lparr>gs_phase := ph, gs_entered := now, gs_deadline := now + timeout,
        gs_history := close_last now (gs_history gs) @ [\<lparr>pe_phase = ph, pe_entered = now, pe_exited = None\<rparr>]\<rparr>"

definition completeState :: "gotime \<Rightarrow> GroupState \<Rightarrow> GroupState" where
  "completeState now gs =
     gs\<lparr>gs_completed := True, gs_completed_at := Some now, gs_deadline := time_zero,
        gs_history := close_last now (gs_history gs)\<rparr>"

definition keep_last :: "int \<Rightarrow> 'a list \<Rightarrow> 'a list" where
  "keep_last limit xs = (if limit < int (length xs) then drop (length xs - nat limit) xs else xs)"

definition recordCompletion :: "string \<Rightarrow> GroupState \<Rightarrow> int \<Rightarrow> PersistentState \<Rightarrow> PersistentState" where
  "recordCompletion g gs limit st =
     (case gs_completed_at gs of
        None \<Rightarrow> st
      | Some at \<Rightarrow>
          let record1 = \<lparr>rc_transition = ts_id (gs_spec gs), rc_from = ts_from (gs_spec gs), rc_to = ts_to (gs_spec gs),
                         rc_started = gs_started gs, rc_completed = at,
                         rc_outcome = (if gs_rolling gs then RolledBack else Committed), rc_phases = gs_history gs\<rparr>
          in st\<lparr>ps_history := mput g (keep_last limit (mget_or (ps_history st) g [] @ [record1])) (ps_history st)\<rparr>)"

definition source_evidence :: "GroupState \<Rightarrow> telemetrySource \<Rightarrow> DrainSourceEvidence option" where
  "source_evidence gs so =
     (case (mget (gs_latest gs) (source_key so), mget (gs_zero gs) (source_key so)) of
        (Some t, Some z) \<Rightarrow>
          Some \<lparr>ds_broker = so_broker so, ds_queue = so_queue so, ds_message = tm_message t, ds_zero_since = z,
                ds_observed = tm_observed t\<rparr>
      | _ \<Rightarrow> None)"

definition latest_zero :: "DrainSourceEvidence list \<Rightarrow> gotime" where
  "latest_zero es = fold (\<lambda>e latest. if latest < ds_zero_since e then ds_zero_since e else latest) es time_zero"

definition earliest_observed :: "DrainSourceEvidence list \<Rightarrow> gotime" where
  "earliest_observed es =
     fold (\<lambda>e at. if IsZero at \<or> ds_observed e < at then ds_observed e else at) es time_zero"

text \<open>The evidence, or nothing when a required fact is missing.\<close>

definition cleanup_evidence :: "GroupState \<Rightarrow> CleanupEvidence option" where
  "cleanup_evidence gs =
     (case gs_fence_verified_at gs of
        None \<Rightarrow> None
      | Some verified \<Rightarrow>
          if gs_cleanup_recorded gs then None
          else
            let spec = gs_spec gs; sources = requiredTelemetrySources spec;
                evidence = (\<lambda>zero observed es.
                  \<lparr>ce_transition = ts_id spec, ce_source = ts_from spec, ce_target = ts_to spec, ce_zero_since = zero,
                   ce_drain_observed = observed, ce_fence_verified = verified, ce_committed = gs_entered gs,
                   ce_fenced = True, ce_sources = es\<rparr>)
            in if sources = [] then
                 (case (gs_zero_since gs, gs_latest_telemetry gs) of
                    (Some z, Some t) \<Rightarrow> Some (evidence z (tm_observed t) [])
                  | _ \<Rightarrow> None)
               else (case those (map (source_evidence gs) sources) of
                       None \<Rightarrow> None
                     | Some es \<Rightarrow> Some (evidence (latest_zero es) (earliest_observed es) es)))"

definition recordCleanupEvidence :: "string \<Rightarrow> GroupState \<Rightarrow> PersistentState \<Rightarrow> GroupState \<times> PersistentState" where
  "recordCleanupEvidence g gs st =
     (case cleanup_evidence gs of
        None \<Rightarrow> (gs, st)
      | Some e \<Rightarrow> (gs\<lparr>gs_cleanup_recorded := True\<rparr>,
                   st\<lparr>ps_cleanup := mput g (mget_or (ps_cleanup st) g [] @ [e]) (ps_cleanup st)\<rparr>))"

section \<open>Comparing specifications\<close>

definition requirementsEqual :: "(Phase, 'a list) gomap \<Rightarrow> (Phase, 'a list) gomap \<Rightarrow> bool" where
  "requirementsEqual l r \<longleftrightarrow> length l = length r \<and> list_all (\<lambda>(ph, xs). xs = mget_or r ph []) l"

definition equalSpec :: "TransitionSpec \<Rightarrow> TransitionSpec \<Rightarrow> bool" where
  "equalSpec a b \<longleftrightarrow> ts_id a = ts_id b \<and> ts_namespace a = ts_namespace b \<and> ts_library a = ts_library b \<and>
     ts_group a = ts_group b \<and> ts_revision a = ts_revision b \<and> ts_from a = ts_from b \<and> ts_to a = ts_to b \<and>
     ts_queue a = ts_queue b \<and> ts_destination a = ts_destination b \<and> ts_hash a = ts_hash b \<and>
     ts_algorithm a = ts_algorithm b \<and> ts_drain_grace a = ts_drain_grace b \<and> ts_current a = ts_current b \<and>
     ts_proposed a = ts_proposed b \<and> ts_current_resources a = ts_current_resources b \<and>
     ts_proposed_resources a = ts_proposed_resources b \<and>
     requirementsEqual (ts_participants a) (ts_participants b) \<and> requirementsEqual (ts_roles a) (ts_roles b)"

definition canReplaceCompleted :: "GroupState \<Rightarrow> TransitionSpec \<Rightarrow> bool" where
  "canReplaceCompleted gs nxt =
     (if \<not> gs_completed gs \<or> ts_id nxt = ts_id (gs_spec gs) then False
      else if gs_rolling gs then
        ts_from nxt = ts_from (gs_spec gs) \<and> revisionFor (ts_revision (gs_spec gs)) 5 < ts_revision nxt \<and>
        ts_current (gs_spec gs) = ts_current nxt
      else ts_from nxt = ts_to (gs_spec gs) \<and> revisionFor (ts_revision (gs_spec gs)) 4 < ts_revision nxt \<and>
        ts_proposed (gs_spec gs) = ts_current nxt)"

section \<open>The check of a loaded group\<close>

definition check_publications :: "GroupState \<Rightarrow> controller_error option" where
  "check_publications gs =
     first_err
       [err_if (\<not> validRequirementPhase (gs_phase gs)) (ErrInvalidState ''phase''),
        err_if (gs_pause_published gs \<and> \<not> gs_prepare_published gs \<or>
                gs_drain_published gs \<and> (\<not> gs_pause_published gs \<or> \<not> gs_fenced gs) \<or>
                gs_commit_published gs \<and> gs_phase gs \<noteq> PhaseCommit \<and> gs_phase gs \<noteq> PhaseActivate \<or>
                gs_activate_published gs \<and> gs_phase gs \<noteq> PhaseActivate) (ErrInvalidState ''publication''),
        err_if (gs_activate_published gs \<and> (gs_fence_verified_at gs = None \<or> \<not> gs_ingress_enabled gs \<or>
                \<not> gs_ingress_verified gs \<or> gs_ingress_verified_at gs = None)) (ErrInvalidState ''activation'')]"

definition check_acknowledgements :: "GroupState \<Rightarrow> controller_error option" where
  "check_acknowledgements gs =
     first_err (map (\<lambda>(ph, acks). first_err (map (\<lambda>(p, at).
       first_err
         [err_if (p \<notin> set (mget_or (ts_participants (gs_spec gs)) ph [])) (ErrInvalidState ''ack participant''),
          err_if (\<not> commandsIssued gs ph \<or> mget_or (mget_or (gs_issued gs) ph []) p [] = [])
            (ErrInvalidState ''ack command'')]) acks)) (gs_acks gs))"

definition check_commands :: "GroupState \<Rightarrow> controller_error option" where
  "check_commands gs =
     first_err
       [first_err (map (\<lambda>(ph, commands).
          if commands = [] then None
          else first_err
            [err_if (\<not> maps_equal commands (expected_for (gs_spec gs) ph)) (ErrInvalidState ''commands''),
             err_if (\<not> phasePublished gs ph \<and> ph \<noteq> gs_phase gs) (ErrInvalidState ''intent'')]) (gs_issued gs)),
        first_err (map (\<lambda>(ph, commands).
          err_if (phasePublished gs ph \<and> \<not> commandsIssued gs ph) (ErrInvalidState ''incomplete''))
          (expectedCommandIDs (gs_spec gs)))]"

definition check_fence_flags :: "GroupState \<Rightarrow> controller_error option" where
  "check_fence_flags gs =
     first_err
       [err_if ((gs_phase gs = PhaseDrain \<and> gs_drain_published gs \<or> gs_phase gs = PhaseCommit \<and> gs_commit_published gs \<or>
                 gs_phase gs = PhaseActivate) \<and> \<not> gs_fenced gs \<and> \<not> gs_rolling gs) (ErrInvalidState ''unfenced''),
        err_if (gs_completed gs \<and> gs_completed_at gs = None) (ErrInvalidState ''completion time''),
        err_if (gs_completed gs \<and> \<not> gs_rolling gs \<and> \<not> gs_activate_published gs) (ErrInvalidState ''completion''),
        err_if (gs_fenced gs \<and> \<not> gs_fence_attempted gs) (ErrInvalidState ''fence attempt''),
        err_if (gs_ingress_verified gs \<and> (\<not> gs_ingress_enabled gs \<or> gs_ingress_verified_at gs = None))
          (ErrInvalidState ''ingress''),
        err_if (gs_rollback_published gs \<and> (gs_fence_attempted gs \<or> gs_fenced gs) \<and> \<not> gs_unfenced gs)
          (ErrInvalidState ''rollback'')]"

definition same_message :: "Telemetry \<Rightarrow> Telemetry \<Rightarrow> bool" where
  "same_message o1 t \<longleftrightarrow> tm_message o1 = tm_message t \<and> tm_namespace o1 = tm_namespace t \<and> tm_group o1 = tm_group t \<and>
     tm_transition o1 = tm_transition t \<and> tm_epoch o1 = tm_epoch t \<and> tm_participant o1 = tm_participant t \<and>
     tm_role o1 = tm_role t \<and> tm_observed o1 = tm_observed t \<and> tm_zone o1 = tm_zone t \<and> tm_queued o1 = tm_queued t \<and>
     tm_stored o1 = tm_stored t \<and> tm_unacked o1 = tm_unacked t"

definition check_telemetry :: "GroupState \<Rightarrow> controller_error option" where
  "check_telemetry gs =
     first_err
       [first_err (map (\<lambda>(key, t). first_err
          [err_if (telemetrySourceKey (gs_spec gs) t \<noteq> Some key) (ErrInvalidState ''source''),
           err_if (tm_message t \<noteq> [] \<and> (case mget (gs_messages gs) (tm_message t) of None \<Rightarrow> True
                     | Some original \<Rightarrow> \<not> same_message original t)) (ErrInvalidState ''message''),
           err_if (mget (gs_zero gs) key \<noteq> None \<and> \<not> isKnownZero t) (ErrInvalidState ''zero'')]) (gs_latest gs)),
        first_err (map (\<lambda>(key, at). err_if (mget (gs_latest gs) key = None) (ErrInvalidState ''zero source''))
          (gs_zero gs))]"

definition validateGroupState :: "string \<Rightarrow> GroupState \<Rightarrow> controller_error option" where
  "validateGroupState g gs =
     first_err
       [err_if (ts_group (gs_spec gs) \<noteq> g) (ErrInvalidState ''group''),
        check_publications gs, check_acknowledgements gs, check_commands gs, check_fence_flags gs, check_telemetry gs]"

end
