(* ===== verification/Go_Json.thy ===== *)
theory Go_Json
  imports Go_Text
begin

text \<open>
  What the program uses of \<open>encoding/json\<close>, \<open>encoding/base64\<close> and \<open>encoding/binary\<close> on byte strings: the
  escaped form of a string with HTML escaping, as \<open>json.Marshal\<close> writes it; the string that
  \<open>json.Unmarshal\<close> reads back, in which every byte that is not part of valid UTF-8 has become the replacement
  character; base64 of a byte slice; the instants that a \<open>time.Time\<close> can be marshalled at; and big-endian
  64-bit integers, whose byte order is the numeric order.
\<close>

section \<open>Strings\<close>

text \<open>The length of the UTF-8 sequence that a byte list starts with, 0 when it starts with an invalid byte.\<close>

definition rune_len :: "nat list \<Rightarrow> nat" where
  "rune_len bs =
     (case bs of
        [] \<Rightarrow> 0
      | b # bs0 \<Rightarrow>
          if b < 128 then 1
          else case bs0 of [] \<Rightarrow> 0 | b1 # bs1 \<Rightarrow>
            if 194 \<le> b \<and> b \<le> 223 then (if utf8_cont b1 then 2 else 0)
            else case bs1 of [] \<Rightarrow> 0 | b2 # bs2 \<Rightarrow>
              if 224 \<le> b \<and> b \<le> 239 then
                (if (if b = 224 then 160 else 128) \<le> b1 \<and> b1 \<le> (if b = 237 then 159 else 191) \<and> utf8_cont b2
                 then 3 else 0)
              else case bs2 of [] \<Rightarrow> 0 | b3 # bs3 \<Rightarrow>
                if 240 \<le> b \<and> b \<le> 244 \<and> (if b = 240 then 144 else 128) \<le> b1 \<and>
                   b1 \<le> (if b = 244 then 143 else 191) \<and> utf8_cont b2 \<and> utf8_cont b3
                then 4 else 0)"

definition ascii :: "string \<Rightarrow> nat list" where
  "ascii s = map of_char s"

definition hex_code :: "nat \<Rightarrow> nat" where
  "hex_code n = of_char (hex_digit n)"

definition json_escape :: "nat \<Rightarrow> nat list" where
  "json_escape b =
     (if b = 34 \<or> b = 92 then [92, b]
      else if b = 8 then [92, 98] else if b = 12 then [92, 102] else if b = 10 then [92, 110]
      else if b = 13 then [92, 114] else if b = 9 then [92, 116]
      else if b < 32 \<or> b = 38 \<or> b = 60 \<or> b = 62 then [92, 117, 48, 48, hex_code (b div 16), hex_code (b mod 16)]
      else [b])"

function json_body :: "nat list \<Rightarrow> nat list" where
  "json_body bs =
     (if bs = [] then []
      else let n = rune_len bs in
           if n = 0 then [92, 117, 102, 102, 102, 100] @ json_body (tl bs)
           else if n = 1 then json_escape (hd bs) @ json_body (tl bs)
           else if take 3 bs = [226, 128, 168] then [92, 117, 50, 48, 50, 56] @ json_body (drop n bs)
           else if take 3 bs = [226, 128, 169] then [92, 117, 50, 48, 50, 57] @ json_body (drop n bs)
           else take n bs @ json_body (drop n bs))"
  by pat_completeness auto

termination
  by (relation "measure length") auto

function repair_bytes :: "nat list \<Rightarrow> nat list" where
  "repair_bytes bs =
     (if bs = [] then []
      else let n = rune_len bs in
           if n = 0 then [239, 191, 189] @ repair_bytes (tl bs) else take n bs @ repair_bytes (drop n bs))"
  by pat_completeness auto

termination
  by (relation "measure length") auto

declare json_body.simps [simp del] repair_bytes.simps [simp del]

definition json_string :: "string \<Rightarrow> string" where
  "json_string s = map char_of ([34] @ json_body (bytes s) @ [34])"

text \<open>The string a reader gets back from \<open>json_string\<close>.\<close>

definition json_repair :: "string \<Rightarrow> string" where
  "json_repair s = map char_of (repair_bytes (bytes s))"

lemma rune_len_runes:
  assumes "utf8_runes bs \<noteq> None" and "bs \<noteq> []"
  shows "0 < rune_len bs \<and> rune_len bs \<le> length bs \<and> utf8_runes (drop (rune_len bs) bs) \<noteq> None"
proof -
  obtain b bs0 where bs: "bs = b # bs0" using assms(2) by (cases bs) auto
  show ?thesis
  proof (cases "b < 128")
    case True
    with assms(1) bs show ?thesis by (simp add: rune_len_def)
  next
    case large: False
    with assms(1) bs obtain b1 bs1 where bs0: "bs0 = b1 # bs1" by (cases bs0) auto
    show ?thesis
    proof (cases "194 \<le> b \<and> b \<le> 223")
      case True
      with large assms(1) bs bs0 show ?thesis by (simp add: rune_len_def del: utf8_runes.simps, subst (asm) utf8_runes.simps)
          (simp del: utf8_runes.simps split: if_splits)
    next
      case not2: False
      with large assms(1) bs bs0 obtain b2 bs2 where bs1: "bs1 = b2 # bs2" by (cases bs1) (auto split: if_splits)
      show ?thesis
      proof (cases "224 \<le> b \<and> b \<le> 239")
        case True
        with large not2 assms(1) bs bs0 bs1 show ?thesis by (simp add: rune_len_def del: utf8_runes.simps, subst (asm) utf8_runes.simps)
          (simp del: utf8_runes.simps split: if_splits)
      next
        case not3: False
        have "utf8_runes (b # b1 # b2 # bs2) \<noteq> None" using assms(1) bs bs0 bs1 by simp
        then obtain b3 bs3 where bs2: "bs2 = b3 # bs3"
          using large not2 not3 by (subst (asm) utf8_runes.simps, cases bs2) (simp_all del: utf8_runes.simps)
        then show ?thesis
          using large not2 not3 assms(1) bs bs0 bs1 by (simp add: rune_len_def del: utf8_runes.simps, subst (asm) utf8_runes.simps)
            (simp del: utf8_runes.simps split: if_splits)
      qed
    qed
  qed
qed

lemma repair_bytes_valid: "utf8_runes bs \<noteq> None \<Longrightarrow> repair_bytes bs = bs"
proof (induction bs rule: length_induct)
  case (1 bs)
  show ?case
  proof (cases "bs = []")
    case False
    with rune_len_runes [OF 1(2)] 1(1) have "repair_bytes (drop (rune_len bs) bs) = drop (rune_len bs) bs" by simp
    with False rune_len_runes [OF 1(2)] show ?thesis by (subst repair_bytes.simps) (simp add: Let_def)
  qed (simp add: repair_bytes.simps)
qed

lemma json_repair_valid [simp]: "utf8_valid s \<Longrightarrow> json_repair s = s"
  by (simp add: json_repair_def utf8_valid_def repair_bytes_valid bytes_def comp_def)

section \<open>Byte slices and times\<close>

definition base64_digit :: "nat \<Rightarrow> char" where
  "base64_digit n =
     (if n < 26 then char_of (65 + n) else if n < 52 then char_of (71 + n) else if n < 62 then char_of (n - 4)
      else if n = 62 then CHR ''+'' else CHR ''/'')"

fun base64 :: "nat list \<Rightarrow> string" where
  "base64 [] = []"
| "base64 [a] = [base64_digit (a div 4), base64_digit (a mod 4 * 16), CHR ''='', CHR ''='']"
| "base64 [a, b] =
     [base64_digit (a div 4), base64_digit (a mod 4 * 16 + b div 16), base64_digit (b mod 16 * 4), CHR ''='']"
| "base64 (a # b # c # cs) =
     [base64_digit (a div 4), base64_digit (a mod 4 * 16 + b div 16), base64_digit (b mod 16 * 4 + c div 64),
      base64_digit (c mod 64)] @ base64 cs"

definition json_bytes :: "string \<Rightarrow> string" where
  "json_bytes p = [CHR 0x22] @ base64 (bytes p) @ [CHR 0x22]"

text \<open>A field list in the order of the struct; an omitted field is left out.\<close>

fun json_fields :: "string list \<Rightarrow> string" where
  "json_fields [] = []"
| "json_fields [f] = f"
| "json_fields (f # fs) = f @ '','' @ json_fields fs"

definition json_object :: "(string \<times> string) list \<Rightarrow> string" where
  "json_object fs = ''{'' @ json_fields (map (\<lambda>(k, v). json_string k @ '':'' @ v) fs) @ ''}''"

text \<open>\<open>Time.MarshalJSON\<close> refuses a year outside 0 to 9999; times count from the start of the year 1.\<close>

definition day :: duration where
  "day = 24 * 60 * 60 * second"

definition json_time_ok :: "gotime \<Rightarrow> bool" where
  "json_time_ok t \<longleftrightarrow> - (366 * day) \<le> t \<and> t < 3652059 * day"

section \<open>Big-endian 64-bit integers\<close>

fun be_bytes :: "nat \<Rightarrow> nat \<Rightarrow> string" where
  "be_bytes 0 n = []"
| "be_bytes (Suc k) n = be_bytes k (n div 256) @ [char_of (n mod 256)]"

definition be_value :: "string \<Rightarrow> nat" where
  "be_value s = foldl (\<lambda>a c. 256 * a + of_char c) 0 s"

definition uint64Bytes :: "u64 \<Rightarrow> string" where
  "uint64Bytes v = be_bytes 8 (unat v)"

definition bigEndianUint64 :: "string \<Rightarrow> u64" where
  "bigEndianUint64 s = of_nat (be_value s)"

lemma length_be_bytes [simp]: "length (be_bytes k n) = k"
  by (induction k arbitrary: n) auto

lemma length_uint64Bytes [simp]: "length (uint64Bytes v) = 8"
  by (simp add: uint64Bytes_def)

lemma be_value_bytes: "n < 256 ^ k \<Longrightarrow> be_value (be_bytes k n) = n"
proof (induction k arbitrary: n)
  case (Suc k)
  then have "n div 256 < 256 ^ k" by (simp add: less_mult_imp_div_less mult.commute)
  with Suc show ?case by (simp add: be_value_def)
qed (simp add: be_value_def)

lemma bigEndianUint64_uint64Bytes [simp]: "bigEndianUint64 (uint64Bytes v) = v"
proof -
  have "unat v < 256 ^ 8" using unsigned_less [of v] by simp
  then show ?thesis by (simp add: bigEndianUint64_def uint64Bytes_def be_value_bytes)
qed

lemma uint64Bytes_inject [simp]: "uint64Bytes v = uint64Bytes w \<longleftrightarrow> v = w"
  by (metis bigEndianUint64_uint64Bytes)

lemma snoc_less:
  "length xs = length ys \<Longrightarrow> xs @ [a] < ys @ [b] \<longleftrightarrow> xs < ys \<or> xs = ys \<and> (a::char) < b"
  by (induction xs ys rule: list_induct2) auto

lemma be_bytes_less: "m < 256 ^ k \<Longrightarrow> n < 256 ^ k \<Longrightarrow> be_bytes k m < be_bytes k n \<longleftrightarrow> m < n"
proof (induction k arbitrary: m n)
  case (Suc k)
  have bound: "m div 256 < 256 ^ k" "n div 256 < 256 ^ k"
    using Suc.prems by (simp_all add: less_mult_imp_div_less mult.commute)
  have inj: "be_bytes k (m div 256) = be_bytes k (n div 256) \<longleftrightarrow> m div 256 = n div 256"
    using be_value_bytes [OF bound(1)] be_value_bytes [OF bound(2)] by metis
  have digit: "(char_of (m mod 256) :: char) < char_of (n mod 256) \<longleftrightarrow> m mod 256 < n mod 256"
    by (simp add: less_char_def)
  have "m < n \<longleftrightarrow> m div 256 < n div 256 \<or> m div 256 = n div 256 \<and> m mod 256 < n mod 256"
    using div_mult_mod_eq [of m 256] div_mult_mod_eq [of n 256] mod_less_divisor [of 256 m] mod_less_divisor [of 256 n]
    by (cases rule: linorder_cases [of "m div 256" "n div 256"]) linarith+
  with Suc.IH [OF bound] inj digit show ?case by (simp add: snoc_less)
qed simp

lemma uint64Bytes_less [simp]: "uint64Bytes v < uint64Bytes w \<longleftrightarrow> v < w"
proof -
  have "unat v < 256 ^ 8" "unat w < 256 ^ 8" using unsigned_less [of v] unsigned_less [of w] by simp_all
  then show ?thesis by (simp add: uint64Bytes_def be_bytes_less word_less_nat_alt)
qed

end
