(* ===== verification/Controller_Store.thy ===== *)
theory Controller_Store
  imports Controller_State Go_Json
begin

text \<open>
  What the JSON store of the controller (\<^verbatim>\<open>controller/store.go\<close>) reads back from the document it has written. Every text, map keys
  included, comes back with the replacement character for each byte that is not part of valid UTF-8; keys that become equal that way leave one
  entry, the one written last, in the order of the keys. A sample whose time is not in UTC comes back with some other representation of the same
  instant, which the argument \<open>zn\<close> chooses for its place in the document. Numbers, Booleans and instants come back as they were.
\<close>

section \<open>Decoded values\<close>

definition json_map :: "('k \<Rightarrow> string) \<Rightarrow> ('k \<Rightarrow> 'k) \<Rightarrow> ('k \<Rightarrow> 'v \<Rightarrow> 'v) \<Rightarrow> ('k, 'v) gomap \<Rightarrow> ('k, 'v) gomap" where
  "json_map key f h m = map (\<lambda>(k, v). (f k, h k v)) (filter (\<lambda>(k, v). list_all (\<lambda>(k', _). f k' = f k \<longrightarrow> key k' \<le> key k) m) m)"

fun json_ctl_phase :: "ctl_phase \<Rightarrow> ctl_phase" where
  "json_ctl_phase (CtlOther s) = CtlOther (json_repair s)"
| "json_ctl_phase ph = ph"

fun json_phase :: "Phase \<Rightarrow> Phase" where
  "json_phase (PhaseOther s) = PhaseOther (json_repair s)"
| "json_phase ph = ph"

fun json_role :: "ParticipantRole \<Rightarrow> ParticipantRole" where
  "json_role (RoleOther s) = RoleOther (json_repair s)"
| "json_role r = r"

fun json_kind :: "DestinationKind \<Rightarrow> DestinationKind" where
  "json_kind (DestinationOther s) = DestinationOther (json_repair s)"
| "json_kind k = k"

definition json_queue :: "QueueInfo \<Rightarrow> QueueInfo" where
  "json_queue q = q\<lparr>q_name := json_repair (q_name q)\<rparr>"

definition json_destination :: "DestinationInfo \<Rightarrow> DestinationInfo" where
  "json_destination d = d\<lparr>d_kind := json_kind (d_kind d), d_name := json_repair (d_name d)\<rparr>"

definition json_descriptor :: "BrokerDescriptor \<Rightarrow> BrokerDescriptor" where
  "json_descriptor d = d\<lparr>bd_id := json_repair (bd_id d), bd_endpoint := json_repair (bd_endpoint d)\<rparr>"

definition json_resource :: "EpochResourceIdentity \<Rightarrow> EpochResourceIdentity" where
  "json_resource r = r\<lparr>er_broker := json_repair (er_broker r), er_set := json_repair (er_set r),
     er_queue := json_repair (er_queue r), er_topic := json_repair (er_topic r)\<rparr>"

definition json_snapshot :: "MembershipSnapshot \<Rightarrow> MembershipSnapshot" where
  "json_snapshot m = m
     \<lparr>ms_namespace := json_repair (ms_namespace m), ms_library := json_repair (ms_library m), ms_group := json_repair (ms_group m),
      ms_phase := json_ctl_phase (ms_phase m), ms_hash := json_repair (ms_hash m), ms_algorithm := json_repair (ms_algorithm m),
      ms_current := map json_repair (ms_current m), ms_proposed := map json_repair (ms_proposed m),
      ms_current_brokers := map json_descriptor (ms_current_brokers m), ms_proposed_brokers := map json_descriptor (ms_proposed_brokers m),
      ms_transition := map_option (\<lambda>t. t\<lparr>tr_id := json_repair (tr_id t)\<rparr>) (ms_transition m),
      ms_queue := json_queue (ms_queue m), ms_destination := json_destination (ms_destination m),
      ms_current_resources := map json_resource (ms_current_resources m), ms_proposed_resources := map json_resource (ms_proposed_resources m)\<rparr>"

definition json_broker :: "Broker \<Rightarrow> Broker" where
  "json_broker b = b\<lparr>br_id := json_repair (br_id b), br_destination := json_repair (br_destination b)\<rparr>"

definition json_requirement :: "ParticipantRequirement \<Rightarrow> ParticipantRequirement" where
  "json_requirement r = r\<lparr>pr_participant := json_repair (pr_participant r), pr_role := json_role (pr_role r)\<rparr>"

definition json_spec :: "TransitionSpec \<Rightarrow> TransitionSpec" where
  "json_spec s = s
     \<lparr>ts_id := json_repair (ts_id s), ts_namespace := json_repair (ts_namespace s), ts_library := json_repair (ts_library s),
      ts_group := json_repair (ts_group s), ts_current := map json_broker (ts_current s), ts_proposed := map json_broker (ts_proposed s),
      ts_current_brokers := map json_descriptor (ts_current_brokers s), ts_proposed_brokers := map json_descriptor (ts_proposed_brokers s),
      ts_queue := json_queue (ts_queue s), ts_destination := json_destination (ts_destination s),
      ts_current_resources := map json_resource (ts_current_resources s), ts_proposed_resources := map json_resource (ts_proposed_resources s),
      ts_hash := json_repair (ts_hash s), ts_algorithm := json_repair (ts_algorithm s), ts_required := map json_repair (ts_required s),
      ts_participants := json_map phase_string json_phase (\<lambda>ph. map json_repair) (ts_participants s),
      ts_roles := json_map phase_string json_phase (\<lambda>ph. map json_requirement) (ts_roles s)\<rparr>"

text \<open>The places of a document that hold a sample.\<close>

datatype sample_place = LatestOf string string | MessageOf string string | LatestSample string

fun json_zone :: "zone \<Rightarrow> zone \<Rightarrow> zone" where
  "json_zone decoded UTC = UTC"
| "json_zone decoded (Zone n) = decoded"

definition json_telemetry :: "zone \<Rightarrow> Telemetry \<Rightarrow> Telemetry" where
  "json_telemetry decoded t = t
     \<lparr>tm_message := json_repair (tm_message t), tm_namespace := json_repair (tm_namespace t), tm_group := json_repair (tm_group t),
      tm_transition := json_repair (tm_transition t), tm_participant := json_repair (tm_participant t), tm_role := json_role (tm_role t),
      tm_broker := json_repair (tm_broker t), tm_queue := json_repair (tm_queue t), tm_zone := json_zone decoded (tm_zone t)\<rparr>"

definition json_event :: "PhaseEvent \<Rightarrow> PhaseEvent" where
  "json_event e = e\<lparr>pe_phase := json_phase (pe_phase e)\<rparr>"

definition json_record :: "TransitionRecord \<Rightarrow> TransitionRecord" where
  "json_record r = r\<lparr>rc_transition := json_repair (rc_transition r), rc_phases := map json_event (rc_phases r)\<rparr>"

definition json_source :: "DrainSourceEvidence \<Rightarrow> DrainSourceEvidence" where
  "json_source d = d\<lparr>ds_broker := json_repair (ds_broker d), ds_queue := json_repair (ds_queue d), ds_message := json_repair (ds_message d)\<rparr>"

definition json_evidence :: "CleanupEvidence \<Rightarrow> CleanupEvidence" where
  "json_evidence c = c\<lparr>ce_transition := json_repair (ce_transition c), ce_sources := map json_source (ce_sources c)\<rparr>"

definition json_group :: "(sample_place \<Rightarrow> zone) \<Rightarrow> string \<Rightarrow> GroupState \<Rightarrow> GroupState" where
  "json_group zn g gs = gs
     \<lparr>gs_spec := json_spec (gs_spec gs), gs_phase := json_phase (gs_phase gs),
      gs_acks := json_map phase_string json_phase (\<lambda>ph. json_map (\<lambda>p. p) json_repair (\<lambda>p at. at)) (gs_acks gs),
      gs_issued := json_map phase_string json_phase (\<lambda>ph. json_map (\<lambda>p. p) json_repair (\<lambda>p. json_repair)) (gs_issued gs),
      gs_latest := json_map (\<lambda>k. k) json_repair (\<lambda>k. json_telemetry (zn (LatestOf g k))) (gs_latest gs),
      gs_zero := json_map (\<lambda>k. k) json_repair (\<lambda>k at. at) (gs_zero gs),
      gs_messages := json_map (\<lambda>k. k) json_repair (\<lambda>k. json_telemetry (zn (MessageOf g k))) (gs_messages gs),
      gs_latest_telemetry := map_option (json_telemetry (zn (LatestSample g))) (gs_latest_telemetry gs),
      gs_history := map json_event (gs_history gs)\<rparr>"

definition json_state :: "(sample_place \<Rightarrow> zone) \<Rightarrow> PersistentState \<Rightarrow> PersistentState" where
  "json_state zn st = st
     \<lparr>ps_membership := json_map (\<lambda>g. g) json_repair (\<lambda>g. json_snapshot) (ps_membership st),
      ps_groups := json_map (\<lambda>g. g) json_repair (json_group zn) (ps_groups st),
      ps_history := json_map (\<lambda>g. g) json_repair (\<lambda>g. map json_record) (ps_history st),
      ps_cleanup := json_map (\<lambda>g. g) json_repair (\<lambda>g. map json_evidence) (ps_cleanup st)\<rparr>"

section \<open>Documents that read back unchanged\<close>

text \<open>All texts of the document are valid UTF-8, and all sample times are in UTC.\<close>

abbreviation utf8_texts :: "string list \<Rightarrow> bool" where
  "utf8_texts \<equiv> list_all utf8_valid"

definition utf8_map :: "('k \<Rightarrow> string) \<Rightarrow> ('v \<Rightarrow> bool) \<Rightarrow> ('k, 'v) gomap \<Rightarrow> bool" where
  "utf8_map key p m \<longleftrightarrow> list_all (\<lambda>(k, v). utf8_valid (key k) \<and> p v) m"

fun ctl_phase_string :: "ctl_phase \<Rightarrow> string" where
  "ctl_phase_string CtlActive = ''ACTIVE''"
| "ctl_phase_string CtlPrepare = ''PREPARE''"
| "ctl_phase_string CtlPaused = ''PAUSED''"
| "ctl_phase_string CtlDrain = ''DRAIN''"
| "ctl_phase_string CtlCommitted = ''COMMITTED''"
| "ctl_phase_string (CtlOther s) = s"

fun kind_string :: "DestinationKind \<Rightarrow> string" where
  "kind_string DestinationTopic = ''TOPIC''"
| "kind_string DestinationQueue = ''QUEUE''"
| "kind_string (DestinationOther s) = s"

definition utf8_descriptor :: "BrokerDescriptor \<Rightarrow> bool" where
  "utf8_descriptor d \<longleftrightarrow> utf8_texts [bd_id d, bd_endpoint d]"

definition utf8_resource :: "EpochResourceIdentity \<Rightarrow> bool" where
  "utf8_resource r \<longleftrightarrow> utf8_texts [er_broker r, er_set r, er_queue r, er_topic r]"

definition utf8_snapshot :: "MembershipSnapshot \<Rightarrow> bool" where
  "utf8_snapshot m \<longleftrightarrow>
     utf8_texts ([ms_namespace m, ms_library m, ms_group m, ctl_phase_string (ms_phase m), ms_hash m, ms_algorithm m, q_name (ms_queue m),
       kind_string (d_kind (ms_destination m)), d_name (ms_destination m)] @ ms_current m @ ms_proposed m) \<and>
     list_all utf8_descriptor (ms_current_brokers m @ ms_proposed_brokers m) \<and>
     list_all utf8_resource (ms_current_resources m @ ms_proposed_resources m) \<and> (case ms_transition m of None \<Rightarrow> True | Some t \<Rightarrow> utf8_valid (tr_id t))"

definition utf8_spec :: "TransitionSpec \<Rightarrow> bool" where
  "utf8_spec s \<longleftrightarrow>
     utf8_texts ([ts_id s, ts_namespace s, ts_library s, ts_group s, q_name (ts_queue s), kind_string (d_kind (ts_destination s)),
       d_name (ts_destination s), ts_hash s, ts_algorithm s] @ ts_required s) \<and>
     list_all (\<lambda>b. utf8_texts [br_id b, br_destination b]) (ts_current s @ ts_proposed s) \<and>
     list_all utf8_descriptor (ts_current_brokers s @ ts_proposed_brokers s) \<and>
     list_all utf8_resource (ts_current_resources s @ ts_proposed_resources s) \<and>
     utf8_map phase_string utf8_texts (ts_participants s) \<and>
     utf8_map phase_string (list_all (\<lambda>r. utf8_texts [pr_participant r, role_string (pr_role r)])) (ts_roles s)"

definition storable_sample :: "Telemetry \<Rightarrow> bool" where
  "storable_sample t \<longleftrightarrow> tm_zone t = UTC \<and>
     utf8_texts [tm_message t, tm_namespace t, tm_group t, tm_transition t, tm_participant t, role_string (tm_role t), tm_broker t, tm_queue t]"

definition utf8_event :: "PhaseEvent \<Rightarrow> bool" where
  "utf8_event e \<longleftrightarrow> utf8_valid (phase_string (pe_phase e))"

definition storable_group :: "GroupState \<Rightarrow> bool" where
  "storable_group gs \<longleftrightarrow> utf8_spec (gs_spec gs) \<and> utf8_valid (phase_string (gs_phase gs)) \<and>
     utf8_map phase_string (utf8_map (\<lambda>p. p) (\<lambda>at. True)) (gs_acks gs) \<and>
     utf8_map phase_string (utf8_map (\<lambda>p. p) utf8_valid) (gs_issued gs) \<and> utf8_map (\<lambda>k. k) storable_sample (gs_latest gs) \<and>
     utf8_map (\<lambda>k. k) (\<lambda>at. True) (gs_zero gs) \<and> utf8_map (\<lambda>k. k) storable_sample (gs_messages gs) \<and>
     (case gs_latest_telemetry gs of None \<Rightarrow> True | Some t \<Rightarrow> storable_sample t) \<and> list_all utf8_event (gs_history gs)"

definition storable :: "PersistentState \<Rightarrow> bool" where
  "storable st \<longleftrightarrow> utf8_map (\<lambda>g. g) utf8_snapshot (ps_membership st) \<and> utf8_map (\<lambda>g. g) storable_group (ps_groups st) \<and>
     utf8_map (\<lambda>g. g) (list_all (\<lambda>r. utf8_valid (rc_transition r) \<and> list_all utf8_event (rc_phases r))) (ps_history st) \<and>
     utf8_map (\<lambda>g. g) (list_all (\<lambda>c. utf8_valid (ce_transition c) \<and>
       list_all (\<lambda>d. utf8_texts [ds_broker d, ds_queue d, ds_message d]) (ce_sources c))) (ps_cleanup st)"

lemma json_text_same [simp]:
  "utf8_valid (ctl_phase_string p) \<Longrightarrow> json_ctl_phase p = p" "utf8_valid (phase_string ph) \<Longrightarrow> json_phase ph = ph"
  "utf8_valid (role_string r) \<Longrightarrow> json_role r = r" "utf8_valid (kind_string k) \<Longrightarrow> json_kind k = k"
  by ((cases p; simp), (cases ph; simp), (cases r; simp), (cases k; simp))

lemma map_same: "list_all P xs \<Longrightarrow> (\<And>x. P x \<Longrightarrow> f x = x) \<Longrightarrow> map f xs = xs"
  by (induction xs) auto

lemma json_map_same:
  assumes "utf8_map key p m" and "\<And>k. utf8_valid (key k) \<Longrightarrow> f k = k" and "\<And>k v. p v \<Longrightarrow> h k v = v"
  shows "json_map key f h m = m"
proof -
  have e: "f k = k \<and> h k v = v" if "(k, v) \<in> set m" for k v
    using assms that by (auto simp: utf8_map_def list_all_iff)
  have "filter (\<lambda>(k, v). list_all (\<lambda>(k', _). f k' = f k \<longrightarrow> key k' \<le> key k) m) m = m"
    using e by (fastforce simp: filter_id_conv list_all_iff)
  moreover have "map (\<lambda>(k, v). (f k, h k v)) m = m" using e by (auto intro: map_idI)
  ultimately show ?thesis by (simp add: json_map_def)
qed

lemma json_texts_same [simp]: "utf8_texts xs \<Longrightarrow> map json_repair xs = xs"
  by (erule map_same) simp

lemma json_parts_same [simp]:
  "list_all utf8_descriptor ds \<Longrightarrow> map json_descriptor ds = ds" "list_all utf8_resource rs \<Longrightarrow> map json_resource rs = rs"
  "list_all utf8_event es \<Longrightarrow> map json_event es = es"
  by (erule map_same, simp add: utf8_descriptor_def json_descriptor_def utf8_resource_def json_resource_def utf8_event_def json_event_def)+

lemma json_snapshot_same [simp]: "utf8_snapshot m \<Longrightarrow> json_snapshot m = m"
  by (cases "ms_transition m") (simp_all add: utf8_snapshot_def json_snapshot_def json_queue_def json_destination_def)

lemma json_spec_same [simp]:
  assumes "utf8_spec s"
  shows "json_spec s = s"
proof -
  have "map json_broker (ts_current s) = ts_current s" "map json_broker (ts_proposed s) = ts_proposed s"
    using assms by (auto simp: utf8_spec_def json_broker_def list_all_iff intro!: map_idI)
  moreover have "json_map phase_string json_phase (\<lambda>ph. map json_repair) (ts_participants s) = ts_participants s"
    using assms unfolding utf8_spec_def by (intro json_map_same [where p = utf8_texts]) simp_all
  moreover have "json_map phase_string json_phase (\<lambda>ph. map json_requirement) (ts_roles s) = ts_roles s"
    using assms unfolding utf8_spec_def
    by (intro json_map_same [where p = "list_all (\<lambda>r. utf8_texts [pr_participant r, role_string (pr_role r)])"])
      (auto simp: json_requirement_def list_all_iff intro!: map_idI)
  ultimately show ?thesis using assms by (simp add: utf8_spec_def json_spec_def json_queue_def json_destination_def)
qed

lemma json_telemetry_same [simp]: "storable_sample t \<Longrightarrow> json_telemetry z t = t"
  by (simp add: storable_sample_def json_telemetry_def)

lemma json_group_same [simp]:
  assumes "storable_group gs"
  shows "json_group zn g gs = gs"
proof -
  note s = assms [unfolded storable_group_def]
  have "json_map phase_string json_phase (\<lambda>ph. json_map (\<lambda>p. p) json_repair (\<lambda>p at. at)) (gs_acks gs) = gs_acks gs"
    using s by (intro json_map_same [where p = "utf8_map (\<lambda>p. p) (\<lambda>at. True)"] json_map_same [where p = "\<lambda>at. True"]) simp_all
  moreover have "json_map phase_string json_phase (\<lambda>ph. json_map (\<lambda>p. p) json_repair (\<lambda>p. json_repair)) (gs_issued gs) = gs_issued gs"
    using s by (intro json_map_same [where p = "utf8_map (\<lambda>p. p) utf8_valid"] json_map_same [where p = utf8_valid]) simp_all
  moreover have "json_map (\<lambda>k. k) json_repair (\<lambda>k. json_telemetry (zn (LatestOf g k))) (gs_latest gs) = gs_latest gs"
    "json_map (\<lambda>k. k) json_repair (\<lambda>k. json_telemetry (zn (MessageOf g k))) (gs_messages gs) = gs_messages gs"
    using s by (intro json_map_same [where p = storable_sample]; simp)+
  moreover have "json_map (\<lambda>k. k) json_repair (\<lambda>k at. at) (gs_zero gs) = gs_zero gs"
    using s by (intro json_map_same [where p = "\<lambda>at. True"]) simp_all
  moreover have "map_option (json_telemetry (zn (LatestSample g))) (gs_latest_telemetry gs) = gs_latest_telemetry gs"
    using s by (cases "gs_latest_telemetry gs") simp_all
  ultimately show ?thesis using s by (simp add: json_group_def)
qed

lemma json_state_same:
  assumes "storable st"
  shows "json_state zn st = st"
proof -
  note s = assms [unfolded storable_def]
  let ?r = "\<lambda>r. utf8_valid (rc_transition r) \<and> list_all utf8_event (rc_phases r)"
  let ?d = "\<lambda>d. utf8_texts [ds_broker d, ds_queue d, ds_message d]"
  let ?c = "\<lambda>c. utf8_valid (ce_transition c) \<and> list_all ?d (ce_sources c)"
  have d: "map json_source ds = ds" if "list_all ?d ds" for ds by (rule map_same [OF that]) (simp add: json_source_def)
  have c: "map json_evidence cs = cs" if "list_all ?c cs" for cs by (rule map_same [OF that]) (simp add: json_evidence_def d)
  have r: "map json_record rs = rs" if "list_all ?r rs" for rs by (rule map_same [OF that]) (simp add: json_record_def)
  have "json_map (\<lambda>g. g) json_repair (\<lambda>g. json_snapshot) (ps_membership st) = ps_membership st"
    using s by (intro json_map_same [where p = utf8_snapshot]) simp_all
  moreover have "json_map (\<lambda>g. g) json_repair (json_group zn) (ps_groups st) = ps_groups st"
    using s by (intro json_map_same [where p = storable_group]) simp_all
  moreover have "json_map (\<lambda>g. g) json_repair (\<lambda>g. map json_record) (ps_history st) = ps_history st"
    using s r by (intro json_map_same [where p = "list_all ?r"]) simp_all
  moreover have "json_map (\<lambda>g. g) json_repair (\<lambda>g. map json_evidence) (ps_cleanup st) = ps_cleanup st"
    using s c by (intro json_map_same [where p = "list_all ?c"]) simp_all
  ultimately show ?thesis by (simp add: json_state_def)
qed

end
