(* ===== verification/Controller.thy ===== *)
theory Controller
  imports Controller_Store
begin

text \<open>
  The operations of the transition controller (\<^verbatim>\<open>controller/controller.go\<close>) as functions on its state and
  on the history of its calls to the outside. What lies outside (the clock, the store, the broker fence,
  the control publisher) is an \<open>environment\<close> that answers each call as a function of the history so
  far, so that every sequence of answers is some environment. Other goroutines that do not take the group
  lock (\<open>Acknowledge\<close> and \<open>SaveMembership\<close>) may run whenever an operation is about to take the commit
  lock or to publish: the environment chooses which. A crash inside an operation is an operation whose remaining
  calls fail, followed by a restart from the disk.
\<close>

section \<open>Environment and controller\<close>

datatype save_result = SaveOk | SaveFailed bool

datatype foreign_call = ForeignAck Acknowledgement | ForeignMembership MembershipSnapshot

datatype event =
    EvNow gotime
  | EvSave save_result
  | EvFence TransitionSpec FenceRequest bool
  | EvUnfence TransitionSpec FenceRequest bool
  | EvVerifyFence FenceRequest "FenceStatus option"
  | EvEnableIngress FenceRequest bool
  | EvVerifyIngress FenceRequest "IngressStatus option"
  | EvPublish TransitionSpec ControlUpdate bool
  | EvInterleave

type_synonym events = "event list"

text \<open>
  A failed save may or may not have replaced the document (\<open>SaveFailed True\<close>: the rename happened and
  the directory sync failed). A Boolean answer is success; \<open>None\<close> is an error of a verification.
\<close>

record environment =
  env_now :: "events \<Rightarrow> gotime"
  env_save :: "events \<Rightarrow> save_result"
  env_fence :: "events \<Rightarrow> FenceRequest \<Rightarrow> bool"
  env_unfence :: "events \<Rightarrow> FenceRequest \<Rightarrow> bool"
  env_verify_fence :: "events \<Rightarrow> FenceRequest \<Rightarrow> FenceStatus option"
  env_enable_ingress :: "events \<Rightarrow> FenceRequest \<Rightarrow> bool"
  env_verify_ingress :: "events \<Rightarrow> FenceRequest \<Rightarrow> IngressStatus option"
  env_publish :: "events \<Rightarrow> ControlUpdate \<Rightarrow> bool"
  env_foreign :: "events \<Rightarrow> foreign_call list"
  env_zone :: "sample_place \<Rightarrow> zone"

text \<open>
  \<open>c_log\<close> is the history, newest call first (a call that fences, unfences or publishes is logged with
  the specification it is made for); \<open>c_disk\<close> is what a restart would load.
\<close>

record Controller =
  c_options :: Options
  c_state :: PersistentState
  c_disk :: PersistentState
  c_log :: events

definition stateVersion :: int where
  "stateVersion = 1"

definition clock :: "environment \<Rightarrow> events \<Rightarrow> gotime \<times> events" where
  "clock env l = (env_now env l, EvNow (env_now env l) # l)"

definition read_clock :: "environment \<Rightarrow> Controller \<Rightarrow> gotime \<times> Controller" where
  "read_clock env w = (env_now env (c_log w), w\<lparr>c_log := EvNow (env_now env (c_log w)) # c_log w\<rparr>)"

definition groupState :: "string \<Rightarrow> Controller \<Rightarrow> GroupState option" where
  "groupState g w = mget (ps_groups (c_state w)) g"

section \<open>Durable updates\<close>

text \<open>What an update closure returns: an error, \<open>errNoStateChange\<close>, or the next state.\<close>

datatype decision = Reject controller_error | NoStateChange | Accept PersistentState

definition updateState ::
  "environment \<Rightarrow> (PersistentState \<Rightarrow> events \<Rightarrow> decision \<times> events) \<Rightarrow> Controller \<Rightarrow>
   controller_error option \<times> Controller" where
  "updateState env f w =
     (case f (c_state w) (c_log w) of
        (Reject e, l) \<Rightarrow> (Some e, w\<lparr>c_log := l\<rparr>)
      | (NoStateChange, l) \<Rightarrow> (None, w\<lparr>c_log := l\<rparr>)
      | (Accept nxt, l) \<Rightarrow>
          let saved = nxt\<lparr>ps_version := stateVersion\<rparr>; r = env_save env l in
          (case r of
             SaveOk \<Rightarrow> (None, w\<lparr>c_state := nxt, c_disk := saved, c_log := EvSave r # l\<rparr>)
           | SaveFailed replaced \<Rightarrow>
               (Some ErrPersist, w\<lparr>c_disk := (if replaced then saved else c_disk w), c_log := EvSave r # l\<rparr>)))"

definition pure_update :: "(PersistentState \<Rightarrow> decision) \<Rightarrow> PersistentState \<Rightarrow> events \<Rightarrow> decision \<times> events" where
  "pure_update f st l = (f st, l)"

section \<open>Operations that take only the commit lock\<close>

definition ack_scope :: "Acknowledgement \<Rightarrow> GroupState \<Rightarrow> bool" where
  "ack_scope a gs \<longleftrightarrow> \<not> (gs_completed gs \<or> gs_rolling gs \<or> \<not> commandsIssued gs (ak_phase a) \<or>
     ak_transition a \<noteq> ts_id (gs_spec gs) \<or> ak_epoch a \<noteq> ts_to (gs_spec gs) \<or> ak_phase a \<noteq> gs_phase gs)"

definition ack_identity :: "Acknowledgement \<Rightarrow> GroupState \<Rightarrow> ParticipantRequirement \<Rightarrow> bool" where
  "ack_identity a gs r =
     (if pr_role r = RoleUnset then ak_command a = [] \<and> ak_authenticated a = [] \<and> ak_role a = RoleUnset
      else ak_command a = mget_or (mget_or (gs_issued gs) (ak_phase a) []) (ak_participant a) [] \<and>
           ak_authenticated a = ak_participant a \<and> ak_role a = pr_role r)"

definition record_ack :: "Acknowledgement \<Rightarrow> GroupState \<Rightarrow> GroupState" where
  "record_ack a gs = gs\<lparr>gs_acks := mput (ak_phase a)
     (mput (ak_participant a) (ak_observed a) (mget_or (gs_acks gs) (ak_phase a) [])) (gs_acks gs)\<rparr>"

definition put_group :: "string \<Rightarrow> GroupState \<Rightarrow> PersistentState \<Rightarrow> PersistentState" where
  "put_group g gs st = st\<lparr>ps_groups := mput g gs (ps_groups st)\<rparr>"

definition ack_update :: "Acknowledgement \<Rightarrow> PersistentState \<Rightarrow> decision" where
  "ack_update a st =
     (case mget (ps_groups st) (ak_group a) of
        None \<Rightarrow> Reject ErrTransitionNotFound
      | Some gs \<Rightarrow>
          if \<not> ack_scope a gs then Reject ErrStaleMessage
          else (case requirementFor (gs_spec gs) (ak_phase a) (ak_participant a) of
                  None \<Rightarrow> Reject ErrUnknownParticipant
                | Some r \<Rightarrow>
                    if ak_namespace a \<noteq> ts_namespace (gs_spec gs) then Reject ErrStaleMessage
                    else if \<not> ack_identity a gs r then Reject ErrStaleMessage
                    else (case mget (mget_or (gs_acks gs) (ak_phase a) []) (ak_participant a) of
                            Some existing \<Rightarrow>
                              if \<not> existing < ak_observed a then NoStateChange
                              else Accept (put_group (ak_group a) (record_ack a gs) st)
                          | None \<Rightarrow> Accept (put_group (ak_group a) (record_ack a gs) st))))"

definition Acknowledge :: "environment \<Rightarrow> Acknowledgement \<Rightarrow> Controller \<Rightarrow> controller_error option \<times> Controller" where
  "Acknowledge env a w =
     (if IsZero (ak_observed a) then
        let (now, w1) = read_clock env w in updateState env (pure_update (ack_update (a\<lparr>ak_observed := now\<rparr>))) w1
      else updateState env (pure_update (ack_update a)) w)"

text \<open>The code compares the encodings, which are equal when they decode to the same value.\<close>

definition membershipSnapshotsEqual :: "MembershipSnapshot \<Rightarrow> MembershipSnapshot \<Rightarrow> bool" where
  "membershipSnapshotsEqual l r \<longleftrightarrow> json_snapshot l = json_snapshot r"

definition membership_update :: "MembershipSnapshot \<Rightarrow> PersistentState \<Rightarrow> decision" where
  "membership_update m st =
     (case mget (ps_membership st) (ms_group m) of
        None \<Rightarrow> Accept (st\<lparr>ps_membership := mput (ms_group m) m (ps_membership st)\<rparr>)
      | Some cur \<Rightarrow>
          if ms_revision m < ms_revision cur \<or> ms_epoch m < ms_epoch cur then Reject (ErrMembershipRegressed (ms_group m))
          else if ms_revision m = ms_revision cur then
            (if \<not> membershipSnapshotsEqual cur m then Reject (ErrMembershipConflict (ms_group m)) else NoStateChange)
          else Accept (st\<lparr>ps_membership := mput (ms_group m) m (ps_membership st)\<rparr>))"

definition SaveMembership :: "environment \<Rightarrow> MembershipSnapshot \<Rightarrow> Controller \<Rightarrow> controller_error option \<times> Controller" where
  "SaveMembership env m w =
     (case Validate m of
        Some e \<Rightarrow> (Some (ErrSnapshotInvalid e), w)
      | None \<Rightarrow> updateState env (pure_update (membership_update m)) w)"

section \<open>Interleaving\<close>

fun foreign_step :: "environment \<Rightarrow> foreign_call \<Rightarrow> Controller \<Rightarrow> Controller" where
  "foreign_step env (ForeignAck a) w = snd (Acknowledge env a w)"
| "foreign_step env (ForeignMembership m) w = snd (SaveMembership env m w)"

definition interleave :: "environment \<Rightarrow> Controller \<Rightarrow> Controller" where
  "interleave env w = fold (foreign_step env) (env_foreign env (c_log w)) (w\<lparr>c_log := EvInterleave # c_log w\<rparr>)"

text \<open>
  \<open>updateGroup\<close>: the closure may read the clock; entering COMMIT records cleanup evidence and completing
  records the outcome in the history.
\<close>

definition finish_group ::
  "Options \<Rightarrow> string \<Rightarrow> GroupState \<Rightarrow> GroupState \<Rightarrow> PersistentState \<Rightarrow> PersistentState" where
  "finish_group o1 g before after st =
     (let (gs, st1) = (if gs_phase before \<noteq> PhaseCommit \<and> gs_phase after = PhaseCommit
                       then recordCleanupEvidence g after st else (after, st));
          st2 = (if \<not> gs_completed before \<and> gs_completed gs then recordCompletion g gs (op_history o1) st1 else st1)
      in put_group g gs st2)"

definition group_update ::
  "Options \<Rightarrow> string \<Rightarrow> (events \<Rightarrow> (GroupState \<Rightarrow> GroupState) \<times> events) \<Rightarrow> PersistentState \<Rightarrow> events \<Rightarrow>
   decision \<times> events" where
  "group_update o1 g f st l =
     (case mget (ps_groups st) g of
        None \<Rightarrow> (Reject ErrTransitionNotFound, l)
      | Some gs \<Rightarrow> (case f l of (upd, l1) \<Rightarrow> (Accept (finish_group o1 g gs (upd gs) st), l1)))"

definition updateGroupWith ::
  "environment \<Rightarrow> string \<Rightarrow> (events \<Rightarrow> (GroupState \<Rightarrow> GroupState) \<times> events) \<Rightarrow> Controller \<Rightarrow>
   controller_error option \<times> Controller" where
  "updateGroupWith env g f w =
     (let w1 = interleave env w in updateState env (group_update (c_options w1) g f) w1)"

definition updateGroup ::
  "environment \<Rightarrow> string \<Rightarrow> (GroupState \<Rightarrow> GroupState) \<Rightarrow> Controller \<Rightarrow> controller_error option \<times> Controller" where
  "updateGroup env g f = updateGroupWith env g (\<lambda>l. (f, l))"

definition updateGroupAt ::
  "environment \<Rightarrow> string \<Rightarrow> (gotime \<Rightarrow> GroupState \<Rightarrow> GroupState) \<Rightarrow> Controller \<Rightarrow> controller_error option \<times> Controller"
  where
  "updateGroupAt env g f = updateGroupWith env g (\<lambda>l. case clock env l of (now, l1) \<Rightarrow> (f now, l1))"

section \<open>Starting a transition\<close>

definition default_grace :: "Options \<Rightarrow> string \<Rightarrow> TransitionSpec \<Rightarrow> TransitionSpec" where
  "default_grace o1 g s = (if ts_drain_grace s = 0 then s\<lparr>ts_drain_grace := configured_grace o1 g\<rparr> else s)"

definition sort_requirements ::
  "(Phase, ParticipantRequirement list) gomap \<Rightarrow> (Phase, ParticipantRequirement list) gomap" where
  "sort_requirements m = map (\<lambda>(ph, rs). (ph, sort_key pr_participant rs)) m"

definition normalize_spec :: "TransitionSpec \<Rightarrow> controller_error + TransitionSpec" where
  "normalize_spec s =
     (let s1 = s\<lparr>ts_required := sort (ts_required s)\<rparr> in
      case normalizedRoleRequirements s1 of
        Inl e \<Rightarrow> Inl e
      | Inr roles \<Rightarrow>
          let s2 = s1\<lparr>ts_roles := sort_requirements roles\<rparr> in
          (case normalizedRequirements s2 of
             Inl e \<Rightarrow> Inl e
           | Inr participants \<Rightarrow> Inr (s2\<lparr>ts_participants := participants\<rparr>)))"

definition new_group :: "Options \<Rightarrow> TransitionSpec \<Rightarrow> gotime \<Rightarrow> GroupState" where
  "new_group o1 s now =
     \<lparr>gs_spec = s, gs_phase = PhasePrepare, gs_acks = [], gs_issued = [], gs_latest = [], gs_zero = [], gs_messages = [],
      gs_prepare_published = False, gs_fence_attempted = False, gs_fenced = False, gs_pause_published = False,
      gs_drain_published = False, gs_commit_published = False, gs_ingress_enabled = False, gs_ingress_verified = False,
      gs_activate_published = False, gs_latest_telemetry = None, gs_zero_since = None, gs_rolling = False,
      gs_rollback_published = False, gs_unfenced = False, gs_completed = False, gs_started = now, gs_entered = now,
      gs_deadline = now + phaseTimeout o1 (ts_group s), gs_completed_at = None,
      gs_history = [\<lparr>pe_phase = PhasePrepare, pe_entered = now, pe_exited = None\<rparr>], gs_fence_verified_at = None,
      gs_ingress_verified_at = None, gs_cleanup_recorded = False\<rparr>"

definition create_group :: "environment \<Rightarrow> TransitionSpec \<Rightarrow> Controller \<Rightarrow> (controller_error + GroupState) \<times> Controller" where
  "create_group env s w =
     (let (now, w1) = read_clock env w;
          created = new_group (c_options w) s now;
          w2 = interleave env w1
      in case updateState env (pure_update (\<lambda>st. Accept (put_group (ts_group s) created st))) w2 of
           (Some e, w3) \<Rightarrow> (Inl e, w3)
         | (None, w3) \<Rightarrow> (Inr created, w3))"

definition Begin :: "environment \<Rightarrow> TransitionSpec \<Rightarrow> Controller \<Rightarrow> (controller_error + GroupState) \<times> Controller" where
  "Begin env spec w =
     (let s0 = default_grace (c_options w) (ts_group spec) spec in
      case spec_Validate s0 of
        Some e \<Rightarrow> (Inl e, w)
      | None \<Rightarrow>
          (case normalize_spec s0 of
             Inl e \<Rightarrow> (Inl e, w)
           | Inr s \<Rightarrow>
               (case groupState (ts_group s) w of
                  Some existing \<Rightarrow>
                    if equalSpec (gs_spec existing) s then (Inr existing, w)
                    else if \<not> canReplaceCompleted existing s then (Inl ErrTransitionInProgress, w)
                    else create_group env s w
                | None \<Rightarrow> create_group env s w)))"

definition BeginSnapshot ::
  "environment \<Rightarrow> MembershipSnapshot \<Rightarrow> string list \<Rightarrow> Controller \<Rightarrow> (controller_error + GroupState) \<times> Controller" where
  "BeginSnapshot env m required w =
     (case TransitionSpecFromSnapshot m required of Inl e \<Rightarrow> (Inl e, w) | Inr s \<Rightarrow> Begin env s w)"

section \<open>Drain telemetry\<close>

definition observe_out_of_scope :: "Telemetry \<Rightarrow> GroupState \<Rightarrow> bool" where
  "observe_out_of_scope t gs \<longleftrightarrow> gs_completed gs \<or> gs_rolling gs \<or> gs_phase gs \<noteq> PhaseDrain \<or> \<not> gs_drain_published gs \<or>
     tm_transition t \<noteq> ts_id (gs_spec gs) \<or> tm_epoch t \<noteq> ts_from (gs_spec gs) \<or> IsZero (tm_observed t) \<or>
     tm_observed t < gs_entered gs"

definition observe_rejected :: "Telemetry \<Rightarrow> GroupState \<Rightarrow> bool" where
  "observe_rejected t gs =
     (let (sources, aggregate) = telemetrySourcesForSample (gs_spec gs) t in
      sources = [] \<or> tm_namespace t \<noteq> ts_namespace (gs_spec gs) \<and> \<not> aggregate \<or>
      tm_role t \<noteq> RoleUnset \<and> tm_role t \<noteq> RoleBroker \<and> tm_role t \<noteq> RoleObserver \<or>
      tm_participant t = [] \<and> tm_role t \<noteq> RoleUnset \<or> tm_participant t \<noteq> [] \<and> tm_role t = RoleUnset \<or>
      hasTypedRequirements (gs_spec gs) \<and> \<not> aggregate \<and>
        (tm_message t = [] \<or> tm_participant t = [] \<or> tm_role t = RoleUnset) \<or>
      list_ex (\<lambda>so. case mget (gs_latest gs) (source_key so) of
                      None \<Rightarrow> False | Some previous \<Rightarrow> \<not> tm_observed previous < tm_observed t) sources)"

definition observe_source :: "duration \<Rightarrow> Telemetry \<Rightarrow> telemetrySource \<Rightarrow> GroupState \<Rightarrow> GroupState" where
  "observe_source fresh t so gs =
     (let key = source_key so;
          restart = (case mget (gs_latest gs) key of
                       None \<Rightarrow> True
                     | Some previous \<Rightarrow> \<not> isKnownZero previous \<or> fresh < time_sub (tm_observed t) (tm_observed previous))
      in gs\<lparr>gs_zero := (if \<not> isKnownZero t then mdel key (gs_zero gs)
                        else if restart then mput key (tm_observed t) (gs_zero gs) else gs_zero gs),
            gs_latest := mput key (t\<lparr>tm_broker := so_broker so, tm_queue := so_queue so\<rparr>) (gs_latest gs)\<rparr>)"

definition observe_update :: "duration \<Rightarrow> Telemetry \<Rightarrow> telemetrySource list \<Rightarrow> GroupState \<Rightarrow> GroupState" where
  "observe_update fresh t sources gs =
     (let gs1 = fold (observe_source fresh t) sources gs;
          gs2 = (if tm_message t \<noteq> [] then gs1\<lparr>gs_messages := mput (tm_message t) t (gs_messages gs1)\<rparr> else gs1)
      in gs2\<lparr>gs_latest_telemetry := Some t, gs_zero_since := commonZeroSince (gs_zero gs2)\<rparr>)"

definition Observe :: "environment \<Rightarrow> Telemetry \<Rightarrow> Controller \<Rightarrow> controller_error option \<times> Controller" where
  "Observe env t w =
     (case groupState (tm_group t) w of
        None \<Rightarrow> (Some ErrTransitionNotFound, w)
      | Some gs \<Rightarrow>
          (case (if tm_message t \<noteq> [] then mget (gs_messages gs) (tm_message t) else None) of
             Some existing \<Rightarrow> (if existing = t then None else Some ErrStaleMessage, w)
           | None \<Rightarrow>
               if observe_out_of_scope t gs then (Some ErrStaleMessage, w)
               else let (now, w1) = read_clock env w in
                    if now < tm_observed t \<or> observe_rejected t gs then (Some ErrStaleMessage, w1)
                    else updateGroup env (tm_group t)
                      (observe_update (telemetryFreshness (c_options w) (tm_group t)) t
                         (fst (telemetrySourcesForSample (gs_spec gs) t))) w1))"

section \<open>Rollback requests\<close>

definition rollback_unproven :: "RollbackProof \<Rightarrow> GroupState \<Rightarrow> bool" where
  "rollback_unproven p gs \<longleftrightarrow> rp_transition p \<noteq> ts_id (gs_spec gs) \<or> \<not> rp_intact p \<or> \<not> rp_inactive p \<or>
     (gs_fence_attempted gs \<or> gs_fenced gs) \<and> \<not> rp_reversible p"

definition commit_reached :: "GroupState \<Rightarrow> bool" where
  "commit_reached gs \<longleftrightarrow>
     gs_phase gs = PhaseCommit \<or> gs_phase gs = PhaseActivate \<or> gs_commit_published gs \<or> gs_activate_published gs"

definition RequestRollback :: "environment \<Rightarrow> string \<Rightarrow> RollbackProof \<Rightarrow> Controller \<Rightarrow> controller_error option \<times> Controller" where
  "RequestRollback env g p w =
     (case groupState g w of
        None \<Rightarrow> (Some ErrTransitionNotFound, w)
      | Some gs \<Rightarrow>
          if commit_reached gs then (Some ErrCommitReached, w)
          else if rollback_unproven p gs then (Some ErrRollbackUnproven, w)
          else if gs_rolling gs then (None, w)
          else updateGroup env g (\<lambda>s. s\<lparr>gs_rolling := True\<rparr>) w)"

section \<open>Calls to the brokers and the publisher\<close>

definition fenceRequest :: "GroupState \<Rightarrow> string \<Rightarrow> FenceRequest" where
  "fenceRequest gs action =
     \<lparr>fr_operation = operationID (gs_spec gs) action False, fr_group = ts_group (gs_spec gs),
      fr_transition = ts_id (gs_spec gs), fr_epoch = ts_from (gs_spec gs), fr_brokers = ts_current (gs_spec gs)\<rparr>"

definition targetIngressRequest :: "GroupState \<Rightarrow> string \<Rightarrow> FenceRequest" where
  "targetIngressRequest gs action =
     \<lparr>fr_operation = operationID (gs_spec gs) action False, fr_group = ts_group (gs_spec gs),
      fr_transition = ts_id (gs_spec gs), fr_epoch = ts_to (gs_spec gs), fr_brokers = ts_proposed (gs_spec gs)\<rparr>"

definition call_fence :: "environment \<Rightarrow> TransitionSpec \<Rightarrow> FenceRequest \<Rightarrow> Controller \<Rightarrow> bool \<times> Controller" where
  "call_fence env s q w = (let r = env_fence env (c_log w) q in (r, w\<lparr>c_log := EvFence s q r # c_log w\<rparr>))"

definition call_unfence :: "environment \<Rightarrow> TransitionSpec \<Rightarrow> FenceRequest \<Rightarrow> Controller \<Rightarrow> bool \<times> Controller" where
  "call_unfence env s q w = (let r = env_unfence env (c_log w) q in (r, w\<lparr>c_log := EvUnfence s q r # c_log w\<rparr>))"

definition call_verify_fence :: "environment \<Rightarrow> FenceRequest \<Rightarrow> Controller \<Rightarrow> FenceStatus option \<times> Controller" where
  "call_verify_fence env q w =
     (let r = env_verify_fence env (c_log w) q in (r, w\<lparr>c_log := EvVerifyFence q r # c_log w\<rparr>))"

definition call_enable_ingress :: "environment \<Rightarrow> FenceRequest \<Rightarrow> Controller \<Rightarrow> bool \<times> Controller" where
  "call_enable_ingress env q w =
     (let r = env_enable_ingress env (c_log w) q in (r, w\<lparr>c_log := EvEnableIngress q r # c_log w\<rparr>))"

definition call_verify_ingress :: "environment \<Rightarrow> FenceRequest \<Rightarrow> Controller \<Rightarrow> IngressStatus option \<times> Controller" where
  "call_verify_ingress env q w =
     (let r = env_verify_ingress env (c_log w) q in (r, w\<lparr>c_log := EvVerifyIngress q r # c_log w\<rparr>))"

definition controlUpdate :: "GroupState \<Rightarrow> Phase \<Rightarrow> bool \<Rightarrow> ControlUpdate" where
  "controlUpdate gs ph rollback =
     (let s = gs_spec gs in
      \<lparr>cu_operation = operationID s (phase_string ph) rollback, cu_group = ts_group s, cu_transition = ts_id s,
       cu_from = ts_from s, cu_to = (if rollback then ts_from s else ts_to s), cu_phase = ph, cu_current = ts_current s,
       cu_proposed = (if rollback then ts_current s else ts_proposed s), cu_rollback = rollback,
       cu_snapshot = controlSnapshot s ph rollback, cu_issued = mget_or (gs_issued gs) ph []\<rparr>)"

definition publish :: "environment \<Rightarrow> GroupState \<Rightarrow> Phase \<Rightarrow> bool \<Rightarrow> Controller \<Rightarrow> controller_error option \<times> Controller" where
  "publish env gs ph rollback w =
     (let u = controlUpdate gs ph rollback in
      case SaveMembership env (cu_snapshot u) (interleave env w) of
        (Some e, w1) \<Rightarrow> (Some e, w1)
      | (None, w1) \<Rightarrow>
          let w2 = interleave env w1; ok = env_publish env (c_log w2) u in
          (if ok then None else Some (ErrPublish ph), w2\<lparr>c_log := EvPublish (gs_spec gs) u ok # c_log w2\<rparr>))"

definition ensureCommandIntent ::
  "environment \<Rightarrow> string \<Rightarrow> GroupState \<Rightarrow> Phase \<Rightarrow> Controller \<Rightarrow> (controller_error + GroupState \<times> bool) \<times> Controller" where
  "ensureCommandIntent env g gs ph w =
     (if commandsIssued gs ph then (Inr (gs, False), w)
      else case updateGroup env g (recordIssuedCommands ph) w of
             (Some e, w1) \<Rightarrow> (Inl e, w1)
           | (None, w1) \<Rightarrow>
               (case groupState g w1 of None \<Rightarrow> (Inl ErrTransitionNotFound, w1) | Some gs1 \<Rightarrow> (Inr (gs1, True), w1)))"

section \<open>Reconciliation\<close>

type_synonym reconcile_result = "(bool \<times> controller_error option) \<times> Controller"

definition changed :: "controller_error option \<times> Controller \<Rightarrow> reconcile_result" where
  "changed r = ((True, fst r), snd r)"

definition failed :: "controller_error \<Rightarrow> Controller \<Rightarrow> reconcile_result" where
  "failed e w = ((False, Some e), w)"

definition unchanged :: "Controller \<Rightarrow> reconcile_result" where
  "unchanged w = ((False, None), w)"

text \<open>The command intent is durable before its publication, and the publication before its mark.\<close>

definition publish_phase ::
  "environment \<Rightarrow> string \<Rightarrow> GroupState \<Rightarrow> Phase \<Rightarrow> (GroupState \<Rightarrow> GroupState) \<Rightarrow> Controller \<Rightarrow> reconcile_result" where
  "publish_phase env g gs ph mark w =
     (case ensureCommandIntent env g gs ph w of
        (Inl e, w1) \<Rightarrow> failed e w1
      | (Inr (gs1, intent), w1) \<Rightarrow>
          (case publish env gs1 ph False w1 of
             (Some e, w2) \<Rightarrow> ((intent, Some e), w2)
           | (None, w2) \<Rightarrow> changed (updateGroup env g mark w2)))"

definition advance_phase :: "environment \<Rightarrow> string \<Rightarrow> Phase \<Rightarrow> Controller \<Rightarrow> reconcile_result" where
  "advance_phase env g ph w =
     changed (updateGroupAt env g (\<lambda>now. enterPhase ph now (phaseTimeout (c_options w) g)) w)"

definition fence_fresh :: "Options \<Rightarrow> gotime \<Rightarrow> FenceStatus \<Rightarrow> bool" where
  "fence_fresh o1 now st \<longleftrightarrow>
     fs_fenced st \<and> \<not> IsZero (fs_observed st) \<and> \<not> now < fs_observed st \<and> \<not> op_fence o1 < time_sub now (fs_observed st)"

definition ingress_fresh :: "Options \<Rightarrow> gotime \<Rightarrow> IngressStatus \<Rightarrow> bool" where
  "ingress_fresh o1 now st \<longleftrightarrow>
     is_enabled st \<and> \<not> IsZero (is_observed st) \<and> \<not> now < is_observed st \<and> \<not> op_fence o1 < time_sub now (is_observed st)"

text \<open>A verification made by this attempt: the call, then the clock, then the test of its answer.\<close>

definition verify_fence ::
  "environment \<Rightarrow> FenceRequest \<Rightarrow> Controller \<Rightarrow> (controller_error + FenceStatus) \<times> Controller" where
  "verify_fence env q w =
     (case call_verify_fence env q w of
        (None, w1) \<Rightarrow> (Inl (ErrFenceCall ''verify source fence''), w1)
      | (Some st, w1) \<Rightarrow>
          let (now, w2) = read_clock env w1 in
          (if fence_fresh (c_options w) now st then Inr st else Inl ErrReadinessStale, w2))"

definition verify_ingress ::
  "environment \<Rightarrow> FenceRequest \<Rightarrow> Controller \<Rightarrow> (controller_error + IngressStatus) \<times> Controller" where
  "verify_ingress env q w =
     (case call_verify_ingress env q w of
        (None, w1) \<Rightarrow> (Inl (ErrFenceCall ''verify target ingress''), w1)
      | (Some st, w1) \<Rightarrow>
          let (now, w2) = read_clock env w1 in
          (if ingress_fresh (c_options w) now st then Inr st else Inl ErrReadinessStale, w2))"

definition drainComplete :: "environment \<Rightarrow> GroupState \<Rightarrow> Controller \<Rightarrow> bool \<times> Controller" where
  "drainComplete env gs w =
     (let sources = requiredTelemetrySources (gs_spec gs) in
      if sources = [] \<and> \<not> legacy_zero gs then (False, w)
      else let (now, w1) = read_clock env w in (drain_proved (c_options w) now gs, w1))"

definition reconcilePrepare :: "environment \<Rightarrow> string \<Rightarrow> GroupState \<Rightarrow> Controller \<Rightarrow> reconcile_result" where
  "reconcilePrepare env g gs w =
     (if \<not> gs_prepare_published gs then publish_phase env g gs PhasePrepare (\<lambda>s. s\<lparr>gs_prepare_published := True\<rparr>) w
      else if allAcknowledged gs PhasePrepare then advance_phase env g PhasePause w
      else unchanged w)"

definition pause_fence :: "environment \<Rightarrow> string \<Rightarrow> GroupState \<Rightarrow> Controller \<Rightarrow> reconcile_result" where
  "pause_fence env g gs w =
     (if \<not> gs_fenced gs then
        (case call_fence env (gs_spec gs) (fenceRequest gs ''fence'') w of
           (False, w1) \<Rightarrow> failed (ErrFenceCall ''fence source brokers'') w1
         | (True, w1) \<Rightarrow> changed (updateGroup env g (\<lambda>s. s\<lparr>gs_fenced := True\<rparr>) w1))
      else advance_phase env g PhaseDrain w)"

definition reconcilePause :: "environment \<Rightarrow> string \<Rightarrow> GroupState \<Rightarrow> Controller \<Rightarrow> reconcile_result" where
  "reconcilePause env g gs w =
     (if \<not> gs_pause_published gs then publish_phase env g gs PhasePause (\<lambda>s. s\<lparr>gs_pause_published := True\<rparr>) w
      else if \<not> allAcknowledged gs PhasePause then unchanged w
      else if \<not> gs_fence_attempted gs then
        (case updateGroup env g (\<lambda>s. s\<lparr>gs_fence_attempted := True\<rparr>) w of
           (Some e, w1) \<Rightarrow> failed e w1
         | (None, w1) \<Rightarrow>
             (case groupState g w1 of None \<Rightarrow> failed ErrTransitionNotFound w1 | Some gs1 \<Rightarrow> pause_fence env g gs1 w1))
      else pause_fence env g gs w)"

definition commit_entry :: "Options \<Rightarrow> string \<Rightarrow> FenceStatus \<Rightarrow> gotime \<Rightarrow> GroupState \<Rightarrow> GroupState" where
  "commit_entry o1 g st now s =
     enterPhase PhaseCommit now (phaseTimeout o1 g) (s\<lparr>gs_fence_verified_at := Some (fs_observed st)\<rparr>)"

definition drain_commit :: "environment \<Rightarrow> string \<Rightarrow> GroupState \<Rightarrow> Controller \<Rightarrow> reconcile_result" where
  "drain_commit env g gs w =
     (if \<not> allAcknowledged gs PhaseDrain then failed ErrReadinessStale w
      else
        let (now, w1) = read_clock env w in
        if \<not> readinessFresh (c_options w) now gs then failed ErrReadinessStale w1
        else (case verify_fence env (fenceRequest gs ''verify-fence'') w1 of
                (Inl e, w2) \<Rightarrow> failed e w2
              | (Inr st, w2) \<Rightarrow> changed (updateGroupAt env g (commit_entry (c_options w) g st) w2)))"

definition reconcileDrain :: "environment \<Rightarrow> string \<Rightarrow> GroupState \<Rightarrow> Controller \<Rightarrow> reconcile_result" where
  "reconcileDrain env g gs w =
     (if \<not> gs_drain_published gs then publish_phase env g gs PhaseDrain (\<lambda>s. s\<lparr>gs_drain_published := True\<rparr>) w
      else (case drainComplete env gs w of
              (True, w1) \<Rightarrow> drain_commit env g gs w1
            | (False, w1) \<Rightarrow> unchanged w1))"

definition mark_committed :: "FenceStatus \<Rightarrow> GroupState \<Rightarrow> GroupState" where
  "mark_committed st s = s\<lparr>gs_fence_attempted := True, gs_fenced := True,
     gs_fence_verified_at := Some (fs_observed st), gs_commit_published := True\<rparr>"

definition reconcileCommit :: "environment \<Rightarrow> string \<Rightarrow> GroupState \<Rightarrow> Controller \<Rightarrow> reconcile_result" where
  "reconcileCommit env g gs w =
     (if \<not> gs_commit_published gs then
        (case verify_fence env (fenceRequest gs ''commit-verify-fence'') w of
           (Inl e, w1) \<Rightarrow> failed e w1
         | (Inr st, w1) \<Rightarrow>
             (case publish env gs PhaseCommit False w1 of
                (Some e, w2) \<Rightarrow> failed e w2
              | (None, w2) \<Rightarrow> changed (updateGroup env g (mark_committed st) w2)))
      else advance_phase env g PhaseActivate w)"

definition mark_verified :: "IngressStatus \<Rightarrow> GroupState \<Rightarrow> GroupState" where
  "mark_verified st s = s\<lparr>gs_ingress_verified := True, gs_ingress_verified_at := Some (is_observed st)\<rparr>"

definition mark_active :: "IngressStatus \<Rightarrow> GroupState \<Rightarrow> GroupState" where
  "mark_active st s = s\<lparr>gs_ingress_verified_at := Some (is_observed st), gs_activate_published := True\<rparr>"

definition reconcileActivate :: "environment \<Rightarrow> string \<Rightarrow> GroupState \<Rightarrow> Controller \<Rightarrow> reconcile_result" where
  "reconcileActivate env g gs w =
     (if \<not> gs_ingress_enabled gs then
        (case call_enable_ingress env (targetIngressRequest gs ''enable-target-ingress'') w of
           (False, w1) \<Rightarrow> failed (ErrFenceCall ''enable target ingress'') w1
         | (True, w1) \<Rightarrow> changed (updateGroup env g (\<lambda>s. s\<lparr>gs_ingress_enabled := True\<rparr>) w1))
      else if \<not> gs_ingress_verified gs then
        (case verify_ingress env (targetIngressRequest gs ''verify-target-ingress'') w of
           (Inl e, w1) \<Rightarrow> failed e w1
         | (Inr st, w1) \<Rightarrow> changed (updateGroup env g (mark_verified st) w1))
      else if \<not> gs_activate_published gs then
        (case verify_ingress env (targetIngressRequest gs ''activate-verify-target-ingress'') w of
           (Inl e, w1) \<Rightarrow> failed e w1
         | (Inr st, w1) \<Rightarrow> publish_phase env g gs PhaseActivate (mark_active st) w1)
      else if allAcknowledged gs PhaseActivate then changed (updateGroupAt env g completeState w)
      else unchanged w)"

definition reconcileRollback :: "environment \<Rightarrow> string \<Rightarrow> GroupState \<Rightarrow> Controller \<Rightarrow> reconcile_result" where
  "reconcileRollback env g gs w =
     (if (gs_fence_attempted gs \<or> gs_fenced gs) \<and> \<not> gs_unfenced gs then
        (case call_unfence env (gs_spec gs) (fenceRequest gs ''unfence'') w of
           (False, w1) \<Rightarrow> failed (ErrFenceCall ''unfence source brokers'') w1
         | (True, w1) \<Rightarrow> changed (updateGroup env g (\<lambda>s. s\<lparr>gs_unfenced := True\<rparr>) w1))
      else if \<not> gs_rollback_published gs then
        (case publish env gs PhaseActivate True w of
           (Some e, w1) \<Rightarrow> failed e w1
         | (None, w1) \<Rightarrow> changed (updateGroup env g (\<lambda>s. s\<lparr>gs_rollback_published := True\<rparr>) w1))
      else changed (updateGroupAt env g completeState w))"

definition reconcile_phase :: "environment \<Rightarrow> string \<Rightarrow> GroupState \<Rightarrow> Controller \<Rightarrow> reconcile_result" where
  "reconcile_phase env g gs w =
     (case gs_phase gs of
        PhasePrepare \<Rightarrow> reconcilePrepare env g gs w
      | PhasePause \<Rightarrow> reconcilePause env g gs w
      | PhaseDrain \<Rightarrow> reconcileDrain env g gs w
      | PhaseCommit \<Rightarrow> reconcileCommit env g gs w
      | PhaseActivate \<Rightarrow> reconcileActivate env g gs w
      | PhaseOther p \<Rightarrow> failed (ErrUnsupportedPhase (PhaseOther p)) w)"

text \<open>The clock is read only when there is a deadline; it ends only the phases before COMMIT.\<close>

definition Reconcile :: "environment \<Rightarrow> string \<Rightarrow> Controller \<Rightarrow> reconcile_result" where
  "Reconcile env g w =
     (case groupState g w of
        None \<Rightarrow> failed ErrTransitionNotFound w
      | Some gs \<Rightarrow>
          if gs_completed gs then unchanged w
          else if gs_rolling gs then reconcileRollback env g gs w
          else if IsZero (gs_deadline gs) then reconcile_phase env g gs w
          else let (now, w1) = read_clock env w in
               if gs_deadline gs < now \<and> gs_phase gs \<noteq> PhaseCommit \<and> gs_phase gs \<noteq> PhaseActivate
               then failed (ErrPhaseDeadline (gs_phase gs)) w1
               else reconcile_phase env g gs w1)"

fun reconcile_groups ::
  "environment \<Rightarrow> string list \<Rightarrow> (string, controller_error) gomap \<Rightarrow> Controller \<Rightarrow>
   (string, controller_error) gomap \<times> Controller" where
  "reconcile_groups env [] errs w = (errs, w)"
| "reconcile_groups env (g # gs) errs w =
     (case Reconcile env g w of
        ((c, Some e), w1) \<Rightarrow> reconcile_groups env gs (mput g e errs) w1
      | ((c, None), w1) \<Rightarrow> reconcile_groups env gs errs w1)"

definition ReconcileAll :: "environment \<Rightarrow> Controller \<Rightarrow> (string, controller_error) gomap \<times> Controller" where
  "ReconcileAll env w = reconcile_groups env (sort (map fst (ps_groups (c_state w)))) [] w"

definition SnapshotForGroup :: "string \<Rightarrow> Controller \<Rightarrow> MembershipSnapshot option" where
  "SnapshotForGroup g w = mget (ps_membership (c_state w)) g"

section \<open>Opening the controller on a stored state\<close>

definition check_membership :: "(string, MembershipSnapshot) gomap \<Rightarrow> controller_error option" where
  "check_membership m =
     first_err (map (\<lambda>(g, snap). first_err
       [map_option ErrSnapshotInvalid (Validate snap),
        err_if (g \<noteq> ms_group snap) (ErrLoad ''membership key'')]) m)"

definition set_last_exit :: "gotime \<Rightarrow> PhaseEvent list \<Rightarrow> PhaseEvent list" where
  "set_last_exit now es = butlast es @ [(last es)\<lparr>pe_exited := Some now\<rparr>]"

definition repair_times :: "Options \<Rightarrow> string \<Rightarrow> gotime \<Rightarrow> GroupState \<Rightarrow> GroupState" where
  "repair_times o1 g now gs =
     (let s1 = gs\<lparr>gs_fence_attempted := gs_fence_attempted gs \<or> gs_fenced gs\<rparr>;
          s2 = (if IsZero (gs_started s1) then s1\<lparr>gs_started := now\<rparr> else s1);
          s3 = (if IsZero (gs_entered s2) then s2\<lparr>gs_entered := gs_started s2\<rparr> else s2);
          s4 = (if IsZero (gs_deadline s3) \<and> \<not> gs_completed s3
                then s3\<lparr>gs_deadline := gs_entered s3 + phaseTimeout o1 g\<rparr> else s3);
          s5 = (if gs_history s4 = []
                then s4\<lparr>gs_history := [\<lparr>pe_phase = gs_phase s4, pe_entered = gs_entered s4, pe_exited = None\<rparr>]\<rparr> else s4)
      in if gs_completed s5 \<and> gs_completed_at s5 = None
         then s5\<lparr>gs_completed_at := Some now, gs_deadline := time_zero, gs_history := set_last_exit now (gs_history s5)\<rparr>
         else s5)"

definition load_group :: "Options \<Rightarrow> gotime \<Rightarrow> string \<Rightarrow> GroupState \<Rightarrow> controller_error + GroupState" where
  "load_group o1 now g gs =
     (case spec_Validate (gs_spec gs) of
        Some e \<Rightarrow> Inl e
      | None \<Rightarrow>
          (case normalizedRoleRequirements (gs_spec gs) of
             Inl e \<Rightarrow> Inl e
           | Inr roles \<Rightarrow>
               let s1 = (gs_spec gs)\<lparr>ts_roles := roles\<rparr> in
               (case normalizedRequirements s1 of
                  Inl e \<Rightarrow> Inl e
                | Inr participants \<Rightarrow>
                    let gs1 = initializeMessageState (gs\<lparr>gs_spec := s1\<lparr>ts_participants := participants\<rparr>\<rparr>);
                        gs2 = gs1\<lparr>gs_spec := default_grace o1 g (gs_spec gs1)\<rparr>;
                        gs3 = repair_times o1 g now gs2
                    in (case validateGroupState g gs3 of Some e \<Rightarrow> Inl e | None \<Rightarrow> Inr gs3))))"

fun load_groups ::
  "Options \<Rightarrow> gotime \<Rightarrow> (string, GroupState) gomap \<Rightarrow> controller_error + (string, GroupState) gomap" where
  "load_groups o1 now [] = Inr []"
| "load_groups o1 now ((g, gs) # rest) =
     (case load_group o1 now g gs of
        Inl e \<Rightarrow> Inl e
      | Inr gs' \<Rightarrow> (case load_groups o1 now rest of Inl e \<Rightarrow> Inl e | Inr rest' \<Rightarrow> Inr ((g, gs') # rest')))"

text \<open>The store is loaded; what it holds stays on disk as it is.\<close>

definition Open :: "environment \<Rightarrow> Options \<Rightarrow> PersistentState \<Rightarrow> events \<Rightarrow> controller_error + Controller" where
  "Open env options disk l =
     (let o1 = withDefaults options; state = json_state (env_zone env) disk in
      if ps_version state \<noteq> stateVersion then Inl (ErrLoad ''version'')
      else case check_membership (ps_membership state) of
             Some e \<Rightarrow> Inl e
           | None \<Rightarrow>
               let (now, l1) = clock env l in
               (case load_groups o1 now (ps_groups state) of
                  Inl e \<Rightarrow> Inl e
                | Inr groups \<Rightarrow>
                    Inr \<lparr>c_options = o1, c_state = state\<lparr>ps_groups := groups\<rparr>, c_disk = disk, c_log = l1\<rparr>))"

end
