(* ===== verification/Controller_Protocol.thy ===== *)
theory Controller_Protocol
  imports Controller
begin

text \<open>
  The transition protocol as a step relation, and the proof that every controller operation refines it.
  \<open>group_step\<close> lists the durable updates of one group with the conditions that make them safe;
  \<open>durable_step\<close> lifts them to the persistent document; \<open>controller_step\<close> adds the calls to the outside,
  saves that fail with or without replacing the document, and the conditions under which a snapshot may
  be published. An operation, with whatever the environment answers and whatever other goroutines do at
  its commit points, is a sequence of such steps (the lemmas whose names end in \<open>steps\<close>).
\<close>

section \<open>The protocol\<close>

definition active :: "GroupState \<Rightarrow> bool" where
  "active gs \<longleftrightarrow> \<not> gs_completed gs \<and> \<not> gs_rolling gs"

definition intent :: "GroupState \<Rightarrow> Phase \<Rightarrow> bool" where
  "intent gs ph \<longleftrightarrow> maps_equal (mget_or (gs_issued gs) ph []) (expected_for (gs_spec gs) ph)"

text \<open>The history holds a successful publication of the snapshot of a phase.\<close>

definition was_published :: "events \<Rightarrow> TransitionSpec \<Rightarrow> Phase \<Rightarrow> bool \<Rightarrow> bool" where
  "was_published l s ph rollback \<longleftrightarrow>
     (\<exists>u. EvPublish s u True \<in> set l \<and> cu_phase u = ph \<and> cu_rollback u = rollback \<and>
          cu_snapshot u = controlSnapshot s ph rollback)"

inductive group_step :: "Options \<Rightarrow> events \<Rightarrow> GroupState \<Rightarrow> GroupState \<Rightarrow> bool" for o1 :: Options and l :: events where
  issue: "active gs \<Longrightarrow> gs_phase gs = ph \<Longrightarrow> ph \<in> {PhasePrepare, PhasePause, PhaseDrain, PhaseActivate} \<Longrightarrow>
    group_step o1 l gs (recordIssuedCommands ph gs)"
| acknowledge: "ack_scope a gs \<Longrightarrow> requirementFor (gs_spec gs) (ak_phase a) (ak_participant a) = Some r \<Longrightarrow>
    ack_identity a gs r \<Longrightarrow> group_step o1 l gs (record_ack a gs)"
| prepare_published: "active gs \<Longrightarrow> gs_phase gs = PhasePrepare \<Longrightarrow> intent gs PhasePrepare \<Longrightarrow>
    was_published l (gs_spec gs) PhasePrepare False \<Longrightarrow> group_step o1 l gs (gs\<lparr>gs_prepare_published := True\<rparr>)"
| enter_pause: "active gs \<Longrightarrow> gs_phase gs = PhasePrepare \<Longrightarrow> gs_prepare_published gs \<Longrightarrow>
    allAcknowledged gs PhasePrepare \<Longrightarrow> group_step o1 l gs (enterPhase PhasePause now timeout gs)"
| pause_published: "active gs \<Longrightarrow> gs_phase gs = PhasePause \<Longrightarrow> intent gs PhasePause \<Longrightarrow>
    was_published l (gs_spec gs) PhasePause False \<Longrightarrow> group_step o1 l gs (gs\<lparr>gs_pause_published := True\<rparr>)"
| fence_attempted: "active gs \<Longrightarrow> gs_phase gs = PhasePause \<Longrightarrow> gs_pause_published gs \<Longrightarrow>
    allAcknowledged gs PhasePause \<Longrightarrow> group_step o1 l gs (gs\<lparr>gs_fence_attempted := True\<rparr>)"
| fenced: "active gs \<Longrightarrow> gs_phase gs = PhasePause \<Longrightarrow> gs_pause_published gs \<Longrightarrow> allAcknowledged gs PhasePause \<Longrightarrow>
    gs_fence_attempted gs \<Longrightarrow> EvFence (gs_spec gs) (fenceRequest gs ''fence'') True \<in> set l \<Longrightarrow>
    group_step o1 l gs (gs\<lparr>gs_fenced := True\<rparr>)"
| enter_drain: "active gs \<Longrightarrow> gs_phase gs = PhasePause \<Longrightarrow> gs_pause_published gs \<Longrightarrow> allAcknowledged gs PhasePause \<Longrightarrow>
    gs_fence_attempted gs \<Longrightarrow> gs_fenced gs \<Longrightarrow> group_step o1 l gs (enterPhase PhaseDrain now timeout gs)"
| drain_published: "active gs \<Longrightarrow> gs_phase gs = PhaseDrain \<Longrightarrow> intent gs PhaseDrain \<Longrightarrow>
    was_published l (gs_spec gs) PhaseDrain False \<Longrightarrow> group_step o1 l gs (gs\<lparr>gs_drain_published := True\<rparr>)"
| observe: "(tm_message t \<noteq> [] \<Longrightarrow> mget (gs_messages gs) (tm_message t) = None) \<Longrightarrow> \<not> observe_out_of_scope t gs \<Longrightarrow>
    \<not> observe_rejected t gs \<Longrightarrow>
    group_step o1 l gs (observe_update fresh t (fst (telemetrySourcesForSample (gs_spec gs) t)) gs)"
| enter_commit: "active gs \<Longrightarrow> gs_phase gs = PhaseDrain \<Longrightarrow> gs_drain_published gs \<Longrightarrow> allAcknowledged gs PhaseDrain \<Longrightarrow>
    EvNow now \<in> set l \<Longrightarrow> drain_proved o1 now gs \<Longrightarrow>
    EvVerifyFence (fenceRequest gs ''verify-fence'') (Some st) \<in> set l \<Longrightarrow> EvNow now' \<in> set l \<Longrightarrow>
    fence_fresh o1 now' st \<Longrightarrow> group_step o1 l gs (commit_entry o1 g st now'' gs)"
| commit_published: "active gs \<Longrightarrow> gs_phase gs = PhaseCommit \<Longrightarrow> was_published l (gs_spec gs) PhaseCommit False \<Longrightarrow>
    group_step o1 l gs (mark_committed st gs)"
| enter_activate: "active gs \<Longrightarrow> gs_phase gs = PhaseCommit \<Longrightarrow> gs_commit_published gs \<Longrightarrow>
    group_step o1 l gs (enterPhase PhaseActivate now timeout gs)"
| ingress_enabled: "active gs \<Longrightarrow> gs_phase gs = PhaseActivate \<Longrightarrow>
    EvEnableIngress (targetIngressRequest gs ''enable-target-ingress'') True \<in> set l \<Longrightarrow>
    group_step o1 l gs (gs\<lparr>gs_ingress_enabled := True\<rparr>)"
| ingress_verified: "active gs \<Longrightarrow> gs_phase gs = PhaseActivate \<Longrightarrow> gs_ingress_enabled gs \<Longrightarrow>
    group_step o1 l gs (mark_verified ist gs)"
| activate_published: "active gs \<Longrightarrow> gs_phase gs = PhaseActivate \<Longrightarrow> gs_ingress_enabled gs \<Longrightarrow>
    gs_ingress_verified gs \<Longrightarrow> intent gs PhaseActivate \<Longrightarrow> was_published l (gs_spec gs) PhaseActivate False \<Longrightarrow>
    group_step o1 l gs (mark_active ist gs)"
| complete: "active gs \<Longrightarrow> gs_phase gs = PhaseActivate \<Longrightarrow> gs_activate_published gs \<Longrightarrow>
    allAcknowledged gs PhaseActivate \<Longrightarrow> group_step o1 l gs (completeState now gs)"
| request_rollback: "\<not> gs_rolling gs \<Longrightarrow> \<not> commit_reached gs \<Longrightarrow> group_step o1 l gs (gs\<lparr>gs_rolling := True\<rparr>)"
| unfence: "gs_rolling gs \<Longrightarrow> \<not> gs_completed gs \<Longrightarrow> EvUnfence (gs_spec gs) (fenceRequest gs ''unfence'') True \<in> set l \<Longrightarrow>
    group_step o1 l gs (gs\<lparr>gs_unfenced := True\<rparr>)"
| rollback_published: "gs_rolling gs \<Longrightarrow> \<not> gs_completed gs \<Longrightarrow>
    (gs_fence_attempted gs \<or> gs_fenced gs \<Longrightarrow> gs_unfenced gs) \<Longrightarrow> was_published l (gs_spec gs) PhaseActivate True \<Longrightarrow>
    group_step o1 l gs (gs\<lparr>gs_rollback_published := True\<rparr>)"
| complete_rollback: "gs_rolling gs \<Longrightarrow> \<not> gs_completed gs \<Longrightarrow> gs_rollback_published gs \<Longrightarrow>
    group_step o1 l gs (completeState now gs)"

text \<open>The maps of a specification have one entry per phase, as every Go map has.\<close>

definition wf_spec :: "TransitionSpec \<Rightarrow> bool" where
  "wf_spec s \<longleftrightarrow> wf_map (ts_participants s) \<and> wf_map (ts_roles s)"

definition accepted_spec :: "Options \<Rightarrow> TransitionSpec \<Rightarrow> bool" where
  "accepted_spec o1 s \<longleftrightarrow>
     (\<exists>spec. wf_spec spec \<and> spec_Validate (default_grace o1 (ts_group spec) spec) = None \<and>
             normalize_spec (default_grace o1 (ts_group spec) spec) = Inr s)"

inductive durable_step :: "Options \<Rightarrow> events \<Rightarrow> PersistentState \<Rightarrow> PersistentState \<Rightarrow> bool"
  for o1 :: Options and l :: events where
  group_update: "mget (ps_groups st) g = Some gs \<Longrightarrow> group_step o1 l gs gs' \<Longrightarrow>
    durable_step o1 l st (finish_group o1 g gs gs' st)"
| new_transition: "accepted_spec o1 s \<Longrightarrow>
    (case mget (ps_groups st) (ts_group s) of None \<Rightarrow> True | Some gs \<Rightarrow> canReplaceCompleted gs s) \<Longrightarrow>
    durable_step o1 l st (put_group (ts_group s) (new_group o1 s now) st)"
| new_membership: "Validate m = None \<Longrightarrow> membership_update m st = Accept st' \<Longrightarrow> durable_step o1 l st st'"

section \<open>Publications and calls\<close>

text \<open>What may happen between the verification made by an attempt and its publication.\<close>

fun quiet :: "event \<Rightarrow> bool" where
  "quiet (EvNow now) = True"
| "quiet (EvSave r) = True"
| "quiet EvInterleave = True"
| "quiet e = False"

definition fence_evidence :: "Options \<Rightarrow> GroupState \<Rightarrow> events \<Rightarrow> bool" where
  "fence_evidence o1 gs l \<longleftrightarrow>
     (\<exists>es now st rest. l = es @ EvNow now # EvVerifyFence (fenceRequest gs ''commit-verify-fence'') (Some st) # rest \<and>
        list_all quiet es \<and> fence_fresh o1 now st)"

definition ingress_evidence :: "Options \<Rightarrow> GroupState \<Rightarrow> events \<Rightarrow> bool" where
  "ingress_evidence o1 gs l \<longleftrightarrow>
     (\<exists>es now st rest. l = es @ EvNow now #
        EvVerifyIngress (targetIngressRequest gs ''activate-verify-target-ingress'') (Some st) # rest \<and>
        list_all quiet es \<and> ingress_fresh o1 now st)"

definition may_publish :: "Options \<Rightarrow> events \<Rightarrow> GroupState \<Rightarrow> Phase \<Rightarrow> bool \<Rightarrow> bool" where
  "may_publish o1 l gs ph rollback \<longleftrightarrow> \<not> gs_completed gs \<and>
     (if rollback then gs_rolling gs \<and> (gs_fence_attempted gs \<or> gs_fenced gs \<longrightarrow> gs_unfenced gs) \<and> ph = PhaseActivate
      else \<not> gs_rolling gs \<and> gs_phase gs = ph \<and>
        (case ph of
           PhasePrepare \<Rightarrow> intent gs ph
         | PhasePause \<Rightarrow> intent gs ph
         | PhaseDrain \<Rightarrow> intent gs ph
         | PhaseCommit \<Rightarrow> fence_evidence o1 gs l
         | PhaseActivate \<Rightarrow> intent gs ph \<and> gs_ingress_enabled gs \<and> gs_ingress_verified gs \<and> ingress_evidence o1 gs l
         | PhaseOther p \<Rightarrow> False))"

definition snapshot_saved :: "MembershipSnapshot \<Rightarrow> PersistentState \<Rightarrow> bool" where
  "snapshot_saved m st \<longleftrightarrow>
     (\<exists>cur. mget (ps_membership st) (ms_group m) = Some cur \<and> (membershipSnapshotsEqual cur m \<or> ms_revision m < ms_revision cur))"

text \<open>The calls that need no condition: all but fencing and publishing.\<close>

fun harmless :: "event \<Rightarrow> bool" where
  "harmless (EvPublish s u ok) = False"
| "harmless (EvFence s q ok) = False"
| "harmless e = True"

inductive controller_step :: "Controller \<Rightarrow> Controller \<Rightarrow> bool" where
  call: "harmless e \<Longrightarrow> controller_step w (w\<lparr>c_log := e # c_log w\<rparr>)"
| fence_call: "mget (ps_groups (c_state w)) g = Some gs \<Longrightarrow> active gs \<Longrightarrow> gs_phase gs = PhasePause \<Longrightarrow>
    gs_pause_published gs \<Longrightarrow> allAcknowledged gs PhasePause \<Longrightarrow> gs_fence_attempted gs \<Longrightarrow>
    controller_step w (w\<lparr>c_log := EvFence (gs_spec gs) (fenceRequest gs ''fence'') ok # c_log w\<rparr>)"
| saved: "durable_step (c_options w) (c_log w) (c_state w) nxt \<Longrightarrow>
    controller_step w (w\<lparr>c_state := nxt, c_disk := nxt\<lparr>ps_version := stateVersion\<rparr>, c_log := EvSave SaveOk # c_log w\<rparr>)"
| not_saved: "durable_step (c_options w) (c_log w) (c_state w) nxt \<Longrightarrow>
    controller_step w (w\<lparr>c_disk := (if replaced then nxt\<lparr>ps_version := stateVersion\<rparr> else c_disk w),
                         c_log := EvSave (SaveFailed replaced) # c_log w\<rparr>)"
| published: "mget (ps_groups (c_state w)) g = Some gs \<Longrightarrow>
    may_publish (c_options w) (c_log w) gs ph rollback \<Longrightarrow>
    snapshot_saved (controlSnapshot (gs_spec gs) ph rollback) (c_state w) \<Longrightarrow>
    controller_step w (w\<lparr>c_log := EvPublish (gs_spec gs) (controlUpdate gs ph rollback) ok # c_log w\<rparr>)"

abbreviation controller_steps :: "Controller \<Rightarrow> Controller \<Rightarrow> bool" where
  "controller_steps \<equiv> controller_step\<^sup>*\<^sup>*"

section \<open>Acknowledgements recorded by others\<close>

definition acked :: "GroupState \<Rightarrow> Phase \<Rightarrow> string \<Rightarrow> bool" where
  "acked gs ph p \<longleftrightarrow> mget (mget_or (gs_acks gs) ph []) p \<noteq> None"

text \<open>The only difference another goroutine can make to a group whose lock is held.\<close>

definition ack_extends :: "GroupState \<Rightarrow> GroupState \<Rightarrow> bool" where
  "ack_extends gs gs' \<longleftrightarrow> gs' = gs\<lparr>gs_acks := gs_acks gs'\<rparr> \<and> (\<forall>ph p. acked gs ph p \<longrightarrow> acked gs' ph p)"

lemma ack_extends_refl [simp]: "ack_extends gs gs"
  by (simp add: ack_extends_def)

lemma ack_extends_trans: "ack_extends a b \<Longrightarrow> ack_extends b c \<Longrightarrow> ack_extends a c"
  unfolding ack_extends_def by (metis GroupState.surjective GroupState.update_convs(3))

lemma ack_extends_acked: "ack_extends gs gs' \<Longrightarrow> allAcknowledged gs ph \<Longrightarrow> allAcknowledged gs' ph"
  by (cases gs') (auto simp: ack_extends_def allAcknowledged_def list_all_iff acked_def)

lemma ack_extends_record: "ack_extends gs (record_ack a gs)"
  by (auto simp: ack_extends_def record_ack_def acked_def)

text \<open>Every other field, and what is computed from the others, is the same.\<close>

lemma ack_extends_sel:
  assumes "ack_extends gs gs'"
  shows "gs_spec gs' = gs_spec gs" "gs_phase gs' = gs_phase gs" "gs_issued gs' = gs_issued gs"
    "gs_latest gs' = gs_latest gs" "gs_zero gs' = gs_zero gs" "gs_messages gs' = gs_messages gs"
    "gs_prepare_published gs' = gs_prepare_published gs" "gs_fence_attempted gs' = gs_fence_attempted gs"
    "gs_fenced gs' = gs_fenced gs" "gs_pause_published gs' = gs_pause_published gs"
    "gs_drain_published gs' = gs_drain_published gs" "gs_commit_published gs' = gs_commit_published gs"
    "gs_ingress_enabled gs' = gs_ingress_enabled gs" "gs_ingress_verified gs' = gs_ingress_verified gs"
    "gs_activate_published gs' = gs_activate_published gs" "gs_latest_telemetry gs' = gs_latest_telemetry gs"
    "gs_zero_since gs' = gs_zero_since gs" "gs_rolling gs' = gs_rolling gs"
    "gs_rollback_published gs' = gs_rollback_published gs" "gs_unfenced gs' = gs_unfenced gs"
    "gs_completed gs' = gs_completed gs" "gs_entered gs' = gs_entered gs"
  using assms by (cases gs; cases gs'; simp add: ack_extends_def)+

lemma ack_extends_derived:
  assumes "ack_extends gs gs'"
  shows "active gs' = active gs" "intent gs' ph = intent gs ph" "commandsIssued gs' ph = commandsIssued gs ph"
    "fenceRequest gs' act = fenceRequest gs act" "targetIngressRequest gs' act = targetIngressRequest gs act"
    "controlUpdate gs' ph rollback = controlUpdate gs ph rollback" "commit_reached gs' = commit_reached gs"
    "observe_out_of_scope t gs' = observe_out_of_scope t gs" "observe_rejected t gs' = observe_rejected t gs"
    "may_publish o1 l gs' ph rollback = may_publish o1 l gs ph rollback"
  by (simp_all add: ack_extends_sel [OF assms] active_def intent_def commandsIssued_def fenceRequest_def
      targetIngressRequest_def controlUpdate_def commit_reached_def observe_out_of_scope_def observe_rejected_def
      may_publish_def fence_evidence_def ingress_evidence_def split: Phase.split)

lemma drain_loop_cong:
  assumes "ack_extends gs gs'"
  shows "drain_loop o1 now gs' sos z e = drain_loop o1 now gs sos z e"
  by (induction sos arbitrary: z e) (simp_all add: ack_extends_sel [OF assms] split: option.split)

lemma ack_extends_drain: "ack_extends gs gs' \<Longrightarrow> drain_proved o1 now gs' = drain_proved o1 now gs"
  by (simp add: drain_proved_def drain_loop_cong ack_extends_sel legacy_zero_def legacy_drained_def split: option.split)

lemma ack_extends_replace: "ack_extends gs gs' \<Longrightarrow> canReplaceCompleted gs' s = canReplaceCompleted gs s"
  by (simp add: canReplaceCompleted_def ack_extends_sel)

section \<open>What the other goroutines keep\<close>

definition keeps :: "string \<Rightarrow> PersistentState \<Rightarrow> PersistentState \<Rightarrow> bool" where
  "keeps g st st' \<longleftrightarrow>
     rel_option ack_extends (mget (ps_groups st) g) (mget (ps_groups st') g) \<and>
     (\<forall>m. snapshot_saved m st \<longrightarrow> snapshot_saved m st')"

definition quiet_extension :: "events \<Rightarrow> events \<Rightarrow> bool" where
  "quiet_extension l l' \<longleftrightarrow> (\<exists>es. l' = es @ l \<and> list_all quiet es)"

definition frame :: "string \<Rightarrow> Controller \<Rightarrow> Controller \<Rightarrow> bool" where
  "frame g w w' \<longleftrightarrow> controller_steps w w' \<and> c_options w' = c_options w \<and> quiet_extension (c_log w) (c_log w') \<and>
     keeps g (c_state w) (c_state w')"

lemma quiet_extension_refl [simp]: "quiet_extension l l"
  by (simp add: quiet_extension_def)

lemma quiet_extension_Cons [simp]: "quiet_extension l l' \<Longrightarrow> quiet e \<Longrightarrow> quiet_extension l (e # l')"
  by (auto simp: quiet_extension_def intro: exI [of _ "e # es" for es])

lemma quiet_extension_trans: "quiet_extension a b \<Longrightarrow> quiet_extension b c \<Longrightarrow> quiet_extension a c"
  by (auto simp: quiet_extension_def)

lemma quiet_extension_set: "quiet_extension l l' \<Longrightarrow> e \<in> set l \<Longrightarrow> e \<in> set l'"
  by (auto simp: quiet_extension_def)

lemma quiet_extension_evidence:
  assumes "quiet_extension l l'"
  shows "fence_evidence o1 gs l \<Longrightarrow> fence_evidence o1 gs l'" "ingress_evidence o1 gs l \<Longrightarrow> ingress_evidence o1 gs l'"
proof -
  obtain es where es: "l' = es @ l" "list_all quiet es" using assms by (auto simp: quiet_extension_def)
  have shift: "l' = (es @ ds) @ x # y # rest \<and> list_all quiet (es @ ds)"
    if "l = ds @ x # y # rest" "list_all quiet ds" for ds x y rest
    using that es by simp
  show "fence_evidence o1 gs l'" if "fence_evidence o1 gs l"
    using that shift unfolding fence_evidence_def by blast
  show "ingress_evidence o1 gs l'" if "ingress_evidence o1 gs l"
    using that shift unfolding ingress_evidence_def by blast
qed

lemma may_publish_quiet: "quiet_extension l l' \<Longrightarrow> may_publish o1 l gs ph rb \<Longrightarrow> may_publish o1 l' gs ph rb"
  by (auto simp: may_publish_def quiet_extension_evidence split: Phase.splits if_splits)

lemma keeps_refl [simp]: "keeps g st st"
  by (simp add: keeps_def option.rel_refl)

lemma keeps_trans: "keeps g a b \<Longrightarrow> keeps g b c \<Longrightarrow> keeps g a c"
  unfolding keeps_def rel_option_iff by (auto split: option.splits intro: ack_extends_trans)

lemma frame_refl [simp]: "frame g w w"
  by (simp add: frame_def)

lemma frame_trans: "frame g a b \<Longrightarrow> frame g b c \<Longrightarrow> frame g a c"
  unfolding frame_def by (auto intro: quiet_extension_trans keeps_trans)

lemma frame_call: "quiet e \<Longrightarrow> frame g w (w\<lparr>c_log := e # c_log w\<rparr>)"
proof -
  assume "quiet e"
  then have "harmless e" by (cases e) simp_all
  with \<open>quiet e\<close> show ?thesis by (auto simp: frame_def intro!: r_into_rtranclp controller_step.call)
qed

lemma finish_group_same:
  "gs_phase gs' = gs_phase gs \<Longrightarrow> gs_completed gs' = gs_completed gs \<Longrightarrow> finish_group o1 g gs gs' st = put_group g gs' st"
  by (simp add: finish_group_def)

lemma frame_updateState:
  assumes "\<And>nxt. d (c_state w) = Accept nxt \<Longrightarrow>
      durable_step (c_options w) (c_log w) (c_state w) nxt \<and> keeps g (c_state w) nxt"
  shows "frame g w (snd (updateState env (pure_update d) w))"
proof (cases "d (c_state w)")
  case (Accept nxt)
  note step = assms [OF Accept]
  show ?thesis
  proof (cases "env_save env (c_log w)")
    case SaveOk
    then have "snd (updateState env (pure_update d) w) =
        w\<lparr>c_state := nxt, c_disk := nxt\<lparr>ps_version := stateVersion\<rparr>, c_log := EvSave SaveOk # c_log w\<rparr>"
      by (simp add: updateState_def pure_update_def Accept)
    with step show ?thesis
      by (auto simp: frame_def intro!: r_into_rtranclp controller_step.saved quiet_extension_Cons)
  next
    case (SaveFailed replaced)
    then have "snd (updateState env (pure_update d) w) =
        w\<lparr>c_disk := (if replaced then nxt\<lparr>ps_version := stateVersion\<rparr> else c_disk w),
          c_log := EvSave (SaveFailed replaced) # c_log w\<rparr>"
      by (simp add: updateState_def pure_update_def Accept)
    moreover have "controller_step w \<dots>" by (rule controller_step.not_saved) (use step in simp)
    ultimately show ?thesis
      by (simp add: frame_def quiet_extension_Cons r_into_rtranclp)
  qed
qed (simp_all add: updateState_def pure_update_def)

lemma keeps_put_ack:
  assumes "mget (ps_groups st) k = Some gs"
  shows "keeps g st (put_group k (record_ack a gs) st)"
  using assms by (auto simp: keeps_def put_group_def snapshot_saved_def ack_extends_record option.rel_refl)

lemma ack_update_step:
  assumes "ack_update a st = Accept nxt"
  shows "durable_step o1 l st nxt \<and> keeps g st nxt"
proof -
  obtain gs r where gs: "mget (ps_groups st) (ak_group a) = Some gs" "ack_scope a gs"
      "requirementFor (gs_spec gs) (ak_phase a) (ak_participant a) = Some r" "ack_identity a gs r"
    and nxt: "nxt = put_group (ak_group a) (record_ack a gs) st"
    using assms by (auto simp: ack_update_def split: option.splits if_splits)
  have "finish_group o1 (ak_group a) gs (record_ack a gs) st = nxt"
    by (simp add: nxt finish_group_same record_ack_def)
  with durable_step.group_update [OF gs(1) group_step.acknowledge [OF gs(2-4)], of o1 l] keeps_put_ack [OF gs(1)]
  show ?thesis by (simp add: nxt)
qed

lemma membershipSnapshotsEqual_refl [simp]: "membershipSnapshotsEqual m m"
  by (simp add: membershipSnapshotsEqual_def)

lemma membershipSnapshotsEqual_revision:
  assumes "membershipSnapshotsEqual l r"
  shows "ms_revision l = ms_revision r"
proof -
  have "ms_revision (json_snapshot m) = ms_revision m" for m by (simp add: json_snapshot_def)
  then show ?thesis using assms unfolding membershipSnapshotsEqual_def by metis
qed

lemma membership_update_keeps:
  assumes "membership_update m st = Accept nxt"
  shows "keeps g st nxt"
proof -
  have nxt: "nxt = st\<lparr>ps_membership := mput (ms_group m) m (ps_membership st)\<rparr>"
    and newer: "\<And>cur. mget (ps_membership st) (ms_group m) = Some cur \<Longrightarrow> ms_revision cur < ms_revision m"
    using assms by (auto simp: membership_update_def split: option.splits if_splits)
  have "snapshot_saved m' nxt" if "snapshot_saved m' st" for m'
    using that newer by (fastforce simp: snapshot_saved_def nxt dest: membershipSnapshotsEqual_revision)
  then show ?thesis by (simp add: keeps_def nxt option.rel_refl)
qed

lemma frame_read_clock: "frame g w (snd (read_clock env w))"
  by (simp add: read_clock_def frame_call)

lemma frame_Acknowledge: "frame g w (snd (Acknowledge env a w))"
proof (cases "IsZero (ak_observed a)")
  case True
  obtain now w1 where w1: "read_clock env w = (now, w1)" by fastforce
  have "frame g w1 (snd (updateState env (pure_update (ack_update (a\<lparr>ak_observed := now\<rparr>))) w1))"
    by (intro frame_updateState ack_update_step)
  with frame_trans [OF frame_read_clock [of g w env]] True show ?thesis by (simp add: Acknowledge_def w1)
next
  case False
  then show ?thesis by (simp add: Acknowledge_def frame_updateState ack_update_step)
qed

lemma frame_SaveMembership: "frame g w (snd (SaveMembership env m w))"
proof (cases "Validate m")
  case None
  then have "frame g w (snd (updateState env (pure_update (membership_update m)) w))"
    by (intro frame_updateState conjI durable_step.new_membership membership_update_keeps)
  with None show ?thesis by (simp add: SaveMembership_def)
qed (simp add: SaveMembership_def)

lemma frame_foreign: "frame g w (foreign_step env c w)"
  by (cases c) (simp_all add: frame_Acknowledge frame_SaveMembership)

lemma frame_fold: "frame g w (fold (foreign_step env) cs w)"
  by (induction cs arbitrary: w) (auto intro: frame_trans [OF frame_foreign])

lemma frame_interleave: "frame g w (interleave env w)"
  unfolding interleave_def by (rule frame_trans [OF frame_call frame_fold]) simp

section \<open>Updates under the group lock\<close>

lemma call_steps:
  assumes "list_all quiet es"
  shows "controller_steps w (w\<lparr>c_log := es @ c_log w\<rparr>)"
  using assms
proof (induction es)
  case (Cons e es)
  then have "controller_step (w\<lparr>c_log := es @ c_log w\<rparr>) (w\<lparr>c_log := (e # es) @ c_log w\<rparr>)"
    using controller_step.call [of e "w\<lparr>c_log := es @ c_log w\<rparr>"] by (cases e) auto
  with Cons show ?case by (auto intro: rtranclp.rtrancl_into_rtrancl)
qed simp

text \<open>The contract of \<open>updateGroup\<close>: a step of the protocol on the group as it is at the commit point.\<close>

lemma updateGroupWith_steps:
  assumes gs: "groupState g w = Some gs"
    and f: "\<And>l upd l1. quiet_extension (c_log w) l \<Longrightarrow> f l = (upd, l1) \<Longrightarrow> quiet_extension l l1"
    and step: "\<And>l upd l1 gm. quiet_extension (c_log w) l \<Longrightarrow> f l = (upd, l1) \<Longrightarrow> ack_extends gs gm \<Longrightarrow>
        group_step (c_options w) l1 gm (upd gm)"
    and upd: "updateGroupWith env g f w = (e, w')"
  shows "controller_steps w w'" "c_options w' = c_options w" "quiet_extension (c_log w) (c_log w')"
    "e = None \<Longrightarrow> \<exists>gm upd l l1 st. ack_extends gs gm \<and> f l = (upd, l1) \<and>
       c_state w' = finish_group (c_options w) g gm (upd gm) st"
proof -
  define w1 where "w1 = interleave env w"
  have fr: "frame g w w1" by (simp add: w1_def frame_interleave)
  then obtain gm where gm: "mget (ps_groups (c_state w1)) g = Some gm" "ack_extends gs gm"
    using gs by (auto simp: frame_def keeps_def groupState_def rel_option_iff split: option.splits)
  have w1: "controller_steps w w1" "c_options w1 = c_options w" "quiet_extension (c_log w) (c_log w1)"
    using fr by (auto simp: frame_def)
  obtain u l1 where u: "f (c_log w1) = (u, l1)" by fastforce
  define w2 where "w2 = w1\<lparr>c_log := l1\<rparr>"
  have q: "quiet_extension (c_log w1) l1" using f [OF w1(3) u] .
  then have w2: "controller_steps w1 w2" using call_steps by (auto simp: w2_def quiet_extension_def)
  let ?nxt = "finish_group (c_options w) g gm (u gm) (c_state w1)"
  have ds: "durable_step (c_options w2) (c_log w2) (c_state w2) ?nxt"
    using durable_step.group_update [OF gm(1) step [OF w1(3) u gm(2)]] by (simp add: w2_def w1)
  have res: "(e, w') = (case env_save env l1 of
      SaveOk \<Rightarrow> (None, w2\<lparr>c_state := ?nxt, c_disk := ?nxt\<lparr>ps_version := stateVersion\<rparr>, c_log := EvSave SaveOk # c_log w2\<rparr>)
    | SaveFailed r \<Rightarrow> (Some ErrPersist, w2\<lparr>c_disk := (if r then ?nxt\<lparr>ps_version := stateVersion\<rparr> else c_disk w2),
        c_log := EvSave (SaveFailed r) # c_log w2\<rparr>))"
    using upd u gm(1)
    by (auto simp: updateGroupWith_def updateState_def group_update_def w2_def w1 Let_def simp flip: w1_def
        split: save_result.splits)
  have "controller_step w2 w' \<and> c_options w' = c_options w2 \<and> c_log w' \<in> range (\<lambda>r. EvSave r # c_log w2)"
    using res controller_step.saved [OF ds] controller_step.not_saved [OF ds]
    by (auto split: save_result.splits)
  then show "controller_steps w w'" "c_options w' = c_options w" "quiet_extension (c_log w) (c_log w')"
    using w1 w2 quiet_extension_trans [OF w1(3) q] by (auto simp: w2_def intro: rtranclp_trans quiet_extension_Cons)
  show "\<exists>gm upd l l1 st. ack_extends gs gm \<and> f l = (upd, l1) \<and>
      c_state w' = finish_group (c_options w) g gm (upd gm) st" if "e = None"
  proof (intro exI conjI)
    show "ack_extends gs gm" "f (c_log w1) = (u, l1)" by (fact gm u)+
    show "c_state w' = ?nxt" using that res by (simp split: save_result.splits)
  qed
qed

lemma updateGroup_steps:
  assumes gs: "groupState g w = Some gs"
    and step: "\<And>l gm. quiet_extension (c_log w) l \<Longrightarrow> ack_extends gs gm \<Longrightarrow> group_step (c_options w) l gm (f gm)"
  shows "controller_steps w (snd (updateGroup env g f w))"
    and "updateGroup env g f w = (None, w') \<Longrightarrow> (\<And>s. gs_phase (f s) = gs_phase s \<and> gs_completed (f s) = gs_completed s) \<Longrightarrow>
      c_options w' = c_options w \<and> quiet_extension (c_log w) (c_log w') \<and>
      (\<exists>gm. ack_extends gs gm \<and> groupState g w' = Some (f gm))"
proof -
  have up: "updateGroupWith env g (\<lambda>l. (f, l)) w = (fst (updateGroup env g f w), snd (updateGroup env g f w))"
    by (simp add: updateGroup_def)
  show "controller_steps w (snd (updateGroup env g f w))"
    by (rule updateGroupWith_steps(1) [OF gs _ _ up]) (auto intro: step)
  have st: "c_options (snd (updateGroup env g f w)) = c_options w"
      "quiet_extension (c_log w) (c_log (snd (updateGroup env g f w)))"
    by (rule updateGroupWith_steps(2) [OF gs _ _ up] updateGroupWith_steps(3) [OF gs _ _ up]; auto intro: step)+
  assume ok: "updateGroup env g f w = (None, w')" and keep: "\<And>s. gs_phase (f s) = gs_phase s \<and> gs_completed (f s) = gs_completed s"
  from up ok have up': "updateGroupWith env g (\<lambda>l. (f, l)) w = (None, w')" by simp
  have "\<exists>gm upd l l1 st. ack_extends gs gm \<and> (f, l :: events) = (upd, l1) \<and> c_state w' = finish_group (c_options w) g gm (upd gm) st"
    by (rule updateGroupWith_steps(4) [OF gs _ _ up']) (auto intro: step)
  with ok st keep
  show "c_options w' = c_options w \<and> quiet_extension (c_log w) (c_log w') \<and>
      (\<exists>gm. ack_extends gs gm \<and> groupState g w' = Some (f gm))"
    by (fastforce simp: finish_group_same put_group_def groupState_def)
qed

lemma updateGroupAt_steps:
  assumes "groupState g w = Some gs"
    and "\<And>l now gm. quiet_extension (c_log w) l \<Longrightarrow> ack_extends gs gm \<Longrightarrow> group_step (c_options w) l gm (f now gm)"
  shows "controller_steps w (snd (updateGroupAt env g f w))"
proof -
  let ?f = "\<lambda>l. case clock env l of (now, l1) \<Rightarrow> (f now, l1)"
  have up: "updateGroupWith env g ?f w = (fst (updateGroupAt env g f w), snd (updateGroupAt env g f w))"
    by (simp add: updateGroupAt_def)
  show ?thesis
    by (rule updateGroupWith_steps(1) [OF assms(1) _ _ up])
      (auto simp: clock_def intro!: assms(2) quiet_extension_Cons intro: quiet_extension_trans)
qed

lemma SaveMembership_saved: "SaveMembership env m w = (None, w') \<Longrightarrow> snapshot_saved m (c_state w')"
  by (auto simp: SaveMembership_def updateState_def pure_update_def membership_update_def snapshot_saved_def Let_def
      split: option.splits if_splits save_result.splits)

text \<open>The contract of \<open>publish\<close>.\<close>

lemma publish_steps:
  assumes gm: "groupState g w = Some gm" "ack_extends gs gm"
    and may: "may_publish (c_options w) (c_log w) gs ph rollback"
    and pub: "publish env gs ph rollback w = (e, w')"
  shows "controller_steps w w' \<and> c_options w' = c_options w \<and> (\<exists>gm'. groupState g w' = Some gm' \<and> ack_extends gs gm') \<and>
    set (c_log w) \<subseteq> set (c_log w') \<and> (e = None \<longrightarrow> was_published (c_log w') (gs_spec gs) ph rollback)"
proof -
  define m where "m = controlSnapshot (gs_spec gs) ph rollback"
  obtain e1 w1 where sm: "SaveMembership env m (interleave env w) = (e1, w1)" by fastforce
  have fr1: "frame g w w1"
    using frame_trans [OF frame_interleave frame_SaveMembership, of g w env m env] sm by simp
  define w2 where "w2 = interleave env w1"
  have fr2: "frame g w1 w2" by (simp add: w2_def frame_interleave)
  have keep: "\<exists>gm'. groupState g v = Some gm' \<and> ack_extends gs gm'" if "frame g w v" for v
    using that gm ack_extends_trans
    by (fastforce simp: frame_def keeps_def groupState_def rel_option_iff split: option.splits)
  have logs: "set (c_log w) \<subseteq> set (c_log v)" if "frame g w v" for v
    using that by (auto simp: frame_def dest: quiet_extension_set)
  have cs: "cu_snapshot (controlUpdate gs ph rollback) = m" by (simp add: controlUpdate_def m_def Let_def)
  show ?thesis
  proof (cases e1)
    case (Some x)
    then have "e \<noteq> None \<and> w' = w1" using pub sm by (auto simp: publish_def Let_def cs)
    with fr1 keep [OF fr1] logs [OF fr1] show ?thesis by (auto simp: frame_def)
  next
    case None
    define ok where "ok = env_publish env (c_log w2) (controlUpdate gs ph rollback)"
    have w': "w' = w2\<lparr>c_log := EvPublish (gs_spec gs) (controlUpdate gs ph rollback) ok # c_log w2\<rparr>" "e = None \<longleftrightarrow> ok"
      using pub sm None by (auto simp: publish_def Let_def cs w2_def ok_def split: if_splits)
    have fr: "frame g w w2" using frame_trans [OF fr1 fr2] .
    then obtain gm2 where gm2: "groupState g w2 = Some gm2" "ack_extends gs gm2" using keep by blast
    have saved: "snapshot_saved m (c_state w2)"
      using SaveMembership_saved sm None fr2 by (fastforce simp: frame_def keeps_def)
    have "controller_step w2 w'"
    proof -
      have "may_publish (c_options w2) (c_log w2) gm2 ph rollback"
        using fr may may_publish_quiet by (auto simp: frame_def ack_extends_derived [OF gm2(2)])
      from controller_step.published [OF gm2(1) [unfolded groupState_def] this] saved show ?thesis
        by (simp add: w' ack_extends_derived [OF gm2(2)] ack_extends_sel [OF gm2(2)] m_def)
    qed
    then have "controller_steps w w'" using fr by (auto simp: frame_def intro: rtranclp.rtrancl_into_rtrancl)
    moreover have "c_options w' = c_options w" "groupState g w' = Some gm2" "set (c_log w) \<subseteq> set (c_log w')"
      using fr gm2 logs [OF fr] by (auto simp: w' frame_def groupState_def)
    moreover have "was_published (c_log w') (gs_spec gs) ph rollback" if "e = None"
      unfolding was_published_def
      by (rule exI [of _ "controlUpdate gs ph rollback"]) (use that w' in \<open>simp add: controlUpdate_def Let_def\<close>)
    ultimately show ?thesis using gm2(2) by blast
  qed
qed

end
