(* ===== verification/Controller_Refinement.thy ===== *)
theory Controller_Refinement
  imports Controller_Protocol
begin

text \<open>
  Every exported operation of the controller is a sequence of protocol steps, whatever the environment
  answers. The phase handlers of \<open>Reconcile\<close> are treated one by one over the contracts of
  \<open>updateGroup\<close>, \<open>ensureCommandIntent\<close> and \<open>publish\<close>.
\<close>

section \<open>Command intent\<close>

lemma wf_phase_commands: "wf_map (phase_commands s ph rs)"
proof -
  have "wf_map (fold (\<lambda>r m. mput (pr_participant r) (commandID s ph r) m) rs m)" if "wf_map m" for m
    using that by (induction rs arbitrary: m) auto
  then show ?thesis by (simp add: phase_commands_def)
qed

lemma expected_for_eq:
  "expected_for s ph = (case mget (ts_roles s) ph of None \<Rightarrow> [] | Some rs \<Rightarrow> phase_commands s ph rs)"
proof -
  have "mget (map (\<lambda>(ph, rs). (ph, phase_commands s ph rs)) m) ph = map_option (phase_commands s ph) (mget m ph)" for m
    by (induction m) auto
  then show ?thesis by (simp add: expected_for_def expectedCommandIDs_def mget_or_def split: option.split)
qed

lemma wf_expected_for [simp]: "wf_map (expected_for s ph)"
  by (simp add: expected_for_eq wf_phase_commands split: option.split)

text \<open>The group as it is after the intent of a phase has been made durable.\<close>

definition issue_extends :: "Phase \<Rightarrow> GroupState \<Rightarrow> GroupState \<Rightarrow> bool" where
  "issue_extends ph gs gs1 \<longleftrightarrow> intent gs1 ph \<and> (\<forall>p. allAcknowledged gs p \<longrightarrow> allAcknowledged gs1 p) \<and>
     gs1 = gs\<lparr>gs_acks := gs_acks gs1, gs_issued := gs_issued gs1\<rparr>"

lemma issue_extends_sel:
  assumes "issue_extends ph gs gs1"
  shows "intent gs1 ph" "gs_spec gs1 = gs_spec gs" "gs_phase gs1 = gs_phase gs" "gs_completed gs1 = gs_completed gs"
    "gs_rolling gs1 = gs_rolling gs" "gs_ingress_enabled gs1 = gs_ingress_enabled gs"
    "gs_ingress_verified gs1 = gs_ingress_verified gs"
  using assms by (cases gs; cases gs1; simp add: issue_extends_def)+

lemma ensureCommandIntent_steps:
  assumes gs: "groupState g w = Some gs" "active gs" "gs_phase gs = ph"
    and ph: "ph \<in> {PhasePrepare, PhasePause, PhaseDrain, PhaseActivate}"
    and res: "ensureCommandIntent env g gs ph w = (r, w1)"
  shows "controller_steps w w1"
    and "r = Inr (gs1, b) \<Longrightarrow> c_options w1 = c_options w \<and> quiet_extension (c_log w) (c_log w1) \<and>
      groupState g w1 = Some gs1 \<and> issue_extends ph gs gs1"
proof -
  have step: "group_step o1 l gm (recordIssuedCommands ph gm)" if "ack_extends gs gm" for o1 l gm
    using that gs ph by (intro group_step.issue) (simp_all add: ack_extends_derived ack_extends_sel)
  show "controller_steps w w1"
    using res updateGroup_steps(1) [OF gs(1) step, of env]
    by (auto simp: ensureCommandIntent_def split: if_splits prod.splits option.splits)
  have ext: "issue_extends ph gs (recordIssuedCommands ph gm)" if "ack_extends gs gm" for gm
    using that ack_extends_acked [OF that] ack_extends_sel(1) [OF that]
    by (cases gm) (auto simp: issue_extends_def recordIssuedCommands_def intent_def maps_equal_refl ack_extends_def
        allAcknowledged_def)
  have same: "gs_phase (recordIssuedCommands ph s) = gs_phase s \<and> gs_completed (recordIssuedCommands ph s) = gs_completed s"
    for s by (simp add: recordIssuedCommands_def)
  assume r: "r = Inr (gs1, b)"
  show "c_options w1 = c_options w \<and> quiet_extension (c_log w) (c_log w1) \<and> groupState g w1 = Some gs1 \<and>
      issue_extends ph gs gs1"
  proof (cases "commandsIssued gs ph")
    case True
    then have "intent gs ph" by (simp add: commandsIssued_def intent_def)
    with res r True gs show ?thesis by (simp add: ensureCommandIntent_def issue_extends_def)
  next
    case False
    then have up: "updateGroup env g (recordIssuedCommands ph) w = (None, w1)" "groupState g w1 = Some gs1"
      using res r by (auto simp: ensureCommandIntent_def split: prod.splits option.splits)
    with updateGroup_steps(2) [OF gs(1) step up(1) same] ext show ?thesis by auto
  qed
qed

lemma publish_phase_steps:
  assumes gs: "groupState g w = Some gs" "active gs" "gs_phase gs = ph"
    and ph: "ph \<in> {PhasePrepare, PhasePause, PhaseDrain, PhaseActivate}"
    and act: "ph = PhaseActivate \<Longrightarrow>
      gs_ingress_enabled gs \<and> gs_ingress_verified gs \<and> ingress_evidence (c_options w) gs (c_log w)"
    and mark: "\<And>l gs1 gm. issue_extends ph gs gs1 \<Longrightarrow> ack_extends gs1 gm \<Longrightarrow>
      was_published l (gs_spec gm) ph False \<Longrightarrow> group_step (c_options w) l gm (mark gm)"
  shows "controller_steps w (snd (publish_phase env g gs ph mark w))"
proof -
  obtain r w1 where r: "ensureCommandIntent env g gs ph w = (r, w1)" by fastforce
  note st1 = ensureCommandIntent_steps [OF gs ph r]
  show ?thesis
  proof (cases r)
    case (Inl e)
    with st1(1) show ?thesis by (simp add: publish_phase_def r failed_def)
  next
    case (Inr p)
    obtain gs1 b where p: "p = (gs1, b)" by fastforce
    from st1(2) [OF Inr [unfolded p]]
    have w1: "c_options w1 = c_options w" "quiet_extension (c_log w) (c_log w1)" "groupState g w1 = Some gs1"
      and ext: "issue_extends ph gs gs1" by auto
    have ev: "ingress_evidence (c_options w1) gs1 (c_log w1)" if "ph = PhaseActivate"
      using act [OF that] quiet_extension_evidence(2) [OF w1(2)] issue_extends_sel [OF ext]
      by (simp add: w1(1) ingress_evidence_def targetIngressRequest_def)
    have may: "may_publish (c_options w1) (c_log w1) gs1 ph False"
      using gs ph ev act issue_extends_sel [OF ext] by (auto simp: may_publish_def active_def)
    obtain e w2 where pub: "publish env gs1 ph False w1 = (e, w2)" by fastforce
    note st2 = publish_steps [OF w1(3) ack_extends_refl may pub]
    show ?thesis
    proof (cases e)
      case (Some x)
      with st1(1) st2 show ?thesis by (auto simp: publish_phase_def r Inr p pub)
    next
      case None
      obtain gm where gm: "groupState g w2 = Some gm" "ack_extends gs1 gm" using st2 by blast
      have "group_step (c_options w2) l gm' (mark gm')" if "quiet_extension (c_log w2) l" "ack_extends gm gm'" for l gm'
      proof -
        have "was_published l (gs_spec gm') ph False"
          using st2 None that gm quiet_extension_set by (auto simp: was_published_def ack_extends_sel)
        then show ?thesis
          using mark [OF ext ack_extends_trans [OF gm(2) that(2)]] st2 w1(1) by simp
      qed
      then have "controller_steps w2 (snd (updateGroup env g mark w2))" by (rule updateGroup_steps(1) [OF gm(1)])
      with st1(1) st2 have "controller_steps w (snd (updateGroup env g mark w2))" by (meson rtranclp_trans)
      with None show ?thesis by (simp add: publish_phase_def r Inr p pub changed_def)
    qed
  qed
qed

section \<open>The phases\<close>

lemmas kept = ack_extends_derived ack_extends_sel ack_extends_acked ack_extends_drain

lemma advance_phase_steps:
  assumes "groupState g w = Some gs"
    and "\<And>l now timeout gm. ack_extends gs gm \<Longrightarrow> group_step (c_options w) l gm (enterPhase ph now timeout gm)"
  shows "controller_steps w (snd (advance_phase env g ph w))"
  using updateGroupAt_steps [OF assms(1), of "\<lambda>now. enterPhase ph now (phaseTimeout (c_options w) g)" env] assms(2)
  by (simp add: advance_phase_def changed_def)

lemma reconcilePrepare_steps:
  assumes gs: "groupState g w = Some gs" "active gs" "gs_phase gs = PhasePrepare"
  shows "controller_steps w (snd (reconcilePrepare env g gs w))"
proof -
  have "controller_steps w (snd (publish_phase env g gs PhasePrepare (\<lambda>s. s\<lparr>gs_prepare_published := True\<rparr>) w))"
    by (rule publish_phase_steps [OF gs])
      (use gs in \<open>auto simp: kept issue_extends_sel active_def intro!: group_step.prepare_published\<close>)
  moreover have "controller_steps w (snd (advance_phase env g PhasePause w))"
    if "gs_prepare_published gs" "allAcknowledged gs PhasePrepare"
    by (rule advance_phase_steps [OF gs(1)]) (use that gs in \<open>auto simp: kept intro!: group_step.enter_pause\<close>)
  ultimately show ?thesis by (auto simp: reconcilePrepare_def unchanged_def)
qed

lemma pause_fence_steps:
  assumes gs: "groupState g w = Some gs" "active gs" "gs_phase gs = PhasePause" "gs_pause_published gs"
    "allAcknowledged gs PhasePause" "gs_fence_attempted gs"
  shows "controller_steps w (snd (pause_fence env g gs w))"
proof (cases "gs_fenced gs")
  case True
  have "controller_steps w (snd (advance_phase env g PhaseDrain w))"
    by (rule advance_phase_steps [OF gs(1)]) (use True gs in \<open>auto simp: kept intro!: group_step.enter_drain\<close>)
  with True show ?thesis by (simp add: pause_fence_def)
next
  case False
  let ?q = "fenceRequest gs ''fence''"
  obtain ok w1 where ok: "call_fence env (gs_spec gs) ?q w = (ok, w1)" by fastforce
  then have w1: "w1 = w\<lparr>c_log := EvFence (gs_spec gs) ?q ok # c_log w\<rparr>" by (auto simp: call_fence_def Let_def)
  have c: "controller_step w w1" unfolding w1 using gs by (intro controller_step.fence_call [of w g]) (simp_all add: groupState_def)
  have "controller_steps w1 (snd (updateGroup env g (\<lambda>s. s\<lparr>gs_fenced := True\<rparr>) w1))" if ok
  proof (rule updateGroup_steps(1))
    show "groupState g w1 = Some gs" using gs(1) by (simp add: w1 groupState_def)
    fix l gm assume "quiet_extension (c_log w1) l" "ack_extends gs gm"
    then show "group_step (c_options w1) l gm (gm\<lparr>gs_fenced := True\<rparr>)"
      using gs that quiet_extension_set [of "c_log w1" l "EvFence (gs_spec gs) ?q True"]
      by (intro group_step.fenced) (auto simp: kept w1)
  qed
  with c False show ?thesis
    by (auto simp: pause_fence_def ok failed_def changed_def split: bool.split intro: converse_rtranclp_into_rtranclp)
qed

lemma reconcilePause_steps:
  assumes gs: "groupState g w = Some gs" "active gs" "gs_phase gs = PhasePause"
  shows "controller_steps w (snd (reconcilePause env g gs w))"
proof (cases "gs_pause_published gs \<and> allAcknowledged gs PhasePause")
  case False
  have "controller_steps w (snd (publish_phase env g gs PhasePause (\<lambda>s. s\<lparr>gs_pause_published := True\<rparr>) w))"
    by (rule publish_phase_steps [OF gs])
      (use gs in \<open>auto simp: kept issue_extends_sel active_def intro!: group_step.pause_published\<close>)
  with False show ?thesis by (auto simp: reconcilePause_def unchanged_def)
next
  case True
  show ?thesis
  proof (cases "gs_fence_attempted gs")
    case fa: True
    with True pause_fence_steps [OF gs] show ?thesis by (simp add: reconcilePause_def)
  next
    case False
    obtain e w1 where up: "updateGroup env g (\<lambda>s. s\<lparr>gs_fence_attempted := True\<rparr>) w = (e, w1)" by fastforce
    have step: "group_step o1 l gm (gm\<lparr>gs_fence_attempted := True\<rparr>)" if "ack_extends gs gm" for o1 l gm
      using that True gs by (intro group_step.fence_attempted) (auto simp: kept)
    have w1: "controller_steps w w1" using updateGroup_steps(1) [OF gs(1) step, of env] up by simp
    have "controller_steps w1 (snd (pause_fence env g gs1 w1))" if e: "e = None" "groupState g w1 = Some gs1" for gs1
    proof -
      obtain gm where "ack_extends gs gm" "gs1 = gm\<lparr>gs_fence_attempted := True\<rparr>"
        using updateGroup_steps(2) [OF gs(1) step, where env = env and w' = w1] up e by auto
      moreover from this have "allAcknowledged gs1 PhasePause"
        using ack_extends_acked [of gs gm PhasePause] True by (simp add: allAcknowledged_def)
      ultimately show ?thesis
        using e True gs by (intro pause_fence_steps) (auto simp: kept active_def)
    qed
    with w1 True False show ?thesis
      by (auto simp: reconcilePause_def up failed_def split: option.splits)
  qed
qed

lemma verify_fence_steps:
  assumes "verify_fence env q w = (r, w1)"
  shows "controller_steps w w1" "c_options w1 = c_options w" "c_state w1 = c_state w" "set (c_log w) \<subseteq> set (c_log w1)"
    and "r = Inr st \<Longrightarrow> \<exists>now. c_log w1 = EvNow now # EvVerifyFence q (Some st) # c_log w \<and> fence_fresh (c_options w) now st"
proof -
  obtain a w2 where a: "call_verify_fence env q w = (a, w2)" by fastforce
  then have w2: "w2 = w\<lparr>c_log := EvVerifyFence q a # c_log w\<rparr>" by (auto simp: call_verify_fence_def Let_def)
  then have "controller_step w w2" using controller_step.call [of "EvVerifyFence q a" w] by simp
  moreover have "controller_step w2 (w2\<lparr>c_log := EvNow n # c_log w2\<rparr>)" for n by (rule controller_step.call) simp
  ultimately show "controller_steps w w1"
    using assms by (auto simp: verify_fence_def a read_clock_def split: option.splits intro: converse_rtranclp_into_rtranclp)
  show "c_options w1 = c_options w" "c_state w1 = c_state w" "set (c_log w) \<subseteq> set (c_log w1)"
    using assms by (auto simp: verify_fence_def a read_clock_def w2 split: option.splits)
  show "r = Inr st \<Longrightarrow> \<exists>now. c_log w1 = EvNow now # EvVerifyFence q (Some st) # c_log w \<and> fence_fresh (c_options w) now st"
    using assms by (auto simp: verify_fence_def a read_clock_def w2 split: option.splits if_splits)
qed

lemma verify_ingress_steps:
  assumes "verify_ingress env q w = (r, w1)"
  shows "controller_steps w w1" "c_options w1 = c_options w" "c_state w1 = c_state w"
    and "r = Inr st \<Longrightarrow> \<exists>now. c_log w1 = EvNow now # EvVerifyIngress q (Some st) # c_log w \<and> ingress_fresh (c_options w) now st"
proof -
  obtain a w2 where a: "call_verify_ingress env q w = (a, w2)" by fastforce
  then have w2: "w2 = w\<lparr>c_log := EvVerifyIngress q a # c_log w\<rparr>" by (auto simp: call_verify_ingress_def Let_def)
  then have "controller_step w w2" using controller_step.call [of "EvVerifyIngress q a" w] by simp
  moreover have "controller_step w2 (w2\<lparr>c_log := EvNow n # c_log w2\<rparr>)" for n by (rule controller_step.call) simp
  ultimately show "controller_steps w w1"
    using assms by (auto simp: verify_ingress_def a read_clock_def split: option.splits intro: converse_rtranclp_into_rtranclp)
  show "c_options w1 = c_options w" "c_state w1 = c_state w"
    using assms by (auto simp: verify_ingress_def a read_clock_def w2 split: option.splits)
  show "r = Inr st \<Longrightarrow> \<exists>now. c_log w1 = EvNow now # EvVerifyIngress q (Some st) # c_log w \<and> ingress_fresh (c_options w) now st"
    using assms by (auto simp: verify_ingress_def a read_clock_def w2 split: option.splits if_splits)
qed

lemma read_clock_step:
  assumes "read_clock env w = (now, w1)"
  shows "w1 = w\<lparr>c_log := EvNow now # c_log w\<rparr>" "controller_step w w1"
proof -
  show "w1 = w\<lparr>c_log := EvNow now # c_log w\<rparr>" using assms by (auto simp: read_clock_def)
  then show "controller_step w w1" using controller_step.call [of "EvNow now" w] by simp
qed

lemma drain_commit_steps:
  assumes gs: "groupState g w = Some gs" "active gs" "gs_phase gs = PhaseDrain" "gs_drain_published gs"
    and drained: "EvNow d \<in> set (c_log w)" "drain_proved (c_options w) d gs"
  shows "controller_steps w (snd (drain_commit env g gs w))"
proof -
  obtain now w1 where clk: "read_clock env w = (now, w1)" by fastforce
  note w1 = read_clock_step [OF clk]
  obtain r w2 where v: "verify_fence env (fenceRequest gs ''verify-fence'') w1 = (r, w2)" by fastforce
  note st = verify_fence_steps [OF v]
  have "controller_steps w2 (snd (updateGroupAt env g (commit_entry (c_options w) g s) w2))"
    if r: "r = Inr s" and ack: "allAcknowledged gs PhaseDrain" for s
  proof (rule updateGroupAt_steps)
    show "groupState g w2 = Some gs" using gs(1) st(3) by (simp add: groupState_def w1)
    fix l now' gm assume q: "quiet_extension (c_log w2) l" and gm: "ack_extends gs gm"
    obtain n where n: "c_log w2 = EvNow n # EvVerifyFence (fenceRequest gs ''verify-fence'') (Some s) # c_log w1"
        "fence_fresh (c_options w1) n s" using st(5) [OF r] by blast
    have logs: "set (c_log w2) \<subseteq> set l" using q by (auto dest: quiet_extension_set)
    have opts: "c_options w2 = c_options w" "c_options w1 = c_options w" using st(2) w1 by auto
    show "group_step (c_options w2) l gm (commit_entry (c_options w) g s now' gm)"
      unfolding opts
    proof (rule group_step.enter_commit [where now = d and now' = n])
      show "EvNow d \<in> set l" using logs n(1) drained(1) by (auto simp: w1(1))
      show "drain_proved (c_options w) d gm" using drained(2) gm by (simp add: kept)
      show "EvVerifyFence (fenceRequest gm ''verify-fence'') (Some s) \<in> set l" "EvNow n \<in> set l"
        using logs n(1) gm by (auto simp: kept)
    qed (use gs ack gm n(2) opts in \<open>auto simp: kept\<close>)
  qed
  with st(1) w1(2) show ?thesis
    by (auto simp: drain_commit_def clk v failed_def changed_def Let_def split: sum.splits
        intro: converse_rtranclp_into_rtranclp)
qed

lemma reconcileDrain_steps:
  assumes gs: "groupState g w = Some gs" "active gs" "gs_phase gs = PhaseDrain"
  shows "controller_steps w (snd (reconcileDrain env g gs w))"
proof (cases "gs_drain_published gs")
  case False
  have "controller_steps w (snd (publish_phase env g gs PhaseDrain (\<lambda>s. s\<lparr>gs_drain_published := True\<rparr>) w))"
    by (rule publish_phase_steps [OF gs])
      (use gs in \<open>auto simp: kept issue_extends_sel active_def intro!: group_step.drain_published\<close>)
  with False show ?thesis by (simp add: reconcileDrain_def)
next
  case True
  obtain now w1 where clk: "read_clock env w = (now, w1)" by fastforce
  note w1 = read_clock_step [OF clk]
  have "controller_steps w1 (snd (drain_commit env g gs w1))" if "drain_proved (c_options w) now gs"
    by (rule drain_commit_steps) (use gs True that in \<open>auto simp: w1(1) groupState_def\<close>)
  with w1(2) True show ?thesis
    by (auto simp: reconcileDrain_def drainComplete_def clk unchanged_def Let_def split: bool.splits
        intro: converse_rtranclp_into_rtranclp)
qed

text \<open>A publication followed by its durable mark.\<close>

lemma publish_then_mark_steps:
  assumes gs: "groupState g w = Some gs"
    and may: "may_publish (c_options w) (c_log w) gs ph rollback"
    and mark: "\<And>l gm. ack_extends gs gm \<Longrightarrow> was_published l (gs_spec gm) ph rollback \<Longrightarrow>
      group_step (c_options w) l gm (mark gm)"
    and pub: "publish env gs ph rollback w = (e, w1)"
  shows "controller_steps w w1" "e = None \<Longrightarrow> controller_steps w (snd (updateGroup env g mark w1))"
proof -
  note st = publish_steps [OF gs ack_extends_refl may pub]
  then show "controller_steps w w1" by blast
  assume e: "e = None"
  obtain gm where gm: "groupState g w1 = Some gm" "ack_extends gs gm" using st by blast
  have "group_step (c_options w1) l gm' (mark gm')" if "quiet_extension (c_log w1) l" "ack_extends gm gm'" for l gm'
  proof -
    have "was_published l (gs_spec gm') ph rollback"
      using st e that gm quiet_extension_set by (auto simp: was_published_def ack_extends_sel)
    then show ?thesis using mark [OF ack_extends_trans [OF gm(2) that(2)]] st by simp
  qed
  then have "controller_steps w1 (snd (updateGroup env g mark w1))" by (rule updateGroup_steps(1) [OF gm(1)])
  with st show "controller_steps w (snd (updateGroup env g mark w1))" by (meson rtranclp_trans)
qed

lemma reconcileCommit_steps:
  assumes gs: "groupState g w = Some gs" "active gs" "gs_phase gs = PhaseCommit"
  shows "controller_steps w (snd (reconcileCommit env g gs w))"
proof (cases "gs_commit_published gs")
  case True
  have "controller_steps w (snd (advance_phase env g PhaseActivate w))"
    by (rule advance_phase_steps [OF gs(1)]) (use True gs in \<open>auto simp: kept intro!: group_step.enter_activate\<close>)
  with True show ?thesis by (simp add: reconcileCommit_def)
next
  case False
  let ?q = "fenceRequest gs ''commit-verify-fence''"
  obtain r w1 where v: "verify_fence env ?q w = (r, w1)" by fastforce
  note st = verify_fence_steps [OF v]
  show ?thesis
  proof (cases r)
    case (Inl e)
    with False st(1) show ?thesis by (simp add: reconcileCommit_def v failed_def)
  next
    case (Inr s)
    obtain n where n: "c_log w1 = EvNow n # EvVerifyFence ?q (Some s) # c_log w" "fence_fresh (c_options w) n s"
      using st(5) [OF Inr] by blast
    have "fence_evidence (c_options w1) gs (c_log w1)"
      unfolding fence_evidence_def st(2) n(1) using n(2)
      by (intro exI [of _ "[]"] exI [of _ n] exI [of _ s] exI [of _ "c_log w"]) simp
    then have may: "may_publish (c_options w1) (c_log w1) gs PhaseCommit False"
      using gs by (simp add: may_publish_def active_def)
    have gs1: "groupState g w1 = Some gs" using gs(1) st(3) by (simp add: groupState_def)
    have mark: "group_step (c_options w1) l gm (mark_committed s gm)"
      if "ack_extends gs gm" "was_published l (gs_spec gm) PhaseCommit False" for l gm
      using that gs by (intro group_step.commit_published) (auto simp: kept)
    obtain e w2 where pub: "publish env gs PhaseCommit False w1 = (e, w2)" by fastforce
    note pm = publish_then_mark_steps [where mark = "mark_committed s", OF gs1 may mark pub]
    from pm(1) pm(2) rtranclp_trans [OF st(1)] False Inr show ?thesis
      by (cases e) (simp_all add: reconcileCommit_def v pub failed_def changed_def)
  qed
qed

lemma activate_enable_steps:
  assumes gs: "groupState g w = Some gs" "active gs" "gs_phase gs = PhaseActivate"
    and ok: "call_enable_ingress env (targetIngressRequest gs ''enable-target-ingress'') w = (ok, w1)"
  shows "controller_steps w w1" "ok \<Longrightarrow> controller_steps w (snd (updateGroup env g (\<lambda>s. s\<lparr>gs_ingress_enabled := True\<rparr>) w1))"
proof -
  let ?e = "EvEnableIngress (targetIngressRequest gs ''enable-target-ingress'') ok"
  have w1: "w1 = w\<lparr>c_log := ?e # c_log w\<rparr>" using ok by (auto simp: call_enable_ingress_def Let_def)
  then show st: "controller_steps w w1" using controller_step.call [of ?e w] by auto
  assume ok
  have "controller_steps w1 (snd (updateGroup env g (\<lambda>s. s\<lparr>gs_ingress_enabled := True\<rparr>) w1))"
  proof (rule updateGroup_steps(1))
    show "groupState g w1 = Some gs" using gs(1) by (simp add: w1 groupState_def)
    fix l gm assume "quiet_extension (c_log w1) l" "ack_extends gs gm"
    then show "group_step (c_options w1) l gm (gm\<lparr>gs_ingress_enabled := True\<rparr>)"
      using gs \<open>ok\<close> quiet_extension_set [of "c_log w1" l ?e]
      by (intro group_step.ingress_enabled) (auto simp: kept w1)
  qed
  with st show "controller_steps w (snd (updateGroup env g (\<lambda>s. s\<lparr>gs_ingress_enabled := True\<rparr>) w1))" by simp
qed

lemma reconcileActivate_steps:
  assumes gs: "groupState g w = Some gs" "active gs" "gs_phase gs = PhaseActivate"
  shows "controller_steps w (snd (reconcileActivate env g gs w))"
proof -
  consider (enable) "\<not> gs_ingress_enabled gs" | (verify) "gs_ingress_enabled gs" "\<not> gs_ingress_verified gs"
    | (publish) "gs_ingress_enabled gs" "gs_ingress_verified gs" "\<not> gs_activate_published gs"
    | (finish) "gs_ingress_enabled gs" "gs_ingress_verified gs" "gs_activate_published gs" by blast
  then show ?thesis
  proof cases
    case enable
    obtain ok w1 where ok: "call_enable_ingress env (targetIngressRequest gs ''enable-target-ingress'') w = (ok, w1)"
      by fastforce
    from activate_enable_steps [OF gs ok] enable show ?thesis
      by (cases ok) (simp_all add: reconcileActivate_def ok failed_def changed_def)
  next
    case verify
    obtain r w1 where v: "verify_ingress env (targetIngressRequest gs ''verify-target-ingress'') w = (r, w1)" by fastforce
    note st = verify_ingress_steps [OF v]
    have "controller_steps w1 (snd (updateGroup env g (mark_verified s) w1))" for s
      by (rule updateGroup_steps(1) [where gs = gs])
        (use gs st(3) verify in \<open>auto simp: groupState_def kept intro!: group_step.ingress_verified\<close>)
    with rtranclp_trans [OF st(1)] st(1) verify show ?thesis
      by (simp add: reconcileActivate_def v failed_def changed_def split: sum.split)
  next
    case publish
    let ?q = "targetIngressRequest gs ''activate-verify-target-ingress''"
    obtain r w1 where v: "verify_ingress env ?q w = (r, w1)" by fastforce
    note st = verify_ingress_steps [OF v]
    have "controller_steps w1 (snd (publish_phase env g gs PhaseActivate (mark_active s) w1))" if r: "r = Inr s" for s
    proof (rule publish_phase_steps)
      obtain n where n: "c_log w1 = EvNow n # EvVerifyIngress ?q (Some s) # c_log w" "ingress_fresh (c_options w) n s"
        using st(4) [OF r] by blast
      have "ingress_evidence (c_options w1) gs (c_log w1)"
        unfolding ingress_evidence_def st(2) n(1) using n(2)
        by (intro exI [of _ "[]"] exI [of _ n] exI [of _ s] exI [of _ "c_log w"]) simp
      with publish show "gs_ingress_enabled gs \<and> gs_ingress_verified gs \<and> ingress_evidence (c_options w1) gs (c_log w1)"
        by simp
      show "group_step (c_options w1) l gm (mark_active s gm)"
        if "issue_extends PhaseActivate gs gs1" "ack_extends gs1 gm" "was_published l (gs_spec gm) PhaseActivate False"
        for l gs1 gm
        using that gs publish by (intro group_step.activate_published) (auto simp: kept issue_extends_sel active_def)
    qed (use gs st(3) in \<open>auto simp: groupState_def\<close>)
    with st(1) publish show ?thesis
      by (auto simp: reconcileActivate_def v failed_def split: sum.split)
  next
    case finish
    have "controller_steps w (snd (updateGroupAt env g completeState w))" if "allAcknowledged gs PhaseActivate"
      by (rule updateGroupAt_steps [OF gs(1)]) (use that gs finish in \<open>auto simp: kept intro!: group_step.complete\<close>)
    with finish show ?thesis by (simp add: reconcileActivate_def changed_def unchanged_def)
  qed
qed

lemma reconcileRollback_steps:
  assumes gs: "groupState g w = Some gs" "gs_rolling gs" "\<not> gs_completed gs"
  shows "controller_steps w (snd (reconcileRollback env g gs w))"
proof -
  consider (unfence) "gs_fence_attempted gs \<or> gs_fenced gs" "\<not> gs_unfenced gs"
    | (publish) "gs_fence_attempted gs \<or> gs_fenced gs \<Longrightarrow> gs_unfenced gs" "\<not> gs_rollback_published gs"
    | (finish) "gs_fence_attempted gs \<or> gs_fenced gs \<Longrightarrow> gs_unfenced gs" "gs_rollback_published gs" by blast
  then show ?thesis
  proof cases
    case unfence
    let ?q = "fenceRequest gs ''unfence''"
    obtain ok w1 where ok: "call_unfence env (gs_spec gs) ?q w = (ok, w1)" by fastforce
    then have w1: "w1 = w\<lparr>c_log := EvUnfence (gs_spec gs) ?q ok # c_log w\<rparr>" by (auto simp: call_unfence_def Let_def)
    then have c: "controller_step w w1" using controller_step.call [of "EvUnfence (gs_spec gs) ?q ok" w] by simp
    have "controller_steps w1 (snd (updateGroup env g (\<lambda>s. s\<lparr>gs_unfenced := True\<rparr>) w1))" if ok
    proof (rule updateGroup_steps(1))
      show "groupState g w1 = Some gs" using gs(1) by (simp add: w1 groupState_def)
      fix l gm assume "quiet_extension (c_log w1) l" "ack_extends gs gm"
      then show "group_step (c_options w1) l gm (gm\<lparr>gs_unfenced := True\<rparr>)"
        using gs that quiet_extension_set [of "c_log w1" l "EvUnfence (gs_spec gs) ?q True"]
        by (intro group_step.unfence) (auto simp: kept w1)
    qed
    with c unfence show ?thesis
      by (auto simp: reconcileRollback_def ok failed_def changed_def split: bool.split intro: converse_rtranclp_into_rtranclp)
  next
    case publish
    have may: "may_publish (c_options w) (c_log w) gs PhaseActivate True"
      using gs publish(1) by (auto simp: may_publish_def)
    have mark: "group_step (c_options w) l gm (gm\<lparr>gs_rollback_published := True\<rparr>)"
      if "ack_extends gs gm" "was_published l (gs_spec gm) PhaseActivate True" for l gm
      using that gs publish by (intro group_step.rollback_published) (auto simp: kept)
    obtain e w1 where pub: "publish env gs PhaseActivate True w = (e, w1)" by fastforce
    note pm = publish_then_mark_steps [where mark = "\<lambda>s. s\<lparr>gs_rollback_published := True\<rparr>", OF gs(1) may mark pub]
    from pm publish show ?thesis
      by (cases e) (auto simp: reconcileRollback_def pub failed_def changed_def)
  next
    case finish
    have "controller_steps w (snd (updateGroupAt env g completeState w))"
      by (rule updateGroupAt_steps [OF gs(1)]) (use gs finish in \<open>auto simp: kept intro!: group_step.complete_rollback\<close>)
    with finish show ?thesis by (auto simp: reconcileRollback_def changed_def)
  qed
qed

section \<open>The exported operations\<close>

lemma reconcile_phase_steps:
  assumes "groupState g w = Some gs" "active gs"
  shows "controller_steps w (snd (reconcile_phase env g gs w))"
  using assms reconcilePrepare_steps reconcilePause_steps reconcileDrain_steps reconcileCommit_steps
    reconcileActivate_steps
  by (auto simp: reconcile_phase_def failed_def split: Phase.split)

lemma Reconcile_steps: "controller_steps w (snd (Reconcile env g w))"
proof (cases "groupState g w")
  case (Some gs)
  obtain now w1 where clk: "read_clock env w = (now, w1)" by fastforce
  note w1 = read_clock_step [OF clk]
  have "controller_steps w1 (snd (reconcile_phase env g gs w1))" if "active gs"
    using reconcile_phase_steps [of g w1 gs] Some that by (simp add: w1(1) groupState_def)
  moreover have "controller_steps w w1" using w1(2) by simp
  ultimately show ?thesis
    using Some reconcileRollback_steps [OF Some] reconcile_phase_steps [OF Some]
    by (auto simp: Reconcile_def unchanged_def failed_def clk active_def)
qed (simp add: Reconcile_def failed_def)

lemma ReconcileAll_steps: "controller_steps w (snd (ReconcileAll env w))"
proof -
  have "controller_steps w (snd (reconcile_groups env gs errs w))" for gs errs
  proof (induction gs arbitrary: errs w)
    case (Cons g gs)
    then show ?case
      using Reconcile_steps [of w env g] by (auto split: prod.split option.split intro: rtranclp_trans)
  qed simp
  then show ?thesis by (simp add: ReconcileAll_def)
qed

lemma Acknowledge_steps: "controller_steps w (snd (Acknowledge env a w))"
  using frame_Acknowledge [of "[]" w env a] by (simp add: frame_def)

lemma SaveMembership_steps: "controller_steps w (snd (SaveMembership env m w))"
  using frame_SaveMembership [of "[]" w env m] by (simp add: frame_def)

lemma RequestRollback_steps: "controller_steps w (snd (RequestRollback env g p w))"
proof (cases "groupState g w")
  case (Some gs)
  have "controller_steps w (snd (updateGroup env g (\<lambda>s. s\<lparr>gs_rolling := True\<rparr>) w))"
    if "\<not> commit_reached gs" "\<not> gs_rolling gs"
    by (rule updateGroup_steps(1) [OF Some]) (use that in \<open>auto simp: kept intro!: group_step.request_rollback\<close>)
  with Some show ?thesis by (auto simp: RequestRollback_def)
qed (simp add: RequestRollback_def)

lemma Observe_steps: "controller_steps w (snd (Observe env t w))"
proof (cases "groupState (tm_group t) w")
  case (Some gs)
  obtain now w1 where clk: "read_clock env w = (now, w1)" by fastforce
  note w1 = read_clock_step [OF clk]
  let ?f = "observe_update (telemetryFreshness (c_options w) (tm_group t)) t (fst (telemetrySourcesForSample (gs_spec gs) t))"
  have "controller_steps w1 (snd (updateGroup env (tm_group t) ?f w1))"
    if new: "(if tm_message t \<noteq> [] then mget (gs_messages gs) (tm_message t) else None) = None"
      "\<not> observe_out_of_scope t gs" "\<not> observe_rejected t gs"
  proof (rule updateGroup_steps(1))
    show "groupState (tm_group t) w1 = Some gs" using Some by (simp add: w1(1) groupState_def)
    fix l gm assume gm: "ack_extends gs gm"
    have "group_step (c_options w1) l gm (observe_update (telemetryFreshness (c_options w) (tm_group t)) t
        (fst (telemetrySourcesForSample (gs_spec gm) t)) gm)"
      by (rule group_step.observe) (use new gm in \<open>auto simp: kept split: if_splits\<close>)
    then show "group_step (c_options w1) l gm (?f gm)" using gm by (simp add: kept)
  qed
  with Some w1(2) show ?thesis
    by (auto simp: Observe_def clk Let_def split: option.splits intro: converse_rtranclp_into_rtranclp)
qed (simp add: Observe_def)

lemma create_group_steps:
  assumes s: "accepted_spec (c_options w) s"
    and ok: "case groupState (ts_group s) w of None \<Rightarrow> True | Some gs \<Rightarrow> canReplaceCompleted gs s"
  shows "controller_steps w (snd (create_group env s w))"
proof -
  obtain now w1 where clk: "read_clock env w = (now, w1)" by fastforce
  define w2 where "w2 = interleave env w1"
  let ?d = "\<lambda>st. Accept (put_group (ts_group s) (new_group (c_options w) s now) st)"
  have fr: "frame (ts_group s) w w2"
    using frame_trans [OF frame_read_clock frame_interleave, of "ts_group s" w env env] by (simp add: clk w2_def)
  then have opts: "c_options w2 = c_options w" and steps: "controller_steps w w2" by (auto simp: frame_def)
  have "case mget (ps_groups (c_state w2)) (ts_group s) of None \<Rightarrow> True | Some gs \<Rightarrow> canReplaceCompleted gs s"
    using fr ok by (auto simp: frame_def keeps_def rel_option_iff groupState_def ack_extends_replace split: option.splits)
  then have d: "durable_step (c_options w2) (c_log w2) (c_state w2) (put_group (ts_group s) (new_group (c_options w) s now) (c_state w2))"
    using durable_step.new_transition s unfolding opts by blast
  have "controller_step w2 (snd (updateState env (pure_update ?d) w2))"
    using controller_step.saved [OF d] controller_step.not_saved [OF d]
    by (auto simp: updateState_def pure_update_def Let_def split: save_result.split)
  moreover have "snd (create_group env s w) = snd (updateState env (pure_update ?d) w2)"
    by (auto simp: create_group_def clk Let_def simp flip: w2_def split: prod.split option.split)
  ultimately show ?thesis using steps by (simp add: rtranclp.rtrancl_into_rtrancl)
qed

lemma Begin_steps:
  assumes "wf_spec spec"
  shows "controller_steps w (snd (Begin env spec w))"
proof -
  let ?s0 = "default_grace (c_options w) (ts_group spec) spec"
  have "accepted_spec (c_options w) s" if "spec_Validate ?s0 = None" "normalize_spec ?s0 = Inr s" for s
    using that assms unfolding accepted_spec_def by blast
  then show ?thesis
    using create_group_steps [of w _ env] by (simp add: Begin_def Let_def split: option.split sum.split)
qed

lemma BeginSnapshot_steps: "controller_steps w (snd (BeginSnapshot env m required w))"
proof -
  have "wf_spec s" if "TransitionSpecFromSnapshot m required = Inr s" for s
    using that by (auto simp: TransitionSpecFromSnapshot_def wf_spec_def wf_map_def Let_def split: option.splits if_splits)
  then show ?thesis by (auto simp: BeginSnapshot_def Begin_steps split: sum.split)
qed

end
