(* ===== verification/Controller_Invariant.thy ===== *)
theory Controller_Invariant
  imports Controller_Refinement
begin

text \<open>
  The invariant of a group's durable state and its preservation by every step of the protocol. It
  implies the check that \<open>Open\<close> makes of a loaded group (\<open>validateGroupState\<close>), so that a controller can
  always be restarted from what it saved.
\<close>

section \<open>Specifications in normal form\<close>

definition spec_inv :: "TransitionSpec \<Rightarrow> bool" where
  "spec_inv s \<longleftrightarrow> spec_Validate s = None \<and> ts_roles s \<noteq> [] \<and> wf_map (ts_roles s) \<and>
     ts_participants s = participant_table (ts_roles s) \<and> ts_drain_grace s \<noteq> 0"

lemma check_requirements_None:
  "check_requirements ph seen rs = None \<longleftrightarrow>
     distinct (map pr_participant rs) \<and> set (map pr_participant rs) \<inter> set seen = {} \<and>
     (\<forall>r \<in> set rs. pr_participant r \<noteq> [] \<and>
        (pr_role r \<noteq> RoleUnset \<longrightarrow> role_Validate (pr_role r) = None \<and> roleAllowedForPhase (pr_role r) ph))"
  by (induction rs arbitrary: seen) auto

lemma requirement_table_map:
  "mget (map (\<lambda>(ph, rs). (ph, f rs)) m) ph = map_option f (mget m ph)"
  by (induction m) auto

lemma mget_or_map: "f [] = [] \<Longrightarrow> mget_or (map (\<lambda>(ph, rs). (ph, f rs)) m) ph [] = f (mget_or m ph [])"
  by (simp add: mget_or_def requirement_table_map split: option.split)

lemma spec_Validate_roles:
  assumes "spec_Validate s = None"
  shows "normalizedRoleRequirements s = Inr (requirement_table s)" "requirements_complete (requirement_table s)"
  using assms by (auto simp: spec_Validate_def normalizedRoleRequirements_def split: sum.splits option.splits)

lemma normalizedRoleRequirements_Inr:
  "normalizedRoleRequirements s = Inr m \<longleftrightarrow> m = requirement_table s \<and>
     (\<forall>ph \<in> set (requirement_phases s). validRequirementPhase ph) \<and>
     (\<forall>(ph, rs) \<in> set (requirement_table s). check_requirements ph [] rs = None)"
proof -
  let ?e = "first_err
    [first_err (map (\<lambda>ph. err_if (\<not> validRequirementPhase ph) (ErrUnsupportedPhase ph)) (requirement_phases s)),
     first_err (map (\<lambda>(ph, rs). check_requirements ph [] rs) (requirement_table s))]"
  have "?e = None \<longleftrightarrow> (\<forall>ph \<in> set (requirement_phases s). validRequirementPhase ph) \<and>
      (\<forall>(ph, rs) \<in> set (requirement_table s). check_requirements ph [] rs = None)"
    by (simp add: case_prod_unfold)
  moreover have "(case e of Some x \<Rightarrow> Inl x | None \<Rightarrow> Inr y) = Inr m \<longleftrightarrow> m = y \<and> e = None"
    for e :: "controller_error option" and y by (cases e) auto
  ultimately show ?thesis by (simp only: normalizedRoleRequirements_def)
qed

text \<open>Sorting the requirements of each phase and storing the table changes no verdict.\<close>

lemma sorted_roles_accepted:
  assumes "normalizedRoleRequirements s = Inr m" and "m \<noteq> []" and "ts_roles s' = sort_requirements m"
  shows "normalizedRoleRequirements s' = Inr (sort_requirements m)"
proof -
  have table: "requirement_table s' = sort_requirements m" "requirement_phases s' = map fst m"
    using assms(2,3) by (auto simp: requirement_table_def requirement_phases_def sort_requirements_def)
  have m: "m = requirement_table s" and valid: "\<forall>ph \<in> set (requirement_phases s). validRequirementPhase ph"
    and ok: "\<forall>(ph, rs) \<in> set m. check_requirements ph [] rs = None"
    using assms(1) by (auto simp: normalizedRoleRequirements_Inr)
  have "fst ` set m \<subseteq> set (requirement_phases s)"
    by (force simp: m requirement_table_def requirement_phases_def split: if_splits)
  moreover have "check_requirements ph [] (sort_key pr_participant rs) = None" if "(ph, rs) \<in> set m" for ph rs
  proof -
    have "distinct (map pr_participant (sort_key pr_participant rs)) \<longleftrightarrow> distinct (map pr_participant rs)"
      by (metis card_distinct distinct_card length_map length_sort set_map set_sort)
    then show ?thesis using ok that by (auto simp: check_requirements_None)
  qed
  ultimately show ?thesis
    using valid by (auto simp: normalizedRoleRequirements_Inr table sort_requirements_def)
qed

lemma sort_requirements_nonempty: "mget_or (sort_requirements m) ph [] = [] \<longleftrightarrow> mget_or m ph [] = []"
proof -
  have "sort_key pr_participant rs = [] \<longleftrightarrow> rs = []" for rs by (metis length_0_conv length_sort)
  then show ?thesis by (simp add: sort_requirements_def mget_or_map)
qed

lemma spec_Validate_cong:
  assumes "spec_Validate s = None" and "normalizedRoleRequirements s' = Inr m" and "requirements_complete m"
    and "ts_id s' = ts_id s" "ts_group s' = ts_group s" "ts_to s' = ts_to s" "ts_from s' = ts_from s"
    "ts_revision s' = ts_revision s" "ts_hash s' = ts_hash s" "ts_algorithm s' = ts_algorithm s"
    "ts_queue s' = ts_queue s" "ts_destination s' = ts_destination s" "ts_current s' = ts_current s"
    "ts_proposed s' = ts_proposed s" "controlSnapshot s' PhasePrepare False = controlSnapshot s PhasePrepare False"
  shows "spec_Validate s' = None"
  using assms by (auto simp: spec_Validate_def)

lemma wf_requirement_table: "wf_spec s \<Longrightarrow> wf_map (requirement_table s)"
proof -
  have filter: "wf_map m \<Longrightarrow> wf_map (filter P m)" for m :: "(Phase, string list) gomap" and P
    by (simp add: wf_map_def distinct_map_filter)
  assume "wf_spec s"
  then have "wf_map (legacy_requirements s)" by (simp add: wf_spec_def legacy_requirements_def wf_map_def)
  with filter [of "legacy_requirements s" "\<lambda>(ph, ps). ps \<noteq> []"] \<open>wf_spec s\<close> show ?thesis
    by (simp add: requirement_table_def wf_spec_def wf_map_def comp_def case_prod_unfold)
qed

lemma accepted_spec_inv:
  assumes "accepted_spec o1 s" and "0 < op_grace o1"
  shows "spec_inv s"
proof -
  obtain spec where wf: "wf_spec spec"
    and valid: "spec_Validate (default_grace o1 (ts_group spec) spec) = None" (is "spec_Validate ?s0 = None")
    and norm: "normalize_spec (default_grace o1 (ts_group spec) spec) = Inr s"
    using assms(1) by (auto simp: accepted_spec_def)
  define s1 where "s1 = ?s0\<lparr>ts_required := sort (ts_required ?s0)\<rparr>"
  obtain m ps where m: "normalizedRoleRequirements s1 = Inr m"
    and ps: "normalizedRequirements (s1\<lparr>ts_roles := sort_requirements m\<rparr>) = Inr ps"
    and s: "s = s1\<lparr>ts_roles := sort_requirements m, ts_participants := ps\<rparr>"
    using norm by (auto simp: normalize_spec_def Let_def s1_def split: sum.splits)
  have "mget_or m ph [] = [] \<longleftrightarrow> mget_or (requirement_table ?s0) ph [] = []" for ph
  proof -
    have "requirement_table s1 = requirement_table ?s0 \<or> (ts_roles ?s0 = [] \<and> ts_participants ?s0 = [])"
      by (auto simp: s1_def requirement_table_def legacy_requirements_def)
    moreover have "sort xs = [] \<longleftrightarrow> xs = []" for xs :: "string list" by (metis length_0_conv length_sort)
    ultimately show ?thesis
      using m by (auto simp: normalizedRoleRequirements_Inr s1_def requirement_table_def legacy_requirements_def mget_or_def)
  qed
  then have complete: "requirements_complete m"
    using spec_Validate_roles(2) [OF valid] by (simp add: requirements_complete_def)
  then have "m \<noteq> []" by (auto simp: requirements_complete_def mget_or_def)
  from sorted_roles_accepted [OF m this] have roles: "normalizedRoleRequirements s = Inr (sort_requirements m)"
    "normalizedRoleRequirements (s1\<lparr>ts_roles := sort_requirements m\<rparr>) = Inr (sort_requirements m)"
    by (simp_all add: s)
  have "spec_Validate s = None"
    by (rule spec_Validate_cong [OF valid roles(1)])
      (use complete in \<open>simp_all add: requirements_complete_def sort_requirements_nonempty s s1_def snapshot_defs
        broker_membership_def\<close>)
  moreover have "wf_map (sort_requirements m)"
    using wf_requirement_table [of s1] m wf
    by (simp add: normalizedRoleRequirements_Inr wf_map_def sort_requirements_def comp_def case_prod_unfold wf_spec_def
        s1_def default_grace_def)
  moreover have "ts_participants s = participant_table (ts_roles s)"
    using ps roles(2) by (simp add: normalizedRequirements_def s)
  moreover have "ts_drain_grace s \<noteq> 0"
    using assms(2) by (auto simp: s s1_def default_grace_def configured_grace_def Let_def)
  ultimately show ?thesis using \<open>m \<noteq> []\<close> by (simp add: spec_inv_def s sort_requirements_def)
qed

section \<open>The invariant of a group\<close>

definition rank :: "GroupState \<Rightarrow> nat" where
  "rank gs = phase_offset (gs_phase gs)"

definition flags_inv :: "GroupState \<Rightarrow> bool" where
  "flags_inv gs \<longleftrightarrow>
     validRequirementPhase (gs_phase gs) \<and>
     (0 < rank gs \<longrightarrow> gs_prepare_published gs) \<and>
     (gs_pause_published gs \<longrightarrow> 0 < rank gs) \<and>
     (gs_fence_attempted gs \<longrightarrow> gs_pause_published gs) \<and>
     (gs_fenced gs \<longrightarrow> gs_fence_attempted gs) \<and>
     (1 < rank gs \<longrightarrow> gs_fenced gs) \<and>
     (gs_drain_published gs \<longrightarrow> 1 < rank gs) \<and>
     (2 < rank gs \<longrightarrow> gs_drain_published gs \<and> gs_fence_verified_at gs \<noteq> None \<and> \<not> gs_rolling gs) \<and>
     (gs_commit_published gs \<longrightarrow> 2 < rank gs) \<and>
     (3 < rank gs \<longrightarrow> gs_commit_published gs) \<and>
     (gs_ingress_enabled gs \<longrightarrow> 3 < rank gs) \<and>
     (gs_ingress_verified gs \<longrightarrow> gs_ingress_enabled gs \<and> gs_ingress_verified_at gs \<noteq> None) \<and>
     (gs_activate_published gs \<longrightarrow> gs_ingress_verified gs) \<and>
     (gs_completed gs \<longrightarrow> gs_completed_at gs \<noteq> None \<and> (if gs_rolling gs then gs_rollback_published gs else gs_activate_published gs)) \<and>
     (gs_rollback_published gs \<longrightarrow> gs_rolling gs \<and> (gs_fence_attempted gs \<longrightarrow> gs_unfenced gs)) \<and>
     (gs_unfenced gs \<longrightarrow> gs_rolling gs)"

definition acks_inv :: "GroupState \<Rightarrow> bool" where
  "acks_inv gs \<longleftrightarrow> (\<forall>ph acks p at. (ph, acks) \<in> set (gs_acks gs) \<longrightarrow> (p, at) \<in> set acks \<longrightarrow>
     p \<in> set (mget_or (ts_participants (gs_spec gs)) ph []) \<and> commandsIssued gs ph)"

definition issued_inv :: "GroupState \<Rightarrow> bool" where
  "issued_inv gs \<longleftrightarrow> wf_map (gs_issued gs) \<and>
     (\<forall>ph cmds. (ph, cmds) \<in> set (gs_issued gs) \<longrightarrow> cmds \<noteq> [] \<longrightarrow>
        cmds = expected_for (gs_spec gs) ph \<and> (phasePublished gs ph \<or> ph = gs_phase gs)) \<and>
     (\<forall>ph. ph \<noteq> PhaseCommit \<longrightarrow> phasePublished gs ph \<longrightarrow> commandsIssued gs ph)"

text \<open>The latest sample and the zero interval of each source, over the messages \<open>ms\<close> seen so far.\<close>

definition sample_ok ::
  "TransitionSpec \<Rightarrow> (string, Telemetry) gomap \<Rightarrow> (string, gotime) gomap \<Rightarrow> string \<Rightarrow> Telemetry \<Rightarrow> bool" where
  "sample_ok s ms zero key t \<longleftrightarrow> telemetrySourceKey s t = Some key \<and>
     (tm_message t \<noteq> [] \<longrightarrow> (\<exists>original. mget ms (tm_message t) = Some original \<and> same_message original t)) \<and>
     (case mget zero key of None \<Rightarrow> \<not> isKnownZero t | Some z \<Rightarrow> isKnownZero t \<and> z \<le> tm_observed t) \<and>
     \<not> IsZero (tm_observed t)"

definition telemetry_ok ::
  "TransitionSpec \<Rightarrow> (string, Telemetry) gomap \<Rightarrow> (string, Telemetry) gomap \<Rightarrow> (string, gotime) gomap \<Rightarrow> bool" where
  "telemetry_ok s ms latest zero \<longleftrightarrow> wf_map latest \<and> wf_map zero \<and>
     (\<forall>key t. mget latest key = Some t \<longrightarrow> sample_ok s ms zero key t) \<and>
     (\<forall>key. mget zero key \<noteq> None \<longrightarrow> mget latest key \<noteq> None)"

definition telemetry_inv :: "GroupState \<Rightarrow> bool" where
  "telemetry_inv gs \<longleftrightarrow> telemetry_ok (gs_spec gs) (gs_messages gs) (gs_latest gs) (gs_zero gs)"

definition group_inv :: "string \<Rightarrow> GroupState \<Rightarrow> bool" where
  "group_inv g gs \<longleftrightarrow> ts_group (gs_spec gs) = g \<and> spec_inv (gs_spec gs) \<and> flags_inv gs \<and> acks_inv gs \<and>
     issued_inv gs \<and> telemetry_inv gs"

lemmas group_update_defs = recordIssuedCommands_def record_ack_def enterPhase_def observe_update_def commit_entry_def
  mark_committed_def mark_verified_def mark_active_def completeState_def Let_def

lemma fold_observe_fields:
  "gs_spec (fold (observe_source fresh t) sos gs) = gs_spec gs"
  "gs_phase (fold (observe_source fresh t) sos gs) = gs_phase gs"
  "gs_acks (fold (observe_source fresh t) sos gs) = gs_acks gs"
  "gs_issued (fold (observe_source fresh t) sos gs) = gs_issued gs"
  "gs_messages (fold (observe_source fresh t) sos gs) = gs_messages gs"
  by (induction sos arbitrary: gs) (simp_all add: observe_source_def Let_def)

lemma fold_observe_rest:
  "fold (observe_source fresh t) sos gs =
     gs\<lparr>gs_latest := gs_latest (fold (observe_source fresh t) sos gs), gs_zero := gs_zero (fold (observe_source fresh t) sos gs)\<rparr>"
proof -
  have "(fold (observe_source fresh t) sos gs)\<lparr>gs_latest := [], gs_zero := []\<rparr> = gs\<lparr>gs_latest := [], gs_zero := []\<rparr>"
    by (induction sos arbitrary: gs) (simp_all add: observe_source_def Let_def)
  then show ?thesis by (cases gs, cases "fold (observe_source fresh t) sos gs") simp
qed

lemma observe_update_rest:
  "observe_update fresh t sos gs =
     (let gs1 = fold (observe_source fresh t) sos gs in
      gs\<lparr>gs_latest := gs_latest gs1, gs_zero := gs_zero gs1,
         gs_messages := (if tm_message t \<noteq> [] then mput (tm_message t) t (gs_messages gs) else gs_messages gs),
         gs_latest_telemetry := Some t, gs_zero_since := commonZeroSince (gs_zero gs1)\<rparr>)"
proof -
  have zero: "fold (observe_source fresh t) sos gs =
     gs\<lparr>gs_latest := gs_latest (fold (observe_source fresh t) sos gs), gs_zero := gs_zero (fold (observe_source fresh t) sos gs)\<rparr>"
    by (rule fold_observe_rest)
  show ?thesis unfolding observe_update_def Let_def fold_observe_fields by (subst (1 2) zero) simp
qed

section \<open>Preservation\<close>

lemma spec_step: "group_step o1 l gs gs' \<Longrightarrow> gs_spec gs' = gs_spec gs"
  by (cases rule: group_step.cases) (auto simp: group_update_defs fold_observe_fields)

lemma flags_frame [simp]:
  "flags_inv (gs\<lparr>gs_latest := a, gs_zero := b, gs_messages := c, gs_latest_telemetry := d, gs_zero_since := e\<rparr>) = flags_inv gs"
  "flags_inv (record_ack ack gs) = flags_inv gs" "flags_inv (recordIssuedCommands ph gs) = flags_inv gs"
  by (simp_all add: flags_inv_def rank_def record_ack_def recordIssuedCommands_def)

lemma flags_step:
  assumes "group_step o1 l gs gs'" and "flags_inv gs"
  shows "flags_inv gs'"
  using assms(1)
proof (cases rule: group_step.cases)
  case (observe t fresh)
  with assms(2) show ?thesis by (simp add: observe_update_rest Let_def)
next
  case (acknowledge a r)
  with assms(2) show ?thesis by simp
next
  case (issue ph)
  with assms(2) show ?thesis by simp
next
  case request_rollback
  with assms(2) show ?thesis by (cases "gs_phase gs") (auto simp: flags_inv_def rank_def commit_reached_def)
qed ((use assms(2) in \<open>simp add: flags_inv_def rank_def group_update_defs active_def\<close>; blast?)+)

lemma set_mput_subset: "set (mput k v m) \<subseteq> insert (k, v) (set m)"
  by (induction m) (auto simp: mput_def)

lemma mget_or_in: "mget_or m k [] \<noteq> [] \<Longrightarrow> (k, mget_or m k []) \<in> set m"
  by (auto simp: mget_or_def dest: map_of_SomeD split: option.splits)

text \<open>Under the invariant, commands are issued exactly when the recorded map is the expected one.\<close>

lemma issued_iff:
  assumes "issued_inv gs"
  shows "commandsIssued gs ph \<longleftrightarrow>
    expected_for (gs_spec gs) ph \<noteq> [] \<and> mget_or (gs_issued gs) ph [] = expected_for (gs_spec gs) ph"
proof -
  have "mget_or (gs_issued gs) ph [] = [] \<or> mget_or (gs_issued gs) ph [] = expected_for (gs_spec gs) ph"
    using assms mget_or_in [of "gs_issued gs" ph] by (fastforce simp: issued_inv_def)
  then show ?thesis
  proof
    assume "mget_or (gs_issued gs) ph [] = []"
    then show ?thesis by (auto simp: commandsIssued_def maps_equal_def)
  qed (simp add: commandsIssued_def maps_equal_refl)
qed

lemma commandsIssued_cong:
  "gs_spec gs' = gs_spec gs \<Longrightarrow> gs_issued gs' = gs_issued gs \<Longrightarrow> commandsIssued gs' ph = commandsIssued gs ph"
  by (simp add: commandsIssued_def)

lemma phase_commands_mget:
  assumes "distinct (map pr_participant rs)"
  shows "mget (phase_commands s ph rs) p = map_option (commandID s ph) (find (\<lambda>r. pr_participant r = p) rs)"
proof -
  have "mget (fold (\<lambda>r m. mput (pr_participant r) (commandID s ph r) m) rs m) p =
      (case find (\<lambda>r. pr_participant r = p) rs of None \<Rightarrow> mget m p | Some r \<Rightarrow> Some (commandID s ph r))" for m
    using assms
  proof (induction rs arbitrary: m)
    case (Cons r rs)
    have "find (\<lambda>x. pr_participant x = p) rs = None" if "pr_participant r = p"
      using Cons.prems that unfolding find_None_iff by (metis distinct.simps(2) image_eqI list.map(2) list.set_map)
    with Cons show ?case by (auto split: option.split)
  qed simp
  then show ?thesis by (simp add: phase_commands_def split: option.split)
qed

lemma spec_inv_requirements:
  assumes "spec_inv s"
  shows "ph \<in> {PhasePrepare, PhasePause, PhaseDrain, PhaseActivate} \<Longrightarrow> mget_or (ts_roles s) ph [] \<noteq> []"
    and "(ph, rs) \<in> set (ts_roles s) \<Longrightarrow> check_requirements ph [] rs = None \<and> validRequirementPhase ph"
    and "normalizedRoleRequirements s = Inr (ts_roles s)"
proof -
  have valid: "spec_Validate s = None" and table: "requirement_table s = ts_roles s"
    using assms by (auto simp: spec_inv_def requirement_table_def)
  show "normalizedRoleRequirements s = Inr (ts_roles s)" using spec_Validate_roles(1) [OF valid] table by simp
  then show "(ph, rs) \<in> set (ts_roles s) \<Longrightarrow> check_requirements ph [] rs = None \<and> validRequirementPhase ph"
    using assms by (fastforce simp: normalizedRoleRequirements_Inr table requirement_phases_def spec_inv_def)
  show "ph \<in> {PhasePrepare, PhasePause, PhaseDrain, PhaseActivate} \<Longrightarrow> mget_or (ts_roles s) ph [] \<noteq> []"
    using spec_Validate_roles(2) [OF valid] by (auto simp: requirements_complete_def table)
qed

lemma expected_for_mget:
  assumes "spec_inv s"
  shows "mget (expected_for s ph) p = map_option (commandID s ph) (requirementFor s ph p)"
proof (cases "mget (ts_roles s) ph")
  case (Some rs)
  then have "distinct (map pr_participant rs)"
    using spec_inv_requirements(2) [OF assms] map_of_SomeD [OF Some] by (auto simp: check_requirements_None)
  with Some show ?thesis by (simp add: expected_for_eq phase_commands_mget requirementFor_def mget_or_def)
qed (simp add: expected_for_eq requirementFor_def mget_or_def)

lemma expected_for_nonempty:
  assumes "spec_inv s" and "ph \<in> {PhasePrepare, PhasePause, PhaseDrain, PhaseActivate}"
  shows "expected_for s ph \<noteq> []"
proof -
  obtain r rs where "mget_or (ts_roles s) ph [] = r # rs"
    using spec_inv_requirements(1) [OF assms] by (meson neq_Nil_conv)
  then have "requirementFor s ph (pr_participant r) = Some r" by (simp add: requirementFor_def)
  with expected_for_mget [OF assms(1), of ph "pr_participant r"] show ?thesis by auto
qed

lemma participants_iff:
  assumes "spec_inv s"
  shows "p \<in> set (mget_or (ts_participants s) ph []) \<longleftrightarrow> requirementFor s ph p \<noteq> None"
proof -
  have "mget_or (ts_participants s) ph [] = map pr_participant (mget_or (ts_roles s) ph [])"
    using assms by (simp add: spec_inv_def participant_table_def mget_or_map)
  then show ?thesis by (auto simp: requirementFor_def find_None_iff image_iff)
qed

lemma acked_in: "acked gs ph p \<Longrightarrow> \<exists>acks at. (ph, acks) \<in> set (gs_acks gs) \<and> (p, at) \<in> set acks"
  unfolding acked_def
  by (metis map_of_SomeD mget_or_in not_None_eq list.distinct(1) map_of.simps(1))

lemma record_ack_acks:
  assumes "(ph, acks) \<in> set (gs_acks (record_ack a gs))" "(p, at) \<in> set acks"
  shows "ph = ak_phase a \<and> p = ak_participant a \<or> (\<exists>acks'. (ph, acks') \<in> set (gs_acks gs) \<and> (p, at) \<in> set acks')"
proof -
  let ?inner = "mget_or (gs_acks gs) (ak_phase a) []"
  have "(ph, acks) \<in> set (gs_acks gs) \<or> ph = ak_phase a \<and> acks = mput (ak_participant a) (ak_observed a) ?inner"
    using assms(1) set_mput_subset by (fastforce simp: record_ack_def)
  moreover have "p = ak_participant a \<or> (p, at) \<in> set ?inner"
    if "acks = mput (ak_participant a) (ak_observed a) ?inner"
    using assms(2) that set_mput_subset by fastforce
  moreover have "(ak_phase a, ?inner) \<in> set (gs_acks gs)" if "(p, at) \<in> set ?inner"
    using that mget_or_in [of "gs_acks gs" "ak_phase a"] by (metis empty_iff list.set(1))
  ultimately show ?thesis using assms(2) by blast
qed

lemma commandsIssued_record:
  "commandsIssued gs p \<Longrightarrow> commandsIssued (recordIssuedCommands ph gs) p"
  by (auto simp: commandsIssued_def recordIssuedCommands_def maps_equal_refl)

lemma acks_step:
  assumes step: "group_step o1 l gs gs'" and inv: "acks_inv gs" "spec_inv (gs_spec gs)"
  shows "acks_inv gs'"
  using step
proof (cases rule: group_step.cases)
  case (issue ph)
  have same: "gs_acks gs' = gs_acks gs" "gs_spec gs' = gs_spec gs" by (simp_all add: issue recordIssuedCommands_def)
  show ?thesis
    using inv(1) commandsIssued_record [of gs _ ph] unfolding acks_inv_def same unfolding issue(1) by blast
next
  case (acknowledge a r)
  have same: "gs_spec gs' = gs_spec gs" "commandsIssued gs' ph = commandsIssued gs ph" for ph
    by (simp_all add: acknowledge record_ack_def commandsIssued_def)
  have new: "ak_participant a \<in> set (mget_or (ts_participants (gs_spec gs)) (ak_phase a) [])"
    "commandsIssued gs (ak_phase a)"
    using acknowledge inv(2) by (auto simp: participants_iff ack_scope_def)
  show ?thesis
    unfolding acks_inv_def same
  proof (intro allI impI)
    fix ph acks p at assume "(ph, acks) \<in> set (gs_acks gs')" "(p, at) \<in> set acks"
    then have "ph = ak_phase a \<and> p = ak_participant a \<or> (\<exists>acks'. (ph, acks') \<in> set (gs_acks gs) \<and> (p, at) \<in> set acks')"
      using record_ack_acks acknowledge(1) by blast
    with inv(1) new show "p \<in> set (mget_or (ts_participants (gs_spec gs)) ph []) \<and> commandsIssued gs ph"
      unfolding acks_inv_def by blast
  qed
qed (use inv(1) in \<open>simp_all add: acks_inv_def commandsIssued_def group_update_defs fold_observe_fields\<close>)

text \<open>A step either issues the commands of the current phase or keeps what was issued.\<close>

lemma issued_frame:
  assumes inv: "issued_inv gs" and same: "gs_spec gs' = gs_spec gs" "gs_issued gs' = gs_issued gs"
    and mono: "\<And>ph. phasePublished gs ph \<Longrightarrow> phasePublished gs' ph"
    and new: "\<And>ph. phasePublished gs' ph \<Longrightarrow> ph \<noteq> PhaseCommit \<Longrightarrow> phasePublished gs ph \<or> commandsIssued gs ph"
    and phase: "gs_phase gs' = gs_phase gs \<or> phasePublished gs' (gs_phase gs)"
  shows "issued_inv gs'"
  unfolding issued_inv_def
proof (intro conjI allI impI)
  show "wf_map (gs_issued gs')" using inv by (simp add: issued_inv_def same)
next
  fix ph cmds assume "(ph, cmds) \<in> set (gs_issued gs')" "cmds \<noteq> []"
  then have "cmds = expected_for (gs_spec gs) ph \<and> (phasePublished gs ph \<or> ph = gs_phase gs)"
    using inv by (simp add: issued_inv_def same)
  then show "cmds = expected_for (gs_spec gs') ph" "phasePublished gs' ph \<or> ph = gs_phase gs'"
    using mono phase same by auto
next
  fix ph assume "ph \<noteq> PhaseCommit" "phasePublished gs' ph"
  then have "commandsIssued gs ph" using new inv unfolding issued_inv_def by blast
  then show "commandsIssued gs' ph" using commandsIssued_cong [OF same] by simp
qed

lemma intent_issued: "intent gs ph \<Longrightarrow> spec_inv (gs_spec gs) \<Longrightarrow>
    ph \<in> {PhasePrepare, PhasePause, PhaseDrain, PhaseActivate} \<Longrightarrow> commandsIssued gs ph"
  by (simp add: intent_def commandsIssued_def expected_for_nonempty)

lemma issued_step_issue:
  assumes "issued_inv gs" and "spec_inv (gs_spec gs)" and "gs_phase gs = ph"
  shows "issued_inv (recordIssuedCommands ph gs)"
proof -
  let ?gs = "recordIssuedCommands ph gs"
  have mem: "(p, cmds) = (ph, expected_for (gs_spec gs) ph) \<or> (p, cmds) \<in> set (gs_issued gs)"
    if "(p, cmds) \<in> set (gs_issued ?gs)" for p cmds
    using that set_mput_subset by (fastforce simp: recordIssuedCommands_def)
  have same: "phasePublished ?gs p = phasePublished gs p" "gs_spec ?gs = gs_spec gs" "gs_phase ?gs = ph" for p
    by (cases p, simp_all add: recordIssuedCommands_def assms(3))
  show ?thesis
    unfolding issued_inv_def same
  proof (intro conjI allI impI)
    show "wf_map (gs_issued ?gs)" using assms(1) by (simp add: issued_inv_def recordIssuedCommands_def)
  next
    fix p cmds assume "(p, cmds) \<in> set (gs_issued ?gs)" "cmds \<noteq> []"
    with mem assms show "cmds = expected_for (gs_spec gs) p" "phasePublished gs p \<or> p = ph"
      unfolding issued_inv_def by blast+
  next
    fix p assume "p \<noteq> PhaseCommit" "phasePublished gs p"
    with assms(1) show "commandsIssued ?gs p" by (simp add: issued_inv_def commandsIssued_record)
  qed
qed

lemma phasePublished_frame:
  assumes "gs_prepare_published gs' = gs_prepare_published gs" "gs_pause_published gs' = gs_pause_published gs"
    "gs_drain_published gs' = gs_drain_published gs" "gs_commit_published gs' = gs_commit_published gs"
    "gs_activate_published gs' = gs_activate_published gs"
  shows "phasePublished gs' ph = phasePublished gs ph"
  using assms by (cases ph) simp_all

lemma issued_frame_same:
  assumes "issued_inv gs" and "gs_spec gs' = gs_spec gs" "gs_issued gs' = gs_issued gs"
    and "gs_prepare_published gs' = gs_prepare_published gs" "gs_pause_published gs' = gs_pause_published gs"
    "gs_drain_published gs' = gs_drain_published gs" "gs_commit_published gs' = gs_commit_published gs"
    "gs_activate_published gs' = gs_activate_published gs"
    and "gs_phase gs' = gs_phase gs \<or> phasePublished gs (gs_phase gs)"
  shows "issued_inv gs'"
  by (rule issued_frame [OF assms(1-3)]) (use assms(9) in \<open>simp_all add: phasePublished_frame [OF assms(4-8)]\<close>)

lemma issued_step:
  assumes step: "group_step o1 l gs gs'" and inv: "issued_inv gs" "spec_inv (gs_spec gs)" "flags_inv gs"
  shows "issued_inv gs'"
  using step
proof (cases rule: group_step.cases)
  case (issue ph)
  with issued_step_issue [OF inv(1,2)] show ?thesis by simp
next
  case prepare_published
  show ?thesis
  proof (rule issued_frame [OF inv(1)])
    fix ph show "phasePublished gs ph \<Longrightarrow> phasePublished gs' ph" by (cases ph) (simp_all add: prepare_published)
    show "phasePublished gs' ph \<Longrightarrow> ph \<noteq> PhaseCommit \<Longrightarrow> phasePublished gs ph \<or> commandsIssued gs ph"
      using intent_issued [OF _ inv(2)] by (cases ph) (simp_all add: prepare_published)
  qed (simp_all add: prepare_published)
next
  case pause_published
  show ?thesis
  proof (rule issued_frame [OF inv(1)])
    fix ph show "phasePublished gs ph \<Longrightarrow> phasePublished gs' ph" by (cases ph) (simp_all add: pause_published)
    show "phasePublished gs' ph \<Longrightarrow> ph \<noteq> PhaseCommit \<Longrightarrow> phasePublished gs ph \<or> commandsIssued gs ph"
      using intent_issued [OF _ inv(2)] by (cases ph) (simp_all add: pause_published)
  qed (simp_all add: pause_published)
next
  case drain_published
  show ?thesis
  proof (rule issued_frame [OF inv(1)])
    fix ph show "phasePublished gs ph \<Longrightarrow> phasePublished gs' ph" by (cases ph) (simp_all add: drain_published)
    show "phasePublished gs' ph \<Longrightarrow> ph \<noteq> PhaseCommit \<Longrightarrow> phasePublished gs ph \<or> commandsIssued gs ph"
      using intent_issued [OF _ inv(2)] by (cases ph) (simp_all add: drain_published)
  qed (simp_all add: drain_published)
next
  case (commit_published st)
  show ?thesis
  proof (rule issued_frame [OF inv(1)])
    fix ph show "phasePublished gs ph \<Longrightarrow> phasePublished gs' ph"
      by (cases ph) (simp_all add: commit_published mark_committed_def)
    show "phasePublished gs' ph \<Longrightarrow> ph \<noteq> PhaseCommit \<Longrightarrow> phasePublished gs ph \<or> commandsIssued gs ph"
      by (cases ph) (simp_all add: commit_published mark_committed_def)
  qed (simp_all add: commit_published mark_committed_def)
next
  case (activate_published ist)
  show ?thesis
  proof (rule issued_frame [OF inv(1)])
    fix ph show "phasePublished gs ph \<Longrightarrow> phasePublished gs' ph"
      by (cases ph) (simp_all add: activate_published mark_active_def)
    show "phasePublished gs' ph \<Longrightarrow> ph \<noteq> PhaseCommit \<Longrightarrow> phasePublished gs ph \<or> commandsIssued gs ph"
      using intent_issued [OF _ inv(2)] by (cases ph) (simp_all add: activate_published mark_active_def)
  qed (simp_all add: activate_published mark_active_def)
next
  case (observe t fresh)
  show ?thesis by (rule issued_frame_same [OF inv(1)]) (simp_all add: observe(1) observe_update_rest Let_def)
next
  case (acknowledge a r)
  show ?thesis by (rule issued_frame_same [OF inv(1)]) (simp_all add: acknowledge(1) record_ack_def)
qed (rule issued_frame_same [OF inv(1)]; simp add: group_update_defs)+

section \<open>Telemetry\<close>

lemma observe_source_ok:
  assumes inv: "telemetry_ok s ms (gs_latest gs) (gs_zero gs)" and nz: "\<not> IsZero (tm_observed t)"
    and key: "telemetrySourceKey s (t\<lparr>tm_broker := so_broker so, tm_queue := so_queue so\<rparr>) = Some (source_key so)"
    and msg: "tm_message t \<noteq> [] \<Longrightarrow> mget ms (tm_message t) = Some t"
    and order: "\<And>prev. mget (gs_latest gs) (source_key so) = Some prev \<Longrightarrow> tm_observed prev \<le> tm_observed t"
  shows "telemetry_ok s ms (gs_latest (observe_source fresh t so gs)) (gs_zero (observe_source fresh t so gs))"
proof -
  let ?k = "source_key so" and ?t = "t\<lparr>tm_broker := so_broker so, tm_queue := so_queue so\<rparr>"
  let ?z = "gs_zero (observe_source fresh t so gs)"
  have latest: "gs_latest (observe_source fresh t so gs) = mput ?k ?t (gs_latest gs)"
    by (simp add: observe_source_def Let_def)
  have other: "mget ?z k = mget (gs_zero gs) k" if "k \<noteq> ?k" for k
    using that by (simp add: observe_source_def Let_def)
  have known: "isKnownZero ?t = isKnownZero t" by (simp add: isKnownZero_def)
  have zero: "case mget ?z ?k of None \<Rightarrow> \<not> isKnownZero t | Some z \<Rightarrow> isKnownZero t \<and> z \<le> tm_observed t"
  proof (cases "mget (gs_latest gs) ?k")
    case None
    then have "mget (gs_zero gs) ?k = None" using inv by (auto simp: telemetry_ok_def)
    with None show ?thesis by (simp add: observe_source_def Let_def)
  next
    case (Some prev)
    then have "sample_ok s ms (gs_zero gs) ?k prev" using inv by (simp add: telemetry_ok_def)
    with Some order [OF Some] show ?thesis
      by (auto simp: observe_source_def Let_def sample_ok_def split: option.splits)
  qed
  have "sample_ok s ms ?z ?k ?t"
    using key msg nz zero known by (auto simp: sample_ok_def same_message_def split: option.splits)
  moreover have "sample_ok s ms ?z k u" if "k \<noteq> ?k" "mget (gs_latest gs) k = Some u" for k u
    using inv that other [OF that(1)] by (simp add: telemetry_ok_def sample_ok_def)
  moreover have "wf_map ?z" using inv by (simp add: observe_source_def Let_def telemetry_ok_def)
  moreover have "mget (gs_latest gs) k \<noteq> None" if "k \<noteq> ?k" "mget ?z k \<noteq> None" for k
    using inv that other [OF that(1)] by (simp add: telemetry_ok_def)
  ultimately show ?thesis
    using inv unfolding telemetry_ok_def latest by (auto split: if_splits)
qed

lemma fold_observe_ok:
  assumes "telemetry_ok s ms (gs_latest gs) (gs_zero gs)" and "\<not> IsZero (tm_observed t)"
    and "\<And>so. so \<in> set sos \<Longrightarrow> telemetrySourceKey s (t\<lparr>tm_broker := so_broker so, tm_queue := so_queue so\<rparr>) = Some (source_key so)"
    and "tm_message t \<noteq> [] \<Longrightarrow> mget ms (tm_message t) = Some t"
    and "\<And>so prev. so \<in> set sos \<Longrightarrow> mget (gs_latest gs) (source_key so) = Some prev \<Longrightarrow> tm_observed prev \<le> tm_observed t"
  shows "telemetry_ok s ms (gs_latest (fold (observe_source fresh t) sos gs)) (gs_zero (fold (observe_source fresh t) sos gs))"
  using assms
proof (induction sos arbitrary: gs)
  case (Cons so sos)
  have ok: "telemetry_ok s ms (gs_latest (observe_source fresh t so gs)) (gs_zero (observe_source fresh t so gs))"
    by (rule observe_source_ok) (use Cons.prems in auto)
  have order: "tm_observed prev \<le> tm_observed t"
    if "x \<in> set sos" "mget (gs_latest (observe_source fresh t so gs)) (source_key x) = Some prev" for x prev
    using that Cons.prems(5) [of x prev] by (auto simp: observe_source_def Let_def split: if_splits)
  have "telemetry_ok s ms (gs_latest (fold (observe_source fresh t) sos (observe_source fresh t so gs)))
      (gs_zero (fold (observe_source fresh t) sos (observe_source fresh t so gs)))"
    by (rule Cons.IH [OF ok]) (use Cons.prems order in auto)
  then show ?case by simp
qed simp

text \<open>The sources a sample is recorded for are sources in their own right.\<close>

lemma telemetrySources_key:
  assumes "so \<in> set (fst (telemetrySourcesForSample s t))"
  shows "telemetrySourceKey s (t\<lparr>tm_broker := so_broker so, tm_queue := so_queue so\<rparr>) = Some (source_key so)"
proof -
  let ?t = "t\<lparr>tm_broker := so_broker so, tm_queue := so_queue so\<rparr>"
  have src: "sample_source ?t = so" by (simp add: sample_source_def)
  show ?thesis
  proof (cases "requiredTelemetrySources s = []")
    case True
    then show ?thesis by (simp add: telemetrySourceKey_def telemetrySourcesForSample_def src)
  next
    case False
    then have "so \<in> set (requiredTelemetrySources s)"
      using assms by (auto simp: telemetrySourcesForSample_def Let_def split: if_splits)
    with False show ?thesis by (simp add: telemetrySourceKey_def telemetrySourcesForSample_def src)
  qed
qed

lemma telemetry_step_observe:
  assumes inv: "telemetry_inv gs" and new: "tm_message t \<noteq> [] \<Longrightarrow> mget (gs_messages gs) (tm_message t) = None"
    and scope: "\<not> observe_out_of_scope t gs" "\<not> observe_rejected t gs"
  shows "telemetry_inv (observe_update fresh t (fst (telemetrySourcesForSample (gs_spec gs) t)) gs)"
proof -
  let ?sos = "fst (telemetrySourcesForSample (gs_spec gs) t)"
  let ?ms = "if tm_message t \<noteq> [] then mput (tm_message t) t (gs_messages gs) else gs_messages gs"
  have "telemetry_ok (gs_spec gs) ?ms (gs_latest gs) (gs_zero gs)"
    using inv new unfolding telemetry_inv_def telemetry_ok_def sample_ok_def by fastforce
  moreover have "tm_observed prev \<le> tm_observed t"
    if "so \<in> set ?sos" "mget (gs_latest gs) (source_key so) = Some prev" for so prev
    using scope(2) that by (fastforce simp: observe_rejected_def Let_def list_ex_iff split: prod.splits)
  ultimately have "telemetry_ok (gs_spec gs) ?ms (gs_latest (fold (observe_source fresh t) ?sos gs))
      (gs_zero (fold (observe_source fresh t) ?sos gs))"
    by (intro fold_observe_ok telemetrySources_key) (use scope(1) in \<open>auto simp: observe_out_of_scope_def\<close>)
  then show ?thesis by (simp add: telemetry_inv_def observe_update_rest Let_def)
qed

lemma telemetry_step:
  assumes "group_step o1 l gs gs'" and "telemetry_inv gs"
  shows "telemetry_inv gs'"
  using assms(1)
proof (cases rule: group_step.cases)
  case (observe t fresh)
  with telemetry_step_observe [OF assms(2)] show ?thesis by blast
qed (use assms(2) in \<open>simp_all add: telemetry_inv_def group_update_defs\<close>)

text \<open>The invariant is preserved by every step of the protocol.\<close>

lemma group_step_inv:
  assumes "group_step o1 l gs gs'" and "group_inv g gs"
  shows "group_inv g gs'"
  using assms spec_step [OF assms(1)] flags_step [OF assms(1)] acks_step [OF assms(1)] issued_step [OF assms(1)]
    telemetry_step [OF assms(1)]
  by (simp add: group_inv_def)

end
