(* ===== verification/Controller_Safety.thy ===== *)
theory Controller_Safety
  imports Controller_Invariant
begin

text \<open>
  Runs of the controller, with restarts and failing saves, and what holds in all of them. The state in
  memory only moves forward, the state on disk is never behind the state in memory, and every snapshot
  in the history was published under the conditions of the protocol.
\<close>

section \<open>The invariant of the persistent document\<close>

definition state_inv :: "PersistentState \<Rightarrow> bool" where
  "state_inv st \<longleftrightarrow> wf_map (ps_groups st) \<and> wf_map (ps_membership st) \<and>
     (\<forall>g gs. mget (ps_groups st) g = Some gs \<longrightarrow> group_inv g gs) \<and>
     (\<forall>g m. mget (ps_membership st) g = Some m \<longrightarrow> Validate m = None \<and> ms_group m = g)"

lemma new_group_inv: "spec_inv s \<Longrightarrow> group_inv (ts_group s) (new_group o1 s now)"
proof -
  have "\<not> phasePublished (new_group o1 s now) ph" for ph by (cases ph) (simp_all add: new_group_def)
  then show "spec_inv s \<Longrightarrow> ?thesis"
    by (simp add: group_inv_def new_group_def flags_inv_def rank_def acks_inv_def issued_inv_def telemetry_inv_def
        telemetry_ok_def)
qed

lemma cleanup_frame [simp]: "group_inv g (gs\<lparr>gs_cleanup_recorded := b\<rparr>) = group_inv g gs"
proof -
  have "phasePublished (gs\<lparr>gs_cleanup_recorded := b\<rparr>) ph = phasePublished gs ph" for ph by (cases ph) simp_all
  moreover have "commandsIssued (gs\<lparr>gs_cleanup_recorded := b\<rparr>) ph = commandsIssued gs ph" for ph
    by (simp add: commandsIssued_def)
  ultimately show ?thesis
    by (simp add: group_inv_def flags_inv_def rank_def acks_inv_def issued_inv_def telemetry_inv_def)
qed

text \<open>What \<open>finish_group\<close> stores: the updated group, possibly marked, and nothing else changes but records.\<close>

lemma finish_group_groups:
  obtains b where "ps_groups (finish_group o1 g gs gs' st) = mput g (gs'\<lparr>gs_cleanup_recorded := b\<rparr>) (ps_groups st)"
    and "ps_membership (finish_group o1 g gs gs' st) = ps_membership st"
proof -
  have "\<exists>b. ps_groups (finish_group o1 g gs gs' st) = mput g (gs'\<lparr>gs_cleanup_recorded := b\<rparr>) (ps_groups st) \<and>
      ps_membership (finish_group o1 g gs gs' st) = ps_membership st"
    by (cases "cleanup_evidence gs'")
      (auto simp: finish_group_def recordCleanupEvidence_def recordCompletion_def put_group_def Let_def
        intro: exI [of _ "gs_cleanup_recorded gs'"] exI [of _ True] split: option.split)
  with that show ?thesis by blast
qed

lemma durable_step_inv:
  assumes "durable_step o1 l st st'" and "state_inv st" and "0 < op_grace o1"
  shows "state_inv st'"
  using assms(1)
proof (cases rule: durable_step.cases)
  case (group_update g gs gs')
  have "group_inv g gs'" using group_step_inv [OF group_update(3)] assms(2) group_update(2) by (simp add: state_inv_def)
  moreover obtain b where "ps_groups st' = mput g (gs'\<lparr>gs_cleanup_recorded := b\<rparr>) (ps_groups st)"
    "ps_membership st' = ps_membership st"
    using finish_group_groups [of o1 g gs gs' st] group_update(1) by metis
  ultimately show ?thesis using assms(2) by (auto simp: state_inv_def)
next
  case (new_transition s now)
  with new_group_inv accepted_spec_inv [OF new_transition(2) assms(3)] assms(2) show ?thesis
    by (auto simp: state_inv_def put_group_def)
next
  case (new_membership m)
  have "st' = st\<lparr>ps_membership := mput (ms_group m) m (ps_membership st)\<rparr>"
    using new_membership(2) by (auto simp: membership_update_def split: option.splits if_splits)
  with new_membership(1) assms(2) show ?thesis by (auto simp: state_inv_def)
qed

section \<open>Progress\<close>

text \<open>The order in which a group moves: to a later transition, or forward within one.\<close>

definition group_le :: "GroupState \<Rightarrow> GroupState \<Rightarrow> bool" where
  "group_le a b \<longleftrightarrow> ts_revision (gs_spec a) < ts_revision (gs_spec b) \<or>
     gs_spec b = gs_spec a \<and> rank a \<le> rank b \<and> (gs_rolling a \<longrightarrow> gs_rolling b \<and> rank b = rank a) \<and>
     (2 < rank a \<longrightarrow> \<not> gs_rolling b) \<and> (gs_completed a \<longrightarrow> gs_completed b) \<and>
     (gs_fence_attempted a \<longrightarrow> gs_fence_attempted b) \<and> (\<forall>ph. allAcknowledged a ph \<longrightarrow> allAcknowledged b ph)"

definition snapshot_le :: "MembershipSnapshot \<Rightarrow> MembershipSnapshot \<Rightarrow> bool" where
  "snapshot_le a b \<longleftrightarrow> b = a \<or> ms_revision a < ms_revision b \<and> ms_epoch a \<le> ms_epoch b"

definition entry_le :: "('a \<Rightarrow> 'a \<Rightarrow> bool) \<Rightarrow> 'a option \<Rightarrow> 'a option \<Rightarrow> bool" where
  "entry_le R x y \<longleftrightarrow> (case x of None \<Rightarrow> True | Some a \<Rightarrow> (case y of None \<Rightarrow> False | Some b \<Rightarrow> R a b))"

definition state_le :: "PersistentState \<Rightarrow> PersistentState \<Rightarrow> bool" where
  "state_le st st' \<longleftrightarrow> (\<forall>g. entry_le group_le (mget (ps_groups st) g) (mget (ps_groups st') g) \<and>
     entry_le snapshot_le (mget (ps_membership st) g) (mget (ps_membership st') g))"

lemma group_le_trans: "group_le a b \<Longrightarrow> group_le b c \<Longrightarrow> group_le a c"
  unfolding group_le_def by fastforce

lemma snapshot_le_trans: "snapshot_le a b \<Longrightarrow> snapshot_le b c \<Longrightarrow> snapshot_le a c"
  unfolding snapshot_le_def by fastforce

lemma entry_le_refl: "(\<And>a. x = Some a \<Longrightarrow> R a a) \<Longrightarrow> entry_le R x x"
  by (auto simp: entry_le_def split: option.split)

lemma group_le_refl: "flags_inv gs \<Longrightarrow> group_le gs gs"
  by (simp add: group_le_def flags_inv_def)

lemma snapshot_le_refl [simp]: "snapshot_le m m"
  by (simp add: snapshot_le_def)

lemma state_le_trans: "state_le a b \<Longrightarrow> state_le b c \<Longrightarrow> state_le a c"
proof -
  have gt: "entry_le group_le x z" if "entry_le group_le x y" "entry_le group_le y z" for x y z
    using that by (auto simp: entry_le_def split: option.splits intro: group_le_trans)
  have st: "entry_le snapshot_le x z" if "entry_le snapshot_le x y" "entry_le snapshot_le y z" for x y z
    using that by (auto simp: entry_le_def split: option.splits intro: snapshot_le_trans)
  show "state_le a b \<Longrightarrow> state_le b c \<Longrightarrow> ?thesis" unfolding state_le_def using gt st by blast
qed

lemma state_le_refl: "state_inv st \<Longrightarrow> state_le st st"
  by (auto simp: state_le_def state_inv_def group_inv_def intro!: entry_le_refl group_le_refl)

lemma group_step_acked:
  assumes "group_step o1 l gs gs'" and "allAcknowledged gs ph"
  shows "allAcknowledged gs' ph"
  using assms(1)
proof (cases rule: group_step.cases)
  case (acknowledge a r)
  with assms(2) ack_extends_acked [OF ack_extends_record] show ?thesis by simp
next
  case (observe t fresh)
  with assms(2) show ?thesis by (simp add: observe_update_rest allAcknowledged_def Let_def)
qed (use assms(2) in \<open>simp_all add: allAcknowledged_def group_update_defs\<close>)

lemma group_step_le:
  assumes "group_step o1 l gs gs'" and "flags_inv gs"
  shows "group_le gs gs'"
proof -
  have spec: "gs_spec gs' = gs_spec gs" using spec_step [OF assms(1)] .
  have acks: "\<forall>ph. allAcknowledged gs ph \<longrightarrow> allAcknowledged gs' ph" using group_step_acked [OF assms(1)] by blast
  have rank: "2 < rank gs \<longrightarrow> \<not> gs_rolling gs" using assms(2) by (simp add: flags_inv_def)
  from assms(1) show ?thesis
  proof (cases rule: group_step.cases)
    case request_rollback
    then show ?thesis using assms(2) acks
      by (cases "gs_phase gs") (auto simp: group_le_def rank_def commit_reached_def flags_inv_def)
  next
    case (observe t fresh)
    then show ?thesis using rank acks by (simp add: group_le_def rank_def observe_update_rest Let_def)
  qed (use rank acks in \<open>auto simp: group_le_def rank_def group_update_defs active_def\<close>)
qed

lemma replace_revision:
  assumes "canReplaceCompleted gs s" and "spec_inv (gs_spec gs)"
  shows "ts_revision (gs_spec gs) < ts_revision s"
proof -
  have base: "ts_revision (gs_spec gs) \<noteq> 0" "ts_revision (gs_spec gs) \<le> max_u64 - 5"
    using assms(2) spec_Validate_facts(4,5) by (auto simp: spec_inv_def)
  have "revisionFor (ts_revision (gs_spec gs)) 5 < ts_revision s \<or> revisionFor (ts_revision (gs_spec gs)) 4 < ts_revision s"
    using assms(1) by (auto simp: canReplaceCompleted_def split: if_splits)
  then show ?thesis
    using unat_revisionFor [OF base, of 4] unat_revisionFor [OF base, of 5] by (auto simp: word_less_nat_alt)
qed

lemma durable_step_le:
  assumes "durable_step o1 l st st'" and "state_inv st"
  shows "state_le st st'"
  using assms(1)
proof (cases rule: durable_step.cases)
  case (group_update g gs gs')
  have inv: "flags_inv gs" using assms(2) group_update(2) by (simp add: state_inv_def group_inv_def)
  obtain b where groups: "ps_groups st' = mput g (gs'\<lparr>gs_cleanup_recorded := b\<rparr>) (ps_groups st)"
    and mem: "ps_membership st' = ps_membership st"
    using finish_group_groups [of o1 g gs gs' st] group_update(1) by metis
  have "group_le gs (gs'\<lparr>gs_cleanup_recorded := b\<rparr>)"
    using group_step_le [OF group_update(3) inv] by (simp add: group_le_def rank_def allAcknowledged_def)
  then show ?thesis
    using state_le_refl [OF assms(2)] group_update(2) by (simp add: state_le_def groups mem entry_le_def)
next
  case (new_transition s now)
  have "entry_le group_le (mget (ps_groups st) (ts_group s)) (Some (new_group o1 s now))"
    using new_transition(3) replace_revision assms(2)
    by (auto simp: entry_le_def group_le_def new_group_def state_inv_def group_inv_def split: option.splits)
  then show ?thesis
    using state_le_refl [OF assms(2)] by (simp add: state_le_def new_transition(1) put_group_def)
next
  case (new_membership m)
  have st': "st' = st\<lparr>ps_membership := mput (ms_group m) m (ps_membership st)\<rparr>"
    and le: "entry_le snapshot_le (mget (ps_membership st) (ms_group m)) (Some m)"
    using new_membership(2)
    by (auto simp: membership_update_def entry_le_def snapshot_le_def split: option.splits if_splits)
  then show ?thesis using state_le_refl [OF assms(2)] by (simp add: state_le_def)
qed

section \<open>What the history of publications says about the state\<close>

definition matches :: "ControlUpdate \<Rightarrow> GroupState \<Rightarrow> bool" where
  "matches u gs \<longleftrightarrow> (if cu_rollback u then gs_rolling gs else phase_offset (cu_phase u) \<le> rank gs)"

definition publication_known :: "TransitionSpec \<Rightarrow> ControlUpdate \<Rightarrow> PersistentState \<Rightarrow> bool" where
  "publication_known s u st \<longleftrightarrow>
     (\<exists>gs. mget (ps_groups st) (ts_group s) = Some gs \<and>
        (ts_revision s < ts_revision (gs_spec gs) \<or> gs_spec gs = s \<and> matches u gs)) \<and>
     (\<exists>m. mget (ps_membership st) (ts_group s) = Some m \<and> (membershipSnapshotsEqual m (cu_snapshot u) \<or> ms_revision (cu_snapshot u) < ms_revision m))"

definition well_published :: "TransitionSpec \<Rightarrow> ControlUpdate \<Rightarrow> bool" where
  "well_published s u \<longleftrightarrow> spec_inv s \<and> validRequirementPhase (cu_phase u) \<and>
     cu_snapshot u = controlSnapshot s (cu_phase u) (cu_rollback u)"

text \<open>A transition that has been published as committed or active is never published as rolled back.\<close>

definition consistent :: "events \<Rightarrow> bool" where
  "consistent l \<longleftrightarrow> (\<forall>s u ok s' v ok'. EvPublish s u ok \<in> set l \<longrightarrow> EvPublish s' v ok' \<in> set l \<longrightarrow>
     ts_group s = ts_group s' \<longrightarrow> ts_revision s = ts_revision s' \<longrightarrow> cu_phase u \<in> {PhaseCommit, PhaseActivate} \<longrightarrow>
     \<not> cu_rollback u \<longrightarrow> \<not> cu_rollback v)"

text \<open>A rollback is advertised only after a source that may be fenced has been unfenced.\<close>

definition restored :: "events \<Rightarrow> bool" where
  "restored l \<longleftrightarrow> (\<forall>newer s u ok older q r. l = newer @ EvPublish s u ok # older \<longrightarrow> cu_rollback u \<longrightarrow>
     EvFence s q r \<in> set older \<longrightarrow> (\<exists>q'. EvUnfence s q' True \<in> set older))"

definition fence_known :: "TransitionSpec \<Rightarrow> PersistentState \<Rightarrow> bool" where
  "fence_known s st \<longleftrightarrow>
     (\<exists>gs. mget (ps_groups st) (ts_group s) = Some gs \<and>
        (ts_revision s < ts_revision (gs_spec gs) \<or>
         gs_spec gs = s \<and> gs_fence_attempted gs \<and> allAcknowledged gs PhasePause))"

definition log_inv :: "events \<Rightarrow> PersistentState \<Rightarrow> bool" where
  "log_inv l st \<longleftrightarrow> consistent l \<and> restored l \<and>
     (\<forall>s u ok. EvPublish s u ok \<in> set l \<longrightarrow> well_published s u \<and> publication_known s u st) \<and>
     (\<forall>s q ok. EvFence s q ok \<in> set l \<longrightarrow> fence_known s st)"

text \<open>What the flags of a group say about the history.\<close>

definition evidence_inv :: "events \<Rightarrow> GroupState \<Rightarrow> bool" where
  "evidence_inv l gs \<longleftrightarrow>
     (gs_fenced gs \<longrightarrow> EvFence (gs_spec gs) (fenceRequest gs ''fence'') True \<in> set l) \<and>
     (gs_unfenced gs \<longrightarrow> (\<exists>q. EvUnfence (gs_spec gs) q True \<in> set l)) \<and>
     (\<forall>ph. phasePublished gs ph \<longrightarrow> was_published l (gs_spec gs) ph False) \<and>
     (gs_rollback_published gs \<longrightarrow> was_published l (gs_spec gs) PhaseActivate True)"

definition state_evidence :: "events \<Rightarrow> PersistentState \<Rightarrow> bool" where
  "state_evidence l st \<longleftrightarrow> (\<forall>g gs. mget (ps_groups st) g = Some gs \<longrightarrow> evidence_inv l gs)"

lemma evidence_mono:
  assumes "evidence_inv l gs" and "set l \<subseteq> set l'"
  shows "evidence_inv l' gs"
  using assms unfolding evidence_inv_def was_published_def by blast

lemma state_evidence_mono: "state_evidence l st \<Longrightarrow> set l \<subseteq> set l' \<Longrightarrow> state_evidence l' st"
  unfolding state_evidence_def using evidence_mono by blast

lemma evidence_frame:
  assumes "evidence_inv l gs" and "gs_spec gs' = gs_spec gs"
    and "gs_fenced gs' \<Longrightarrow> gs_fenced gs \<or> EvFence (gs_spec gs) (fenceRequest gs ''fence'') True \<in> set l"
    and "gs_unfenced gs' \<Longrightarrow> gs_unfenced gs \<or> (\<exists>q. EvUnfence (gs_spec gs) q True \<in> set l)"
    and "\<And>ph. phasePublished gs' ph \<Longrightarrow> phasePublished gs ph \<or> was_published l (gs_spec gs) ph False"
    and "gs_rollback_published gs' \<Longrightarrow> gs_rollback_published gs \<or> was_published l (gs_spec gs) PhaseActivate True"
  shows "evidence_inv l gs'"
proof -
  have q: "fenceRequest gs' ''fence'' = fenceRequest gs ''fence''" by (simp add: fenceRequest_def assms(2))
  show ?thesis unfolding evidence_inv_def assms(2) q using assms(1,3-6) unfolding evidence_inv_def by blast
qed

lemma group_step_evidence:
  assumes step: "group_step o1 l gs gs'" and inv: "evidence_inv l gs" "flags_inv gs"
  shows "evidence_inv l gs'"
proof (rule evidence_frame [OF inv(1) spec_step [OF step]])
  show "gs_fenced gs \<or> EvFence (gs_spec gs) (fenceRequest gs ''fence'') True \<in> set l" if "gs_fenced gs'"
    using step
  proof (cases rule: group_step.cases)
    case (commit_published st)
    with inv(2) show ?thesis by (simp add: flags_inv_def rank_def)
  next
    case (observe t fresh)
    with that show ?thesis by (simp add: observe_update_rest Let_def)
  qed (use that in \<open>auto simp: group_update_defs\<close>)
  show "gs_unfenced gs \<or> (\<exists>q. EvUnfence (gs_spec gs) q True \<in> set l)" if "gs_unfenced gs'"
    using step
  proof (cases rule: group_step.cases)
    case (observe t fresh)
    with that show ?thesis by (simp add: observe_update_rest Let_def)
  qed (use that in \<open>auto simp: group_update_defs\<close>)
  show "gs_rollback_published gs \<or> was_published l (gs_spec gs) PhaseActivate True" if "gs_rollback_published gs'"
    using step
  proof (cases rule: group_step.cases)
    case (observe t fresh)
    with that show ?thesis by (simp add: observe_update_rest Let_def)
  qed (use that in \<open>auto simp: group_update_defs\<close>)
  show "phasePublished gs ph \<or> was_published l (gs_spec gs) ph False" if "phasePublished gs' ph" for ph
    using step
  proof (cases rule: group_step.cases)
    case (observe t fresh)
    with that show ?thesis by (cases ph) (simp_all add: observe_update_rest Let_def)
  qed (use that in \<open>cases ph; auto simp: group_update_defs\<close>)+
qed

lemma durable_step_evidence:
  assumes step: "durable_step o1 l st st'" and ev: "state_evidence l st" and inv: "state_inv st"
  shows "state_evidence l st'"
  using step
proof (cases rule: durable_step.cases)
  case (group_update g gs gs')
  obtain b where groups: "ps_groups st' = mput g (gs'\<lparr>gs_cleanup_recorded := b\<rparr>) (ps_groups st)"
    using finish_group_groups [of o1 g gs gs' st] group_update(1) by metis
  have "evidence_inv l gs'"
    by (rule group_step_evidence [OF group_update(3)])
      (use ev inv group_update(2) in \<open>auto simp: state_evidence_def state_inv_def group_inv_def\<close>)
  then have "evidence_inv l (gs'\<lparr>gs_cleanup_recorded := b\<rparr>)"
    by (rule evidence_frame) (auto, (case_tac ph; simp)+)
  with ev show ?thesis by (simp add: state_evidence_def groups)
next
  case (new_transition s now)
  have "\<not> phasePublished (new_group o1 s now) ph" for ph by (cases ph) (simp_all add: new_group_def)
  then have "evidence_inv l (new_group o1 s now)" by (simp add: evidence_inv_def) (simp add: new_group_def)
  with ev show ?thesis by (simp add: state_evidence_def new_transition(1) put_group_def)
next
  case (new_membership m)
  then have "ps_groups st' = ps_groups st" by (auto simp: membership_update_def split: option.splits if_splits)
  with ev show ?thesis by (simp add: state_evidence_def)
qed

lemma publication_known_le:
  assumes "publication_known s u st" and "state_le st st'"
  shows "publication_known s u st'"
proof -
  obtain gs m where gs: "mget (ps_groups st) (ts_group s) = Some gs"
      "ts_revision s < ts_revision (gs_spec gs) \<or> gs_spec gs = s \<and> matches u gs"
    and m: "mget (ps_membership st) (ts_group s) = Some m" "membershipSnapshotsEqual m (cu_snapshot u) \<or> ms_revision (cu_snapshot u) < ms_revision m"
    using assms(1) by (auto simp: publication_known_def)
  obtain gs' m' where gs': "mget (ps_groups st') (ts_group s) = Some gs'" "group_le gs gs'"
    and m': "mget (ps_membership st') (ts_group s) = Some m'" "snapshot_le m m'"
    using assms(2) gs(1) m(1) unfolding state_le_def entry_le_def
    by (metis (no_types, lifting) option.case_eq_if option.exhaust_sel option.sel option.simps(3))
  have "ts_revision s < ts_revision (gs_spec gs') \<or> gs_spec gs' = s \<and> matches u gs'"
    using gs(2) gs'(2) by (auto simp: group_le_def matches_def split: if_splits)
  moreover have "membershipSnapshotsEqual m' (cu_snapshot u) \<or> ms_revision (cu_snapshot u) < ms_revision m'"
    using m(2) m'(2) by (auto simp: snapshot_le_def dest: membershipSnapshotsEqual_revision)
  ultimately show ?thesis using gs'(1) m'(1) by (auto simp: publication_known_def)
qed

lemma fence_known_le:
  assumes "fence_known s st" and "state_le st st'"
  shows "fence_known s st'"
proof -
  obtain gs where gs: "mget (ps_groups st) (ts_group s) = Some gs"
      "ts_revision s < ts_revision (gs_spec gs) \<or> gs_spec gs = s \<and> gs_fence_attempted gs \<and> allAcknowledged gs PhasePause"
    using assms(1) by (auto simp: fence_known_def)
  have "entry_le group_le (mget (ps_groups st) (ts_group s)) (mget (ps_groups st') (ts_group s))"
    using assms(2) unfolding state_le_def by blast
  then obtain gs' where gs': "mget (ps_groups st') (ts_group s) = Some gs'" "group_le gs gs'"
    using gs(1) by (auto simp: entry_le_def split: option.splits)
  from gs(2) gs'(2) have "ts_revision s < ts_revision (gs_spec gs') \<or>
      gs_spec gs' = s \<and> gs_fence_attempted gs' \<and> allAcknowledged gs' PhasePause"
    by (auto simp: group_le_def)
  with gs'(1) show ?thesis by (auto simp: fence_known_def)
qed

lemma log_inv_le: "log_inv l st \<Longrightarrow> state_le st st' \<Longrightarrow> log_inv l st'"
  unfolding log_inv_def using publication_known_le fence_known_le by blast

lemma restored_Cons:
  assumes "\<forall>s u ok. e \<noteq> EvPublish s u ok"
  shows "restored (e # l) \<longleftrightarrow> restored l"
proof
  assume r: "restored (e # l)"
  show "restored l"
    unfolding restored_def
  proof (intro allI impI)
    fix newer s u ok older q r'
    assume "l = newer @ EvPublish s u ok # older" "cu_rollback u" "EvFence s q r' \<in> set older"
    moreover from this have "e # l = (e # newer) @ EvPublish s u ok # older" by simp
    ultimately show "\<exists>q'. EvUnfence s q' True \<in> set older" using r unfolding restored_def by blast
  qed
next
  assume r: "restored l"
  show "restored (e # l)"
    unfolding restored_def
  proof (intro allI impI)
    fix newer s u ok older q r'
    assume "e # l = newer @ EvPublish s u ok # older" and f: "cu_rollback u" "EvFence s q r' \<in> set older"
    then obtain n where "l = n @ EvPublish s u ok # older" using assms by (auto simp: Cons_eq_append_conv)
    with f r show "\<exists>q'. EvUnfence s q' True \<in> set older" unfolding restored_def by blast
  qed
qed

lemma log_inv_call:
  assumes "harmless e"
  shows "log_inv (e # l) st = log_inv l st"
proof -
  have e: "\<forall>s u ok. e \<noteq> EvPublish s u ok" "\<forall>s q ok. e \<noteq> EvFence s q ok" using assms by (cases e; simp)+
  then have "EvPublish s u ok \<in> set (e # l) \<longleftrightarrow> EvPublish s u ok \<in> set l"
    "EvFence s q ok \<in> set (e # l) \<longleftrightarrow> EvFence s q ok \<in> set l" for s u q ok by auto
  with restored_Cons [OF e(1)] show ?thesis by (simp only: log_inv_def consistent_def)
qed

lemma log_inv_fence:
  assumes "log_inv l st" and "fence_known s st"
  shows "log_inv (EvFence s q ok # l) st"
proof -
  have "restored (EvFence s q ok # l)" using assms(1) by (subst restored_Cons) (simp_all add: log_inv_def)
  moreover have "EvPublish s' u ok' \<in> set (EvFence s q ok # l) \<longleftrightarrow> EvPublish s' u ok' \<in> set l" for s' u ok' by simp
  moreover have "fence_known s' st" if "EvFence s' q' ok' \<in> set (EvFence s q ok # l)" for s' q' ok'
  proof (cases "EvFence s' q' ok' \<in> set l")
    case True
    with assms(1) show ?thesis unfolding log_inv_def by blast
  qed (use that assms(2) in auto)
  ultimately show ?thesis using assms(1) unfolding log_inv_def consistent_def by blast
qed

definition controller_inv :: "Controller \<Rightarrow> bool" where
  "controller_inv w \<longleftrightarrow> 0 < op_grace (c_options w) \<and> state_inv (c_state w) \<and> state_inv (c_disk w) \<and>
     ps_version (c_disk w) = stateVersion \<and> state_le (c_state w) (c_disk w) \<and> log_inv (c_log w) (c_state w) \<and>
     state_evidence (c_log w) (c_state w) \<and> state_evidence (c_log w) (c_disk w)"

lemma ms_group_controlSnapshot [simp]: "ms_group (controlSnapshot s ph rb) = ts_group s"
  by (simp add: snapshot_defs split: Phase.split)

lemma version_frame [simp]:
  "state_inv (st\<lparr>ps_version := v\<rparr>) = state_inv st" "state_le a (st\<lparr>ps_version := v\<rparr>) = state_le a st"
  "state_evidence l (st\<lparr>ps_version := v\<rparr>) = state_evidence l st"
  by (simp_all add: state_inv_def state_le_def state_evidence_def)

lemma may_publish_phase: "may_publish o1 l gs ph rb \<Longrightarrow> validRequirementPhase ph"
  by (auto simp: may_publish_def split: if_splits Phase.splits)

lemma may_publish_matches: "may_publish o1 l gs ph rb \<Longrightarrow> matches (controlUpdate gs ph rb) gs"
  by (auto simp: may_publish_def matches_def controlUpdate_def Let_def rank_def split: if_splits)

lemma publish_log_inv:
  assumes inv: "log_inv l st" "state_inv st" "state_evidence l st" and gs: "mget (ps_groups st) g = Some gs"
    and may: "may_publish o1 l gs ph rb" and saved: "snapshot_saved (controlSnapshot (gs_spec gs) ph rb) st"
  shows "log_inv (EvPublish (gs_spec gs) (controlUpdate gs ph rb) ok # l) st"
proof -
  let ?s = "gs_spec gs" and ?u = "controlUpdate gs ph rb"
  have gi: "group_inv g gs" using inv(2) gs by (simp add: state_inv_def)
  then have g: "ts_group ?s = g" and flags: "flags_inv gs" and spec: "spec_inv ?s" by (auto simp: group_inv_def)
  have u: "cu_phase ?u = ph" "cu_rollback ?u = rb" "cu_snapshot ?u = controlSnapshot ?s ph rb"
    by (simp_all add: controlUpdate_def Let_def)
  have new: "well_published ?s ?u \<and> publication_known ?s ?u st"
    using spec may_publish_phase [OF may] gs g saved may_publish_matches [OF may]
    by (auto simp: well_published_def publication_known_def snapshot_saved_def u)
  have old: "matches v gs" if "EvPublish s' v ok' \<in> set l" "ts_group s' = ts_group ?s" "ts_revision s' = ts_revision ?s"
    for s' v ok'
  proof -
    have "publication_known s' v st" using inv(1) that(1) unfolding log_inv_def by blast
    with that gs g show ?thesis by (auto simp: publication_known_def)
  qed
  have dir: "\<not> gs_rolling gs" if "phase_offset ph \<le> rank gs" "ph \<in> {PhaseCommit, PhaseActivate}" for ph
    using flags that by (auto simp: flags_inv_def)
  have "consistent (EvPublish ?s ?u ok # l)"
    unfolding consistent_def
  proof (intro allI impI)
    fix s v okv s' v' ok'
    assume ev: "EvPublish s v okv \<in> set (EvPublish ?s ?u ok # l)" "EvPublish s' v' ok' \<in> set (EvPublish ?s ?u ok # l)"
      and same: "ts_group s = ts_group s'" "ts_revision s = ts_revision s'"
      and v: "cu_phase v \<in> {PhaseCommit, PhaseActivate}" "\<not> cu_rollback v"
    show "\<not> cu_rollback v'"
    proof (cases "EvPublish s v okv \<in> set l \<and> EvPublish s' v' ok' \<in> set l")
      case True
      with inv(1) same v show ?thesis unfolding log_inv_def consistent_def by blast
    next
      case False
      then have "matches v gs" "matches v' gs" using ev same old may_publish_matches [OF may] by auto
      with v dir [of "cu_phase v"] show ?thesis by (auto simp: matches_def split: if_splits)
    qed
  qed
  moreover have "restored (EvPublish ?s ?u ok # l)"
    unfolding restored_def
  proof (intro allI impI)
    fix newer s v okv older q r
    assume split: "EvPublish ?s ?u ok # l = newer @ EvPublish s v okv # older" and rb: "cu_rollback v"
      and fence: "EvFence s q r \<in> set older"
    show "\<exists>q'. EvUnfence s q' True \<in> set older"
    proof (cases newer)
      case Nil
      with split have here: "s = ?s" "v = ?u" "older = l" by auto
      have "fence_known ?s st" using inv(1) fence here unfolding log_inv_def by blast
      then have "gs_fence_attempted gs" using gs g by (auto simp: fence_known_def)
      then have "gs_unfenced gs" using may rb here u by (simp add: may_publish_def)
      with inv(3) gs here show ?thesis by (auto simp: state_evidence_def evidence_inv_def)
    next
      case (Cons e n)
      with split have "l = n @ EvPublish s v okv # older" by simp
      with inv(1) rb fence show ?thesis unfolding log_inv_def restored_def by blast
    qed
  qed
  ultimately show ?thesis using new inv(1) unfolding log_inv_def by auto
qed

lemma controller_step_inv:
  assumes "controller_step w w'" and "controller_inv w"
  shows "controller_inv w' \<and> state_le (c_state w) (c_state w')"
  using assms(1)
proof (cases rule: controller_step.cases)
  case (call e)
  with assms(2) state_evidence_mono [of "c_log w" _ "e # c_log w"] show ?thesis
    by (auto simp: controller_inv_def log_inv_call state_le_refl)
next
  case (fence_call g gs ok)
  have "group_inv g gs" using assms(2) fence_call(2) by (simp add: controller_inv_def state_inv_def)
  then have "fence_known (gs_spec gs) (c_state w)"
    using fence_call by (auto simp: fence_known_def group_inv_def)
  with assms(2) fence_call(1) state_evidence_mono [of "c_log w" _ "e # c_log w" for e] log_inv_fence show ?thesis
    by (auto simp: controller_inv_def state_le_refl)
next
  case (saved nxt)
  have "state_inv nxt" "state_le (c_state w) nxt" "state_evidence (c_log w) nxt"
    using durable_step_inv [OF saved(2)] durable_step_le [OF saved(2)] durable_step_evidence [OF saved(2)] assms(2)
    by (simp_all add: controller_inv_def)
  with assms(2) state_evidence_mono [of "c_log w" _ "e # c_log w" for e] show ?thesis
    using log_inv_le by (auto simp: saved(1) controller_inv_def log_inv_call state_le_refl)
next
  case (not_saved nxt replaced)
  have "state_inv nxt" "state_le (c_state w) nxt" "state_evidence (c_log w) nxt"
    using durable_step_inv [OF not_saved(2)] durable_step_le [OF not_saved(2)] durable_step_evidence [OF not_saved(2)]
      assms(2) by (simp_all add: controller_inv_def)
  with assms(2) state_evidence_mono [of "c_log w" _ "e # c_log w" for e] show ?thesis
    by (auto simp: not_saved(1) controller_inv_def log_inv_call state_le_refl)
next
  case (published g gs ph rollback ok)
  with assms(2) publish_log_inv [OF _ _ _ published(2-4)] state_evidence_mono [of "c_log w" _ "e # c_log w" for e]
  show ?thesis by (auto simp: controller_inv_def state_le_refl)
qed

lemma controller_steps_inv:
  assumes "controller_steps w w'" and "controller_inv w"
  shows "controller_inv w' \<and> state_le (c_state w) (c_state w')"
  using assms
proof (induction rule: rtranclp_induct)
  case base
  then show ?case by (simp add: controller_inv_def state_le_refl)
next
  case (step v w')
  with controller_step_inv [OF step(2)] show ?case by (blast intro: state_le_trans)
qed

end
