(* ===== verification/Controller_Runs.thy ===== *)
theory Controller_Runs
  imports Controller_Safety
begin

text \<open>
  Restarting from the disk, the runs of a controller over any number of restarts, and the properties of
  those runs.
\<close>

section \<open>Loading a group\<close>

lemma commandID_nonempty: "commandID s ph r \<noteq> []"
  by (simp add: commandID_def operationID_def)

lemma expected_values:
  assumes "spec_inv s" and "(p, c) \<in> set (expected_for s ph)"
  shows "c \<noteq> []"
proof -
  have "mget (expected_for s ph) p = Some c" using assms(2) by (rule wf_map_mget [OF wf_expected_for])
  with expected_for_mget [OF assms(1)] commandID_nonempty show ?thesis by auto
qed

lemma fill_commands_full:
  assumes "\<forall>p \<in> fst ` set commands. mget_or issued p [] \<noteq> []"
  shows "fill_commands commands issued = issued"
  using assms unfolding fill_commands_def by (induction commands) auto

lemma fill_commands_empty:
  assumes "wf_map commands"
  shows "fill_commands commands [] = commands"
proof -
  have app: "mput p c m = m @ [(p, c)]" if "p \<notin> fst ` set m" for p c and m :: "(string, string) gomap"
    using that by (induction m) (auto simp: mput_def)
  have "fill_commands cs m = m @ cs" if "wf_map (m @ cs)" for cs m
    using that
  proof (induction cs arbitrary: m)
    case (Cons x cs)
    obtain p c where x: "x = (p, c)" by fastforce
    have fresh: "p \<notin> fst ` set m" using Cons.prems by (auto simp: wf_map_def x)
    then have "mget_or m p [] = []" by (simp add: mget_or_def map_of_eq_None_iff [THEN iffD2])
    then have "fill_commands (x # cs) m = fill_commands cs (m @ [(p, c)])"
      by (simp add: fill_commands_def x app [OF fresh])
    with Cons show ?case by (simp add: x)
  qed (simp add: fill_commands_def)
  from this [of "[]" commands] assms show ?thesis by simp
qed

lemma fill_expected:
  assumes "spec_inv s" and "issued = [] \<or> issued = expected_for s ph"
  shows "fill_commands (expected_for s ph) issued = expected_for s ph"
  using assms(2)
proof
  assume "issued = expected_for s ph"
  moreover have "mget_or (expected_for s ph) p [] \<noteq> []" if "(p, c) \<in> set (expected_for s ph)" for p c
    using expected_values [OF assms(1) that] wf_map_mget [OF wf_expected_for that] by (simp add: mget_or_def)
  ultimately show ?thesis by (auto intro: fill_commands_full)
qed (simp add: fill_commands_empty)

text \<open>The commands of each phase after \<open>initializeMessageState\<close>.\<close>

lemma initialize_fold:
  assumes "distinct (map fst es)"
  shows "mget (fold (\<lambda>(ph, cs) m. if P ph then mput ph (fill_commands cs (mget_or m ph [])) m else m) es m) ph =
    (case mget es ph of
       Some cs \<Rightarrow> if P ph then Some (fill_commands cs (mget_or m ph [])) else mget m ph
     | None \<Rightarrow> mget m ph)"
  using assms
proof (induction es arbitrary: m)
  case (Cons x es)
  have "mget es (fst x) = None" using Cons.prems by (simp add: map_of_eq_None_iff)
  with Cons show ?case by (cases x) (auto simp: mget_or_def split: option.split)
qed simp

lemma initialize_issued:
  assumes "spec_inv (gs_spec gs)" and "issued_inv gs"
  shows "mget_or (gs_issued (initializeMessageState gs)) ph [] =
    (if phasePublished gs ph then expected_for (gs_spec gs) ph else mget_or (gs_issued gs) ph [])"
proof -
  let ?s = "gs_spec gs"
  have keys: "distinct (map fst (expectedCommandIDs ?s))"
    using assms(1) by (simp add: spec_inv_def wf_map_def expectedCommandIDs_def comp_def case_prod_unfold)
  have old: "mget_or (gs_issued gs) ph [] = [] \<or> mget_or (gs_issued gs) ph [] = expected_for ?s ph"
    using assms(2) mget_or_in [of "gs_issued gs" ph] unfolding issued_inv_def by blast
  show ?thesis
  proof (cases "mget (expectedCommandIDs ?s) ph")
    case None
    then have "expected_for ?s ph = []" by (simp add: expected_for_def mget_or_def)
    with None old initialize_fold [OF keys] show ?thesis
      by (auto simp: initializeMessageState_def mget_or_def split: option.splits)
  next
    case (Some cs)
    then have cs: "cs = expected_for ?s ph" by (simp add: expected_for_def mget_or_def)
    have "mget_or (gs_issued (initializeMessageState gs)) ph [] =
        (if phasePublished gs ph then fill_commands cs (mget_or (gs_issued gs) ph []) else mget_or (gs_issued gs) ph [])"
      using initialize_fold [OF keys, of "phasePublished gs" "gs_issued gs" ph] Some
      by (simp add: initializeMessageState_def mget_or_def)
    with fill_expected [OF assms(1) old] show ?thesis by (simp add: cs)
  qed
qed

lemma initialize_frame:
  "initializeMessageState gs = gs\<lparr>gs_issued := gs_issued (initializeMessageState gs)\<rparr>"
  "wf_map (gs_issued gs) \<Longrightarrow> wf_map (gs_issued (initializeMessageState gs))"
proof -
  show "initializeMessageState gs = gs\<lparr>gs_issued := gs_issued (initializeMessageState gs)\<rparr>"
    by (simp add: initializeMessageState_def)
  have "wf_map (fold (\<lambda>(ph, cs) m. if P ph then mput ph (fill_commands cs (mget_or m ph [])) m else m) es m)"
    if "wf_map m" for P es m
    using that by (induction es arbitrary: m) auto
  then show "wf_map (gs_issued gs) \<Longrightarrow> wf_map (gs_issued (initializeMessageState gs))"
    by (simp add: initializeMessageState_def)
qed

lemma initialize_inv:
  assumes "group_inv g gs"
  shows "group_inv g (initializeMessageState gs)"
proof -
  let ?gs = "initializeMessageState gs"
  have inv: "spec_inv (gs_spec gs)" "flags_inv gs" "acks_inv gs" "issued_inv gs" "telemetry_inv gs" "ts_group (gs_spec gs) = g"
    using assms by (auto simp: group_inv_def)
  note frame = initialize_frame(1) [of gs]
  have same: "gs_spec ?gs = gs_spec gs" "gs_acks ?gs = gs_acks gs" "gs_phase ?gs = gs_phase gs"
    by (subst frame, simp)+
  have pub: "phasePublished ?gs ph = phasePublished gs ph" for ph by (subst frame, cases ph) simp_all
  have old: "commandsIssued ?gs ph" if "commandsIssued gs ph" for ph
    using that issued_iff [OF inv(4)] initialize_issued [OF inv(1,4)]
    by (simp add: commandsIssued_def same maps_equal_refl)
  have "flags_inv (gs\<lparr>gs_issued := x\<rparr>) = flags_inv gs" "telemetry_inv (gs\<lparr>gs_issued := x\<rparr>) = telemetry_inv gs" for x
    by (simp_all add: flags_inv_def rank_def telemetry_inv_def)
  then have "flags_inv ?gs" "telemetry_inv ?gs" using inv(2,5) frame by metis+
  moreover have "acks_inv ?gs" using inv(3) old unfolding acks_inv_def same by blast
  moreover have "issued_inv ?gs"
    unfolding issued_inv_def same pub
  proof (intro conjI allI impI)
    show wf: "wf_map (gs_issued ?gs)" using inv(4) initialize_frame(2) by (simp add: issued_inv_def)
    fix ph cmds assume cmds: "(ph, cmds) \<in> set (gs_issued ?gs)" "cmds \<noteq> []"
    then have "mget_or (gs_issued ?gs) ph [] = cmds" using wf_map_mget [OF wf] by (simp add: mget_or_def)
    then have "cmds = (if phasePublished gs ph then expected_for (gs_spec gs) ph else mget_or (gs_issued gs) ph [])"
      using initialize_issued [OF inv(1,4), of ph] by simp
    then show "cmds = expected_for (gs_spec gs) ph" "phasePublished gs ph \<or> ph = gs_phase gs"
      using inv(4) mget_or_in [of "gs_issued gs" ph] cmds(2) unfolding issued_inv_def by (metis (full_types))+
  next
    fix ph assume "ph \<noteq> PhaseCommit" "phasePublished gs ph"
    with inv(4) old show "commandsIssued ?gs ph" unfolding issued_inv_def by blast
  qed
  ultimately show ?thesis using inv by (simp add: group_inv_def same)
qed

definition times_only :: "GroupState \<Rightarrow> GroupState \<Rightarrow> bool" where
  "times_only gs gs' \<longleftrightarrow> (\<exists>a b c d. gs' = gs\<lparr>gs_started := a, gs_entered := b, gs_deadline := c, gs_history := d\<rparr>)"

lemma times_only_inv: "times_only gs gs' \<Longrightarrow> group_inv g gs' = group_inv g gs"
proof -
  have "phasePublished (gs\<lparr>gs_started := a, gs_entered := b, gs_deadline := c, gs_history := d\<rparr>) ph = phasePublished gs ph"
    for a b c d ph by (cases ph) simp_all
  moreover have "commandsIssued (gs\<lparr>gs_started := a, gs_entered := b, gs_deadline := c, gs_history := d\<rparr>) ph = commandsIssued gs ph"
    for a b c d ph by (simp add: commandsIssued_def)
  ultimately have "group_inv g (gs\<lparr>gs_started := a, gs_entered := b, gs_deadline := c, gs_history := d\<rparr>) = group_inv g gs"
    for a b c d by (simp add: group_inv_def flags_inv_def rank_def acks_inv_def issued_inv_def telemetry_inv_def)
  then show "times_only gs gs' \<Longrightarrow> ?thesis" by (auto simp: times_only_def)
qed

lemma repair_times_only:
  assumes "flags_inv gs"
  shows "times_only gs (repair_times o1 g now gs)"
proof -
  have fin: "\<not> (gs_completed gs \<and> gs_completed_at gs = None)" and fa: "gs_fence_attempted gs \<or> \<not> gs_fenced gs"
    using assms by (auto simp: flags_inv_def)
  have base: "gs\<lparr>gs_fence_attempted := gs_fence_attempted gs \<or> gs_fenced gs\<rparr> = gs"
    using fa by (cases gs) auto
  have refl: "times_only s s" for s
    unfolding times_only_def
    by (rule exI [of _ "gs_started s"], rule exI [of _ "gs_entered s"], rule exI [of _ "gs_deadline s"],
        rule exI [of _ "gs_history s"]) (cases s, simp)
  have upd: "times_only gs (s\<lparr>gs_started := a\<rparr>)" "times_only gs (s\<lparr>gs_entered := b\<rparr>)"
    "times_only gs (s\<lparr>gs_deadline := c\<rparr>)" "times_only gs (s\<lparr>gs_history := d\<rparr>)"
    if "times_only gs s" for s a b c d
    using that unfolding times_only_def by (cases gs; clarsimp; metis)+
  show ?thesis
    unfolding repair_times_def Let_def base using refl [of gs] upd fin
    by (cases "gs_completed gs"; cases "gs_completed_at gs"; simp split: if_split)
qed

lemma acked_validates:
  assumes "group_inv g gs"
  shows "check_acknowledgements gs = None"
proof -
  have inv: "spec_inv (gs_spec gs)" "acks_inv gs" "issued_inv gs" using assms by (auto simp: group_inv_def)
  have "mget_or (mget_or (gs_issued gs) ph []) p [] \<noteq> []"
    if p: "p \<in> set (mget_or (ts_participants (gs_spec gs)) ph [])" "commandsIssued gs ph" for p ph
  proof -
    have "mget_or (gs_issued gs) ph [] = expected_for (gs_spec gs) ph" using that(2) issued_iff [OF inv(3)] by blast
    moreover obtain r where "requirementFor (gs_spec gs) ph p = Some r" using p(1) participants_iff [OF inv(1)] by auto
    ultimately show ?thesis
      using expected_for_mget [OF inv(1), of ph p] commandID_nonempty by (simp add: mget_or_def)
  qed
  with inv(2) show ?thesis by (fastforce simp: check_acknowledgements_def acks_inv_def)
qed

lemma commands_validate:
  assumes "group_inv g gs" and commit: "gs_commit_published gs \<Longrightarrow> mget (ts_roles (gs_spec gs)) PhaseCommit \<noteq> None \<Longrightarrow>
    commandsIssued gs PhaseCommit"
  shows "check_commands gs = None"
proof -
  have inv: "spec_inv (gs_spec gs)" "issued_inv gs" using assms by (auto simp: group_inv_def)
  have issued: "commandsIssued gs ph" if "(ph, cmds) \<in> set (expectedCommandIDs (gs_spec gs))" "phasePublished gs ph" for ph cmds
  proof (cases "ph = PhaseCommit")
    case True
    then have "mget (ts_roles (gs_spec gs)) PhaseCommit \<noteq> None"
      using that(1) unfolding expectedCommandIDs_def by (auto simp: map_of_eq_None_iff intro: rev_image_eqI)
    with True that(2) commit show ?thesis by simp
  next
    case False
    with inv(2) that(2) show ?thesis by (simp add: issued_inv_def)
  qed
  have "maps_equal cmds (expected_for (gs_spec gs) ph) \<and> (phasePublished gs ph \<or> ph = gs_phase gs)"
    if "(ph, cmds) \<in> set (gs_issued gs)" "cmds \<noteq> []" for ph cmds
  proof -
    have "cmds = expected_for (gs_spec gs) ph \<and> (phasePublished gs ph \<or> ph = gs_phase gs)"
      using inv(2) that unfolding issued_inv_def by blast
    then show ?thesis by (simp add: maps_equal_refl)
  qed
  with issued show ?thesis by (fastforce simp: check_commands_def)
qed

lemma rank_iff:
  "0 < rank gs \<longleftrightarrow> gs_phase gs = PhasePause \<or> 1 < rank gs" "1 < rank gs \<longleftrightarrow> gs_phase gs = PhaseDrain \<or> 2 < rank gs"
  "2 < rank gs \<longleftrightarrow> gs_phase gs = PhaseCommit \<or> 3 < rank gs" "3 < rank gs \<longleftrightarrow> gs_phase gs = PhaseActivate"
  by (cases "gs_phase gs"; simp add: rank_def)+

lemma flags_validate:
  assumes "flags_inv gs"
  shows "check_publications gs = None" "check_fence_flags gs = None"
  unfolding check_publications_def check_fence_flags_def first_err_Cons_None err_if_None first_err.simps(1)
  using assms unfolding flags_inv_def rank_iff by metis+

lemma telemetry_validates:
  assumes "telemetry_inv gs"
  shows "check_telemetry gs = None"
proof -
  have ok: "sample_ok (gs_spec gs) (gs_messages gs) (gs_zero gs) key t" if "(key, t) \<in> set (gs_latest gs)" for key t
    using assms wf_map_mget [OF _ that] by (auto simp: telemetry_inv_def telemetry_ok_def)
  have "mget (gs_latest gs) key \<noteq> None" if "(key, z) \<in> set (gs_zero gs)" for key z
    using assms wf_map_mget [OF _ that] by (auto simp: telemetry_inv_def telemetry_ok_def)
  with ok show ?thesis
    by (fastforce simp: check_telemetry_def sample_ok_def split: option.splits)
qed

lemma group_inv_validates:
  assumes "group_inv g gs" and "gs_commit_published gs \<Longrightarrow> mget (ts_roles (gs_spec gs)) PhaseCommit \<noteq> None \<Longrightarrow>
    commandsIssued gs PhaseCommit"
  shows "validateGroupState g gs = None"
proof -
  have "flags_inv gs" "telemetry_inv gs" "ts_group (gs_spec gs) = g" using assms(1) by (auto simp: group_inv_def)
  with acked_validates [OF assms(1)] commands_validate [OF assms] flags_validate telemetry_validates show ?thesis
    by (simp add: validateGroupState_def)
qed

text \<open>What a restart keeps of a group.\<close>

definition same_progress :: "GroupState \<Rightarrow> GroupState \<Rightarrow> bool" where
  "same_progress gs gs' \<longleftrightarrow> gs_spec gs' = gs_spec gs \<and> gs_phase gs' = gs_phase gs \<and> gs_rolling gs' = gs_rolling gs \<and>
     gs_completed gs' = gs_completed gs \<and> gs_fence_attempted gs' = gs_fence_attempted gs \<and> gs_acks gs' = gs_acks gs \<and>
     (\<forall>l. evidence_inv l gs \<longrightarrow> evidence_inv l gs')"

definition loaded :: "Options \<Rightarrow> gotime \<Rightarrow> string \<Rightarrow> GroupState \<Rightarrow> GroupState" where
  "loaded o1 now g gs = repair_times o1 g now (initializeMessageState gs)"

lemma load_group_eq:
  assumes "group_inv g gs"
  shows "load_group o1 now g gs =
    (case validateGroupState g (loaded o1 now g gs) of Some e \<Rightarrow> Inl e | None \<Rightarrow> Inr (loaded o1 now g gs))"
proof -
  let ?s = "gs_spec gs"
  have spec: "spec_inv ?s" using assms by (simp add: group_inv_def)
  have roles: "normalizedRoleRequirements ?s = Inr (ts_roles ?s)" by (rule spec_inv_requirements(3) [OF spec])
  have same: "?s\<lparr>ts_roles := ts_roles ?s\<rparr> = ?s" "?s\<lparr>ts_participants := participant_table (ts_roles ?s)\<rparr> = ?s"
    using spec by (cases ?s, auto simp: spec_inv_def)+
  have init: "gs_spec (initializeMessageState gs) = ?s" by (simp add: initializeMessageState_def)
  have grace: "default_grace o1 g ?s = ?s" using spec by (simp add: default_grace_def spec_inv_def)
  have self: "gs\<lparr>gs_spec := ?s\<rparr> = gs" "(initializeMessageState gs)\<lparr>gs_spec := ?s\<rparr> = initializeMessageState gs"
    by (cases gs, simp) (cases gs, simp add: initializeMessageState_def)
  show ?thesis
    using spec
    by (simp add: load_group_def roles normalizedRequirements_def same self init grace loaded_def spec_inv_def Let_def
        split: option.split)
qed

lemma loaded_inv:
  assumes "group_inv g gs"
  shows "group_inv g (loaded o1 now g gs)" "same_progress gs (loaded o1 now g gs)"
proof -
  have init: "group_inv g (initializeMessageState gs)" by (rule initialize_inv [OF assms])
  then have times: "times_only (initializeMessageState gs) (loaded o1 now g gs)"
    by (simp add: loaded_def repair_times_only group_inv_def)
  with init show "group_inv g (loaded o1 now g gs)" by (simp add: times_only_inv)
  then obtain i a b c d where eq: "loaded o1 now g gs =
      gs\<lparr>gs_issued := i, gs_started := a, gs_entered := b, gs_deadline := c, gs_history := d\<rparr>"
    using times by (auto simp: times_only_def initializeMessageState_def)
  have "phasePublished (loaded o1 now g gs) ph = phasePublished gs ph" for ph by (cases ph) (simp_all add: eq)
  then have "evidence_inv l (loaded o1 now g gs) = evidence_inv l gs" for l
    unfolding evidence_inv_def by (simp add: eq fenceRequest_def)
  then show "same_progress gs (loaded o1 now g gs)" unfolding same_progress_def by (simp add: eq)
qed

lemma loaded_validates:
  assumes "group_inv g gs" and "mget (ts_roles (gs_spec gs)) PhaseCommit \<noteq> Some []"
  shows "validateGroupState g (loaded o1 now g gs) = None"
proof (rule group_inv_validates [OF loaded_inv(1) [OF assms(1)]])
  have inv: "spec_inv (gs_spec gs)" "issued_inv gs" "flags_inv (initializeMessageState gs)"
    using assms(1) initialize_inv [OF assms(1)] by (auto simp: group_inv_def)
  have init: "times_only (initializeMessageState gs) (loaded o1 now g gs)"
    by (simp add: loaded_def repair_times_only inv(3))
  have same: "gs_spec (loaded o1 now g gs) = gs_spec gs" "gs_commit_published (loaded o1 now g gs) = gs_commit_published gs"
    "gs_issued (loaded o1 now g gs) = gs_issued (initializeMessageState gs)"
    using init by (auto simp: times_only_def initializeMessageState_def)
  assume "gs_commit_published (loaded o1 now g gs)" "mget (ts_roles (gs_spec (loaded o1 now g gs))) PhaseCommit \<noteq> None"
  then have pub: "phasePublished gs PhaseCommit" and "mget (ts_roles (gs_spec gs)) PhaseCommit \<noteq> None" by (simp_all add: same)
  then obtain r rs where "mget (ts_roles (gs_spec gs)) PhaseCommit = Some (r # rs)"
    using assms(2) by (metis list.exhaust option.exhaust)
  then have "requirementFor (gs_spec gs) PhaseCommit (pr_participant r) = Some r"
    by (simp add: requirementFor_def mget_or_def)
  then have "expected_for (gs_spec gs) PhaseCommit \<noteq> []"
    using expected_for_mget [OF inv(1), of PhaseCommit "pr_participant r"] by auto
  with pub initialize_issued [OF inv(1,2), of PhaseCommit] show "commandsIssued (loaded o1 now g gs) PhaseCommit"
    by (simp add: commandsIssued_def same maps_equal_refl)
qed

section \<open>Loading the document\<close>

lemma load_groups_result:
  assumes "\<forall>(g, gs) \<in> set m. group_inv g gs" and "load_groups o1 now m = Inr m'"
  shows "map fst m' = map fst m \<and> (\<forall>g. mget m' g = map_option (loaded o1 now g) (mget m g))"
  using assms
proof (induction m arbitrary: m')
  case (Cons x m)
  obtain g gs where x: "x = (g, gs)" by fastforce
  have "load_group o1 now g gs = Inr gs' \<Longrightarrow> gs' = loaded o1 now g gs" for gs'
    using load_group_eq [of g gs o1 now] Cons.prems(1) by (auto simp: x split: option.splits)
  with Cons show ?case by (auto simp: x split: sum.splits)
qed simp

lemma load_groups_ok:
  assumes "\<forall>(g, gs) \<in> set m. group_inv g gs \<and> mget (ts_roles (gs_spec gs)) PhaseCommit \<noteq> Some []"
  shows "\<exists>m'. load_groups o1 now m = Inr m'"
  using assms
proof (induction m)
  case (Cons x m)
  obtain g gs where x: "x = (g, gs)" by fastforce
  have "load_group o1 now g gs = Inr (loaded o1 now g gs)"
    using load_group_eq [of g gs o1 now] loaded_validates [of g gs o1 now] Cons.prems by (simp add: x)
  with Cons show ?case by (auto simp: x)
qed simp

lemma state_inv_groups: "state_inv st \<Longrightarrow> \<forall>(g, gs) \<in> set (ps_groups st). group_inv g gs"
  by (auto simp: state_inv_def dest: wf_map_mget)

lemma Open_result:
  assumes "state_inv disk" and "Open env opts disk l = Inr w" and "storable disk"
  shows "c_disk w = disk" "state_inv (c_state w)" "state_le disk (c_state w)" "state_le (c_state w) disk"
    "\<exists>now. c_log w = EvNow now # l" "0 < op_grace (c_options w)" "state_evidence l disk \<Longrightarrow> state_evidence l (c_state w)"
proof -
  obtain now groups where g: "load_groups (withDefaults opts) now (ps_groups disk) = Inr groups"
    and w: "w = \<lparr>c_options = withDefaults opts, c_state = disk\<lparr>ps_groups := groups\<rparr>, c_disk = disk, c_log = EvNow now # l\<rparr>"
    using assms(2) by (auto simp: Open_def json_state_same [OF assms(3)] clock_def Let_def split: if_splits option.splits sum.splits)
  have keys: "map fst groups = map fst (ps_groups disk)"
    and get: "\<And>k. mget groups k = map_option (loaded (withDefaults opts) now k) (mget (ps_groups disk) k)"
    using load_groups_result [OF state_inv_groups [OF assms(1)] g] by auto
  show "c_disk w = disk" "\<exists>now. c_log w = EvNow now # l" by (simp_all add: w)
  show "0 < op_grace (c_options w)" by (simp add: w withDefaults_def or_default_def second_def)
  show "state_inv (c_state w)"
    using assms(1) keys loaded_inv(1) by (auto simp: w state_inv_def wf_map_def get)
  have gl: "group_le gs (loaded o1 n k gs) \<and> group_le (loaded o1 n k gs) gs" if "group_inv k gs" for o1 n k gs
    using loaded_inv(2) [OF that, of o1 n] that
    by (auto simp: same_progress_def group_le_def rank_def group_inv_def flags_inv_def allAcknowledged_def)
  have inv: "group_inv k gs" if "mget (ps_groups disk) k = Some gs" for k gs using that assms(1) by (simp add: state_inv_def)
  show "state_le disk (c_state w)" "state_le (c_state w) disk"
    using gl inv by (auto simp: state_le_def w get entry_le_def split: option.split)
  show "state_evidence l disk \<Longrightarrow> state_evidence l (c_state w)"
    using inv loaded_inv(2) by (auto simp: state_evidence_def w get same_progress_def)
qed

section \<open>Runs\<close>

definition empty_state :: PersistentState where
  "empty_state = \<lparr>ps_version = stateVersion, ps_membership = [], ps_groups = [], ps_history = [], ps_cleanup = []\<rparr>"

text \<open>
  A restart loads the document on disk, which must be \<open>storable\<close> for the group to come back as it was: its texts are valid UTF-8 and
  its sample times are in UTC.
\<close>

inductive run_step :: "Controller \<Rightarrow> Controller \<Rightarrow> bool" where
  begin_spec: "wf_spec spec \<Longrightarrow> run_step w (snd (Begin env spec w))"
| begin_snapshot: "run_step w (snd (BeginSnapshot env m required w))"
| ack: "run_step w (snd (Acknowledge env a w))"
| sample: "run_step w (snd (Observe env t w))"
| rollback: "run_step w (snd (RequestRollback env g p w))"
| reconcile: "run_step w (snd (Reconcile env g w))"
| reconcile_all: "run_step w (snd (ReconcileAll env w))"
| save_membership: "run_step w (snd (SaveMembership env m w))"
| restart: "storable (c_disk w) \<Longrightarrow> Open env opts (c_disk w) (c_log w) = Inr w' \<Longrightarrow> run_step w w'"

inductive reachable :: "Controller \<Rightarrow> bool" where
  opened: "Open env opts empty_state [] = Inr w \<Longrightarrow> reachable w"
| stepped: "reachable w \<Longrightarrow> run_step w w' \<Longrightarrow> reachable w'"

lemma run_step_cases:
  assumes "run_step w w'"
  shows "controller_steps w w' \<or> storable (c_disk w) \<and> (\<exists>env opts. Open env opts (c_disk w) (c_log w) = Inr w')"
  using assms
  by cases (auto simp: Begin_steps BeginSnapshot_steps Acknowledge_steps Observe_steps RequestRollback_steps
      Reconcile_steps ReconcileAll_steps SaveMembership_steps)

lemma run_step_inv:
  assumes "run_step w w'" and "controller_inv w"
  shows "controller_inv w' \<and> state_le (c_state w) (c_state w')"
  using run_step_cases [OF assms(1)]
proof
  assume "controller_steps w w'"
  with controller_steps_inv assms(2) show ?thesis by blast
next
  assume "storable (c_disk w) \<and> (\<exists>env opts. Open env opts (c_disk w) (c_log w) = Inr w')"
  then obtain env opts where o: "storable (c_disk w)" "Open env opts (c_disk w) (c_log w) = Inr w'" by blast
  have disk: "state_inv (c_disk w)" "state_le (c_state w) (c_disk w)" using assms(2) by (auto simp: controller_inv_def)
  note r = Open_result [OF disk(1) o(2,1)]
  have le: "state_le (c_state w) (c_state w')" using state_le_trans [OF disk(2) r(3)] .
  have "log_inv (c_log w') (c_state w')"
    using assms(2) r(5) log_inv_le [OF _ le] by (auto simp: controller_inv_def log_inv_call)
  moreover have sub: "set (c_log w) \<subseteq> set (c_log w')" using r(5) by auto
  moreover have "state_evidence (c_log w') (c_state w')" "state_evidence (c_log w') (c_disk w)"
    using assms(2) r(7) by (auto simp: controller_inv_def intro: state_evidence_mono [OF _ sub])
  ultimately show ?thesis using r le assms(2) by (simp add: controller_inv_def)
qed

lemma reachable_inv: "reachable w \<Longrightarrow> controller_inv w"
proof (induction rule: reachable.induct)
  case (opened env opts w)
  have e: "state_inv empty_state" "ps_version empty_state = stateVersion" "storable empty_state" "state_evidence l empty_state" for l
    by (simp_all add: state_inv_def empty_state_def state_evidence_def storable_def utf8_map_def)
  have "log_inv [] (c_state w)" by (simp add: log_inv_def consistent_def restored_def)
  moreover note Open_result [OF e(1) opened e(3)]
  ultimately show ?case
    using e state_evidence_mono [of "[]" "c_state w" "c_log w"] by (auto simp: controller_inv_def log_inv_call)
qed (use run_step_inv in blast)

end
