(* ===== verification/Controller_Properties.thy ===== *)
theory Controller_Properties
  imports Controller_Runs
begin

text \<open>
  The properties of controller runs, stated over the operations of \<^verbatim>\<open>controller/controller.go\<close>, and the run
  that their witnesses use: a transition is begun and its PREPARE snapshot published.
\<close>

section \<open>A cooperative environment and a short run\<close>

definition good_env :: "gotime \<Rightarrow> environment" where
  "good_env now =
     \<lparr>env_now = (\<lambda>l. now), env_save = (\<lambda>l. SaveOk), env_fence = (\<lambda>l q. True), env_unfence = (\<lambda>l q. True),
      env_verify_fence = (\<lambda>l q. Some \<lparr>fs_fenced = True, fs_observed = now\<rparr>), env_enable_ingress = (\<lambda>l q. True),
      env_verify_ingress = (\<lambda>l q. Some \<lparr>is_enabled = True, is_observed = now\<rparr>), env_publish = (\<lambda>l u. True),
      env_foreign = (\<lambda>l. []), env_zone = (\<lambda>p. UTC)\<rparr>"

lemma good_env_simps [simp]:
  "env_now (good_env n) l = n" "env_save (good_env n) l = SaveOk" "env_fence (good_env n) l q" "env_unfence (good_env n) l q"
  "env_verify_fence (good_env n) l q = Some \<lparr>fs_fenced = True, fs_observed = n\<rparr>" "env_enable_ingress (good_env n) l q"
  "env_verify_ingress (good_env n) l q = Some \<lparr>is_enabled = True, is_observed = n\<rparr>" "env_publish (good_env n) l u"
  "env_foreign (good_env n) l = []"
  by (simp_all add: good_env_def)

lemma good_interleave [simp]: "interleave (good_env n) w = w\<lparr>c_log := EvInterleave # c_log w\<rparr>"
  by (simp add: interleave_def)

definition sample_options :: Options where
  "sample_options = \<lparr>op_telemetry = 0, op_readiness = 0, op_fence = 0, op_grace = 5, op_grace_by = [], op_timeout = 0,
     op_timeout_by = [], op_telemetry_by = [], op_history = 0\<rparr>"

definition sample_new :: Controller where
  "sample_new = \<lparr>c_options = withDefaults sample_options, c_state = empty_state, c_disk = empty_state, c_log = [EvNow 100]\<rparr>"

lemma sample_new_open: "Open (good_env 100) sample_options empty_state [] = Inr sample_new"
  by (simp add: Open_def json_state_def json_map_def empty_state_def check_membership_def clock_def Let_def sample_new_def)

definition p1_roles :: "(Phase, ParticipantRequirement list) gomap" where
  "p1_roles = map (\<lambda>ph. (ph, [untyped ''p1''])) [PhasePrepare, PhasePause, PhaseDrain, PhaseActivate]"

definition begun_spec :: TransitionSpec where
  "begun_spec = sample_spec\<lparr>ts_drain_grace := 5, ts_roles := p1_roles, ts_participants := participant_table p1_roles\<rparr>"

lemma normalized_sample: "normalize_spec (default_grace (withDefaults sample_options) ''events-a'' sample_spec) = Inr begun_spec"
  by (simp add: normalize_spec_def default_grace_def sample_options_def withDefaults_def or_default_def configured_grace_def
   normalizedRoleRequirements_def requirement_phases_def requirement_table_def legacy_requirements_def normalizedRequirements_def
   begun_spec_def sample_spec_def sort_requirements_def p1_roles_def participant_table_def untyped_def mget_or_def Let_def)


lemma roles_grace: "normalizedRoleRequirements (s\<lparr>ts_drain_grace := d\<rparr>) = normalizedRoleRequirements s"
proof -
  have "requirement_phases (s\<lparr>ts_drain_grace := d\<rparr>) = requirement_phases s"
    "requirement_table (s\<lparr>ts_drain_grace := d\<rparr>) = requirement_table s"
    by (simp_all add: requirement_phases_def requirement_table_def legacy_requirements_def)
  then show ?thesis by (simp only: normalizedRoleRequirements_def)
qed

lemma spec_Validate_grace: "spec_Validate (s\<lparr>ts_drain_grace := d\<rparr>) = spec_Validate s"
proof -
  have "controlSnapshot (s\<lparr>ts_drain_grace := d\<rparr>) PhasePrepare False = controlSnapshot s PhasePrepare False"
    by (simp add: snapshot_defs)
  then show ?thesis by (simp add: spec_Validate_def roles_grace)
qed

lemma sample_spec_group [simp]: "ts_group begun_spec = ''events-a''" "ts_group sample_spec = ''events-a''"
  by (simp_all add: begun_spec_def sample_spec_def)

definition sample_group :: GroupState where
  "sample_group = new_group (withDefaults sample_options) begun_spec 100"

definition sample_begun :: Controller where
  "sample_begun = sample_new
     \<lparr>c_state := empty_state\<lparr>ps_groups := [(''events-a'', sample_group)]\<rparr>,
      c_disk := empty_state\<lparr>ps_groups := [(''events-a'', sample_group)]\<rparr>,
      c_log := [EvSave SaveOk, EvInterleave, EvNow 100, EvNow 100]\<rparr>"

lemma sample_begun_eq: "snd (Begin (good_env 100) sample_spec sample_new) = sample_begun"
proof -
  have v: "spec_Validate (default_grace (withDefaults sample_options) ''events-a'' sample_spec) = None"
    by (simp add: default_grace_def spec_Validate_grace sample_spec_valid)
  show ?thesis
    by (simp add: Begin_def v normalized_sample sample_new_def groupState_def empty_state_def create_group_def read_clock_def
        updateState_def pure_update_def put_group_def mput_def Let_def sample_begun_def sample_group_def)
qed

definition sample_published :: Controller where
  "sample_published = snd (Reconcile (good_env 100) ''events-a'' sample_begun)"

lemma prepare_commands:
  "expected_for begun_spec PhasePrepare = [(''p1'', commandID begun_spec PhasePrepare (untyped ''p1''))]"
  by (simp add: expected_for_def expectedCommandIDs_def begun_spec_def p1_roles_def phase_commands_def mget_or_def
      untyped_def mput_def)

lemma begun_prepare: "controlSnapshot begun_spec PhasePrepare False = sample_prepare"
  using sample_spec_prepare by (simp add: snapshot_defs begun_spec_def)

lemmas reconcile_eval = Reconcile_def sample_begun_def groupState_def sample_group_def new_group_def sample_new_def
  empty_state_def phaseTimeout_def IsZero_def time_zero_def reconcile_phase_def reconcilePrepare_def publish_phase_def
  ensureCommandIntent_def commandsIssued_def maps_equal_def prepare_commands mget_or_def updateGroup_def
  updateGroupWith_def updateState_def group_update_def finish_group_def put_group_def recordIssuedCommands_def mput_def
  publish_def SaveMembership_def pure_update_def membership_update_def begun_prepare sample_prepare_valid changed_def
  read_clock_def Let_def controlUpdate_def withDefaults_def sample_options_def or_default_def second_def

definition sample_update :: ControlUpdate where
  "sample_update = controlUpdate (recordIssuedCommands PhasePrepare sample_group) PhasePrepare False"

lemma sample_published_facts:
  "c_log sample_published = [EvSave SaveOk, EvInterleave, EvPublish begun_spec sample_update True, EvInterleave,
     EvSave SaveOk, EvInterleave, EvSave SaveOk, EvInterleave, EvNow 100] @ c_log sample_begun"
  "\<exists>gs. groupState ''events-a'' sample_published = Some gs \<and> gs_spec gs = begun_spec \<and> gs_phase gs = PhasePrepare \<and>
     gs_prepare_published gs"
  by (simp_all add: sample_published_def sample_update_def reconcile_eval)

lemma sample_new_reachable: "reachable sample_new"
  by (rule reachable.opened [OF sample_new_open])

lemma sample_begin_step: "run_step sample_new sample_begun"
  unfolding sample_begun_eq [symmetric]
  by (rule run_step.begin_spec) (simp add: wf_spec_def wf_map_def sample_spec_def)

lemma sample_publish_step: "run_step sample_begun sample_published"
  unfolding sample_published_def by (rule run_step.reconcile)

lemma sample_reachable: "reachable sample_begun" "reachable sample_published"
  using sample_new_reachable sample_begin_step sample_publish_step by (blast intro: reachable.stepped)+

section \<open>Properties of every run\<close>

text \<open>
  C13. A group only moves forward, through crashes, failed saves and restarts from a document of UTF-8 text and UTC sample times: from any reachable
  controller, whatever operations and such restarts follow, the group is on a transition of a strictly higher
  revision, or on the same specification at the same or a later phase, still rolling back if it was, never
  rolling back once it is in COMMIT or ACTIVATE, and still complete if it was.
\<close>

theorem controller_moves_forward:
  assumes "reachable w" and "run_step\<^sup>*\<^sup>* w w'" and "groupState g w = Some gs"
  shows "\<exists>gs'. groupState g w' = Some gs' \<and>
    (ts_revision (gs_spec gs) < ts_revision (gs_spec gs') \<or>
     gs_spec gs' = gs_spec gs \<and> phase_offset (gs_phase gs) \<le> phase_offset (gs_phase gs') \<and>
     (gs_rolling gs \<longrightarrow> gs_rolling gs') \<and> (gs_phase gs \<in> {PhaseCommit, PhaseActivate} \<longrightarrow> \<not> gs_rolling gs') \<and>
     (gs_completed gs \<longrightarrow> gs_completed gs'))"
proof -
  have "controller_inv w' \<and> state_le (c_state w) (c_state w')"
    using assms(2)
  proof (induction rule: rtranclp_induct)
    case base
    from reachable_inv [OF assms(1)] show ?case by (simp add: controller_inv_def state_le_refl)
  next
    case (step v v')
    with run_step_inv [OF step(2)] show ?case by (blast intro: state_le_trans)
  qed
  then have "entry_le group_le (groupState g w) (groupState g w')" by (auto simp: state_le_def groupState_def)
  then obtain gs' where "groupState g w' = Some gs'" "group_le gs gs'"
    using assms(3) by (auto simp: entry_le_def split: option.splits)
  then show ?thesis by (intro exI [of _ gs']) (auto simp: group_le_def rank_def)
qed

theorem controller_moves_forward_witness:
  "reachable sample_begun \<and> groupState ''events-a'' sample_begun = Some sample_group \<and>
   (\<exists>gs'. groupState ''events-a'' sample_published = Some gs' \<and>
      phase_offset (gs_phase sample_group) \<le> phase_offset (gs_phase gs'))"
proof -
  have "groupState ''events-a'' sample_begun = Some sample_group"
    by (simp add: sample_begun_def groupState_def sample_new_def)
  moreover from this have "\<exists>gs'. groupState ''events-a'' sample_published = Some gs' \<and>
      phase_offset (gs_phase sample_group) \<le> phase_offset (gs_phase gs')"
    using controller_moves_forward [OF sample_reachable(1) r_into_rtranclp [of run_step, OF sample_publish_step]]
      sample_published_facts(2) by (fastforce simp: sample_group_def new_group_def)
  ultimately show ?thesis using sample_reachable(1) by blast
qed

text \<open>
  C14. A controller can always be restarted: at any point of any run, after any sequence of failed or
  half-successful saves, \<open>Open\<close> accepts the document on disk and resumes every group on the same
  specification, in the same phase and direction. The conditions are that the document survives its encoding as JSON (all its texts are
  valid UTF-8 and the times of its samples are in UTC) and that no specification lists the COMMIT phase with an empty participant list.
\<close>

theorem controller_restarts:
  assumes "reachable w" and "storable (c_disk w)"
    and "\<forall>g gs. mget (ps_groups (c_disk w)) g = Some gs \<longrightarrow> mget (ts_roles (gs_spec gs)) PhaseCommit \<noteq> Some []"
  shows "\<exists>w'. Open env opts (c_disk w) (c_log w) = Inr w' \<and> c_disk w' = c_disk w \<and>
    (\<forall>g. rel_option same_progress (mget (ps_groups (c_disk w)) g) (groupState g w'))"
proof -
  have inv: "state_inv (c_disk w)" "ps_version (c_disk w) = stateVersion"
    using reachable_inv [OF assms(1)] by (auto simp: controller_inv_def)
  let ?o = "withDefaults opts" and ?now = "env_now env (c_log w)"
  have groups: "\<forall>(g, gs) \<in> set (ps_groups (c_disk w)). group_inv g gs \<and> mget (ts_roles (gs_spec gs)) PhaseCommit \<noteq> Some []"
    using state_inv_groups [OF inv(1)] assms(3) inv(1) by (fastforce simp: state_inv_def dest: wf_map_mget)
  obtain m where m: "load_groups ?o ?now (ps_groups (c_disk w)) = Inr m" using load_groups_ok [OF groups] by blast
  have mem: "check_membership (ps_membership (c_disk w)) = None"
    using inv(1) by (fastforce simp: check_membership_def state_inv_def dest: wf_map_mget)
  have get: "mget m g = map_option (loaded ?o ?now g) (mget (ps_groups (c_disk w)) g)" for g
    using load_groups_result [OF state_inv_groups [OF inv(1)] m] by blast
  have "rel_option same_progress (mget (ps_groups (c_disk w)) g) (mget m g)" for g
    using inv(1) loaded_inv(2) by (auto simp: get state_inv_def rel_option_iff split: option.split)
  with inv(2) m mem show ?thesis by (simp add: Open_def json_state_same [OF assms(2)] clock_def groupState_def Let_def)
qed

lemma sample_storable: "storable (c_disk sample_published)"
  by (simp add: sample_published_def reconcile_eval storable_def utf8_map_def, intro conjI; code_simp)

theorem controller_restarts_witness:
  "reachable sample_published \<and>
   (\<exists>w'. Open (good_env 200) sample_options (c_disk sample_published) (c_log sample_published) = Inr w')"
proof -
  have "\<forall>g gs. mget (ps_groups (c_disk sample_published)) g = Some gs \<longrightarrow> mget (ts_roles (gs_spec gs)) PhaseCommit \<noteq> Some []"
    by (simp add: sample_published_def reconcile_eval) (simp add: begun_spec_def p1_roles_def)
  with controller_restarts [OF sample_reachable(2) sample_storable, of "good_env 200" sample_options] sample_reachable(2) show ?thesis
    by blast
qed

text \<open>
  C15. Nothing is published before it is durable: every snapshot that a run, with restarts from storable documents, has sent to the publisher is the
  valid snapshot of its specification and phase, and the document on disk holds the encoding of that snapshot, or a snapshot of a
  higher revision, for its group.
\<close>

theorem publications_durable:
  assumes "reachable w" and "EvPublish s u ok \<in> set (c_log w)"
  shows "Validate (cu_snapshot u) = None \<and> cu_snapshot u = controlSnapshot s (cu_phase u) (cu_rollback u) \<and>
    (\<exists>m. mget (ps_membership (c_disk w)) (ts_group s) = Some m \<and>
       (membershipSnapshotsEqual m (cu_snapshot u) \<or> ms_revision (cu_snapshot u) < ms_revision m))"
proof -
  have inv: "controller_inv w" by (rule reachable_inv [OF assms(1)])
  then have "log_inv (c_log w) (c_state w)" "state_le (c_state w) (c_disk w)" by (auto simp: controller_inv_def)
  then have "well_published s u" "publication_known s u (c_disk w)"
    using assms(2) publication_known_le unfolding log_inv_def by blast+
  then show ?thesis
    by (auto simp: well_published_def publication_known_def spec_inv_def intro: controlSnapshot_validates)
qed

theorem publications_durable_witness:
  "reachable sample_published \<and> EvPublish begun_spec sample_update True \<in> set (c_log sample_published) \<and>
   Validate (cu_snapshot sample_update) = None"
proof -
  have "EvPublish begun_spec sample_update True \<in> set (c_log sample_published)" by (simp add: sample_published_facts(1))
  with publications_durable [OF sample_reachable(2) this] sample_reachable(2) show ?thesis by blast
qed

text \<open>
  C16. The flags of a group tell the truth about the past: in every controller a run with restarts from storable documents reaches, a phase marked
  published, and every phase before the current one, was successfully published with this specification;
  from DRAIN on a successful fence call was made for the source brokers and the source epoch; and a completed transition was published as
  ACTIVE, or as rolled back if it was rolling back.
\<close>

theorem group_flags_sound:
  assumes "reachable w" and "groupState g w = Some gs"
  shows "(\<forall>ph. phasePublished gs ph \<or> validRequirementPhase ph \<and> phase_offset ph < phase_offset (gs_phase gs) \<longrightarrow>
            was_published (c_log w) (gs_spec gs) ph False) \<and>
    (1 < phase_offset (gs_phase gs) \<longrightarrow> (\<exists>q. EvFence (gs_spec gs) q True \<in> set (c_log w) \<and> fr_epoch q = ts_from (gs_spec gs) \<and> fr_brokers q = ts_current (gs_spec gs) \<and>
       fr_group q = ts_group (gs_spec gs) \<and> fr_transition q = ts_id (gs_spec gs) \<and> fr_operation q = operationID (gs_spec gs) ''fence'' False)) \<and>
    (gs_completed gs \<longrightarrow> was_published (c_log w) (gs_spec gs) PhaseActivate (gs_rolling gs))"
proof -
  let ?q = "fenceRequest gs ''fence''"
  have inv: "state_inv (c_state w)" "state_evidence (c_log w) (c_state w)"
    using reachable_inv [OF assms(1)] by (auto simp: controller_inv_def)
  then have ev: "evidence_inv (c_log w) gs" and flags: "flags_inv gs"
    using assms(2) by (auto simp: state_evidence_def state_inv_def groupState_def group_inv_def)
  have top: "rank gs \<le> 4" by (cases "gs_phase gs") (simp_all add: rank_def)
  have before: "phasePublished gs ph" if "validRequirementPhase ph" "phase_offset ph < rank gs" for ph
    using that flags top by (cases ph) (auto simp: flags_inv_def)
  have "\<forall>ph. phasePublished gs ph \<or> validRequirementPhase ph \<and> phase_offset ph < rank gs \<longrightarrow>
      was_published (c_log w) (gs_spec gs) ph False"
    using ev before unfolding evidence_inv_def by blast
  moreover have "EvFence (gs_spec gs) (fenceRequest gs ''fence'') True \<in> set (c_log w)" if "1 < rank gs"
    using that ev flags unfolding evidence_inv_def flags_inv_def by blast
  moreover have "was_published (c_log w) (gs_spec gs) PhaseActivate (gs_rolling gs)" if done_: "gs_completed gs"
  proof (cases "gs_rolling gs")
    case True
    with done_ flags have "gs_rollback_published gs" unfolding flags_inv_def by presburger
    with ev True show ?thesis unfolding evidence_inv_def by simp
  next
    case False
    with done_ flags have "gs_activate_published gs" unfolding flags_inv_def by presburger
    then have "phasePublished gs PhaseActivate" by simp
    with ev have "was_published (c_log w) (gs_spec gs) PhaseActivate False" unfolding evidence_inv_def by blast
    with False show ?thesis by simp
  qed
  moreover have "fr_epoch ?q = ts_from (gs_spec gs)" "fr_brokers ?q = ts_current (gs_spec gs)" "fr_group ?q = ts_group (gs_spec gs)"
    "fr_transition ?q = ts_id (gs_spec gs)" "fr_operation ?q = operationID (gs_spec gs) ''fence'' False"
    by (simp_all add: fenceRequest_def)
  ultimately show ?thesis unfolding rank_def by blast
qed

theorem group_flags_sound_witness:
  "reachable sample_published \<and> (\<exists>gs. groupState ''events-a'' sample_published = Some gs \<and>
     was_published (c_log sample_published) (gs_spec gs) PhasePrepare False)"
proof -
  obtain gs where gs: "groupState ''events-a'' sample_published = Some gs" "gs_prepare_published gs"
    using sample_published_facts(2) by blast
  then have "phasePublished gs PhasePrepare" by simp
  with group_flags_sound [OF sample_reachable(2) gs(1)] gs(1) sample_reachable(2) show ?thesis by blast
qed

end
