(* ===== verification/Outbox_Data.thy ===== *)
theory Outbox_Data
  imports Go_Json "HOL-Library.Product_Lexorder"
begin

text \<open>
  The data of the durable outbox (\<^verbatim>\<open>outbox/outbox.go\<close>): records and their delivery states, the updates a
  caller submits, the checks of a record, the size that counts against the capacity, and the database. The database
  is what its buckets hold: the value of a record key is the record that \<open>json.Unmarshal\<close> reads from the bytes
  stored there (\<open>None\<close> for bytes that are no record), the other values are bytes. A cursor visits the keys of a
  bucket in byte order, and a transaction of bbolt takes effect as a whole when it commits and not at all
  otherwise. A property map lists its entries in key order, as it is marshalled.
\<close>

section \<open>Records\<close>

datatype State =
    StateUnset
  | StateUnassigned
  | StateReady
  | StateInEventsA
  | StateAckUncertain
  | StateOther string

datatype outbox_error =
    ErrFull
  | ErrDuplicate
  | ErrNotFound
  | ErrInvalidRecord
  | ErrInvalidState
  | ErrClosed
  | ErrLegacyFormat
  | ErrSequenceExhausted
  | ErrEncode
  | ErrPersist
  | ErrOpen string
  | ErrLoad string

record Record =
  r_event :: string
  r_payload :: string
  r_topic :: string
  r_properties :: "(string, string) gomap"
  r_key :: string
  r_group :: string
  r_hash :: string
  r_contract :: string
  r_library :: string
  r_algorithm :: string
  r_endpoint :: string
  r_epoch :: u64
  r_broker :: string
  r_destination :: string
  r_state :: State
  r_attempts :: u64
  r_error :: string
  r_sequence :: u64
  r_accepted :: gotime
  r_updated :: gotime
  r_size :: int

record Assignment =
  as_epoch :: u64
  as_broker :: string
  as_endpoint :: string
  as_destination :: string

datatype CompletionOutcome =
    CompletionAcknowledged
  | CompletionRejected
  | CompletionAckUncertain
  | CompletionInvalid nat

record Completion =
  cm_event :: string
  cm_attempts :: u64
  cm_epoch :: u64
  cm_outcome :: CompletionOutcome
  cm_reason :: string

record Limits =
  max_messages :: int
  max_bytes :: int

definition defaultMaxMessages :: int where
  "defaultMaxMessages = 10000"

definition defaultMaxBytes :: int where
  "defaultMaxBytes = 67108864"

section \<open>Size and validity\<close>

definition json_properties :: "(string, string) gomap \<Rightarrow> string" where
  "json_properties m = json_object (map (\<lambda>(k, v). (k, json_string v)) m)"

definition accepted_content :: "Record \<Rightarrow> string" where
  "accepted_content r = json_object
     ([(''event_id'', json_string (r_event r))] @
      (if r_payload r = [] then [] else [(''payload'', json_bytes (r_payload r))]) @
      [(''topic'', json_string (r_topic r))] @
      (if r_properties r = [] then [] else [(''properties'', json_properties (r_properties r))]) @
      [(''ordering_key'', json_string (r_key r)), (''group'', json_string (r_group r)), (''hash'', json_string (r_hash r)),
       (''hash_contract'', json_string (r_contract r)), (''library_version'', json_string (r_library r))])"

definition acceptedSize :: "Record \<Rightarrow> int" where
  "acceptedSize r = int (length (accepted_content r))"

definition missing_identity :: "Record \<Rightarrow> bool" where
  "missing_identity r \<longleftrightarrow> r_event r = [] \<or> r_topic r = [] \<or> r_key r = [] \<or> r_group r = [] \<or> r_hash r = [] \<or>
     r_contract r = [] \<or> r_library r = []"

definition validateNewRecord :: "Record \<Rightarrow> outbox_error option" where
  "validateNewRecord r = first_err
     [err_if (missing_identity r) ErrInvalidRecord,
      err_if (r_state r \<noteq> StateUnset \<and> r_state r \<noteq> StateUnassigned \<and> r_state r \<noteq> StateReady) ErrInvalidRecord,
      err_if (r_state r = StateReady \<and> (r_epoch r = 0 \<or> r_broker r = [] \<or> r_destination r = [])) ErrInvalidRecord,
      err_if (r_state r \<noteq> StateReady \<and> (r_epoch r \<noteq> 0 \<or> r_broker r \<noteq> [] \<or> r_destination r \<noteq> [])) ErrInvalidRecord]"

definition stored_state_ok :: "Record \<Rightarrow> bool" where
  "stored_state_ok r =
     (case r_state r of
        StateUnassigned \<Rightarrow> r_epoch r = 0 \<and> r_broker r = [] \<and> r_destination r = []
      | StateReady \<Rightarrow> r_epoch r \<noteq> 0 \<and> r_broker r \<noteq> [] \<and> r_destination r \<noteq> []
      | StateInEventsA \<Rightarrow> r_epoch r \<noteq> 0 \<and> r_broker r \<noteq> [] \<and> r_destination r \<noteq> []
      | StateAckUncertain \<Rightarrow> r_epoch r \<noteq> 0 \<and> r_broker r \<noteq> [] \<and> r_destination r \<noteq> []
      | _ \<Rightarrow> False)"

definition validateStoredRecord :: "Record \<Rightarrow> outbox_error option" where
  "validateStoredRecord r = first_err
     [err_if (missing_identity r \<or> r_sequence r = 0 \<or> r_size r \<le> 0 \<or> r_size r \<noteq> acceptedSize r) ErrInvalidRecord,
      err_if (\<not> stored_state_ok r) ErrInvalidRecord]"

definition effectiveOrderingKey :: "Record \<Rightarrow> string" where
  "effectiveOrderingKey r = (if r_key r \<noteq> [] then r_key r else r_group r @ [CHR 0x00] @ r_hash r)"

fun validateUniqueEventIDs :: "string list \<Rightarrow> string list \<Rightarrow> outbox_error option" where
  "validateUniqueEventIDs seen [] = None"
| "validateUniqueEventIDs seen (e # es) =
     (if e = [] \<or> e \<in> set seen then Some ErrInvalidRecord else validateUniqueEventIDs (e # seen) es)"

section \<open>Marshalling\<close>

definition repair_properties :: "(string, string) gomap \<Rightarrow> (string, string) gomap" where
  "repair_properties m = fold (\<lambda>(k, v) acc. mput (json_repair k) (json_repair v) acc) m []"

definition repair_state :: "State \<Rightarrow> State" where
  "repair_state st = (case st of StateOther s \<Rightarrow> StateOther (json_repair s) | _ \<Rightarrow> st)"

definition unmarshalled :: "Record \<Rightarrow> Record" where
  "unmarshalled r = r
     \<lparr>r_event := json_repair (r_event r), r_topic := json_repair (r_topic r),
      r_properties := repair_properties (r_properties r), r_key := json_repair (r_key r),
      r_group := json_repair (r_group r), r_hash := json_repair (r_hash r), r_contract := json_repair (r_contract r),
      r_library := json_repair (r_library r), r_algorithm := json_repair (r_algorithm r),
      r_endpoint := json_repair (r_endpoint r), r_broker := json_repair (r_broker r),
      r_destination := json_repair (r_destination r), r_state := repair_state (r_state r),
      r_error := json_repair (r_error r)\<rparr>"

text \<open>\<open>json.Marshal\<close> of a record fails only on its times; otherwise, what reading the bytes gives.\<close>

definition marshal :: "Record \<Rightarrow> Record option" where
  "marshal r = (if json_time_ok (r_accepted r) \<and> json_time_ok (r_updated r) then Some (unmarshalled r) else None)"

definition text_ok :: "Record \<Rightarrow> bool" where
  "text_ok r \<longleftrightarrow> list_all utf8_valid [r_event r, r_topic r, r_key r, r_group r, r_hash r, r_contract r, r_library r,
       r_algorithm r, r_endpoint r, r_broker r, r_destination r, r_error r] \<and>
     list_all (\<lambda>(k, v). utf8_valid k \<and> utf8_valid v) (r_properties r) \<and> wf_map (r_properties r) \<and>
     (\<forall>s. r_state r \<noteq> StateOther s)"

lemma repair_properties_valid:
  assumes "list_all (\<lambda>(k, v). utf8_valid k \<and> utf8_valid v) m" and "wf_map m"
  shows "repair_properties m = m"
proof -
  have "fold (\<lambda>(k, v) acc. mput (json_repair k) (json_repair v) acc) m acc = acc @ m"
    if "list_all (\<lambda>(k, v). utf8_valid k \<and> utf8_valid v) m" "distinct (map fst acc @ map fst m)" for m acc
    using that
  proof (induction m arbitrary: acc)
    case (Cons kv m)
    obtain k v where kv: "kv = (k, v)" by (cases kv)
    have "k \<notin> fst ` set acc" using Cons.prems(2) kv by auto
    then have "mput k v acc = acc @ [(k, v)]" unfolding mput_def by (induction acc) auto
    with Cons kv show ?case by (simp flip: append_assoc)
  qed simp
  from this [of m "[]"] assms show ?thesis by (simp add: repair_properties_def wf_map_def)
qed

lemma unmarshalled_text [simp]: "text_ok r \<Longrightarrow> unmarshalled r = r"
  by (cases "r_state r") (auto simp: unmarshalled_def text_ok_def repair_properties_valid repair_state_def)

section \<open>The database\<close>

record database =
  db_metadata :: "(string, string) gomap"
  db_records :: "(string, Record option) gomap"
  db_events :: "(string, string) gomap"

definition databaseFormatVersion :: u64 where
  "databaseFormatVersion = 1"

definition formatKey :: string where
  "formatKey = ''format_version''"

definition nextSequenceKey :: string where
  "nextSequenceKey = ''next_sequence''"

definition totalBytesKey :: string where
  "totalBytesKey = ''total_bytes''"

definition readUint64 :: "(string, string) gomap \<Rightarrow> string \<Rightarrow> outbox_error + u64" where
  "readUint64 m k =
     (case mget m k of
        None \<Rightarrow> Inl (ErrLoad ''metadata'')
      | Some v \<Rightarrow> if length v \<noteq> 8 then Inl (ErrLoad ''metadata'') else Inr (bigEndianUint64 v))"

definition put_metadata :: "string \<Rightarrow> u64 \<Rightarrow> database \<Rightarrow> database" where
  "put_metadata k v db = db\<lparr>db_metadata := mput k (uint64Bytes v) (db_metadata db)\<rparr>"

definition put_record :: "u64 \<Rightarrow> Record \<Rightarrow> database \<Rightarrow> database" where
  "put_record sequence stored db = db\<lparr>db_records := mput (uint64Bytes sequence) (Some stored) (db_records db)\<rparr>"

definition put_event :: "string \<Rightarrow> u64 \<Rightarrow> database \<Rightarrow> database" where
  "put_event e sequence db = db\<lparr>db_events := mput e (uint64Bytes sequence) (db_events db)\<rparr>"

definition delete_record :: "Record \<Rightarrow> database \<Rightarrow> database" where
  "delete_record r db = db\<lparr>db_records := mdel (uint64Bytes (r_sequence r)) (db_records db), db_events := mdel (r_event r) (db_events db)\<rparr>"

definition cursor :: "('k::linorder, 'v) gomap \<Rightarrow> ('k \<times> 'v) list" where
  "cursor m = sort_key fst m"

definition new_database :: database where
  "new_database =
     put_metadata totalBytesKey 0 (put_metadata nextSequenceKey 1 (put_metadata formatKey databaseFormatVersion
       \<lparr>db_metadata = [], db_records = [], db_events = []\<rparr>))"

lemma readUint64_put [simp]:
  "readUint64 (mput k (uint64Bytes v) m) k' = (if k' = k then Inr v else readUint64 m k')"
  by (simp add: readUint64_def)

lemma keys_distinct [simp]: "formatKey \<noteq> nextSequenceKey" "nextSequenceKey \<noteq> formatKey" "formatKey \<noteq> totalBytesKey"
  "totalBytesKey \<noteq> formatKey" "nextSequenceKey \<noteq> totalBytesKey" "totalBytesKey \<noteq> nextSequenceKey"
  by (simp_all add: formatKey_def nextSequenceKey_def totalBytesKey_def)

lemma set_cursor [simp]: "set (cursor m) = set m"
  by (simp add: cursor_def)

lemma length_cursor [simp]: "length (cursor m) = length m"
  by (simp add: cursor_def)

lemma validateUniqueEventIDs_iff:
  "validateUniqueEventIDs seen es = None \<longleftrightarrow> [] \<notin> set es \<and> distinct es \<and> set es \<inter> set seen = {}"
  by (induction es arbitrary: seen) auto

text \<open>The size depends on what was accepted only, so a change of state never changes it.\<close>

lemma acceptedSize_state [simp]:
  "acceptedSize (r\<lparr>r_epoch := v1\<rparr>) = acceptedSize r" "acceptedSize (r\<lparr>r_broker := v2\<rparr>) = acceptedSize r"
  "acceptedSize (r\<lparr>r_endpoint := v3\<rparr>) = acceptedSize r" "acceptedSize (r\<lparr>r_destination := v4\<rparr>) = acceptedSize r"
  "acceptedSize (r\<lparr>r_state := v5\<rparr>) = acceptedSize r" "acceptedSize (r\<lparr>r_attempts := v6\<rparr>) = acceptedSize r"
  "acceptedSize (r\<lparr>r_error := v7\<rparr>) = acceptedSize r" "acceptedSize (r\<lparr>r_sequence := v8\<rparr>) = acceptedSize r"
  "acceptedSize (r\<lparr>r_accepted := v9\<rparr>) = acceptedSize r" "acceptedSize (r\<lparr>r_updated := v10\<rparr>) = acceptedSize r"
  "acceptedSize (r\<lparr>r_size := v11\<rparr>) = acceptedSize r"
  by (simp_all add: acceptedSize_def accepted_content_def)

lemma acceptedSize_pos [simp]: "0 < acceptedSize r"
  by (simp add: acceptedSize_def accepted_content_def json_object_def)

end
