(* ===== verification/Go_Heap.thy ===== *)
theory Go_Heap
  imports Go_Prelude "HOL-Library.Multiset"
begin

text \<open>
  Go's \<open>container/heap\<close> on an arbitrary \<open>heap.Interface\<close>. The interface is a record of the methods a client
  provides; \<open>go_heap\<close> is the contract they must meet (the length, the comparison and the exchange of
  two positions of some underlying sequence), and its lemmas say what \<open>heap.Push\<close>, \<open>heap.Pop\<close> and
  \<open>heap.Remove\<close> then do: they keep the multiset of elements and the heap order. The contract is met by the
  two heaps of the outbox.
\<close>

section \<open>The operations\<close>

record 's heap_interface =
  Len :: "'s \<Rightarrow> nat"
  Less :: "'s \<Rightarrow> nat \<Rightarrow> nat \<Rightarrow> bool"
  Swap :: "nat \<Rightarrow> nat \<Rightarrow> 's \<Rightarrow> 's"

definition parent :: "nat \<Rightarrow> nat" where
  "parent j = (j - 1) div 2"

lemma parent_le: "parent j \<le> j"
  by (simp add: parent_def)

lemma parent_less [simp]: "0 < j \<Longrightarrow> parent j < j"
  by (simp add: parent_def)

function heap_up :: "'s heap_interface \<Rightarrow> nat \<Rightarrow> 's \<Rightarrow> 's" where
  "heap_up h j s =
     (let i = parent j in
      if i = j \<or> \<not> Less h s j i then s else heap_up h i (Swap h i j s))"
  by pat_completeness auto

termination
proof (relation "measure (\<lambda>(h, j, s). j)")
  fix h :: "'s heap_interface" and j i and s :: 's
  assume "i = parent j" "\<not> (i = j \<or> \<not> Less h s j i)"
  then show "((h, i, Swap h i j s), h, j, s) \<in> measure (\<lambda>(h, j, s). j)"
    using parent_le [of j] by auto
qed simp

text \<open>\<open>heap_down\<close> also returns the final position; Go returns whether it moved.\<close>

function heap_down :: "'s heap_interface \<Rightarrow> nat \<Rightarrow> nat \<Rightarrow> 's \<Rightarrow> nat \<times> 's" where
  "heap_down h i n s =
     (let j1 = 2 * i + 1 in
      if n \<le> j1 then (i, s)
      else let j = (if j1 + 1 < n \<and> Less h s (j1 + 1) j1 then j1 + 1 else j1) in
           if \<not> Less h s j i then (i, s) else heap_down h j n (Swap h i j s))"
  by pat_completeness auto

termination
  by (relation "measure (\<lambda>(h, i, n, s). n - i)") (auto split: if_splits)

declare heap_up.simps [simp del] heap_down.simps [simp del]

definition heap_Push :: "'s heap_interface \<Rightarrow> ('s \<Rightarrow> 's) \<Rightarrow> 's \<Rightarrow> 's" where
  "heap_Push h push s = (let s1 = push s in heap_up h (Len h s1 - 1) s1)"

text \<open>\<open>heap.Pop\<close> and \<open>heap.Remove\<close> move an element to the end; the client's \<open>Pop\<close> takes it from there.\<close>

definition heap_root_last :: "'s heap_interface \<Rightarrow> 's \<Rightarrow> 's" where
  "heap_root_last h s = (let n = Len h s - 1 in snd (heap_down h 0 n (Swap h 0 n s)))"

definition heap_Pop :: "'s heap_interface \<Rightarrow> ('s \<Rightarrow> 'r) \<Rightarrow> 's \<Rightarrow> 'r" where
  "heap_Pop h pop s = pop (heap_root_last h s)"

definition heap_nth_last :: "'s heap_interface \<Rightarrow> nat \<Rightarrow> 's \<Rightarrow> 's" where
  "heap_nth_last h i s =
     (let n = Len h s - 1 in
      if n \<noteq> i then
        (let (i', s2) = heap_down h i n (Swap h i n s) in if i < i' then s2 else heap_up h i s2)
      else s)"

definition heap_Remove :: "'s heap_interface \<Rightarrow> ('s \<Rightarrow> 'r) \<Rightarrow> nat \<Rightarrow> 's \<Rightarrow> 'r" where
  "heap_Remove h pop i s = pop (heap_nth_last h i s)"

section \<open>Heap order on a sequence\<close>

definition swap_nth :: "nat \<Rightarrow> nat \<Rightarrow> 'a list \<Rightarrow> 'a list" where
  "swap_nth i j xs = xs[i := xs ! j, j := xs ! i]"

lemma length_swap_nth [simp]: "length (swap_nth i j xs) = length xs"
  by (simp add: swap_nth_def)

lemma nth_swap_nth:
  "i < length xs \<Longrightarrow> j < length xs \<Longrightarrow> k < length xs \<Longrightarrow>
   swap_nth i j xs ! k = (if k = i then xs ! j else if k = j then xs ! i else xs ! k)"
  by (simp add: swap_nth_def nth_list_update)

lemma mset_swap_nth [simp]: "i < length xs \<Longrightarrow> j < length xs \<Longrightarrow> mset (swap_nth i j xs) = mset xs"
  by (simp add: swap_nth_def mset_swap)

lemma map_swap_nth: "i < length xs \<Longrightarrow> j < length xs \<Longrightarrow> map f (swap_nth i j xs) = swap_nth i j (map f xs)"
  by (simp add: swap_nth_def map_update)

definition is_heap :: "nat \<Rightarrow> 'a::linorder list \<Rightarrow> bool" where
  "is_heap n ks \<longleftrightarrow> (\<forall>j<n. 0 < j \<longrightarrow> ks ! parent j \<le> ks ! j)"

text \<open>A heap but for the element at one position, which may violate the order above and below it.\<close>

definition hole :: "nat \<Rightarrow> nat \<Rightarrow> 'a::linorder list \<Rightarrow> bool" where
  "hole i n ks \<longleftrightarrow>
     (\<forall>j<n. 0 < j \<longrightarrow> j \<noteq> i \<longrightarrow> parent j \<noteq> i \<longrightarrow> ks ! parent j \<le> ks ! j) \<and>
     (\<forall>j<n. 0 < j \<longrightarrow> parent j = i \<longrightarrow> 0 < i \<longrightarrow> ks ! parent i \<le> ks ! j)"

definition above :: "nat \<Rightarrow> 'a::linorder list \<Rightarrow> bool" where
  "above i ks \<longleftrightarrow> (0 < i \<longrightarrow> ks ! parent i \<le> ks ! i)"

definition below :: "nat \<Rightarrow> nat \<Rightarrow> 'a::linorder list \<Rightarrow> bool" where
  "below i n ks \<longleftrightarrow> (\<forall>j<n. 0 < j \<longrightarrow> parent j = i \<longrightarrow> ks ! i \<le> ks ! j)"

lemma is_heapI: "hole i n ks \<Longrightarrow> above i ks \<Longrightarrow> below i n ks \<Longrightarrow> is_heap n ks"
  unfolding hole_def above_def below_def is_heap_def by metis

lemma parent_iff: "0 < j \<Longrightarrow> parent j = i \<longleftrightarrow> j = 2 * i + 1 \<or> j = 2 * i + 2"
  by (auto simp: parent_def)

lemma is_heap_root:
  assumes "is_heap n ks" and "j < n"
  shows "ks ! 0 \<le> ks ! j"
  using assms(2)
proof (induction j rule: less_induct)
  case (less j)
  show ?case
  proof (cases "j = 0")
    case False
    then have "ks ! 0 \<le> ks ! parent j" using less parent_less [of j] by (meson less_trans not_gr_zero)
    also have "\<dots> \<le> ks ! j" using assms(1) less.prems False by (simp add: is_heap_def)
    finally show ?thesis .
  qed simp
qed

lemma hole_up:
  assumes "hole j n ks" "below j n ks" "0 < j" "j < n" "n \<le> length ks" "ks ! j < ks ! parent j"
  shows "hole (parent j) n (swap_nth (parent j) j ks)" and "below (parent j) n (swap_nth (parent j) j ks)"
proof -
  let ?i = "parent j" and ?ks = "swap_nth (parent j) j ks"
  have i: "?i < j" using assms(3) by simp
  have at: "?ks ! k = (if k = ?i then ks ! j else if k = j then ks ! ?i else ks ! k)" if "k < n" for k
    using that i assms(4,5) by (intro nth_swap_nth) auto
  have old: "ks ! parent k \<le> ks ! k" if "k < n" "0 < k" "k \<noteq> j" "parent k \<noteq> j" for k
    using assms(1) that unfolding hole_def by blast
  have under: "ks ! ?i \<le> ks ! k" if "k < n" "0 < k" "parent k = j" for k
    using assms(1,3) that unfolding hole_def by blast
  have pk: "parent k < n" if "k < n" for k using that parent_le [of k] by simp
  have sib: "ks ! j \<le> ks ! k" if "k < n" "0 < k" "parent k = ?i" "k \<noteq> j" for k
    using old [of k] that i assms(6) by (simp add: order_less_imp_le order_less_le_trans)
  show "below ?i n ?ks"
    unfolding below_def using at sib i assms(4,6) by (auto intro: less_imp_le)
  show "hole ?i n ?ks"
    unfolding hole_def
  proof (intro conjI allI impI)
    fix k assume k: "k < n" "0 < k" "k \<noteq> ?i" "parent k \<noteq> ?i"
    then have "k \<noteq> j" by auto
    with k show "?ks ! parent k \<le> ?ks ! k" using at [OF k(1)] at [OF pk [OF k(1)]] old [of k] under [of k] by auto
  next
    fix k assume k: "k < n" "0 < k" "parent k = ?i" "0 < ?i"
    have pi: "ks ! parent ?i \<le> ks ! ?i" using old [of ?i] k i assms(4) parent_less [OF k(4)] by auto
    have ppi: "parent ?i < ?i" "parent ?i < n" using k(4) i assms(4) parent_less [OF k(4)] by auto
    have "?ks ! parent ?i = ks ! parent ?i" using at [OF ppi(2)] ppi(1) i by simp
    moreover have "ks ! ?i \<le> ?ks ! k" using at [OF k(1)] k i old [of k] ppi(1) by auto
    ultimately show "?ks ! parent ?i \<le> ?ks ! k" using pi by simp
  qed
qed

lemma hole_down:
  assumes "hole i n ks" "i < j" "j < n" "n \<le> length ks" "parent j = i" "ks ! j < ks ! i"
    and least: "\<And>k. k < n \<Longrightarrow> 0 < k \<Longrightarrow> parent k = i \<Longrightarrow> ks ! j \<le> ks ! k"
  shows "hole j n (swap_nth i j ks)" and "above j (swap_nth i j ks)"
proof -
  let ?ks = "swap_nth i j ks"
  have at: "?ks ! k = (if k = i then ks ! j else if k = j then ks ! i else ks ! k)" if "k < n" for k
    using that assms by (intro nth_swap_nth) auto
  have old: "ks ! parent k \<le> ks ! k" if "k < n" "0 < k" "k \<noteq> i" "parent k \<noteq> i" for k
    using assms(1) that unfolding hole_def by blast
  have over: "ks ! parent i \<le> ks ! j" if "0 < i"
    using assms that unfolding hole_def by fastforce
  have pk: "parent k < n" if "k < n" for k using that parent_le [of k] by simp
  show "above j ?ks" using at assms by (auto simp: above_def)
  show "hole j n ?ks"
    unfolding hole_def
  proof (intro conjI allI impI)
    fix k assume k: "k < n" "0 < k" "k \<noteq> j" "parent k \<noteq> j"
    show "?ks ! parent k \<le> ?ks ! k"
      using at [OF k(1)] at [OF pk [OF k(1)]] k old [of k] over least [of k] parent_less [OF k(2)]
      by (auto split: if_splits)
  next
    fix k assume k: "k < n" "0 < k" "parent k = j" "0 < j"
    then have "k \<noteq> i" "k \<noteq> j" using parent_less [OF k(2)] assms(2) by auto
    then show "?ks ! parent j \<le> ?ks ! k" using at [OF k(1)] at [of i] k old [of k] assms by auto
  qed
qed

lemma hole_replace:
  assumes "is_heap (Suc n) ks" and "i < n" and "Suc n \<le> length ks"
  shows "hole i n (swap_nth i n ks)"
proof -
  have at: "swap_nth i n ks ! k = (if k = i then ks ! n else ks ! k)" if "k < n" for k
    using that assms by (simp add: nth_swap_nth)
  have le: "ks ! parent k \<le> ks ! k" if "k < n" "0 < k" for k
    using assms(1) that by (simp add: is_heap_def)
  have pk: "parent k < n" if "k < n" for k using that parent_le [of k] by simp
  show ?thesis
    unfolding hole_def
  proof (intro conjI allI impI)
    fix k assume "k < n" "0 < k" "k \<noteq> i" "parent k \<noteq> i"
    then show "swap_nth i n ks ! parent k \<le> swap_nth i n ks ! k" using at le pk by simp
  next
    fix k assume k: "k < n" "0 < k" "parent k = i" "0 < i"
    then have "ks ! parent i \<le> ks ! i" "ks ! i \<le> ks ! k" "parent i < i" using le [of i] le [of k] assms(2) by auto
    moreover have "k \<noteq> i" using k parent_less [OF k(2)] by simp
    ultimately show "swap_nth i n ks ! parent i \<le> swap_nth i n ks ! k" using at [OF k(1)] at [OF pk [OF assms(2)]] by auto
  qed
qed

lemma parent_lt: "j < n \<Longrightarrow> parent j < n"
  using parent_le [of j] by simp

lemma hole_append: "is_heap n ks \<Longrightarrow> hole n (Suc n) ks \<and> below n (Suc n) ks"
proof -
  assume heap: "is_heap n ks"
  have "parent k < n" if "k < Suc n" "0 < k" for k using parent_less [OF that(2)] that(1) by simp
  with heap show ?thesis by (auto simp: is_heap_def hole_def below_def less_Suc_eq)
qed

lemma is_heap_take: "is_heap n ks \<Longrightarrow> n \<le> length ks \<Longrightarrow> is_heap n (take n ks)"
  by (simp add: is_heap_def parent_lt)

lemma below_least:
  assumes "\<not> ks ! j < ks ! i" and "\<And>k. k < n \<Longrightarrow> 0 < k \<Longrightarrow> parent k = i \<Longrightarrow> ks ! j \<le> ks ! k"
  shows "below i n ks"
proof -
  have "ks ! i \<le> ks ! k" if "k < n" "0 < k" "parent k = i" for k
    using assms(1) assms(2) [OF that] by simp
  then show ?thesis by (simp add: below_def)
qed

section \<open>The contract of an interface\<close>

locale go_heap =
  fixes h :: "'s heap_interface" and elems :: "'s \<Rightarrow> 'e list" and key :: "'e \<Rightarrow> 'k::linorder"
  assumes Len_elems: "Len h s = length (elems s)"
    and Less_elems: "i < length (elems s) \<Longrightarrow> j < length (elems s) \<Longrightarrow>
      Less h s i j \<longleftrightarrow> key (elems s ! i) < key (elems s ! j)"
    and Swap_elems: "i < length (elems s) \<Longrightarrow> j < length (elems s) \<Longrightarrow> elems (Swap h i j s) = swap_nth i j (elems s)"
begin

definition keys :: "'s \<Rightarrow> 'k list" where
  "keys s = map key (elems s)"

lemma length_keys [simp]: "length (keys s) = length (elems s)"
  by (simp add: keys_def)

lemma keys_Swap:
  "i < length (elems s) \<Longrightarrow> j < length (elems s) \<Longrightarrow> keys (Swap h i j s) = swap_nth i j (keys s)"
  by (simp add: keys_def Swap_elems map_swap_nth)

lemma Less_keys:
  "i < length (elems s) \<Longrightarrow> j < length (elems s) \<Longrightarrow> Less h s i j \<longleftrightarrow> keys s ! i < keys s ! j"
  by (simp add: keys_def Less_elems)

text \<open>What exchanges keep, the whole loop keeps.\<close>

lemma up_induct:
  assumes "j < n" and "n \<le> length (elems s)" and "P s"
    and "\<And>i j s. i < n \<Longrightarrow> j < n \<Longrightarrow> n \<le> length (elems s) \<Longrightarrow> P s \<Longrightarrow> P (Swap h i j s)"
  shows "P (heap_up h j s)"
  using assms(1-3)
proof (induction j arbitrary: s rule: less_induct)
  case (less j)
  show ?case
  proof (cases "parent j = j \<or> \<not> Less h s j (parent j)")
    case True
    with less.prems(3) show ?thesis by (subst heap_up.simps) (auto simp: Let_def)
  next
    case False
    then have "parent j < j" using parent_le [of j] by simp
    with less assms(4) False show ?thesis by (subst heap_up.simps) (simp add: Let_def Swap_elems)
  qed
qed

lemma down_induct:
  assumes "i < n" and "n \<le> length (elems s)" and "P s"
    and "\<And>i j s. i < n \<Longrightarrow> j < n \<Longrightarrow> n \<le> length (elems s) \<Longrightarrow> P s \<Longrightarrow> P (Swap h i j s)"
  shows "P (snd (heap_down h i n s))"
  using assms(1-3)
proof (induction "n - i" arbitrary: i s rule: less_induct)
  case less
  have "P (snd (heap_down h j n (Swap h i j s)))" if "i < j" "j < n" for j
    using that less.prems assms(4) less.hyps [of j "Swap h i j s"] by (simp add: Swap_elems)
  with less.prems(3) show ?case by (subst heap_down.simps) (simp add: Let_def)
qed

lemma up_mset: "j < length (elems s) \<Longrightarrow> mset (elems (heap_up h j s)) = mset (elems s)"
  by (rule up_induct [where P = "\<lambda>s'. mset (elems s') = mset (elems s)" and n = "Suc j"]) (auto simp: Swap_elems)

lemma up_beyond:
  assumes "j < n" and "n \<le> length (elems s)"
  shows "drop n (elems (heap_up h j s)) = drop n (elems s)"
  by (rule up_induct [OF assms, where P = "\<lambda>s'. drop n (elems s') = drop n (elems s)"])
    (auto simp: Swap_elems swap_nth_def drop_update_cancel)

lemma down_mset:
  "i < n \<Longrightarrow> n \<le> length (elems s) \<Longrightarrow> mset (elems (snd (heap_down h i n s))) = mset (elems s)"
  by (rule down_induct [where P = "\<lambda>s'. mset (elems s') = mset (elems s)"]) (auto simp: Swap_elems)

lemma down_beyond:
  assumes "i < n" and "n \<le> length (elems s)"
  shows "drop n (elems (snd (heap_down h i n s))) = drop n (elems s)"
  by (rule down_induct [OF assms, where P = "\<lambda>s'. drop n (elems s') = drop n (elems s)"])
    (auto simp: Swap_elems swap_nth_def drop_update_cancel)

lemma down_ge: "i \<le> fst (heap_down h i n s)"
proof (induction "n - i" arbitrary: i s rule: less_induct)
  case less
  have "i \<le> fst (heap_down h j n (Swap h i j s))" if "i < j" "j < n" for j
    using that less.hyps [of j "Swap h i j s"] by (simp add: diff_less_mono2)
  then show ?case by (subst heap_down.simps) (simp add: Let_def)
qed

text \<open>The two loops repair a hole.\<close>

lemma up_heap:
  assumes "j < n" and "n \<le> length (elems s)" and "hole j n (keys s)" and "below j n (keys s)"
  shows "is_heap n (keys (heap_up h j s))"
  using assms
proof (induction j arbitrary: s rule: less_induct)
  case (less j)
  let ?i = "parent j"
  show ?case
  proof (cases "?i = j \<or> \<not> Less h s j ?i")
    case True
    have "above j (keys s)"
      using True less.prems parent_le [of j] Less_keys [of j s ?i] by (auto simp: above_def)
    then have "is_heap n (keys s)" using less.prems by (blast intro: is_heapI)
    with True show ?thesis by (subst heap_up.simps) (auto simp: Let_def)
  next
    case False
    then have lt: "?i < j" "keys s ! j < keys s ! ?i"
      using parent_le [of j] Less_keys [of j s ?i] less.prems by auto
    let ?s = "Swap h ?i j s"
    have swap: "keys ?s = swap_nth ?i j (keys s)"
      using lt less.prems by (simp add: keys_Swap)
    have "hole ?i n (keys ?s)" "below ?i n (keys ?s)"
      using hole_up [OF less.prems(3,4)] lt less.prems(1,2) unfolding swap by auto
    with less.IH [OF lt(1)] lt less.prems False show ?thesis
      by (subst heap_up.simps) (simp add: Let_def Swap_elems)
  qed
qed

lemma down_step:
  assumes "i < n" "n \<le> length (elems s)" "2 * i + 1 < n"
  defines "j \<equiv> (if 2 * i + 1 + 1 < n \<and> Less h s (2 * i + 1 + 1) (2 * i + 1) then 2 * i + 1 + 1 else 2 * i + 1)"
  shows "parent j = i" "i < j" "j < n" "k < n \<Longrightarrow> 0 < k \<Longrightarrow> parent k = i \<Longrightarrow> keys s ! j \<le> keys s ! k"
    "heap_down h i n s = (if Less h s j i then heap_down h j n (Swap h i j s) else (i, s))"
proof -
  show "parent j = i" "i < j" "j < n" using assms by (auto simp: parent_def)
  show "keys s ! j \<le> keys s ! k" if "k < n" "0 < k" "parent k = i"
    using that assms Less_keys [of "2 * i + 2" s "2 * i + 1"] by (auto simp: parent_iff j_def)
  show "heap_down h i n s = (if Less h s j i then heap_down h j n (Swap h i j s) else (i, s))"
    unfolding j_def by (subst heap_down.simps) (use assms(3) in \<open>simp add: Let_def\<close>)
qed

lemma down_heap:
  assumes "i < n" and "n \<le> length (elems s)" and "hole i n (keys s)" and "above i (keys s)"
  shows "is_heap n (keys (snd (heap_down h i n s)))"
  using assms
proof (induction "n - i" arbitrary: i s rule: less_induct)
  case less
  show ?case
  proof (cases "2 * i + 1 < n")
    case False
    then have "below i n (keys s)" by (auto simp: below_def parent_iff)
    with less.prems have "is_heap n (keys s)" by (blast intro: is_heapI)
    with False show ?thesis by (subst heap_down.simps) (simp add: Let_def)
  next
    case True
    obtain j where j: "parent j = i" "i < j" "j < n" "\<And>k. k < n \<Longrightarrow> 0 < k \<Longrightarrow> parent k = i \<Longrightarrow> keys s ! j \<le> keys s ! k"
      "heap_down h i n s = (if Less h s j i then heap_down h j n (Swap h i j s) else (i, s))"
      using down_step [OF less.prems(1,2) True] by metis
    show ?thesis
    proof (cases "Less h s j i")
      case lt: True
      then have "keys s ! j < keys s ! i" using Less_keys [of j s i] j less.prems by simp
      then have "hole j n (keys (Swap h i j s))" "above j (keys (Swap h i j s))"
        using hole_down [OF less.prems(3) j(2,3)] j(1,4) less.prems(1,2) j(2,3) by (auto simp: keys_Swap)
      with less.hyps [of j "Swap h i j s"] lt j less.prems show ?thesis by (simp add: Swap_elems)
    next
      case False
      then have "below i n (keys s)"
        using Less_keys [of j s i] j(2-4) less.prems by (intro below_least [of _ j]) auto
      with less.prems have "is_heap n (keys s)" by (blast intro: is_heapI)
      with False j(5) show ?thesis by simp
    qed
  qed
qed

lemma down_from:
  assumes "i < n" and "n \<le> length (elems s)" and "hole i n (keys s)"
  shows "i < fst (heap_down h i n s) \<Longrightarrow> is_heap n (keys (snd (heap_down h i n s)))"
    and "\<not> i < fst (heap_down h i n s) \<Longrightarrow> snd (heap_down h i n s) = s \<and> below i n (keys s)"
proof -
  have "if i < fst (heap_down h i n s) then is_heap n (keys (snd (heap_down h i n s)))
        else snd (heap_down h i n s) = s \<and> below i n (keys s)"
  proof (cases "2 * i + 1 < n")
    case False
    then show ?thesis by (subst (1 2 3) heap_down.simps) (auto simp: Let_def below_def parent_iff)
  next
    case True
    obtain j where j: "parent j = i" "i < j" "j < n" "\<And>k. k < n \<Longrightarrow> 0 < k \<Longrightarrow> parent k = i \<Longrightarrow> keys s ! j \<le> keys s ! k"
      "heap_down h i n s = (if Less h s j i then heap_down h j n (Swap h i j s) else (i, s))"
      using down_step [OF assms(1,2) True] by metis
    show ?thesis
    proof (cases "Less h s j i")
      case lt: True
      then have "keys s ! j < keys s ! i" using Less_keys [of j s i] j assms by simp
      then have "hole j n (keys (Swap h i j s))" "above j (keys (Swap h i j s))"
        using hole_down [OF assms(3) j(2,3)] j(1,4) assms(1,2) j(2,3) by (auto simp: keys_Swap)
      then have "is_heap n (keys (snd (heap_down h j n (Swap h i j s))))"
        using down_heap [of j n "Swap h i j s"] j(2,3) assms(1,2) by (simp add: Swap_elems)
      moreover have "i < fst (heap_down h j n (Swap h i j s))" using down_ge [of j n "Swap h i j s"] j(2) by simp
      ultimately show ?thesis using lt j(5) by simp
    next
      case False
      then have "below i n (keys s)"
        using Less_keys [of j s i] j(2-4) assms by (intro below_least [of _ j]) auto
      with False j(5) show ?thesis by simp
    qed
  qed
  then show "i < fst (heap_down h i n s) \<Longrightarrow> is_heap n (keys (snd (heap_down h i n s)))"
    and "\<not> i < fst (heap_down h i n s) \<Longrightarrow> snd (heap_down h i n s) = s \<and> below i n (keys s)" by simp_all
qed

text \<open>The operations: what they do to the elements and that they keep the heap order.\<close>

definition heap_ok :: "'s \<Rightarrow> bool" where
  "heap_ok s \<longleftrightarrow> is_heap (length (elems s)) (keys s)"

lemma push_ok:
  assumes "heap_ok s" and "elems (push s) = elems s @ [e]"
  shows "heap_ok (heap_Push h push s)" and "mset (elems (heap_Push h push s)) = add_mset e (mset (elems s))"
proof -
  let ?n = "length (elems s)"
  have n: "Len h (push s) - 1 = ?n" using assms(2) by (simp add: Len_elems)
  have "is_heap ?n (keys (push s))"
    using assms by (auto simp: heap_ok_def is_heap_def keys_def nth_append intro: less_trans [OF parent_less])
  then have "hole ?n (Suc ?n) (keys (push s)) \<and> below ?n (Suc ?n) (keys (push s))"
    using assms(2) by (intro hole_append) auto
  then have "is_heap (Suc ?n) (keys (heap_up h ?n (push s)))" using assms(2) by (intro up_heap) auto
  moreover have m: "mset (elems (heap_up h ?n (push s))) = add_mset e (mset (elems s))"
    using up_mset [of ?n "push s"] assms(2) by simp
  then have "length (elems (heap_up h ?n (push s))) = Suc ?n"
    by (metis size_add_mset size_mset)
  ultimately show "heap_ok (heap_Push h push s)" "mset (elems (heap_Push h push s)) = add_mset e (mset (elems s))"
    using m n by (simp_all add: heap_Push_def heap_ok_def)
qed

lemma last_after_down:
  assumes "i < n" and "length (elems s) = Suc n"
  shows "last (elems (snd (heap_down h i n s))) = last (elems s)"
    and "length (elems (snd (heap_down h i n s))) = Suc n"
proof -
  show len: "length (elems (snd (heap_down h i n s))) = Suc n"
    using down_mset [of i n s] assms by (metis le_SucI order_refl size_mset)
  have "drop n (elems (snd (heap_down h i n s))) = drop n (elems s)"
    using down_beyond [of i n s] assms by simp
  then show "last (elems (snd (heap_down h i n s))) = last (elems s)"
    by (metis assms(2) last_drop len lessI)
qed

lemma last_swap: "length xs = Suc n \<Longrightarrow> i < Suc n \<Longrightarrow> last (swap_nth i n xs) = xs ! i"
  by (subst last_conv_nth) (auto simp: nth_swap_nth simp flip: length_0_conv)

lemma nth_last_ok:
  assumes "heap_ok s" and "i < length (elems s)"
  defines "s' \<equiv> heap_nth_last h i s"
  shows "mset (elems s') = mset (elems s)" and "last (elems s') = elems s ! i"
    and "is_heap (length (elems s) - 1) (keys s')"
proof -
  obtain n where n: "length (elems s) = Suc n" using assms(2) by (cases "length (elems s)") auto
  have len: "Len h s - 1 = n" using n by (simp add: Len_elems)
  have "mset (elems s') = mset (elems s) \<and> last (elems s') = elems s ! i \<and> is_heap n (keys s')"
  proof (cases "n = i")
    case True
    have "is_heap n (keys s)" using assms(1) n by (auto simp: heap_ok_def is_heap_def)
    moreover have "s' = s" using True len by (simp add: s'_def heap_nth_last_def)
    moreover have "last (elems s) = elems s ! i" using n True by (metis diff_Suc_1 last_conv_nth length_0_conv nat.distinct(1))
    ultimately show ?thesis by simp
  next
    case False
    then have i: "i < n" using assms(2) n by simp
    define s1 where "s1 = Swap h i n s"
    define s2 where "s2 = snd (heap_down h i n s1)"
    have e1: "elems s1 = swap_nth i n (elems s)" "keys s1 = swap_nth i n (keys s)"
      unfolding s1_def using n i by (simp_all add: Swap_elems keys_Swap)
    have hole: "hole i n (keys s1)"
      unfolding e1(2) using hole_replace [of n "keys s" i] assms(1) n i by (simp add: heap_ok_def)
    have l1: "length (elems s1) = Suc n" "last (elems s1) = elems s ! i" "mset (elems s1) = mset (elems s)"
      using e1 n i last_swap [of "elems s" n i] by simp_all
    have l2: "length (elems s2) = Suc n" "last (elems s2) = elems s ! i" "mset (elems s2) = mset (elems s)"
      unfolding s2_def using last_after_down [OF i l1(1)] l1 down_mset [OF i, of s1] by simp_all
    show ?thesis
    proof (cases "i < fst (heap_down h i n s1)")
      case True
      then have "is_heap n (keys s2)" unfolding s2_def using down_from(1) [OF i _ hole] l1(1) by simp
      moreover have "s' = s2" using True False len by (simp add: s'_def heap_nth_last_def s1_def s2_def case_prod_unfold Let_def)
      ultimately show ?thesis using l2 by simp
    next
      case stay: False
      then have s2: "s2 = s1" "below i n (keys s1)" unfolding s2_def using down_from(2) [OF i _ hole] l1(1) by simp_all
      have s': "s' = heap_up h i s1"
        using stay False len s2(1) by (simp add: s'_def heap_nth_last_def s1_def s2_def case_prod_unfold Let_def)
      have "drop n (elems s') = drop n (elems s1)" unfolding s' using up_beyond [OF i] l1(1) by simp
      moreover have m: "mset (elems s') = mset (elems s1)" unfolding s' using up_mset i l1(1) by simp
      then have "length (elems s') = Suc n" using l1(1) by (metis size_mset)
      ultimately have "last (elems s') = last (elems s1)" using l1(1) by (metis last_drop lessI)
      moreover have "is_heap n (keys s')" unfolding s' using up_heap [OF i _ hole] s2(2) l1(1) by simp
      ultimately show ?thesis using m l1 by simp
    qed
  qed
  then show "mset (elems s') = mset (elems s)" "last (elems s') = elems s ! i" "is_heap (length (elems s) - 1) (keys s')"
    using n by simp_all
qed

lemma root_last_mset:
  assumes "elems s \<noteq> []"
  shows "mset (elems (heap_root_last h s)) = mset (elems s)"
proof -
  obtain n where n: "length (elems s) = Suc n" using assms by (cases "length (elems s)") auto
  then have m: "mset (elems (Swap h 0 n s)) = mset (elems s)" "length (elems (Swap h 0 n s)) = Suc n"
    by (simp_all add: Swap_elems)
  have "mset (elems (snd (heap_down h 0 n (Swap h 0 n s)))) = mset (elems (Swap h 0 n s))"
  proof (cases n)
    case 0
    then show ?thesis by (subst heap_down.simps) simp
  qed (use m down_mset in simp)
  with m n show ?thesis by (simp add: heap_root_last_def Len_elems Let_def)
qed

lemma root_last_ok:
  assumes "heap_ok s" and "elems s \<noteq> []"
  defines "s' \<equiv> heap_root_last h s"
  shows "mset (elems s') = mset (elems s)" and "last (elems s') = elems s ! 0"
    and "is_heap (length (elems s) - 1) (keys s')"
proof -
  obtain n where n: "length (elems s) = Suc n" using assms(2) by (cases "length (elems s)") auto
  have len: "Len h s - 1 = n" using n by (simp add: Len_elems)
  have "mset (elems s') = mset (elems s) \<and> last (elems s') = elems s ! 0 \<and> is_heap n (keys s')"
  proof (cases "n = 0")
    case True
    then have "elems s' = elems s"
      unfolding s'_def heap_root_last_def len Let_def
      by (subst heap_down.simps) (use n in \<open>simp add: Swap_elems swap_nth_def\<close>)
    with True n show ?thesis by (simp add: is_heap_def last_conv_nth flip: length_0_conv)
  next
    case False
    then have i: "0 < n" by simp
    define s1 where "s1 = Swap h 0 n s"
    have s': "s' = snd (heap_down h 0 n s1)" by (simp only: s'_def heap_root_last_def len s1_def Let_def)
    have e1: "elems s1 = swap_nth 0 n (elems s)" "keys s1 = swap_nth 0 n (keys s)"
      unfolding s1_def using n by (simp_all add: Swap_elems keys_Swap)
    have hole: "hole 0 n (keys s1)"
      unfolding e1(2) using hole_replace [of n "keys s" 0] assms(1) n i by (simp add: heap_ok_def)
    have l1: "length (elems s1) = Suc n" "last (elems s1) = elems s ! 0" "mset (elems s1) = mset (elems s)"
      using e1 n last_swap [of "elems s" n 0] by simp_all
    have "is_heap n (keys s')"
      unfolding s' using down_heap [OF i _ hole] l1(1) by (simp add: above_def)
    then show ?thesis using last_after_down [OF i l1(1)] down_mset [OF i, of s1] l1 s' by simp
  qed
  then show "mset (elems s') = mset (elems s)" "last (elems s') = elems s ! 0" "is_heap (length (elems s) - 1) (keys s')"
    using n by simp_all
qed

end

end
