(* ===== verification/Outbox.thy ===== *)
theory Outbox
  imports Outbox_Data Go_Heap
begin

text \<open>
  The durable outbox (\<^verbatim>\<open>outbox/outbox.go\<close>): the store, its acceptance-ordered lanes, the heap of ready lane
  heads, and every operation. A pointer to a lane is the lane's ordering key: lanes are reached only through the
  lane table, which has one lane per key. An operation takes the clock reading it makes and whether its
  transaction commits; a transaction that does not commit leaves the database as it was. Counters of messages and
  bytes are integers: they are bounded by the limits, so the machine integers of the source do not overflow.
\<close>

section \<open>Lanes and the store\<close>

record orderingLane =
  ln_key :: string
  ln_events :: "string list"
  ln_head :: nat
  ln_sequence :: u64
  ln_index :: int

record Store =
  st_limits :: Limits
  st_open :: bool
  st_db :: database
  st_records :: "(string, Record) gomap"
  st_order :: "string list"
  st_lanes :: "(string, orderingLane) gomap"
  st_ready :: "string list"
  st_next :: u64
  st_bytes :: int
  st_high_messages :: int
  st_high_bytes :: int
  st_deleted :: nat

definition new_lane :: "string \<Rightarrow> orderingLane" where
  "new_lane k = \<lparr>ln_key = k, ln_events = [], ln_head = 0, ln_sequence = 0, ln_index = -1\<rparr>"

definition lane :: "Store \<Rightarrow> string \<Rightarrow> orderingLane" where
  "lane s k = mget_or (st_lanes s) k (new_lane k)"

definition put_lane :: "string \<Rightarrow> orderingLane \<Rightarrow> Store \<Rightarrow> Store" where
  "put_lane k l s = s\<lparr>st_lanes := mput k l (st_lanes s)\<rparr>"

definition set_index :: "string \<Rightarrow> int \<Rightarrow> Store \<Rightarrow> Store" where
  "set_index k i s = put_lane k ((lane s k)\<lparr>ln_index := i\<rparr>) s"

section \<open>The heap of ready lanes\<close>

definition lane_less :: "orderingLane \<Rightarrow> orderingLane \<Rightarrow> bool" where
  "lane_less l r =
     (if ln_sequence l \<noteq> ln_sequence r then ln_sequence l < ln_sequence r else ln_key l < ln_key r)"

definition ready_Less :: "Store \<Rightarrow> nat \<Rightarrow> nat \<Rightarrow> bool" where
  "ready_Less s i j = lane_less (lane s (st_ready s ! i)) (lane s (st_ready s ! j))"

definition ready_Swap :: "nat \<Rightarrow> nat \<Rightarrow> Store \<Rightarrow> Store" where
  "ready_Swap i j s =
     (let ks = swap_nth i j (st_ready s)
      in set_index (ks ! j) (int j) (set_index (ks ! i) (int i) (s\<lparr>st_ready := ks\<rparr>)))"

definition ready_Push :: "string \<Rightarrow> Store \<Rightarrow> Store" where
  "ready_Push k s = (set_index k (int (length (st_ready s))) s)\<lparr>st_ready := st_ready s @ [k]\<rparr>"

definition ready_Pop :: "Store \<Rightarrow> Store" where
  "ready_Pop s = (set_index (last (st_ready s)) (-1) s)\<lparr>st_ready := butlast (st_ready s)\<rparr>"

definition readyLaneHeap :: "Store heap_interface" where
  "readyLaneHeap = \<lparr>Len = \<lambda>s. length (st_ready s), Less = ready_Less, Swap = ready_Swap\<rparr>"

definition remove_ready :: "int \<Rightarrow> Store \<Rightarrow> Store" where
  "remove_ready i s = (if 0 \<le> i then heap_Remove readyLaneHeap ready_Pop (nat i) s else s)"

definition set_sequence :: "string \<Rightarrow> u64 \<Rightarrow> Store \<Rightarrow> Store" where
  "set_sequence k q s = put_lane k ((lane s k)\<lparr>ln_sequence := q\<rparr>) s"

definition refreshLane :: "string \<Rightarrow> Store \<Rightarrow> Store" where
  "refreshLane k s =
     (let s1 = remove_ready (ln_index (lane s k)) s; l = lane s1 k in
      if length (ln_events l) \<le> ln_head l then set_sequence k 0 s1
      else case mget (st_records s1) (ln_events l ! ln_head l) of
             None \<Rightarrow> set_sequence k 0 s1
           | Some r \<Rightarrow>
               let s2 = set_sequence k (r_sequence r) s1 in
               if r_state r = StateReady then heap_Push readyLaneHeap (ready_Push k) s2 else s2)"

definition indexAccepted :: "Record \<Rightarrow> Store \<Rightarrow> Store" where
  "indexAccepted r s =
     (let k = effectiveOrderingKey r; l = lane s k;
          s1 = put_lane k (l\<lparr>ln_events := ln_events l @ [r_event r]\<rparr>) s
      in if length (ln_events (lane s1 k)) = 1 then refreshLane k s1 else s1)"

definition is_head :: "Record \<Rightarrow> Store \<Rightarrow> bool" where
  "is_head r s \<longleftrightarrow>
     (case mget (st_lanes s) (effectiveOrderingKey r) of
        None \<Rightarrow> False
      | Some l \<Rightarrow> ln_head l < length (ln_events l) \<and> ln_events l ! ln_head l = r_event r)"

definition refreshLaneForRecord :: "Record \<Rightarrow> Store \<Rightarrow> Store" where
  "refreshLaneForRecord r s = (if is_head r s then refreshLane (effectiveOrderingKey r) s else s)"

fun skip_deleted :: "(string, Record) gomap \<Rightarrow> string list \<Rightarrow> nat \<Rightarrow> nat" where
  "skip_deleted recs [] pos = pos"
| "skip_deleted recs (e # es) pos = (if mget recs e \<noteq> None then pos else skip_deleted recs es (Suc pos))"

definition trim_lane :: "orderingLane \<Rightarrow> orderingLane" where
  "trim_lane l =
     (if 1024 \<le> ln_head l \<and> length (ln_events l) \<le> ln_head l * 2
      then l\<lparr>ln_events := drop (ln_head l) (ln_events l), ln_head := 0\<rparr> else l)"

definition removeIndexed :: "Record \<Rightarrow> Store \<Rightarrow> Store" where
  "removeIndexed r s =
     (if \<not> is_head r s then s
      else
        let k = effectiveOrderingKey r; s1 = remove_ready (ln_index (lane s k)) s; l = lane s1 k;
            pos = skip_deleted (st_records s1) (drop (Suc (ln_head l)) (ln_events l)) (Suc (ln_head l))
        in if pos = length (ln_events l) then s1\<lparr>st_lanes := mdel k (st_lanes s1)\<rparr>
           else refreshLane k (put_lane k (trim_lane (l\<lparr>ln_head := pos\<rparr>)) s1))"

definition rebuildEligibleIndex :: "Store \<Rightarrow> Store" where
  "rebuildEligibleIndex s =
     fold (\<lambda>e s1. case mget (st_records s1) e of None \<Rightarrow> s1 | Some r \<Rightarrow> indexAccepted r s1) (st_order s)
       (s\<lparr>st_lanes := [], st_ready := []\<rparr>)"

definition compactOrderIfNeeded :: "Store \<Rightarrow> Store" where
  "compactOrderIfNeeded s =
     (if st_deleted s < 1024 \<and> length (st_order s) \<le> 2 * length (st_records s) + 16 then s
      else s\<lparr>st_order := filter (\<lambda>e. mget (st_records s) e \<noteq> None) (st_order s), st_deleted := 0\<rparr>)"

section \<open>Accepting records\<close>

definition accepted_record :: "gotime \<Rightarrow> u64 \<Rightarrow> Record \<Rightarrow> Record" where
  "accepted_record now sequence original =
     (let r = original\<lparr>r_sequence := sequence, r_accepted := now, r_updated := now, r_attempts := 0, r_error := [],
                r_state := (if r_state original = StateUnset then StateUnassigned else r_state original)\<rparr>
      in r\<lparr>r_size := acceptedSize r\<rparr>)"

fun accept_loop ::
  "gotime \<Rightarrow> Store \<Rightarrow> u64 \<Rightarrow> string list \<Rightarrow> int \<Rightarrow> Record list \<Rightarrow> outbox_error + Record list \<times> int" where
  "accept_loop now s sequence seen added [] = Inr ([], added)"
| "accept_loop now s sequence seen added (original # rest) =
     (case validateNewRecord original of
        Some e \<Rightarrow> Inl e
      | None \<Rightarrow>
          if mget (st_records s) (r_event original) \<noteq> None then Inl ErrDuplicate
          else if r_event original \<in> set seen then Inl ErrDuplicate
          else let r = accepted_record now sequence original in
               if max_bytes (st_limits s) - st_bytes s - added < r_size r then Inl ErrFull
               else (case accept_loop now s (sequence + 1) (r_event original # seen) (added + r_size r) rest of
                       Inl e \<Rightarrow> Inl e
                     | Inr (accepted, tot) \<Rightarrow> Inr (r # accepted, tot)))"

definition persist_accepted :: "(Record \<times> Record) list \<Rightarrow> u64 \<Rightarrow> int \<Rightarrow> database \<Rightarrow> database" where
  "persist_accepted rs nxt tot db =
     put_metadata totalBytesKey (of_int tot) (put_metadata nextSequenceKey nxt
       (fold (\<lambda>(r, stored) d. put_event (r_event r) (r_sequence r) (put_record (r_sequence r) stored d)) rs db))"

definition index_accepted :: "Record \<Rightarrow> Store \<Rightarrow> Store" where
  "index_accepted r s =
     indexAccepted r (s\<lparr>st_records := mput (r_event r) r (st_records s), st_order := st_order s @ [r_event r]\<rparr>)"

definition finish_accept :: "u64 \<Rightarrow> int \<Rightarrow> Store \<Rightarrow> Store" where
  "finish_accept nxt tot s = s\<lparr>st_next := nxt, st_bytes := tot,
     st_high_messages := max (st_high_messages s) (int (length (st_records s))),
     st_high_bytes := max (st_high_bytes s) tot\<rparr>"

definition acceptMany :: "gotime \<Rightarrow> bool \<Rightarrow> Record list \<Rightarrow> Store \<Rightarrow> (outbox_error + Record list) \<times> Store" where
  "acceptMany now commit input s =
     (if \<not> st_open s then (Inl ErrClosed, s)
      else if input = [] then (Inr [], s)
      else if max_messages (st_limits s) - int (length (st_records s)) < int (length input) then (Inl ErrFull, s)
      else if unat (max_u64 - st_next s) < length input then (Inl ErrSequenceExhausted, s)
      else case accept_loop now s (st_next s) [] 0 input of
             Inl e \<Rightarrow> (Inl e, s)
           | Inr (accepted, added) \<Rightarrow>
               (case those (map marshal accepted) of
                  None \<Rightarrow> (Inl ErrEncode, s)
                | Some stored \<Rightarrow>
                    let nxt = st_next s + of_nat (length accepted); tot = st_bytes s + added in
                    if \<not> commit then (Inl ErrPersist, s)
                    else (Inr accepted, finish_accept nxt tot (fold index_accepted accepted
                            (s\<lparr>st_db := persist_accepted (zip accepted stored) nxt tot (st_db s)\<rparr>)))))"

definition Accept :: "gotime \<Rightarrow> bool \<Rightarrow> Record \<Rightarrow> Store \<Rightarrow> (outbox_error + Record) \<times> Store" where
  "Accept now commit r s =
     (case acceptMany now commit [r] s of
        (Inl e, s1) \<Rightarrow> (Inl e, s1)
      | (Inr accepted, s1) \<Rightarrow> (Inr (hd accepted), s1))"

section \<open>Changes of state\<close>

fun update_loop ::
  "gotime \<Rightarrow> Store \<Rightarrow> (string \<Rightarrow> Record \<Rightarrow> outbox_error + Record) \<Rightarrow> string list \<Rightarrow> outbox_error + (Record \<times> Record) list"
  where
  "update_loop now s mutate [] = Inr []"
| "update_loop now s mutate (e # es) =
     (case mget (st_records s) e of
        None \<Rightarrow> Inl ErrNotFound
      | Some r \<Rightarrow>
          (case mutate e r of
             Inl err \<Rightarrow> Inl err
           | Inr r1 \<Rightarrow>
               let r2 = r1\<lparr>r_updated := now\<rparr> in
               (case marshal r2 of
                  None \<Rightarrow> Inl ErrEncode
                | Some stored \<Rightarrow>
                    (case update_loop now s mutate es of Inl err \<Rightarrow> Inl err | Inr rs \<Rightarrow> Inr ((r2, stored) # rs)))))"

definition persist_updated :: "(Record \<times> Record) list \<Rightarrow> database \<Rightarrow> database" where
  "persist_updated rs db = fold (\<lambda>(r, stored) d. put_record (r_sequence r) stored d) rs db"

definition index_updated :: "Record \<Rightarrow> Store \<Rightarrow> Store" where
  "index_updated r s = refreshLaneForRecord r (s\<lparr>st_records := mput (r_event r) r (st_records s)\<rparr>)"

definition updateMany ::
  "gotime \<Rightarrow> bool \<Rightarrow> (string \<Rightarrow> Record \<Rightarrow> outbox_error + Record) \<Rightarrow> string list \<Rightarrow> Store \<Rightarrow> outbox_error option \<times> Store" where
  "updateMany now commit mutate es s =
     (if \<not> st_open s then (Some ErrClosed, s)
      else if es = [] then (None, s)
      else case validateUniqueEventIDs [] es of
             Some e \<Rightarrow> (Some e, s)
           | None \<Rightarrow>
               (case update_loop now s mutate es of
                  Inl e \<Rightarrow> (Some e, s)
                | Inr rs \<Rightarrow>
                    if \<not> commit then (Some ErrPersist, s)
                    else (None, fold index_updated (map fst rs) (s\<lparr>st_db := persist_updated rs (st_db s)\<rparr>))))"

record AssignmentUpdate =
  au_event :: string
  au_assignment :: Assignment

record StateUpdate =
  su_event :: string
  su_reason :: string

definition incomplete :: "Assignment \<Rightarrow> bool" where
  "incomplete a \<longleftrightarrow> as_epoch a = 0 \<or> as_broker a = [] \<or> as_endpoint a = [] \<or> as_destination a = []"

definition assign_record :: "Assignment \<Rightarrow> Record \<Rightarrow> outbox_error + Record" where
  "assign_record a r =
     (if incomplete a then Inl ErrInvalidRecord
      else if r_state r = StateReady \<and> r_epoch r = as_epoch a \<and> r_broker r = as_broker a \<and> r_endpoint r = as_endpoint a \<and>
              r_destination r = as_destination a then Inr r
      else if r_state r \<noteq> StateUnassigned \<and> r_state r \<noteq> StateReady then Inl ErrInvalidState
      else Inr (r\<lparr>r_epoch := as_epoch a, r_broker := as_broker a, r_endpoint := as_endpoint a,
                  r_destination := as_destination a, r_state := StateReady, r_error := []\<rparr>))"

definition assignMany :: "gotime \<Rightarrow> bool \<Rightarrow> AssignmentUpdate list \<Rightarrow> Store \<Rightarrow> outbox_error option \<times> Store" where
  "assignMany now commit us s =
     (let assignments = fold (\<lambda>u m. mput (au_event u) (au_assignment u) m) us []
      in updateMany now commit (\<lambda>e. assign_record (the (mget assignments e))) (map au_event us) s)"

definition in_flight_record :: "Record \<Rightarrow> outbox_error + Record" where
  "in_flight_record r =
     (if r_state r \<noteq> StateReady then Inl ErrInvalidState
      else Inr (r\<lparr>r_state := StateInEventsA, r_attempts := r_attempts r + 1, r_error := []\<rparr>))"

definition markInEventsAMany :: "gotime \<Rightarrow> bool \<Rightarrow> string list \<Rightarrow> Store \<Rightarrow> outbox_error option \<times> Store" where
  "markInEventsAMany now commit es s = updateMany now commit (\<lambda>e. in_flight_record) es s"

definition splitStateUpdates :: "StateUpdate list \<Rightarrow> string list \<times> (string, string) gomap" where
  "splitStateUpdates us = (map su_event us, fold (\<lambda>u m. mput (su_event u) (su_reason u) m) us [])"

definition resolved_record :: "State \<Rightarrow> string \<Rightarrow> Record \<Rightarrow> outbox_error + Record" where
  "resolved_record st reason r =
     (if r_state r \<noteq> StateInEventsA then Inl ErrInvalidState
      else Inr (r\<lparr>r_state := st, r_error := reason\<rparr>))"

definition markRejectedMany :: "gotime \<Rightarrow> bool \<Rightarrow> StateUpdate list \<Rightarrow> Store \<Rightarrow> outbox_error option \<times> Store" where
  "markRejectedMany now commit us s =
     (let (es, reasons) = splitStateUpdates us
      in updateMany now commit (\<lambda>e. resolved_record StateReady (mget_or reasons e [])) es s)"

definition markAckUncertainMany :: "gotime \<Rightarrow> bool \<Rightarrow> StateUpdate list \<Rightarrow> Store \<Rightarrow> outbox_error option \<times> Store" where
  "markAckUncertainMany now commit us s =
     (let (es, reasons) = splitStateUpdates us
      in updateMany now commit (\<lambda>e. resolved_record StateAckUncertain (mget_or reasons e [])) es s)"

definition retry_record :: "Record \<Rightarrow> outbox_error + Record" where
  "retry_record r =
     (if r_state r \<noteq> StateAckUncertain then Inl ErrInvalidState
      else Inr (r\<lparr>r_state := StateReady,
                  r_error := ''explicit retry after uncertain ACK; duplicate delivery is possible''\<rparr>))"

definition retryAckUncertainMany :: "gotime \<Rightarrow> bool \<Rightarrow> string list \<Rightarrow> Store \<Rightarrow> outbox_error option \<times> Store" where
  "retryAckUncertainMany now commit es s = updateMany now commit (\<lambda>e. retry_record) es s"

section \<open>Completions\<close>

datatype resolution = Ignore | Invalid | Delete | Update Record

definition completed_record :: "gotime \<Rightarrow> State \<Rightarrow> Completion \<Rightarrow> Record \<Rightarrow> Record" where
  "completed_record now st c r = r\<lparr>r_state := st, r_error := cm_reason c, r_updated := now\<rparr>"

definition resolve :: "gotime \<Rightarrow> Completion \<Rightarrow> Record \<Rightarrow> resolution" where
  "resolve now c r =
     (if r_attempts r \<noteq> cm_attempts c \<or> r_epoch r \<noteq> cm_epoch c then Ignore
      else case cm_outcome c of
             CompletionAcknowledged \<Rightarrow>
               if r_state r \<noteq> StateInEventsA \<and> r_state r \<noteq> StateAckUncertain then Ignore else Delete
           | CompletionRejected \<Rightarrow>
               if r_state r \<noteq> StateInEventsA then Ignore else Update (completed_record now StateReady c r)
           | CompletionAckUncertain \<Rightarrow>
               if r_state r \<noteq> StateInEventsA then Ignore else Update (completed_record now StateAckUncertain c r)
           | CompletionInvalid n \<Rightarrow> Invalid)"

record completion_plan =
  cp_applied :: "Completion list"
  cp_updated :: "(Record \<times> Record) list"
  cp_deleted :: "Record list"

fun complete_loop :: "gotime \<Rightarrow> Store \<Rightarrow> string list \<Rightarrow> Completion list \<Rightarrow> outbox_error + completion_plan" where
  "complete_loop now s seen [] = Inr \<lparr>cp_applied = [], cp_updated = [], cp_deleted = []\<rparr>"
| "complete_loop now s seen (c # cs) =
     (if cm_event c = [] then Inl ErrInvalidRecord
      else if cm_event c \<in> set seen then Inl ErrInvalidRecord
      else
        let continue = complete_loop now s (cm_event c # seen) cs in
        case mget (st_records s) (cm_event c) of
          None \<Rightarrow> continue
        | Some r \<Rightarrow>
            (case resolve now c r of
               Ignore \<Rightarrow> continue
             | Invalid \<Rightarrow> Inl ErrInvalidRecord
             | Delete \<Rightarrow>
                 (case continue of
                    Inl e \<Rightarrow> Inl e
                  | Inr p \<Rightarrow> Inr (p\<lparr>cp_applied := c # cp_applied p, cp_deleted := r # cp_deleted p\<rparr>))
             | Update r1 \<Rightarrow>
                 (case marshal r1 of
                    None \<Rightarrow> Inl ErrEncode
                  | Some stored \<Rightarrow>
                      (case continue of
                         Inl e \<Rightarrow> Inl e
                       | Inr p \<Rightarrow> Inr (p\<lparr>cp_applied := c # cp_applied p, cp_updated := (r1, stored) # cp_updated p\<rparr>)))))"

definition persist_completed :: "completion_plan \<Rightarrow> int \<Rightarrow> database \<Rightarrow> database" where
  "persist_completed p tot db =
     (let db1 = fold delete_record (cp_deleted p) (persist_updated (cp_updated p) db)
      in if cp_deleted p \<noteq> [] then put_metadata totalBytesKey (of_int tot) db1 else db1)"

definition index_deleted :: "Record \<Rightarrow> Store \<Rightarrow> Store" where
  "index_deleted r s = removeIndexed r (s\<lparr>st_records := mdel (r_event r) (st_records s)\<rparr>)"

definition apply_completion :: "completion_plan \<Rightarrow> Store \<Rightarrow> Store" where
  "apply_completion p s =
     (let tot = st_bytes s - sum_list (map r_size (cp_deleted p));
          s1 = s\<lparr>st_db := persist_completed p tot (st_db s)\<rparr>;
          s2 = fold index_deleted (cp_deleted p) (fold index_updated (map fst (cp_updated p)) s1)
      in compactOrderIfNeeded (s2\<lparr>st_bytes := tot, st_deleted := st_deleted s2 + length (cp_deleted p)\<rparr>))"

definition CompleteBatch :: "gotime \<Rightarrow> bool \<Rightarrow> Completion list \<Rightarrow> Store \<Rightarrow> (outbox_error + Completion list) \<times> Store" where
  "CompleteBatch now commit cs s =
     (if \<not> st_open s then (Inl ErrClosed, s)
      else if cs = [] then (Inr [], s)
      else case complete_loop now s [] cs of
             Inl e \<Rightarrow> (Inl e, s)
           | Inr p \<Rightarrow>
               if cp_applied p = [] then (Inr [], s)
               else if \<not> commit then (Inl ErrPersist, s)
               else (Inr (cp_applied p), apply_completion p s))"

definition Ack :: "gotime \<Rightarrow> bool \<Rightarrow> string \<Rightarrow> u64 \<Rightarrow> u64 \<Rightarrow> Store \<Rightarrow> outbox_error option \<times> Store" where
  "Ack now commit e attempts epoch s =
     (case CompleteBatch now commit [\<lparr>cm_event = e, cm_attempts = attempts, cm_epoch = epoch,
             cm_outcome = CompletionAcknowledged, cm_reason = []\<rparr>] s of
        (Inl err, s1) \<Rightarrow> (Some err, s1)
      | (Inr applied, s1) \<Rightarrow> (if length applied \<noteq> 1 then Some ErrInvalidState else None, s1))"

fun ack_loop :: "Store \<Rightarrow> string list \<Rightarrow> outbox_error + Record list" where
  "ack_loop s [] = Inr []"
| "ack_loop s (e # es) =
     (case mget (st_records s) e of
        None \<Rightarrow> Inl ErrNotFound
      | Some r \<Rightarrow>
          if r_state r \<noteq> StateInEventsA \<and> r_state r \<noteq> StateAckUncertain then Inl ErrInvalidState
          else (case ack_loop s es of Inl err \<Rightarrow> Inl err | Inr rs \<Rightarrow> Inr (r # rs)))"

definition ackMany :: "bool \<Rightarrow> string list \<Rightarrow> Store \<Rightarrow> outbox_error option \<times> Store" where
  "ackMany commit es s =
     (if \<not> st_open s then (Some ErrClosed, s)
      else if es = [] then (None, s)
      else case validateUniqueEventIDs [] es of
             Some e \<Rightarrow> (Some e, s)
           | None \<Rightarrow>
               (case ack_loop s es of
                  Inl e \<Rightarrow> (Some e, s)
                | Inr rs \<Rightarrow>
                    if \<not> commit then (Some ErrPersist, s)
                    else (None, apply_completion \<lparr>cp_applied = [], cp_updated = [], cp_deleted = rs\<rparr> s)))"

section \<open>The exported forms\<close>

definition AcceptBatch :: "gotime \<Rightarrow> bool \<Rightarrow> Record list \<Rightarrow> Store \<Rightarrow> (outbox_error + Record list) \<times> Store" where
  "AcceptBatch now commit records s = acceptMany now commit records s"

definition Assign :: "gotime \<Rightarrow> bool \<Rightarrow> string \<Rightarrow> Assignment \<Rightarrow> Store \<Rightarrow> outbox_error option \<times> Store" where
  "Assign now commit e a s = assignMany now commit [\<lparr>au_event = e, au_assignment = a\<rparr>] s"

definition AssignBatch :: "gotime \<Rightarrow> bool \<Rightarrow> AssignmentUpdate list \<Rightarrow> Store \<Rightarrow> outbox_error option \<times> Store" where
  "AssignBatch now commit us s = assignMany now commit us s"

definition MarkInEventsA :: "gotime \<Rightarrow> bool \<Rightarrow> string \<Rightarrow> Store \<Rightarrow> outbox_error option \<times> Store" where
  "MarkInEventsA now commit e s = markInEventsAMany now commit [e] s"

definition MarkInEventsABatch :: "gotime \<Rightarrow> bool \<Rightarrow> string list \<Rightarrow> Store \<Rightarrow> outbox_error option \<times> Store" where
  "MarkInEventsABatch now commit es s = markInEventsAMany now commit es s"

definition MarkRejected :: "gotime \<Rightarrow> bool \<Rightarrow> string \<Rightarrow> string \<Rightarrow> Store \<Rightarrow> outbox_error option \<times> Store" where
  "MarkRejected now commit e reason s = markRejectedMany now commit [\<lparr>su_event = e, su_reason = reason\<rparr>] s"

definition MarkRejectedBatch :: "gotime \<Rightarrow> bool \<Rightarrow> StateUpdate list \<Rightarrow> Store \<Rightarrow> outbox_error option \<times> Store" where
  "MarkRejectedBatch now commit us s = markRejectedMany now commit us s"

definition MarkAckUncertain :: "gotime \<Rightarrow> bool \<Rightarrow> string \<Rightarrow> string \<Rightarrow> Store \<Rightarrow> outbox_error option \<times> Store" where
  "MarkAckUncertain now commit e reason s = markAckUncertainMany now commit [\<lparr>su_event = e, su_reason = reason\<rparr>] s"

definition MarkAckUncertainBatch :: "gotime \<Rightarrow> bool \<Rightarrow> StateUpdate list \<Rightarrow> Store \<Rightarrow> outbox_error option \<times> Store" where
  "MarkAckUncertainBatch now commit us s = markAckUncertainMany now commit us s"

definition RetryAckUncertain :: "gotime \<Rightarrow> bool \<Rightarrow> string \<Rightarrow> Store \<Rightarrow> outbox_error option \<times> Store" where
  "RetryAckUncertain now commit e s = retryAckUncertainMany now commit [e] s"

definition RetryAckUncertainBatch :: "gotime \<Rightarrow> bool \<Rightarrow> string list \<Rightarrow> Store \<Rightarrow> outbox_error option \<times> Store" where
  "RetryAckUncertainBatch now commit es s = retryAckUncertainMany now commit es s"

definition AckAttempt :: "gotime \<Rightarrow> bool \<Rightarrow> string \<Rightarrow> u64 \<Rightarrow> u64 \<Rightarrow> Store \<Rightarrow> outbox_error option \<times> Store" where
  "AckAttempt now commit e attempts epoch s = Ack now commit e attempts epoch s"

section \<open>Reading lanes after an update\<close>

lemma lane_put_lane [simp]: "lane (put_lane k l s) k' = (if k' = k then l else lane s k')"
  by (simp add: lane_def put_lane_def)

lemma lane_set_index [simp]: "lane (set_index k i s) k' = (if k' = k then (lane s k)\<lparr>ln_index := i\<rparr> else lane s k')"
  by (simp add: set_index_def)

lemma lane_set_sequence [simp]:
  "lane (set_sequence k q s) k' = (if k' = k then (lane s k)\<lparr>ln_sequence := q\<rparr> else lane s k')"
  by (simp add: set_sequence_def)

lemma lane_frame [simp]:
  "lane (s\<lparr>st_ready := v1\<rparr>) k = lane s k" "lane (s\<lparr>st_records := v2\<rparr>) k = lane s k" "lane (s\<lparr>st_order := v3\<rparr>) k = lane s k"
  "lane (s\<lparr>st_db := v4\<rparr>) k = lane s k" "lane (s\<lparr>st_next := v5\<rparr>) k = lane s k" "lane (s\<lparr>st_bytes := v6\<rparr>) k = lane s k"
  "lane (s\<lparr>st_deleted := v7\<rparr>) k = lane s k"
  by (simp_all add: lane_def)

definition lane_rank :: "orderingLane \<Rightarrow> u64 \<times> string" where
  "lane_rank l = (ln_sequence l, ln_key l)"

lemma lane_rank_index [simp]: "lane_rank (l\<lparr>ln_index := i\<rparr>) = lane_rank l"
  by (simp add: lane_rank_def)

lemma lane_less_rank: "lane_less l r \<longleftrightarrow> lane_rank l < lane_rank r"
  by (auto simp: lane_less_def lane_rank_def)

lemma lane_rank_set_index [simp]: "lane_rank (lane (set_index k i s) k') = lane_rank (lane s k')"
  by simp

lemma st_ready_put [simp]: "st_ready (put_lane k l s) = st_ready s" "st_ready (set_index k i s) = st_ready s"
  "st_ready (set_sequence k q s) = st_ready s"
  by (simp_all add: put_lane_def set_index_def set_sequence_def)

lemma lane_rank_swap [simp]: "lane_rank (lane (ready_Swap i j s) k) = lane_rank (lane s k)"
  by (simp add: ready_Swap_def Let_def)

lemma st_ready_swap [simp]: "st_ready (ready_Swap i j s) = swap_nth i j (st_ready s)"
  by (simp add: ready_Swap_def Let_def)

text \<open>Both comparisons are the order of the pair of head sequence and key.\<close>

interpretation rh: go_heap readyLaneHeap "\<lambda>s. map (\<lambda>k. lane_rank (lane s k)) (st_ready s)" "\<lambda>r. r"
  by unfold_locales (simp_all add: readyLaneHeap_def ready_Less_def lane_less_rank map_swap_nth)

end
