(* ===== verification/Outbox_Select.thy ===== *)
theory Outbox_Select
  imports Outbox
begin

text \<open>
  Reading the outbox (\<^verbatim>\<open>outbox/outbox.go\<close>): \<open>EligibleFor\<close>, which walks the heap of ready lanes with a second
  heap of candidates so as not to change the first, and the queries. The loop ends because a candidate is replaced
  by its children in the heap.
\<close>

section \<open>The heap of candidates\<close>

record readyLaneCandidate =
  cd_index :: nat
  cd_lane :: orderingLane

definition candidate_Less :: "readyLaneCandidate list \<Rightarrow> nat \<Rightarrow> nat \<Rightarrow> bool" where
  "candidate_Less h i j = lane_less (cd_lane (h ! i)) (cd_lane (h ! j))"

definition readyLaneCandidateHeap :: "readyLaneCandidate list heap_interface" where
  "readyLaneCandidateHeap = \<lparr>Len = length, Less = candidate_Less, Swap = swap_nth\<rparr>"

definition candidate_Push :: "readyLaneCandidate \<Rightarrow> readyLaneCandidate list \<Rightarrow> readyLaneCandidate list" where
  "candidate_Push c h = h @ [c]"

definition candidate_Pop :: "readyLaneCandidate list \<Rightarrow> readyLaneCandidate \<times> readyLaneCandidate list" where
  "candidate_Pop h = (last h, butlast h)"

interpretation ch: go_heap readyLaneCandidateHeap "\<lambda>h. h" "\<lambda>c. lane_rank (cd_lane c)"
  by unfold_locales (auto simp: readyLaneCandidateHeap_def candidate_Less_def lane_less_rank)

section \<open>Selecting eligible records\<close>

definition zero_record :: Record where
  "zero_record = \<lparr>r_event = [], r_payload = [], r_topic = [], r_properties = [], r_key = [], r_group = [], r_hash = [],
     r_contract = [], r_library = [], r_algorithm = [], r_endpoint = [], r_epoch = 0, r_broker = [], r_destination = [],
     r_state = StateUnset, r_attempts = 0, r_error = [], r_sequence = 0, r_accepted = 0, r_updated = 0, r_size = 0\<rparr>"

definition lane_record :: "Store \<Rightarrow> orderingLane \<Rightarrow> Record" where
  "lane_record s l = mget_or (st_records s) (ln_events l ! ln_head l) zero_record"

definition matches :: "(string, u64) gomap option \<Rightarrow> (string, int) gomap option \<Rightarrow> (string, int) gomap \<Rightarrow> Record \<Rightarrow> bool" where
  "matches epochs slots used r \<longleftrightarrow>
     (case epochs of None \<Rightarrow> True | Some m \<Rightarrow> mget m (r_group r) = Some (r_epoch r)) \<and>
     (case slots of None \<Rightarrow> True | Some m \<Rightarrow> mget_or used (r_broker r) 0 < mget_or m (r_broker r) 0)"

definition use_slot :: "Record \<Rightarrow> (string, int) gomap \<Rightarrow> (string, int) gomap" where
  "use_slot r used = mput (r_broker r) (mget_or used (r_broker r) 0 + 1) used"

definition push_child :: "Store \<Rightarrow> nat \<Rightarrow> readyLaneCandidate list \<Rightarrow> readyLaneCandidate list" where
  "push_child s i cs =
     (if i < length (st_ready s)
      then heap_Push readyLaneCandidateHeap (candidate_Push \<lparr>cd_index = i, cd_lane = lane s (st_ready s ! i)\<rparr>) cs
      else cs)"

function subtree :: "nat \<Rightarrow> nat \<Rightarrow> nat" where
  "subtree n i = 1 + (if 2 * i + 1 < n then subtree n (2 * i + 1) else 0) + (if 2 * i + 2 < n then subtree n (2 * i + 2) else 0)"
  by pat_completeness auto

termination
  by (relation "measure (\<lambda>(n, i). n - i)") auto

declare subtree.simps [simp del]

definition weight :: "nat \<Rightarrow> readyLaneCandidate list \<Rightarrow> nat" where
  "weight n cs = (\<Sum>c\<in>#mset cs. subtree n (cd_index c))"

lemma weight_push_child:
  "weight n (push_child s i cs) = weight n cs + (if i < length (st_ready s) then subtree n i else 0)"
proof -
  have "mset (heap_Push readyLaneCandidateHeap (candidate_Push c) cs) = add_mset c (mset cs)" for c
  proof -
    have n: "Len readyLaneCandidateHeap (candidate_Push c cs) - 1 = length cs"
      by (simp add: readyLaneCandidateHeap_def candidate_Push_def)
    have "mset (heap_up readyLaneCandidateHeap (length cs) (candidate_Push c cs)) = mset (candidate_Push c cs)"
      by (rule ch.up_mset) (simp add: candidate_Push_def)
    then show ?thesis unfolding heap_Push_def Let_def n by (simp add: candidate_Push_def)
  qed
  then show ?thesis by (simp add: weight_def push_child_def)
qed

lemma weight_pop:
  assumes "cs \<noteq> []" and "candidate_Pop (heap_root_last readyLaneCandidateHeap cs) = (c, cs')"
  shows "weight n cs = subtree n (cd_index c) + weight n cs'"
proof -
  let ?h = "heap_root_last readyLaneCandidateHeap cs"
  have m: "mset ?h = mset cs" using ch.root_last_mset [OF assms(1)] by simp
  then have "?h \<noteq> []" using assms(1) by (metis mset_zero_iff)
  then have "?h = cs' @ [c]" using assms(2) by (auto simp: candidate_Pop_def)
  then have "mset cs = add_mset c (mset cs')" using m by simp
  then show ?thesis by (simp add: weight_def)
qed

function eligible_loop ::
  "Store \<Rightarrow> (string, u64) gomap option \<Rightarrow> (string, int) gomap option \<Rightarrow> int \<Rightarrow> (string, int) gomap \<Rightarrow>
   readyLaneCandidate list \<Rightarrow> Record list \<Rightarrow> Record list" where
  "eligible_loop s epochs slots limit used cs eligible =
     (if int (length eligible) < limit \<and> cs \<noteq> [] then
        (let (c, cs1) = heap_Pop readyLaneCandidateHeap candidate_Pop cs;
             r = lane_record s (cd_lane c);
             ok = matches epochs slots used r;
             left = 2 * cd_index c + 1
         in eligible_loop s epochs slots limit (if ok then use_slot r used else used)
              (push_child s (left + 1) (push_child s left cs1)) (if ok then eligible @ [r] else eligible))
      else eligible)"
  by pat_completeness auto

termination
proof (relation "measure (\<lambda>(s, epochs, slots, limit, used, cs, eligible). weight (length (st_ready s)) cs)")
  fix s :: Store and epochs slots and limit :: int and used cs and eligible :: "Record list" and x c cs1 r ok left
  assume a: "int (length eligible) < limit \<and> cs \<noteq> []" "x = heap_Pop readyLaneCandidateHeap candidate_Pop cs" "(c, cs1) = x"
    "r = lane_record s (cd_lane c)" "ok = matches epochs slots used r" "left = 2 * cd_index c + 1"
  have "weight (length (st_ready s)) cs = subtree (length (st_ready s)) (cd_index c) + weight (length (st_ready s)) cs1"
    using a by (intro weight_pop) (simp_all add: heap_Pop_def)
  moreover have "weight (length (st_ready s)) (push_child s (left + 1) (push_child s left cs1)) <
      subtree (length (st_ready s)) (cd_index c) + weight (length (st_ready s)) cs1"
    using a(6) by (simp add: weight_push_child subtree.simps [of "length (st_ready s)" "cd_index c"])
  ultimately show "((s, epochs, slots, limit, if ok then use_slot r used else used,
      push_child s (left + 1) (push_child s left cs1), if ok then eligible @ [r] else eligible),
      s, epochs, slots, limit, used, cs, eligible)
    \<in> measure (\<lambda>(s, epochs, slots, limit, used, cs, eligible). weight (length (st_ready s)) cs)"
    by simp
qed simp

declare eligible_loop.simps [simp del]

definition EligibleFor ::
  "int \<Rightarrow> (string, u64) gomap option \<Rightarrow> (string, int) gomap option \<Rightarrow> Store \<Rightarrow> Record list" where
  "EligibleFor limit epochs slots s =
     (if limit \<le> 0 \<or> \<not> st_open s \<or> st_ready s = [] then []
      else eligible_loop s epochs slots (min limit (int (length (st_ready s)))) []
             [\<lparr>cd_index = 0, cd_lane = lane s (st_ready s ! 0)\<rparr>] [])"

definition Eligible :: "int \<Rightarrow> Store \<Rightarrow> Record list" where
  "Eligible limit s = EligibleFor limit None None s"

section \<open>Queries\<close>

definition live :: "Store \<Rightarrow> string list \<Rightarrow> Record list" where
  "live s es = List.map_filter (mget (st_records s)) es"

definition Records :: "Store \<Rightarrow> Record list" where
  "Records s = (if \<not> st_open s then [] else live s (st_order s))"

definition Unassigned :: "Store \<Rightarrow> Record list" where
  "Unassigned s = (if \<not> st_open s then [] else filter (\<lambda>r. r_state r = StateUnassigned) (live s (st_order s)))"

definition Get :: "string \<Rightarrow> Store \<Rightarrow> outbox_error + Record" where
  "Get e s =
     (if \<not> st_open s then Inl ErrClosed
      else case mget (st_records s) e of None \<Rightarrow> Inl ErrNotFound | Some r \<Rightarrow> Inr r)"

record Stats =
  sa_messages :: int
  sa_bytes :: int
  sa_high_messages :: int
  sa_high_bytes :: int

definition StoreStats :: "Store \<Rightarrow> Stats" where
  "StoreStats s =
     (if \<not> st_open s then \<lparr>sa_messages = 0, sa_bytes = 0, sa_high_messages = 0, sa_high_bytes = 0\<rparr>
      else \<lparr>sa_messages = int (length (st_records s)), sa_bytes = st_bytes s, sa_high_messages = st_high_messages s,
            sa_high_bytes = st_high_bytes s\<rparr>)"

definition Close :: "Store \<Rightarrow> Store" where
  "Close s = s\<lparr>st_open := False\<rparr>"

end
