(* ===== verification/Outbox_Open.thy ===== *)
theory Outbox_Open
  imports Outbox_Select
begin

text \<open>
  Opening the outbox (\<open>Open\<close> and \<open>load\<close> of \<^verbatim>\<open>outbox/outbox.go\<close>): a new database is initialised; an existing
  one is read record by record, checked against its event index and its totals, and every record that was being
  published when the process stopped becomes ACK-uncertain. What the file system and bbolt answer while the
  database is opened is an \<open>open_answers\<close> record.
\<close>

section \<open>Reading the records\<close>

record load_state =
  ld_loaded :: "(string, Record) gomap"
  ld_order :: "string list"
  ld_bytes :: int
  ld_max :: u64
  ld_recovered :: "Record list"

definition recover :: "gotime \<Rightarrow> Record \<Rightarrow> Record" where
  "recover now r =
     (if r_state r = StateInEventsA
      then r\<lparr>r_state := StateAckUncertain, r_error := ''publish outcome unknown after outbox recovery; retry may duplicate'',
             r_updated := now\<rparr>
      else r)"

definition load_record ::
  "Limits \<Rightarrow> (string, string) gomap \<Rightarrow> gotime \<Rightarrow> string \<Rightarrow> Record option \<Rightarrow> load_state \<Rightarrow> outbox_error + load_state" where
  "load_record lim events now key v l =
     (let sequence = bigEndianUint64 key in
      if length key \<noteq> 8 then Inl (ErrLoad ''record key'')
      else if sequence = 0 \<or> sequence \<le> ld_max l then Inl (ErrLoad ''record sequence'')
      else case v of
             None \<Rightarrow> Inl (ErrLoad ''decode'')
           | Some r \<Rightarrow>
               if r_sequence r \<noteq> sequence then Inl (ErrLoad ''sequence index'')
               else if validateStoredRecord r \<noteq> None then Inl ErrInvalidRecord
               else if mget (ld_loaded l) (r_event r) \<noteq> None then Inl (ErrLoad ''duplicate'')
               else if mget events (r_event r) \<noteq> Some key then Inl (ErrLoad ''event index'')
               else if max_bytes lim - ld_bytes l < r_size r then Inl ErrFull
               else Inr \<lparr>ld_loaded = mput (r_event r) (recover now r) (ld_loaded l), ld_order = ld_order l @ [r_event r],
                         ld_bytes = ld_bytes l + r_size r, ld_max = sequence,
                         ld_recovered = ld_recovered l @ (if r_state r = StateInEventsA then [recover now r] else [])\<rparr>)"

fun load_loop ::
  "Limits \<Rightarrow> (string, string) gomap \<Rightarrow> gotime \<Rightarrow> (string \<times> Record option) list \<Rightarrow> load_state \<Rightarrow> outbox_error + load_state"
  where
  "load_loop lim events now [] l = Inr l"
| "load_loop lim events now ((key, v) # rest) l =
     (case load_record lim events now key v l of Inl e \<Rightarrow> Inl e | Inr l1 \<Rightarrow> load_loop lim events now rest l1)"

definition check_event :: "(string, Record) gomap \<Rightarrow> string \<times> string \<Rightarrow> outbox_error option" where
  "check_event loaded entry =
     (case entry of (e, sequence) \<Rightarrow>
        if length sequence \<noteq> 8 then Some (ErrLoad ''event sequence'')
        else case mget loaded e of
               None \<Rightarrow> Some (ErrLoad ''event record'')
             | Some r \<Rightarrow> err_if (r_sequence r \<noteq> bigEndianUint64 sequence) (ErrLoad ''event record''))"

definition max_int64 :: int where
  "max_int64 = 2 ^ 63 - 1"

section \<open>The load transaction\<close>

text \<open>The database after the transaction, and what was read from it.\<close>

definition load_existing :: "Limits \<Rightarrow> gotime \<Rightarrow> database \<Rightarrow> outbox_error + database \<times> u64 \<times> load_state" where
  "load_existing lim now db =
     (case readUint64 (db_metadata db) formatKey of
        Inl e \<Rightarrow> Inl e
      | Inr version \<Rightarrow>
          if version \<noteq> databaseFormatVersion then Inl (ErrLoad ''format'')
          else (case readUint64 (db_metadata db) nextSequenceKey of
            Inl e \<Rightarrow> Inl e
          | Inr nextSequence \<Rightarrow>
              if nextSequence = 0 then Inl (ErrLoad ''next sequence'')
              else (case readUint64 (db_metadata db) totalBytesKey of
                Inl e \<Rightarrow> Inl e
              | Inr storedBytes \<Rightarrow>
                  if max_int64 < uint storedBytes then Inl (ErrLoad ''byte count'')
                  else (case load_loop lim (db_events db) now (cursor (db_records db))
                          \<lparr>ld_loaded = [], ld_order = [], ld_bytes = 0, ld_max = 0, ld_recovered = []\<rparr> of
                    Inl e \<Rightarrow> Inl e
                  | Inr l \<Rightarrow>
                      if max_messages lim < int (length (ld_loaded l)) then Inl ErrFull
                      else if ld_bytes l \<noteq> uint storedBytes then Inl (ErrLoad ''bytes'')
                      else (case first_err (map (check_event (ld_loaded l)) (cursor (db_events db))) of
                        Some e \<Rightarrow> Inl e
                      | None \<Rightarrow>
                          if length (db_events db) \<noteq> length (ld_loaded l) then Inl (ErrLoad ''event count'')
                          else if ld_max l = max_u64 then Inl ErrSequenceExhausted
                          else
                            let (nxt, db1) = (if nextSequence \<le> ld_max l
                                  then (ld_max l + 1, put_metadata nextSequenceKey (ld_max l + 1) db) else (nextSequence, db))
                            in (case those (map marshal (ld_recovered l)) of
                                  None \<Rightarrow> Inl ErrEncode
                                | Some stored \<Rightarrow> Inr (persist_updated (zip (ld_recovered l) stored) db1, nxt, l)))))))"

definition opened :: "Limits \<Rightarrow> database \<Rightarrow> u64 \<Rightarrow> load_state \<Rightarrow> Store" where
  "opened lim db nxt l = rebuildEligibleIndex
     \<lparr>st_limits = lim, st_open = True, st_db = db, st_records = ld_loaded l, st_order = ld_order l, st_lanes = [],
      st_ready = [], st_next = nxt, st_bytes = ld_bytes l, st_high_messages = int (length (ld_loaded l)),
      st_high_bytes = ld_bytes l, st_deleted = 0\<rparr>"

text \<open>\<open>None\<close> as a database stands for a file that lacks a required bucket.\<close>

definition load :: "Limits \<Rightarrow> bool \<Rightarrow> gotime \<Rightarrow> bool \<Rightarrow> database option \<Rightarrow> outbox_error + Store" where
  "load lim newDatabase now commit file =
     (if newDatabase then
        (if commit then Inr (opened lim new_database 1
           \<lparr>ld_loaded = [], ld_order = [], ld_bytes = 0, ld_max = 0, ld_recovered = []\<rparr>) else Inl ErrPersist)
      else case file of
             None \<Rightarrow> Inl (ErrLoad ''bucket'')
           | Some db \<Rightarrow>
               (case load_existing lim now db of
                  Inl e \<Rightarrow> Inl e
                | Inr (db1, nxt, l) \<Rightarrow> if commit then Inr (opened lim db1 nxt l) else Inl ErrPersist))"

text \<open>
  What the file system says of the path: no file, an error, a directory, or a file with its size and the bytes a
  read of at most 64 returns (\<open>None\<close> when the read fails).
\<close>

datatype path_answer = PathMissing | PathError | PathDirectory | PathFile nat "string option"

definition ascii_space :: "nat \<Rightarrow> bool" where
  "ascii_space b \<longleftrightarrow> 9 \<le> b \<and> b \<le> 13 \<or> b = 32"

text \<open>\<open>bytes.TrimSpace\<close> at the left end: the white space of Unicode, in UTF-8.\<close>

definition space_width :: "nat list \<Rightarrow> nat" where
  "space_width bs =
     (if bs \<noteq> [] \<and> ascii_space (bs ! 0) then 1
      else if take 2 bs \<in> {[0xC2, 0x85], [0xC2, 0xA0]} then 2
      else if take 3 bs \<in> {[0xE1, 0x9A, 0x80], [0xE2, 0x80, 0xA8], [0xE2, 0x80, 0xA9], [0xE2, 0x80, 0xAF], [0xE2, 0x81, 0x9F], [0xE3, 0x80, 0x80]} \<or>
              length bs \<ge> 3 \<and> take 2 bs = [0xE2, 0x80] \<and> 0x80 \<le> bs ! 2 \<and> bs ! 2 \<le> 0x8A then 3
      else 0)"

lemma space_width_Nil [simp]: "space_width [] = 0"
  by (simp add: space_width_def)

function trim_left :: "nat list \<Rightarrow> nat list" where
  "trim_left bs = (if space_width bs = 0 then bs else trim_left (drop (space_width bs) bs))"
  by pat_completeness auto

termination
  by (relation "measure length") (auto intro!: diff_less gr0I)

declare trim_left.simps [simp del]

definition inspectDatabasePath :: "path_answer \<Rightarrow> outbox_error + bool" where
  "inspectDatabasePath a =
     (case a of
        PathMissing \<Rightarrow> Inr True
      | PathError \<Rightarrow> Inl (ErrOpen ''inspect'')
      | PathDirectory \<Rightarrow> Inl (ErrOpen ''directory'')
      | PathFile len content \<Rightarrow>
          if len = 0 then Inr True
          else (case content of
                  None \<Rightarrow> Inl (ErrOpen ''inspect'')
                | Some prefix \<Rightarrow>
                    (case trim_left (bytes prefix) of
                       b # _ \<Rightarrow> if b = 0x7B \<or> b = 0x5B then Inl ErrLegacyFormat else Inr False
                     | [] \<Rightarrow> Inr False)))"

record open_answers =
  oa_inspect :: path_answer
  oa_mkdir :: bool
  oa_bolt :: bool
  oa_now :: gotime
  oa_commit :: bool
  oa_sync :: bool

definition open_limits :: "Limits \<Rightarrow> Limits" where
  "open_limits lim = lim
     \<lparr>max_messages := (if max_messages lim = 0 then defaultMaxMessages else max_messages lim),
      max_bytes := (if max_bytes lim = 0 then defaultMaxBytes else max_bytes lim)\<rparr>"

definition Open :: "open_answers \<Rightarrow> string \<Rightarrow> Limits \<Rightarrow> database option \<Rightarrow> outbox_error + Store" where
  "Open a path lim file =
     (if path = [] then Inl (ErrOpen ''path'')
      else if max_messages lim < 0 \<or> max_bytes lim < 0 then Inl (ErrOpen ''limits'')
      else case inspectDatabasePath (oa_inspect a) of
             Inl e \<Rightarrow> Inl e
           | Inr newDatabase \<Rightarrow>
               if \<not> oa_mkdir a then Inl (ErrOpen ''directory'')
               else if \<not> oa_bolt a then Inl (ErrOpen ''database'')
               else (case load (open_limits lim) newDatabase (oa_now a) (oa_commit a) file of
                       Inl e \<Rightarrow> Inl e
                     | Inr s \<Rightarrow> if newDatabase \<and> \<not> oa_sync a then Inl (ErrOpen ''sync'') else Inr s))"

end
