(* ===== verification/Outbox_Index.thy ===== *)
theory Outbox_Index
  imports Outbox_Open
begin

text \<open>
  The heap of ready lanes as an index: the position every lane keeps of itself is the position it has in the heap, and
  \<open>refreshLane\<close> puts a lane in the heap exactly when the record at its head is ready. The facts about \<open>container/heap\<close>
  come from the interpretation \<open>rh\<close> of its contract.
\<close>

section \<open>States that differ in the index only\<close>

definition lane_data :: "orderingLane \<Rightarrow> orderingLane" where
  "lane_data l = l\<lparr>ln_index := 0\<rparr>"

definition core :: "Store \<Rightarrow> Store" where
  "core s = s\<lparr>st_lanes := [], st_ready := []\<rparr>"

definition reindexed :: "Store \<Rightarrow> Store \<Rightarrow> bool" where
  "reindexed s s' \<longleftrightarrow> core s' = core s \<and>
     (\<forall>k. map_option lane_data (mget (st_lanes s') k) = map_option lane_data (mget (st_lanes s) k))"

definition ready_inv :: "Store \<Rightarrow> bool" where
  "ready_inv s \<longleftrightarrow> distinct (st_ready s) \<and> set (st_ready s) \<subseteq> dom (mget (st_lanes s)) \<and>
     (\<forall>i<length (st_ready s). ln_index (lane s (st_ready s ! i)) = int i) \<and>
     (\<forall>k l. mget (st_lanes s) k = Some l \<longrightarrow> ln_key l = k \<and> (k \<notin> set (st_ready s) \<longrightarrow> ln_index l = -1))"

lemma reindexed_refl [simp]: "reindexed s s"
  by (simp add: reindexed_def)

lemma reindexed_trans: "reindexed s s1 \<Longrightarrow> reindexed s1 s2 \<Longrightarrow> reindexed s s2"
  by (simp add: reindexed_def)

lemma core_eq: "core s = core s' \<longleftrightarrow> st_limits s = st_limits s' \<and> st_open s = st_open s' \<and> st_db s = st_db s' \<and>
    st_records s = st_records s' \<and> st_order s = st_order s' \<and> st_next s = st_next s' \<and> st_bytes s = st_bytes s' \<and>
    st_high_messages s = st_high_messages s' \<and> st_high_bytes s = st_high_bytes s' \<and> st_deleted s = st_deleted s'"
  by (cases s; cases s') (auto simp: core_def)

lemma core_lanes [simp]: "core (put_lane k l s) = core s" "core (set_index k i s) = core s" "core (set_sequence k q s) = core s"
  "core (s\<lparr>st_ready := ks\<rparr>) = core s" "core (s\<lparr>st_lanes := ls\<rparr>) = core s"
  by (simp_all add: core_eq put_lane_def set_index_def set_sequence_def)

lemma lane_Some: "mget (st_lanes s) k = Some l \<Longrightarrow> lane s k = l"
  by (simp add: lane_def mget_or_def)

lemma lane_data_sel: "lane_data l = lane_data l' \<longleftrightarrow>
    ln_key l = ln_key l' \<and> ln_events l = ln_events l' \<and> ln_head l = ln_head l' \<and> ln_sequence l = ln_sequence l'"
  by (cases l; cases l') (auto simp: lane_data_def)

lemma reindexed_lane:
  assumes "reindexed s s'" and "mget (st_lanes s) k = Some l"
  obtains l' where "mget (st_lanes s') k = Some l'" "lane_data l' = lane_data l"
proof -
  have "map_option lane_data (mget (st_lanes s') k) = Some (lane_data l)" using assms by (simp add: reindexed_def)
  with that show thesis by auto
qed

lemma reindexed_dom: "reindexed s s' \<Longrightarrow> mget (st_lanes s') k = None \<longleftrightarrow> mget (st_lanes s) k = None"
  unfolding reindexed_def by (metis option.map_disc_iff)

lemma reindexed_data: "reindexed s s' \<Longrightarrow> mget (st_lanes s) k \<noteq> None \<Longrightarrow> lane_data (lane s' k) = lane_data (lane s k)"
  by (metis lane_Some not_None_eq reindexed_lane)

lemma set_index_reindexed: "mget (st_lanes s) k \<noteq> None \<Longrightarrow> reindexed s (set_index k i s)"
  by (auto simp: reindexed_def set_index_def put_lane_def lane_def mget_or_def lane_data_def)

lemma reindexed_ready [simp]: "reindexed s (s'\<lparr>st_ready := ks\<rparr>) \<longleftrightarrow> reindexed s s'" "reindexed (s\<lparr>st_ready := ks\<rparr>) s' \<longleftrightarrow> reindexed s s'"
  by (simp_all add: reindexed_def)

section \<open>Exchanging, pushing and popping\<close>

lemma ready_nth_dom: "ready_inv s \<Longrightarrow> i < length (st_ready s) \<Longrightarrow> mget (st_lanes s) (st_ready s ! i) \<noteq> None"
  using nth_mem unfolding ready_inv_def by blast

lemma swap_reindexed:
  assumes "ready_inv s" "i < length (st_ready s)" "j < length (st_ready s)"
  shows "reindexed s (ready_Swap i j s)"
proof -
  let ?ks = "swap_nth i j (st_ready s)"
  have d: "mget (st_lanes s) (?ks ! i) \<noteq> None" "mget (st_lanes s) (?ks ! j) \<noteq> None"
    using ready_nth_dom [OF assms(1)] assms(2,3) by (simp_all add: nth_swap_nth)
  let ?s1 = "set_index (?ks ! i) (int i) (s\<lparr>st_ready := ?ks\<rparr>)"
  have r1: "reindexed s ?s1" using set_index_reindexed [of "s\<lparr>st_ready := ?ks\<rparr>" "?ks ! i"] d(1) by simp
  then have "mget (st_lanes ?s1) (?ks ! j) \<noteq> None" using d(2) by (simp add: reindexed_dom)
  then have "reindexed ?s1 (set_index (?ks ! j) (int j) ?s1)" by (rule set_index_reindexed)
  with r1 show ?thesis unfolding ready_Swap_def Let_def by (rule reindexed_trans)
qed

lemma mset_distinct: "mset xs = mset ys \<Longrightarrow> distinct xs \<longleftrightarrow> distinct ys"
  by (metis distinct_count_atmost_1 set_mset_mset)

lemma swap_inv:
  assumes inv: "ready_inv s" and ij: "i < length (st_ready s)" "j < length (st_ready s)"
  shows "ready_inv (ready_Swap i j s)"
proof -
  let ?ks = "swap_nth i j (st_ready s)" and ?s = "ready_Swap i j s"
  have re: "reindexed s ?s" by (rule swap_reindexed [OF assms])
  have m: "mset ?ks = mset (st_ready s)" using ij by simp
  then have set: "set ?ks = set (st_ready s)" by (metis set_mset_mset)
  have dist: "distinct ?ks" using inv mset_distinct [OF m] by (simp add: ready_inv_def)
  have idx: "ln_index (lane ?s (?ks ! n)) = int n" if n: "n < length ?ks" for n
  proof -
    have eq: "?ks ! n = ?ks ! i \<longleftrightarrow> n = i" "?ks ! n = ?ks ! j \<longleftrightarrow> n = j" using dist n ij by (simp_all add: nth_eq_iff_index_eq)
    have "ln_index (lane s (st_ready s ! n)) = int n" using inv n by (simp add: ready_inv_def)
    then show ?thesis using eq n ij by (simp add: ready_Swap_def Let_def nth_swap_nth)
  qed
  have keys: "ln_key l = k \<and> (k \<notin> set ?ks \<longrightarrow> ln_index l = -1)" if l: "mget (st_lanes ?s) k = Some l" for k l
  proof -
    obtain l0 where l0: "mget (st_lanes s) k = Some l0" using re l by (metis not_None_eq reindexed_dom)
    then have "lane_data l = lane_data l0" using reindexed_data [OF re, of k] l by (simp add: lane_Some)
    moreover have "ln_index l = -1" if k: "k \<notin> set ?ks"
    proof -
      have ne: "k \<noteq> ?ks ! i" "k \<noteq> ?ks ! j" using k ij by (metis length_swap_nth nth_mem)+
      then have "lane ?s k = lane s k" by (simp add: ready_Swap_def Let_def)
      then show ?thesis using inv l l0 k set by (simp add: lane_Some ready_inv_def)
    qed
    ultimately show ?thesis using inv l0 by (simp add: ready_inv_def lane_data_sel)
  qed
  have "set ?ks \<subseteq> dom (mget (st_lanes ?s))" using inv set reindexed_dom [OF re] unfolding ready_inv_def dom_def by blast
  with dist idx keys show ?thesis unfolding ready_inv_def by simp
qed

definition index_step :: "Store \<Rightarrow> Store \<Rightarrow> bool" where
  "index_step s s' \<longleftrightarrow> ready_inv s' \<and> reindexed s s' \<and> mset (st_ready s') = mset (st_ready s)"

lemma index_step_refl: "ready_inv s \<Longrightarrow> index_step s s"
  by (simp add: index_step_def)

lemma swap_step:
  assumes "index_step s s1" "i < length (st_ready s1)" "j < length (st_ready s1)"
  shows "index_step s (Swap readyLaneHeap i j s1)"
  using assms swap_inv swap_reindexed reindexed_trans by (simp add: index_step_def readyLaneHeap_def) blast

lemma ready_up_step: "index_step s s1 \<Longrightarrow> j < length (st_ready s1) \<Longrightarrow> index_step s (heap_up readyLaneHeap j s1)"
  by (rule rh.up_induct [where n = "length (st_ready s1)"]) (auto intro: swap_step)

lemma ready_down_step: "index_step s s1 \<Longrightarrow> i < n \<Longrightarrow> n \<le> length (st_ready s1) \<Longrightarrow> index_step s (snd (heap_down readyLaneHeap i n s1))"
  by (rule rh.down_induct [where n = n]) (auto intro: swap_step)

lemma index_step_length: "index_step s s' \<Longrightarrow> length (st_ready s') = length (st_ready s)"
  unfolding index_step_def by (metis size_mset)

lemma nth_last_step:
  assumes "ready_inv s" and i: "i < length (st_ready s)"
  shows "index_step s (heap_nth_last readyLaneHeap i s)"
proof -
  obtain n where n: "length (st_ready s) = Suc n" using i by (cases "length (st_ready s)") auto
  have len: "Len readyLaneHeap s - 1 = n" using n by (simp add: readyLaneHeap_def)
  show ?thesis
  proof (cases "n = i")
    case True
    with assms(1) len show ?thesis by (simp add: heap_nth_last_def index_step_refl)
  next
    case False
    then have i: "i < n" using i n by simp
    let ?s1 = "Swap readyLaneHeap i n s"
    have s1: "index_step s ?s1" using swap_step [OF index_step_refl [OF assms(1)], of i n] n i by simp
    then have s2: "index_step s (snd (heap_down readyLaneHeap i n ?s1))"
      using i n by (intro ready_down_step) (auto simp: index_step_length)
    then have "index_step s (heap_up readyLaneHeap i (snd (heap_down readyLaneHeap i n ?s1)))"
      using i n by (intro ready_up_step) (auto simp: index_step_length)
    with s2 False show ?thesis
      unfolding heap_nth_last_def len Let_def by (simp add: case_prod_unfold)
  qed
qed

lemma rank_key: "ready_inv s \<Longrightarrow> k \<in> set (st_ready s) \<Longrightarrow> snd (lane_rank (lane s k)) = k"
  unfolding ready_inv_def lane_rank_def by (auto simp: dom_def lane_Some)

lemma rank_reindexed:
  "reindexed s s' \<Longrightarrow> mget (st_lanes s) k \<noteq> None \<Longrightarrow> lane_rank (lane s' k) = lane_rank (lane s k)"
  using reindexed_data [of s s' k] by (simp add: lane_rank_def lane_data_sel)

text \<open>\<open>heap.Remove\<close> at a lane's recorded position takes that lane, and only it, out of the heap.\<close>

lemma pop_inv:
  assumes inv: "ready_inv s" and ready: "st_ready s = ks @ [k]"
  shows "ready_inv (ready_Pop s)" and "reindexed s (ready_Pop s)" and "st_ready (ready_Pop s) = ks"
proof -
  let ?s = "ready_Pop s"
  have k: "mget (st_lanes s) k \<noteq> None" "k \<notin> set ks" "distinct ks" "set ks \<subseteq> dom (mget (st_lanes s))"
    using inv ready by (auto simp: ready_inv_def)
  show re: "reindexed s ?s" using set_index_reindexed [OF k(1)] by (simp add: ready_Pop_def ready)
  show ks: "st_ready ?s = ks" by (simp add: ready_Pop_def ready)
  have lanes: "mget (st_lanes ?s) k' = (if k' = k then Some ((lane s k)\<lparr>ln_index := -1\<rparr>) else mget (st_lanes s) k')" for k'
    by (simp add: ready_Pop_def set_index_def put_lane_def ready)
  have idx: "ln_index (lane ?s (ks ! i)) = int i" if i: "i < length ks" for i
  proof -
    have "ln_index (lane s (st_ready s ! i)) = int i" using inv i ready by (simp add: ready_inv_def)
    moreover have "ks ! i \<noteq> k" using k(2) i nth_mem by blast
    ultimately show ?thesis using i ready by (simp add: ready_Pop_def nth_append)
  qed
  have keys: "ln_key l = k' \<and> (k' \<notin> set ks \<longrightarrow> ln_index l = -1)" if l: "mget (st_lanes ?s) k' = Some l" for k' l
  proof (cases "k' = k")
    case True
    then have "l = (lane s k)\<lparr>ln_index := -1\<rparr>" using l lanes by simp
    moreover have "ln_key (lane s k) = k" using inv k(1) by (auto simp: ready_inv_def lane_Some)
    ultimately show ?thesis using True by simp
  next
    case False
    then show ?thesis using inv l lanes ready by (auto simp: ready_inv_def)
  qed
  have "set ks \<subseteq> dom (mget (st_lanes ?s))" using k(4) reindexed_dom [OF re] unfolding dom_def by blast
  with k(3) idx keys ks show "ready_inv ?s" unfolding ready_inv_def by simp
qed

lemma heap_ranks: "rh.heap_ok s \<longleftrightarrow> is_heap (length (st_ready s)) (map (\<lambda>k. lane_rank (lane s k)) (st_ready s))"
  by (simp add: rh.heap_ok_def rh.keys_def)

lemma remove_at:
  assumes inv: "ready_inv s" and heap: "rh.heap_ok s" and i: "i < length (st_ready s)"
  defines "s' \<equiv> heap_Remove readyLaneHeap ready_Pop i s"
  shows "ready_inv s'" and "rh.heap_ok s'" and "reindexed s s'" and "set (st_ready s') = set (st_ready s) - {st_ready s ! i}"
proof -
  define s1 where "s1 = heap_nth_last readyLaneHeap i s"
  have step: "index_step s s1" unfolding s1_def by (rule nth_last_step [OF inv i])
  then have s1: "ready_inv s1" "reindexed s s1" "mset (st_ready s1) = mset (st_ready s)" by (auto simp: index_step_def)
  have len: "length (st_ready s1) = length (st_ready s)" using s1(3) by (metis size_mset)
  then obtain ks k where ks: "st_ready s1 = ks @ [k]" using i by (metis length_0_conv not_less_zero rev_exhaust)
  have "last (map (\<lambda>k. lane_rank (lane s1 k)) (st_ready s1)) = lane_rank (lane s (st_ready s ! i))"
    using rh.nth_last_ok(2) [OF heap, of i] i by (simp add: s1_def)
  then have rank: "lane_rank (lane s1 k) = lane_rank (lane s (st_ready s ! i))" by (simp add: ks)
  then have k: "k = st_ready s ! i" using rank_key [OF s1(1), of k] rank_key [OF inv, of "st_ready s ! i"] ks i by simp
  have s': "s' = ready_Pop s1" by (simp add: s'_def heap_Remove_def s1_def)
  show "ready_inv s'" "reindexed s s'"
    using pop_inv [OF s1(1) ks] s1(2) s' reindexed_trans by auto
  have r': "st_ready s' = ks" using pop_inv(3) [OF s1(1) ks] s' by simp
  have "k \<notin> set ks" using s1(1) ks by (simp add: ready_inv_def)
  moreover have "insert k (set ks) = set (st_ready s)" using s1(3) ks by (metis list.set(1) list.simps(15) set_append set_mset_mset sup_bot_right Un_insert_right)
  ultimately show "set (st_ready s') = set (st_ready s) - {st_ready s ! i}" using r' k by blast
  have n: "length (st_ready s) - 1 = length ks" using len ks by simp
  have "is_heap (length ks) (map (\<lambda>k. lane_rank (lane s1 k)) (st_ready s1))"
    using rh.nth_last_ok(3) [OF heap, of i] i unfolding s1_def [symmetric] rh.keys_def length_map n by simp
  then have "is_heap (length ks) (map (\<lambda>k. lane_rank (lane s1 k)) ks)"
    using is_heap_take [of "length ks" "map (\<lambda>k. lane_rank (lane s1 k)) (st_ready s1)"] ks by simp
  moreover have "map (\<lambda>k. lane_rank (lane s' k)) ks = map (\<lambda>k. lane_rank (lane s1 k)) ks"
    using pop_inv(2) [OF s1(1) ks] s1(1) ks unfolding s'
    by (intro map_cong refl rank_reindexed) (auto simp: ready_inv_def)
  ultimately show "rh.heap_ok s'" by (simp only: heap_ranks r')
qed

lemma remove_ready_inv:
  assumes inv: "ready_inv s" and heap: "rh.heap_ok s" and k: "mget (st_lanes s) k \<noteq> None"
  defines "s' \<equiv> remove_ready (ln_index (lane s k)) s"
  shows "ready_inv s'" and "rh.heap_ok s'" and "reindexed s s'" and "set (st_ready s') = set (st_ready s) - {k}"
proof -
  have "ready_inv s' \<and> rh.heap_ok s' \<and> reindexed s s' \<and> set (st_ready s') = set (st_ready s) - {k}"
  proof (cases "k \<in> set (st_ready s)")
    case True
    then obtain i where i: "i < length (st_ready s)" "st_ready s ! i = k" by (metis in_set_conv_nth)
    then have "ln_index (lane s k) = int i" using inv by (auto simp: ready_inv_def)
    then show ?thesis using remove_at [OF inv heap i(1)] i by (simp add: s'_def remove_ready_def)
  next
    case False
    then have "ln_index (lane s k) = -1" using inv k by (auto simp: ready_inv_def lane_Some)
    then show ?thesis using inv heap False by (simp add: s'_def remove_ready_def)
  qed
  then show "ready_inv s'" "rh.heap_ok s'" "reindexed s s'" "set (st_ready s') = set (st_ready s) - {k}" by auto
qed

text \<open>\<open>heap.Push\<close> of a lane that is not in the heap.\<close>

lemma push_inv:
  assumes inv: "ready_inv s" and heap: "rh.heap_ok s" and k: "mget (st_lanes s) k \<noteq> None" "k \<notin> set (st_ready s)"
  defines "s' \<equiv> heap_Push readyLaneHeap (ready_Push k) s"
  shows "ready_inv s'" and "rh.heap_ok s'" and "reindexed s s'" and "set (st_ready s') = insert k (set (st_ready s))"
proof -
  let ?s1 = "ready_Push k s"
  have re: "reindexed s ?s1" using set_index_reindexed [OF k(1)] by (simp add: ready_Push_def)
  have ready: "st_ready ?s1 = st_ready s @ [k]" by (simp add: ready_Push_def)
  have lanes: "mget (st_lanes ?s1) k' = (if k' = k then Some ((lane s k)\<lparr>ln_index := int (length (st_ready s))\<rparr>) else mget (st_lanes s) k')" for k'
    by (simp add: ready_Push_def set_index_def put_lane_def)
  have idx: "ln_index (lane ?s1 (st_ready ?s1 ! i)) = int i" if "i < length (st_ready ?s1)" for i
  proof (cases "i = length (st_ready s)")
    case False
    then have i: "i < length (st_ready s)" using that ready by simp
    then have "st_ready s ! i \<noteq> k" using k(2) nth_mem by blast
    then show ?thesis using inv i ready by (simp add: ready_inv_def ready_Push_def nth_append)
  qed (simp add: ready_Push_def)
  have key: "ln_key (lane s k) = k" using inv k(1) by (auto simp: ready_inv_def lane_Some)
  have "set (st_ready ?s1) \<subseteq> dom (mget (st_lanes ?s1))" using inv k(1) reindexed_dom [OF re] ready unfolding ready_inv_def dom_def by auto
  then have inv1: "ready_inv ?s1"
    unfolding ready_inv_def using idx inv k ready lanes key by (auto simp: ready_inv_def)
  have step: "index_step ?s1 s'"
    unfolding s'_def heap_Push_def Let_def
    by (rule ready_up_step [OF index_step_refl [OF inv1]]) (simp add: readyLaneHeap_def ready)
  then show "ready_inv s'" "reindexed s s'" using re reindexed_trans by (auto simp: index_step_def)
  have "mset (st_ready s') = add_mset k (mset (st_ready s))" using step ready by (simp add: index_step_def)
  then show "set (st_ready s') = insert k (set (st_ready s))" by (metis set_mset_add_mset_insert set_mset_mset)
  have "map (\<lambda>k. lane_rank (lane ?s1 k)) (st_ready ?s1) = map (\<lambda>k. lane_rank (lane s k)) (st_ready s) @ [lane_rank (lane s k)]"
    using inv k(1) unfolding ready map_append
    by (auto simp: rank_reindexed [OF re] ready_inv_def dom_def intro!: map_cong)
  then show "rh.heap_ok s'" unfolding s'_def using rh.push_ok(1) [OF heap, of "ready_Push k"] by simp
qed

section \<open>Refreshing a lane\<close>

definition head_record :: "Store \<Rightarrow> orderingLane \<Rightarrow> Record option" where
  "head_record s l = (if ln_head l < length (ln_events l) then mget (st_records s) (ln_events l ! ln_head l) else None)"

text \<open>A lane with the right sequence, in the heap exactly when its head is ready.\<close>

definition lane_fresh :: "Store \<Rightarrow> string \<Rightarrow> orderingLane \<Rightarrow> bool" where
  "lane_fresh s k l \<longleftrightarrow>
     ln_sequence l = (case head_record s l of None \<Rightarrow> 0 | Some r \<Rightarrow> r_sequence r) \<and>
     (k \<in> set (st_ready s) \<longleftrightarrow> (\<exists>r. head_record s l = Some r \<and> r_state r = StateReady))"

lemma set_sequence_inv:
  assumes "ready_inv s" and "rh.heap_ok s" and "k \<notin> set (st_ready s)" and "mget (st_lanes s) k \<noteq> None"
  shows "ready_inv (set_sequence k q s)" and "rh.heap_ok (set_sequence k q s)"
proof -
  have lanes: "mget (st_lanes (set_sequence k q s)) k' = (if k' = k then Some ((lane s k)\<lparr>ln_sequence := q\<rparr>) else mget (st_lanes s) k')" for k'
    by (simp add: set_sequence_def put_lane_def)
  have "ln_key (lane s k) = k \<and> ln_index (lane s k) = -1" using assms by (auto simp: ready_inv_def lane_Some)
  then show "ready_inv (set_sequence k q s)"
    using assms(1,3) lanes unfolding ready_inv_def by (auto simp: dom_def dest: nth_mem split: if_splits)
  have "map (\<lambda>k'. lane_rank (lane (set_sequence k q s) k')) (st_ready s) = map (\<lambda>k. lane_rank (lane s k)) (st_ready s)"
    using assms(3) by (intro map_cong) auto
  with assms(2) show "rh.heap_ok (set_sequence k q s)" by (simp only: heap_ranks st_ready_put)
qed

lemma refreshLane_inv:
  assumes inv: "ready_inv s" and heap: "rh.heap_ok s" and k: "mget (st_lanes s) k = Some l"
  defines "s' \<equiv> refreshLane k s"
  shows "ready_inv s'" and "rh.heap_ok s'" and "core s' = core s"
    and "\<exists>l'. mget (st_lanes s') k = Some l' \<and> ln_events l' = ln_events l \<and> ln_head l' = ln_head l \<and> lane_fresh s' k l'"
    and "\<forall>k'. k' \<noteq> k \<longrightarrow> map_option lane_data (mget (st_lanes s') k') = map_option lane_data (mget (st_lanes s) k') \<and>
           (k' \<in> set (st_ready s') \<longleftrightarrow> k' \<in> set (st_ready s))"
proof -
  define s1 where "s1 = remove_ready (ln_index (lane s k)) s"
  have dom: "mget (st_lanes s) k \<noteq> None" using k by simp
  have s1: "ready_inv s1" "rh.heap_ok s1" "reindexed s s1" "set (st_ready s1) = set (st_ready s) - {k}"
    using remove_ready_inv [OF inv heap dom] unfolding s1_def by auto
  have recs: "st_records s1 = st_records s" "core s1 = core s" using s1(3) by (auto simp: reindexed_def core_eq)
  obtain l1 where l1: "mget (st_lanes s1) k = Some l1" "lane_data l1 = lane_data l" using reindexed_lane [OF s1(3) k] by blast
  then have l1s: "ln_events l1 = ln_events l" "ln_head l1 = ln_head l" "lane s1 k = l1" by (simp_all add: lane_data_sel lane_Some)
  define q where "q = (case head_record s l of None \<Rightarrow> 0 | Some r \<Rightarrow> r_sequence r)"
  define s2 where "s2 = set_sequence k q s1"
  have out: "k \<notin> set (st_ready s1)" using s1(4) by simp
  have s2: "ready_inv s2" "rh.heap_ok s2" "st_ready s2 = st_ready s1" "core s2 = core s"
    unfolding s2_def using set_sequence_inv [OF s1(1,2) out] l1(1) recs(2) by simp_all
  have l2: "mget (st_lanes s2) k' = (if k' = k then Some (l1\<lparr>ln_sequence := q\<rparr>) else mget (st_lanes s1) k')" for k'
    by (simp add: s2_def set_sequence_def put_lane_def l1s)
  have s': "s' = (if \<exists>r. head_record s l = Some r \<and> r_state r = StateReady then heap_Push readyLaneHeap (ready_Push k) s2 else s2)"
    unfolding s'_def refreshLane_def s1_def [symmetric] s2_def q_def head_record_def
    by (auto simp: Let_def l1s recs split: option.split)
  have others: "map_option lane_data (mget (st_lanes s2) k') = map_option lane_data (mget (st_lanes s) k')" if "k' \<noteq> k" for k'
    using l2 [of k'] that s1(3) by (simp add: reindexed_def)
  have "ready_inv s' \<and> rh.heap_ok s' \<and> reindexed s2 s' \<and>
      set (st_ready s') = set (st_ready s1) \<union> (if \<exists>r. head_record s l = Some r \<and> r_state r = StateReady then {k} else {})"
  proof (cases "\<exists>r. head_record s l = Some r \<and> r_state r = StateReady")
    case True
    have "mget (st_lanes s2) k \<noteq> None" using l2 by simp
    with True push_inv [OF s2(1,2), of k] out s2(3) show ?thesis by (simp add: s')
  next
    case False
    then have "s' = s2" by (simp only: s' if_False)
    with False s2 show ?thesis by auto
  qed
  then have s'1: "ready_inv s'" "rh.heap_ok s'" "reindexed s2 s'"
    and ready': "set (st_ready s') = set (st_ready s1) \<union> (if \<exists>r. head_record s l = Some r \<and> r_state r = StateReady then {k} else {})"
    by auto
  show "ready_inv s'" "rh.heap_ok s'" by (rule s'1)+
  show core': "core s' = core s" using s'1(3) s2(4) by (simp add: reindexed_def)
  show "\<forall>k'. k' \<noteq> k \<longrightarrow> map_option lane_data (mget (st_lanes s') k') = map_option lane_data (mget (st_lanes s) k') \<and>
      (k' \<in> set (st_ready s') \<longleftrightarrow> k' \<in> set (st_ready s))"
    using others s'1(3) ready' s1(4) by (auto simp: reindexed_def split: if_splits)
  obtain l' where l': "mget (st_lanes s') k = Some l'" "lane_data l' = lane_data (l1\<lparr>ln_sequence := q\<rparr>)"
    using reindexed_lane [OF s'1(3), of k] l2 by auto
  have sel: "ln_events l' = ln_events l" "ln_head l' = ln_head l" "ln_sequence l' = q" using l'(2) l1s by (simp_all add: lane_data_sel)
  have "st_records s' = st_records s" using core' by (simp add: core_eq)
  then have head: "head_record s' l' = head_record s l" using sel by (simp add: head_record_def)
  have "k \<in> set (st_ready s') \<longleftrightarrow> (\<exists>r. head_record s l = Some r \<and> r_state r = StateReady)" using ready' out by auto
  then have "lane_fresh s' k l'" unfolding lane_fresh_def head using sel(3) by (simp add: q_def)
  with l'(1) sel show "\<exists>l'. mget (st_lanes s') k = Some l' \<and> ln_events l' = ln_events l \<and> ln_head l' = ln_head l \<and> lane_fresh s' k l'"
    by blast
qed

end
