(* ===== verification/Outbox_Invariant.thy ===== *)
theory Outbox_Invariant
  imports Outbox_Index
begin

text \<open>
  The in-memory index of the outbox is right: every lane holds, from its head on, the live records of its ordering key
  in the order of acceptance, and the heap holds the lanes whose first record is ready. The steps that memory takes
  (a record accepted, updated or deleted, the order compacted) keep this, provided an accepted event identifier is
  not one that a lane or the order still remembers.
\<close>

section \<open>Live records\<close>

definition records_ok :: "(string, Record) gomap \<Rightarrow> bool" where
  "records_ok m \<longleftrightarrow> wf_map m \<and> (\<forall>e r. mget m e = Some r \<longrightarrow> r_event r = e)"

lemma live_Nil [simp]: "live s [] = []"
  by (simp add: live_def map_filter_simps)

lemma live_Cons: "live s (e # es) = (case mget (st_records s) e of None \<Rightarrow> live s es | Some r \<Rightarrow> r # live s es)"
  by (simp add: live_def map_filter_simps split: option.split)

lemma live_append [simp]: "live s (es @ fs) = live s es @ live s fs"
  by (induction es) (auto simp: live_Cons split: option.split)

lemma live_cong: "(\<And>e. e \<in> set es \<Longrightarrow> mget (st_records s) e = mget (st_records s') e) \<Longrightarrow> live s es = live s' es"
  by (induction es) (auto simp: live_Cons split: option.split)

lemma set_live: "set (live s es) = {r. \<exists>e \<in> set es. mget (st_records s) e = Some r}"
  by (induction es) (auto simp: live_Cons split: option.split)

lemma live_events: "records_ok (st_records s) \<Longrightarrow> map r_event (live s es) = filter (\<lambda>e. mget (st_records s) e \<noteq> None) es"
  by (induction es) (auto simp: live_Cons records_ok_def split: option.split)

lemma live_filter [simp]: "live s (filter (\<lambda>e. mget (st_records s) e \<noteq> None) es) = live s es"
  by (induction es) (auto simp: live_Cons split: option.split)

lemma live_mput:
  assumes "records_ok (st_records s)" and "r_event r = e" and "mget (st_records s) e \<noteq> None"
  shows "live (s\<lparr>st_records := mput e r (st_records s)\<rparr>) es = map (\<lambda>x. if r_event x = e then r else x) (live s es)"
  by (induction es) (use assms in \<open>auto simp: live_Cons records_ok_def split: option.split\<close>)

lemma live_mdel:
  assumes "records_ok (st_records s)"
  shows "live (s\<lparr>st_records := mdel e (st_records s)\<rparr>) es = filter (\<lambda>x. r_event x \<noteq> e) (live s es)"
  by (induction es) (use assms in \<open>auto simp: live_Cons records_ok_def split: option.split\<close>)

lemma live_mput_new: "e \<notin> set es \<Longrightarrow> live (s\<lparr>st_records := mput e r (st_records s)\<rparr>) es = live s es"
  by (rule live_cong) auto

lemma live_frame: "st_records s' = st_records s \<Longrightarrow> live s' es = live s es"
  by (simp add: live_def)

definition lane_queue :: "Store \<Rightarrow> string \<Rightarrow> Record list" where
  "lane_queue s k = filter (\<lambda>r. effectiveOrderingKey r = k) (live s (st_order s))"

section \<open>The invariant\<close>

definition lane_shape :: "Store \<Rightarrow> string \<Rightarrow> orderingLane \<Rightarrow> bool" where
  "lane_shape s k l \<longleftrightarrow> ln_head l < length (ln_events l) \<and> live s (drop (ln_head l) (ln_events l)) = lane_queue s k \<and>
     head_record s l \<noteq> None"

definition lanes_ok :: "string set \<Rightarrow> Store \<Rightarrow> bool" where
  "lanes_ok stale s \<longleftrightarrow>
     (\<forall>k. mget (st_lanes s) k = None \<longrightarrow> lane_queue s k = []) \<and>
     (\<forall>k l. mget (st_lanes s) k = Some l \<longrightarrow> lane_shape s k l \<and> (k \<notin> stale \<longrightarrow> lane_fresh s k l))"

definition order_ok :: "Store \<Rightarrow> bool" where
  "order_ok s \<longleftrightarrow> records_ok (st_records s) \<and> distinct (st_order s) \<and> dom (mget (st_records s)) \<subseteq> set (st_order s) \<and>
     sorted_wrt (\<lambda>r1 r2. r_sequence r1 < r_sequence r2) (live s (st_order s))"

definition index_inv :: "Store \<Rightarrow> bool" where
  "index_inv s \<longleftrightarrow> order_ok s \<and> ready_inv s \<and> rh.heap_ok s \<and> lanes_ok {} s"

lemma core_frame:
  assumes "core s' = core s"
  shows "order_ok s' = order_ok s" "lane_queue s' k = lane_queue s k" "live s' es = live s es" "head_record s' l = head_record s l"
    "st_records s' = st_records s"
  using assms by (simp_all add: core_eq order_ok_def lane_queue_def live_def head_record_def)

lemma lane_shape_data: "lane_data l' = lane_data l \<Longrightarrow> lane_shape s k l' = lane_shape s k l"
  by (simp add: lane_shape_def lane_data_sel head_record_def)

lemma lane_fresh_data:
  "lane_data l' = lane_data l \<Longrightarrow> core s' = core s \<Longrightarrow> (k \<in> set (st_ready s') \<longleftrightarrow> k \<in> set (st_ready s)) \<Longrightarrow>
   lane_fresh s' k l' = lane_fresh s k l"
  by (simp add: lane_fresh_def lane_data_sel head_record_def core_eq)

lemma lane_shape_core:
  assumes "core s' = core s"
  shows "lane_shape s' k l = lane_shape s k l"
  by (simp add: lane_shape_def core_frame [OF assms])

lemma refresh_index:
  assumes "order_ok s" "ready_inv s" "rh.heap_ok s" "lanes_ok {k} s" "mget (st_lanes s) k \<noteq> None"
  shows "index_inv (refreshLane k s)"
proof -
  let ?s = "refreshLane k s"
  obtain l where l: "mget (st_lanes s) k = Some l" using assms(5) by auto
  note re = refreshLane_inv [OF assms(2,3) l]
  obtain l' where l': "mget (st_lanes ?s) k = Some l'" "ln_events l' = ln_events l" "ln_head l' = ln_head l" "lane_fresh ?s k l'"
    using re(4) by blast
  have "lane_shape s k l" using assms(4) l by (simp add: lanes_ok_def)
  then have shape: "lane_shape ?s k l'"
    using l' by (auto simp: lane_shape_def head_record_def core_frame [OF re(3)])
  have "mget (st_lanes ?s) k' = None \<Longrightarrow> lane_queue ?s k' = []" for k'
    using assms(4) re(5) l'(1) by (cases "k' = k") (auto simp: lanes_ok_def core_frame [OF re(3)])
  moreover have "lane_shape ?s k' m' \<and> lane_fresh ?s k' m'" if m': "mget (st_lanes ?s) k' = Some m'" for k' m'
  proof (cases "k' = k")
    case True
    with m' l' shape show ?thesis by simp
  next
    case False
    then have "map_option lane_data (mget (st_lanes s) k') = Some (lane_data m')" using re(5) m' by (metis option.simps(9))
    then obtain m where m: "mget (st_lanes s) k' = Some m" "lane_data m' = lane_data m" by auto
    then have "lane_shape s k' m" "lane_fresh s k' m" using assms(4) False by (auto simp: lanes_ok_def)
    then show ?thesis
      using lane_shape_data [OF m(2)] lane_shape_core [OF re(3)] lane_fresh_data [OF m(2) re(3)] re(5) False by simp
  qed
  ultimately have "lanes_ok {} ?s" by (simp add: lanes_ok_def)
  with re assms(1) show ?thesis by (simp add: index_inv_def core_frame [OF re(3)])
qed

section \<open>The order is compacted\<close>

lemma index_inv_order:
  assumes "index_inv s" and same: "st_records t = st_records s" "st_lanes t = st_lanes s" "st_ready t = st_ready s"
    and "live s (st_order t) = live s (st_order s)" "distinct (st_order t)" "dom (mget (st_records s)) \<subseteq> set (st_order t)"
  shows "index_inv t"
proof -
  have l: "live t es = live s es" for es by (rule live_frame [OF same(1)])
  have q: "lane_queue t k = lane_queue s k" "head_record t m = head_record s m" "lane t k = lane s k" for k m
    using assms(5) by (simp_all add: lane_queue_def l head_record_def same lane_def)
  have "order_ok t" using assms by (simp add: index_inv_def order_ok_def l)
  moreover have "ready_inv t" "rh.heap_ok t" using assms(1) by (simp_all add: index_inv_def ready_inv_def heap_ranks same q)
  moreover have "lanes_ok {} t" using assms(1) by (simp add: index_inv_def lanes_ok_def lane_shape_def lane_fresh_def l q same)
  ultimately show ?thesis by (simp add: index_inv_def)
qed

lemma index_inv_frame:
  "index_inv s \<Longrightarrow> st_records t = st_records s \<Longrightarrow> st_lanes t = st_lanes s \<Longrightarrow> st_ready t = st_ready s \<Longrightarrow>
   st_order t = st_order s \<Longrightarrow> index_inv t"
  by (rule index_inv_order) (auto simp: index_inv_def order_ok_def)

lemma compact_inv: "index_inv s \<Longrightarrow> index_inv (compactOrderIfNeeded s)"
proof -
  assume inv: "index_inv s"
  let ?t = "s\<lparr>st_order := filter (\<lambda>e. mget (st_records s) e \<noteq> None) (st_order s), st_deleted := 0\<rparr>"
  have "live s (st_order ?t) = live s (st_order s)" by (simp del: not_None_eq)
  moreover have "distinct (st_order ?t)" "dom (mget (st_records s)) \<subseteq> set (st_order ?t)"
    using inv by (auto simp: index_inv_def order_ok_def)
  ultimately have "index_inv ?t" by (intro index_inv_order [OF inv]) auto
  with inv show ?thesis by (simp add: compactOrderIfNeeded_def)
qed

section \<open>A record is updated\<close>

definition same_place :: "Record \<Rightarrow> Record \<Rightarrow> bool" where
  "same_place r r' \<longleftrightarrow> r_event r' = r_event r \<and> r_sequence r' = r_sequence r \<and> effectiveOrderingKey r' = effectiveOrderingKey r"

lemma lanes_ok_mono: "lanes_ok K s \<Longrightarrow> K \<subseteq> K' \<Longrightarrow> lanes_ok K' s"
  by (auto simp: lanes_ok_def)

lemma head_in_queue:
  assumes "lane_shape s k l" and "head_record s l = Some r"
  shows "hd (lane_queue s k) = r" and "lane_queue s k \<noteq> []" and "r \<in> set (lane_queue s k)"
proof -
  have "ln_head l < length (ln_events l)" using assms(1) by (simp add: lane_shape_def)
  then have "drop (ln_head l) (ln_events l) = ln_events l ! ln_head l # drop (Suc (ln_head l)) (ln_events l)"
    by (simp add: Cons_nth_drop_Suc)
  then have "lane_queue s k = r # live s (drop (Suc (ln_head l)) (ln_events l))"
    using assms by (simp add: lane_shape_def head_record_def live_Cons split: if_splits)
  then show "hd (lane_queue s k) = r" "lane_queue s k \<noteq> []" "r \<in> set (lane_queue s k)" by simp_all
qed

lemma head_key: "lane_shape s k l \<Longrightarrow> head_record s l = Some r \<Longrightarrow> effectiveOrderingKey r = k"
  using head_in_queue(3) by (fastforce simp: lane_queue_def)

lemma is_head_iff:
  assumes "mget (st_lanes s) (effectiveOrderingKey r) = Some l" and "ln_head l < length (ln_events l)"
  shows "is_head r s \<longleftrightarrow> ln_events l ! ln_head l = r_event r"
  using assms by (simp add: is_head_def)

lemma update_inv:
  assumes inv: "index_inv s" and old: "mget (st_records s) (r_event r) = Some r0" and same: "same_place r0 r"
  shows "index_inv (index_updated r s)"
proof -
  let ?s = "s\<lparr>st_records := mput (r_event r) r (st_records s)\<rparr>" and ?k = "effectiveOrderingKey r"
  let ?up = "\<lambda>x. if r_event x = r_event r then r else x"
  have ok: "records_ok (st_records s)" and order: "order_ok s" using inv by (simp_all add: index_inv_def order_ok_def)
  have live': "live ?s es = map ?up (live s es)" for es by (rule live_mput [OF ok refl]) (simp add: old)
  have place: "same_place x (?up x)" if "x \<in> set (live s es)" for x es
  proof (cases "r_event x = r_event r")
    case True
    with that ok old have "x = r0" by (auto simp: set_live records_ok_def)
    with True same show ?thesis by (simp add: same_place_def)
  qed (simp add: same_place_def)
  have queue': "lane_queue ?s k = map ?up (lane_queue s k)" for k
  proof -
    have "filter (\<lambda>x. effectiveOrderingKey x = k) (map ?up xs) = map ?up (filter (\<lambda>x. effectiveOrderingKey x = k) xs)"
      if "\<And>x. x \<in> set xs \<Longrightarrow> same_place x (?up x)" for xs
      using that by (induction xs) (auto simp: same_place_def split: if_splits)
    with place show ?thesis by (simp add: lane_queue_def live')
  qed
  have seq: "r_sequence (?up x) = r_sequence x" if "x \<in> set (live s es)" for x es
    using place [OF that] unfolding same_place_def by blast
  have "sorted_wrt (\<lambda>r1 r2. r_sequence r1 < r_sequence r2) (live s (st_order s))" using order by (simp add: order_ok_def)
  then have "sorted_wrt (\<lambda>r1 r2. r_sequence r1 < r_sequence r2) (map ?up (live s (st_order s)))"
    unfolding sorted_wrt_map by (rule sorted_wrt_mono_rel [rotated]) (simp only: seq)
  then have order': "order_ok ?s"
    using order old by (auto simp: order_ok_def records_ok_def live' dom_def split: if_splits)
  have ready': "ready_inv ?s" "rh.heap_ok ?s"
    using inv by (simp_all add: index_inv_def ready_inv_def heap_ranks)
  have head': "head_record ?s l = map_option ?up (head_record s l)" for l
    using ok old by (cases "mget (st_records s) (ln_events l ! ln_head l)") (auto simp: head_record_def records_ok_def)
  have shape': "lane_shape ?s k l" if "lane_shape s k l" for k l
    using that by (simp add: lane_shape_def live' queue' head')
  have lanes': "lanes_ok {?k} ?s"
    unfolding lanes_ok_def
  proof (intro conjI allI impI)
    fix k assume "mget (st_lanes ?s) k = None"
    then show "lane_queue ?s k = []" using inv by (simp add: queue' index_inv_def lanes_ok_def)
  next
    fix k l assume l: "mget (st_lanes ?s) k = Some l"
    then have shape: "lane_shape s k l" "lane_fresh s k l" using inv by (simp_all add: index_inv_def lanes_ok_def)
    show "lane_shape ?s k l" by (rule shape' [OF shape(1)])
    assume k: "k \<notin> {?k}"
    obtain h where h: "head_record s l = Some h" using shape(1) by (auto simp: lane_shape_def)
    then have "effectiveOrderingKey h = k" using head_key [OF shape(1)] by simp
    moreover have "h = r0" if "r_event h = r_event r"
      using h that ok old by (auto simp: head_record_def records_ok_def split: if_splits)
    ultimately have "r_event h \<noteq> r_event r" using k same by (auto simp: same_place_def)
    then show "lane_fresh ?s k l" using shape(2) h by (simp add: lane_fresh_def head')
  qed
  show ?thesis
  proof (cases "is_head r ?s")
    case True
    then have "mget (st_lanes ?s) ?k \<noteq> None" by (auto simp: is_head_def split: option.splits)
    then have "index_inv (refreshLane ?k ?s)" using refresh_index [OF order' ready' lanes'] by simp
    with True show ?thesis by (simp add: index_updated_def refreshLaneForRecord_def)
  next
    case False
    have "lane_fresh ?s ?k l" if l: "mget (st_lanes s) ?k = Some l" for l
    proof -
      have shape: "lane_shape s ?k l" "lane_fresh s ?k l" using l inv by (simp_all add: index_inv_def lanes_ok_def)
      then have "ln_events l ! ln_head l \<noteq> r_event r" using False l by (simp add: is_head_def lane_shape_def)
      moreover obtain h where h: "head_record s l = Some h" using shape(1) by (auto simp: lane_shape_def)
      ultimately have "r_event h \<noteq> r_event r" using ok by (auto simp: head_record_def records_ok_def split: if_splits)
      then show ?thesis using shape(2) h by (simp add: lane_fresh_def head')
    qed
    then have "lanes_ok {} ?s" using lanes' by (auto simp: lanes_ok_def)
    with False order' ready' show ?thesis by (simp add: index_updated_def refreshLaneForRecord_def index_inv_def)
  qed
qed

section \<open>A record is deleted\<close>

lemma heap_ok_cong:
  assumes "st_ready t = st_ready s" and "\<And>k. k \<in> set (st_ready s) \<Longrightarrow> lane_rank (lane t k) = lane_rank (lane s k)"
  shows "rh.heap_ok t = rh.heap_ok s"
proof -
  have "map (\<lambda>k. lane_rank (lane t k)) (st_ready s) = map (\<lambda>k. lane_rank (lane s k)) (st_ready s)"
    using assms(2) by (intro map_cong) auto
  then show ?thesis by (simp only: heap_ranks assms(1))
qed

lemma put_lane_inv:
  assumes "ready_inv s" and "rh.heap_ok s" and "ln_key l = k"
    and "if k \<in> set (st_ready s) then ln_index l = ln_index (lane s k) \<and> ln_sequence l = ln_sequence (lane s k) else ln_index l = -1"
  shows "ready_inv (put_lane k l s)" and "rh.heap_ok (put_lane k l s)"
proof -
  have lanes: "mget (st_lanes (put_lane k l s)) k' = (if k' = k then Some l else mget (st_lanes s) k')" for k'
    by (simp add: put_lane_def)
  have idx: "ln_index (lane (put_lane k l s) (st_ready s ! i)) = int i" if "i < length (st_ready s)" for i
    using assms(1,4) that nth_mem [OF that] by (auto simp: ready_inv_def split: if_splits)
  show "ready_inv (put_lane k l s)"
    using assms(1,3,4) idx unfolding ready_inv_def dom_def by (auto simp: lanes split: if_splits)
  have "rh.heap_ok (put_lane k l s) = rh.heap_ok s"
    using assms(1,3,4) rank_key [OF assms(1), of k] by (intro heap_ok_cong) (auto simp: lane_rank_def)
  with assms(2) show "rh.heap_ok (put_lane k l s)" by simp
qed

lemma skip_deleted_spec:
  defines "dead recs \<equiv> \<lambda>e. mget recs e = None"
  shows "skip_deleted recs es pos = pos + length (takeWhile (dead recs) es)"
  unfolding dead_def by (induction es arbitrary: pos) auto

lemma skip_deleted_drop:
  fixes s :: Store
  assumes "pos \<le> length es"
  defines "p \<equiv> skip_deleted (st_records s) (drop pos es) pos"
  shows "p \<le> length es" and "live s (drop p es) = live s (drop pos es)"
    and "p < length es \<Longrightarrow> mget (st_records s) (es ! p) \<noteq> None" and "p = length es \<Longrightarrow> live s (drop pos es) = []"
proof -
  let ?dead = "\<lambda>e. mget (st_records s) e = None"
  have p: "p = pos + length (takeWhile ?dead (drop pos es))" by (simp add: p_def skip_deleted_spec)
  have le: "length (takeWhile ?dead (drop pos es)) \<le> length es - pos" by (metis length_drop length_takeWhile_le)
  show "p \<le> length es" using p le assms(1) by simp
  have d: "drop p es = dropWhile ?dead (drop pos es)"
    unfolding p dropWhile_eq_drop by (simp add: add.commute)
  have "live s (dropWhile ?dead xs) = live s xs" for xs by (induction xs) (auto simp: live_Cons)
  then show lv: "live s (drop p es) = live s (drop pos es)" by (simp add: d)
  show "mget (st_records s) (es ! p) \<noteq> None" if "p < length es"
  proof -
    have "dropWhile ?dead (drop pos es) \<noteq> []" using d that by (metis drop_eq_Nil not_le)
    from hd_dropWhile [OF this] have "mget (st_records s) (hd (drop p es)) \<noteq> None" unfolding d by blast
    then show ?thesis using that by (simp add: hd_drop_conv_nth)
  qed
  show "live s (drop pos es) = []" if "p = length es" using lv that by simp
qed

lemma lane_queue_sorted:
  "order_ok s \<Longrightarrow> sorted_wrt (\<lambda>r1 r2. r_sequence r1 < r_sequence r2) (lane_queue s k)"
  by (simp add: order_ok_def lane_queue_def sorted_wrt_filter)

lemma delete_inv:
  assumes inv: "index_inv s" and r: "mget (st_records s) (r_event r) = Some r"
  shows "index_inv (index_deleted r s)"
proof -
  define t where "t = s\<lparr>st_records := mdel (r_event r) (st_records s)\<rparr>"
  let ?k = "effectiveOrderingKey r"
  have t: "st_records t = mdel (r_event r) (st_records s)" "st_lanes t = st_lanes s" "st_ready t = st_ready s" "st_order t = st_order s"
    by (simp_all add: t_def)
  have lane_t: "lane t k = lane s k" for k by (simp add: lane_def t)
  have ok: "records_ok (st_records s)" and order: "order_ok s" and lanes: "lanes_ok {} s"
    using inv by (simp_all add: index_inv_def order_ok_def)
  have live': "live t es = filter (\<lambda>x. r_event x \<noteq> r_event r) (live s es)" for es
    unfolding t_def by (rule live_mdel [OF ok])
  have queue': "lane_queue t k = filter (\<lambda>x. r_event x \<noteq> r_event r) (lane_queue s k)" for k
    by (simp add: lane_queue_def live' t conj_commute)
  have order': "order_ok t"
    using order by (auto simp: order_ok_def records_ok_def t live' sorted_wrt_filter dom_def split: if_splits)
  have ready': "ready_inv t" "rh.heap_ok t"
    using inv lane_t by (simp_all add: index_inv_def ready_inv_def heap_ranks t)
  have unaffected: "lane_shape t k l \<and> lane_fresh t k l"
    if "mget (st_lanes s) k = Some l" and ne: "ln_events l ! ln_head l \<noteq> r_event r" for k l
  proof -
    have "lane_shape s k l" "lane_fresh s k l" using that(1) lanes by (simp_all add: lanes_ok_def)
    moreover have "head_record t l = head_record s l" using ne by (simp add: head_record_def t)
    ultimately show ?thesis by (simp add: lane_shape_def lane_fresh_def live' queue' t)
  qed
  have queue_None: "lane_queue t k = []" if "mget (st_lanes s) k = None" for k
    using that lanes by (simp add: lanes_ok_def queue')
  have mem: "r \<in> set (lane_queue s ?k)"
    using r order by (force simp: lane_queue_def set_live order_ok_def)
  then obtain l where l: "mget (st_lanes s) ?k = Some l" using lanes unfolding lanes_ok_def by fastforce
  then have shape: "lane_shape s ?k l" using lanes by (simp add: lanes_ok_def)
  have others: "ln_events l' ! ln_head l' \<noteq> r_event r" if "mget (st_lanes s) k = Some l'" "k \<noteq> ?k" for k l'
  proof -
    have sh: "lane_shape s k l'" using that(1) lanes by (simp add: lanes_ok_def)
    then obtain h where h: "head_record s l' = Some h" by (auto simp: lane_shape_def)
    then have "h \<noteq> r" using head_key [OF sh h] that(2) by auto
    then show ?thesis using h r by (auto simp: head_record_def split: if_splits)
  qed
  show ?thesis
  proof (cases "is_head r t")
    case False
    then have "ln_events l ! ln_head l \<noteq> r_event r" using l shape by (simp add: is_head_def t lane_shape_def)
    with l others have "ln_events l' ! ln_head l' \<noteq> r_event r" if "mget (st_lanes s) k = Some l'" for k l'
      using that by (cases "k = ?k") auto
    then have "lanes_ok {} t" using unaffected queue_None by (simp add: lanes_ok_def t)
    with False order' ready' show ?thesis by (simp add: index_deleted_def removeIndexed_def index_inv_def flip: t_def)
  next
    case True
    then have e: "ln_events l ! ln_head l = r_event r" using l by (simp add: is_head_def t)
    define s1 where "s1 = remove_ready (ln_index (lane t ?k)) t"
    have s1: "ready_inv s1" "rh.heap_ok s1" "reindexed t s1" "set (st_ready s1) = set (st_ready t) - {?k}"
      using remove_ready_inv [OF ready', of ?k] l unfolding s1_def t by simp_all
    have c1: "core s1 = core t" using s1(3) by (simp add: reindexed_def)
    obtain l1 where l1: "mget (st_lanes s1) ?k = Some l1" "lane_data l1 = lane_data l"
      using reindexed_lane [OF s1(3), of ?k l] l t(2) by auto
    have l1s: "ln_events l1 = ln_events l" "ln_head l1 = ln_head l" "lane s1 ?k = l1" using l1 by (simp_all add: lane_data_sel lane_Some)
    define p where "p = skip_deleted (st_records t) (drop (Suc (ln_head l)) (ln_events l)) (Suc (ln_head l))"
    have hlt: "Suc (ln_head l) \<le> length (ln_events l)" using shape by (simp add: lane_shape_def)
    note skip = skip_deleted_drop [OF hlt, of t, folded p_def]
    have "drop (ln_head l) (ln_events l) = r_event r # drop (Suc (ln_head l)) (ln_events l)"
      using shape e by (simp add: lane_shape_def flip: Cons_nth_drop_Suc)
    then have "lane_queue s ?k = r # live s (drop (Suc (ln_head l)) (ln_events l))"
      using shape r by (simp add: lane_shape_def live_Cons)
    then have q: "lane_queue t ?k = live t (drop (Suc (ln_head l)) (ln_events l))" by (simp add: queue' live')
    have del: "index_deleted r s =
        (if p = length (ln_events l) then s1\<lparr>st_lanes := mdel ?k (st_lanes s1)\<rparr>
         else refreshLane ?k (put_lane ?k (trim_lane (l1\<lparr>ln_head := p\<rparr>)) s1))"
    proof -
      have "st_records s1 = st_records t" using c1 by (simp add: core_eq)
      then show ?thesis
        using True unfolding index_deleted_def t_def [symmetric] removeIndexed_def Let_def s1_def [symmetric] l1s p_def
        by simp
    qed
    have keep: "lane_shape s1 k m \<and> lane_fresh s1 k m" if m: "mget (st_lanes s1) k = Some m" "k \<noteq> ?k" for k m
    proof -
      obtain m0 where m0: "mget (st_lanes s) k = Some m0" "lane_data m = lane_data m0"
        using m(1) reindexed_dom [OF s1(3), of k] reindexed_data [OF s1(3), of k] by (auto simp: lane_Some t)
      then have "lane_shape t k m0 \<and> lane_fresh t k m0" using unaffected others m(2) by blast
      then show ?thesis
        using lane_shape_data [OF m0(2)] lane_shape_core [OF c1] lane_fresh_data [OF m0(2) c1] s1(4) m(2) by simp
    qed
    have none: "lane_queue s1 k = []" if "mget (st_lanes s1) k = None" for k
      using that queue_None [of k] reindexed_dom [OF s1(3)] by (simp add: core_frame [OF c1] t)
    have out: "?k \<notin> set (st_ready s1)" using s1(4) by simp
    have order1: "order_ok s1" using order' by (simp add: core_frame [OF c1])
    show ?thesis
    proof (cases "p = length (ln_events l)")
      case True
      let ?u = "s1\<lparr>st_lanes := mdel ?k (st_lanes s1)\<rparr>"
      have cu: "core ?u = core s1" by simp
      have "lane_queue s1 ?k = []" using q skip(4) True by (simp add: core_frame [OF c1])
      then have "lanes_ok {} ?u"
        using keep none by (auto simp: lanes_ok_def core_frame [OF cu] lane_shape_core [OF cu] lane_fresh_def split: if_splits)
      moreover have lu: "lane ?u k = lane s1 k" if "k \<in> set (st_ready s1)" for k
        using that out by (auto simp: lane_def mget_or_def)
      have "ready_inv ?u" using s1(1) out lu by (auto simp: ready_inv_def dom_def split: if_splits)
      moreover have "rh.heap_ok ?u" using heap_ok_cong [of ?u s1] lu s1(2) by simp
      ultimately show ?thesis using True del order1 by (simp add: index_inv_def core_frame [OF cu])
    next
      case False
      let ?m = "trim_lane (l1\<lparr>ln_head := p\<rparr>)" and ?u = "put_lane ?k (trim_lane (l1\<lparr>ln_head := p\<rparr>)) s1"
      have p: "p < length (ln_events l)" using skip(1) False by simp
      have cu: "core ?u = core t" using c1 by simp
      have m: "drop (ln_head ?m) (ln_events ?m) = drop p (ln_events l)" "ln_head ?m < length (ln_events ?m)"
        "ln_events ?m ! ln_head ?m = ln_events l ! p" "ln_index ?m = ln_index l1" "ln_key ?m = ln_key l1"
        using p by (simp_all add: trim_lane_def l1s)
      have "head_record t ?m \<noteq> None" using m skip(3) p by (simp add: head_record_def)
      then have "lane_shape t ?k ?m" using m q skip(2) by (simp add: lane_shape_def)
      then have "lane_shape ?u ?k ?m" by (simp add: lane_shape_core [OF cu])
      moreover have "lane_shape ?u k m' \<and> lane_fresh ?u k m'" if "mget (st_lanes s1) k = Some m'" "k \<noteq> ?k" for k m'
        using keep [OF that] lane_shape_core [of ?u s1 k m'] lane_fresh_data [of m' m' ?u s1 k] by simp
      moreover have "lane_queue ?u k = []" if "mget (st_lanes s1) k = None" for k
        using none [OF that] by (simp add: core_frame [of ?u s1])
      ultimately have lanes_u: "lanes_ok {?k} ?u" by (auto simp: lanes_ok_def put_lane_def)
      have "ln_index l1 = -1" "ln_key l1 = ?k" using s1(1) l1(1) out by (simp_all add: ready_inv_def)
      then have "ready_inv ?u" "rh.heap_ok ?u" using put_lane_inv [OF s1(1,2), of ?m ?k] out m by simp_all
      moreover have "order_ok ?u" using order' by (simp add: core_frame [OF cu])
      ultimately have "index_inv (refreshLane ?k ?u)" using lanes_u by (intro refresh_index) (auto simp: put_lane_def)
      with del False show ?thesis by simp
    qed
  qed
qed

section \<open>A record is accepted\<close>

text \<open>An event identifier that neither the order nor a lane, from its head on, remembers.\<close>

definition fresh_event :: "Store \<Rightarrow> string \<Rightarrow> bool" where
  "fresh_event s e \<longleftrightarrow> e \<notin> set (st_order s) \<and>
     (\<forall>k l. mget (st_lanes s) k = Some l \<longrightarrow> e \<notin> set (drop (ln_head l) (ln_events l)))"

lemma accept_inv:
  assumes inv: "index_inv s" and fresh: "fresh_event s (r_event r)"
    and seq: "\<And>x. x \<in> set (live s (st_order s)) \<Longrightarrow> r_sequence x < r_sequence r"
  shows "index_inv (index_accepted r s)"
proof -
  define t where "t = s\<lparr>st_records := mput (r_event r) r (st_records s), st_order := st_order s @ [r_event r]\<rparr>"
  let ?k = "effectiveOrderingKey r"
  have t: "st_records t = mput (r_event r) r (st_records s)" "st_lanes t = st_lanes s" "st_ready t = st_ready s"
    "st_order t = st_order s @ [r_event r]" by (simp_all add: t_def)
  have lane_t: "lane t k = lane s k" for k by (simp add: lane_def t)
  have order: "order_ok s" and lanes: "lanes_ok {} s" using inv by (simp_all add: index_inv_def)
  have old: "live t es = live s es" if "r_event r \<notin> set es" for es
    using that by (intro live_cong) (auto simp: t)
  have e: "r_event r \<notin> set (st_order s)" using fresh by (simp add: fresh_event_def)
  have lv: "live t (st_order t) = live s (st_order s) @ [r]"
    using old [OF e] by (simp add: t live_Cons)
  have queue': "lane_queue t k = lane_queue s k @ (if k = ?k then [r] else [])" for k
    unfolding lane_queue_def lv by simp
  have order': "order_ok t"
    using order e seq unfolding order_ok_def lv
    by (auto simp: t records_ok_def sorted_wrt_append dom_def split: if_splits)
  have ready': "ready_inv t" "rh.heap_ok t"
    using inv lane_t heap_ok_cong [of t s] by (auto simp: index_inv_def ready_inv_def t)
  have lane_e: "r_event r \<notin> set (drop (ln_head l) (ln_events l))" "ln_events l ! ln_head l \<noteq> r_event r"
    if l: "mget (st_lanes s) k = Some l" for k l
  proof -
    show ne: "r_event r \<notin> set (drop (ln_head l) (ln_events l))" using fresh l by (simp add: fresh_event_def)
    have "ln_head l < length (ln_events l)" using lanes l by (simp add: lanes_ok_def lane_shape_def)
    then have "ln_events l ! ln_head l \<in> set (drop (ln_head l) (ln_events l))" by (metis Cons_nth_drop_Suc list.set_intros(1))
    with ne show "ln_events l ! ln_head l \<noteq> r_event r" by auto
  qed
  have keep: "lane_shape t k l \<and> lane_fresh t k l" if l: "mget (st_lanes s) k = Some l" "k \<noteq> ?k" for k l
  proof -
    have "lane_shape s k l" "lane_fresh s k l" using l lanes by (simp_all add: lanes_ok_def)
    moreover have "head_record t l = head_record s l" using lane_e(2) [OF l(1)] by (simp add: head_record_def t)
    ultimately show ?thesis using old lane_e(1) [OF l(1)] l(2) by (simp add: lane_shape_def lane_fresh_def queue' t)
  qed
  define m where "m = (lane t ?k)\<lparr>ln_events := ln_events (lane t ?k) @ [r_event r]\<rparr>"
  let ?u = "put_lane ?k m t"
  have cu: "core ?u = core t" by simp
  have idx: "index_accepted r s = (if length (ln_events m) = 1 then refreshLane ?k ?u else ?u)"
    unfolding index_accepted_def indexAccepted_def t_def [symmetric] Let_def m_def by simp
  have other_lanes: "lane_shape ?u k l \<and> lane_fresh ?u k l" if "mget (st_lanes s) k = Some l" "k \<noteq> ?k" for k l
    using keep [OF that] lane_shape_core [OF cu] lane_fresh_data [of l l ?u t k] by simp
  have lanes_u: "mget (st_lanes ?u) k = (if k = ?k then Some m else mget (st_lanes s) k)" for k
    by (simp add: put_lane_def t)
  have no_lane: "lane_queue ?u k = []" if "mget (st_lanes s) k = None" "k \<noteq> ?k" for k
    using that lanes unfolding core_frame(2) [OF cu] queue' by (simp add: lanes_ok_def)
  have order_u: "order_ok ?u" using order' by (simp only: core_frame [OF cu])
  show ?thesis
  proof (cases "mget (st_lanes s) ?k")
    case None
    then have m: "m = (new_lane ?k)\<lparr>ln_events := [r_event r]\<rparr>"
      by (simp add: m_def lane_t) (simp add: lane_def mget_or_def new_lane_def)
    have "lane_queue s ?k = []" using None lanes by (simp add: lanes_ok_def)
    then have "lane_shape t ?k m" by (simp add: m new_lane_def lane_shape_def queue' live_Cons t head_record_def)
    then have "lane_shape ?u ?k m" by (simp only: lane_shape_core [OF cu])
    then have "lanes_ok {?k} ?u" using other_lanes no_lane by (simp add: lanes_ok_def lanes_u)
    moreover have "?k \<notin> set (st_ready t)" using None ready'(1) by (auto simp: ready_inv_def t)
    then have "ready_inv ?u" "rh.heap_ok ?u" using put_lane_inv [OF ready', of m ?k] by (simp_all add: m new_lane_def)
    ultimately have "index_inv (refreshLane ?k ?u)" using order_u by (intro refresh_index) (auto simp: lanes_u)
    then show ?thesis using idx by (simp add: m)
  next
    case (Some l)
    then have m: "m = l\<lparr>ln_events := ln_events l @ [r_event r]\<rparr>" by (simp add: m_def lane_t lane_Some)
    have l: "lane_shape s ?k l" "lane_fresh s ?k l" using Some lanes by (simp_all add: lanes_ok_def)
    then have head: "ln_head l < length (ln_events l)" by (simp add: lane_shape_def)
    have rec: "head_record t m = head_record s l"
      using lane_e(2) [OF Some] head by (simp add: head_record_def m t nth_append)
    then have "lane_shape t ?k m"
      using l(1) head old [OF lane_e(1) [OF Some]] by (simp add: lane_shape_def m queue') (simp add: live_Cons t)
    moreover have "lane_fresh t ?k m" using l(2) rec by (simp add: lane_fresh_def m t)
    ultimately have "lane_shape ?u ?k m \<and> lane_fresh ?u ?k m"
      using lane_shape_core [OF cu] lane_fresh_data [of m m ?u t ?k] by simp
    then have "lanes_ok {} ?u" using other_lanes no_lane by (simp add: lanes_ok_def lanes_u)
    moreover have "ln_key l = ?k" "?k \<notin> set (st_ready t) \<Longrightarrow> ln_index l = -1" "lane t ?k = l"
      using ready'(1) Some lane_t by (auto simp: ready_inv_def t lane_Some)
    then have "ready_inv ?u" "rh.heap_ok ?u" using put_lane_inv [OF ready', of m ?k] by (simp_all add: m)
    moreover have "length (ln_events m) \<noteq> 1" using head by (auto simp: m)
    ultimately show ?thesis using idx order_u by (simp add: index_inv_def)
  qed
qed

end
