(* ===== verification/Outbox_Store.thy ===== *)
theory Outbox_Store
  imports Outbox_Invariant
begin

text \<open>
  The invariant of the whole outbox: the index in memory, the records (valid, within the limits, with sequence numbers
  below the next one) and the database, which holds the same records. Every operation keeps it, whether its
  transaction commits or not, and acts on the list of live records in acceptance order the way its abstract
  specification says.
\<close>

section \<open>What a step of memory changes\<close>

definition memory_frame :: "Store \<Rightarrow> Store \<Rightarrow> bool" where
  "memory_frame s s' \<longleftrightarrow> st_limits s' = st_limits s \<and> st_open s' = st_open s \<and> st_db s' = st_db s \<and> st_next s' = st_next s \<and>
     st_bytes s' = st_bytes s \<and> st_high_messages s' = st_high_messages s \<and> st_high_bytes s' = st_high_bytes s \<and>
     st_deleted s' = st_deleted s"

lemma memory_frame_refl [simp]: "memory_frame s s"
  by (simp add: memory_frame_def)

lemma memory_frame_trans: "memory_frame s t \<Longrightarrow> memory_frame t u \<Longrightarrow> memory_frame s u"
  by (simp add: memory_frame_def)

lemma core_swap [simp]: "core (Swap readyLaneHeap i j s) = core s"
  by (simp add: readyLaneHeap_def ready_Swap_def Let_def)

lemma core_up [simp]: "core (heap_up readyLaneHeap j s) = core s"
proof (induction j arbitrary: s rule: less_induct)
  case (less j)
  show ?case
    using less [of "parent j"] parent_le [of j] by (subst heap_up.simps) (auto simp: Let_def)
qed

lemma core_down [simp]: "core (snd (heap_down readyLaneHeap j n s)) = core s"
proof (induction "n - j" arbitrary: j s rule: less_induct)
  case less
  have "core (snd (heap_down readyLaneHeap i n (Swap readyLaneHeap j i s))) = core s" if "j < i" "i < n" for i
    using that less [of i] by (simp add: diff_less_mono2)
  then show ?case by (subst heap_down.simps) (simp add: Let_def)
qed

lemma core_remove_ready [simp]: "core (remove_ready i s) = core s"
  by (simp add: remove_ready_def heap_Remove_def heap_nth_last_def ready_Pop_def Let_def case_prod_unfold)

lemma core_push [simp]: "core (heap_Push readyLaneHeap (ready_Push k) s) = core s"
  by (simp add: heap_Push_def Let_def) (simp add: ready_Push_def)

text \<open>The heap operations do not touch what a lane holds.\<close>

definition lane_view :: "Store \<Rightarrow> string \<Rightarrow> string list \<times> nat" where
  "lane_view s k = (ln_events (lane s k), ln_head (lane s k))"

lemma view_set [simp]: "lane_view (set_index k i s) = lane_view s" "lane_view (set_sequence k q s) = lane_view s"
  "lane_view (s\<lparr>st_ready := ks\<rparr>) = lane_view s"
  by (auto simp: lane_view_def)

lemma view_swap [simp]: "lane_view (Swap readyLaneHeap i j s) = lane_view s"
  by (simp add: readyLaneHeap_def ready_Swap_def Let_def)

lemma view_up [simp]: "lane_view (heap_up readyLaneHeap j s) = lane_view s"
proof (induction j arbitrary: s rule: less_induct)
  case (less j)
  show ?case
    using less [of "parent j"] parent_le [of j] by (subst heap_up.simps) (auto simp: Let_def)
qed

lemma view_down [simp]: "lane_view (snd (heap_down readyLaneHeap j n s)) = lane_view s"
proof (induction "n - j" arbitrary: j s rule: less_induct)
  case less
  have "lane_view (snd (heap_down readyLaneHeap i n (Swap readyLaneHeap j i s))) = lane_view s" if "j < i" "i < n" for i
    using that less [of i] by (simp add: diff_less_mono2)
  then show ?case by (subst heap_down.simps) (simp add: Let_def)
qed

lemma view_remove_ready [simp]: "lane_view (remove_ready i s) = lane_view s"
  by (simp add: remove_ready_def heap_Remove_def heap_nth_last_def ready_Pop_def Let_def case_prod_unfold)

lemma view_push [simp]: "lane_view (heap_Push readyLaneHeap (ready_Push k) s) = lane_view s"
  by (simp add: heap_Push_def Let_def) (simp add: ready_Push_def)

lemma view_refreshLane [simp]: "lane_view (refreshLane k s) = lane_view s"
  by (simp add: refreshLane_def Let_def split: option.split)

lemma core_refreshLane [simp]: "core (refreshLane k s) = core s"
  by (simp add: refreshLane_def Let_def split: option.split)

lemma core_indexing [simp]: "core (indexAccepted r s) = core s" "core (refreshLaneForRecord r s) = core s" "core (removeIndexed r s) = core s"
  by (simp_all add: indexAccepted_def refreshLaneForRecord_def removeIndexed_def Let_def)

lemma core_memory: "core s' = core t \<Longrightarrow> memory_frame s t \<Longrightarrow> memory_frame s s'"
  by (simp add: core_eq memory_frame_def)

lemma index_accepted_frame: "memory_frame s (index_accepted r s)"
  "st_records (index_accepted r s) = mput (r_event r) r (st_records s)" "st_order (index_accepted r s) = st_order s @ [r_event r]"
proof -
  let ?t = "s\<lparr>st_records := mput (r_event r) r (st_records s), st_order := st_order s @ [r_event r]\<rparr>"
  have c: "core (index_accepted r s) = core ?t" by (simp add: index_accepted_def)
  show "memory_frame s (index_accepted r s)" by (rule core_memory [OF c]) (simp add: memory_frame_def)
  show "st_records (index_accepted r s) = mput (r_event r) r (st_records s)" "st_order (index_accepted r s) = st_order s @ [r_event r]"
    using c by (simp_all add: core_eq)
qed

lemma index_updated_frame: "memory_frame s (index_updated r s)"
  "st_records (index_updated r s) = mput (r_event r) r (st_records s)" "st_order (index_updated r s) = st_order s"
proof -
  let ?t = "s\<lparr>st_records := mput (r_event r) r (st_records s)\<rparr>"
  have c: "core (index_updated r s) = core ?t" by (simp add: index_updated_def)
  show "memory_frame s (index_updated r s)" by (rule core_memory [OF c]) (simp add: memory_frame_def)
  show "st_records (index_updated r s) = mput (r_event r) r (st_records s)" "st_order (index_updated r s) = st_order s"
    using c by (simp_all add: core_eq)
qed

lemma index_deleted_frame: "memory_frame s (index_deleted r s)"
  "st_records (index_deleted r s) = mdel (r_event r) (st_records s)" "st_order (index_deleted r s) = st_order s"
proof -
  let ?t = "s\<lparr>st_records := mdel (r_event r) (st_records s)\<rparr>"
  have c: "core (index_deleted r s) = core ?t" by (simp add: index_deleted_def)
  show "memory_frame s (index_deleted r s)" by (rule core_memory [OF c]) (simp add: memory_frame_def)
  show "st_records (index_deleted r s) = mdel (r_event r) (st_records s)" "st_order (index_deleted r s) = st_order s"
    using c by (simp_all add: core_eq)
qed

section \<open>The database holds the records\<close>

definition db_data :: "(string, Record) gomap \<Rightarrow> database \<Rightarrow> bool" where
  "db_data recs db \<longleftrightarrow> wf_map (db_records db) \<and> wf_map (db_events db) \<and>
     (\<forall>e1 e2 r1 r2. mget recs e1 = Some r1 \<longrightarrow> mget recs e2 = Some r2 \<longrightarrow> r_sequence r1 = r_sequence r2 \<longrightarrow> e1 = e2) \<and>
     (\<forall>e r. mget recs e = Some r \<longrightarrow> mget (db_records db) (uint64Bytes (r_sequence r)) = Some (Some r)) \<and>
     (\<forall>key v. mget (db_records db) key = Some v \<longrightarrow> (\<exists>e r. mget recs e = Some r \<and> key = uint64Bytes (r_sequence r))) \<and>
     (\<forall>e. mget (db_events db) e = map_option (\<lambda>r. uint64Bytes (r_sequence r)) (mget recs e))"

lemma db_dataD:
  assumes "db_data recs db"
  shows "wf_map (db_records db)" and "wf_map (db_events db)"
    and "mget recs e1 = Some r1 \<Longrightarrow> mget recs e2 = Some r2 \<Longrightarrow> r_sequence r1 = r_sequence r2 \<Longrightarrow> e1 = e2"
    and "mget recs e = Some r \<Longrightarrow> mget (db_records db) (uint64Bytes (r_sequence r)) = Some (Some r)"
    and "mget (db_records db) key = Some v \<Longrightarrow> \<exists>e r. mget recs e = Some r \<and> key = uint64Bytes (r_sequence r)"
    and "mget (db_events db) e = map_option (\<lambda>r. uint64Bytes (r_sequence r)) (mget recs e)"
  using assms unfolding db_data_def by blast+

lemma db_dataI:
  assumes "wf_map (db_records db)" and "wf_map (db_events db)"
    and "\<And>e1 e2 r1 r2. mget recs e1 = Some r1 \<Longrightarrow> mget recs e2 = Some r2 \<Longrightarrow> r_sequence r1 = r_sequence r2 \<Longrightarrow> e1 = e2"
    and "\<And>e r. mget recs e = Some r \<Longrightarrow> mget (db_records db) (uint64Bytes (r_sequence r)) = Some (Some r)"
    and "\<And>key v. mget (db_records db) key = Some v \<Longrightarrow> \<exists>e r. mget recs e = Some r \<and> key = uint64Bytes (r_sequence r)"
    and "\<And>e. mget (db_events db) e = map_option (\<lambda>r. uint64Bytes (r_sequence r)) (mget recs e)"
  shows "db_data recs db"
  using assms unfolding db_data_def by blast

lemma db_data_put:
  assumes "db_data recs db" and other: "\<And>e x. mget recs e = Some x \<Longrightarrow> e \<noteq> r_event r \<Longrightarrow> r_sequence x \<noteq> r_sequence r"
    and old: "\<And>x. mget recs (r_event r) = Some x \<Longrightarrow> r_sequence x = r_sequence r"
    and ev: "db_events db' = (if mget recs (r_event r) = None then mput (r_event r) (uint64Bytes (r_sequence r)) (db_events db) else db_events db)"
    and rec: "db_records db' = mput (uint64Bytes (r_sequence r)) (Some r) (db_records db)"
  shows "db_data (mput (r_event r) r recs) db'"
proof (rule db_dataI)
  show "wf_map (db_records db')" "wf_map (db_events db')" using db_dataD(1,2) [OF assms(1)] by (simp_all add: ev rec)
  show "e1 = e2" if "mget (mput (r_event r) r recs) e1 = Some r1" "mget (mput (r_event r) r recs) e2 = Some r2" "r_sequence r1 = r_sequence r2" for e1 e2 r1 r2
    using that other [of e1 r1] other [of e2 r2] db_dataD(3) [OF assms(1), of e1 r1 e2 r2] by (auto split: if_splits)
  show "mget (db_records db') (uint64Bytes (r_sequence x)) = Some (Some x)" if "mget (mput (r_event r) r recs) e = Some x" for e x
    using that other [of e x] db_dataD(4) [OF assms(1), of e x] by (auto simp: rec split: if_splits)
  show "\<exists>e x. mget (mput (r_event r) r recs) e = Some x \<and> key = uint64Bytes (r_sequence x)" if "mget (db_records db') key = Some v" for key v
  proof (cases "key = uint64Bytes (r_sequence r)")
    case False
    with that obtain e x where ex: "mget recs e = Some x" "key = uint64Bytes (r_sequence x)"
      using db_dataD(5) [OF assms(1), of key v] by (auto simp: rec)
    with False old have "e \<noteq> r_event r" by auto
    with ex have "mget (mput (r_event r) r recs) e = Some x" by simp
    with ex(2) show ?thesis by blast
  qed auto
  show "mget (db_events db') e = map_option (\<lambda>r. uint64Bytes (r_sequence r)) (mget (mput (r_event r) r recs) e)" for e
    using db_dataD(6) [OF assms(1), of e] old by (auto simp: ev)
qed

lemma db_data_accept:
  assumes "db_data recs db" and "mget recs (r_event r) = None" and "\<And>e x. mget recs e = Some x \<Longrightarrow> r_sequence x \<noteq> r_sequence r"
  shows "db_data (mput (r_event r) r recs) (put_event (r_event r) (r_sequence r) (put_record (r_sequence r) r db))"
  by (rule db_data_put [OF assms(1)]) (use assms in \<open>auto simp: put_event_def put_record_def\<close>)

lemma db_data_update:
  assumes "db_data recs db" and "mget recs (r_event r) = Some r0" and "r_sequence r0 = r_sequence r"
  shows "db_data (mput (r_event r) r recs) (put_record (r_sequence r) r db)"
proof (rule db_data_put [OF assms(1)])
  show "r_sequence x \<noteq> r_sequence r" if "mget recs e = Some x" "e \<noteq> r_event r" for e x
    using db_dataD(3) [OF assms(1) that(1) assms(2)] that(2) assms(3) by auto
qed (use assms in \<open>auto simp: put_record_def\<close>)

lemma db_data_delete:
  assumes "db_data recs db" and r: "mget recs (r_event r) = Some r"
  shows "db_data (mdel (r_event r) recs) (delete_record r db)"
proof (rule db_dataI)
  let ?db = "delete_record r db"
  have other: "r_sequence x \<noteq> r_sequence r" if "mget recs e = Some x" "e \<noteq> r_event r" for e x
    using db_dataD(3) [OF assms(1) that(1) r] that(2) by auto
  show "wf_map (db_records ?db)" "wf_map (db_events ?db)" using db_dataD(1,2) [OF assms(1)] by (simp_all add: delete_record_def)
  show "e1 = e2" if "mget (mdel (r_event r) recs) e1 = Some r1" "mget (mdel (r_event r) recs) e2 = Some r2" "r_sequence r1 = r_sequence r2" for e1 e2 r1 r2
    using that db_dataD(3) [OF assms(1), of e1 r1 e2 r2] by (auto split: if_splits)
  show "mget (db_records ?db) (uint64Bytes (r_sequence x)) = Some (Some x)" if "mget (mdel (r_event r) recs) e = Some x" for e x
    using that other [of e x] db_dataD(4) [OF assms(1), of e x] by (auto simp: delete_record_def split: if_splits)
  show "\<exists>e x. mget (mdel (r_event r) recs) e = Some x \<and> key = uint64Bytes (r_sequence x)" if "mget (db_records ?db) key = Some v" for key v
  proof -
    from that obtain e x where ex: "mget recs e = Some x" "key = uint64Bytes (r_sequence x)" "key \<noteq> uint64Bytes (r_sequence r)"
      using db_dataD(5) [OF assms(1), of key v] by (auto simp: delete_record_def split: if_splits)
    with r have "e \<noteq> r_event r" by auto
    with ex have "mget (mdel (r_event r) recs) e = Some x" by simp
    with ex(2) show ?thesis by blast
  qed
  show "mget (db_events ?db) e = map_option (\<lambda>r. uint64Bytes (r_sequence r)) (mget (mdel (r_event r) recs) e)" for e
    using db_dataD(6) [OF assms(1), of e] by (simp add: delete_record_def)
qed

lemma db_data_metadata [simp]: "db_data recs (put_metadata k v db) = db_data recs db"
  by (simp add: db_data_def put_metadata_def)

definition db_meta :: "u64 \<Rightarrow> int \<Rightarrow> database \<Rightarrow> bool" where
  "db_meta nxt tot db \<longleftrightarrow> readUint64 (db_metadata db) formatKey = Inr databaseFormatVersion \<and>
     readUint64 (db_metadata db) nextSequenceKey = Inr nxt \<and> readUint64 (db_metadata db) totalBytesKey = Inr (of_int tot)"

section \<open>The queue of live records\<close>

definition queue :: "Store \<Rightarrow> Record list" where
  "queue s = live s (st_order s)"

lemma queue_events:
  assumes "index_inv s"
  shows "distinct (map r_event (queue s))" and "set (map r_event (queue s)) = dom (mget (st_records s))"
    and "length (queue s) = length (st_records s)"
proof -
  have ok: "records_ok (st_records s)" "distinct (st_order s)" "dom (mget (st_records s)) \<subseteq> set (st_order s)"
    using assms by (simp_all add: index_inv_def order_ok_def)
  show d: "distinct (map r_event (queue s))" and e: "set (map r_event (queue s)) = dom (mget (st_records s))"
    using ok by (auto simp: queue_def live_events)
  have "length (queue s) = card (dom (mget (st_records s)))" using distinct_card [OF d] e by simp
  also have "\<dots> = length (map fst (st_records s))"
    using ok(1) distinct_card [of "map fst (st_records s)"] by (simp add: records_ok_def wf_map_def dom_map_of_conv_image_fst)
  also have "\<dots> = length (st_records s)" by simp
  finally show "length (queue s) = length (st_records s)" .
qed

lemma queue_member:
  assumes "index_inv s"
  shows "r \<in> set (queue s) \<longleftrightarrow> mget (st_records s) (r_event r) = Some r"
proof -
  have "records_ok (st_records s)" "dom (mget (st_records s)) \<subseteq> set (st_order s)" using assms by (simp_all add: index_inv_def order_ok_def)
  then show ?thesis unfolding queue_def set_live records_ok_def dom_def by blast
qed

lemma queue_frame: "st_records t = st_records s \<Longrightarrow> st_order t = st_order s \<Longrightarrow> queue t = queue s"
  by (simp add: queue_def live_def)

lemma fresh_view: "fresh_event s e \<longleftrightarrow> e \<notin> set (st_order s) \<and> (\<forall>k. e \<notin> set (drop (snd (lane_view s k)) (fst (lane_view s k))))"
proof -
  have "(\<forall>k l. mget (st_lanes s) k = Some l \<longrightarrow> e \<notin> set (drop (ln_head l) (ln_events l))) \<longleftrightarrow>
      (\<forall>k. e \<notin> set (drop (ln_head (lane s k)) (ln_events (lane s k))))"
    by (auto simp: lane_def mget_or_def new_lane_def split: option.split)
  then show ?thesis by (simp add: fresh_event_def lane_view_def)
qed

lemma queue_accept:
  assumes "fresh_event s (r_event r)"
  shows "queue (index_accepted r s) = queue s @ [r]"
proof -
  have "live (index_accepted r s) (st_order s) = live s (st_order s)"
    using assms by (intro live_cong) (auto simp: index_accepted_frame fresh_event_def)
  then show ?thesis by (simp add: queue_def index_accepted_frame live_Cons)
qed

lemma fresh_accept:
  assumes "index_inv s" and "fresh_event s e" and "e \<noteq> r_event r"
  shows "fresh_event (index_accepted r s) e"
proof -
  let ?k = "effectiveOrderingKey r"
  let ?t = "s\<lparr>st_records := mput (r_event r) r (st_records s), st_order := st_order s @ [r_event r]\<rparr>"
  have "lane_view (index_accepted r s) k =
      (if k = ?k then (ln_events (lane s k) @ [r_event r], ln_head (lane s k)) else lane_view s k)" for k
    by (simp add: index_accepted_def indexAccepted_def Let_def) (simp add: lane_view_def)
  then show ?thesis
    using assms by (auto simp: fresh_view index_accepted_frame lane_view_def dest: in_set_dropD split: if_splits)
qed

lemma queue_update:
  assumes "index_inv s" and "mget (st_records s) (r_event r) \<noteq> None"
  shows "queue (index_updated r s) = map (\<lambda>x. if r_event x = r_event r then r else x) (queue s)"
proof -
  let ?t = "s\<lparr>st_records := mput (r_event r) r (st_records s)\<rparr>"
  have "queue (index_updated r s) = queue ?t" by (rule queue_frame) (simp_all add: index_updated_frame)
  also have "\<dots> = live ?t (st_order s)" by (simp add: queue_def)
  also have "\<dots> = map (\<lambda>x. if r_event x = r_event r then r else x) (queue s)"
    unfolding queue_def using assms by (intro live_mput) (simp_all add: index_inv_def order_ok_def)
  finally show ?thesis .
qed

lemma queue_delete:
  assumes "index_inv s"
  shows "queue (index_deleted r s) = filter (\<lambda>x. r_event x \<noteq> r_event r) (queue s)"
proof -
  let ?t = "s\<lparr>st_records := mdel (r_event r) (st_records s)\<rparr>"
  have "queue (index_deleted r s) = queue ?t" by (rule queue_frame) (simp_all add: index_deleted_frame)
  also have "\<dots> = live ?t (st_order s)" by (simp add: queue_def)
  also have "\<dots> = filter (\<lambda>x. r_event x \<noteq> r_event r) (queue s)"
    unfolding queue_def using assms by (intro live_mdel) (simp add: index_inv_def order_ok_def)
  finally show ?thesis .
qed

section \<open>Batches\<close>

definition put_all :: "Record list \<Rightarrow> (string, Record) gomap \<Rightarrow> (string, Record) gomap" where
  "put_all rs m = fold (\<lambda>r. mput (r_event r) r) rs m"

definition replace :: "Record list \<Rightarrow> Record \<Rightarrow> Record" where
  "replace rs x = (case mget (map (\<lambda>r. (r_event r, r)) rs) (r_event x) of None \<Rightarrow> x | Some r \<Rightarrow> r)"

lemma replace_Nil [simp]: "replace [] = (\<lambda>x. x)"
  by (auto simp: replace_def)

lemma event_neq: "distinct (map r_event (r # rs)) \<Longrightarrow> x \<in> set rs \<Longrightarrow> r_event x \<noteq> r_event r"
  by (metis distinct.simps(2) image_eqI list.set_map list.simps(9))

lemma accept_batch:
  assumes "index_inv s" and "\<forall>r\<in>set rs. fresh_event s (r_event r)" and "distinct (map r_event rs)"
    and "sorted_wrt (\<lambda>r1 r2. r_sequence r1 < r_sequence r2) (queue s @ rs)"
  defines "s' \<equiv> fold index_accepted rs s"
  shows "index_inv s'" and "queue s' = queue s @ rs" and "memory_frame s s'" and "st_records s' = put_all rs (st_records s)"
proof -
  have "index_inv (fold index_accepted rs s) \<and> queue (fold index_accepted rs s) = queue s @ rs \<and>
      memory_frame s (fold index_accepted rs s) \<and> st_records (fold index_accepted rs s) = put_all rs (st_records s)"
    using assms(1-4)
  proof (induction rs arbitrary: s)
    case (Cons r rs)
    let ?s = "index_accepted r s"
    have fresh: "fresh_event s (r_event r)" using Cons.prems(2) by simp
    have inv: "index_inv ?s"
      using Cons.prems(1,4) fresh by (intro accept_inv) (auto simp: queue_def sorted_wrt_append)
    have q: "queue ?s = queue s @ [r]" by (rule queue_accept [OF fresh])
    have "\<forall>r'\<in>set rs. fresh_event ?s (r_event r')"
      using Cons.prems(1-3) event_neq [OF Cons.prems(3)] by (simp add: fresh_accept)
    with Cons.IH [OF inv] Cons.prems q index_accepted_frame [where s = s and r = r] show ?case
      by (auto simp: put_all_def intro: memory_frame_trans)
  qed (simp add: put_all_def)
  then show "index_inv s'" "queue s' = queue s @ rs" "memory_frame s s'" "st_records s' = put_all rs (st_records s)"
    by (simp_all add: s'_def)
qed

definition updates :: "Record list \<Rightarrow> (string, Record) gomap \<Rightarrow> bool" where
  "updates rs m \<longleftrightarrow> distinct (map r_event rs) \<and> (\<forall>r\<in>set rs. \<exists>r0. mget m (r_event r) = Some r0 \<and> same_place r0 r)"

lemma updates_Cons:
  assumes "updates (r # rs) m"
  shows "\<exists>r0. mget m (r_event r) = Some r0 \<and> same_place r0 r" and "updates rs (mput (r_event r) r m)"
proof -
  have "r_event x \<noteq> r_event r" if "x \<in> set rs" for x
    using assms event_neq [OF _ that] unfolding updates_def by blast
  with assms show "\<exists>r0. mget m (r_event r) = Some r0 \<and> same_place r0 r" "updates rs (mput (r_event r) r m)"
    by (simp_all add: updates_def)
qed

lemma update_batch:
  assumes "index_inv s" and "updates rs (st_records s)"
  defines "s' \<equiv> fold index_updated rs s"
  shows "index_inv s'" and "queue s' = map (replace rs) (queue s)" and "memory_frame s s'"
    and "st_records s' = put_all rs (st_records s)"
proof -
  have "index_inv (fold index_updated rs s) \<and> queue (fold index_updated rs s) = map (replace rs) (queue s) \<and>
      memory_frame s (fold index_updated rs s) \<and> st_records (fold index_updated rs s) = put_all rs (st_records s)"
    using assms(1,2)
  proof (induction rs arbitrary: s)
    case (Cons r rs)
    let ?s = "index_updated r s"
    obtain r0 where r0: "mget (st_records s) (r_event r) = Some r0" "same_place r0 r" using updates_Cons(1) [OF Cons.prems(2)] by blast
    have inv: "index_inv ?s" by (rule update_inv [OF Cons.prems(1) r0])
    have "updates rs (st_records ?s)" using updates_Cons(2) [OF Cons.prems(2)] by (simp add: index_updated_frame)
    note IH = Cons.IH [OF inv this]
    have q: "queue ?s = map (\<lambda>x. if r_event x = r_event r then r else x) (queue s)"
      by (rule queue_update [OF Cons.prems(1)]) (simp add: r0)
    have nin: "r_event r \<notin> r_event ` set rs" using Cons.prems(2) by (simp add: updates_def)
    have "mget (map (\<lambda>r. (r_event r, r)) rs) (r_event r) = None" using nin by (auto simp: map_of_eq_None_iff image_image)
    then have "replace rs (if r_event x = r_event r then r else x) = replace (r # rs) x" for x by (simp add: replace_def)
    with q IH index_updated_frame [where s = s and r = r] show ?case by (auto simp: put_all_def intro: memory_frame_trans)
  qed (simp add: put_all_def)
  then show "index_inv s'" "queue s' = map (replace rs) (queue s)" "memory_frame s s'" "st_records s' = put_all rs (st_records s)"
    by (simp_all add: s'_def)
qed

definition deletes :: "Record list \<Rightarrow> (string, Record) gomap \<Rightarrow> bool" where
  "deletes rs m \<longleftrightarrow> distinct (map r_event rs) \<and> (\<forall>r\<in>set rs. mget m (r_event r) = Some r)"

definition delete_all :: "Record list \<Rightarrow> (string, Record) gomap \<Rightarrow> (string, Record) gomap" where
  "delete_all rs m = fold (\<lambda>r. mdel (r_event r)) rs m"

lemma deletes_Cons:
  assumes "deletes (r # rs) m"
  shows "mget m (r_event r) = Some r" and "deletes rs (mdel (r_event r) m)"
proof -
  have "r_event x \<noteq> r_event r" if "x \<in> set rs" for x
    using assms event_neq [OF _ that] unfolding deletes_def by blast
  with assms show "mget m (r_event r) = Some r" "deletes rs (mdel (r_event r) m)" unfolding deletes_def by simp_all
qed

lemma delete_batch:
  assumes "index_inv s" and "deletes rs (st_records s)"
  defines "s' \<equiv> fold index_deleted rs s"
  shows "index_inv s'" and "queue s' = filter (\<lambda>x. r_event x \<notin> r_event ` set rs) (queue s)" and "memory_frame s s'"
    and "st_records s' = delete_all rs (st_records s)"
proof -
  have "index_inv (fold index_deleted rs s) \<and> queue (fold index_deleted rs s) = filter (\<lambda>x. r_event x \<notin> r_event ` set rs) (queue s) \<and>
      memory_frame s (fold index_deleted rs s) \<and> st_records (fold index_deleted rs s) = delete_all rs (st_records s)"
    using assms(1,2)
  proof (induction rs arbitrary: s)
    case (Cons r rs)
    let ?s = "index_deleted r s"
    have inv: "index_inv ?s" by (rule delete_inv [OF Cons.prems(1) deletes_Cons(1) [OF Cons.prems(2)]])
    have "deletes rs (st_records ?s)" using deletes_Cons(2) [OF Cons.prems(2)] by (simp add: index_deleted_frame)
    note IH = Cons.IH [OF inv this]
    have q: "queue ?s = filter (\<lambda>x. r_event x \<noteq> r_event r) (queue s)" by (rule queue_delete [OF Cons.prems(1)])
    have "filter (\<lambda>x. r_event x \<notin> r_event ` set rs) (filter (\<lambda>x. r_event x \<noteq> r_event r) (queue s)) =
        filter (\<lambda>x. r_event x \<notin> r_event ` set (r # rs)) (queue s)" by (simp add: conj_commute)
    with q IH index_deleted_frame [where s = s and r = r] show ?case by (auto simp: delete_all_def intro: memory_frame_trans)
  qed (simp add: delete_all_def)
  then show "index_inv s'" "queue s' = filter (\<lambda>x. r_event x \<notin> r_event ` set rs) (queue s)" "memory_frame s s'"
    "st_records s' = delete_all rs (st_records s)"
    by (simp_all add: s'_def)
qed

end
