(* ===== verification/Outbox_Operations.thy ===== *)
theory Outbox_Operations
  imports Outbox_Store
begin

text \<open>
  The operations of the outbox keep the invariant of the store and act on the queue of live records as their
  specifications say: accepted records are appended, updates replace records in place, acknowledged records are
  removed, and an operation that returns an error changes nothing.
\<close>

section \<open>The invariant of the store\<close>

definition record_ok :: "Record \<Rightarrow> bool" where
  "record_ok r \<longleftrightarrow> validateStoredRecord r = None \<and> text_ok r"

definition total_size :: "Record list \<Rightarrow> int" where
  "total_size rs = sum_list (map r_size rs)"

definition store_inv :: "Store \<Rightarrow> bool" where
  "store_inv s \<longleftrightarrow> index_inv s \<and> (\<forall>r\<in>set (queue s). record_ok r \<and> r_sequence r < st_next s) \<and> 0 < st_next s \<and>
     st_bytes s = total_size (queue s) \<and> int (length (queue s)) \<le> max_messages (st_limits s) \<and>
     st_bytes s \<le> max_bytes (st_limits s) \<and> max_bytes (st_limits s) \<le> max_int64 \<and>
     db_data (st_records s) (st_db s) \<and> db_meta (st_next s) (st_bytes s) (st_db s)"

lemma store_inv_frame:
  assumes "index_inv t" and "st_records t = st_records s" and "queue t = queue s" and "st_limits t = st_limits s" and "st_db t = st_db s"
    and "st_next t = st_next s" and "st_bytes t = st_bytes s" and "store_inv s"
  shows "store_inv t"
  using assms(8) unfolding store_inv_def assms(2-7) using assms(1) by blast

lemma record_okD:
  assumes "record_ok r"
  shows "r_size r = acceptedSize r" and "0 < r_size r" and "stored_state_ok r" and "\<not> missing_identity r" and "r_sequence r \<noteq> 0" and "text_ok r"
  using assms by (simp_all add: record_ok_def validateStoredRecord_def)

lemma record_okI:
  "r_size r = acceptedSize r \<Longrightarrow> stored_state_ok r \<Longrightarrow> \<not> missing_identity r \<Longrightarrow> r_sequence r \<noteq> 0 \<Longrightarrow> text_ok r \<Longrightarrow> record_ok r"
  using acceptedSize_pos [of r] by (auto simp: record_ok_def validateStoredRecord_def simp del: acceptedSize_pos)

section \<open>Batches in the database\<close>

lemma marshal_text: "text_ok r \<Longrightarrow> marshal r = Some x \<Longrightarrow> x = r"
  by (auto simp: marshal_def split: if_splits)

lemma those_marshal: "\<forall>r\<in>set rs. text_ok r \<Longrightarrow> those (map marshal rs) = Some xs \<Longrightarrow> xs = rs"
  by (induction rs arbitrary: xs) (auto dest: marshal_text split: option.splits)

lemma accept_db:
  assumes "db_data recs db" and "\<forall>r\<in>set rs. mget recs (r_event r) = None" and "distinct (map r_event rs)"
    and "\<forall>r\<in>set rs. \<forall>e x. mget recs e = Some x \<longrightarrow> r_sequence x < r_sequence r"
    and "sorted_wrt (\<lambda>r1 r2. r_sequence r1 < r_sequence r2) rs"
  shows "db_data (put_all rs recs) (fold (\<lambda>(r, stored) d. put_event (r_event r) (r_sequence r) (put_record (r_sequence r) stored d)) (zip rs rs) db)"
  using assms
proof (induction rs arbitrary: recs db)
  case (Cons r rs)
  let ?recs = "mput (r_event r) r recs" and ?db = "put_event (r_event r) (r_sequence r) (put_record (r_sequence r) r db)"
  have "db_data ?recs ?db" using Cons.prems by (intro db_data_accept) force+
  moreover have "\<forall>x\<in>set rs. mget ?recs (r_event x) = None" using Cons.prems(2) event_neq [OF Cons.prems(3)] by simp
  moreover have "\<forall>x\<in>set rs. \<forall>e y. mget ?recs e = Some y \<longrightarrow> r_sequence y < r_sequence x"
    using Cons.prems(4,5) by (auto split: if_splits)
  ultimately show ?case using Cons.IH [of ?recs ?db] Cons.prems(3,5) by (simp add: put_all_def)
qed (simp add: put_all_def)

lemma update_db:
  assumes "db_data recs db" and "updates rs recs"
  shows "db_data (put_all rs recs) (persist_updated (map (\<lambda>r. (r, r)) rs) db)"
  using assms
proof (induction rs arbitrary: recs db)
  case (Cons r rs)
  obtain r0 where r0: "mget recs (r_event r) = Some r0" "same_place r0 r" using updates_Cons(1) [OF Cons.prems(2)] by blast
  have "db_data (mput (r_event r) r recs) (put_record (r_sequence r) r db)"
    using db_data_update [OF Cons.prems(1) r0(1)] r0(2) by (simp add: same_place_def)
  from Cons.IH [OF this updates_Cons(2) [OF Cons.prems(2)]] show ?case by (simp add: put_all_def persist_updated_def)
qed (simp add: put_all_def persist_updated_def)

lemma delete_db:
  assumes "db_data recs db" and "deletes rs recs"
  shows "db_data (delete_all rs recs) (fold delete_record rs db)"
  using assms
proof (induction rs arbitrary: recs db)
  case (Cons r rs)
  have "db_data (mdel (r_event r) recs) (delete_record r db)"
    by (rule db_data_delete [OF Cons.prems(1) deletes_Cons(1) [OF Cons.prems(2)]])
  from Cons.IH [OF this deletes_Cons(2) [OF Cons.prems(2)]] show ?case by (simp add: delete_all_def)
qed (simp add: delete_all_def)

lemma metadata_persist:
  "db_metadata (persist_updated xs db) = db_metadata db" "db_metadata (fold delete_record rs db) = db_metadata db"
  "db_metadata (fold (\<lambda>(r, stored) d. put_event (r_event r) (r_sequence r) (put_record (r_sequence r) stored d)) xs db) = db_metadata db"
proof -
  show "db_metadata (persist_updated xs db) = db_metadata db"
    unfolding persist_updated_def by (induction xs arbitrary: db) (auto simp: put_record_def)
  show "db_metadata (fold delete_record rs db) = db_metadata db" by (induction rs arbitrary: db) (auto simp: delete_record_def)
  show "db_metadata (fold (\<lambda>(r, stored) d. put_event (r_event r) (r_sequence r) (put_record (r_sequence r) stored d)) xs db) = db_metadata db"
    by (induction xs arbitrary: db) (auto simp: put_record_def put_event_def)
qed

section \<open>Accepting\<close>

fun accepted_records :: "gotime \<Rightarrow> u64 \<Rightarrow> Record list \<Rightarrow> Record list" where
  "accepted_records now q [] = []"
| "accepted_records now q (r # rs) = accepted_record now q r # accepted_records now (q + 1) rs"

definition text_content :: "Record \<Rightarrow> bool" where
  "text_content r \<longleftrightarrow> text_ok (r\<lparr>r_error := [], r_state := StateUnassigned\<rparr>)"

lemma accepted_record_event [simp]: "r_event (accepted_record now q r) = r_event r" "r_sequence (accepted_record now q r) = q"
  "r_size (accepted_record now q r) = acceptedSize (accepted_record now q r)"
  by (simp_all add: accepted_record_def Let_def)

lemma accepted_record_ok:
  assumes "validateNewRecord r = None" and "text_content r" and "q \<noteq> 0"
  shows "record_ok (accepted_record now q r)"
proof (rule record_okI)
  show "stored_state_ok (accepted_record now q r)"
    using assms(1) by (auto simp: validateNewRecord_def accepted_record_def Let_def stored_state_ok_def)
  show "\<not> missing_identity (accepted_record now q r)"
    using assms(1) by (auto simp: validateNewRecord_def accepted_record_def Let_def missing_identity_def)
  have "utf8_valid []" by (simp add: utf8_valid_def bytes_def)
  then show "text_ok (accepted_record now q r)"
    using assms(1,2) by (auto simp: validateNewRecord_def accepted_record_def Let_def text_content_def text_ok_def)
qed (use assms in simp_all)

lemma accept_loop_ok:
  assumes "accept_loop now s q seen added input = Inr (rs, tot)"
  shows "rs = accepted_records now q input" and "\<forall>r\<in>set input. validateNewRecord r = None \<and> mget (st_records s) (r_event r) = None"
    and "distinct (map r_event input)" and "set (map r_event input) \<inter> set seen = {}" and "tot = added + total_size rs"
    and "input \<noteq> [] \<Longrightarrow> st_bytes s + tot \<le> max_bytes (st_limits s)"
proof -
  have "rs = accepted_records now q input \<and> (\<forall>r\<in>set input. validateNewRecord r = None \<and> mget (st_records s) (r_event r) = None) \<and>
      distinct (map r_event input) \<and> set (map r_event input) \<inter> set seen = {} \<and> tot = added + total_size rs \<and>
      (input \<noteq> [] \<longrightarrow> st_bytes s + tot \<le> max_bytes (st_limits s))"
    using assms
  proof (induction input arbitrary: q seen added rs tot)
    case (Cons r input)
    let ?r = "accepted_record now q r"
    from Cons.prems obtain rs' where ok: "validateNewRecord r = None" "mget (st_records s) (r_event r) = None" "r_event r \<notin> set seen"
      "\<not> max_bytes (st_limits s) - st_bytes s - added < r_size ?r"
      "accept_loop now s (q + 1) (r_event r # seen) (added + r_size ?r) input = Inr (rs', tot)" "rs = ?r # rs'"
      by (auto simp: Let_def split: option.splits if_splits sum.splits)
    note IH = Cons.IH [OF ok(5)]
    have "st_bytes s + tot \<le> max_bytes (st_limits s)"
    proof (cases "input = []")
      case True
      with ok(4,5) show ?thesis by simp
    qed (use IH in blast)
    with IH ok show ?case by (auto simp: total_size_def)
  qed (simp add: total_size_def)
  then show "rs = accepted_records now q input" "\<forall>r\<in>set input. validateNewRecord r = None \<and> mget (st_records s) (r_event r) = None"
    "distinct (map r_event input)" "set (map r_event input) \<inter> set seen = {}" "tot = added + total_size rs"
    "input \<noteq> [] \<Longrightarrow> st_bytes s + tot \<le> max_bytes (st_limits s)" by auto
qed

lemma accepted_records_events [simp]: "map r_event (accepted_records now q rs) = map r_event rs" "length (accepted_records now q rs) = length rs"
  by (induction rs arbitrary: q) auto

lemma accepted_records_sequences:
  assumes "unat q + length rs < 2 ^ 64"
  shows "\<forall>r\<in>set (accepted_records now q rs). q \<le> r_sequence r \<and> unat (r_sequence r) < unat q + length rs"
    and "sorted_wrt (\<lambda>r1 r2. r_sequence r1 < r_sequence r2) (accepted_records now q rs)"
proof -
  have "(\<forall>r\<in>set (accepted_records now q rs). q \<le> r_sequence r \<and> unat (r_sequence r) < unat q + length rs) \<and>
      sorted_wrt (\<lambda>r1 r2. r_sequence r1 < r_sequence r2) (accepted_records now q rs)"
    using assms
  proof (induction rs arbitrary: q)
    case (Cons r rs)
    have q1: "unat (q + 1) = unat q + 1" using Cons.prems by (intro unat_plus_if_size [THEN trans]) (simp add: word_size)
    then have less: "q < q + 1" by (simp add: word_less_nat_alt)
    from Cons.IH [of "q + 1"] Cons.prems q1 show ?case
      using less by (auto simp: intro: order_trans less_le_trans)
  qed simp
  then show "\<forall>r\<in>set (accepted_records now q rs). q \<le> r_sequence r \<and> unat (r_sequence r) < unat q + length rs"
    "sorted_wrt (\<lambda>r1 r2. r_sequence r1 < r_sequence r2) (accepted_records now q rs)" by auto
qed

lemma of_int_bounds: "0 \<le> n \<Longrightarrow> n \<le> max_int64 \<Longrightarrow> uint (of_int n :: u64) = n"
  by (simp add: max_int64_def uint_word_of_int_eq take_bit_int_eq_self)

lemma total_size_nonneg: "\<forall>r\<in>set rs. record_ok r \<Longrightarrow> 0 \<le> total_size rs"
  by (induction rs) (auto simp: total_size_def dest!: record_okD(2))

lemma total_size_append [simp]: "total_size (rs @ rs') = total_size rs + total_size rs'"
  by (simp add: total_size_def)

lemma acceptMany_committed:
  assumes inv: "store_inv s" and input: "\<forall>r\<in>set input. fresh_event s (r_event r) \<and> text_content r" "input \<noteq> []"
    and room: "int (length input) \<le> max_messages (st_limits s) - int (length (st_records s))"
    and seqs: "length input \<le> unat (max_u64 - st_next s)"
    and loop: "accept_loop now s (st_next s) [] 0 input = Inr (rs, added)"
  defines "s' \<equiv> finish_accept (st_next s + of_nat (length rs)) (st_bytes s + added) (fold index_accepted rs
      (s\<lparr>st_db := persist_accepted (zip rs rs) (st_next s + of_nat (length rs)) (st_bytes s + added) (st_db s)\<rparr>))"
  shows "store_inv s'" and "queue s' = queue s @ rs"
proof -
  let ?q = "st_next s"
  note L = accept_loop_ok [OF loop]
  have index: "index_inv s" and pos: "0 < ?q" and old: "\<forall>r\<in>set (queue s). record_ok r \<and> r_sequence r < ?q"
    using inv by (simp_all add: store_inv_def)
  have "unat max_u64 = 2 ^ 64 - 1" by (simp add: max_u64_def unsigned_minus_1_eq_mask mask_eq_exp_minus_1)
  moreover have "?q \<le> max_u64" by (simp add: max_u64_def word_order.extremum)
  ultimately have "unat (max_u64 - ?q) = 2 ^ 64 - 1 - unat ?q" using unat_sub [of ?q max_u64] by simp
  then have bound: "unat ?q + length input < 2 ^ 64"
    using seqs unsigned_less [of ?q, where ?'a = nat] by simp
  note S = accepted_records_sequences [OF bound, of now, folded L(1)]
  have len: "length rs = length input" using L(1) by simp
  have nxt: "unat (?q + of_nat (length rs)) = unat ?q + length rs"
    using bound len by (simp add: unat_word_ariths unat_of_nat)
  have new_ok: "record_ok r" if "r \<in> set rs" for r
  proof -
    have "record_ok r" if "r \<in> set (accepted_records now q xs)" "\<forall>x\<in>set xs. validateNewRecord x = None \<and> text_content x" "0 < q"
      "unat q + length xs < 2 ^ 64" for q xs
      using that
    proof (induction xs arbitrary: q)
      case (Cons x xs)
      have "unat (q + 1) = unat q + 1" using Cons.prems(4) by (intro unat_plus_if_size [THEN trans]) (simp add: word_size)
      with Cons.prems Cons.IH [of "q + 1"] show ?case by (auto simp: word_less_nat_alt intro: accepted_record_ok)
    qed simp
    from this [of ?q input] that L(1,2) input(1) pos bound show ?thesis by blast
  qed
  let ?db = "persist_accepted (zip rs rs) (?q + of_nat (length rs)) (st_bytes s + added) (st_db s)"
  let ?s0 = "s\<lparr>st_db := ?db\<rparr>"
  have ev: "map r_event rs = map r_event input" using L(1) by simp
  have fresh: "\<forall>r\<in>set rs. fresh_event ?s0 (r_event r)"
  proof
    fix r assume "r \<in> set rs"
    then have "r_event r \<in> set (map r_event input)" unfolding ev [symmetric] by simp
    then show "fresh_event ?s0 (r_event r)" using input(1) by (auto simp: fresh_event_def)
  qed
  have sorted: "sorted_wrt (\<lambda>r1 r2. r_sequence r1 < r_sequence r2) (queue s @ rs)"
    using index old S by (auto simp: sorted_wrt_append index_inv_def order_ok_def queue_def intro: less_le_trans)
  have q0: "queue ?s0 = queue s" by (rule queue_frame) simp_all
  have index0: "index_inv ?s0" by (rule index_inv_frame [OF index]) simp_all
  have dist: "distinct (map r_event rs)" unfolding ev by (rule L(3))
  define m where "m = fold index_accepted rs ?s0"
  have batch: "index_inv m" "queue m = queue s @ rs" "memory_frame ?s0 m" "st_records m = put_all rs (st_records s)"
    using accept_batch [OF index0 fresh dist] sorted by (simp_all add: q0 m_def)
  have s': "s' = finish_accept (?q + of_nat (length rs)) (st_bytes s + added) m" by (simp add: s'_def m_def)
  have index': "index_inv s'" by (rule index_inv_frame [OF batch(1)]) (simp_all add: s' finish_accept_def)
  have "queue s' = queue m" by (rule queue_frame) (simp_all add: s' finish_accept_def)
  then show q': "queue s' = queue s @ rs" using batch(2) by simp
  have none: "\<forall>r\<in>set rs. mget (st_records s) (r_event r) = None"
  proof
    fix r assume "r \<in> set rs"
    then have "r_event r \<in> set (map r_event input)" unfolding ev [symmetric] by simp
    then show "mget (st_records s) (r_event r) = None" using L(2) by auto
  qed
  have "\<forall>r\<in>set rs. \<forall>e x. mget (st_records s) e = Some x \<longrightarrow> r_sequence x < r_sequence r"
  proof (intro ballI allI impI)
    fix r e x assume r: "r \<in> set rs" and x: "mget (st_records s) e = Some x"
    have "r_event x = e" using index x by (auto simp: index_inv_def order_ok_def records_ok_def)
    then have "x \<in> set (queue s)" using queue_member [OF index, of x] x by simp
    then show "r_sequence x < r_sequence r" using old S(1) r by (auto intro: less_le_trans)
  qed
  then have data: "db_data (put_all rs (st_records s)) ?db"
    using accept_db [of "st_records s" "st_db s" rs] inv none dist S(2) by (simp add: persist_accepted_def store_inv_def)
  have meta: "db_meta (?q + of_nat (length rs)) (st_bytes s + added) ?db"
    using inv by (simp add: db_meta_def store_inv_def persist_accepted_def put_metadata_def metadata_persist)
  have fields: "st_limits s' = st_limits s" "st_next s' = ?q + of_nat (length rs)" "st_bytes s' = st_bytes s + added" "st_db s' = ?db"
    "st_records s' = put_all rs (st_records s)"
    using batch(3,4) by (simp_all add: s' finish_accept_def memory_frame_def)
  have "r_sequence r < ?q + of_nat (length rs)" if "r \<in> set (queue s @ rs)" for r
    using that old S(1) nxt len by (fastforce simp: word_less_nat_alt)
  moreover have "0 < ?q + of_nat (length rs)" using nxt pos by (simp add: word_less_nat_alt)
  ultimately show "store_inv s'"
    using inv index' data meta new_ok L(5) L(6) input(2) room len queue_events(3) [OF index]
    unfolding store_inv_def fields q' by auto
qed

theorem acceptMany_spec:
  assumes "store_inv s" and "\<forall>r\<in>set input. fresh_event s (r_event r) \<and> text_content r"
    and "acceptMany now commit input s = (res, s')"
  shows "store_inv s'"
    and "case res of Inl e \<Rightarrow> s' = s | Inr rs \<Rightarrow> rs = accepted_records now (st_next s) input \<and> queue s' = queue s @ rs"
proof -
  have "(\<exists>e. res = Inl e \<and> s' = s) \<or> (input = [] \<and> res = Inr [] \<and> s' = s) \<or>
      (\<exists>rs added. input \<noteq> [] \<and> int (length input) \<le> max_messages (st_limits s) - int (length (st_records s)) \<and>
        length input \<le> unat (max_u64 - st_next s) \<and> accept_loop now s (st_next s) [] 0 input = Inr (rs, added) \<and> res = Inr rs \<and>
        (\<exists>stored. those (map marshal rs) = Some stored \<and>
          s' = finish_accept (st_next s + of_nat (length rs)) (st_bytes s + added) (fold index_accepted rs
            (s\<lparr>st_db := persist_accepted (zip rs stored) (st_next s + of_nat (length rs)) (st_bytes s + added) (st_db s)\<rparr>))))"
    using assms(3) unfolding acceptMany_def Let_def
    by (auto simp: not_less split: if_splits sum.splits option.splits)
  then consider e where "res = Inl e" "s' = s" | "input = []" "res = Inr []" "s' = s"
    | rs added stored where "input \<noteq> []" "int (length input) \<le> max_messages (st_limits s) - int (length (st_records s))"
        "length input \<le> unat (max_u64 - st_next s)" "accept_loop now s (st_next s) [] 0 input = Inr (rs, added)" "res = Inr rs"
        "those (map marshal rs) = Some stored"
        "s' = finish_accept (st_next s + of_nat (length rs)) (st_bytes s + added) (fold index_accepted rs
            (s\<lparr>st_db := persist_accepted (zip rs stored) (st_next s + of_nat (length rs)) (st_bytes s + added) (st_db s)\<rparr>))"
    by blast
  then have "store_inv s' \<and>
    (case res of Inl e \<Rightarrow> s' = s | Inr rs \<Rightarrow> rs = accepted_records now (st_next s) input \<and> queue s' = queue s @ rs)"
  proof cases
    case 3
    note committed = acceptMany_committed [OF assms(1,2) 3(1-4)]
    have "\<forall>r\<in>set rs. text_ok r"
    proof
      fix r assume "r \<in> set rs"
      then have "record_ok r" using committed by (auto simp: store_inv_def)
      then show "text_ok r" by (rule record_okD)
    qed
    then have "stored = rs" using 3(6) by (rule those_marshal)
    then show ?thesis using committed 3(5,7) accept_loop_ok(1) [OF 3(4)] by simp
  qed (use assms(1) in simp_all)
  then show "store_inv s'"
    "case res of Inl e \<Rightarrow> s' = s | Inr rs \<Rightarrow> rs = accepted_records now (st_next s) input \<and> queue s' = queue s @ rs" by blast+
qed

section \<open>Updating\<close>

definition same_content :: "Record \<Rightarrow> Record \<Rightarrow> bool" where
  "same_content r r1 \<longleftrightarrow> r_event r1 = r_event r \<and> r_payload r1 = r_payload r \<and> r_topic r1 = r_topic r \<and>
     r_properties r1 = r_properties r \<and> r_key r1 = r_key r \<and> r_group r1 = r_group r \<and> r_hash r1 = r_hash r \<and>
     r_contract r1 = r_contract r \<and> r_library r1 = r_library r \<and> r_algorithm r1 = r_algorithm r \<and>
     r_sequence r1 = r_sequence r \<and> r_accepted r1 = r_accepted r \<and> r_size r1 = r_size r"

lemma same_content_place: "same_content r r1 \<Longrightarrow> same_place r r1"
  by (simp add: same_content_def same_place_def effectiveOrderingKey_def)

lemma same_content_updated [simp]: "same_content r (r1\<lparr>r_updated := t\<rparr>) = same_content r r1"
  by (simp add: same_content_def)

lemma record_ok_updated [simp]: "record_ok (r\<lparr>r_updated := t\<rparr>) = record_ok r"
  by (cases "r_state r") (simp_all add: record_ok_def validateStoredRecord_def missing_identity_def stored_state_ok_def text_ok_def)

text \<open>What an update does to one record: the batch's change for a record it names, nothing otherwise.\<close>

definition updated_record :: "gotime \<Rightarrow> (string \<Rightarrow> Record \<Rightarrow> outbox_error + Record) \<Rightarrow> string list \<Rightarrow> Record \<Rightarrow> Record" where
  "updated_record now mutate es r =
     (if r_event r \<in> set es then (case mutate (r_event r) r of Inl e \<Rightarrow> r | Inr r1 \<Rightarrow> r1\<lparr>r_updated := now\<rparr>) else r)"

lemma updated_record_Nil [simp]: "updated_record now mutate [] = (\<lambda>r. r)"
  by (rule ext) (simp add: updated_record_def)

definition mutation_ok :: "(string \<Rightarrow> Record \<Rightarrow> outbox_error + Record) \<Rightarrow> string list \<Rightarrow> bool" where
  "mutation_ok mutate es \<longleftrightarrow>
     (\<forall>r r1. r_event r \<in> set es \<longrightarrow> record_ok r \<longrightarrow> mutate (r_event r) r = Inr r1 \<longrightarrow> record_ok r1 \<and> same_content r r1)"

lemma update_loop_ok:
  assumes "update_loop now s mutate es = Inr rs" and "\<forall>r\<in>set (queue s). record_ok r" and "index_inv s" and "mutation_ok mutate es"
  shows "map (\<lambda>p. r_event (fst p)) rs = es"
    and "\<forall>p\<in>set rs. snd p = fst p \<and> record_ok (fst p) \<and>
           (\<exists>r r1. mget (st_records s) (r_event (fst p)) = Some r \<and> mutate (r_event r) r = Inr r1 \<and> fst p = r1\<lparr>r_updated := now\<rparr> \<and> same_content r r1)"
proof -
  have "map (\<lambda>p. r_event (fst p)) rs = es \<and> (\<forall>p\<in>set rs. snd p = fst p \<and> record_ok (fst p) \<and>
      (\<exists>r r1. mget (st_records s) (r_event (fst p)) = Some r \<and> mutate (r_event r) r = Inr r1 \<and> fst p = r1\<lparr>r_updated := now\<rparr> \<and> same_content r r1))"
    using assms(1,4)
  proof (induction es arbitrary: rs)
    case (Cons e es)
    from Cons.prems(1) obtain r r1 stored rs' where p: "mget (st_records s) e = Some r" "mutate e r = Inr r1"
      "marshal (r1\<lparr>r_updated := now\<rparr>) = Some stored" "update_loop now s mutate es = Inr rs'" "rs = (r1\<lparr>r_updated := now\<rparr>, stored) # rs'"
      by (auto simp: Let_def split: option.splits sum.splits)
    have e: "r_event r = e" using assms(3) p(1) by (auto simp: index_inv_def order_ok_def records_ok_def)
    then have "record_ok r" using assms(2) p(1) queue_member [OF assms(3), of r] by simp
    then have ok: "record_ok r1" "same_content r r1" using Cons.prems(2) e p(2) unfolding mutation_ok_def by auto
    then have "stored = r1\<lparr>r_updated := now\<rparr>" using marshal_text [OF _ p(3)] record_okD(6) [of "r1\<lparr>r_updated := now\<rparr>"] by simp
    moreover have "mutation_ok mutate es" using Cons.prems(2) by (simp add: mutation_ok_def)
    moreover have "r_event r1 = e" using ok(2) e by (simp add: same_content_def)
    ultimately show ?case using Cons.IH [OF p(4)] p e ok by auto
  qed simp
  then show "map (\<lambda>p. r_event (fst p)) rs = es"
    "\<forall>p\<in>set rs. snd p = fst p \<and> record_ok (fst p) \<and>
       (\<exists>r r1. mget (st_records s) (r_event (fst p)) = Some r \<and> mutate (r_event r) r = Inr r1 \<and> fst p = r1\<lparr>r_updated := now\<rparr> \<and> same_content r r1)"
    by blast+
qed

text \<open>The effect of a committed plan: updates in place, then deletions.\<close>

lemma replace_cases: "replace us x = x \<or> replace us x \<in> set us \<and> r_event (replace us x) = r_event x"
  by (auto simp: replace_def dest!: map_of_SomeD split: option.split)

lemma replace_member:
  assumes "updates us m" and "u \<in> set us" and "mget m (r_event u) = Some x" and "r_event x = r_event u"
  shows "replace us x = u"
proof -
  have "mget (map (\<lambda>r. (r_event r, r)) us) (r_event u) = Some u"
    using assms(1,2) by (intro map_of_is_SomeI) (auto simp: updates_def comp_def)
  then show ?thesis using assms(4) by (simp add: replace_def)
qed

lemma total_size_replace:
  assumes "\<forall>x\<in>set xs. r_size (replace us x) = r_size x"
  shows "total_size (map (replace us) xs) = total_size xs"
  using assms by (induction xs) (auto simp: total_size_def)

lemma total_size_filter:
  assumes "distinct (map r_event xs)" and "distinct (map r_event ds)" and "set ds \<subseteq> set xs"
  shows "total_size (filter (\<lambda>x. r_event x \<notin> r_event ` set ds) xs) = total_size xs - total_size ds"
proof -
  have d: "distinct xs" "distinct ds" using assms(1,2) by (auto simp: distinct_map)
  have inj: "inj_on r_event (set xs)" using assms(1) by (simp add: distinct_map)
  have "r_event x \<in> r_event ` set ds \<longleftrightarrow> x \<in> set ds" if "x \<in> set xs" for x
    using that inj assms(3) by (auto dest: inj_onD)
  then have f: "filter (\<lambda>x. r_event x \<notin> r_event ` set ds) xs = filter (\<lambda>x. x \<notin> set ds) xs" by (intro filter_cong) auto
  have sum: "total_size ys = sum r_size (set ys)" if "distinct ys" for ys
    using that by (simp add: total_size_def sum_list_distinct_conv_sum_set)
  have "set xs - set ds = {x \<in> set xs. x \<notin> set ds}" by auto
  then show ?thesis
    unfolding f using sum [OF d(1)] sum [OF d(2)] sum [OF distinct_filter [OF d(1)], of "\<lambda>x. x \<notin> set ds"]
      sum_diff [OF finite_set assms(3), of r_size] by simp
qed

lemma plan_committed:
  assumes inv: "store_inv s" and us: "updates us (st_records s)"
    and ok: "\<forall>u\<in>set us. record_ok u \<and> (\<forall>x. mget (st_records s) (r_event u) = Some x \<longrightarrow> r_size u = r_size x)"
    and ds: "deletes ds (put_all us (st_records s))"
    and db: "st_db t = (if ds = [] then persist_updated (map (\<lambda>r. (r, r)) us) (st_db s)
      else put_metadata totalBytesKey (of_int (st_bytes s - total_size ds)) (fold delete_record ds (persist_updated (map (\<lambda>r. (r, r)) us) (st_db s))))"
    and same: "st_records t = st_records s" "st_order t = st_order s" "st_lanes t = st_lanes s" "st_ready t = st_ready s"
      "st_limits t = st_limits s" "st_next t = st_next s"
  defines "m \<equiv> fold index_deleted ds (fold index_updated us t)"
  shows "index_inv m" and "queue m = filter (\<lambda>x. r_event x \<notin> r_event ` set ds) (map (replace us) (queue s))"
    and "memory_frame t m" and "store_inv (m\<lparr>st_bytes := st_bytes s - total_size ds\<rparr>)"
proof -
  have index: "index_inv s" using inv by (simp add: store_inv_def)
  then have it: "index_inv t" by (rule index_inv_frame) (use same in simp_all)
  have qt: "queue t = queue s" by (rule queue_frame) (use same in simp_all)
  define u where "u = fold index_updated us t"
  have u: "index_inv u" "queue u = map (replace us) (queue s)" "memory_frame t u" "st_records u = put_all us (st_records s)"
    using update_batch [OF it] us by (simp_all add: u_def same qt)
  have del: "deletes ds (st_records u)" using ds u(4) by simp
  have m: "index_inv m" "queue m = filter (\<lambda>x. r_event x \<notin> r_event ` set ds) (queue u)" "memory_frame u m" "st_records m = delete_all ds (st_records u)"
    using delete_batch [OF u(1) del] by (simp_all add: m_def u_def)
  show "index_inv m" by (rule m(1))
  show q: "queue m = filter (\<lambda>x. r_event x \<notin> r_event ` set ds) (map (replace us) (queue s))" using m(2) u(2) by simp
  show f: "memory_frame t m" using u(3) m(3) by (rule memory_frame_trans)
  have rep: "record_ok (replace us x) \<and> r_sequence (replace us x) < st_next s \<and> r_size (replace us x) = r_size x" if x: "x \<in> set (queue s)" for x
  proof -
    have old: "record_ok x" "r_sequence x < st_next s" "mget (st_records s) (r_event x) = Some x"
      using inv x queue_member [OF index, of x] by (simp_all add: store_inv_def)
    show ?thesis
    proof (cases "replace us x = x")
      case False
      then have mem: "replace us x \<in> set us" "r_event (replace us x) = r_event x" using replace_cases [of us x] by auto
      with us old(3) have "same_place x (replace us x)" by (auto simp: updates_def)
      with mem old ok show ?thesis by (simp add: same_place_def)
    qed (use old in simp)
  qed
  have sub: "set ds \<subseteq> set (queue u)"
  proof
    fix d assume "d \<in> set ds"
    then have "mget (st_records u) (r_event d) = Some d" using del by (auto simp: deletes_def)
    then show "d \<in> set (queue u)" using queue_member [OF u(1), of d] by simp
  qed
  have bytes: "st_bytes s - total_size ds = total_size (queue m)"
  proof -
    have "total_size (queue u) = total_size (queue s)" unfolding u(2) using rep by (intro total_size_replace) blast
    then show ?thesis
      unfolding m(2) using total_size_filter [OF queue_events(1) [OF u(1)] _ sub] del inv by (simp add: deletes_def store_inv_def)
  qed
  let ?d = "persist_updated (map (\<lambda>r. (r, r)) us) (st_db s)"
  have "db_data (st_records u) ?d" unfolding u(4) using inv us by (intro update_db) (simp_all add: store_inv_def)
  then have data: "db_data (st_records m) (st_db m)"
    unfolding m(4) using delete_db [OF _ del, of ?d] f db by (auto simp: memory_frame_def delete_all_def)
  have meta: "db_meta (st_next s) (st_bytes s - total_size ds) (st_db m)"
    using inv f db by (auto simp: db_meta_def store_inv_def memory_frame_def put_metadata_def metadata_persist total_size_def)
  have "length (queue m) \<le> length (queue s)" unfolding q using length_filter_le [of _ "map (replace us) (queue s)"] by simp
  moreover have "\<forall>r\<in>set (queue m). record_ok r \<and> r_sequence r < st_next s" unfolding q using rep by auto
  moreover have "0 \<le> total_size ds"
  proof -
    have "\<forall>d\<in>set ds. record_ok d" using sub rep unfolding u(2) by auto
    then show ?thesis by (rule total_size_nonneg)
  qed
  moreover have "index_inv (m\<lparr>st_bytes := st_bytes s - total_size ds\<rparr>)" by (rule index_inv_frame [OF m(1)]) simp_all
  moreover have "queue (m\<lparr>st_bytes := st_bytes s - total_size ds\<rparr>) = queue m" by (rule queue_frame) simp_all
  ultimately show "store_inv (m\<lparr>st_bytes := st_bytes s - total_size ds\<rparr>)"
    using inv data meta bytes f same by (simp add: store_inv_def memory_frame_def)
qed

theorem updateMany_spec:
  assumes inv: "store_inv s" and mut: "mutation_ok mutate es" and run: "updateMany now commit mutate es s = (res, s')"
  shows "store_inv s'" and "res \<noteq> None \<Longrightarrow> s' = s"
    and "res = None \<Longrightarrow> queue s' = map (updated_record now mutate es) (queue s)"
proof -
  have "(res \<noteq> None \<and> s' = s) \<or> (es = [] \<and> res = None \<and> s' = s) \<or>
      (\<exists>rs. validateUniqueEventIDs [] es = None \<and> update_loop now s mutate es = Inr rs \<and> res = None \<and>
        s' = fold index_updated (map fst rs) (s\<lparr>st_db := persist_updated rs (st_db s)\<rparr>))"
    using run unfolding updateMany_def
    by (cases "validateUniqueEventIDs [] es"; cases "update_loop now s mutate es") (auto split: if_splits, (metis)+)
  then consider "res \<noteq> None" "s' = s" | "es = []" "res = None" "s' = s"
    | rs where "validateUniqueEventIDs [] es = None" "update_loop now s mutate es = Inr rs" "res = None"
      "s' = fold index_updated (map fst rs) (s\<lparr>st_db := persist_updated rs (st_db s)\<rparr>)"
    by blast
  then have "store_inv s' \<and> (res \<noteq> None \<longrightarrow> s' = s) \<and> (res = None \<longrightarrow> queue s' = map (updated_record now mutate es) (queue s))"
  proof cases
    case 3
    have index: "index_inv s" and oks: "\<forall>r\<in>set (queue s). record_ok r" using inv by (simp_all add: store_inv_def)
    note L = update_loop_ok [OF 3(2) oks index mut]
    define us where "us = map fst rs"
    have rs: "rs = map (\<lambda>r. (r, r)) us" unfolding us_def using L(2) by (induction rs) (auto intro: prod_eqI)
    have ev: "map r_event us = es" using L(1) by (simp add: us_def comp_def)
    have dist: "distinct es" using 3(1) by (simp add: validateUniqueEventIDs_iff)
    have each: "\<exists>r r1. mget (st_records s) (r_event u) = Some r \<and> mutate (r_event r) r = Inr r1 \<and> u = r1\<lparr>r_updated := now\<rparr> \<and>
        same_content r r1 \<and> record_ok u" if "u \<in> set us" for u
      using that L(2) by (fastforce simp: us_def)
    have ups: "updates us (st_records s)"
      unfolding updates_def ev
    proof (intro conjI ballI)
      show "distinct es" by (rule dist)
      fix u assume "u \<in> set us"
      from each [OF this] obtain r r1 where r: "mget (st_records s) (r_event u) = Some r" "u = r1\<lparr>r_updated := now\<rparr>" "same_content r r1" by blast
      then have "same_place r u" using same_content_place [of r u] by simp
      with r(1) show "\<exists>r0. mget (st_records s) (r_event u) = Some r0 \<and> same_place r0 u" by blast
    qed
    have ok: "\<forall>u\<in>set us. record_ok u \<and> (\<forall>x. mget (st_records s) (r_event u) = Some x \<longrightarrow> r_size u = r_size x)"
      using each by (fastforce simp: same_content_def)
    have nods: "deletes [] (put_all us (st_records s))" by (simp add: deletes_def)
    let ?t = "s\<lparr>st_db := persist_updated rs (st_db s)\<rparr>"
    have s': "s' = fold index_updated us ?t" using 3(4) by (simp add: us_def)
    note P = plan_committed [OF inv ups ok nods, of ?t]
    have frame: "memory_frame ?t s'" using P(3) by (simp add: s' rs)
    have q: "queue s' = map (replace us) (queue s)" using P(2) by (simp add: s' rs)
    have "store_inv (s'\<lparr>st_bytes := st_bytes s\<rparr>)" using P(4) by (simp add: s' rs total_size_def)
    moreover have "s'\<lparr>st_bytes := st_bytes s\<rparr> = s'" using frame by (cases s') (simp add: memory_frame_def)
    ultimately have "store_inv s'" by simp
    moreover have "replace us x = updated_record now mutate es x" if x: "x \<in> set (queue s)" for x
    proof (cases "r_event x \<in> set es")
      case True
      then obtain u where u: "u \<in> set us" "r_event u = r_event x" using ev by (metis image_iff list.set_map)
      have rx: "mget (st_records s) (r_event x) = Some x" using queue_member [OF index] x by simp
      with u have "replace us x = u" by (intro replace_member [OF ups]) auto
      with each [OF u(1)] u(2) rx True show ?thesis by (auto simp: updated_record_def)
    next
      case False
      have "replace us x = x" using replace_cases [of us x] False ev by (metis image_eqI list.set_map)
      with False show ?thesis by (simp add: updated_record_def)
    qed
    ultimately show ?thesis using q 3(3) by simp
  qed (use inv in auto)
  then show "store_inv s'" "res \<noteq> None \<Longrightarrow> s' = s" "res = None \<Longrightarrow> queue s' = map (updated_record now mutate es) (queue s)" by blast+
qed

section \<open>The updates of the source\<close>

lemma stored_in_use: "stored_state_ok r \<Longrightarrow> r_state r = StateReady \<or> r_state r = StateInEventsA \<or> r_state r = StateAckUncertain \<Longrightarrow>
   r_epoch r \<noteq> 0 \<and> r_broker r \<noteq> [] \<and> r_destination r \<noteq> []"
  by (auto simp: stored_state_ok_def)

lemma record_ok_state:
  assumes "record_ok r" and "r_state r = StateReady \<or> r_state r = StateInEventsA \<or> r_state r = StateAckUncertain"
    and "st = StateReady \<or> st = StateInEventsA \<or> st = StateAckUncertain" and "utf8_valid reason"
  shows "record_ok (r\<lparr>r_state := st, r_attempts := n, r_error := reason\<rparr>)" and "record_ok (r\<lparr>r_state := st, r_error := reason\<rparr>)"
proof -
  note r = record_okD [OF assms(1)] stored_in_use [OF record_okD(3) [OF assms(1)] assms(2)]
  show "record_ok (r\<lparr>r_state := st, r_attempts := n, r_error := reason\<rparr>)" "record_ok (r\<lparr>r_state := st, r_error := reason\<rparr>)"
    using r assms(3,4) by (auto intro!: record_okI simp: stored_state_ok_def missing_identity_def text_ok_def)
qed

lemma utf8_empty [simp]: "utf8_valid []"
  by (simp add: utf8_valid_def bytes_def)

lemma retry_text [simp]: "utf8_valid ''explicit retry after uncertain ACK; duplicate delivery is possible''"
  by code_simp

lemma recovery_text [simp]: "utf8_valid ''publish outcome unknown after outbox recovery; retry may duplicate''"
  by code_simp

lemma in_flight_ok: "mutation_ok (\<lambda>e. in_flight_record) es"
  by (auto simp: mutation_ok_def in_flight_record_def same_content_def intro!: record_ok_state split: if_splits)

lemma retry_ok: "mutation_ok (\<lambda>e. retry_record) es"
  by (auto simp: mutation_ok_def retry_record_def same_content_def intro!: record_ok_state split: if_splits)

lemma resolved_ok:
  assumes "st = StateReady \<or> st = StateAckUncertain" and "\<forall>e\<in>set es. utf8_valid (reason e)"
  shows "mutation_ok (\<lambda>e. resolved_record st (reason e)) es"
  using assms by (auto simp: mutation_ok_def resolved_record_def same_content_def intro!: record_ok_state split: if_splits)

definition text_assignment :: "Assignment \<Rightarrow> bool" where
  "text_assignment a \<longleftrightarrow> utf8_valid (as_broker a) \<and> utf8_valid (as_endpoint a) \<and> utf8_valid (as_destination a)"

lemma assign_ok:
  assumes "\<forall>e\<in>set es. text_assignment (a e)"
  shows "mutation_ok (\<lambda>e. assign_record (a e)) es"
  unfolding mutation_ok_def
proof (intro allI impI)
  fix r r1 assume r: "r_event r \<in> set es" "record_ok r" "assign_record (a (r_event r)) r = Inr r1"
  show "record_ok r1 \<and> same_content r r1"
  proof (cases "r1 = r")
    case False
    let ?a = "a (r_event r)"
    have r1: "r1 = r\<lparr>r_epoch := as_epoch ?a, r_broker := as_broker ?a, r_endpoint := as_endpoint ?a,
        r_destination := as_destination ?a, r_state := StateReady, r_error := []\<rparr>" "\<not> incomplete ?a"
      using r(3) False by (auto simp: assign_record_def split: if_splits)
    have "text_assignment ?a" using assms r(1) by blast
    then have "record_ok r1"
      using record_okD [OF r(2)] r1 by (auto intro!: record_okI simp: stored_state_ok_def missing_identity_def text_ok_def incomplete_def text_assignment_def)
    then show ?thesis using r1 by (simp add: same_content_def)
  qed (use r in \<open>simp add: same_content_def\<close>)
qed

section \<open>Completions\<close>

definition completion_for :: "Completion list \<Rightarrow> Record \<Rightarrow> Completion option" where
  "completion_for cs r = find (\<lambda>c. cm_event c = r_event r) cs"

text \<open>What the completions of a batch leave of one record.\<close>

definition completed :: "gotime \<Rightarrow> Completion list \<Rightarrow> Record \<Rightarrow> Record option" where
  "completed now cs r =
     (case completion_for cs r of
        None \<Rightarrow> Some r
      | Some c \<Rightarrow> (case resolve now c r of Delete \<Rightarrow> None | Update r1 \<Rightarrow> Some r1 | _ \<Rightarrow> Some r))"

definition applies :: "gotime \<Rightarrow> Store \<Rightarrow> Completion \<Rightarrow> bool" where
  "applies now s c \<longleftrightarrow> (\<exists>r. mget (st_records s) (cm_event c) = Some r \<and> resolve now c r \<noteq> Ignore)"

definition text_completion :: "Completion \<Rightarrow> bool" where
  "text_completion c \<longleftrightarrow> utf8_valid (cm_reason c)"

lemma resolve_Update:
  assumes "resolve now c r = Update r1" and "record_ok r" and "text_completion c"
  shows "record_ok r1" and "same_content r r1"
proof -
  have "r_state r = StateInEventsA \<and> (r1 = completed_record now StateReady c r \<or> r1 = completed_record now StateAckUncertain c r)"
    using assms(1) by (auto simp: resolve_def split: if_splits CompletionOutcome.splits)
  then show "record_ok r1" "same_content r r1"
    using assms(2,3) record_ok_state(2) [of r StateReady "cm_reason c"] record_ok_state(2) [of r StateAckUncertain "cm_reason c"]
    by (auto simp: completed_record_def same_content_def text_completion_def)
qed

definition plan_updates :: "gotime \<Rightarrow> Store \<Rightarrow> Completion \<Rightarrow> Record option" where
  "plan_updates now s c = (case mget (st_records s) (cm_event c) of None \<Rightarrow> None
     | Some r \<Rightarrow> (case resolve now c r of Update r1 \<Rightarrow> Some r1 | _ \<Rightarrow> None))"

definition plan_deletes :: "gotime \<Rightarrow> Store \<Rightarrow> Completion \<Rightarrow> Record option" where
  "plan_deletes now s c = (case mget (st_records s) (cm_event c) of None \<Rightarrow> None
     | Some r \<Rightarrow> (case resolve now c r of Delete \<Rightarrow> Some r | _ \<Rightarrow> None))"

lemma complete_loop_ok:
  assumes "complete_loop now s seen cs = Inr p" and "index_inv s" and "\<forall>r\<in>set (queue s). record_ok r" and "\<forall>c\<in>set cs. text_completion c"
  shows "cp_applied p = filter (applies now s) cs" and "cp_deleted p = List.map_filter (plan_deletes now s) cs"
    and "cp_updated p = map (\<lambda>r. (r, r)) (List.map_filter (plan_updates now s) cs)"
    and "distinct (map cm_event cs)" and "cm_event ` set cs \<inter> set seen = {}"
proof -
  have "cp_applied p = filter (applies now s) cs \<and> cp_deleted p = List.map_filter (plan_deletes now s) cs \<and>
      cp_updated p = map (\<lambda>r. (r, r)) (List.map_filter (plan_updates now s) cs) \<and> distinct (map cm_event cs) \<and> cm_event ` set cs \<inter> set seen = {}"
    using assms(1,4)
  proof (induction cs arbitrary: seen p)
    case (Cons c cs)
    have new: "cm_event c \<noteq> []" "cm_event c \<notin> set seen" using Cons.prems(1) by (auto split: if_splits)
    let ?rest = "complete_loop now s (cm_event c # seen) cs"
    show ?case
    proof (cases "mget (st_records s) (cm_event c)")
      case None
      with Cons.prems(1) new have "?rest = Inr p" by (simp add: Let_def)
      from Cons.IH [OF this] Cons.prems(2) new None show ?thesis
        by (auto simp: map_filter_simps plan_updates_def plan_deletes_def applies_def)
    next
      case (Some r)
      have "r_event r = cm_event c" using assms(2) Some by (auto simp: index_inv_def order_ok_def records_ok_def)
      then have "record_ok r" using assms(3) Some queue_member [OF assms(2), of r] by simp
      note R = resolve_Update [OF _ this]
      obtain p' where p': "?rest = Inr p'" using Cons.prems(1) new Some by (auto simp: Let_def split: resolution.splits option.splits sum.splits)
      note IH = Cons.IH [OF p'] 
      have c: "text_completion c" using Cons.prems(2) by simp
      show ?thesis
      proof (cases "resolve now c r")
        case (Update r1)
        then obtain stored where st: "marshal r1 = Some stored" using Cons.prems(1) new Some p' by (auto simp: Let_def split: option.splits)
        then have "stored = r1" using marshal_text [OF record_okD(6) [OF R(1) [OF Update c]]] by simp
        with Cons.prems new Some p' Update st IH show ?thesis
          by (auto simp: map_filter_simps plan_updates_def plan_deletes_def applies_def Let_def)
      qed (use Cons.prems new Some p' IH in \<open>auto simp: map_filter_simps plan_updates_def plan_deletes_def applies_def Let_def\<close>)
    qed
  qed (simp add: map_filter_simps)
  then show "cp_applied p = filter (applies now s) cs" "cp_deleted p = List.map_filter (plan_deletes now s) cs"
    "cp_updated p = map (\<lambda>r. (r, r)) (List.map_filter (plan_updates now s) cs)" "distinct (map cm_event cs)" "cm_event ` set cs \<inter> set seen = {}"
    by blast+
qed

end
