(* ===== verification/Outbox_Complete.thy ===== *)
theory Outbox_Complete
  imports Outbox_Operations
begin

text \<open>
  Completions and acknowledgements: a committed batch deletes the acknowledged records, updates the rejected and
  uncertain ones and leaves every other record, and what it reports is exactly what it applied.
\<close>

lemma compact_store:
  assumes "store_inv s"
  shows "store_inv (compactOrderIfNeeded s)" and "queue (compactOrderIfNeeded s) = queue s"
proof -
  have "live (compactOrderIfNeeded s) es = live s es" for es by (rule live_frame) (simp add: compactOrderIfNeeded_def)
  then show q: "queue (compactOrderIfNeeded s) = queue s"
    unfolding queue_def by (auto simp: compactOrderIfNeeded_def simp del: not_None_eq)
  have "index_inv s" using assms by (simp add: store_inv_def)
  then have "index_inv (compactOrderIfNeeded s)" by (rule compact_inv)
  then show "store_inv (compactOrderIfNeeded s)"
    by (rule store_inv_frame [OF _ _ q]) (use assms in \<open>simp_all add: compactOrderIfNeeded_def\<close>)
qed

lemma mget_put_all_other: "e \<notin> r_event ` set us \<Longrightarrow> mget (put_all us m) e = mget m e"
  unfolding put_all_def by (induction us arbitrary: m) auto

lemma map_filter_member: "x \<in> set (List.map_filter f xs) \<longleftrightarrow> (\<exists>y\<in>set xs. f y = Some x)"
  by (induction xs) (auto simp: map_filter_simps split: option.split)

lemma distinct_planned:
  assumes "\<And>c r. c \<in> set cs \<Longrightarrow> f c = Some r \<Longrightarrow> r_event r = cm_event c" and "distinct (map cm_event cs)"
  shows "distinct (map r_event (List.map_filter f cs))"
  using assms
proof (induction cs)
  case (Cons c cs)
  have "cm_event c \<notin> r_event ` set (List.map_filter f cs)"
    using Cons.prems by (auto simp: map_filter_member) (metis image_eqI)
  moreover have "distinct (map r_event (List.map_filter f cs))" using Cons by simp
  moreover have "r_event r = cm_event c" if "f c = Some r" for r using Cons.prems(1) that by simp
  ultimately show ?case by (cases "f c") (simp_all add: map_filter_simps)
qed (simp add: map_filter_simps)

lemma filter_map_eq_map_filter:
  "(\<And>x. x \<in> set xs \<Longrightarrow> g x = (if P (f x) then Some (f x) else None)) \<Longrightarrow> filter P (map f xs) = List.map_filter g xs"
  by (induction xs) (auto simp: map_filter_simps)

lemma completion_unique:
  "distinct (map cm_event cs) \<Longrightarrow> c \<in> set cs \<Longrightarrow> cm_event c = r_event r \<Longrightarrow> completion_for cs r = Some c"
  unfolding completion_for_def by (induction cs) (auto simp: image_iff)

lemma completion_member: "completion_for cs r = Some c \<Longrightarrow> c \<in> set cs \<and> cm_event c = r_event r"
  unfolding completion_for_def by (auto simp: find_Some_iff)

lemma completion_none: "completion_for cs r = None \<Longrightarrow> c \<in> set cs \<Longrightarrow> cm_event c \<noteq> r_event r"
  unfolding completion_for_def by (auto simp: find_None_iff)

section \<open>The plan of a batch\<close>

definition valid_plan :: "Store \<Rightarrow> Record list \<Rightarrow> Record list \<Rightarrow> bool" where
  "valid_plan s us ds \<longleftrightarrow> updates us (st_records s) \<and> deletes ds (put_all us (st_records s)) \<and>
     (\<forall>u\<in>set us. record_ok u \<and> (\<forall>x. mget (st_records s) (r_event u) = Some x \<longrightarrow> r_size u = r_size x))"

lemma apply_plan:
  assumes inv: "store_inv s" and plan: "valid_plan s us ds" and p: "cp_updated p = map (\<lambda>r. (r, r)) us" "cp_deleted p = ds"
  shows "store_inv (apply_completion p s)"
    and "queue (apply_completion p s) = filter (\<lambda>x. r_event x \<notin> r_event ` set ds) (map (replace us) (queue s))"
proof -
  define t where "t = s\<lparr>st_db := persist_completed p (st_bytes s - total_size ds) (st_db s)\<rparr>"
  define m where "m = fold index_deleted ds (fold index_updated us t)"
  define m' where "m' = m\<lparr>st_bytes := st_bytes s - total_size ds, st_deleted := st_deleted m + length ds\<rparr>"
  have db: "st_db t = (if ds = [] then persist_updated (map (\<lambda>r. (r, r)) us) (st_db s)
      else put_metadata totalBytesKey (of_int (st_bytes s - total_size ds)) (fold delete_record ds (persist_updated (map (\<lambda>r. (r, r)) us) (st_db s))))"
    by (simp add: t_def persist_completed_def p Let_def)
  have same: "st_records t = st_records s" "st_order t = st_order s" "st_lanes t = st_lanes s" "st_ready t = st_ready s"
      "st_limits t = st_limits s" "st_next t = st_next s" by (simp_all add: t_def)
  have v: "updates us (st_records s)" "deletes ds (put_all us (st_records s))"
    "\<forall>u\<in>set us. record_ok u \<and> (\<forall>x. mget (st_records s) (r_event u) = Some x \<longrightarrow> r_size u = r_size x)"
    using plan by (simp_all add: valid_plan_def)
  have P: "index_inv m" "queue m = filter (\<lambda>x. r_event x \<notin> r_event ` set ds) (map (replace us) (queue s))"
    "store_inv (m\<lparr>st_bytes := st_bytes s - total_size ds\<rparr>)"
    unfolding m_def using plan_committed [OF inv v(1,3,2) db same] by blast+
  have "map fst (cp_updated p) = us" by (simp add: p comp_def)
  then have ap: "apply_completion p s = compactOrderIfNeeded m'"
    by (simp add: apply_completion_def p(2) Let_def m'_def m_def t_def total_size_def)
  have q': "queue m' = queue m" by (rule queue_frame) (simp_all add: m'_def)
  have st: "store_inv m'"
  proof (rule store_inv_frame [OF _ _ _ _ _ _ _ P(3)])
    show "index_inv m'" by (rule index_inv_frame [OF P(1)]) (simp_all add: m'_def)
    have "queue (m\<lparr>st_bytes := st_bytes s - total_size ds\<rparr>) = queue m" by (rule queue_frame) simp_all
    then show "queue m' = queue (m\<lparr>st_bytes := st_bytes s - total_size ds\<rparr>)" using q' by simp
  qed (simp_all add: m'_def)
  from compact_store(1) [OF this] show "store_inv (apply_completion p s)" by (simp add: ap)
  show "queue (apply_completion p s) = filter (\<lambda>x. r_event x \<notin> r_event ` set ds) (map (replace us) (queue s))"
    using compact_store(2) [OF st] q' P(2) by (simp add: ap)
qed

section \<open>The plan of the completions\<close>

lemma planned_update:
  assumes inv: "store_inv s" and "plan_updates now s c = Some u" and "text_completion c"
  shows "\<exists>r. mget (st_records s) (cm_event c) = Some r \<and> resolve now c r = Update u \<and> record_ok u \<and> same_content r u"
    and "r_event u = cm_event c"
proof -
  obtain r where r: "mget (st_records s) (cm_event c) = Some r" "resolve now c r = Update u"
    using assms(2) by (auto simp: plan_updates_def split: option.splits resolution.splits)
  have index: "index_inv s" using inv by (simp add: store_inv_def)
  then have ev: "r_event r = cm_event c" using r(1) by (auto simp: index_inv_def order_ok_def records_ok_def)
  then have "record_ok r" using inv queue_member [OF index, of r] r(1) by (simp add: store_inv_def)
  note R = resolve_Update [OF r(2) this assms(3)]
  with r show "\<exists>r. mget (st_records s) (cm_event c) = Some r \<and> resolve now c r = Update u \<and> record_ok u \<and> same_content r u" by blast
  show "r_event u = cm_event c" using R(2) ev by (simp add: same_content_def)
qed

lemma planned_delete:
  assumes "store_inv s" and "plan_deletes now s c = Some r"
  shows "mget (st_records s) (cm_event c) = Some r" and "resolve now c r = Delete" and "r_event r = cm_event c"
proof -
  show r: "mget (st_records s) (cm_event c) = Some r" "resolve now c r = Delete"
    using assms(2) by (auto simp: plan_deletes_def split: option.splits resolution.splits)
  show "r_event r = cm_event c" using assms(1) r(1) by (auto simp: store_inv_def index_inv_def order_ok_def records_ok_def)
qed

lemma planned_once: "plan_updates now s c = Some u \<Longrightarrow> plan_deletes now s c = None"
  by (auto simp: plan_updates_def plan_deletes_def split: option.splits resolution.splits)

lemma completion_plan_valid:
  assumes inv: "store_inv s" and dist: "distinct (map cm_event cs)" and reasons: "\<forall>c\<in>set cs. text_completion c"
  shows "valid_plan s (List.map_filter (plan_updates now s) cs) (List.map_filter (plan_deletes now s) cs)"
    (is "valid_plan s ?us ?ds")
proof -
  have us: "\<exists>c\<in>set cs. plan_updates now s c = Some u \<and> text_completion c" if "u \<in> set ?us" for u
    using that reasons by (auto simp: map_filter_member)
  have "distinct (map r_event ?us)" using planned_update(2) [OF inv] reasons dist by (intro distinct_planned) blast+
  moreover have "\<exists>r0. mget (st_records s) (r_event u) = Some r0 \<and> same_place r0 u" if u: "u \<in> set ?us" for u
    using us [OF u] planned_update [OF inv] by (metis same_content_place)
  moreover have "record_ok u \<and> (\<forall>x. mget (st_records s) (r_event u) = Some x \<longrightarrow> r_size u = r_size x)" if u: "u \<in> set ?us" for u
    using us [OF u] planned_update [OF inv] by (fastforce simp: same_content_def)
  moreover have "distinct (map r_event ?ds)" using planned_delete(3) [OF inv] dist by (intro distinct_planned) blast+
  moreover have "mget (put_all ?us (st_records s)) (r_event d) = Some d" if d: "d \<in> set ?ds" for d
  proof -
    obtain c where c: "c \<in> set cs" "plan_deletes now s c = Some d" using d by (auto simp: map_filter_member)
    have "r_event d \<notin> r_event ` set ?us"
    proof
      assume "r_event d \<in> r_event ` set ?us"
      then obtain u where "u \<in> set ?us" "r_event d = r_event u" by blast
      with us obtain c' where c': "c' \<in> set cs" "plan_updates now s c' = Some u" "text_completion c'" "r_event d = r_event u" by blast
      then have "cm_event c = cm_event c'" using planned_delete(3) [OF inv c(2)] planned_update(2) [OF inv c'(2,3)] by simp
      then have "c = c'" using dist c(1) c'(1) by (auto simp: distinct_map dest: inj_onD)
      with c(2) planned_once [OF c'(2)] show False by simp
    qed
    from mget_put_all_other [OF this] show ?thesis using planned_delete [OF inv c(2)] by simp
  qed
  ultimately show ?thesis by (simp add: valid_plan_def updates_def deletes_def)
qed

lemma completion_plan_record:
  fixes now :: gotime
  assumes inv: "store_inv s" and dist: "distinct (map cm_event cs)" and reasons: "\<forall>c\<in>set cs. text_completion c" and x: "x \<in> set (queue s)"
  defines "us \<equiv> List.map_filter (plan_updates now s) cs" and "ds \<equiv> List.map_filter (plan_deletes now s) cs"
  shows "completed now cs x = (if r_event (replace us x) \<notin> r_event ` set ds then Some (replace us x) else None)"
proof -
  have index: "index_inv s" using inv by (simp add: store_inv_def)
  have rx: "mget (st_records s) (r_event x) = Some x" using queue_member [OF index] x by simp
  have ups: "updates us (st_records s)" using completion_plan_valid [OF inv dist reasons] by (simp add: valid_plan_def us_def)
  have in_us: "\<exists>c\<in>set cs. plan_updates now s c = Some u \<and> cm_event c = r_event u" if u: "u \<in> set us" for u
  proof -
    obtain c where c: "c \<in> set cs" "plan_updates now s c = Some u" using u by (auto simp: us_def map_filter_member)
    with planned_update(2) [OF inv c(2)] reasons show ?thesis by auto
  qed
  have in_ds: "\<exists>c\<in>set cs. plan_deletes now s c = Some d \<and> cm_event c = r_event d" if d: "d \<in> set ds" for d
  proof -
    obtain c where c: "c \<in> set cs" "plan_deletes now s c = Some d" using d by (auto simp: ds_def map_filter_member)
    with planned_delete(3) [OF inv c(2)] show ?thesis by auto
  qed
  have same_ev: "r_event (replace us x) = r_event x" using replace_cases [of us x] by auto
  show ?thesis
  proof (cases "completion_for cs x")
    case None
    note none = completion_none [OF None]
    have "replace us x = x" using replace_cases [of us x] none in_us [of "replace us x"] by auto
    moreover have "r_event x \<notin> r_event ` set ds"
    proof
      assume "r_event x \<in> r_event ` set ds"
      then obtain d where d: "d \<in> set ds" "r_event d = r_event x" by auto
      with in_ds [OF d(1)] none show False by auto
    qed
    ultimately show ?thesis using None by (simp add: completed_def)
  next
    case (Some c)
    then have c: "c \<in> set cs" "cm_event c = r_event x" using completion_member by blast+
    have only: "c' = c" if "c' \<in> set cs" "cm_event c' = r_event x" for c'
      using completion_unique [OF dist that] Some by simp
    have up: "plan_updates now s c = (case resolve now c x of Update u \<Rightarrow> Some u | _ \<Rightarrow> None)"
      and del: "plan_deletes now s c = (case resolve now c x of Delete \<Rightarrow> Some x | _ \<Rightarrow> None)"
      using rx c(2) by (simp_all add: plan_updates_def plan_deletes_def)
    have rep: "replace us x = (case plan_updates now s c of Some u \<Rightarrow> u | None \<Rightarrow> x)"
    proof (cases "plan_updates now s c")
      case None
      then show ?thesis using replace_cases [of us x] in_us [of "replace us x"] only by auto
    next
      case u: (Some u)
      then have m: "u \<in> set us" "r_event x = r_event u" using c planned_update(2) [OF inv u] reasons by (auto simp: us_def map_filter_member)
      have "replace us x = u" by (rule replace_member [OF ups m(1) _ m(2)]) (use rx m(2) in simp)
      then show ?thesis using u by simp
    qed
    have iff: "r_event x \<in> r_event ` set ds \<longleftrightarrow> plan_deletes now s c \<noteq> None"
    proof
      assume "r_event x \<in> r_event ` set ds"
      then obtain d where d: "d \<in> set ds" "r_event d = r_event x" by auto
      with in_ds [OF d(1)] only show "plan_deletes now s c \<noteq> None" by auto
    next
      assume "plan_deletes now s c \<noteq> None"
      then have "plan_deletes now s c = Some x" by (simp add: del split: resolution.splits)
      with c(1) have "x \<in> set ds" by (auto simp: ds_def map_filter_member)
      then show "r_event x \<in> r_event ` set ds" by simp
    qed
    show ?thesis unfolding same_ev iff unfolding rep up del completed_def Some by (simp split: resolution.split)
  qed
qed

lemma apply_completion_spec:
  assumes inv: "store_inv s" and loop: "complete_loop now s [] cs = Inr p" and reasons: "\<forall>c\<in>set cs. text_completion c"
  shows "store_inv (apply_completion p s)" and "queue (apply_completion p s) = List.map_filter (completed now cs) (queue s)"
proof -
  let ?us = "List.map_filter (plan_updates now s) cs" and ?ds = "List.map_filter (plan_deletes now s) cs"
  have L: "cp_updated p = map (\<lambda>r. (r, r)) ?us" "cp_deleted p = ?ds" "distinct (map cm_event cs)"
    using complete_loop_ok [OF loop _ _ reasons] inv by (simp_all add: store_inv_def)
  note P = apply_plan [OF inv completion_plan_valid [OF inv L(3) reasons] L(1,2)]
  show "store_inv (apply_completion p s)" by (rule P(1))
  have "filter (\<lambda>x. r_event x \<notin> r_event ` set ?ds) (map (replace ?us) (queue s)) = List.map_filter (completed now cs) (queue s)"
    using completion_plan_record [OF inv L(3) reasons] by (intro filter_map_eq_map_filter)
  with P(2) show "queue (apply_completion p s) = List.map_filter (completed now cs) (queue s)" by simp
qed


section \<open>The operations\<close>

lemma CompleteBatch_cases:
  assumes "CompleteBatch now commit cs s = (res, s')"
  obtains e where "res = Inl e" "s' = s"
  | "cs = []" "res = Inr []" "s' = s"
  | p where "complete_loop now s [] cs = Inr p" "cp_applied p = []" "res = Inr []" "s' = s"
  | p where "complete_loop now s [] cs = Inr p" "cp_applied p \<noteq> []" "res = Inr (cp_applied p)" "s' = apply_completion p s"
proof (cases "\<not> st_open s \<or> cs = []")
  case True
  then show thesis using that(1,2) assms by (auto simp: CompleteBatch_def split: if_splits)
next
  case ready: False
  show thesis
  proof (cases "complete_loop now s [] cs")
    case (Inr p)
    with ready assms that(1) that(3) [OF Inr] that(4) [OF Inr] show thesis by (auto simp: CompleteBatch_def split: if_splits)
  qed (use ready assms that(1) in \<open>auto simp: CompleteBatch_def\<close>)
qed

lemma CompleteBatch_spec:
  assumes inv: "store_inv s" and reasons: "\<forall>c\<in>set cs. text_completion c" and run: "CompleteBatch now commit cs s = (res, s')"
  shows "store_inv s'"
    and "case res of Inl e \<Rightarrow> s' = s
         | Inr applied \<Rightarrow> applied = filter (applies now s) cs \<and> queue s' = List.map_filter (completed now cs) (queue s)"
proof -
  have index: "index_inv s" and oks: "\<forall>r\<in>set (queue s). record_ok r" using inv by (simp_all add: store_inv_def)
  have id: "List.map_filter (completed now cs) (queue s) = queue s" if none: "\<forall>c\<in>set cs. \<not> applies now s c"
  proof -
    have "completed now cs x = Some x" if x: "x \<in> set (queue s)" for x
    proof (cases "completion_for cs x")
      case (Some c)
      then have c: "c \<in> set cs" "cm_event c = r_event x" using completion_member by blast+
      have "mget (st_records s) (r_event x) = Some x" using queue_member [OF index] x by simp
      then have "resolve now c x = Ignore" using none c by (auto simp: applies_def)
      then show ?thesis using Some by (simp add: completed_def)
    qed (simp add: completed_def)
    then have "List.map_filter (completed now cs) xs = xs" if "set xs \<subseteq> set (queue s)" for xs
      using that by (induction xs) (auto simp: map_filter_simps)
    then show ?thesis by blast
  qed
  have "store_inv s' \<and> (case res of Inl e \<Rightarrow> s' = s
         | Inr applied \<Rightarrow> applied = filter (applies now s) cs \<and> queue s' = List.map_filter (completed now cs) (queue s))"
    using run
  proof (cases rule: CompleteBatch_cases)
    case (3 p)
    have "filter (applies now s) cs = []" using complete_loop_ok(1) [OF 3(1) index oks reasons] 3(2) by simp
    with id 3 inv show ?thesis by (simp add: filter_empty_conv)
  next
    case (4 p)
    with apply_completion_spec [OF inv 4(1) reasons] complete_loop_ok(1) [OF 4(1) index oks reasons] show ?thesis by simp
  qed (use inv id in simp_all)
  then show "store_inv s'" "case res of Inl e \<Rightarrow> s' = s
      | Inr applied \<Rightarrow> applied = filter (applies now s) cs \<and> queue s' = List.map_filter (completed now cs) (queue s)" by blast+
qed

lemma ack_loop_ok: "ack_loop s es = Inr rs \<Longrightarrow> list_all2 (\<lambda>e r. mget (st_records s) e = Some r \<and>
    (r_state r = StateInEventsA \<or> r_state r = StateAckUncertain)) es rs"
  by (induction es arbitrary: rs) (auto split: option.splits if_splits sum.splits)

lemma ackMany_spec:
  assumes inv: "store_inv s" and run: "ackMany commit es s = (res, s')"
  shows "store_inv s'" and "res \<noteq> None \<Longrightarrow> s' = s" and "res = None \<Longrightarrow> queue s' = filter (\<lambda>r. r_event r \<notin> set es) (queue s)"
proof -
  let ?p = "\<lambda>rs. \<lparr>cp_applied = [], cp_updated = [], cp_deleted = rs\<rparr>"
  consider e where "res = Some e" "s' = s" | "es = []" "res = None" "s' = s"
    | rs where "validateUniqueEventIDs [] es = None" "ack_loop s es = Inr rs" "res = None" "s' = apply_completion (?p rs) s"
  proof (cases "\<not> st_open s \<or> es = [] \<or> validateUniqueEventIDs [] es \<noteq> None")
    case True
    then have "(\<exists>e. res = Some e) \<and> s' = s \<or> es = [] \<and> res = None \<and> s' = s"
      using run unfolding ackMany_def by (cases "validateUniqueEventIDs [] es"; cases res) (auto split: if_splits)
    then show ?thesis using that(1,2) by blast
  next
    case False
    then have "(\<exists>e. res = Some e) \<and> s' = s \<or> (\<exists>rs. ack_loop s es = Inr rs \<and> res = None \<and> s' = apply_completion (?p rs) s)"
      using run by (cases "ack_loop s es"; cases commit) (auto simp: ackMany_def)
    then show ?thesis using that(1,3) False by blast
  qed
  then have "store_inv s' \<and> (res \<noteq> None \<longrightarrow> s' = s) \<and> (res = None \<longrightarrow> queue s' = filter (\<lambda>r. r_event r \<notin> set es) (queue s))"
  proof cases
    case 3
    have ev: "r_event r = e" if "mget (st_records s) e = Some r" for e r
      using inv that by (auto simp: store_inv_def index_inv_def order_ok_def records_ok_def)
    have rel: "list_all2 (\<lambda>e r. mget (st_records s) e = Some r) es rs"
      using ack_loop_ok [OF 3(2)] by (rule list_all2_mono) blast
    then have m: "map r_event rs = es" "\<forall>r\<in>set rs. mget (st_records s) (r_event r) = Some r"
      using ev by (induction rule: list_all2_induct) auto
    then have "valid_plan s [] rs"
      using 3(1) by (simp add: valid_plan_def updates_def deletes_def put_all_def validateUniqueEventIDs_iff)
    then have P: "store_inv s'" "queue s' = filter (\<lambda>x. r_event x \<notin> r_event ` set rs) (queue s)"
      using apply_plan [OF inv, of "[]" rs "?p rs"] by (simp_all add: 3(4))
    have "r_event ` set rs = set es" using m(1) by auto
    then show ?thesis using P 3(3) by simp
  qed (use inv in simp_all)
  then show "store_inv s'" "res \<noteq> None \<Longrightarrow> s' = s" "res = None \<Longrightarrow> queue s' = filter (\<lambda>r. r_event r \<notin> set es) (queue s)" by blast+
qed

end
