(* ===== verification/Outbox_Recovery.thy ===== *)
theory Outbox_Recovery
  imports Outbox_Complete
begin

text \<open>
  Opening the outbox again (\<open>load\<close> of \<^verbatim>\<open>outbox/outbox.go\<close>): the database of a store that keeps the invariant
  loads, under limits that hold its content, to a store with the same queue in which the records that were being
  published are ACK-uncertain.
\<close>

section \<open>Indexing loaded records\<close>

text \<open>Rebuilding the index of loaded records does what accepting them one after the other did.\<close>

definition with_table :: "(string, Record) gomap \<Rightarrow> string list \<Rightarrow> Store \<Rightarrow> Store" where
  "with_table recs es s = s\<lparr>st_records := recs, st_order := es\<rparr>"

lemma lane_table [simp]: "lane (with_table recs es s) k = lane s k" "st_ready (with_table recs es s) = st_ready s"
  "st_lanes (with_table recs es s) = st_lanes s" "st_records (with_table recs es s) = recs"
  by (simp_all add: with_table_def lane_def)

lemma table_put [simp]:
  "put_lane k l (with_table recs es s) = with_table recs es (put_lane k l s)"
  "set_index k i (with_table recs es s) = with_table recs es (set_index k i s)"
  "set_sequence k q (with_table recs es s) = with_table recs es (set_sequence k q s)"
  "(with_table recs es s)\<lparr>st_ready := ks\<rparr> = with_table recs es (s\<lparr>st_ready := ks\<rparr>)"
  by (simp_all add: put_lane_def set_index_def set_sequence_def with_table_def lane_def)

lemma records_put [simp]: "st_records (put_lane k l s) = st_records s"
  by (simp add: put_lane_def)

lemma table_heap [simp]:
  "Less readyLaneHeap (with_table recs es s) = Less readyLaneHeap s" "Len readyLaneHeap (with_table recs es s) = Len readyLaneHeap s"
  "Swap readyLaneHeap i j (with_table recs es s) = with_table recs es (Swap readyLaneHeap i j s)"
  by (auto simp: readyLaneHeap_def ready_Less_def ready_Swap_def Let_def intro!: ext)

lemma table_up [simp]: "heap_up readyLaneHeap j (with_table recs es s) = with_table recs es (heap_up readyLaneHeap j s)"
proof (induction j arbitrary: s rule: less_induct)
  case (less j)
  show ?case
    using less [of "parent j"] parent_le [of j] by (subst (1 2) heap_up.simps) (auto simp: Let_def)
qed

lemma table_push [simp]:
  "heap_Push readyLaneHeap (ready_Push k) (with_table recs es s) = with_table recs es (heap_Push readyLaneHeap (ready_Push k) s)"
proof -
  have "ready_Push k (with_table recs es s) = with_table recs es (ready_Push k s)" by (simp add: ready_Push_def)
  then show ?thesis by (simp add: heap_Push_def Let_def)
qed

lemma table_index:
  assumes "mget recs (r_event r) = Some r" and "mget (st_records s) (r_event r) = Some r"
    and "mget (st_lanes s) (effectiveOrderingKey r) = None \<or> ln_events (lane s (effectiveOrderingKey r)) \<noteq> []"
  shows "indexAccepted r (with_table recs es s) = with_table recs es (indexAccepted r s)"
proof (cases "mget (st_lanes s) (effectiveOrderingKey r) = None")
  case True
  then have "lane s (effectiveOrderingKey r) = new_lane (effectiveOrderingKey r)" by (simp add: lane_def mget_or_def)
  with assms(1,2) show ?thesis
    by (simp add: indexAccepted_def refreshLane_def remove_ready_def new_lane_def Let_def)
next
  case False
  with assms(3) have "length (ln_events (lane s (effectiveOrderingKey r))) \<noteq> 0" by auto
  then show ?thesis by (simp add: indexAccepted_def Let_def)
qed


lemma rebuild_fold:
  assumes "index_inv t" and "\<forall>r\<in>set rs. fresh_event t (r_event r) \<and> mget recs (r_event r) = Some r" and "distinct (map r_event rs)"
    and "sorted_wrt (\<lambda>r1 r2. r_sequence r1 < r_sequence r2) (queue t @ rs)"
  shows "fold (\<lambda>e s1. case mget (st_records s1) e of None \<Rightarrow> s1 | Some r \<Rightarrow> indexAccepted r s1) (map r_event rs) (with_table recs es t) =
    with_table recs es (fold index_accepted rs t)"
  using assms
proof (induction rs arbitrary: t)
  case (Cons r rs)
  let ?t = "index_accepted r t"
  let ?u = "t\<lparr>st_records := mput (r_event r) r (st_records t), st_order := st_order t @ [r_event r]\<rparr>"
  note B = accept_batch [OF Cons.prems(1), of "[r]"]
  have inv: "index_inv ?t" "queue ?t = queue t @ [r]"
    using B(1,2) Cons.prems by (simp_all add: sorted_wrt_append)
  have "\<forall>r'\<in>set rs. fresh_event ?t (r_event r')"
    using Cons.prems event_neq [OF Cons.prems(3)] by (simp add: fresh_accept)
  then have IH: "fold (\<lambda>e s1. case mget (st_records s1) e of None \<Rightarrow> s1 | Some r \<Rightarrow> indexAccepted r s1) (map r_event rs) (with_table recs es ?t) =
      with_table recs es (fold index_accepted rs ?t)"
    using Cons.IH [OF inv(1)] inv(2) Cons.prems by simp
  have "mget (st_lanes t) k = None \<or> ln_events (lane t k) \<noteq> []" for k
    using Cons.prems(1) by (fastforce simp: index_inv_def lanes_ok_def lane_shape_def lane_def mget_or_def split: option.split)
  then have "indexAccepted r (with_table recs es ?u) = with_table recs es (indexAccepted r ?u)"
    using Cons.prems(2) by (intro table_index) simp_all
  moreover have "with_table recs es ?u = with_table recs es t" by (simp add: with_table_def)
  ultimately have "indexAccepted r (with_table recs es t) = with_table recs es ?t" by (simp add: index_accepted_def)
  then show ?case using IH Cons.prems(2) by simp
qed simp

lemma mput_new: "k \<notin> fst ` set m \<Longrightarrow> mput k v m = m @ [(k, v)]"
  unfolding mput_def by (induction m) auto

lemma put_all_list: "distinct (map r_event rs) \<Longrightarrow> r_event ` set rs \<inter> fst ` set m = {} \<Longrightarrow> put_all rs m = m @ map (\<lambda>r. (r_event r, r)) rs"
proof (induction rs arbitrary: m)
  case (Cons r rs)
  have "mput (r_event r) r m = m @ [(r_event r, r)]" using Cons.prems(2) by (intro mput_new) auto
  moreover have "r_event ` set rs \<inter> fst ` set (m @ [(r_event r, r)]) = {}" using Cons.prems by auto
  ultimately show ?case using Cons.IH [of "m @ [(r_event r, r)]"] Cons.prems(1) by (simp add: put_all_def)
qed (simp add: put_all_def)

lemma rebuilt:
  assumes "distinct (map r_event rs)" and "sorted_wrt (\<lambda>r1 r2. r_sequence r1 < r_sequence r2) rs"
    and "st_records s = map (\<lambda>r. (r_event r, r)) rs" and "st_order s = map r_event rs"
  shows "index_inv (rebuildEligibleIndex s)" and "queue (rebuildEligibleIndex s) = rs"
    and "memory_frame s (rebuildEligibleIndex s)" and "st_records (rebuildEligibleIndex s) = st_records s"
proof -
  define t where "t = s\<lparr>st_lanes := [], st_ready := [], st_records := [], st_order := []\<rparr>"
  have t: "index_inv t" "queue t = []" "\<And>e. fresh_event t e"
    by (simp_all add: t_def index_inv_def order_ok_def records_ok_def ready_inv_def rh.heap_ok_def is_heap_def lanes_ok_def
        lane_queue_def queue_def fresh_event_def)
  let ?u = "fold index_accepted rs t"
  have recs: "mget (st_records s) (r_event r) = Some r" if "r \<in> set rs" for r
    unfolding assms(3) using assms(1) that by (intro map_of_is_SomeI) (auto simp: comp_def)
  have B: "index_inv ?u" "queue ?u = rs" "memory_frame t ?u" "st_records ?u = put_all rs []"
    using accept_batch [OF t(1), of rs] t assms(1,2) by (simp_all add: t_def)
  have "st_order (fold index_accepted rs t) = st_order t @ map r_event rs" for t
    by (induction rs arbitrary: t) (simp_all add: index_accepted_frame)
  then have tab: "st_order ?u = st_order s" "st_records ?u = st_records s"
    using B(4) put_all_list [OF assms(1), of "[]"] assms(3,4) by (simp_all add: t_def)
  have "rebuildEligibleIndex s = fold (\<lambda>e s1. case mget (st_records s1) e of None \<Rightarrow> s1 | Some r \<Rightarrow> indexAccepted r s1) (map r_event rs)
      (with_table (st_records s) (st_order s) t)"
  proof -
    have "with_table (st_records s) (st_order s) t = s\<lparr>st_lanes := [], st_ready := []\<rparr>" by (cases s) (simp add: with_table_def t_def)
    then show ?thesis by (simp add: rebuildEligibleIndex_def flip: assms(4))
  qed
  also have "\<dots> = with_table (st_records s) (st_order s) ?u"
    using t recs assms(1,2) by (intro rebuild_fold) simp_all
  also have "\<dots> = ?u" by (simp add: with_table_def flip: tab)
  finally have eq: "rebuildEligibleIndex s = ?u" .
  show "index_inv (rebuildEligibleIndex s)" "queue (rebuildEligibleIndex s) = rs" "st_records (rebuildEligibleIndex s) = st_records s"
    unfolding eq using B tab by simp_all
  show "memory_frame s (rebuildEligibleIndex s)" unfolding eq using B(3) by (simp add: memory_frame_def t_def)
qed


section \<open>Reading the records\<close>

lemma cursor_records:
  assumes "index_inv s" and "db_data (st_records s) db"
  shows "cursor (db_records db) = map (\<lambda>r. (uint64Bytes (r_sequence r), Some r)) (queue s)" (is "_ = ?ys")
proof -
  note D = db_dataD [OF assms(2)]
  have ordered: "sorted_wrt (\<lambda>r1 r2. r_sequence r1 < r_sequence r2) (queue s)"
    using assms(1) by (simp add: index_inv_def order_ok_def queue_def)
  then have "sorted_wrt (<) (map fst ?ys)" by (simp add: sorted_wrt_map comp_def)
  then have ys: "sorted (map fst ?ys)" "distinct (map fst ?ys)" by (simp_all add: strict_sorted_iff)
  have wf: "distinct (map fst (db_records db))" using D(1) by (simp add: wf_map_def)
  have "set (cursor (db_records db)) = set ?ys"
  proof (intro equalityI subsetI)
    fix p assume "p \<in> set (cursor (db_records db))"
    then have p: "mget (db_records db) (fst p) = Some (snd p)" using wf by simp
    then obtain e r where r: "mget (st_records s) e = Some r" "fst p = uint64Bytes (r_sequence r)" using D(5) by blast
    then have "p = (uint64Bytes (r_sequence r), Some r)" using D(4) [OF r(1)] p by (metis option.inject prod.collapse)
    moreover have "r \<in> set (queue s)" using r(1) queue_member [OF assms(1), of r] assms(1)
      by (auto simp: index_inv_def order_ok_def records_ok_def)
    ultimately show "p \<in> set ?ys" by simp
  next
    fix p assume "p \<in> set ?ys"
    then obtain r where r: "r \<in> set (queue s)" "p = (uint64Bytes (r_sequence r), Some r)" by auto
    then have "mget (db_records db) (uint64Bytes (r_sequence r)) = Some (Some r)" using D(4) queue_member [OF assms(1)] by blast
    then show "p \<in> set (cursor (db_records db))" using r(2) map_of_SomeD by force
  qed
  moreover have "sorted (map fst (cursor (db_records db)))" by (simp add: cursor_def)
  moreover have "distinct (map fst (cursor (db_records db)))" using wf by (simp add: cursor_def distinct_map)
  moreover have "inj_on fst (set (cursor (db_records db)) \<union> set ?ys)" unfolding \<open>set (cursor (db_records db)) = set ?ys\<close> Un_absorb
    using ys(2) distinct_map [of fst ?ys] by blast
  ultimately show ?thesis using ys by (intro map_sorted_distinct_set_unique [of fst]) simp_all
qed

definition in_flight :: "Record \<Rightarrow> bool" where
  "in_flight r \<longleftrightarrow> r_state r = StateInEventsA"

lemma recover_fields [simp]: "r_event (recover now r) = r_event r" "r_sequence (recover now r) = r_sequence r"
  "r_size (recover now r) = r_size r" "r_accepted (recover now r) = r_accepted r" "effectiveOrderingKey (recover now r) = effectiveOrderingKey r"
  by (simp_all add: recover_def effectiveOrderingKey_def)

lemma recover_other: "\<not> in_flight r \<Longrightarrow> recover now r = r"
  by (simp add: recover_def in_flight_def)

lemma load_loop_ok:
  assumes "sorted_wrt (\<lambda>r1 r2. r_sequence r1 < r_sequence r2) rs" and "distinct (map r_event rs)"
    and "\<forall>r\<in>set rs. record_ok r \<and> ld_max l < r_sequence r \<and> r_event r \<notin> fst ` set (ld_loaded l) \<and>
           mget events (r_event r) = Some (uint64Bytes (r_sequence r))"
    and "ld_bytes l + total_size rs \<le> max_bytes lim"
  shows "load_loop lim events now (map (\<lambda>r. (uint64Bytes (r_sequence r), Some r)) rs) l =
    Inr \<lparr>ld_loaded = ld_loaded l @ map (\<lambda>r. (r_event r, recover now r)) rs, ld_order = ld_order l @ map r_event rs,
         ld_bytes = ld_bytes l + total_size rs, ld_max = (if rs = [] then ld_max l else r_sequence (last rs)),
         ld_recovered = ld_recovered l @ map (recover now) (filter in_flight rs)\<rparr>"
  using assms
proof (induction rs arbitrary: l)
  case (Cons r rs)
  let ?l = "\<lparr>ld_loaded = mput (r_event r) (recover now r) (ld_loaded l), ld_order = ld_order l @ [r_event r],
             ld_bytes = ld_bytes l + r_size r, ld_max = r_sequence r,
             ld_recovered = ld_recovered l @ (if r_state r = StateInEventsA then [recover now r] else [])\<rparr>"
  have r: "record_ok r" "ld_max l < r_sequence r" "r_event r \<notin> fst ` set (ld_loaded l)" "mget events (r_event r) = Some (uint64Bytes (r_sequence r))"
    using Cons.prems(3) by simp_all
  then have v: "validateStoredRecord r = None" and "mget (ld_loaded l) (r_event r) = None"
    by (simp_all add: record_ok_def map_of_eq_None_iff)
  have "0 \<le> total_size rs" using Cons.prems(3) by (intro total_size_nonneg) simp
  then have "\<not> max_bytes lim - ld_bytes l < r_size r" using Cons.prems(4) by (simp add: total_size_def)
  then have step: "load_record lim events now (uint64Bytes (r_sequence r)) (Some r) l = Inr ?l"
    using r v record_okD(5) [OF r(1)] \<open>mget (ld_loaded l) (r_event r) = None\<close> by (simp add: load_record_def Let_def)
  have put: "mput (r_event r) (recover now r) (ld_loaded l) = ld_loaded l @ [(r_event r, recover now r)]"
    by (rule mput_new [OF r(3)])
  have "\<forall>x\<in>set rs. r_event x \<noteq> r_event r" using event_neq [OF Cons.prems(2)] by simp
  then have "load_loop lim events now (map (\<lambda>r. (uint64Bytes (r_sequence r), Some r)) rs) ?l =
    Inr \<lparr>ld_loaded = ld_loaded ?l @ map (\<lambda>r. (r_event r, recover now r)) rs, ld_order = ld_order ?l @ map r_event rs,
         ld_bytes = ld_bytes ?l + total_size rs, ld_max = (if rs = [] then ld_max ?l else r_sequence (last rs)),
         ld_recovered = ld_recovered ?l @ map (recover now) (filter in_flight rs)\<rparr>"
    using Cons.prems by (intro Cons.IH) (auto simp: put total_size_def)
  then show ?case
    using step put in_flight_def [of r] by (cases "rs = []"; cases "in_flight r") (simp_all add: total_size_def)
qed (simp add: total_size_def)


section \<open>The database of a store\<close>

definition times_ok :: "Store \<Rightarrow> bool" where
  "times_ok s \<longleftrightarrow> (\<forall>r\<in>set (queue s). json_time_ok (r_accepted r))"

definition loaded_state :: "gotime \<Rightarrow> Record list \<Rightarrow> load_state" where
  "loaded_state now rs = \<lparr>ld_loaded = map (\<lambda>r. (r_event r, recover now r)) rs, ld_order = map r_event rs,
     ld_bytes = total_size rs, ld_max = (if rs = [] then 0 else r_sequence (last rs)),
     ld_recovered = map (recover now) (filter in_flight rs)\<rparr>"

lemma loaded_mget:
  assumes index: "index_inv s"
  shows "mget (ld_loaded (loaded_state now (queue s))) e = map_option (recover now) (mget (st_records s) e)"
proof (cases "mget (st_records s) e")
  case None
  then have "e \<notin> r_event ` set (queue s)" using queue_events(2) [OF index] by (auto simp: dom_def)
  then have "mget (ld_loaded (loaded_state now (queue s))) e = None" by (simp add: loaded_state_def map_of_eq_None_iff image_image)
  then show ?thesis using None by simp
next
  case (Some r)
  then have "r_event r = e" "r \<in> set (queue s)" using queue_member [OF index, of r] index by (auto simp: index_inv_def order_ok_def records_ok_def)
  then have "mget (ld_loaded (loaded_state now (queue s))) e = Some (recover now r)"
    unfolding loaded_state_def using queue_events(1) [OF index] by (auto intro!: map_of_is_SomeI simp: comp_def)
  then show ?thesis using Some by simp
qed

lemma record_ok_recover: "record_ok r \<Longrightarrow> record_ok (recover now r)"
  using record_ok_state(2) [of r StateAckUncertain "''publish outcome unknown after outbox recovery; retry may duplicate''"]
  by (auto simp: recover_def)

lemma marshal_recover:
  assumes "record_ok r" and "json_time_ok (r_accepted r)" and "json_time_ok now" and "in_flight r"
  shows "marshal (recover now r) = Some (recover now r)"
proof -
  have "text_ok (recover now r)" by (rule record_okD(6) [OF record_ok_recover [OF assms(1)]])
  then show ?thesis using assms(2-4) by (simp add: marshal_def recover_def in_flight_def)
qed

lemma those_map_Some: "(\<And>x. x \<in> set xs \<Longrightarrow> f x = Some (g x)) \<Longrightarrow> those (map f xs) = Some (map g xs)"
  by (induction xs) auto

lemma first_err_None: "(\<And>x. x \<in> set xs \<Longrightarrow> f x = None) \<Longrightarrow> first_err (map f xs) = None"
  by (induction xs) auto

lemma load_existing_ok:
  assumes inv: "store_inv s" and times: "times_ok s" "json_time_ok now"
    and lim: "int (length (queue s)) \<le> max_messages lim" "st_bytes s \<le> max_bytes lim"
  shows "load_existing lim now (st_db s) =
    Inr (persist_updated (map (\<lambda>r. (r, r)) (map (recover now) (filter in_flight (queue s)))) (st_db s), st_next s, loaded_state now (queue s))"
proof -
  let ?q = "queue s" and ?l = "loaded_state now (queue s)"
  have index: "index_inv s" and data: "db_data (st_records s) (st_db s)" and meta: "db_meta (st_next s) (st_bytes s) (st_db s)"
    and oks: "\<forall>r\<in>set ?q. record_ok r \<and> r_sequence r < st_next s" and total: "st_bytes s = total_size ?q"
    using inv unfolding store_inv_def by blast+
  have "st_bytes s \<le> max_int64" using inv unfolding store_inv_def by linarith
  note bytes = total this
  note D = db_dataD [OF data]
  have ev: "distinct (map r_event ?q)" by (rule queue_events(1) [OF index])
  have sorted: "sorted_wrt (\<lambda>r1 r2. r_sequence r1 < r_sequence r2) ?q" using index by (simp add: index_inv_def order_ok_def queue_def)
  have entry: "mget (db_events (st_db s)) (r_event r) = Some (uint64Bytes (r_sequence r))" if "r \<in> set ?q" for r
    using D(6) [of "r_event r"] queue_member [OF index, of r] that by simp
  have pos: "\<forall>r\<in>set ?q. 0 < r_sequence r" using oks record_okD(5) by (auto simp: word_neq_0_conv)
  have loop: "load_loop lim (db_events (st_db s)) now (cursor (db_records (st_db s)))
      \<lparr>ld_loaded = [], ld_order = [], ld_bytes = 0, ld_max = 0, ld_recovered = []\<rparr> = Inr ?l"
    unfolding cursor_records [OF index data] loaded_state_def
    using load_loop_ok [OF sorted ev, of "\<lparr>ld_loaded = [], ld_order = [], ld_bytes = 0, ld_max = 0, ld_recovered = []\<rparr>"
        "db_events (st_db s)" lim now] oks pos entry lim(2) bytes(1)
    by (cases "?q = []") (simp_all add: total_size_def)
  note mg = loaded_mget [OF index, of now]
  have "check_event (ld_loaded ?l) p = None" if "p \<in> set (cursor (db_events (st_db s)))" for p
  proof -
    have "mget (db_events (st_db s)) (fst p) = Some (snd p)" using that D(2) by (simp add: wf_map_def)
    then obtain r where "mget (st_records s) (fst p) = Some r" "snd p = uint64Bytes (r_sequence r)" using D(6) [of "fst p"] by auto
    then show ?thesis by (simp add: check_event_def mg case_prod_unfold)
  qed
  then have checks: "first_err (map (check_event (ld_loaded ?l)) (cursor (db_events (st_db s)))) = None" by (rule first_err_None)
  have "dom (mget (db_events (st_db s))) = dom (mget (st_records s))" using D(6) by (auto simp: dom_def)
  then have "fst ` set (db_events (st_db s)) = fst ` set (st_records s)" by (simp add: dom_map_of_conv_image_fst)
  moreover have "wf_map (st_records s)" using index by (simp add: index_inv_def order_ok_def records_ok_def)
  ultimately have "length (map fst (db_events (st_db s))) = length (map fst (st_records s))"
    using D(2) by (metis distinct_card list.set_map wf_map_def)
  then have count: "length (db_events (st_db s)) = length (ld_loaded ?l)" using queue_events(3) [OF index] by (simp add: loaded_state_def)
  have last: "ld_max ?l < st_next s" using oks inv by (simp add: loaded_state_def store_inv_def)
  then have "ld_max ?l \<noteq> max_u64" by (metis max_u64_def word_order.extremum_strict)
  moreover have "\<not> st_next s \<le> ld_max ?l" using last by simp
  moreover have "0 < st_next s" using inv by (simp add: store_inv_def)
  moreover have "those (map marshal (ld_recovered ?l)) = Some (ld_recovered ?l)"
    using those_map_Some [of "ld_recovered ?l" marshal id] oks times by (auto simp: loaded_state_def times_ok_def intro!: marshal_recover)
  moreover have "uint (of_int (st_bytes s) :: u64) = st_bytes s"
    using bytes oks by (intro of_int_bounds) (simp_all add: total_size_nonneg)
  moreover have "length (ld_loaded ?l) = length ?q" "ld_bytes ?l = total_size ?q" "ld_recovered ?l = map (recover now) (filter in_flight ?q)"
    by (simp_all add: loaded_state_def)
  ultimately show ?thesis
    using meta lim(1) bytes by (simp add: load_existing_def db_meta_def loop checks count zip_same_conv_map)
qed


lemma mget_put_all: "distinct (map r_event us) \<Longrightarrow> u \<in> set us \<Longrightarrow> mget (put_all us m) (r_event u) = Some u"
proof (induction us arbitrary: m)
  case (Cons x us)
  show ?case
  proof (cases "u = x")
    case True
    then have "r_event u \<notin> r_event ` set us" using Cons.prems(1) by simp
    from mget_put_all_other [OF this, of "mput (r_event x) x m"] True show ?thesis by (simp add: put_all_def)
  qed (use Cons in \<open>auto simp: put_all_def\<close>)
qed simp

lemma recovered_updates:
  fixes now :: gotime
  assumes inv: "store_inv s"
  defines "us \<equiv> map (recover now) (filter in_flight (queue s))"
  shows "updates us (st_records s)" and "mget (put_all us (st_records s)) e = map_option (recover now) (mget (st_records s) e)"
proof -
  have index: "index_inv s" using inv by (simp add: store_inv_def)
  note mem = queue_member [OF index]
  have "map r_event us = map r_event (filter in_flight (queue s))" by (simp add: us_def comp_def)
  then have dist: "distinct (map r_event us)" using queue_events(1) [OF index] by (simp add: distinct_map_filter)
  then show "updates us (st_records s)" using mem by (auto simp: updates_def us_def same_place_def)
  show "mget (put_all us (st_records s)) e = map_option (recover now) (mget (st_records s) e)"
  proof (cases "mget (st_records s) e")
    case None
    then have "e \<notin> r_event ` set us" using mem by (auto simp: us_def)
    from mget_put_all_other [OF this] None show ?thesis by simp
  next
    case (Some r)
    then have r: "r_event r = e" "r \<in> set (queue s)" using mem [of r] index by (auto simp: index_inv_def order_ok_def records_ok_def)
    show ?thesis
    proof (cases "in_flight r")
      case True
      then have "recover now r \<in> set us" using r by (simp add: us_def)
      from mget_put_all [OF dist this, of "st_records s"] r Some show ?thesis by simp
    next
      case False
      have "e \<notin> r_event ` set us"
      proof
        assume "e \<in> r_event ` set us"
        then obtain x where x: "x \<in> set (queue s)" "in_flight x" "r_event x = e" by (auto simp: us_def)
        then have "x = r" using mem [of x] Some by simp
        with x(2) False show False by simp
      qed
      from mget_put_all_other [OF this] Some False show ?thesis by (simp add: recover_other)
    qed
  qed
qed

lemma db_data_cong: "mget m = mget m' \<Longrightarrow> db_data m db = db_data m' db"
  by (simp add: db_data_def)

lemma opened_spec:
  assumes "distinct (map r_event rs)" and "sorted_wrt (\<lambda>r1 r2. r_sequence r1 < r_sequence r2) rs"
    and l: "ld_loaded l = map (\<lambda>r. (r_event r, r)) rs" "ld_order l = map r_event rs" "ld_bytes l = total_size rs"
    and ok: "\<forall>r\<in>set rs. record_ok r \<and> r_sequence r < nxt" "0 < nxt"
    and lim: "int (length rs) \<le> max_messages lim" "total_size rs \<le> max_bytes lim" "max_bytes lim \<le> max_int64"
    and db: "db_data (ld_loaded l) db" "db_meta nxt (total_size rs) db"
  shows "store_inv (opened lim db nxt l)" and "queue (opened lim db nxt l) = rs" and "st_limits (opened lim db nxt l) = lim"
    and "st_next (opened lim db nxt l) = nxt" and "st_open (opened lim db nxt l)" and "st_db (opened lim db nxt l) = db"
proof -
  let ?s = "\<lparr>st_limits = lim, st_open = True, st_db = db, st_records = ld_loaded l, st_order = ld_order l, st_lanes = [],
      st_ready = [], st_next = nxt, st_bytes = ld_bytes l, st_high_messages = int (length (ld_loaded l)),
      st_high_bytes = ld_bytes l, st_deleted = 0\<rparr>"
  have B: "index_inv (opened lim db nxt l)" "queue (opened lim db nxt l) = rs" "memory_frame ?s (opened lim db nxt l)"
    "st_records (opened lim db nxt l) = ld_loaded l"
    using rebuilt [OF assms(1,2), of ?s] l by (simp_all add: opened_def)
  then show "queue (opened lim db nxt l) = rs" "st_limits (opened lim db nxt l) = lim"
    "st_next (opened lim db nxt l) = nxt" "st_open (opened lim db nxt l)" "st_db (opened lim db nxt l) = db" by (simp_all add: memory_frame_def)
  then show "store_inv (opened lim db nxt l)" using B ok lim db l(3) by (simp add: store_inv_def memory_frame_def)
qed

lemma recovered_store:
  assumes inv: "store_inv s" and times: "times_ok s" "json_time_ok now"
    and lim: "int (length (queue s)) \<le> max_messages lim" "st_bytes s \<le> max_bytes lim" "max_bytes lim \<le> max_int64"
  obtains s' where "load lim False now True (Some (st_db s)) = Inr s'" and "store_inv s'" and "queue s' = map (recover now) (queue s)"
    and "st_limits s' = lim" and "st_next s' = st_next s" and "st_open s'" and "times_ok s'"
proof -
  let ?rs = "map (recover now) (queue s)" and ?us = "map (recover now) (filter in_flight (queue s))" and ?l = "loaded_state now (queue s)"
  let ?db = "persist_updated (map (\<lambda>r. (r, r)) ?us) (st_db s)"
  define s' where "s' = opened lim ?db (st_next s) ?l"
  have index: "index_inv s" and data: "db_data (st_records s) (st_db s)" and meta: "db_meta (st_next s) (st_bytes s) (st_db s)"
    and oks: "\<forall>r\<in>set (queue s). record_ok r \<and> r_sequence r < st_next s" "0 < st_next s" and total: "st_bytes s = total_size (queue s)"
    using inv unfolding store_inv_def by blast+
  have size: "total_size ?rs = total_size (queue s)" by (simp add: total_size_def comp_def)
  have "mget (ld_loaded ?l) = mget (put_all ?us (st_records s))"
    using recovered_updates(2) [OF inv] loaded_mget [OF index] by (intro ext) simp
  then have "db_data (ld_loaded ?l) ?db" using update_db [OF data recovered_updates(1) [OF inv]] db_data_cong by metis
  moreover have "db_meta (st_next s) (total_size ?rs) ?db" using meta size total by (simp add: db_meta_def metadata_persist)
  moreover have "sorted_wrt (\<lambda>r1 r2. r_sequence r1 < r_sequence r2) ?rs"
    using index by (simp add: index_inv_def order_ok_def queue_def sorted_wrt_map)
  moreover have "distinct (map r_event ?rs)" using queue_events(1) [OF index] by (simp add: comp_def)
  moreover have "ld_loaded ?l = map (\<lambda>r. (r_event r, r)) ?rs" "ld_order ?l = map r_event ?rs" "ld_bytes ?l = total_size ?rs"
    by (simp_all add: loaded_state_def comp_def size)
  ultimately have "store_inv s'" "queue s' = ?rs" "st_limits s' = lim" "st_next s' = st_next s" "st_open s'"
    unfolding s'_def using oks lim total size by (intro opened_spec [where rs = ?rs]; auto simp: record_ok_recover)+
  moreover have "load lim False now True (Some (st_db s)) = Inr s'"
    using load_existing_ok [OF inv times lim(1,2)] by (simp add: load_def s'_def)
  moreover have "times_ok s'" using times(1) \<open>queue s' = ?rs\<close> by (simp add: times_ok_def)
  ultimately show thesis using that by blast
qed

lemma new_store:
  assumes "0 \<le> max_messages lim" and "0 \<le> max_bytes lim" and "max_bytes lim \<le> max_int64"
  obtains s' where "load lim True now True file = Inr s'" and "store_inv s'" and "queue s' = []" and "st_limits s' = lim"
    and "st_open s'" and "st_next s' = 1"
proof -
  let ?l = "\<lparr>ld_loaded = [], ld_order = [], ld_bytes = 0, ld_max = 0, ld_recovered = []\<rparr>"
  have "db_data [] new_database" by (simp add: db_data_def new_database_def put_metadata_def)
  moreover have "db_meta 1 0 new_database" by (simp add: db_meta_def new_database_def put_metadata_def)
  ultimately have "store_inv (opened lim new_database 1 ?l)" "queue (opened lim new_database 1 ?l) = []" "st_limits (opened lim new_database 1 ?l) = lim"
    "st_open (opened lim new_database 1 ?l)" "st_next (opened lim new_database 1 ?l) = 1"
    using assms by (intro opened_spec [where rs = "[]"]; simp add: total_size_def)+
  then show thesis using that by (simp add: load_def)
qed

end
