(* ===== verification/Outbox_Eligible.thy ===== *)
theory Outbox_Eligible
  imports Outbox_Recovery
begin

text \<open>
  The walk of \<open>EligibleFor\<close> (\<^verbatim>\<open>outbox/outbox.go\<close>) returns what a scan of the queue returns: the first record of each
  ordering key, when it is ready, in acceptance order, taken while the epochs, the free slots and the limit allow.
\<close>

section \<open>Descendants in the implicit heap\<close>

function desc :: "nat \<Rightarrow> nat \<Rightarrow> bool" where
  "desc i j = (if i < j then desc i (parent j) else j = i)"
  by pat_completeness auto

termination
  by (relation "measure snd") auto

declare desc.simps [simp del]

lemma desc_iff: "desc i j \<longleftrightarrow> j = i \<or> i < j \<and> desc i (parent j)"
  by (subst desc.simps) auto

lemma desc_refl [simp]: "desc i i"
  by (subst desc_iff) simp

lemma desc_ge: "desc i j \<Longrightarrow> i \<le> j"
  by (subst (asm) desc_iff) auto

lemma desc_root: "desc 0 j"
proof (induction j rule: less_induct)
  case (less j)
  then show ?case by (cases "j = 0") (simp_all add: desc_iff [of 0 j])
qed

lemma desc_step: "desc i j \<Longrightarrow> i \<noteq> j \<Longrightarrow> i < j \<and> desc i (parent j)"
  by (subst (asm) desc_iff) auto

lemma desc_up: "i < j \<Longrightarrow> desc i (parent j) \<Longrightarrow> desc i j"
  by (subst desc_iff) simp

lemma desc_children: "desc i j \<longleftrightarrow> j = i \<or> desc (2 * i + 1) j \<or> desc (2 * i + 2) j"
proof (induction j rule: less_induct)
  case (less j)
  have "desc i j \<longleftrightarrow> j = i \<or> i < j \<and> (parent j = i \<or> desc (2 * i + 1) (parent j) \<or> desc (2 * i + 2) (parent j))"
    using less [of "parent j"] by (subst desc_iff) auto
  moreover have "i < j \<and> parent j = i \<longleftrightarrow> j = 2 * i + 1 \<or> j = 2 * i + 2"
    using parent_iff [of j i] by auto
  moreover have "desc k j \<longleftrightarrow> j = k \<or> i < j \<and> desc k (parent j)" if "i < k" for k
    using that desc_ge [of k "parent j"] parent_le [of j] by (cases "j = k") (auto simp: desc_iff [of k j])
  ultimately show ?case by auto
qed

lemma desc_siblings: "\<not> (desc (2 * i + 1) j \<and> desc (2 * i + 2) j)"
proof (induction j rule: less_induct)
  case (less j)
  have p: "parent (2 * i + 2) = i" by (simp add: parent_def)
  show ?case
  proof
    assume d: "desc (2 * i + 1) j \<and> desc (2 * i + 2) j"
    then have "j \<noteq> 2 * i + 1" using desc_ge [of "2 * i + 2" j] by auto
    moreover have "j \<noteq> 2 * i + 2"
      using d p desc_step [of "2 * i + 1" j] desc_ge [of "2 * i + 1" i] by auto
    ultimately show False
      using d desc_step [of "2 * i + 1" j] desc_step [of "2 * i + 2" j] less [of "parent j"] parent_less [of j] by auto
  qed
qed

definition below_index :: "nat \<Rightarrow> nat \<Rightarrow> nat set" where
  "below_index n i = {j. j < n \<and> desc i j}"

lemma below_index_finite [simp]: "finite (below_index n i)"
  by (simp add: below_index_def)

lemma below_index_root: "below_index n 0 = {..<n}"
  by (auto simp: below_index_def desc_root)

lemma below_index_beyond: "n \<le> i \<Longrightarrow> below_index n i = {}"
  by (auto simp: below_index_def dest: desc_ge)

lemma below_index_split:
  assumes "i < n"
  shows "mset_set (below_index n i) = add_mset i (mset_set (below_index n (2 * i + 1)) + mset_set (below_index n (2 * i + 2)))"
proof -
  have "below_index n i = insert i (below_index n (2 * i + 1) \<union> below_index n (2 * i + 2))"
    using assms unfolding below_index_def by (auto simp: desc_children [of i])
  moreover have "below_index n (2 * i + 1) \<inter> below_index n (2 * i + 2) = {}"
    using desc_siblings [of i] by (auto simp: below_index_def)
  moreover have "i \<notin> below_index n (2 * i + 1) \<union> below_index n (2 * i + 2)" by (auto simp: below_index_def dest: desc_ge)
  ultimately show ?thesis by (simp add: mset_set_Union)
qed

lemma heap_desc_le: "is_heap n ks \<Longrightarrow> desc i j \<Longrightarrow> j < n \<Longrightarrow> ks ! i \<le> ks ! j"
proof (induction j rule: less_induct)
  case (less j)
  show ?case
  proof (cases "i = j")
    case False
    with less.prems(2) have d: "i < j" "desc i (parent j)" using desc_step by blast+
    have pj: "parent j < j" using d(1) by simp
    then have "ks ! i \<le> ks ! parent j" using less.IH [of "parent j"] less.prems d(2) by simp
    also have "\<dots> \<le> ks ! j" using less.prems(1,3) d(1) by (simp add: is_heap_def)
    finally show ?thesis .
  qed simp
qed

section \<open>The walk\<close>

definition ready_rank :: "Store \<Rightarrow> nat \<Rightarrow> u64 \<times> string" where
  "ready_rank s i = lane_rank (lane s (st_ready s ! i))"

definition remaining :: "Store \<Rightarrow> readyLaneCandidate list \<Rightarrow> (u64 \<times> string) multiset" where
  "remaining s cs = (\<Sum>c\<in>#mset cs. image_mset (ready_rank s) (mset_set (below_index (length (st_ready s)) (cd_index c))))"

definition candidates_ok :: "Store \<Rightarrow> readyLaneCandidate list \<Rightarrow> bool" where
  "candidates_ok s cs \<longleftrightarrow> ch.heap_ok cs \<and>
     (\<forall>c\<in>set cs. cd_index c < length (st_ready s) \<and> cd_lane c = lane s (st_ready s ! cd_index c))"

lemma push_child_ok:
  assumes "candidates_ok s cs"
  shows "candidates_ok s (push_child s i cs)"
    and "remaining s (push_child s i cs) =
      remaining s cs + image_mset (ready_rank s) (mset_set (below_index (length (st_ready s)) i))"
proof -
  let ?c = "\<lparr>cd_index = i, cd_lane = lane s (st_ready s ! i)\<rparr>"
  have h: "ch.heap_ok cs" using assms by (simp add: candidates_ok_def)
  have "candidate_Push ?c cs = cs @ [?c]" by (simp add: candidate_Push_def)
  note P = ch.push_ok [OF h, of "candidate_Push ?c" ?c, OF this]
  have "set (heap_Push readyLaneCandidateHeap (candidate_Push ?c) cs) = insert ?c (set cs)"
    using arg_cong [OF P(2), of set_mset] by simp
  with P show "candidates_ok s (push_child s i cs)" using assms by (auto simp: candidates_ok_def push_child_def)
  show "remaining s (push_child s i cs) =
      remaining s cs + image_mset (ready_rank s) (mset_set (below_index (length (st_ready s)) i))"
    using P(2) by (simp add: remaining_def push_child_def below_index_beyond)
qed

lemma pop_candidate:
  assumes "candidates_ok s cs" and "cs \<noteq> []" and "rh.heap_ok s" and pop: "heap_Pop readyLaneCandidateHeap candidate_Pop cs = (c, cs1)"
  defines "cs2 \<equiv> push_child s (2 * cd_index c + 1 + 1) (push_child s (2 * cd_index c + 1) cs1)"
  shows "candidates_ok s cs2" and "remaining s cs = add_mset (lane_rank (cd_lane c)) (remaining s cs2)"
    and "\<forall>p\<in>#remaining s cs2. lane_rank (cd_lane c) \<le> p" and "c \<in> set cs"
proof -
  let ?n = "length (st_ready s)" and ?h = "heap_root_last readyLaneCandidateHeap cs"
  have h: "ch.heap_ok cs" using assms(1) by (simp add: candidates_ok_def)
  note R = ch.root_last_ok [OF h assms(2)]
  have "?h \<noteq> []" using R(1) assms(2) by (metis mset_zero_iff)
  then have h': "?h = cs1 @ [c]" using pop by (auto simp: heap_Pop_def candidate_Pop_def)
  then have m: "mset cs = add_mset c (mset cs1)" using R(1) by simp
  then have sets: "set cs = insert c (set cs1)" by (metis set_mset_add_mset_insert set_mset_mset)
  then show "c \<in> set cs" by simp
  have c: "c = cs ! 0" using R(2) h' by simp
  have "length cs - 1 = length cs1" using arg_cong [OF m, of size] by simp
  then have "ch.heap_ok cs1" using R(3) h' by (auto simp: ch.heap_ok_def ch.keys_def is_heap_def nth_append parent_lt)
  then have ok1: "candidates_ok s cs1" using assms(1) sets by (simp add: candidates_ok_def)
  have ci: "cd_index c < ?n" "cd_lane c = lane s (st_ready s ! cd_index c)" using assms(1) sets by (auto simp: candidates_ok_def)
  note A = push_child_ok [OF ok1, of "2 * cd_index c + 1"]
  note B = push_child_ok [OF A(1), of "2 * cd_index c + 2"]
  show "candidates_ok s cs2" using B(1) by (simp add: cs2_def)
  have rank: "ready_rank s (cd_index c) = lane_rank (cd_lane c)" by (simp add: ready_rank_def ci)
  show split: "remaining s cs = add_mset (lane_rank (cd_lane c)) (remaining s cs2)"
    using A(2) B(2) below_index_split [OF ci(1)] rank m
    by (simp add: cs2_def remaining_def add.commute add.left_commute)
  have "lane_rank (cd_lane c) \<le> p" if p: "p \<in># remaining s cs" for p
  proof -
    obtain d j where d: "d \<in> set cs" "j \<in> below_index ?n (cd_index d)" "p = ready_rank s j" using p by (auto simp: remaining_def)
    then have dj: "desc (cd_index d) j" "j < ?n" "cd_lane d = lane s (st_ready s ! cd_index d)" "cd_index d < ?n"
      using assms(1) by (auto simp: below_index_def candidates_ok_def)
    have "is_heap ?n (map (\<lambda>k. lane_rank (lane s k)) (st_ready s))" using assms(3) by (simp add: rh.heap_ok_def rh.keys_def)
    from heap_desc_le [OF this dj(1,2)] have le: "lane_rank (cd_lane d) \<le> p" using dj d(3) by (simp add: ready_rank_def)
    obtain k where k: "k < length cs" "d = cs ! k" using d(1) by (auto simp: in_set_conv_nth)
    have "is_heap (length cs) (map (\<lambda>c. lane_rank (cd_lane c)) cs)" using h by (simp add: ch.heap_ok_def ch.keys_def)
    from is_heap_root [OF this k(1)] have "lane_rank (cd_lane c) \<le> lane_rank (cd_lane d)" using k c assms(2) by simp
    with le show ?thesis by simp
  qed
  then show "\<forall>p\<in>#remaining s cs2. lane_rank (cd_lane c) \<le> p" using split by simp
qed


section \<open>The selection\<close>

fun select ::
  "(string, u64) gomap option \<Rightarrow> (string, int) gomap option \<Rightarrow> nat \<Rightarrow> (string, int) gomap \<Rightarrow> Record list \<Rightarrow> Record list" where
  "select epochs slots n used [] = []"
| "select epochs slots n used (r # rs) =
     (if n = 0 then []
      else if matches epochs slots used r then r # select epochs slots (n - 1) (use_slot r used) rs
      else select epochs slots n used rs)"

lemma select_0 [simp]: "select epochs slots 0 used rs = []"
  by (cases rs) simp_all

lemma select_long: "length rs \<le> m \<Longrightarrow> select epochs slots m used rs = select epochs slots n used rs" if "length rs \<le> n" for n
  using that
proof (induction rs arbitrary: m n used)
  case (Cons r rs)
  then have "m \<noteq> 0" "n \<noteq> 0" by auto
  then show ?case
    using Cons.IH [of "n - 1" "m - 1" "use_slot r used"] Cons.IH [of n m used] Cons.prems by auto
qed simp

definition rank_record :: "Store \<Rightarrow> u64 \<times> string \<Rightarrow> Record" where
  "rank_record s p = lane_record s (lane s (snd p))"

lemma eligible_loop_select:
  assumes "candidates_ok s cs" and "rh.heap_ok s" and "ready_inv s"
  shows "eligible_loop s epochs slots limit used cs eligible =
    eligible @ select epochs slots (nat (limit - int (length eligible))) used (map (rank_record s) (sorted_list_of_multiset (remaining s cs)))"
  using assms(1)
proof (induction "weight (length (st_ready s)) cs" arbitrary: used cs eligible rule: less_induct)
  case less
  show ?case
  proof (cases "int (length eligible) < limit \<and> cs \<noteq> []")
    case True
    obtain c cs1 where pop: "heap_Pop readyLaneCandidateHeap candidate_Pop cs = (c, cs1)" by (cases "heap_Pop readyLaneCandidateHeap candidate_Pop cs")
    define cs2 where "cs2 = push_child s (2 * cd_index c + 1 + 1) (push_child s (2 * cd_index c + 1) cs1)"
    note P = pop_candidate [OF less.prems _ assms(2) pop, folded cs2_def]
    have "weight (length (st_ready s)) cs = subtree (length (st_ready s)) (cd_index c) + weight (length (st_ready s)) cs1"
      using True pop by (intro weight_pop) (simp_all add: heap_Pop_def)
    then have w: "weight (length (st_ready s)) cs2 < weight (length (st_ready s)) cs"
      by (simp add: cs2_def weight_push_child subtree.simps [of "length (st_ready s)" "cd_index c"])
    have "cd_lane c = lane s (ln_key (cd_lane c))"
    proof -
      have "c \<in> set cs" using P(4) True by blast
      then have "cd_index c < length (st_ready s)" "cd_lane c = lane s (st_ready s ! cd_index c)" using less.prems by (auto simp: candidates_ok_def)
      moreover from this have "st_ready s ! cd_index c \<in> dom (mget (st_lanes s))" 
        using assms(3) nth_mem unfolding ready_inv_def by blast
      ultimately show ?thesis using assms(3) by (auto simp: ready_inv_def lane_def mget_or_def)
    qed
    then have rec: "rank_record s (lane_rank (cd_lane c)) = lane_record s (cd_lane c)" by (simp add: rank_record_def lane_rank_def)
    have list: "sorted_list_of_multiset (remaining s cs) = lane_rank (cd_lane c) # sorted_list_of_multiset (remaining s cs2)"
      using P(2,3) True by (simp add: insort_is_Cons)
    let ?ok = "matches epochs slots used (lane_record s (cd_lane c))"
    have "eligible_loop s epochs slots limit used cs eligible =
        eligible_loop s epochs slots limit (if ?ok then use_slot (lane_record s (cd_lane c)) used else used) cs2
          (if ?ok then eligible @ [lane_record s (cd_lane c)] else eligible)"
      using True pop by (subst eligible_loop.simps) (simp add: Let_def cs2_def)
    also have "\<dots> = (if ?ok then eligible @ [lane_record s (cd_lane c)] else eligible) @
        select epochs slots (nat (limit - int (length (if ?ok then eligible @ [lane_record s (cd_lane c)] else eligible))))
          (if ?ok then use_slot (lane_record s (cd_lane c)) used else used) (map (rank_record s) (sorted_list_of_multiset (remaining s cs2)))"
      using less.hyps [OF w P(1)] True by blast
    also have "\<dots> = eligible @ select epochs slots (nat (limit - int (length eligible))) used (map (rank_record s) (sorted_list_of_multiset (remaining s cs)))"
    proof -
      have "nat (limit - int (length eligible)) \<noteq> 0"
        "nat (limit - int (length (eligible @ [lane_record s (cd_lane c)]))) = nat (limit - int (length eligible)) - 1"
        using True by auto
      then show ?thesis unfolding list list.map rec select.simps by (cases ?ok) (simp_all del: length_append)
    qed
    finally show ?thesis .
  next
    case False
    then show ?thesis by (subst eligible_loop.simps) (auto simp: remaining_def)
  qed
qed


section \<open>The first record of each key\<close>

fun lane_heads :: "string list \<Rightarrow> Record list \<Rightarrow> Record list" where
  "lane_heads seen [] = []"
| "lane_heads seen (r # rs) =
     (if effectiveOrderingKey r \<in> set seen then lane_heads seen rs
      else r # lane_heads (effectiveOrderingKey r # seen) rs)"

definition ready_heads :: "Record list \<Rightarrow> Record list" where
  "ready_heads rs = filter (\<lambda>r. r_state r = StateReady) (lane_heads [] rs)"

lemma lane_heads_member:
  "r \<in> set (lane_heads seen rs) \<longleftrightarrow> effectiveOrderingKey r \<notin> set seen \<and>
     filter (\<lambda>x. effectiveOrderingKey x = effectiveOrderingKey r) rs \<noteq> [] \<and>
     r = hd (filter (\<lambda>x. effectiveOrderingKey x = effectiveOrderingKey r) rs)"
  by (induction rs arbitrary: seen) auto

lemma lane_heads_subset: "set (lane_heads seen rs) \<subseteq> set rs"
  by (induction rs arbitrary: seen) (auto split: if_splits)

lemma lane_heads_sorted: "sorted_wrt P rs \<Longrightarrow> sorted_wrt P (lane_heads seen rs)"
  using lane_heads_subset by (induction rs arbitrary: seen) fastforce+

lemma head_of_ready:
  assumes "index_inv s" and "k \<in> set (st_ready s)"
  shows "lane_record s (lane s k) = hd (lane_queue s k)" and "lane_queue s k \<noteq> []"
    and "r_state (hd (lane_queue s k)) = StateReady" and "lane_rank (lane s k) = (r_sequence (hd (lane_queue s k)), k)"
proof -
  obtain l where l: "mget (st_lanes s) k = Some l" using assms by (auto simp: index_inv_def ready_inv_def)
  then have "lane s k = l" "ln_key l = k" "lane_shape s k l" "lane_fresh s k l"
    using assms(1) by (auto simp: lane_def mget_or_def index_inv_def lanes_ok_def ready_inv_def)
  moreover from this obtain r where r: "head_record s l = Some r" "r_state r = StateReady"
    using assms(2) by (auto simp: lane_fresh_def)
  moreover note head_in_queue [OF \<open>lane_shape s k l\<close> r(1)]
  ultimately show "lane_record s (lane s k) = hd (lane_queue s k)" "lane_queue s k \<noteq> []"
    "r_state (hd (lane_queue s k)) = StateReady" "lane_rank (lane s k) = (r_sequence (hd (lane_queue s k)), k)"
    by (auto simp: lane_record_def head_record_def mget_or_def lane_fresh_def lane_rank_def split: if_splits)
qed

lemma ready_of_head:
  assumes "index_inv s" and "lane_queue s k \<noteq> []" and "r_state (hd (lane_queue s k)) = StateReady"
  shows "k \<in> set (st_ready s)"
proof -
  obtain l where l: "mget (st_lanes s) k = Some l" using assms(1,2) by (cases "mget (st_lanes s) k") (auto simp: index_inv_def lanes_ok_def)
  then have f: "lane_shape s k l" "lane_fresh s k l" using assms(1) by (auto simp: index_inv_def lanes_ok_def)
  then obtain r where "head_record s l = Some r" by (auto simp: lane_shape_def)
  with head_in_queue(1) [OF f(1)] f(2) assms(3) show ?thesis by (auto simp: lane_fresh_def)
qed

lemma ready_heads_sorted:
  assumes inv: "index_inv s"
  shows "map (rank_record s) (sorted_list_of_multiset (mset (map (\<lambda>k. lane_rank (lane s k)) (st_ready s)))) = ready_heads (queue s)"
    (is "map _ (sorted_list_of_multiset ?M) = _")
proof -
  let ?L = "sorted_list_of_multiset ?M" and ?head = "\<lambda>k. hd (lane_queue s k)"
  note H = head_of_ready [OF inv]
  have L: "set ?L = (\<lambda>k. (r_sequence (?head k), k)) ` set (st_ready s)" using H(4) by (auto simp: image_iff)
  have rec: "rank_record s p = ?head (snd p)" "r_sequence (?head (snd p)) = fst p" "snd p \<in> set (st_ready s)" if "p \<in> set ?L" for p
    using that L H(1) by (auto simp: rank_record_def)
  have hq: "?head k \<in> set (queue s)" "effectiveOrderingKey (?head k) = k" if "k \<in> set (st_ready s)" for k
  proof -
    have "?head k \<in> set (lane_queue s k)" using H(2) [OF that] by simp
    then show "?head k \<in> set (queue s)" "effectiveOrderingKey (?head k) = k" by (auto simp: lane_queue_def queue_def)
  qed
  have ordered: "sorted_wrt (\<lambda>r1 r2. r_sequence r1 < r_sequence r2) (queue s)" using inv by (simp add: index_inv_def order_ok_def queue_def)
  then have strict: "sorted_wrt (<) (map r_sequence (queue s))" by (simp add: sorted_wrt_map)
  then have inj: "inj_on r_sequence (set (queue s))" by (simp add: strict_sorted_iff distinct_map)
  have "map r_sequence (map (rank_record s) ?L) = map fst ?L" using rec by simp
  moreover have "sorted (map fst ?L)"
    unfolding sorted_map by (rule sorted_wrt_mono_rel [OF _ sorted_sorted_list_of_multiset [of ?M]]) (auto simp: less_eq_prod_def)
  moreover have "distinct (map fst ?L)"
  proof -
    have "mset ?L = ?M" by simp
    moreover have "distinct (map (\<lambda>k. lane_rank (lane s k)) (st_ready s))"
      using inv H(4) by (auto simp: distinct_map index_inv_def ready_inv_def inj_on_def)
    ultimately have "distinct ?L" by (metis mset_eq_imp_distinct_iff)
    moreover have "inj_on fst (set ?L)"
      using rec hq inj by (intro inj_onI) (metis inj_onD prod.collapse)
    ultimately show ?thesis by (simp add: distinct_map)
  qed
  moreover have "sorted_wrt (<) (map r_sequence (ready_heads (queue s)))"
    using lane_heads_sorted [OF ordered] by (simp add: ready_heads_def sorted_wrt_map sorted_wrt_filter)
  moreover have "set (map (rank_record s) ?L) = set (ready_heads (queue s))"
  proof -
    have "set (map (rank_record s) ?L) = ?head ` set (st_ready s)"
      using H(1) unfolding set_map L image_image by (intro image_cong) (simp_all add: rank_record_def)
    moreover have "r \<in> ?head ` set (st_ready s) \<longleftrightarrow> r \<in> set (ready_heads (queue s))" for r
    proof -
      have lq: "lane_queue s k = filter (\<lambda>x. effectiveOrderingKey x = k) (queue s)" for k by (simp add: lane_queue_def queue_def)
      show ?thesis
        using H(2,3) hq(2) ready_of_head [OF inv, of "effectiveOrderingKey r"] by (auto simp: ready_heads_def lane_heads_member lq image_iff)
    qed
    ultimately show ?thesis by blast
  qed
  moreover have "set (ready_heads (queue s)) \<subseteq> set (queue s)" using lane_heads_subset by (auto simp: ready_heads_def)
  moreover from calculation have "inj_on r_sequence (set (map (rank_record s) ?L) \<union> set (ready_heads (queue s)))"
    using inj by (metis Un_absorb inj_on_subset)
  ultimately show ?thesis by (intro map_sorted_distinct_set_unique [of r_sequence]) (simp_all only: strict_sorted_iff)
qed

section \<open>Eligible records\<close>

lemma EligibleFor_select:
  assumes "index_inv s" and "st_open s"
  shows "EligibleFor limit epochs slots s = select epochs slots (nat limit) [] (ready_heads (queue s))"
proof (cases "limit \<le> 0 \<or> st_ready s = []")
  case True
  have "ready_heads (queue s) = []" if "st_ready s = []"
    using ready_heads_sorted [OF assms(1)] that by simp
  then show ?thesis using True by (auto simp: EligibleFor_def)
next
  case False
  let ?c = "[\<lparr>cd_index = 0, cd_lane = lane s (st_ready s ! 0)\<rparr>]" and ?n = "length (st_ready s)"
  have "candidates_ok s ?c" using False by (simp add: candidates_ok_def ch.heap_ok_def is_heap_def)
  moreover have "remaining s ?c = mset (map (\<lambda>k. lane_rank (lane s k)) (st_ready s))"
  proof -
    have "remaining s ?c = image_mset (ready_rank s) (mset [0..<?n])"
      by (simp add: remaining_def below_index_root mset_set_upto_eq_mset_upto)
    also have "\<dots> = mset (map (ready_rank s) [0..<?n])" by simp
    also have "map (ready_rank s) [0..<?n] = map (\<lambda>k. lane_rank (lane s k)) (st_ready s)"
      by (rule nth_equalityI) (simp_all add: ready_rank_def)
    finally show ?thesis .
  qed
  ultimately have e: "EligibleFor limit epochs slots s = select epochs slots (nat (min limit (int ?n))) [] (ready_heads (queue s))"
    using eligible_loop_select [of s ?c] assms ready_heads_sorted [OF assms(1)] False by (simp add: EligibleFor_def index_inv_def)
  have "length (ready_heads (queue s)) = ?n"
    using arg_cong [OF ready_heads_sorted [OF assms(1)], of length] by (metis length_map mset_sorted_list_of_multiset size_mset)
  then show ?thesis
    using e select_long [of "ready_heads (queue s)" ?n "nat limit"] by (cases "limit \<le> int ?n") (simp_all add: min_def)
qed

end
