(* ===== verification/Outbox_Runs.thy ===== *)
theory Outbox_Runs
  imports Outbox_Eligible
begin

text \<open>
  Runs of the outbox: every operation that changes it and a restart, in any order, with any outcome of its
  transaction, under two rules that the code itself does not check: a producer gives each record an event id that neither the
  log of event ids nor an ordering lane remembers, and texts are valid UTF-8.
  The invariant holds in every reachable store, and every step is a step of a queue of records, which is the
  abstract specification: records are appended, change along the delivery states or leave once they were published.
\<close>

section \<open>Steps of the store\<close>

inductive outbox_step :: "Store \<Rightarrow> Store \<Rightarrow> bool" where
  accept_step: "\<lbrakk>\<forall>r\<in>set input. fresh_event s (r_event r) \<and> text_content r; acceptMany now commit input s = (res, s')\<rbrakk> \<Longrightarrow> outbox_step s s'"
| assign_step: "\<lbrakk>\<forall>u\<in>set us. text_assignment (au_assignment u); assignMany now commit us s = (err, s')\<rbrakk> \<Longrightarrow> outbox_step s s'"
| send_step: "markInEventsAMany now commit es s = (err, s') \<Longrightarrow> outbox_step s s'"
| rejected_step: "\<lbrakk>\<forall>u\<in>set rs. utf8_valid (su_reason u); markRejectedMany now commit rs s = (err, s')\<rbrakk> \<Longrightarrow> outbox_step s s'"
| uncertain_step: "\<lbrakk>\<forall>u\<in>set rs. utf8_valid (su_reason u); markAckUncertainMany now commit rs s = (err, s')\<rbrakk> \<Longrightarrow> outbox_step s s'"
| retry_step: "retryAckUncertainMany now commit es s = (err, s') \<Longrightarrow> outbox_step s s'"
| complete_step: "\<lbrakk>\<forall>c\<in>set cs. text_completion c; CompleteBatch now commit cs s = (out, s')\<rbrakk> \<Longrightarrow> outbox_step s s'"
| ack_step: "ackMany commit es s = (err, s') \<Longrightarrow> outbox_step s s'"
| close_step: "outbox_step s (Close s)"
| restart_step: "\<lbrakk>json_time_ok now; load (st_limits s) False now True (Some (st_db s)) = Inr s'\<rbrakk> \<Longrightarrow> outbox_step s s'"

definition int64_limits :: "Limits \<Rightarrow> bool" where
  "int64_limits lim \<longleftrightarrow> 0 \<le> max_messages lim \<and> 0 \<le> max_bytes lim \<and> max_bytes lim \<le> max_int64"

inductive outbox_reachable :: "Limits \<Rightarrow> Store \<Rightarrow> bool" for lim where
  created: "\<lbrakk>int64_limits lim; load lim True now True old = Inr s\<rbrakk> \<Longrightarrow> outbox_reachable lim s"
| stepped: "\<lbrakk>outbox_reachable lim s; outbox_step s s'\<rbrakk> \<Longrightarrow> outbox_reachable lim s'"

section \<open>The specification\<close>

definition published :: "Record \<Rightarrow> bool" where
  "published r \<longleftrightarrow> r_state r = StateInEventsA \<or> r_state r = StateAckUncertain"

text \<open>One record's life: its content, sequence and size are fixed; the state follows the delivery protocol.\<close>

definition delivery_step :: "State \<Rightarrow> State \<Rightarrow> bool" where
  "delivery_step a b \<longleftrightarrow> (a, b) \<in> {(StateUnassigned, StateReady), (StateReady, StateReady), (StateReady, StateInEventsA),
     (StateInEventsA, StateReady), (StateInEventsA, StateAckUncertain), (StateAckUncertain, StateReady)}"

definition record_step :: "Record \<Rightarrow> Record \<Rightarrow> bool" where
  "record_step r r' \<longleftrightarrow> r' = r \<or> same_content r r' \<and> delivery_step (r_state r) (r_state r')"

inductive queue_step :: "Record list \<Rightarrow> Record list \<Rightarrow> bool" where
  enqueue: "\<lbrakk>sorted_wrt (\<lambda>r1 r2. r_sequence r1 < r_sequence r2) (q @ new); distinct (map r_event (q @ new));
     \<forall>r\<in>set new. r_attempts r = 0 \<and> (r_state r = StateUnassigned \<or> r_state r = StateReady)\<rbrakk> \<Longrightarrow> queue_step q (q @ new)"
| progress: "\<lbrakk>\<forall>r\<in>set q. case f r of None \<Rightarrow> published r | Some r' \<Rightarrow> record_step r r'\<rbrakk> \<Longrightarrow> queue_step q (List.map_filter f q)"

inductive_cases queue_stepE: "queue_step q q'"

lemma queue_step_refl: "queue_step q q"
proof -
  have "List.map_filter Some q = q" by (induction q) (auto simp: map_filter_simps)
  then show ?thesis using progress [of q Some] by (simp add: record_step_def)
qed

lemma map_filter_Some: "List.map_filter (\<lambda>x. Some (g x)) xs = map g xs"
  by (induction xs) (auto simp: map_filter_simps)

lemma queue_step_map: "(\<And>r. r \<in> set q \<Longrightarrow> record_step r (g r)) \<Longrightarrow> queue_step q (map g q)"
  using progress [of q "\<lambda>r. Some (g r)"] by (simp add: map_filter_Some)

lemma queue_step_filter:
  assumes "\<And>r. r \<in> set q \<Longrightarrow> \<not> P r \<Longrightarrow> published r"
  shows "queue_step q (filter P q)"
proof -
  have "filter P q = List.map_filter (\<lambda>r. if P r then Some r else None) q" by (induction q) (auto simp: map_filter_simps)
  then show ?thesis using progress [of q "\<lambda>r. if P r then Some r else None"] assms by (auto simp: record_step_def)
qed

section \<open>The updates of the source\<close>

definition mutation_step :: "(string \<Rightarrow> Record \<Rightarrow> outbox_error + Record) \<Rightarrow> bool" where
  "mutation_step mutate \<longleftrightarrow> (\<forall>e r r1. mutate e r = Inr r1 \<longrightarrow> delivery_step (r_state r) (r_state r1))"

text \<open>What all updates have in common.\<close>

definition update_step :: "Store \<Rightarrow> Store \<Rightarrow> bool" where
  "update_step s s' \<longleftrightarrow> (\<exists>now commit mutate es err. mutation_ok mutate es \<and> mutation_step mutate \<and> updateMany now commit mutate es s = (err, s'))"

lemma fold_mput_member:
  "mget (fold (\<lambda>u m. mput (k u) (v u) m) us m0) e = Some x \<Longrightarrow> (\<exists>u\<in>set us. x = v u) \<or> mget m0 e = Some x"
  by (induction us arbitrary: m0) (fastforce split: if_splits)+

lemma fold_mput_dom: "e \<in> k ` set us \<or> mget m0 e \<noteq> None \<Longrightarrow> mget (fold (\<lambda>u m. mput (k u) (v u) m) us m0) e \<noteq> None"
proof (induction us arbitrary: m0)
  case (Cons u us)
  then have "e \<in> k ` set us \<or> mget (mput (k u) (v u) m0) e \<noteq> None" by auto
  from Cons.IH [OF this] show ?case by simp
qed simp

lemma assign_update:
  assumes "\<forall>u\<in>set us. text_assignment (au_assignment u)" and "assignMany now commit us s = (err, s')"
  shows "update_step s s'"
proof -
  let ?a = "fold (\<lambda>u m. mput (au_event u) (au_assignment u) m) us []"
  have "text_assignment (the (mget ?a e))" if "e \<in> set (map au_event us)" for e
    using fold_mput_dom [of e au_event us "[]" au_assignment] fold_mput_member [of au_event au_assignment us "[]" e] that assms(1) by auto
  then have "mutation_ok (\<lambda>e. assign_record (the (mget ?a e))) (map au_event us)" by (intro assign_ok) blast
  moreover have "mutation_step (\<lambda>e. assign_record (the (mget ?a e)))"
    by (auto simp: mutation_step_def assign_record_def delivery_step_def split: if_splits)
  ultimately show ?thesis using assms(2) unfolding update_step_def assignMany_def Let_def by blast
qed

lemma send_update: "markInEventsAMany now commit es s = (err, s') \<Longrightarrow> update_step s s'"
  unfolding update_step_def markInEventsAMany_def
  by (intro exI conjI) (assumption | rule in_flight_ok | auto simp: mutation_step_def in_flight_record_def delivery_step_def split: if_splits)+

lemma retry_update: "retryAckUncertainMany now commit es s = (err, s') \<Longrightarrow> update_step s s'"
  unfolding update_step_def retryAckUncertainMany_def
  by (intro exI conjI) (assumption | rule retry_ok | auto simp: mutation_step_def retry_record_def delivery_step_def split: if_splits)+

lemma reasons_text:
  assumes "\<forall>u\<in>set rs. utf8_valid (su_reason u)"
  shows "utf8_valid (mget_or (snd (splitStateUpdates rs)) e [])"
  using assms fold_mput_member [of su_event su_reason rs "[]" e] by (auto simp: splitStateUpdates_def mget_or_def split: option.split)

lemma resolved_update:
  assumes "\<forall>u\<in>set rs. utf8_valid (su_reason u)" and "st = StateReady \<or> st = StateAckUncertain"
    and "updateMany now commit (\<lambda>e. resolved_record st (mget_or (snd (splitStateUpdates rs)) e [])) es s = (err, s')"
  shows "update_step s s'"
proof -
  have "mutation_ok (\<lambda>e. resolved_record st (mget_or (snd (splitStateUpdates rs)) e [])) es"
    using assms(1,2) by (intro resolved_ok) (simp_all add: reasons_text)
  moreover have "mutation_step (\<lambda>e. resolved_record st (mget_or (snd (splitStateUpdates rs)) e []))"
    using assms(2) by (auto simp: mutation_step_def resolved_record_def delivery_step_def split: if_splits)
  ultimately show ?thesis using assms(3) unfolding update_step_def by blast
qed

lemma rejected_update: "\<forall>u\<in>set rs. utf8_valid (su_reason u) \<Longrightarrow> markRejectedMany now commit rs s = (err, s') \<Longrightarrow> update_step s s'"
  by (rule resolved_update [of rs StateReady]) (auto simp: markRejectedMany_def case_prod_unfold Let_def)

lemma uncertain_update: "\<forall>u\<in>set rs. utf8_valid (su_reason u) \<Longrightarrow> markAckUncertainMany now commit rs s = (err, s') \<Longrightarrow> update_step s s'"
  by (rule resolved_update [of rs StateAckUncertain]) (auto simp: markAckUncertainMany_def case_prod_unfold Let_def)

lemmas updates_of_source = assign_update send_update retry_update rejected_update uncertain_update


section \<open>The invariant of a run\<close>

definition outbox_inv :: "Store \<Rightarrow> bool" where
  "outbox_inv s \<longleftrightarrow> store_inv s \<and> times_ok s"

lemma update_step_ok:
  assumes "outbox_inv s" and "update_step s s'"
  shows "outbox_inv s'" and "queue_step (queue s) (queue s')"
proof -
  obtain now commit mutate es err where u: "mutation_ok mutate es" "mutation_step mutate" "updateMany now commit mutate es s = (err, s')"
    using assms(2) unfolding update_step_def by blast
  have inv: "store_inv s" using assms(1) by (simp add: outbox_inv_def)
  note U = updateMany_spec [OF inv u(1,3)]
  have step: "record_step r (updated_record now mutate es r)" if "r \<in> set (queue s)" for r
  proof -
    have "record_ok r" using inv that by (simp add: store_inv_def)
    then have "same_content r r1 \<and> delivery_step (r_state r) (r_state r1)" if "mutate (r_event r) r = Inr r1" "r_event r \<in> set es" for r1
      using that u(1,2) unfolding mutation_ok_def mutation_step_def by blast
    then show ?thesis by (auto simp: updated_record_def record_step_def split: sum.split)
  qed
  have accepted: "r_accepted r' = r_accepted r" if "record_step r r'" for r r' using that by (auto simp: record_step_def same_content_def)
  have "outbox_inv s' \<and> queue_step (queue s) (queue s')"
  proof (cases err)
    case None
    with U(3) have q: "queue s' = map (updated_record now mutate es) (queue s)" by simp
    have "times_ok s'" using assms(1) accepted [OF step] by (auto simp: outbox_inv_def times_ok_def q)
    then show ?thesis using U(1) q queue_step_map [OF step] by (simp add: outbox_inv_def)
  qed (use U(2) assms(1) queue_step_refl in auto)
  then show "outbox_inv s'" "queue_step (queue s) (queue s')" by simp_all
qed

lemma those_None: "x \<in> set xs \<Longrightarrow> f x = None \<Longrightarrow> those (map f xs) = None"
  by (induction xs) (auto split: option.split)

lemma accept_result:
  assumes "acceptMany now commit input s = (Inr rs, s')"
  shows "\<forall>x\<in>set input. validateNewRecord x = None" and "\<forall>r\<in>set rs. marshal r \<noteq> None"
proof -
  have "input = [] \<and> rs = [] \<or> (\<exists>added stored. accept_loop now s (st_next s) [] 0 input = Inr (rs, added) \<and> those (map marshal rs) = Some stored)"
    using assms unfolding acceptMany_def Let_def by (simp split: if_splits sum.splits option.splits prod.splits)
  then consider "input = []" "rs = []"
    | added stored where "accept_loop now s (st_next s) [] 0 input = Inr (rs, added)" "those (map marshal rs) = Some stored" by blast
  then have "(\<forall>x\<in>set input. validateNewRecord x = None) \<and> (\<forall>r\<in>set rs. marshal r \<noteq> None)"
  proof cases
    case 2
    then show ?thesis using accept_loop_ok(2) [OF 2(1)] those_None [of _ rs marshal] by force
  qed simp
  then show "\<forall>x\<in>set input. validateNewRecord x = None" "\<forall>r\<in>set rs. marshal r \<noteq> None" by blast+
qed

lemma accept_step_ok:
  assumes "outbox_inv s" and "\<forall>r\<in>set input. fresh_event s (r_event r) \<and> text_content r" and run: "acceptMany now commit input s = (res, s')"
  shows "outbox_inv s'" and "queue_step (queue s) (queue s')"
proof -
  have inv: "store_inv s" using assms(1) by (simp add: outbox_inv_def)
  note A = acceptMany_spec [OF inv assms(2) run]
  have index: "index_inv s'" using A(1) by (simp add: store_inv_def)
  have "outbox_inv s' \<and> queue_step (queue s) (queue s')"
  proof (cases res)
    case (Inl e)
    then show ?thesis using A(2) assms(1) queue_step_refl by auto
  next
    case (Inr rs)
    then have q: "rs = accepted_records now (st_next s) input" "queue s' = queue s @ rs" using A(2) by simp_all
    have new: "r_attempts r = 0 \<and> r_accepted r = now \<and> (r_state r = StateUnassigned \<or> r_state r = StateReady)" if r: "r \<in> set rs" for r
    proof -
      have "\<exists>x q. x \<in> set xs \<and> r = accepted_record now q x" if "r \<in> set (accepted_records now q xs)" for q xs
        using that by (induction xs arbitrary: q) (simp_all, blast)
      then obtain x q where x: "x \<in> set input" "r = accepted_record now q x" using r q(1) by blast
      then have "validateNewRecord x = None" using accept_result(1) run Inr by blast
      with x show ?thesis by (auto simp: accepted_record_def Let_def validateNewRecord_def)
    qed
    have "\<forall>r\<in>set rs. json_time_ok (r_accepted r)"
      using accept_result(2) run Inr by (fastforce simp: marshal_def split: if_splits)
    then have "times_ok s'" using assms(1) by (auto simp: outbox_inv_def times_ok_def q(2))
    moreover have "queue_step (queue s) (queue s @ rs)"
    proof (rule enqueue)
      show "sorted_wrt (\<lambda>r1 r2. r_sequence r1 < r_sequence r2) (queue s @ rs)"
        using index unfolding q(2) [symmetric] by (simp add: index_inv_def order_ok_def queue_def)
      show "distinct (map r_event (queue s @ rs))" using queue_events(1) [OF index] unfolding q(2) .
    qed (use new in blast)
    ultimately show ?thesis using A(1) q(2) by (simp add: outbox_inv_def)
  qed
  then show "outbox_inv s'" "queue_step (queue s) (queue s')" by simp_all
qed


lemma complete_step_ok:
  assumes "outbox_inv s" and "\<forall>c\<in>set cs. text_completion c" and run: "CompleteBatch now commit cs s = (res, s')"
  shows "outbox_inv s'" and "queue_step (queue s) (queue s')"
proof -
  have inv: "store_inv s" using assms(1) by (simp add: outbox_inv_def)
  note C = CompleteBatch_spec [OF inv assms(2) run]
  have each: "case completed now cs r of None \<Rightarrow> published r | Some r' \<Rightarrow> record_step r r'" if r: "r \<in> set (queue s)" for r
  proof (cases "completion_for cs r")
    case (Some c)
    have ok: "record_ok r" using inv r by (simp add: store_inv_def)
    have c: "text_completion c" using assms(2) completion_member [OF Some] by blast
    show ?thesis
    proof (cases "resolve now c r")
      case (Update r1)
      then have "same_content r r1" using resolve_Update(2) [OF Update ok c] by simp
      moreover have "delivery_step (r_state r) (r_state r1)"
        using Update by (auto simp: resolve_def completed_record_def delivery_step_def split: if_splits CompletionOutcome.splits)
      ultimately show ?thesis using Some Update by (simp add: completed_def record_step_def)
    next
      case Delete
      then show ?thesis using Some by (auto simp: completed_def resolve_def published_def split: if_splits CompletionOutcome.splits)
    qed (use Some in \<open>simp_all add: completed_def record_step_def\<close>)
  qed (simp add: completed_def record_step_def)
  have "outbox_inv s' \<and> queue_step (queue s) (queue s')"
  proof (cases res)
    case (Inl e)
    then show ?thesis using C(2) assms(1) queue_step_refl by auto
  next
    case (Inr applied)
    then have q: "queue s' = List.map_filter (completed now cs) (queue s)" using C(2) by simp
    have "json_time_ok (r_accepted r')" if "r \<in> set (queue s)" "completed now cs r = Some r'" for r r'
      using each [OF that(1)] that assms(1) by (auto simp: outbox_inv_def times_ok_def record_step_def same_content_def)
    then have "times_ok s'" by (auto simp: times_ok_def q map_filter_member)
    then show ?thesis using C(1) q progress [of "queue s" "completed now cs"] each by (simp add: outbox_inv_def)
  qed
  then show "outbox_inv s'" "queue_step (queue s) (queue s')" by simp_all
qed

lemma ack_step_ok:
  assumes "outbox_inv s" and run: "ackMany commit es s = (res, s')"
  shows "outbox_inv s'" and "queue_step (queue s) (queue s')"
proof -
  have inv: "store_inv s" using assms(1) by (simp add: outbox_inv_def)
  then have index: "index_inv s" by (simp add: store_inv_def)
  note A = ackMany_spec [OF inv run]
  have "outbox_inv s' \<and> queue_step (queue s) (queue s')"
  proof (cases res)
    case None
    then have q: "queue s' = filter (\<lambda>r. r_event r \<notin> set es) (queue s)" using A(3) by simp
    have "published r" if r: "r \<in> set (queue s)" "r_event r \<in> set es" for r
    proof -
      have "es \<noteq> []" using r(2) by auto
      then obtain rs where "ack_loop s es = Inr rs" using run None by (auto simp: ackMany_def split: if_splits option.splits sum.splits)
      from ack_loop_ok [OF this] obtain x where "mget (st_records s) (r_event r) = Some x" "published x"
        using r(2) by (force simp: list_all2_conv_all_nth in_set_conv_nth published_def)
      then show ?thesis using r(1) queue_member [OF index, of r] by simp
    qed
    then have "queue_step (queue s) (queue s')" unfolding q by (intro queue_step_filter) simp
    moreover have "times_ok s'" using assms(1) by (auto simp: outbox_inv_def times_ok_def q)
    ultimately show ?thesis using A(1) by (simp add: outbox_inv_def)
  qed (use A(2) assms(1) queue_step_refl in auto)
  then show "outbox_inv s'" "queue_step (queue s) (queue s')" by simp_all
qed

lemma close_ok: "outbox_inv s \<Longrightarrow> outbox_inv (Close s)" "queue (Close s) = queue s"
proof -
  show q: "queue (Close s) = queue s" by (rule queue_frame) (simp_all add: Close_def)
  assume inv: "outbox_inv s"
  then have "index_inv s" by (simp add: outbox_inv_def store_inv_def)
  then have "index_inv (Close s)" by (rule index_inv_frame) (simp_all add: Close_def)
  then have "store_inv (Close s)"
    by (rule store_inv_frame [where s = s]) (use inv q in \<open>simp_all add: outbox_inv_def Close_def\<close>)
  then show "outbox_inv (Close s)" using inv q by (simp add: outbox_inv_def times_ok_def)
qed

lemma restart_ok:
  assumes inv: "outbox_inv s" and "json_time_ok now" and run: "load (st_limits s) False now True (Some (st_db s)) = Inr s'"
  shows "outbox_inv s'" and "queue s' = map (recover now) (queue s)" and "st_limits s' = st_limits s" and "st_next s' = st_next s" and "st_open s'"
proof -
  have s: "store_inv s" "times_ok s" using inv by (simp_all add: outbox_inv_def)
  have lim: "int (length (queue s)) \<le> max_messages (st_limits s)" "st_bytes s \<le> max_bytes (st_limits s)" "max_bytes (st_limits s) \<le> max_int64"
    using s(1) unfolding store_inv_def by blast+
  obtain s1 where s1: "load (st_limits s) False now True (Some (st_db s)) = Inr s1" "store_inv s1" "queue s1 = map (recover now) (queue s)"
      "st_limits s1 = st_limits s" "st_next s1 = st_next s" "st_open s1" "times_ok s1"
    by (rule recovered_store [OF s assms(2) lim])
  with run have "s1 = s'" by simp
  with s1 show "outbox_inv s'" "queue s' = map (recover now) (queue s)" "st_limits s' = st_limits s" "st_next s' = st_next s" "st_open s'"
    by (simp_all add: outbox_inv_def)
qed

lemma recover_step: "record_step r (recover now r)"
  by (auto simp: record_step_def recover_def same_content_def delivery_step_def)

lemma outbox_stepE:
  assumes "outbox_step s s'"
  obtains (accept) input now commit res where "\<forall>r\<in>set input. fresh_event s (r_event r) \<and> text_content r" "acceptMany now commit input s = (res, s')"
  | (change) "update_step s s'"
  | (complete) cs now commit res where "\<forall>c\<in>set cs. text_completion c" "CompleteBatch now commit cs s = (res, s')"
  | (ack) commit es err where "ackMany commit es s = (err, s')"
  | (close) "s' = Close s"
  | (restart) now where "json_time_ok now" "load (st_limits s) False now True (Some (st_db s)) = Inr s'"
  using assms
proof cases
  case accept_step
  then show thesis by (rule accept)
next
  case complete_step
  then show thesis by (rule complete)
next
  case ack_step
  then show thesis by (rule ack)
next
  case restart_step
  then show thesis by (rule restart)
next
  case close_step
  then show thesis by (rule close)
next
  case assign_step
  then show thesis by (rule change [OF assign_update])
next
  case send_step
  then show thesis by (rule change [OF send_update])
next
  case rejected_step
  then show thesis by (rule change [OF rejected_update])
next
  case uncertain_step
  then show thesis by (rule change [OF uncertain_update])
next
  case retry_step
  then show thesis by (rule change [OF retry_update])
qed

lemma outbox_step_ok:
  assumes "outbox_inv s" and "outbox_step s s'"
  shows "outbox_inv s' \<and> queue_step (queue s) (queue s')"
  using assms(2)
proof (cases rule: outbox_stepE)
  case accept
  with accept_step_ok [OF assms(1)] show ?thesis by blast
next
  case change
  with update_step_ok [OF assms(1)] show ?thesis by blast
next
  case complete
  with complete_step_ok [OF assms(1)] show ?thesis by blast
next
  case ack
  with ack_step_ok [OF assms(1)] show ?thesis by blast
next
  case close
  then show ?thesis using close_ok [of s] assms(1) queue_step_refl by simp
next
  case (restart now)
  have "queue s' = map (recover now) (queue s)" "outbox_inv s'" using restart_ok [OF assms(1) restart] by blast+
  then show ?thesis using queue_step_map [of "queue s" "recover now"] recover_step by simp
qed

lemma limits_fold [simp]: "st_limits (fold index_accepted rs s) = st_limits s" "st_limits (fold index_updated rs s) = st_limits s"
  "st_limits (fold index_deleted rs s) = st_limits s"
  using index_accepted_frame(1) index_updated_frame(1) index_deleted_frame(1)
  by (induction rs arbitrary: s) (simp_all add: memory_frame_def)

lemma limits_apply [simp]: "st_limits (apply_completion p s) = st_limits s"
  by (simp add: apply_completion_def compactOrderIfNeeded_def Let_def)

lemma update_limits: "update_step s s' \<Longrightarrow> st_limits s' = st_limits s"
  by (auto simp: update_step_def updateMany_def split: if_splits option.splits sum.splits)

lemma accept_limits: "acceptMany now commit input s = (res, s') \<Longrightarrow> st_limits s' = st_limits s"
  by (auto simp: acceptMany_def finish_accept_def Let_def split: if_splits option.splits sum.splits)

lemma complete_limits: "CompleteBatch now commit cs s = (res, s') \<Longrightarrow> st_limits s' = st_limits s"
  by (auto simp: CompleteBatch_def split: if_splits sum.splits)

lemma ack_limits: "ackMany commit es s = (res, s') \<Longrightarrow> st_limits s' = st_limits s"
  by (auto simp: ackMany_def split: if_splits option.splits sum.splits)

lemma step_limits:
  assumes "outbox_inv s" and "outbox_step s s'"
  shows "st_limits s' = st_limits s"
  using assms(2)
proof (cases rule: outbox_stepE)
  case (restart now)
  then show ?thesis using restart_ok(3) [OF assms(1)] by blast
qed (simp_all add: accept_limits complete_limits ack_limits update_limits Close_def)

lemma outbox_reachable_inv:
  "outbox_reachable lim s \<Longrightarrow> outbox_inv s \<and> st_limits s = lim \<and> queue_step\<^sup>*\<^sup>* [] (queue s)"
proof (induction rule: outbox_reachable.induct)
  case (created now old s)
  obtain s1 where "load lim True now True old = Inr s1" "store_inv s1" "queue s1 = []" "st_limits s1 = lim"
    by (rule new_store [of lim now old]) (use created(1) in \<open>simp_all add: int64_limits_def\<close>)
  then show ?case using created(2) by (simp add: outbox_inv_def times_ok_def)
next
  case (stepped s s')
  then have "outbox_inv s' \<and> queue_step (queue s) (queue s')" "st_limits s' = st_limits s"
    using outbox_step_ok step_limits by blast+
  then show ?case using stepped.IH by (auto intro: rtranclp.rtrancl_into_rtrancl)
qed

end
