(* ===== verification/Outbox_Progress.thy ===== *)
theory Outbox_Progress
  imports Outbox_Runs
begin

text \<open>
  When the operations of the outbox succeed, and that every open outbox can be drained: whatever state its records
  are in, some sequence of operations publishes and acknowledges all of them.
\<close>

section \<open>Success of an acceptance\<close>

definition acceptable :: "Store \<Rightarrow> Record list \<Rightarrow> bool" where
  "acceptable s input \<longleftrightarrow>
     (\<forall>r\<in>set input. validateNewRecord r = None \<and> mget (st_records s) (r_event r) = None) \<and> distinct (map r_event input) \<and>
     int (length input) \<le> max_messages (st_limits s) - int (length (st_records s)) \<and>
     st_bytes s + sum_list (map acceptedSize input) \<le> max_bytes (st_limits s) \<and> length input \<le> unat (max_u64 - st_next s)"

lemma acceptedSize_accepted [simp]: "acceptedSize (accepted_record now q r) = acceptedSize r"
  by (simp add: accepted_record_def Let_def)

lemma accepted_records_size: "total_size (accepted_records now q rs) = sum_list (map acceptedSize rs)"
  by (induction rs arbitrary: q) (simp_all add: total_size_def)

lemma sizes_nonneg: "0 \<le> sum_list (map acceptedSize rs)"
proof (induction rs)
  case (Cons r rs)
  then show ?case using acceptedSize_pos [of r] by (simp del: acceptedSize_pos)
qed simp

lemma accept_loop_Inr:
  assumes "\<forall>r\<in>set input. validateNewRecord r = None \<and> mget (st_records s) (r_event r) = None \<and> r_event r \<notin> set seen"
    and "distinct (map r_event input)" and "st_bytes s + added + sum_list (map acceptedSize input) \<le> max_bytes (st_limits s)"
  shows "\<exists>tot. accept_loop now s q seen added input = Inr (accepted_records now q input, tot)"
  using assms
proof (induction input arbitrary: q seen added)
  case (Cons r input)
  have fit: "\<not> max_bytes (st_limits s) - st_bytes s - added < acceptedSize r"
    using Cons.prems(3) sizes_nonneg [of input] by simp
  have "\<exists>tot. accept_loop now s (q + 1) (r_event r # seen) (added + acceptedSize r) input = Inr (accepted_records now (q + 1) input, tot)"
    using Cons.prems event_neq [OF Cons.prems(2)] by (intro Cons.IH) (auto simp: add.assoc)
  then show ?case using Cons.prems(1) fit by (auto simp: Let_def)
qed simp

lemma marshal_Some: "text_ok r \<Longrightarrow> json_time_ok (r_accepted r) \<Longrightarrow> json_time_ok (r_updated r) \<Longrightarrow> marshal r = Some r"
  by (simp add: marshal_def)

lemma accepted_marshal:
  assumes "text_content r" and "validateNewRecord r = None" and "json_time_ok now"
  shows "marshal (accepted_record now q r) = Some (accepted_record now q r)"
proof (rule marshal_Some)
  show "text_ok (accepted_record now q r)"
    using assms(1,2) by (auto simp: validateNewRecord_def accepted_record_def Let_def text_content_def text_ok_def)
qed (use assms(3) in \<open>simp_all add: accepted_record_def Let_def\<close>)

lemma acceptMany_Inr_iff:
  assumes texts: "\<forall>r\<in>set input. text_content r" and now: "json_time_ok now" and "st_open s" and "input \<noteq> []"
  shows "(\<exists>rs s'. acceptMany now commit input s = (Inr rs, s')) \<longleftrightarrow> commit \<and> acceptable s input"
proof
  assume "\<exists>rs s'. acceptMany now commit input s = (Inr rs, s')"
  then obtain rs s' where run: "acceptMany now commit input s = (Inr rs, s')" by blast
  have ok: "commit" "int (length input) \<le> max_messages (st_limits s) - int (length (st_records s))" "length input \<le> unat (max_u64 - st_next s)"
    "\<exists>tot. accept_loop now s (st_next s) [] 0 input = Inr (rs, tot)"
    using run assms(3,4) unfolding acceptMany_def Let_def
    by (simp_all add: not_less split: if_splits sum.splits option.splits prod.splits)
  then obtain tot where loop: "accept_loop now s (st_next s) [] 0 input = Inr (rs, tot)" by blast
  note L = accept_loop_ok [OF loop]
  have "st_bytes s + sum_list (map acceptedSize input) \<le> max_bytes (st_limits s)"
    using L(5,6) assms(4) accepted_records_size [of now "st_next s" input] L(1) by simp
  with ok L(2,3) show "commit \<and> acceptable s input" by (simp add: acceptable_def)
next
  assume a: "commit \<and> acceptable s input"
  then obtain tot where loop: "accept_loop now s (st_next s) [] 0 input = Inr (accepted_records now (st_next s) input, tot)"
    using accept_loop_Inr [of input s "[]" 0 now "st_next s"] by (auto simp: acceptable_def)
  have "marshal r \<noteq> None" if "r \<in> set (accepted_records now q xs)" "set xs \<subseteq> set input" for r q xs
    using that by (induction xs arbitrary: q) (use a texts now accepted_marshal in \<open>auto simp: acceptable_def\<close>)
  then have "those (map marshal (accepted_records now (st_next s) input)) \<noteq> None"
    using those_map_Some [of "accepted_records now (st_next s) input" marshal "\<lambda>r. the (marshal r)"] by force
  then show "\<exists>rs s'. acceptMany now commit input s = (Inr rs, s')"
    using a loop assms(3,4) by (auto simp: acceptMany_def acceptable_def Let_def)
qed

section \<open>Success of an update\<close>

lemma update_loop_Inr:
  assumes "\<forall>e\<in>set es. \<exists>r r1. mget (st_records s) e = Some r \<and> mutate e r = Inr r1 \<and> marshal (r1\<lparr>r_updated := now\<rparr>) \<noteq> None"
  shows "\<exists>rs. update_loop now s mutate es = Inr rs"
  using assms by (induction es) (auto simp: Let_def)

lemma updateMany_None:
  assumes "st_open s" and "distinct es" and "[] \<notin> set es"
    and "\<forall>e\<in>set es. \<exists>r r1. mget (st_records s) e = Some r \<and> mutate e r = Inr r1 \<and> marshal (r1\<lparr>r_updated := now\<rparr>) \<noteq> None"
  shows "fst (updateMany now True mutate es s) = None"
proof -
  obtain rs where "update_loop now s mutate es = Inr rs" using update_loop_Inr [OF assms(4)] by blast
  then show ?thesis using assms(1-3) validateUniqueEventIDs_iff [of "[]" es] by (simp add: updateMany_def)
qed

lemma ackMany_None:
  assumes "st_open s" and "distinct es" and "[] \<notin> set es" and "\<forall>e\<in>set es. \<exists>r. mget (st_records s) e = Some r \<and> published r"
  shows "fst (ackMany True es s) = None"
proof -
  have "\<exists>rs. ack_loop s es = Inr rs" using assms(4) by (induction es) (auto simp: published_def)
  then show ?thesis using assms(1-3) validateUniqueEventIDs_iff [of "[]" es] by (auto simp: ackMany_def)
qed

section \<open>Operations leave an open outbox open\<close>

lemma open_fold [simp]: "st_open (fold index_accepted rs s) = st_open s" "st_open (fold index_updated rs s) = st_open s"
  "st_open (fold index_deleted rs s) = st_open s"
  using index_accepted_frame(1) index_updated_frame(1) index_deleted_frame(1)
  by (induction rs arbitrary: s) (simp_all add: memory_frame_def)

lemma open_update: "st_open (snd (updateMany now commit mutate es s)) = st_open s"
  by (simp add: updateMany_def split: option.split sum.split)

lemma open_accept: "st_open (snd (acceptMany now commit input s)) = st_open s"
  by (simp add: acceptMany_def finish_accept_def Let_def split: option.split sum.split prod.split)

lemma open_apply: "st_open (apply_completion p s) = st_open s"
  by (simp add: apply_completion_def compactOrderIfNeeded_def Let_def)

lemma open_ack: "st_open (snd (ackMany commit es s)) = st_open s"
  by (simp add: ackMany_def apply_completion_def compactOrderIfNeeded_def Let_def split: option.split sum.split)


section \<open>Draining\<close>

definition outbox_op :: "Store \<Rightarrow> Store \<Rightarrow> bool" where
  "outbox_op s s' \<longleftrightarrow> outbox_step s s' \<and> outbox_inv s \<and> st_open s \<and> st_open s'"

lemma outbox_opI: "outbox_step s s' \<Longrightarrow> outbox_inv s \<Longrightarrow> st_open s \<Longrightarrow> st_open s' = st_open s \<Longrightarrow> outbox_op s s'"
  by (simp add: outbox_op_def)

lemma outbox_op_inv: "outbox_op s s' \<Longrightarrow> outbox_inv s'"
  using outbox_step_ok by (auto simp: outbox_op_def)

lemma inv_record:
  assumes "outbox_inv s" and "r \<in> set (queue s)"
  shows "mget (st_records s) (r_event r) = Some r" and "record_ok r" and "json_time_ok (r_accepted r)" and "r_event r \<noteq> []"
proof -
  have "index_inv s" "record_ok r" using assms by (simp_all add: outbox_inv_def store_inv_def)
  then show "mget (st_records s) (r_event r) = Some r" "record_ok r" "r_event r \<noteq> []"
    using assms(2) queue_member record_okD(4) [of r] by (auto simp: missing_identity_def)
  show "json_time_ok (r_accepted r)" using assms by (simp add: outbox_inv_def times_ok_def)
qed

lemma updateMany_head:
  assumes inv: "outbox_inv s" "st_open s" and q: "queue s = r # rs" and m: "mutation_ok mutate [r_event r]" "mutate (r_event r) r = Inr r1"
    and now: "json_time_ok now" and run: "updateMany now True mutate [r_event r] s = (err, s')"
  shows "queue s' = r1\<lparr>r_updated := now\<rparr> # rs"
proof -
  note R = inv_record [OF inv(1), of r, unfolded q, simplified]
  have "record_ok r1" "same_content r r1" using m R(2) unfolding mutation_ok_def by auto
  then have "marshal (r1\<lparr>r_updated := now\<rparr>) \<noteq> None" using record_okD(6) R(3) now by (simp add: marshal_def same_content_def)
  then have "fst (updateMany now True mutate [r_event r] s) = None" using inv(2) R(1,4) m(2) by (intro updateMany_None) auto
  then have "queue s' = map (updated_record now mutate [r_event r]) (queue s)"
    using updateMany_spec(3) [OF _ m(1) run] run inv(1) by (simp add: outbox_inv_def)
  moreover have "r_event x \<noteq> r_event r" if "x \<in> set rs" for x
    using queue_events(1) [of s] inv(1) that event_neq [of r rs x] by (simp add: q outbox_inv_def store_inv_def)
  ultimately show ?thesis using m(2) by (simp add: q updated_record_def map_idI)
qed

lemma publish_head:
  assumes inv: "outbox_inv s" "st_open s" and q: "queue s = r # rs"
  shows "\<exists>s' r'. outbox_op\<^sup>*\<^sup>* s s' \<and> queue s' = r' # rs \<and> published r' \<and> outbox_inv s' \<and> st_open s'"
proof -
  have z: "json_time_ok 0" by (simp add: json_time_ok_def day_def second_def)
  have send: "\<exists>s' r'. outbox_op\<^sup>*\<^sup>* t s' \<and> queue s' = r' # rs \<and> published r' \<and> outbox_inv s' \<and> st_open s'"
    if t: "outbox_inv t" "st_open t" "queue t = x # rs" "r_state x = StateReady" for t x
  proof -
    define s' where "s' = snd (markInEventsAMany 0 True [r_event x] t)"
    have run: "markInEventsAMany 0 True [r_event x] t = (fst (markInEventsAMany 0 True [r_event x] t), s')" by (simp add: s'_def)
    have op: "outbox_op t s'"
      using t open_update by (intro outbox_opI send_step [OF run]) (simp_all add: s'_def markInEventsAMany_def)
    have q': "queue s' = (x\<lparr>r_state := StateInEventsA, r_attempts := r_attempts x + 1, r_error := []\<rparr>)\<lparr>r_updated := 0\<rparr> # rs"
      by (rule updateMany_head [OF t(1-3) in_flight_ok _ z run [unfolded markInEventsAMany_def]]) (simp add: in_flight_record_def t(4))
    have "published ((x\<lparr>r_state := StateInEventsA, r_attempts := r_attempts x + 1, r_error := []\<rparr>)\<lparr>r_updated := 0\<rparr>)"
      by (simp add: published_def)
    with op q' outbox_op_inv [OF op] show ?thesis by (intro exI conjI r_into_rtranclp) (auto simp: outbox_op_def)
  qed
  have "record_ok r" using inv_record(2) [OF inv(1)] q by simp
  then consider "r_state r = StateUnassigned" | "r_state r = StateReady" | "published r"
    using record_okD(3) [of r] by (cases "r_state r") (auto simp: stored_state_ok_def published_def)
  then show ?thesis
  proof cases
    case 1
    let ?a = "\<lparr>as_epoch = 1, as_broker = ''x'', as_endpoint = ''x'', as_destination = ''x''\<rparr>"
    let ?us = "[\<lparr>au_event = r_event r, au_assignment = ?a\<rparr>]"
    define t where "t = snd (assignMany 0 True ?us s)"
    have run: "assignMany 0 True ?us s = (fst (assignMany 0 True ?us s), t)" by (simp add: t_def)
    have text_a: "text_assignment ?a" by code_simp
    have op: "outbox_op s t"
      using inv open_update text_a by (intro outbox_opI assign_step [OF _ run]) (simp_all add: t_def assignMany_def)
    let ?m = "\<lambda>e. assign_record (the (mget (fold (\<lambda>u m. mput (au_event u) (au_assignment u) m) ?us []) e))"
    have run': "updateMany 0 True ?m [r_event r] s = (fst (assignMany 0 True ?us s), t)"
      using run by (simp add: assignMany_def Let_def)
    have ok: "mutation_ok ?m [r_event r]" using text_a by (intro assign_ok) simp
    have "?m (r_event r) r = Inr (r\<lparr>r_epoch := 1, r_broker := ''x'', r_endpoint := ''x'', r_destination := ''x'', r_state := StateReady, r_error := []\<rparr>)"
      using 1 by (simp add: assign_record_def incomplete_def)
    from updateMany_head [OF inv q ok this z run'] have "\<exists>x. queue t = x # rs \<and> r_state x = StateReady" by simp
    then obtain x where x: "queue t = x # rs" "r_state x = StateReady" by blast
    have "outbox_inv t" "st_open t" using outbox_op_inv [OF op] op by (simp_all add: outbox_op_def)
    from send [OF this x] obtain s' r' where "outbox_op\<^sup>*\<^sup>* t s' \<and> queue s' = r' # rs \<and> published r' \<and> outbox_inv s' \<and> st_open s'" by blast
    with op show ?thesis by (meson converse_rtranclp_into_rtranclp)
  next
    case 2
    from send [OF inv q 2] show ?thesis .
  next
    case 3
    with inv q show ?thesis by blast
  qed
qed

lemma drain_open:
  assumes "outbox_inv s" and "st_open s"
  shows "\<exists>s'. outbox_op\<^sup>*\<^sup>* s s' \<and> queue s' = []"
  using assms
proof (induction "length (queue s)" arbitrary: s)
  case (Suc n)
  then obtain r rs where q: "queue s = r # rs" by (cases "queue s") auto
  obtain t x where t: "outbox_op\<^sup>*\<^sup>* s t" "queue t = x # rs" "published x" "outbox_inv t" "st_open t"
    using publish_head [OF Suc.prems q] by blast
  define u where "u = snd (ackMany True [r_event x] t)"
  have run: "ackMany True [r_event x] t = (fst (ackMany True [r_event x] t), u)" by (simp add: u_def)
  have op: "outbox_op t u" using t open_ack by (intro outbox_opI ack_step [OF run]) (simp_all add: u_def)
  have x: "mget (st_records t) (r_event x) = Some x" "r_event x \<noteq> []" using inv_record [OF t(4), of x] t(2) by simp_all
  then have "fst (ackMany True [r_event x] t) = None" using t by (intro ackMany_None) auto
  then have "queue u = filter (\<lambda>y. r_event y \<noteq> r_event x) (x # rs)"
    using ackMany_spec(3) [OF _ run] t(2,4) by (simp add: outbox_inv_def)
  then have "length (queue u) \<le> n" using Suc.hyps(2) q length_filter_le [of _ rs] by simp
  moreover have "\<forall>y\<in>set rs. r_event y \<noteq> r_event x"
    using queue_events(1) [of t] t(2,4) event_neq [of x rs] by (auto simp: outbox_inv_def store_inv_def)
  ultimately have "n = length (queue u)"
    using \<open>queue u = _\<close> Suc.hyps(2) q by simp
  from Suc.hyps(1) [OF this outbox_op_inv [OF op]] op obtain s' where "outbox_op\<^sup>*\<^sup>* u s' \<and> queue s' = []" by (auto simp: outbox_op_def)
  with t(1) op show ?case by (meson rtranclp.rtrancl_into_rtrancl rtranclp_trans)
qed auto

end
