(* ===== verification/Outbox_Demo.thy ===== *)
theory Outbox_Demo
  imports Outbox_Progress
begin

text \<open>
  The run that the witnesses of the outbox's properties use: three records, two of them with the same ordering key,
  are accepted and assigned, and the first one is being published.
\<close>

section \<open>A short run\<close>

definition demo_limits :: Limits where
  "demo_limits = \<lparr>max_messages = 10, max_bytes = 2000\<rparr>"

definition demo_record :: "string \<Rightarrow> string \<Rightarrow> Record" where
  "demo_record e k = zero_record\<lparr>r_event := e, r_topic := ''t'', r_key := k, r_group := ''g'', r_hash := ''h'', r_contract := ''c'', r_library := ''l''\<rparr>"

definition demo_input :: "Record list" where
  "demo_input = [demo_record ''a'' ''k'', demo_record ''b'' ''k'', demo_record ''d'' ''m'']"

definition demo_update :: "string \<Rightarrow> AssignmentUpdate" where
  "demo_update e = \<lparr>au_event = e, au_assignment = \<lparr>as_epoch = 1, as_broker = ''x'', as_endpoint = ''y'', as_destination = ''z''\<rparr>\<rparr>"

definition demo_new :: Store where
  "demo_new = opened demo_limits new_database 1 \<lparr>ld_loaded = [], ld_order = [], ld_bytes = 0, ld_max = 0, ld_recovered = []\<rparr>"

definition demo_accepted :: Store where
  "demo_accepted = snd (acceptMany 0 True demo_input demo_new)"

definition demo_assigned :: Store where
  "demo_assigned = snd (assignMany 1 True [demo_update ''a'', demo_update ''b'', demo_update ''d''] demo_accepted)"

definition demo_sent :: Store where
  "demo_sent = snd (markInEventsAMany 2 True [''a''] demo_assigned)"

lemma demo_new_eq: "demo_new = \<lparr>st_limits = demo_limits, st_open = True, st_db = new_database, st_records = [], st_order = [], st_lanes = [],
    st_ready = [], st_next = 1, st_bytes = 0, st_high_messages = 0, st_high_bytes = 0, st_deleted = 0\<rparr>"
  by (simp add: demo_new_def opened_def rebuildEligibleIndex_def)

lemma demo_texts: "list_all utf8_valid [''a'', ''b'', ''c'', ''d'', ''g'', ''h'', ''k'', ''l'', ''m'', ''t'', ''x'', ''y'', ''z'']"
  by code_simp

lemma demo_input_ok: "\<forall>r\<in>set demo_input. fresh_event demo_new (r_event r) \<and> text_content r"
  using demo_texts by (simp add: demo_input_def demo_record_def zero_record_def fresh_event_def demo_new_eq text_content_def text_ok_def)

lemma demo_accepted_reachable: "outbox_reachable demo_limits demo_accepted"
proof -
  have "outbox_reachable demo_limits demo_new"
  proof (rule created)
    show "int64_limits demo_limits" by (simp add: int64_limits_def demo_limits_def max_int64_def)
    show "load demo_limits True 0 True None = Inr demo_new" by (simp add: load_def demo_new_def)
  qed
  moreover have "outbox_step demo_new demo_accepted"
    unfolding demo_accepted_def by (rule accept_step [OF demo_input_ok]) (rule prod.collapse [symmetric])
  ultimately show ?thesis by (rule stepped)
qed

lemma demo_assigned_reachable: "outbox_reachable demo_limits demo_assigned"
proof (rule stepped [OF demo_accepted_reachable])
  show "outbox_step demo_accepted demo_assigned"
    unfolding demo_assigned_def using demo_texts
    by (intro assign_step [OF _ prod.collapse [symmetric]]) (simp add: demo_update_def text_assignment_def)
qed

lemma demo_send_step: "outbox_step demo_assigned demo_sent"
  unfolding demo_sent_def by (rule send_step [OF prod.collapse [symmetric]])

lemma demo_sent_reachable: "outbox_reachable demo_limits demo_sent"
  by (rule stepped [OF demo_assigned_reachable demo_send_step])


lemma demo_sizes: "acceptedSize (demo_record ''a'' ''k'') = 112" "acceptedSize (demo_record ''b'' ''k'') = 112" "acceptedSize (demo_record ''d'' ''m'') = 112"
  by code_simp+

lemma demo_acceptable: "acceptable demo_new demo_input"
proof -
  have "unat (max_u64 - 1) = 2 ^ 64 - 2" by (simp add: max_u64_def unsigned_minus_1_eq_mask mask_eq_exp_minus_1 unat_sub word_order.extremum)
  then show ?thesis
    using demo_sizes
    by (simp add: acceptable_def demo_new_eq demo_input_def demo_limits_def demo_record_def zero_record_def validateNewRecord_def missing_identity_def)
qed

lemma json_time_small [simp]: "json_time_ok 0" "json_time_ok 1" "json_time_ok 2" "json_time_ok 3"
  by (simp_all add: json_time_ok_def day_def second_def)

lemma demo_accept: "fst (acceptMany 0 True demo_input demo_new) = Inr (accepted_records 0 1 demo_input)"
  "queue demo_accepted = accepted_records 0 1 demo_input" "st_open demo_accepted"
proof -
  have texts: "\<forall>r\<in>set demo_input. text_content r" using demo_input_ok by blast
  have o: "st_open demo_new" and n: "demo_input \<noteq> []" "queue demo_new = []" "st_next demo_new = 1"
    by (simp_all add: demo_new_eq demo_input_def queue_def)
  obtain rs s' where run: "acceptMany 0 True demo_input demo_new = (Inr rs, s')"
    using acceptMany_Inr_iff [OF texts _ o n(1), of 0 True] demo_acceptable by auto
  have "outbox_reachable demo_limits demo_new"
    by (rule created [of _ 0 None]) (simp_all add: int64_limits_def demo_limits_def max_int64_def load_def demo_new_def)
  then have "store_inv demo_new" using outbox_reachable_inv by (simp add: outbox_inv_def)
  from acceptMany_spec(2) [OF this demo_input_ok run]
  show "fst (acceptMany 0 True demo_input demo_new) = Inr (accepted_records 0 1 demo_input)"
    "queue demo_accepted = accepted_records 0 1 demo_input" using run n by (simp_all add: demo_accepted_def)
  show "st_open demo_accepted" using open_accept [of 0 True demo_input demo_new] o by (simp add: demo_accepted_def)
qed

definition demo_ready :: "u64 \<Rightarrow> string \<Rightarrow> string \<Rightarrow> Record" where
  "demo_ready q e k = (accepted_record 0 q (demo_record e k))\<lparr>r_epoch := 1, r_broker := ''x'', r_endpoint := ''y'', r_destination := ''z'',
     r_state := StateReady, r_error := [], r_updated := 1\<rparr>"

lemma demo_fields [simp]: "r_event (demo_record e k) = e" "r_key (demo_record e k) = k" "r_state (demo_record e k) = StateUnset"
  "r_event (demo_ready q e k) = e" "r_key (demo_ready q e k) = k" "r_state (demo_ready q e k) = StateReady" "r_sequence (demo_ready q e k) = q"
  "r_group (demo_ready q e k) = ''g''" "r_epoch (demo_ready q e k) = 1" "r_broker (demo_ready q e k) = ''x''"
  by (simp_all add: demo_record_def demo_ready_def accepted_record_def Let_def zero_record_def)

lemma demo_assign: "queue demo_assigned = [demo_ready 1 ''a'' ''k'', demo_ready 2 ''b'' ''k'', demo_ready 3 ''d'' ''m'']" "st_open demo_assigned"
proof -
  let ?us = "[demo_update ''a'', demo_update ''b'', demo_update ''d'']" and ?es = "[''a'', ''b'', ''d'']"
  define m where "m = (\<lambda>e. assign_record (the (mget (fold (\<lambda>u m. mput (au_event u) (au_assignment u) m) ?us []) e)))"
  have eq: "assignMany 1 True ?us demo_accepted = updateMany 1 True m ?es demo_accepted" by (simp add: assignMany_def Let_def m_def) (simp add: demo_update_def)
  have inv: "outbox_inv demo_accepted" using outbox_reachable_inv [OF demo_accepted_reachable] by simp
  have q: "queue demo_accepted = [accepted_record 0 1 (demo_record ''a'' ''k''), accepted_record 0 2 (demo_record ''b'' ''k''), accepted_record 0 3 (demo_record ''d'' ''m'')]"
    using demo_accept(2) by (simp add: demo_input_def)
  have ok: "mutation_ok m ?es" using demo_texts unfolding m_def by (intro assign_ok) (simp add: demo_update_def text_assignment_def)
  have step: "m e (accepted_record 0 q (demo_record e k)) = Inr ((demo_ready q e k)\<lparr>r_updated := 0\<rparr>)" if "e \<in> set ?es" for e q k
    using that by (auto simp: m_def assign_record_def incomplete_def demo_update_def demo_ready_def accepted_record_def Let_def demo_record_def zero_record_def)
  have found: "mget (st_records demo_accepted) (r_event r) = Some r" "json_time_ok (r_accepted r)" "record_ok r" if "r \<in> set (queue demo_accepted)" for r
    using inv_record [OF inv that] by simp_all
  have enc: "marshal ((r1::Record)\<lparr>r_updated := 1\<rparr>) \<noteq> None" if "r \<in> set (queue demo_accepted)" "m (r_event r) r = Inr r1" "r_event r \<in> set ?es" for r r1
  proof -
    have "same_content r r1" using ok found(3) [OF that(1)] that(2,3) unfolding mutation_ok_def by blast
    then show ?thesis using found(2) [OF that(1)] by (simp add: marshal_def same_content_def)
  qed
  have "\<exists>r r1. mget (st_records demo_accepted) e = Some r \<and> m e r = Inr r1 \<and> marshal (r1\<lparr>r_updated := 1\<rparr>) \<noteq> None" if es: "e \<in> set ?es" for e
  proof -
    obtain r q k where r: "r \<in> set (queue demo_accepted)" "r = accepted_record 0 q (demo_record e k)" using es q by auto
    then have e: "r_event r = e" by simp
    have "m e r = Inr ((demo_ready q e k)\<lparr>r_updated := 0\<rparr>)" using step [OF es, of q k] r(2) by simp
    with found(1) [OF r(1)] enc [OF r(1)] es e show ?thesis by blast
  qed
  then have none: "fst (updateMany 1 True m ?es demo_accepted) = None" using demo_accept(3) by (intro updateMany_None) auto
  have run: "updateMany 1 True m ?es demo_accepted = (fst (updateMany 1 True m ?es demo_accepted), demo_assigned)"
    by (simp add: demo_assigned_def eq)
  have "queue demo_assigned = map (updated_record 1 m ?es) (queue demo_accepted)"
    using updateMany_spec(3) [OF _ ok run] inv none by (simp add: outbox_inv_def)
  moreover have "updated_record 1 m ?es (accepted_record 0 q (demo_record e k)) = demo_ready q e k" if "e \<in> set ?es" for e q k
    using step [OF that, of q k] that by (simp add: updated_record_def) (simp add: demo_ready_def)
  ultimately show "queue demo_assigned = [demo_ready 1 ''a'' ''k'', demo_ready 2 ''b'' ''k'', demo_ready 3 ''d'' ''m'']" by (simp add: q)
  show "st_open demo_assigned" using open_update [of 1 True m ?es demo_accepted] demo_accept(3) by (simp add: demo_assigned_def eq)
qed


lemma demo_send: "queue demo_sent = [(demo_ready 1 ''a'' ''k'')\<lparr>r_state := StateInEventsA, r_attempts := 1, r_updated := 2\<rparr>,
    demo_ready 2 ''b'' ''k'', demo_ready 3 ''d'' ''m'']" "st_open demo_sent"
proof -
  let ?r = "demo_ready 1 ''a'' ''k''"
  have inv: "outbox_inv demo_assigned" using outbox_reachable_inv [OF demo_assigned_reachable] by simp
  have run: "updateMany 2 True (\<lambda>e. in_flight_record) [r_event ?r] demo_assigned =
      (fst (updateMany 2 True (\<lambda>e. in_flight_record) [r_event ?r] demo_assigned), demo_sent)"
    by (simp add: demo_sent_def markInEventsAMany_def)
  have "in_flight_record ?r = Inr (?r\<lparr>r_state := StateInEventsA, r_attempts := 1\<rparr>)"
    by (simp add: in_flight_record_def) (simp add: demo_ready_def accepted_record_def Let_def)
  from updateMany_head [OF inv demo_assign(2,1) in_flight_ok this _ run]
  show "queue demo_sent = [?r\<lparr>r_state := StateInEventsA, r_attempts := 1, r_updated := 2\<rparr>, demo_ready 2 ''b'' ''k'', demo_ready 3 ''d'' ''m'']" by simp
  show "st_open demo_sent"
    using open_update [of 2 True "\<lambda>e. in_flight_record" "[''a'']" demo_assigned] demo_assign(2) by (simp add: demo_sent_def markInEventsAMany_def)
qed

lemma Records_queue: "st_open s \<Longrightarrow> Records s = queue s"
  by (simp add: Records_def queue_def)

end
