(* ===== verification/Outbox_Text.thy ===== *)
theory Outbox_Text
  imports Outbox_Demo
begin

text \<open>
  Records whose texts are not valid UTF-8. \<open>json.Marshal\<close> writes six bytes for an invalid byte and three for the replacement character that takes its
  place, so a record gets smaller when it is read back; \<open>validateStoredRecord\<close> then refuses it, and with it the whole database.
\<close>

section \<open>The size of a repaired string\<close>

lemma rune_len_le: "rune_len bs \<le> length bs"
  by (auto simp: rune_len_def split: list.splits)

lemma rune_len_take:
  assumes "0 < rune_len bs"
  shows "rune_len (take (rune_len bs) bs @ xs) = rune_len bs"
proof -
  obtain b bs0 where bs: "bs = b # bs0" using assms by (cases bs) (auto simp: rune_len_def)
  show ?thesis
  proof (cases "b < 128")
    case False
    then obtain b1 bs1 where b1: "bs0 = b1 # bs1" using assms bs by (cases bs0) (auto simp: rune_len_def)
    then show ?thesis using assms bs False
      by (cases bs1; cases "tl bs1") (auto simp: rune_len_def split: if_splits list.splits)
  qed (simp add: bs rune_len_def)
qed

lemma runes_drop:
  assumes "0 < rune_len bs" and "utf8_runes (drop (rune_len bs) bs) \<noteq> None"
  shows "utf8_runes bs \<noteq> None"
proof -
  obtain b bs0 where bs: "bs = b # bs0" using assms(1) by (cases bs) (auto simp: rune_len_def)
  consider "b < 128" | b1 bs1 where "bs0 = b1 # bs1" "194 \<le> b" "b \<le> 223" "utf8_cont b1" "rune_len bs = 2"
    | b1 b2 bs2 where "bs0 = b1 # b2 # bs2" "224 \<le> b" "b \<le> 239" "(if b = 224 then 160 else 128) \<le> b1 \<and> b1 \<le> (if b = 237 then 159 else 191) \<and> utf8_cont b2" "rune_len bs = 3"
    | b1 b2 b3 bs3 where "bs0 = b1 # b2 # b3 # bs3" "240 \<le> b \<and> b \<le> 244 \<and> (if b = 240 then 144 else 128) \<le> b1 \<and>
         b1 \<le> (if b = 244 then 143 else 191) \<and> utf8_cont b2 \<and> utf8_cont b3" "rune_len bs = 4"
    using assms(1) unfolding bs rune_len_def by (auto split: list.splits if_split_asm)
  then show ?thesis
  proof cases
    case 1
    then show ?thesis using assms(2) unfolding bs by (subst utf8_runes.simps) (simp add: rune_len_def del: utf8_runes.simps)
  next
    case 2
    then show ?thesis using assms(2) unfolding bs by (subst utf8_runes.simps) (simp del: utf8_runes.simps)
  next
    case 3
    then show ?thesis using assms(2) unfolding bs by (subst utf8_runes.simps) (simp del: utf8_runes.simps)
  next
    case 4
    then show ?thesis using assms(2) unfolding bs by (subst utf8_runes.simps) (simp del: utf8_runes.simps)
  qed
qed

lemma json_body_rune:
  assumes "bs \<noteq> []"
  shows "length (json_body bs) =
    (let n = rune_len bs in
     if n = 0 then 6 + length (json_body (tl bs))
     else (if n = 1 then length (json_escape (hd bs)) else if take 3 bs \<in> {[226, 128, 168], [226, 128, 169]} then 6 else n) + length (json_body (drop n bs)))"
  using assms rune_len_le [of bs] by (subst json_body.simps) (auto simp: Let_def drop_Suc)

lemma rune_len_two: "rune_len bs = 2 \<Longrightarrow> take 3 bs \<notin> {[226, 128, 168], [226, 128, 169]}"
  by (cases bs) (auto simp: rune_len_def split: list.splits if_splits)

lemma json_body_repair:
  "length (json_body (repair_bytes bs)) + (if utf8_runes bs = None then 1 else 0) \<le> length (json_body bs)"
proof (induction bs rule: length_induct)
  case (1 bs)
  show ?case
  proof (cases "bs = []")
    case True
    then show ?thesis by (simp add: repair_bytes.simps)
  next
    case ne: False
    let ?n = "rune_len bs"
    show ?thesis
    proof (cases "?n = 0")
      case True
      let ?r = "repair_bytes (tl bs)"
      have r: "repair_bytes bs = [239, 191, 189] @ ?r" using ne True by (subst repair_bytes.simps) simp
      have "length (json_body ([239, 191, 189] @ ?r)) = 3 + length (json_body ?r)"
        by (subst json_body_rune) (simp_all add: rune_len_def utf8_cont_def Let_def)
      moreover have "length (json_body ?r) \<le> length (json_body (tl bs))" using 1 ne by (cases bs) force+
      moreover have "length (json_body bs) = 6 + length (json_body (tl bs))" using json_body_rune [OF ne] True by simp
      ultimately show ?thesis unfolding r by simp
    next
      case False
      let ?r = "repair_bytes (drop ?n bs)" and ?w = "\<lambda>bs. if ?n = 1 then length (json_escape (hd bs)) else if take 3 bs \<in> {[226, 128, 168], [226, 128, 169]} then 6 else ?n"
      have r: "repair_bytes bs = take ?n bs @ ?r" using ne False by (subst repair_bytes.simps) (simp add: Let_def)
      have n: "rune_len (take ?n bs @ ?r) = ?n" using rune_len_take False by simp
      have len: "length (take ?n bs) = ?n" using rune_len_le [of bs] by simp
      then have "take ?n bs @ ?r \<noteq> []" using False by auto
      from json_body_rune [OF this] have L: "length (json_body (take ?n bs @ ?r)) = ?w (take ?n bs @ ?r) + length (json_body ?r)"
        using False len by (simp add: n Let_def)
      have W: "?w (take ?n bs @ ?r) = ?w bs"
      proof -
        consider "?n = 1" | "?n = 2" | "3 \<le> ?n" using False by linarith
        then show ?thesis
        proof cases
          case 1
          then show ?thesis using ne by (cases bs) simp_all
        next
          case 2
          then show ?thesis using rune_len_two [of bs] rune_len_two [of "take ?n bs @ ?r"] n by simp
        next
          case 3
          then have "take 3 (take ?n bs @ ?r) = take 3 bs" using len by (simp add: min_def)
          then show ?thesis using 3 by (simp only: if_False if_cancel) simp
        qed
      qed
      have B: "length (json_body bs) = ?w bs + length (json_body (drop ?n bs))" using json_body_rune [OF ne] False by (simp add: Let_def)
      have I: "length (json_body ?r) + (if utf8_runes (drop ?n bs) = None then 1 else 0) \<le> length (json_body (drop ?n bs))"
        using 1 ne False by simp
      have "length (json_body ?r) + (if utf8_runes bs = None then 1 else 0) \<le> length (json_body (drop ?n bs))"
      proof (cases "utf8_runes bs = None")
        case True
        have "utf8_runes (drop ?n bs) = None"
        proof (rule ccontr)
          assume "utf8_runes (drop ?n bs) \<noteq> None"
          then show False using runes_drop [of bs] False True by simp
        qed
        then show ?thesis using I True by simp
      next
        case valid: False
        show ?thesis unfolding if_not_P [OF valid] using add_leD1 [OF I] by simp
      qed
      then show ?thesis unfolding r L W B by (rule order_trans [OF eq_refl add_left_mono, OF add.assoc])
    qed
  qed
qed

lemma length_tl_less: "xs \<noteq> [] \<Longrightarrow> length (tl xs) < length xs"
  by (cases xs) simp_all

lemma repair_bytes_range: "\<forall>b\<in>set bs. b < 256 \<Longrightarrow> \<forall>b\<in>set (repair_bytes bs). b < 256"
proof (induction bs rule: length_induct)
  case (1 bs)
  show ?case
  proof (cases "bs = []")
    case False
    let ?n = "rune_len bs"
    have "\<forall>b\<in>set (tl bs). b < 256" using 1(2) by (cases bs) simp_all
    then have tl: "\<forall>b\<in>set (repair_bytes (tl bs)). b < 256" using 1(1) False by (meson length_tl_less)
    have "\<forall>b\<in>set (drop ?n bs). b < 256" using 1(2) by (auto dest: in_set_dropD)
    then have "\<forall>b\<in>set (repair_bytes (drop ?n bs)). b < 256" if n: "?n \<noteq> 0"
    proof -
      have "length (drop ?n bs) < length bs" using False n by simp
      then show ?thesis using 1(1) \<open>\<forall>b\<in>set (drop ?n bs). b < 256\<close> by blast
    qed
    then show ?thesis using False tl 1(2) by (subst repair_bytes.simps) (auto simp: Let_def dest: in_set_takeD)
  qed (simp add: repair_bytes.simps)
qed

lemma bytes_repair: "bytes (json_repair s) = repair_bytes (bytes s)"
proof -
  have "\<forall>b\<in>set (bytes s). b < 256" by (auto simp: bytes_def of_char_of)
  then have "\<forall>b\<in>set (repair_bytes (bytes s)). b < 256" by (rule repair_bytes_range)
  then show ?thesis by (simp add: json_repair_def bytes_def [of "map _ _"] map_idI)
qed

lemma json_string_repair:
  "length (json_string (json_repair s)) + (if utf8_valid s then 0 else 1) \<le> length (json_string s)"
  using json_body_repair [of "bytes s"] by (cases "utf8_runes (bytes s)") (simp_all add: json_string_def bytes_repair utf8_valid_def)

section \<open>The size of a record read back\<close>

lemma length_json_fields: "fs \<noteq> [] \<Longrightarrow> Suc (length (json_fields fs)) = sum_list (map length fs) + length fs"
  by (induction fs rule: json_fields.induct) simp_all

definition property_size :: "string \<times> string \<Rightarrow> nat" where
  "property_size kv = (case kv of (k, v) \<Rightarrow> length (json_string k) + length (json_string v) + 2)"

lemma length_json_properties: "m \<noteq> [] \<Longrightarrow> length (json_properties m) = 1 + sum_list (map property_size m)"
proof -
  assume m: "m \<noteq> []"
  let ?fs = "map (\<lambda>(k, v). json_string k @ '':'' @ json_string v) m"
  have "sum_list (map length ?fs) + length ?fs = sum_list (map property_size m)"
    by (induction m) (auto simp: property_size_def)
  then have "Suc (length (json_fields ?fs)) = sum_list (map property_size m)" using length_json_fields [of ?fs] m by simp
  then show ?thesis by (simp add: json_properties_def json_object_def comp_def case_prod_unfold)
qed

lemma property_size_mput: "sum_list (map property_size (mput k v m)) \<le> sum_list (map property_size m) + property_size (k, v)"
proof (induction m)
  case (Cons x m)
  then show ?case by (cases x) (auto simp: mput_def)
qed (simp add: mput_def)

lemma property_size_repair: "property_size (json_repair k, json_repair v) \<le> property_size (k, v)"
  using json_string_repair [of k] json_string_repair [of v] by (simp add: property_size_def split: if_splits)

lemma repair_properties_size: "sum_list (map property_size (repair_properties m)) \<le> sum_list (map property_size m)"
proof -
  have "sum_list (map property_size (fold (\<lambda>(k, v) acc. mput (json_repair k) (json_repair v) acc) m acc)) \<le>
      sum_list (map property_size acc) + sum_list (map property_size m)" for acc
  proof (induction m arbitrary: acc)
    case (Cons x m)
    obtain k v where x: "x = (k, v)" by fastforce
    show ?case
      using Cons.IH [of "mput (json_repair k) (json_repair v) acc"] property_size_mput [of "json_repair k" "json_repair v" acc] property_size_repair [of k v]
      by (simp add: x)
  qed simp
  from this [of "[]"] show ?thesis by (simp add: repair_properties_def)
qed

lemma repair_properties_Nil [simp]: "repair_properties m = [] \<longleftrightarrow> m = []"
proof -
  have put: "mput k v acc \<noteq> []" for k v and acc :: "(string, string) gomap" by (cases acc) (auto simp: mput_def)
  have "fold (\<lambda>(k, v) acc. mput (json_repair k) (json_repair v) acc) m acc = [] \<longleftrightarrow> m = [] \<and> acc = []" for acc
    by (induction m arbitrary: acc) (simp_all add: put case_prod_unfold)
  then show ?thesis by (simp add: repair_properties_def)
qed

definition identity_texts :: "Record \<Rightarrow> string list" where
  "identity_texts r = [r_event r, r_topic r, r_key r, r_group r, r_hash r, r_contract r, r_library r]"

definition other_size :: "Record \<Rightarrow> nat" where
  "other_size r = (if r_payload r = [] then 0 else length (json_bytes (r_payload r)) + 11) +
     (if r_properties r = [] then 0 else length (json_properties (r_properties r)) + 14)"

lemma acceptedSize_parts:
  "\<exists>c. \<forall>r. acceptedSize r = int (sum_list (map (\<lambda>s. length (json_string s)) (identity_texts r)) + other_size r + c)"
proof -
  have k: "length (json_string ''payload'') = 9" "length (json_string ''properties'') = 12" by code_simp+
  show ?thesis
    by (rule exI [of _ "length (json_string ''event_id'') + length (json_string ''topic'') + length (json_string ''ordering_key'') + length (json_string ''group'') +
      length (json_string ''hash'') + length (json_string ''hash_contract'') + length (json_string ''library_version'') + 15"])
      (simp add: acceptedSize_def accepted_content_def json_object_def identity_texts_def other_size_def k)
qed

lemma json_texts_repair:
  "sum_list (map (\<lambda>s. length (json_string s)) (map json_repair xs)) + (if list_all utf8_valid xs then 0 else 1) \<le>
   sum_list (map (\<lambda>s. length (json_string s)) xs)"
proof (induction xs)
  case (Cons x xs)
  then show ?case using json_string_repair [of x] by (cases "utf8_valid x"; cases "list_all utf8_valid xs") simp_all
qed simp

lemma acceptedSize_unmarshalled:
  assumes "\<not> list_all utf8_valid (identity_texts r)"
  shows "acceptedSize (unmarshalled r) < acceptedSize r"
proof -
  obtain c where c: "\<And>r. acceptedSize r = int (sum_list (map (\<lambda>s. length (json_string s)) (identity_texts r)) + other_size r + c)"
    using acceptedSize_parts by blast
  have "identity_texts (unmarshalled r) = map json_repair (identity_texts r)" by (simp add: identity_texts_def unmarshalled_def)
  moreover have "other_size (unmarshalled r) \<le> other_size r"
  proof (cases "r_properties r = []")
    case False
    then have "length (json_properties (repair_properties (r_properties r))) \<le> length (json_properties (r_properties r))"
      using repair_properties_size [of "r_properties r"] by (simp add: length_json_properties)
    then show ?thesis using False by (simp add: other_size_def unmarshalled_def)
  qed (simp add: other_size_def unmarshalled_def)
  ultimately show ?thesis using json_texts_repair [of "identity_texts r"] assms unfolding c by simp
qed

section \<open>Loading such a record\<close>

lemma load_loop_refuses:
  assumes "(key, Some r) \<in> set entries" and "validateStoredRecord r \<noteq> None"
  shows "\<exists>e. load_loop lim events now entries l = Inl e"
  using assms(1)
proof (induction entries arbitrary: l)
  case (Cons x entries)
  obtain k v where x: "x = (k, v)" by fastforce
  show ?case
  proof (cases "load_record lim events now k v l")
    case (Inr l1)
    have "\<not> (k = key \<and> v = Some r)" using Inr assms(2) by (auto simp: load_record_def Let_def split: if_splits)
    then show ?thesis using Cons Inr x by auto
  qed (simp add: x)
qed simp

lemma load_refuses:
  assumes "(key, Some r) \<in> set (db_records db)" and "validateStoredRecord r \<noteq> None"
  shows "\<exists>e. load lim False now commit (Some db) = Inl e"
proof -
  have loop: "\<exists>e. load_loop lim ev now (cursor (db_records db)) l = Inl e" for ev l
    by (rule load_loop_refuses [OF _ assms(2)]) (use assms(1) in simp)
  have "\<exists>e. load_existing lim now db = Inl e"
  proof -
    obtain e where "load_loop lim (db_events db) now (cursor (db_records db)) \<lparr>ld_loaded = [], ld_order = [], ld_bytes = 0, ld_max = 0, ld_recovered = []\<rparr> = Inl e"
      using loop by blast
    then show ?thesis by (simp add: load_existing_def split: sum.split)
  qed
  then show ?thesis by (auto simp: load_def)
qed

end
