(* ===== verification/Outbox_Properties.thy ===== *)
theory Outbox_Properties
  imports Outbox_Text
begin

text \<open>
  The properties of the outbox (\<^verbatim>\<open>outbox/outbox.go\<close>) over all its runs.

  The producer rules are the conditions of \<open>outbox_step\<close>: the event id of an accepted record is one that neither the log of event ids nor, from its head
  on, an ordering lane still remembers (\<open>fresh_event\<close>), and the texts of records, assignments and reasons are valid UTF-8. The code checks neither; C27 and C28
  show what happens without them.
\<close>

section \<open>Properties\<close>

text \<open>
  C17. Under the producer rules, the outbox implements a queue of records: in every store a run can reach, each operation that keeps the rules, failed
  transaction and restart either appends new records in sequence order, or lets records advance along the delivery states with
  their content, sequence and size unchanged, or removes records that were published.
\<close>

theorem outbox_refines_queue:
  assumes "outbox_reachable lim s" and "outbox_step s s'"
  shows "queue_step\<^sup>*\<^sup>* [] (queue s) \<and> queue_step (queue s) (queue s')"
  using outbox_reachable_inv [OF assms(1)] outbox_step_ok [OF _ assms(2)] by blast

theorem outbox_refines_queue_witness: "queue_step\<^sup>*\<^sup>* [] (queue demo_assigned) \<and> queue_step (queue demo_assigned) (queue demo_sent)"
  by (rule outbox_refines_queue [OF demo_assigned_reachable demo_send_step])

text \<open>
  C18. Under the producer rules, the walk over the heap of ready lanes is equivalent to a scan of the records in acceptance order: it returns
  the first record of each ordering key when that record is ready, in acceptance order, skipping those whose epoch
  is not the wanted one or whose broker has no slot left, up to the limit.
\<close>

theorem EligibleFor_scans_queue:
  assumes "outbox_reachable lim s" and "st_open s"
  shows "EligibleFor limit epochs slots s = select epochs slots (nat limit) [] (ready_heads (Records s))"
  using outbox_reachable_inv [OF assms(1)] EligibleFor_select [OF _ assms(2)] Records_queue [OF assms(2)]
  by (simp add: outbox_inv_def store_inv_def)

theorem EligibleFor_scans_queue_witness:
  "EligibleFor 5 None (Some [(''x'', 1)]) demo_sent = [demo_ready 3 ''d'' ''m'']"
  unfolding EligibleFor_scans_queue [OF demo_sent_reachable demo_send(2)] Records_queue [OF demo_send(2)] demo_send(1)
  by (simp add: ready_heads_def effectiveOrderingKey_def matches_def mget_or_def)

text \<open>
  C19. Delivery order under the producer rules: a record that is offered for publication is ready, and no earlier record with its ordering
  key is still in the outbox.
\<close>

theorem eligible_respects_order:
  assumes "outbox_reachable lim s" and "r \<in> set (EligibleFor limit epochs slots s)" and "x \<in> set (Records s)"
    and "effectiveOrderingKey x = effectiveOrderingKey r"
  shows "r_state r = StateReady \<and> r \<in> set (Records s) \<and> (x = r \<or> r_sequence r < r_sequence x)"
proof -
  have o: "st_open s" using assms(2) by (auto simp: EligibleFor_def split: if_splits)
  have inv: "index_inv s" using outbox_reachable_inv [OF assms(1)] by (simp add: outbox_inv_def store_inv_def)
  have sub: "set (select epochs slots n used rs) \<subseteq> set rs" for n used rs
    by (induction rs arbitrary: n used) (auto split: if_splits)
  have r: "r \<in> set (ready_heads (queue s))"
    using assms(2) sub unfolding EligibleFor_select [OF inv o] by blast
  let ?lane = "filter (\<lambda>y. effectiveOrderingKey y = effectiveOrderingKey r) (queue s)"
  have h: "r_state r = StateReady" "?lane \<noteq> []" "r = hd ?lane" using r by (auto simp: ready_heads_def lane_heads_member)
  have "sorted_wrt (\<lambda>a b. r_sequence a < r_sequence b) ?lane"
    using inv by (simp add: index_inv_def order_ok_def queue_def sorted_wrt_filter)
  moreover have "x \<in> set ?lane" using assms(3,4) Records_queue [OF o] by simp
  ultimately have "x = r \<or> r_sequence r < r_sequence x" using h(2,3) by (cases ?lane) auto
  moreover have "r \<in> set (queue s)" using h(2,3) hd_in_set [of ?lane] by auto
  ultimately show ?thesis using h(1) Records_queue [OF o] by simp
qed

theorem eligible_respects_order_witness: "r_state (demo_ready 1 ''a'' ''k'') = StateReady \<and> r_sequence (demo_ready 1 ''a'' ''k'') < r_sequence (demo_ready 2 ''b'' ''k'')"
proof -
  have e: "demo_ready 1 ''a'' ''k'' \<in> set (EligibleFor 5 None None demo_assigned)"
    using EligibleFor_select [of demo_assigned 5 None None] outbox_reachable_inv [OF demo_assigned_reachable] demo_assign
    by (simp add: outbox_inv_def store_inv_def ready_heads_def effectiveOrderingKey_def matches_def)
  have x: "demo_ready 2 ''b'' ''k'' \<in> set (Records demo_assigned)" by (simp add: Records_queue demo_assign)
  have "r_event (demo_ready 2 ''b'' ''k'') \<noteq> r_event (demo_ready 1 ''a'' ''k'')" by simp
  then have "demo_ready 2 ''b'' ''k'' \<noteq> demo_ready 1 ''a'' ''k''" by metis
  with eligible_respects_order [OF demo_assigned_reachable e x] show ?thesis by (simp add: effectiveOrderingKey_def)
qed


text \<open>
  C20. Recovery under the producer rules: opening the database of any reachable outbox again succeeds, with the same limits, and gives back
  every record in the same order, with the same content, sequence number and assignment; only a record that was
  being published is now ACK-uncertain. New records continue the sequence numbers.
\<close>

theorem Open_recovers:
  assumes "outbox_reachable (open_limits lim) s" and "path \<noteq> []" and "0 \<le> max_messages lim" and "0 \<le> max_bytes lim"
    and "inspectDatabasePath (oa_inspect a) = Inr False" and "oa_mkdir a" and "oa_bolt a" and "oa_commit a" and "json_time_ok (oa_now a)"
  shows "\<exists>s'. Open a path lim (Some (st_db s)) = Inr s' \<and> st_next s' = st_next s \<and> st_limits s' = open_limits lim \<and>
    Records s' = map (\<lambda>r. if r_state r = StateInEventsA
      then r\<lparr>r_state := StateAckUncertain, r_error := ''publish outcome unknown after outbox recovery; retry may duplicate'', r_updated := oa_now a\<rparr>
      else r) (queue s)"
proof -
  have inv: "outbox_inv s" "st_limits s = open_limits lim" using outbox_reachable_inv [OF assms(1)] by simp_all
  then have s: "store_inv s" "times_ok s" by (simp_all add: outbox_inv_def)
  have l: "int (length (queue s)) \<le> max_messages (open_limits lim)" "st_bytes s \<le> max_bytes (open_limits lim)" "max_bytes (open_limits lim) \<le> max_int64"
    using s(1) unfolding store_inv_def inv(2) by blast+
  obtain s' where s': "load (open_limits lim) False (oa_now a) True (Some (st_db s)) = Inr s'" "queue s' = map (recover (oa_now a)) (queue s)"
      "st_limits s' = open_limits lim" "st_next s' = st_next s" "st_open s'"
    by (rule recovered_store [OF s assms(9) l])
  then have "Open a path lim (Some (st_db s)) = Inr s'" using assms(2-8) by (simp add: Open_def)
  with s' Records_queue [OF s'(5)] show ?thesis by (simp add: recover_def)
qed

definition demo_answers :: open_answers where
  "demo_answers = \<lparr>oa_inspect = PathFile 4096 (Some [CHR 0x00]), oa_mkdir = True, oa_bolt = True, oa_now = 3, oa_commit = True, oa_sync = True\<rparr>"

theorem Open_recovers_witness:
  "\<exists>s'. Open demo_answers ''p'' demo_limits (Some (st_db demo_sent)) = Inr s' \<and>
     map r_state (Records s') = [StateAckUncertain, StateReady, StateReady]"
proof -
  have l: "open_limits demo_limits = demo_limits" by (simp add: open_limits_def demo_limits_def)
  have "trim_left (bytes [CHR 0x00]) = [0]" by (subst trim_left.simps) (simp add: bytes_def space_width_def ascii_space_def)
  then have i: "inspectDatabasePath (oa_inspect demo_answers) = Inr False" by (simp add: demo_answers_def inspectDatabasePath_def)
  have "\<exists>s'. Open demo_answers ''p'' demo_limits (Some (st_db demo_sent)) = Inr s' \<and> st_next s' = st_next demo_sent \<and> st_limits s' = open_limits demo_limits \<and>
      Records s' = map (\<lambda>r. if r_state r = StateInEventsA
      then r\<lparr>r_state := StateAckUncertain, r_error := ''publish outcome unknown after outbox recovery; retry may duplicate'', r_updated := oa_now demo_answers\<rparr>
      else r) (queue demo_sent)"
    by (rule Open_recovers) (simp_all add: l demo_sent_reachable i, simp_all add: demo_limits_def demo_answers_def)
  then show ?thesis by (auto simp: demo_send(1))
qed

text \<open>
  C21. Acceptance under the producer rules: a batch of records with UTF-8 texts and with event ids that the log and the lanes do not remember, at a time
  that JSON can represent, is accepted exactly when its transaction commits and the
  batch is acceptable (valid records, distinct ids not in the outbox, room for its messages and bytes, sequence
  numbers left). Then the whole batch is appended in order, and the accepted records carry consecutive sequence
  numbers; otherwise nothing changes.
\<close>

theorem acceptMany_appends:
  assumes "outbox_reachable lim s" and "st_open s" and "input \<noteq> []" and "json_time_ok now"
    and "\<forall>r\<in>set input. fresh_event s (r_event r) \<and> text_content r" and "acceptMany now commit input s = (res, s')"
  shows "(if commit \<and> acceptable s input
      then res = Inr (accepted_records now (st_next s) input) \<and> Records s' = Records s @ accepted_records now (st_next s) input
      else (\<exists>e. res = Inl e) \<and> s' = s)"
proof -
  have inv: "store_inv s" using outbox_reachable_inv [OF assms(1)] by (simp add: outbox_inv_def)
  have texts: "\<forall>r\<in>set input. text_content r" using assms(5) by blast
  note A = acceptMany_spec(2) [OF inv assms(5,6)]
  have iff: "(\<exists>rs. res = Inr rs) \<longleftrightarrow> commit \<and> acceptable s input"
    using acceptMany_Inr_iff [OF texts assms(4,2,3), of commit] assms(6) by auto
  have "st_open s'" using open_accept [of now commit input s] assms(2,6) by simp
  then have R: "Records s = queue s" "Records s' = queue s'" using assms(2) by (simp_all add: Records_queue)
  show ?thesis
  proof (cases res)
    case (Inl e)
    then show ?thesis using A iff by auto
  next
    case (Inr rs)
    then show ?thesis using A iff R by auto
  qed
qed

theorem acceptMany_appends_witness:
  "fst (acceptMany 0 True demo_input demo_new) = Inr (accepted_records 0 1 demo_input) \<and>
   Records (snd (acceptMany 0 True demo_input demo_new)) = accepted_records 0 1 demo_input"
proof -
  have n: "outbox_reachable demo_limits demo_new"
    by (rule created [of _ 0 None]) (simp_all add: int64_limits_def demo_limits_def max_int64_def load_def demo_new_def)
  have o: "st_open demo_new" "demo_input \<noteq> []" "st_next demo_new = 1" "Records demo_new = []"
    by (simp_all add: demo_new_eq demo_input_def Records_def)
  from acceptMany_appends [OF n o(1,2) _ demo_input_ok prod.collapse [symmetric], of 0 True] show ?thesis
    using demo_acceptable o(3,4) by simp
qed


text \<open>What a broker outcome refers to, and what it means for a record.\<close>

definition awaits :: "Record \<Rightarrow> Completion \<Rightarrow> bool" where
  "awaits r c \<longleftrightarrow> cm_event c = r_event r \<and> cm_attempts c = r_attempts r \<and> cm_epoch c = r_epoch r \<and>
     (case cm_outcome c of CompletionAcknowledged \<Rightarrow> published r | CompletionInvalid n \<Rightarrow> False | _ \<Rightarrow> r_state r = StateInEventsA)"

definition outcome_of :: "gotime \<Rightarrow> Completion list \<Rightarrow> Record \<Rightarrow> Record option" where
  "outcome_of now cs r =
     (case find (awaits r) cs of
        None \<Rightarrow> Some r
      | Some c \<Rightarrow>
          (case cm_outcome c of
             CompletionAcknowledged \<Rightarrow> None
           | CompletionRejected \<Rightarrow> Some (r\<lparr>r_state := StateReady, r_error := cm_reason c, r_updated := now\<rparr>)
           | _ \<Rightarrow> Some (r\<lparr>r_state := StateAckUncertain, r_error := cm_reason c, r_updated := now\<rparr>)))"

definition valid_outcomes :: "Store \<Rightarrow> Completion list \<Rightarrow> bool" where
  "valid_outcomes s cs \<longleftrightarrow> (\<forall>c\<in>set cs. \<forall>r. mget (st_records s) (cm_event c) = Some r \<longrightarrow> cm_attempts c = r_attempts r \<longrightarrow>
     cm_epoch c = r_epoch r \<longrightarrow> (\<forall>n. cm_outcome c \<noteq> CompletionInvalid n))"

lemma complete_loop_valid: "complete_loop now s seen cs = Inr p \<Longrightarrow> valid_outcomes s cs"
proof (induction cs arbitrary: seen p)
  case (Cons c cs)
  let ?rest = "complete_loop now s (cm_event c # seen) cs"
  obtain p' where "?rest = Inr p'"
    using Cons.prems by (auto simp: Let_def split: if_splits option.splits resolution.splits sum.splits)
  moreover have "resolve now c r \<noteq> Invalid" if "mget (st_records s) (cm_event c) = Some r" for r
    using Cons.prems that by (auto simp: Let_def split: if_splits)
  ultimately show ?case using Cons.IH by (auto simp: valid_outcomes_def resolve_def split: if_splits)
qed (simp add: valid_outcomes_def)

lemma complete_loop_distinct: "complete_loop now s seen cs = Inr p \<Longrightarrow> distinct (map cm_event cs) \<and> cm_event ` set cs \<inter> set seen = {}"
proof (induction cs arbitrary: seen p)
  case (Cons c cs)
  obtain p' where "complete_loop now s (cm_event c # seen) cs = Inr p'"
    using Cons.prems by (auto simp: Let_def split: if_splits option.splits resolution.splits sum.splits)
  from Cons.IH [OF this] Cons.prems show ?case by (auto split: if_splits)
qed simp

lemma resolve_awaits:
  assumes "cm_event c = r_event r" and "cm_attempts c = r_attempts r \<Longrightarrow> cm_epoch c = r_epoch r \<Longrightarrow> \<forall>n. cm_outcome c \<noteq> CompletionInvalid n"
  shows "resolve now c r \<noteq> Ignore \<longleftrightarrow> awaits r c"
  using assms by (auto simp: resolve_def awaits_def published_def split: CompletionOutcome.split)

lemma applies_awaits:
  assumes "index_inv s" and "valid_outcomes s cs" and "c \<in> set cs"
  shows "applies now s c \<longleftrightarrow> (\<exists>r\<in>set (queue s). awaits r c)"
proof -
  have ev: "r_event r = cm_event c" if "mget (st_records s) (cm_event c) = Some r" for r
    using assms(1) that by (auto simp: index_inv_def order_ok_def records_ok_def)
  have "resolve now c r \<noteq> Ignore \<longleftrightarrow> awaits r c" if "mget (st_records s) (cm_event c) = Some r" for r
    using assms(2,3) that ev [OF that] by (intro resolve_awaits) (auto simp: valid_outcomes_def)
  moreover have "awaits r c \<Longrightarrow> cm_event c = r_event r" for r by (simp add: awaits_def)
  ultimately show ?thesis unfolding applies_def queue_member [OF assms(1)] Bex_def by (metis ev)
qed

lemma completed_outcome:
  assumes "index_inv s" and "valid_outcomes s cs" and "distinct (map cm_event cs)" and "r \<in> set (queue s)"
  shows "completed now cs r = outcome_of now cs r"
proof -
  have rec: "mget (st_records s) (r_event r) = Some r" using assms(4) queue_member [OF assms(1)] by simp
  show ?thesis
  proof (cases "completion_for cs r")
    case None
    then have "find (awaits r) cs = None" using completion_none by (auto simp: find_None_iff awaits_def)
    then show ?thesis using None by (simp add: completed_def outcome_of_def)
  next
    case (Some c)
    then have c: "c \<in> set cs" "cm_event c = r_event r" using completion_member by blast+
    have only: "x = c" if "x \<in> set cs" "awaits r x" for x
      using completion_unique [OF assms(3) that(1), of r] that(2) Some by (simp add: awaits_def)
    have iff: "resolve now c r \<noteq> Ignore \<longleftrightarrow> awaits r c"
      using assms(2) c rec by (intro resolve_awaits) (auto simp: valid_outcomes_def)
    have f: "find (awaits r) cs = (if awaits r c then Some c else None)"
    proof (cases "awaits r c")
      case True
      then have "find (awaits r) cs \<noteq> None" using c(1) by (auto simp: find_None_iff)
      then obtain x where x: "find (awaits r) cs = Some x" by blast
      then have "x \<in> set cs" "awaits r x" by (auto simp: find_Some_iff)
      with only x True show ?thesis by simp
    next
      case False
      then show ?thesis using only by (auto simp: find_None_iff)
    qed
    show ?thesis
    proof (cases "awaits r c")
      case True
      then have "outcome_of now cs r = (case cm_outcome c of CompletionAcknowledged \<Rightarrow> None
          | CompletionRejected \<Rightarrow> Some (completed_record now StateReady c r) | _ \<Rightarrow> Some (completed_record now StateAckUncertain c r))"
        using f by (simp add: outcome_of_def completed_record_def split: CompletionOutcome.split)
      moreover have "completed now cs r = (case resolve now c r of Delete \<Rightarrow> None | Update r1 \<Rightarrow> Some r1 | _ \<Rightarrow> Some r)"
        using Some by (simp add: completed_def)
      ultimately show ?thesis
        using True by (cases "cm_outcome c") (auto simp: resolve_def awaits_def published_def)
    next
      case False
      then have "resolve now c r = Ignore" using iff by blast
      then show ?thesis using Some f False by (simp add: completed_def outcome_of_def)
    qed
  qed
qed

lemma map_filter_cong: "(\<And>x. x \<in> set xs \<Longrightarrow> f x = g x) \<Longrightarrow> List.map_filter f xs = List.map_filter g xs"
  by (induction xs) (simp_all add: map_filter_simps split: option.split)

text \<open>
  C22. Completions under the producer rules: a batch of broker outcomes with UTF-8 reasons that commits reports exactly the completions whose attempt number and
  epoch are those of a record still awaiting that outcome, removes the acknowledged records, returns the rejected
  ones to ready, marks the uncertain ones, and leaves every other record as it was; in particular a stale completion
  changes nothing.
\<close>

theorem CompleteBatch_applies_matching:
  assumes "outbox_reachable lim s" and "st_open s" and "\<forall>c\<in>set cs. text_completion c" and "CompleteBatch now commit cs s = (Inr applied, s')"
  shows "applied = filter (\<lambda>c. \<exists>r\<in>set (Records s). awaits r c) cs \<and> Records s' = List.map_filter (outcome_of now cs) (Records s)"
proof -
  have inv: "store_inv s" using outbox_reachable_inv [OF assms(1)] by (simp add: outbox_inv_def)
  then have index: "index_inv s" by (simp add: store_inv_def)
  have "st_open s'" using assms(2,4) by (auto simp: CompleteBatch_def open_apply split: if_splits sum.splits)
  then have R: "Records s = queue s" "Records s' = queue s'" using assms(2) by (simp_all add: Records_queue)
  have C: "applied = filter (applies now s) cs" "queue s' = List.map_filter (completed now cs) (queue s)"
    using CompleteBatch_spec(2) [OF inv assms(3,4)] by simp_all
  have loop: "cs = [] \<or> (\<exists>p. complete_loop now s [] cs = Inr p)" using assms(4) by (auto elim: CompleteBatch_cases)
  then have valid: "valid_outcomes s cs" using complete_loop_valid by (auto simp: valid_outcomes_def)
  have dist: "distinct (map cm_event cs)" using loop complete_loop_distinct by auto
  have "applies now s c = (\<exists>r\<in>set (queue s). awaits r c)" if "c \<in> set cs" for c
    using applies_awaits [OF index valid that] by simp
  then have "applied = filter (\<lambda>c. \<exists>r\<in>set (queue s). awaits r c) cs" unfolding C(1) by (intro filter_cong) simp_all
  moreover have "List.map_filter (completed now cs) (queue s) = List.map_filter (outcome_of now cs) (queue s)"
    using completed_outcome [OF index valid dist] by (intro map_filter_cong) simp
  ultimately show ?thesis using R C(2) by simp
qed

definition demo_ack :: "u64 \<Rightarrow> Completion" where
  "demo_ack attempt = \<lparr>cm_event = ''a'', cm_attempts = attempt, cm_epoch = 1, cm_outcome = CompletionAcknowledged, cm_reason = []\<rparr>"

lemma demo_complete: "\<exists>s'. CompleteBatch 3 True [demo_ack 1] demo_sent = (Inr [demo_ack 1], s')"
proof -
  have "index_inv demo_sent" using outbox_reachable_inv [OF demo_sent_reachable] by (simp add: outbox_inv_def store_inv_def)
  then have "mget (st_records demo_sent) ''a'' = Some ((demo_ready 1 ''a'' ''k'')\<lparr>r_state := StateInEventsA, r_attempts := 1, r_updated := 2\<rparr>)"
    using queue_member [of demo_sent "(demo_ready 1 ''a'' ''k'')\<lparr>r_state := StateInEventsA, r_attempts := 1, r_updated := 2\<rparr>"] by (simp add: demo_send(1))
  then show ?thesis using demo_send(2) by (simp add: CompleteBatch_def demo_ack_def resolve_def)
qed

theorem CompleteBatch_applies_matching_witness:
  "\<exists>s'. CompleteBatch 3 True [demo_ack 1] demo_sent = (Inr [demo_ack 1], s') \<and> Records s' = [demo_ready 2 ''b'' ''k'', demo_ready 3 ''d'' ''m'']"
proof -
  obtain s' where run: "CompleteBatch 3 True [demo_ack 1] demo_sent = (Inr [demo_ack 1], s')" using demo_complete by blast
  have "\<forall>c\<in>set [demo_ack 1]. text_completion c" by (simp add: text_completion_def demo_ack_def)
  from CompleteBatch_applies_matching [OF demo_sent_reachable demo_send(2) this run] run show ?thesis
    by (auto simp: Records_queue demo_send map_filter_simps outcome_of_def awaits_def published_def demo_ack_def)
qed

text \<open>
  C23. Failures: an operation that returns an error, whatever the error and whatever the state of the store, has
  changed neither the memory nor the database.
\<close>

theorem failed_operation_changes_nothing:
  assumes "acceptMany now commit input s = (Inl e, t) \<or> assignMany now commit us s = (Some e, t) \<or> markInEventsAMany now commit es s = (Some e, t) \<or>
      markRejectedMany now commit rs s = (Some e, t) \<or> markAckUncertainMany now commit rs s = (Some e, t) \<or> retryAckUncertainMany now commit es s = (Some e, t) \<or>
      CompleteBatch now commit cs s = (Inl e, t) \<or> Ack now commit event attempts epoch s = (Some e, t) \<or> ackMany commit es s = (Some e, t)"
  shows "t = s"
proof -
  have up: "t = s" if "updateMany now commit mutate ids s = (Some e, t)" for mutate ids
    using that by (auto simp: updateMany_def split: if_splits option.splits sum.splits)
  have cb: "t = s" if "CompleteBatch now commit xs s = (Inl e, t)" for xs e
    using that by (auto simp: CompleteBatch_def split: if_splits sum.splits)
  have none: "t = s" if "CompleteBatch now commit xs s = (Inr [], t)" for xs
    using that by (auto simp: CompleteBatch_def split: if_splits sum.splits)
  have one: "length applied \<le> 1" if "CompleteBatch now commit [c] s = (Inr applied, t)" for c applied
    using that by (auto simp: CompleteBatch_def Let_def split: if_splits sum.splits option.splits resolution.splits)
  have ack: "t = s" if a: "Ack now commit event attempts epoch s = (Some e, t)"
  proof -
    let ?c = "\<lparr>cm_event = event, cm_attempts = attempts, cm_epoch = epoch, cm_outcome = CompletionAcknowledged, cm_reason = []\<rparr>"
    show ?thesis
    proof (cases "CompleteBatch now commit [?c] s")
      case (Pair res u)
      show ?thesis
      proof (cases res)
        case (Inl e')
        then show ?thesis using a Pair cb by (simp add: Ack_def)
      next
        case (Inr applied)
        with a Pair have "length applied \<noteq> 1" "u = t" by (simp_all add: Ack_def split: if_splits)
        with one Pair Inr have "applied = []" by (metis le_neq_implies_less less_one length_0_conv)
        then show ?thesis using none Pair Inr \<open>u = t\<close> by blast
      qed
    qed
  qed
  have "t = s" if "acceptMany now commit input s = (Inl e, t)"
    using that by (auto simp: acceptMany_def Let_def split: if_splits option.splits sum.splits prod.splits)
  moreover have "t = s" if "ackMany commit es s = (Some e, t)"
    using that by (auto simp: ackMany_def split: if_splits option.splits sum.splits)
  ultimately show ?thesis
    using assms up cb ack unfolding assignMany_def markInEventsAMany_def markRejectedMany_def markAckUncertainMany_def retryAckUncertainMany_def Let_def case_prod_unfold
    by blast
qed

theorem failed_operation_changes_nothing_witness: "fst (Ack 3 True ''a'' 7 1 demo_sent) = Some ErrInvalidState \<and> snd (Ack 3 True ''a'' 7 1 demo_sent) = demo_sent"
proof -
  have "index_inv demo_sent" using outbox_reachable_inv [OF demo_sent_reachable] by (simp add: outbox_inv_def store_inv_def)
  then have "mget (st_records demo_sent) ''a'' = Some ((demo_ready 1 ''a'' ''k'')\<lparr>r_state := StateInEventsA, r_attempts := 1, r_updated := 2\<rparr>)"
    using queue_member [of demo_sent "(demo_ready 1 ''a'' ''k'')\<lparr>r_state := StateInEventsA, r_attempts := 1, r_updated := 2\<rparr>"] by (simp add: demo_send(1))
  then have "fst (Ack 3 True ''a'' 7 1 demo_sent) = Some ErrInvalidState"
    using demo_send(2) by (simp add: Ack_def CompleteBatch_def resolve_def)
  moreover from this have "Ack 3 True ''a'' 7 1 demo_sent = (Some ErrInvalidState, snd (Ack 3 True ''a'' 7 1 demo_sent))"
    by (metis prod.collapse)
  ultimately show ?thesis using failed_operation_changes_nothing [where t = "snd (Ack 3 True ''a'' 7 1 demo_sent)"] by blast
qed


text \<open>
  C24. Capacity under the producer rules: in every reachable outbox the message and byte counts that it reports are those of its records and
  stay within its limits, every record is valid, its size is that of its content, and its sequence number is below
  the next one to be given out.
\<close>

theorem outbox_within_limits:
  assumes "outbox_reachable lim s" and "st_open s"
  shows "sa_messages (StoreStats s) = int (length (Records s)) \<and> sa_messages (StoreStats s) \<le> max_messages lim \<and>
    sa_bytes (StoreStats s) = sum_list (map acceptedSize (Records s)) \<and> sa_bytes (StoreStats s) \<le> max_bytes lim \<and>
    list_all (\<lambda>r. validateStoredRecord r = None \<and> r_sequence r < st_next s) (Records s) \<and> distinct (map r_event (Records s))"
proof -
  have inv: "store_inv s" "st_limits s = lim" using outbox_reachable_inv [OF assms(1)] by (simp_all add: outbox_inv_def)
  have index: "index_inv s" and oks: "\<forall>r\<in>set (queue s). record_ok r \<and> r_sequence r < st_next s" and total: "st_bytes s = total_size (queue s)"
    and lim: "int (length (queue s)) \<le> max_messages lim" "st_bytes s \<le> max_bytes lim"
    using inv(1) unfolding store_inv_def inv(2) by blast+
  have "map r_size (queue s) = map acceptedSize (queue s)" using oks record_okD(1) by simp
  then have "st_bytes s = sum_list (map acceptedSize (queue s))" using total unfolding total_size_def by (simp only:)
  moreover have "list_all (\<lambda>r. validateStoredRecord r = None \<and> r_sequence r < st_next s) (queue s)"
    using oks by (simp add: list_all_iff record_ok_def)
  ultimately show ?thesis
    using lim queue_events(1,3) [OF index] assms(2) by (simp add: StoreStats_def Records_queue)
qed

theorem outbox_within_limits_witness: "sa_messages (StoreStats demo_sent) = 3 \<and> sa_bytes (StoreStats demo_sent) \<le> 2000"
  using outbox_within_limits [OF demo_sent_reachable demo_send(2)] by (simp add: Records_queue demo_send) (simp add: demo_limits_def)

text \<open>
  C25. No record can get stuck under the producer rules: from every reachable open outbox, whatever states its records are in, there is a run
  of operations after which it is empty and still open.
\<close>

theorem outbox_drainable:
  assumes "outbox_reachable lim s" and "st_open s"
  shows "\<exists>s'. outbox_step\<^sup>*\<^sup>* s s' \<and> st_open s' \<and> Records s' = []"
proof -
  have inv: "outbox_inv s" using outbox_reachable_inv [OF assms(1)] by blast
  obtain s' where s': "outbox_op\<^sup>*\<^sup>* s s'" "queue s' = []" using drain_open [OF inv assms(2)] by blast
  have "outbox_step\<^sup>*\<^sup>* s s' \<and> st_open s'" using s'(1)
    by (induction rule: rtranclp_induct) (auto simp: assms(2) outbox_op_def intro: rtranclp.rtrancl_into_rtrancl)
  with s'(2) show ?thesis by (auto simp: Records_queue)
qed

theorem outbox_drainable_witness: "length (Records demo_sent) = 3 \<and> (\<exists>s'. outbox_step\<^sup>*\<^sup>* demo_sent s' \<and> st_open s' \<and> Records s' = [])"
  using outbox_drainable [OF demo_sent_reachable demo_send(2)] by (simp add: Records_queue demo_send)




section \<open>An event id that is used again\<close>

lemma order_fold: "st_order (fold index_accepted rs s) = st_order s @ map r_event rs" "st_order (fold index_updated rs s) = st_order s"
  "st_order (fold index_deleted rs s) = st_order s"
  by (induction rs arbitrary: s) (simp_all add: index_accepted_frame index_updated_frame index_deleted_frame)

lemma order_update: "st_order (snd (updateMany now commit mutate es s)) = st_order s"
  by (simp add: updateMany_def order_fold split: option.split sum.split)

lemma filter_equal: "distinct xs \<Longrightarrow> x \<in> set xs \<Longrightarrow> filter (\<lambda>e. e = x) xs = [x]"
  by (induction xs) (auto simp: filter_empty_conv)

lemma filter_events: "map r_event (filter (\<lambda>x. r_event x = e) xs) = replicate (length (filter (\<lambda>x. r_event x = e) xs)) e"
  by (induction xs) auto

lemma accept_one:
  assumes "acceptMany now commit [r] s = (Inr rs, s')"
  shows "st_order s' = st_order s @ [r_event r]" and "st_records s' = mput (r_event r) (accepted_record now (st_next s) r) (st_records s)"
    and "rs = [accepted_record now (st_next s) r]"
  using assms
  by (auto simp: acceptMany_def Let_def order_fold finish_accept_def index_accepted_frame
      split: if_splits option.splits sum.splits prod.splits)

text \<open>
  C27. The assumption of unused event ids is needed: the log of event ids keeps the id of a record that has been
  acknowledged until it is compacted. When a record with such an id is accepted, it stands in the list of records
  twice, and an assignment of the unassigned records that the outbox lists is refused as invalid.
\<close>

theorem reused_event_listed_twice:
  assumes "outbox_reachable lim s" and "st_open s" and "r_event r \<in> set (st_order s)" and "mget (st_records s) (r_event r) = None"
    and "r_state r = StateUnset" and "acceptMany now commit [r] s = (Inr rs, s')"
  shows "length (filter (\<lambda>x. r_event x = r_event r) (Unassigned s')) = 2 \<and>
    fst (assignMany now' commit' (map (\<lambda>x. \<lparr>au_event = r_event x, au_assignment = a\<rparr>) (Unassigned s')) s') = Some ErrInvalidRecord"
proof -
  have inv: "index_inv s" using outbox_reachable_inv [OF assms(1)] by (simp add: outbox_inv_def store_inv_def)
  note A = accept_one [OF assms(6)]
  let ?r = "accepted_record now (st_next s) r"
  have st: "r_state ?r = StateUnassigned" using assms(5) by (simp add: accepted_record_def Let_def)
  have o: "st_open s'" using open_accept [of now commit "[r]" s] assms(2,6) by simp
  have recs: "records_ok (st_records s)" "distinct (st_order s)" using inv by (simp_all add: index_inv_def order_ok_def)
  have only: "filter (\<lambda>x. r_event x = r_event r) (live s' es) = map (\<lambda>e. ?r) (filter (\<lambda>e. e = r_event r) es)" for es
    using recs(1) by (induction es) (auto simp: live_Cons A(2) records_ok_def split: option.split)
  have count: "length (filter (\<lambda>e. e = r_event r) (st_order s)) = 1"
    using filter_equal [OF recs(2) assms(3)] by simp
  have unassigned: "Unassigned s' = filter (\<lambda>x. r_state x = StateUnassigned) (live s' (st_order s @ [r_event r]))" using o A(1) by (simp add: Unassigned_def)
  have "filter (\<lambda>x. r_event x = r_event r) (Unassigned s') =
      filter (\<lambda>x. r_state x = StateUnassigned) (map (\<lambda>e. ?r) (filter (\<lambda>e. e = r_event r) (st_order s @ [r_event r])))"
    unfolding unassigned filter_filter only [symmetric] by (simp add: conj_commute)
  also have "length \<dots> = 2" using st count by simp
  finally have two: "length (filter (\<lambda>x. r_event x = r_event r) (Unassigned s')) = 2" .
  have "\<not> distinct (map r_event (Unassigned s'))"
  proof
    assume "distinct (map r_event (Unassigned s'))"
    then have "distinct (map r_event (filter (\<lambda>x. r_event x = r_event r) (Unassigned s')))" by (rule distinct_map_filter)
    moreover have "map r_event (filter (\<lambda>x. r_event x = r_event r) (Unassigned s')) = replicate 2 (r_event r)"
      using filter_events [of "r_event r" "Unassigned s'"] two by simp
    ultimately show False by (simp add: numeral_2_eq_2)
  qed
  then have "validateUniqueEventIDs [] (map r_event (Unassigned s')) \<noteq> None" "Unassigned s' \<noteq> []" by (auto simp: validateUniqueEventIDs_iff)
  moreover have "validateUniqueEventIDs seen es = None \<or> validateUniqueEventIDs seen es = Some ErrInvalidRecord" for seen es
    by (induction es arbitrary: seen) auto
  ultimately have "fst (updateMany now' commit' mutate (map r_event (Unassigned s')) s') = Some ErrInvalidRecord" for mutate
    using o by (metis (no_types, lifting) fst_conv list.map_disc_iff option.simps(5) updateMany_def)
  then show ?thesis using two by (simp add: assignMany_def Let_def comp_def)
qed


lemma deleted_fold [simp]: "st_deleted (fold index_accepted rs s) = st_deleted s" "st_deleted (fold index_updated rs s) = st_deleted s"
  "st_deleted (fold index_deleted rs s) = st_deleted s"
  using index_accepted_frame(1) index_updated_frame(1) index_deleted_frame(1)
  by (induction rs arbitrary: s) (simp_all add: memory_frame_def)

lemma deleted_update: "st_deleted (snd (updateMany now commit mutate es s)) = st_deleted s"
  by (simp add: updateMany_def split: option.split sum.split)

lemma accept_order:
  assumes "acceptMany now commit input s = (Inr rs, s')"
  shows "st_order s' = st_order s @ map r_event rs \<and> st_deleted s' = st_deleted s"
  using assms by (auto simp: acceptMany_def Let_def order_fold finish_accept_def split: if_splits option.splits sum.splits prod.splits)

lemma apply_order:
  assumes "st_deleted s + length (cp_deleted p) < 1024" and "length (st_order s) \<le> 16"
  shows "st_order (apply_completion p s) = st_order s"
  using assms by (simp add: apply_completion_def compactOrderIfNeeded_def Let_def order_fold)

lemma demo_sent_log: "st_order demo_sent = [''a'', ''b'', ''d'']" "st_deleted demo_sent = 0"
proof -
  have "acceptMany 0 True demo_input demo_new = (Inr (accepted_records 0 1 demo_input), demo_accepted)"
    using demo_accept(1) by (metis demo_accepted_def prod.collapse)
  from accept_order [OF this] have "st_order demo_accepted = [''a'', ''b'', ''d'']" "st_deleted demo_accepted = 0"
    by (simp_all add: demo_new_eq demo_input_def)
  then show "st_order demo_sent = [''a'', ''b'', ''d'']" "st_deleted demo_sent = 0"
    by (simp_all add: demo_sent_def demo_assigned_def assignMany_def markInEventsAMany_def Let_def order_update deleted_update)
qed

definition demo_acked :: Store where
  "demo_acked = snd (CompleteBatch 3 True [demo_ack 1] demo_sent)"

lemma demo_acked_facts: "outbox_reachable demo_limits demo_acked" "queue demo_acked = [demo_ready 2 ''b'' ''k'', demo_ready 3 ''d'' ''m'']"
  "st_open demo_acked" "st_order demo_acked = [''a'', ''b'', ''d'']"
proof -
  have text_c: "\<forall>c\<in>set [demo_ack 1]. text_completion c" by (simp add: text_completion_def demo_ack_def)
  have run: "CompleteBatch 3 True [demo_ack 1] demo_sent = (Inr [demo_ack 1], demo_acked)" using demo_complete by (auto simp: demo_acked_def)
  show r: "outbox_reachable demo_limits demo_acked" by (rule stepped [OF demo_sent_reachable complete_step [OF text_c run]])
  have inv: "store_inv demo_sent" using outbox_reachable_inv [OF demo_sent_reachable] by (simp add: outbox_inv_def)
  show "queue demo_acked = [demo_ready 2 ''b'' ''k'', demo_ready 3 ''d'' ''m'']"
    using CompleteBatch_spec(2) [OF inv text_c run]
    by (simp add: demo_send map_filter_simps completed_def completion_for_def demo_ack_def resolve_def)
  show "st_open demo_acked" "st_order demo_acked = [''a'', ''b'', ''d'']"
  proof (atomize (full), rule CompleteBatch_cases [OF run])
    fix p assume p: "complete_loop 3 demo_sent [] [demo_ack 1] = Inr p" "demo_acked = apply_completion p demo_sent"
    have "length (cp_deleted p) \<le> 1"
      using p(1) by (auto simp: Let_def split: if_splits option.splits resolution.splits)
    then show "st_open demo_acked \<and> st_order demo_acked = [''a'', ''b'', ''d'']"
      using apply_order [of demo_sent p] demo_sent_log demo_send(2) p(2) open_apply [of p demo_sent] by simp
  qed (use demo_sent_log demo_send(2) in simp_all)
qed


lemma next_accept: "acceptMany now commit input s = (Inr rs, s') \<Longrightarrow> input \<noteq> [] \<Longrightarrow> st_next s' = st_next s + of_nat (length rs)"
  by (auto simp: acceptMany_def Let_def finish_accept_def split: if_splits option.splits sum.splits prod.splits)

lemma next_fold [simp]: "st_next (fold index_updated rs s) = st_next s" "st_next (fold index_deleted rs s) = st_next s"
  using index_updated_frame(1) index_deleted_frame(1) by (induction rs arbitrary: s) (simp_all add: memory_frame_def)

lemma next_update: "st_next (snd (updateMany now commit mutate es s)) = st_next s"
  by (simp add: updateMany_def split: option.split sum.split)

lemma next_complete: "st_next (snd (CompleteBatch now commit cs s)) = st_next s"
  by (simp add: CompleteBatch_def apply_completion_def compactOrderIfNeeded_def Let_def split: sum.split)

lemma demo_acked_next: "st_next demo_acked = 4"
proof -
  have "acceptMany 0 True demo_input demo_new = (Inr (accepted_records 0 1 demo_input), demo_accepted)"
    using demo_accept(1) by (metis demo_accepted_def prod.collapse)
  from next_accept [OF this] have "st_next demo_accepted = 4" by (simp add: demo_input_def demo_new_eq)
  then show ?thesis
    by (simp add: demo_acked_def demo_sent_def demo_assigned_def assignMany_def markInEventsAMany_def Let_def next_update next_complete)
qed

theorem reused_event_listed_twice_witness:
  "\<exists>s'. fst (acceptMany 3 True [demo_record ''a'' ''k''] demo_acked) = Inr [accepted_record 3 (st_next demo_acked) (demo_record ''a'' ''k'')] \<and>
     s' = snd (acceptMany 3 True [demo_record ''a'' ''k''] demo_acked) \<and> length (filter (\<lambda>x. r_event x = ''a'') (Unassigned s')) = 2"
proof -
  let ?r = "demo_record ''a'' ''k''"
  have inv: "outbox_inv demo_acked" "st_limits demo_acked = demo_limits" using outbox_reachable_inv [OF demo_acked_facts(1)] by simp_all
  have index: "index_inv demo_acked" and bytes: "st_bytes demo_acked = total_size (queue demo_acked)"
    using inv(1) unfolding outbox_inv_def store_inv_def by blast+
  have "''a'' \<notin> dom (mget (st_records demo_acked))"
    unfolding queue_events(2) [OF index, symmetric] demo_acked_facts(2) by simp
  then have none: "mget (st_records demo_acked) ''a'' = None" by (simp only: domIff not_not)
  have "r_size (demo_ready q e k) = acceptedSize (demo_record e k)" for q e k by (simp add: demo_ready_def)
  then have total: "st_bytes demo_acked = 224" using bytes demo_sizes by (simp add: demo_acked_facts(2) total_size_def)
  have "validateNewRecord ?r = None" by (simp add: demo_record_def zero_record_def validateNewRecord_def missing_identity_def)
  moreover have "1 \<le> unat (max_u64 - st_next demo_acked)" unfolding demo_acked_next by (simp add: max_u64_def)
  moreover have "length (st_records demo_acked) = 2" using queue_events(3) [OF index] by (simp add: demo_acked_facts(2))
  ultimately have "acceptable demo_acked [?r]"
    using none total demo_sizes(1) by (simp add: acceptable_def inv(2)) (simp add: demo_limits_def)
  moreover have "\<forall>r\<in>set [?r]. text_content r" using demo_input_ok by (simp add: demo_input_def)
  ultimately obtain rs s' where run: "acceptMany 3 True [?r] demo_acked = (Inr rs, s')"
    using acceptMany_Inr_iff [of "[?r]" 3 demo_acked True] demo_acked_facts(3) by auto
  have "length (filter (\<lambda>x. r_event x = r_event ?r) (Unassigned s')) = 2"
    using reused_event_listed_twice [OF demo_acked_facts(1,3) _ _ _ run] none demo_acked_facts(4) by simp
  then show ?thesis using run accept_one(3) [OF run] by simp
qed


section \<open>Text that is not UTF-8\<close>

text \<open>
  C28. Valid UTF-8 is needed. Every record with a text that is not valid UTF-8 among its event id, topic, ordering key, group, hash, hash contract and
  library version is accepted like any other into every open outbox that has room for it; and after that no \<open>Open\<close> of the database succeeds, at any time, with any
  limits and whatever the file system answers, because the stored record no longer has the size recorded in it.
\<close>

theorem invalid_text_blocks_reopening:
  assumes "st_open s" and "acceptable s [r]" and "json_time_ok now" and "\<not> list_all utf8_valid (identity_texts r)"
  shows "\<exists>s'. acceptMany now True [r] s = (Inr [accepted_record now (st_next s) r], s') \<and>
    (\<forall>a path lim. inspectDatabasePath (oa_inspect a) \<noteq> Inr True \<longrightarrow> (\<exists>e. Open a path lim (Some (st_db s')) = Inl e))"
proof -
  let ?r = "accepted_record now (st_next s) r"
  let ?db = "persist_accepted [(?r, unmarshalled ?r)] (st_next s + 1) (st_bytes s + r_size ?r) (st_db s)"
  have m: "marshal ?r = Some (unmarshalled ?r)" using assms(3) by (simp add: marshal_def accepted_record_def Let_def)
  have size: "r_size ?r = acceptedSize r" by (simp add: accepted_record_def Let_def)
  have loop: "accept_loop now s (st_next s) [] 0 [r] = Inr ([?r], r_size ?r)"
    using assms(2) by (simp add: acceptable_def size Let_def)
  obtain s' where run: "acceptMany now True [r] s = (Inr [?r], s')" and s': "s' = finish_accept (st_next s + 1) (st_bytes s + r_size ?r) (index_accepted ?r (s\<lparr>st_db := ?db\<rparr>))"
    using assms(1,2) loop m by (auto simp: acceptMany_def acceptable_def Let_def)
  have db: "st_db s' = ?db" using index_accepted_frame(1) [of "s\<lparr>st_db := ?db\<rparr>" ?r] by (simp add: s' finish_accept_def memory_frame_def)
  have "(uint64Bytes (st_next s), Some (unmarshalled ?r)) \<in> set (db_records ?db)"
    by (simp add: persist_accepted_def put_metadata_def put_event_def put_record_def accepted_record_def Let_def map_of_SomeD)
  moreover have "validateStoredRecord (unmarshalled ?r) \<noteq> None"
  proof -
    have "identity_texts ?r = identity_texts r" by (simp add: identity_texts_def accepted_record_def Let_def)
    then have "acceptedSize (unmarshalled ?r) < acceptedSize ?r" using acceptedSize_unmarshalled [of ?r] assms(4) by simp
    moreover have "r_size (unmarshalled ?r) = acceptedSize ?r" by (simp add: unmarshalled_def size)
    ultimately show ?thesis by (simp add: validateStoredRecord_def)
  qed
  ultimately have refused: "\<exists>e. load lim False n c (Some (st_db s')) = Inl e" for lim n c unfolding db by (rule load_refuses)
  have "\<exists>e. Open a path lim (Some (st_db s')) = Inl e" if old: "inspectDatabasePath (oa_inspect a) \<noteq> Inr True" for a path lim
  proof (cases "inspectDatabasePath (oa_inspect a)")
    case (Inr new)
    then have "inspectDatabasePath (oa_inspect a) = Inr False" using old by (cases new) simp_all
    moreover obtain e where "load (open_limits lim) False (oa_now a) (oa_commit a) (Some (st_db s')) = Inl e" using refused by blast
    ultimately show ?thesis by (simp add: Open_def)
  qed (simp add: Open_def)
  then show ?thesis using run by blast
qed

definition bad_record :: Record where
  "bad_record = (demo_record ''a'' ''k'')\<lparr>r_topic := [CHR 0xFF]\<rparr>"

theorem invalid_text_blocks_reopening_witness:
  "\<exists>s'. acceptMany 0 True [bad_record] demo_new = (Inr [accepted_record 0 1 bad_record], s') \<and>
     (\<exists>e. Open \<lparr>oa_inspect = PathFile 64 (Some ''data''), oa_mkdir = True, oa_bolt = True, oa_now = 3, oa_commit = True, oa_sync = True\<rparr>
        ''outbox.db'' demo_limits (Some (st_db s')) = Inl e)"
proof -
  let ?a = "\<lparr>oa_inspect = PathFile 64 (Some ''data''), oa_mkdir = True, oa_bolt = True, oa_now = 3, oa_commit = True, oa_sync = True\<rparr>"
  have bad: "\<not> list_all utf8_valid (identity_texts bad_record)" by code_simp
  have size: "acceptedSize bad_record = 117" by code_simp
  have "validateNewRecord bad_record = None" by (simp add: bad_record_def demo_record_def zero_record_def validateNewRecord_def missing_identity_def)
  then have ok: "acceptable demo_new [bad_record]"
    by (simp add: acceptable_def size demo_new_eq demo_limits_def max_u64_def)
  have n: "st_open demo_new" "st_next demo_new = 1" by (simp_all add: demo_new_eq)
  have f: "inspectDatabasePath (oa_inspect ?a) \<noteq> Inr True" by code_simp
  obtain s' where "acceptMany 0 True [bad_record] demo_new = (Inr [accepted_record 0 (st_next demo_new) bad_record], s')"
    "\<forall>a path lim. inspectDatabasePath (oa_inspect a) \<noteq> Inr True \<longrightarrow> (\<exists>e. Open a path lim (Some (st_db s')) = Inl e)"
    using invalid_text_blocks_reopening [OF n(1) ok _ bad, of 0] by (auto simp: json_time_ok_def day_def second_def)
  then show ?thesis using f unfolding n(2) by blast
qed

end
