(* ===== verification/Go_Float.thy ===== *)
theory Go_Float
  imports Complex_Main
begin

text \<open>
  What the program uses of Go's \<open>float64\<close>: IEEE 754 binary64 values, the rounding of exact results
  to the nearest value with ties to even, and the operations \<open>+\<close>, \<open>-\<close>, \<open>/\<close>, the comparisons and
  the built-in \<open>max\<close>. A finite value is a rational number, and \<open>-0\<close> is kept apart from \<open>+0\<close>; a rational is a
  value of the type when rounding leaves it alone (\<open>representable\<close>).
  The lemmas show that rounding is monotone and idempotent.
\<close>

section \<open>Rounding\<close>

definition pow2 :: "int \<Rightarrow> rat" where
  "pow2 k = (if 0 \<le> k then 2 ^ nat k else 1 / 2 ^ nat (- k))"

function bit_length :: "int \<Rightarrow> int" where
  "bit_length n = (if n \<le> 0 then 0 else 1 + bit_length (n div 2))"
  by auto
termination by (relation "measure nat") auto

declare bit_length.simps [simp del]

text \<open>The exponent of a positive rational: \<open>pow2 k \<le> q < pow2 (k + 1)\<close>.\<close>

definition exponent :: "rat \<Rightarrow> int" where
  "exponent q =
     (case quotient_of q of (a, b) \<Rightarrow>
        let k = bit_length a - bit_length b
        in if pow2 k \<le> q then k else k - 1)"

definition round_even :: "rat \<Rightarrow> int" where
  "round_even x =
     (let f = \<lfloor>x\<rfloor>; d = x - of_int f
      in if d < 1 / 2 then f else if 1 / 2 < d then f + 1 else if even f then f else f + 1)"

text \<open>The unit in the last place: 53 significant bits, and no less than the smallest subnormal.\<close>

definition ulp_exponent :: "rat \<Rightarrow> int" where
  "ulp_exponent q = max (- 1074) (exponent q - 52)"

definition round_exact :: "rat \<Rightarrow> rat" where
  "round_exact q =
     (if q \<le> 0 then 0
      else let e = ulp_exponent q in of_int (round_even (q / pow2 e)) * pow2 e)"

text \<open>\<open>None\<close>: the rounded magnitude overflows to infinity.\<close>

definition round_mag :: "rat \<Rightarrow> rat option" where
  "round_mag q = (let v = round_exact q in if pow2 1024 \<le> v then None else Some v)"

section \<open>Values and operations\<close>

datatype float64 =
    NaN
  | Infinite bool
  | NegZero
  | Finite rat

definition float_zero :: float64 where
  "float_zero = Finite 0"

text \<open>The value of a finite number, the sign bit, and the zero of a given sign.\<close>

fun fvalue :: "float64 \<Rightarrow> rat" where
  "fvalue (Finite q) = q"
| "fvalue x = 0"

fun signbit :: "float64 \<Rightarrow> bool" where
  "signbit NaN = False"
| "signbit (Infinite s) = s"
| "signbit NegZero = True"
| "signbit (Finite q) = (q < 0)"

fun finite_value :: "float64 \<Rightarrow> bool" where
  "finite_value NaN = False"
| "finite_value (Infinite s) = False"
| "finite_value x = True"

definition signed_zero :: "bool \<Rightarrow> float64" where
  "signed_zero s = (if s then NegZero else Finite 0)"

definition pack :: "bool \<Rightarrow> rat \<Rightarrow> float64" where
  "pack s q =
     (case round_mag q of
        None \<Rightarrow> Infinite s
      | Some v \<Rightarrow> if v = 0 then signed_zero s else Finite (if s then - v else v))"

definition IsNaN :: "float64 \<Rightarrow> bool" where
  "IsNaN x \<longleftrightarrow> x = NaN"

definition IsInf :: "float64 \<Rightarrow> bool" where
  "IsInf x \<longleftrightarrow> x = Infinite False \<or> x = Infinite True"

definition fadd :: "float64 \<Rightarrow> float64 \<Rightarrow> float64" where
  "fadd x y =
     (if x = NaN \<or> y = NaN then NaN
      else if IsInf x then (if IsInf y \<and> x \<noteq> y then NaN else x)
      else if IsInf y then y
      else let v = fvalue x + fvalue y
           in if v = 0 then signed_zero (signbit x \<and> signbit y) else pack (v < 0) \<bar>v\<bar>)"

fun fneg :: "float64 \<Rightarrow> float64" where
  "fneg NaN = NaN"
| "fneg (Infinite s) = Infinite (\<not> s)"
| "fneg NegZero = Finite 0"
| "fneg (Finite q) = (if q = 0 then NegZero else Finite (- q))"

definition fsub :: "float64 \<Rightarrow> float64 \<Rightarrow> float64" where
  "fsub x y = fadd x (fneg y)"

definition fdiv :: "float64 \<Rightarrow> float64 \<Rightarrow> float64" where
  "fdiv x y =
     (let s = (signbit x \<noteq> signbit y) in
      if x = NaN \<or> y = NaN \<or> IsInf x \<and> IsInf y then NaN
      else if IsInf x then Infinite s
      else if IsInf y then signed_zero s
      else if fvalue y = 0 then (if fvalue x = 0 then NaN else Infinite s)
      else pack s \<bar>fvalue x / fvalue y\<bar>)"

definition flt :: "float64 \<Rightarrow> float64 \<Rightarrow> bool" where
  "flt x y \<longleftrightarrow>
     (if x = NaN \<or> y = NaN \<or> x = y then False
      else if IsInf x then signbit x
      else if IsInf y then \<not> signbit y
      else fvalue x < fvalue y)"

definition feq :: "float64 \<Rightarrow> float64 \<Rightarrow> bool" where
  "feq x y \<longleftrightarrow> x \<noteq> NaN \<and> y \<noteq> NaN \<and> (if IsInf x \<or> IsInf y then x = y else fvalue x = fvalue y)"

definition fle :: "float64 \<Rightarrow> float64 \<Rightarrow> bool" where
  "fle x y \<longleftrightarrow> flt x y \<or> feq x y"

text \<open>The built-in \<open>max\<close>: a NaN argument gives NaN, and \<open>+0\<close> is greater than \<open>-0\<close>.\<close>

definition fmax :: "float64 \<Rightarrow> float64 \<Rightarrow> float64" where
  "fmax x y =
     (if x = NaN \<or> y = NaN then NaN
      else if flt x y then y
      else if flt y x then x
      else if x = NegZero then y else x)"

section \<open>Rounding is monotone and idempotent\<close>

lemma pow2_pos [simp]: "0 < pow2 k"
  by (simp add: pow2_def)

lemma pow2_nonneg [simp]: "0 \<le> pow2 k"
  by (simp add: order.strict_implies_order)

lemma pow2_neq_0 [simp]: "pow2 k \<noteq> 0"
  using pow2_pos [of k] by linarith

lemma pow2_Suc: "pow2 (k + 1) = 2 * pow2 k"
proof -
  consider "0 \<le> k" | "k = - 1" | n where "k = - int (Suc (Suc n))"
  proof (cases "0 \<le> k \<or> k = - 1")
    case False
    then have "k = - int (Suc (Suc (nat (- k - 2))))" by simp
    with that(3) show thesis by blast
  qed (use that in auto)
  then show ?thesis
  proof cases
    case 1
    then show ?thesis by (simp add: pow2_def nat_add_distrib)
  next
    case 2
    then show ?thesis by (simp add: pow2_def)
  next
    case 3
    then have "nat (- k) = Suc (Suc n)" "nat (- (k + 1)) = Suc n" by auto
    with 3 show ?thesis by (simp add: pow2_def)
  qed
qed

lemma pow2_add_nat: "pow2 (k + int n) = 2 ^ n * pow2 k"
proof (induction n)
  case (Suc n)
  then show ?case using pow2_Suc [of "k + int n"] by (simp add: algebra_simps)
qed simp

lemma pow2_add: "0 \<le> d \<Longrightarrow> pow2 (k + d) = 2 ^ nat d * pow2 k"
  using pow2_add_nat [of k "nat d"] by simp

lemma pow2_mono: "k \<le> l \<Longrightarrow> pow2 k \<le> pow2 l"
  using pow2_add [of "l - k" k] mult_right_mono [of 1 "2 ^ nat (l - k)" "pow2 k"] by simp

lemma pow2_less_iff: "pow2 k < pow2 l \<longleftrightarrow> k < l"
proof
  assume "k < l"
  then have "pow2 (k + 1) \<le> pow2 l" by (intro pow2_mono) simp
  moreover have "pow2 k < 2 * pow2 k" by simp
  ultimately show "pow2 k < pow2 l" unfolding pow2_Suc by (rule order.strict_trans2 [rotated])
next
  assume "pow2 k < pow2 l"
  with pow2_mono [of l k] show "k < l" by (meson leD le_less_linear)
qed


lemma pow2_sum: "pow2 (k + l) = pow2 k * pow2 l"
proof (cases "0 \<le> l")
  case True
  then show ?thesis using pow2_add [of l k] by (simp add: pow2_def)
next
  case False
  then have "pow2 k = 2 ^ nat (- l) * pow2 (k + l)" using pow2_add [of "- l" "k + l"] by simp
  moreover have "pow2 l * 2 ^ nat (- l) = 1" using False by (simp add: pow2_def)
  ultimately show ?thesis by (simp add: algebra_simps)
qed

lemma pow2_diff: "pow2 (k - l) = pow2 k / pow2 l"
  using pow2_sum [of "k - l" l] by (simp add: field_simps)

lemma bit_length_bounds: "0 < a \<Longrightarrow> pow2 (bit_length a - 1) \<le> of_int a \<and> of_int a + 1 \<le> pow2 (bit_length a)"
proof (induction a rule: bit_length.induct)
  case (1 a)
  then have len: "bit_length a = bit_length (a div 2) + 1" by (simp add: bit_length.simps [of a])
  show ?case
  proof (cases "0 < a div 2")
    case True
    with 1 have IH: "pow2 (bit_length (a div 2) - 1) \<le> of_int (a div 2)" "of_int (a div 2) + 1 \<le> pow2 (bit_length (a div 2))"
      by simp_all
    have "2 * (a div 2) \<le> a" and "a \<le> 2 * (a div 2) + 1" by simp_all
    then have "(of_int (2 * (a div 2)) :: rat) \<le> of_int a" "(of_int a :: rat) \<le> of_int (2 * (a div 2) + 1)"
      by (simp_all only: of_int_le_iff)
    moreover have "pow2 (bit_length a - 1) = 2 * pow2 (bit_length (a div 2) - 1)"
      using pow2_Suc [of "bit_length (a div 2) - 1"] by (simp add: len)
    moreover have "pow2 (bit_length a) = 2 * pow2 (bit_length (a div 2))" by (simp add: len pow2_Suc)
    ultimately show ?thesis using IH by simp
  next
    case False
    then have "a = 1" using "1.prems" by simp
    then show ?thesis by (simp add: bit_length.simps pow2_def)
  qed
qed

lemma bit_length_pow2:
  assumes "0 < a"
  shows "pow2 (bit_length a - 1) \<le> of_int a" and "of_int a < pow2 (bit_length a)"
  using bit_length_bounds [OF assms] by simp_all

lemma exponent_bounds:
  assumes "0 < q"
  shows "pow2 (exponent q) \<le> q" and "q < pow2 (exponent q + 1)"
proof -
  obtain a b where ab: "quotient_of q = (a, b)" by fastforce
  have b: "0 < b" and q: "q = of_int a / of_int b"
    using quotient_of_denom_pos [OF ab] quotient_of_div [OF ab] by simp_all
  have a: "0 < a" using assms b q by (simp add: zero_less_divide_iff)
  define m n where "m = bit_length a" and "n = bit_length b"
  note num = bit_length_pow2 [OF a, folded m_def] and den = bit_length_pow2 [OF b, folded n_def]
  have exp: "exponent q = (if pow2 (m - n) \<le> q then m - n else m - n - 1)"
    by (simp add: exponent_def ab m_def n_def)
  have "pow2 (m - 1) / pow2 n \<le> q"
    unfolding q using num(1) den(2) a b by (intro frac_le) simp_all
  then have low: "pow2 (m - n - 1) \<le> q" by (simp add: pow2_diff mult.commute)
  have "q < pow2 m / pow2 (n - 1)"
    unfolding q using num(2) den(1) b a by (intro frac_less) simp_all
  then have high: "q < pow2 (m - n + 1)" using pow2_diff [of m "n - 1"] by (simp add: algebra_simps)
  show "pow2 (exponent q) \<le> q" using low by (simp add: exp)
  show "q < pow2 (exponent q + 1)" using high by (simp add: exp)
qed

lemma exponent_unique:
  assumes "pow2 k \<le> q" and "q < pow2 (k + 1)"
  shows "exponent q = k"
proof -
  have "0 < q" using assms(1) pow2_pos [of k] by (rule order.strict_trans2 [rotated])
  note bounds = exponent_bounds [OF this]
  have "pow2 k < pow2 (exponent q + 1)" using assms(1) bounds(2) by simp
  moreover have "pow2 (exponent q) < pow2 (k + 1)" using assms(2) bounds(1) by simp
  ultimately show ?thesis by (simp add: pow2_less_iff)
qed

lemma exponent_mono: "0 < p \<Longrightarrow> p \<le> q \<Longrightarrow> exponent p \<le> exponent q"
proof -
  assume "0 < p" and "p \<le> q"
  then have "pow2 (exponent p) < pow2 (exponent q + 1)"
    using exponent_bounds(1) [of p] exponent_bounds(2) [of q] by linarith
  then show ?thesis by (simp add: pow2_less_iff)
qed

lemma round_even_mono:
  assumes "x \<le> y"
  shows "round_even x \<le> round_even y"
proof (cases "\<lfloor>x\<rfloor> = \<lfloor>y\<rfloor>")
  case True
  with assms show ?thesis by (auto simp: round_even_def Let_def)
next
  case False
  then have "\<lfloor>x\<rfloor> + 1 \<le> \<lfloor>y\<rfloor>" using floor_mono [OF assms] by simp
  moreover have "round_even x \<le> \<lfloor>x\<rfloor> + 1" "\<lfloor>y\<rfloor> \<le> round_even y" by (simp_all add: round_even_def Let_def)
  ultimately show ?thesis by simp
qed

lemma round_even_of_int [simp]: "round_even (of_int z) = z"
  by (simp add: round_even_def)

lemma round_exact_nonneg [simp]: "0 \<le> round_exact q"
proof (cases "q \<le> 0")
  case False
  then have "0 \<le> q / pow2 (ulp_exponent q)" by simp
  from round_even_mono [OF this] have "0 \<le> round_even (q / pow2 (ulp_exponent q))"
    using round_even_of_int [of 0] by simp
  with False show ?thesis by (simp add: round_exact_def Let_def)
qed (simp add: round_exact_def)

text \<open>A magnitude that is a multiple of its unit in the last place is left alone.\<close>

lemma round_exact_multiple:
  assumes "0 < q" and "q = of_int z * pow2 (ulp_exponent q)"
  shows "round_exact q = q"
proof -
  have "q / pow2 (ulp_exponent q) = of_int z" using assms(2) by (metis nonzero_mult_div_cancel_right pow2_neq_0)
  with assms show ?thesis by (simp add: round_exact_def Let_def)
qed

lemma ulp_exponent_mono: "0 < p \<Longrightarrow> p \<le> q \<Longrightarrow> ulp_exponent p \<le> ulp_exponent q"
  using exponent_mono [of p q] by (simp add: ulp_exponent_def)

text \<open>The rounded magnitude stays between the powers of two around the exact one.\<close>

lemma round_exact_bounds:
  assumes "0 < q"
  shows "round_exact q \<le> pow2 (ulp_exponent q + 53)"
    and "- 1074 < ulp_exponent q \<Longrightarrow> pow2 (ulp_exponent q + 52) \<le> round_exact q"
proof -
  define e where "e = ulp_exponent q"
  have rounded: "round_exact q = of_int (round_even (q / pow2 e)) * pow2 e"
    using assms by (simp add: round_exact_def e_def Let_def)
  have "exponent q + 1 \<le> e + 53" by (simp add: e_def ulp_exponent_def)
  then have "q \<le> pow2 (e + 53)" using exponent_bounds(2) [OF assms] pow2_mono by (meson order_less_imp_le order_trans)
  then have "q / pow2 e \<le> of_int (2 ^ 53)" by (simp add: pow2_add divide_le_eq)
  from round_even_mono [OF this] have "round_even (q / pow2 e) \<le> 2 ^ 53" by (simp only: round_even_of_int)
  then have "of_int (round_even (q / pow2 e)) \<le> (of_int (2 ^ 53) :: rat)" by (simp only: of_int_le_iff)
  then have "of_int (round_even (q / pow2 e)) * pow2 e \<le> of_int (2 ^ 53) * pow2 e" by (rule mult_right_mono) simp
  then show "round_exact q \<le> pow2 (ulp_exponent q + 53)" by (simp add: rounded pow2_add flip: e_def)
  assume "- 1074 < ulp_exponent q"
  then have "e + 52 = exponent q" by (simp add: e_def ulp_exponent_def)
  then have "pow2 (e + 52) \<le> q" using exponent_bounds(1) [OF assms] by simp
  then have "of_int (2 ^ 52) \<le> q / pow2 e" by (simp add: pow2_add le_divide_eq)
  from round_even_mono [OF this] have "2 ^ 52 \<le> round_even (q / pow2 e)" by (simp only: round_even_of_int)
  then have "(of_int (2 ^ 52) :: rat) \<le> of_int (round_even (q / pow2 e))" by (simp only: of_int_le_iff)
  then have "of_int (2 ^ 52) * pow2 e \<le> of_int (round_even (q / pow2 e)) * pow2 e" by (rule mult_right_mono) simp
  then show "pow2 (ulp_exponent q + 52) \<le> round_exact q" by (simp add: rounded pow2_add flip: e_def)
qed

lemma round_exact_mono:
  assumes "p \<le> q"
  shows "round_exact p \<le> round_exact q"
proof (cases "0 < p")
  case False
  then have "round_exact p = 0" by (simp add: round_exact_def)
  then show ?thesis by simp
next
  case True
  then have q: "0 < q" using assms by simp
  show ?thesis
  proof (cases "ulp_exponent p = ulp_exponent q")
    case same: True
    have "p / pow2 (ulp_exponent q) \<le> q / pow2 (ulp_exponent q)"
      using assms by (simp add: divide_right_mono)
    from round_even_mono [OF this] True q same show ?thesis
      by (simp add: round_exact_def Let_def mult_right_mono)
  next
    case False
    then have less: "ulp_exponent p + 53 \<le> ulp_exponent q + 52" using ulp_exponent_mono [OF True assms] by simp
    then have "- 1074 < ulp_exponent q" by (auto simp: ulp_exponent_def)
    with round_exact_bounds(1) [OF True] round_exact_bounds(2) [OF q] pow2_mono [OF less]
    show ?thesis by (meson order_trans)
  qed
qed

text \<open>Multiples of \<open>pow2 e\<close> with at most 53 bits are values of the type.\<close>

lemma round_exact_representable:
  assumes "v = of_int z * pow2 e" and "- 1074 \<le> e" and "0 \<le> z" and "z \<le> 2 ^ 53"
  shows "round_exact v = v"
proof (cases "z = 0 \<or> z = 2 ^ 53")
  case True
  then show ?thesis
  proof
    assume "z = 2 ^ 53"
    with assms(1) have v: "v = pow2 (e + 53)" by (simp add: pow2_add)
    then have "exponent v = e + 53" by (intro exponent_unique) (simp_all add: pow2_less_iff)
    then have "ulp_exponent v = e + 1" using assms(2) by (simp add: ulp_exponent_def)
    moreover have "v = of_int (2 ^ 52) * pow2 (e + 1)" by (simp add: v pow2_add)
    ultimately show ?thesis by (intro round_exact_multiple) (simp_all add: v)
  qed (simp add: assms(1) round_exact_def)
next
  case False
  then have v: "0 < v" using assms(1,3) by simp
  have "of_int z < (of_int (2 ^ 53) :: rat)" unfolding of_int_less_iff using False assms(4) by simp
  then have "v < pow2 (e + 53)" by (simp add: assms(1) pow2_add)
  then have "pow2 (exponent v) < pow2 (e + 53)" using exponent_bounds(1) [OF v] by simp
  then have ulp: "0 \<le> e - ulp_exponent v" using assms(2) by (simp add: pow2_less_iff ulp_exponent_def)
  have "v = of_int (z * 2 ^ nat (e - ulp_exponent v)) * pow2 (ulp_exponent v)"
    using pow2_add [OF ulp, of "ulp_exponent v"] by (simp add: assms(1))
  with v show ?thesis by (rule round_exact_multiple)
qed

lemma round_exact_idem [simp]: "round_exact (round_exact q) = round_exact q"
proof (cases "0 < q")
  case True
  define e z where "e = ulp_exponent q" and "z = round_even (q / pow2 e)"
  have v: "round_exact q = of_int z * pow2 e" using True by (simp add: round_exact_def e_def z_def Let_def)
  have "of_int z * pow2 e \<le> of_int (2 ^ 53) * pow2 e"
    using round_exact_bounds(1) [OF True] v by (simp add: pow2_add flip: e_def)
  then have "of_int z \<le> (of_int (2 ^ 53) :: rat)" using pow2_pos [of e] by (simp only: mult_le_cancel_right_pos)
  then have "z \<le> 2 ^ 53" by (simp only: of_int_le_iff)
  moreover have "0 \<le> z" using round_exact_nonneg [of q] pow2_pos [of e] v by (simp add: zero_le_mult_iff not_le)
  moreover have "- 1074 \<le> e" by (simp add: e_def ulp_exponent_def)
  ultimately show ?thesis using round_exact_representable [OF v] by simp
qed (simp add: round_exact_def)

lemma round_mag_Some: "round_mag q = Some v \<longleftrightarrow> v = round_exact q \<and> v < pow2 1024"
  by (auto simp: round_mag_def Let_def)

lemma round_zero [simp]: "round_exact 0 = 0" "round_mag 0 = Some 0"
  by (simp_all add: round_mag_Some round_exact_def)

section \<open>Comparisons with rounded results\<close>

definition representable :: "float64 \<Rightarrow> bool" where
  "representable x = (case x of Finite q \<Rightarrow> round_mag \<bar>q\<bar> = Some \<bar>q\<bar> | _ \<Rightarrow> True)"

lemma representable_simps [simp]:
  "representable NaN" "representable (Infinite s)" "representable NegZero" "representable (Finite 0)"
  by (simp_all add: representable_def round_mag_Some round_exact_def)

lemma representable_signed_zero [simp]: "representable (signed_zero s)"
  by (simp add: signed_zero_def)

lemma representable_pack [simp]: "representable (pack s q)"
  by (auto simp: representable_def pack_def signed_zero_def round_mag_Some split: option.split)

lemma representable_fadd: "representable x \<Longrightarrow> representable y \<Longrightarrow> representable (fadd x y)"
  by (simp add: fadd_def Let_def)

lemma representable_fneg [simp]: "representable x \<Longrightarrow> representable (fneg x)"
  by (cases x) (auto simp: representable_def)

lemma representable_fdiv [simp]: "representable (fdiv x y)"
  by (simp add: fdiv_def Let_def)

text \<open>Rounding a quotient never takes it below a value of the type that it had reached.\<close>

lemma fle_pack:
  assumes "representable t" and "finite_value t" and "fvalue t \<le> q"
  shows "fle t (pack False q)"
proof (cases "round_mag q")
  case None
  then show ?thesis using assms(2) by (cases t) (simp_all add: pack_def fle_def flt_def IsInf_def)
next
  case (Some w)
  then have w: "w = round_exact q" by (simp add: round_mag_Some)
  have "fvalue t \<le> w"
  proof (cases "0 < fvalue t")
    case True
    then obtain v where t: "t = Finite v" "0 < v" by (cases t) auto
    with assms(1) have "v = round_exact v" by (simp add: representable_def round_mag_Some)
    then show ?thesis using round_exact_mono [of v q] assms(3) t w by simp
  next
    case False
    then have "fvalue t \<le> 0" by simp
    then show ?thesis unfolding w by (rule order_trans) simp
  qed
  with Some assms(2) show ?thesis
    by (cases t) (auto simp: pack_def fle_def flt_def feq_def IsInf_def signed_zero_def)
qed

section \<open>Non-negative values\<close>

text \<open>The values a validated measurement gives: neither NaN nor below zero.\<close>

fun fnonneg :: "float64 \<Rightarrow> bool" where
  "fnonneg NaN = False"
| "fnonneg (Infinite s) = (\<not> s)"
| "fnonneg NegZero = True"
| "fnonneg (Finite q) = (0 \<le> q)"

lemma fnonneg_zero [simp]: "fnonneg float_zero" "fnonneg (signed_zero s)"
  by (simp_all add: float_zero_def signed_zero_def)

lemma fnonneg_not_NaN [simp]: "fnonneg x \<Longrightarrow> x \<noteq> NaN"
  by auto

lemma fnonneg_pack [simp]: "fnonneg (pack False q)"
  by (auto simp: pack_def round_mag_Some split: option.split)

lemma fnonneg_fadd: "fnonneg x \<Longrightarrow> fnonneg y \<Longrightarrow> fnonneg (fadd x y)"
  by (cases x; cases y) (auto simp: fadd_def IsInf_def Let_def)

lemma pack_zero [simp]: "pack s 0 = signed_zero s"
  by (simp add: pack_def)

lemma fnonneg_fdiv:
  assumes "fnonneg x" and "y = Finite b" and "0 < b"
  shows "fnonneg (fdiv x y)"
  using assms by (cases x) (auto simp: fdiv_def IsInf_def Let_def)

lemma fnonneg_fmax: "fnonneg x \<Longrightarrow> fnonneg y \<Longrightarrow> fnonneg (fmax x y)"
  by (auto simp: fmax_def)

lemma fle_fmax_iff:
  assumes "fnonneg x" and "fnonneg y"
  shows "fle t (fmax x y) \<longleftrightarrow> fle t x \<or> fle t y"
  using assms by (cases x; cases y; cases t) (auto simp: fmax_def fle_def flt_def feq_def IsInf_def)

end
