(* ===== verification/Policy_Data.thy ===== *)
theory Policy_Data
  imports Go_Prelude Go_Float
begin

text \<open>
  The inputs of the capacity policy (\<^verbatim>\<open>policy/types.go\<close>): measurements, telemetry samples, capacity
  profiles, the broker inventory and the state of a scaling group, with their validation. Go's 64-bit
  \<open>int\<close> is an integer whose sums are wrapped by \<open>int64\<close>; a \<open>float64\<close> is a value of \<open>Go_Float\<close>.
\<close>

section \<open>Errors\<close>

datatype policy_error =
    UnknownCarriesValue string
  | MetricNotFinite string
  | CaptureTimeRequired
  | BrokerSampleIncomplete nat
  | BrokerSampleTime string
  | DuplicateBrokerSample string
  | GroupSampleIncomplete nat
  | GroupSampleTime string string
  | DuplicateGroupSample string string
  | InvalidCapacityLimits
  | ProfileIncomplete nat
  | ProfileInvalid string string policy_error
  | DuplicateProfile string string
  | ErrProfileNotFound string string
  | InvalidBrokerCounts string
  | InvalidHeadroom string
  | InvalidWindows string
  | GroupIDRequired
  | NegativeTransitions string
  | TransitionInFuture string
  | MembershipTooLarge string
  | UnknownMember string string
  | RepeatedMember string string
  | ChoiceNotMember string
  | ChoiceWithoutEvidence string
  | BrokerIncomplete nat
  | DuplicateBroker string
  | RepeatedEligibleGroup string string
  | EvaluationTimeRequired
  | CaptureInFuture
  | DuplicateGroup string
  | TelemetryUnknownBroker string
  | TelemetryUnknownGroup string
  | ProfileIdentityMismatch string
  | PanicGroupMissing
  | InvalidTransitionLimit
  | RestoreTimeRequired
  | LastEvaluationInFuture
  | PressureWithoutEvaluation
  | InvalidPressureWindow
  | TimeNotMonotone

section \<open>Integers\<close>

definition int64 :: "int \<Rightarrow> int" where
  "int64 x = (x + 2 ^ 63) mod 2 ^ 64 - 2 ^ 63"

definition in_int64 :: "int \<Rightarrow> bool" where
  "in_int64 x \<longleftrightarrow> - (2 ^ 63) \<le> x \<and> x < 2 ^ 63"

lemma int64_id [simp]: "in_int64 x \<Longrightarrow> int64 x = x"
  by (simp add: int64_def in_int64_def)

lemma in_int64_int64 [simp]: "in_int64 (int64 x)"
  using pos_mod_bound [of "2 ^ 64" "x + 2 ^ 63"] pos_mod_sign [of "2 ^ 64" "x + 2 ^ 63"]
  by (auto simp: int64_def in_int64_def)

section \<open>Measurements\<close>

record Metric =
  m_known :: bool
  m_value :: float64

definition KnownMetric :: "float64 \<Rightarrow> Metric" where
  "KnownMetric v = \<lparr>m_known = True, m_value = v\<rparr>"

definition UnknownMetric :: Metric where
  "UnknownMetric = \<lparr>m_known = False, m_value = float_zero\<rparr>"

definition metric_validate :: "Metric \<Rightarrow> string \<Rightarrow> policy_error option" where
  "metric_validate m name =
     (if \<not> m_known m then err_if (\<not> feq (m_value m) float_zero) (UnknownCarriesValue name)
      else err_if (IsNaN (m_value m) \<or> IsInf (m_value m) \<or> flt (m_value m) float_zero) (MetricNotFinite name))"

record Resources =
  rs_ingress :: Metric
  rs_egress :: Metric
  rs_spool :: Metric
  rs_connections :: Metric

definition resources_validate :: "Resources \<Rightarrow> string \<Rightarrow> policy_error option" where
  "resources_validate r prefix =
     first_err
       (map (\<lambda>(name, m). metric_validate m (prefix @ '' '' @ name))
          [(''ingress bytes per second'', rs_ingress r), (''egress bytes per second'', rs_egress r),
           (''spool bytes'', rs_spool r), (''connections'', rs_connections r)])"

definition resources_allKnown :: "Resources \<Rightarrow> bool" where
  "resources_allKnown r \<longleftrightarrow>
     m_known (rs_ingress r) \<and> m_known (rs_egress r) \<and> m_known (rs_spool r) \<and> m_known (rs_connections r)"

record Backlog =
  bl_queued :: Metric
  bl_unacked :: Metric

definition backlog_validate :: "Backlog \<Rightarrow> string \<Rightarrow> policy_error option" where
  "backlog_validate b prefix =
     (case metric_validate (bl_queued b) (prefix @ '' queued messages'') of
        Some e \<Rightarrow> Some e
      | None \<Rightarrow> metric_validate (bl_unacked b) (prefix @ '' unacknowledged messages''))"

definition backlog_allKnown :: "Backlog \<Rightarrow> bool" where
  "backlog_allKnown b \<longleftrightarrow> m_known (bl_queued b) \<and> m_known (bl_unacked b)"

section \<open>Telemetry\<close>

record BrokerSample =
  bs_broker :: string
  bs_class :: string
  bs_version :: string
  bs_observed :: gotime
  bs_resources :: Resources

record GroupSample =
  sm_group :: string
  sm_broker :: string
  sm_observed :: gotime
  sm_resources :: Resources
  sm_backlog :: Backlog

record TelemetrySnapshot =
  tel_captured :: gotime
  tel_brokers :: "BrokerSample list"
  tel_groups :: "GroupSample list"

type_synonym groupBrokerKey = "string \<times> string"

fun check_broker_samples :: "gotime \<Rightarrow> nat \<Rightarrow> string list \<Rightarrow> BrokerSample list \<Rightarrow> policy_error option" where
  "check_broker_samples captured i seen [] = None"
| "check_broker_samples captured i seen (s # ss) =
     (if bs_broker s = [] \<or> bs_class s = [] \<or> bs_version s = [] then Some (BrokerSampleIncomplete i)
      else if IsZero (bs_observed s) \<or> captured < bs_observed s then Some (BrokerSampleTime (bs_broker s))
      else if bs_broker s \<in> set seen then Some (DuplicateBrokerSample (bs_broker s))
      else case resources_validate (bs_resources s) (''broker '' @ bs_broker s) of
             Some e \<Rightarrow> Some e
           | None \<Rightarrow> check_broker_samples captured (Suc i) (bs_broker s # seen) ss)"

definition sample_key :: "GroupSample \<Rightarrow> groupBrokerKey" where
  "sample_key s = (sm_group s, sm_broker s)"

definition sample_prefix :: "GroupSample \<Rightarrow> string" where
  "sample_prefix s = ''group '' @ sm_group s @ '' broker '' @ sm_broker s"

fun check_group_samples :: "gotime \<Rightarrow> nat \<Rightarrow> groupBrokerKey list \<Rightarrow> GroupSample list \<Rightarrow> policy_error option" where
  "check_group_samples captured i seen [] = None"
| "check_group_samples captured i seen (s # ss) =
     (if sm_group s = [] \<or> sm_broker s = [] then Some (GroupSampleIncomplete i)
      else if IsZero (sm_observed s) \<or> captured < sm_observed s then Some (GroupSampleTime (sm_group s) (sm_broker s))
      else if sample_key s \<in> set seen then Some (DuplicateGroupSample (sm_group s) (sm_broker s))
      else case resources_validate (sm_resources s) (sample_prefix s) of
             Some e \<Rightarrow> Some e
           | None \<Rightarrow>
               (case backlog_validate (sm_backlog s) (sample_prefix s) of
                  Some e \<Rightarrow> Some e
                | None \<Rightarrow> check_group_samples captured (Suc i) (sample_key s # seen) ss))"

definition telemetry_Validate :: "TelemetrySnapshot \<Rightarrow> policy_error option" where
  "telemetry_Validate s =
     (if IsZero (tel_captured s) then Some CaptureTimeRequired
      else case check_broker_samples (tel_captured s) 0 [] (tel_brokers s) of
             Some e \<Rightarrow> Some e
           | None \<Rightarrow> check_group_samples (tel_captured s) 0 [] (tel_groups s))"

section \<open>Capacity profiles\<close>

record CapacityLimits =
  cl_ingress :: float64
  cl_egress :: float64
  cl_spool :: float64
  cl_connections :: float64

definition limits_validate :: "CapacityLimits \<Rightarrow> policy_error option" where
  "limits_validate l =
     first_err
       (map (\<lambda>v. err_if (IsNaN v \<or> IsInf v \<or> fle v float_zero) InvalidCapacityLimits)
          [cl_ingress l, cl_egress l, cl_spool l, cl_connections l])"

record CapacityProfile =
  cp_class :: string
  cp_version :: string
  cp_limits :: CapacityLimits

type_synonym profileKey = "string \<times> string"
type_synonym ProfileCatalog = "(profileKey, CapacityProfile) gomap"

definition profile_key :: "CapacityProfile \<Rightarrow> profileKey" where
  "profile_key p = (cp_class p, cp_version p)"

fun add_profiles :: "nat \<Rightarrow> ProfileCatalog \<Rightarrow> CapacityProfile list \<Rightarrow> policy_error + ProfileCatalog" where
  "add_profiles i c [] = Inr c"
| "add_profiles i c (p # ps) =
     (if cp_class p = [] \<or> cp_version p = [] then Inl (ProfileIncomplete i)
      else case limits_validate (cp_limits p) of
             Some e \<Rightarrow> Inl (ProfileInvalid (cp_class p) (cp_version p) e)
           | None \<Rightarrow>
               if mget c (profile_key p) \<noteq> None then Inl (DuplicateProfile (cp_class p) (cp_version p))
               else add_profiles (Suc i) (mput (profile_key p) p c) ps)"

definition NewProfileCatalog :: "CapacityProfile list \<Rightarrow> policy_error + ProfileCatalog" where
  "NewProfileCatalog ps = add_profiles 0 [] ps"

definition Lookup :: "ProfileCatalog \<Rightarrow> string \<Rightarrow> string \<Rightarrow> policy_error + CapacityProfile" where
  "Lookup c cls version =
     (case mget c (cls, version) of None \<Rightarrow> Inl (ErrProfileNotFound cls version) | Some p \<Rightarrow> Inr p)"

section \<open>Brokers and groups\<close>

record Broker =
  b_id :: string
  b_class :: string
  b_version :: string
  b_ready :: bool
  b_eligible :: "string list"

definition eligibleFor :: "Broker \<Rightarrow> string \<Rightarrow> bool" where
  "eligibleFor b g \<longleftrightarrow> b_ready b \<and> g \<in> set (b_eligible b)"

record GroupPolicy =
  gp_minimum :: int
  gp_maximum :: int
  gp_warm :: int
  gp_headroom :: float64
  gp_window :: duration
  gp_max_age :: duration
  gp_cooldown :: duration
  gp_max_changes :: int

definition float_one :: float64 where
  "float_one = Finite 1"

definition float_hundred :: float64 where
  "float_hundred = Finite 100"

definition policy_floor :: "GroupPolicy \<Rightarrow> int" where
  "policy_floor p = int64 (gp_minimum p + gp_warm p)"

definition policy_validate :: "GroupPolicy \<Rightarrow> string \<Rightarrow> policy_error option" where
  "policy_validate p g =
     (if gp_minimum p < 1 \<or> gp_maximum p < gp_minimum p \<or> gp_warm p < 0 \<or> gp_maximum p < int64 (gp_minimum p + gp_warm p)
      then Some (InvalidBrokerCounts g)
      else if IsNaN (gp_headroom p) \<or> IsInf (gp_headroom p) \<or> flt (gp_headroom p) float_zero \<or>
              fle float_hundred (gp_headroom p)
      then Some (InvalidHeadroom g)
      else err_if (gp_window p \<le> 0 \<or> gp_max_age p \<le> 0 \<or> gp_cooldown p < 0 \<or> gp_max_changes p < 1) (InvalidWindows g))"

definition saturationThreshold :: "GroupPolicy \<Rightarrow> float64" where
  "saturationThreshold p = fsub float_one (fdiv (gp_headroom p) float_hundred)"

record ScaleInChoice =
  sc_broker :: string
  sc_safe :: bool
  sc_evidence :: string

record GroupState =
  g_id :: string
  g_membership :: "string list"
  g_policy :: GroupPolicy
  g_active :: int
  g_last :: gotime
  g_choice :: "ScaleInChoice option"

fun check_members :: "string \<Rightarrow> (string, Broker) gomap \<Rightarrow> string list \<Rightarrow> string list \<Rightarrow> policy_error option" where
  "check_members g brokers seen [] = None"
| "check_members g brokers seen (b # bs) =
     (if mget brokers b = None then Some (UnknownMember g b)
      else if b \<in> set seen then Some (RepeatedMember g b)
      else check_members g brokers (b # seen) bs)"

definition check_choice :: "GroupState \<Rightarrow> policy_error option" where
  "check_choice g =
     (case g_choice g of
        None \<Rightarrow> None
      | Some c \<Rightarrow>
          if sc_broker c = [] \<or> sc_broker c \<notin> set (g_membership g) then Some (ChoiceNotMember (g_id g))
          else err_if (sc_safe c \<and> sc_evidence c = []) (ChoiceWithoutEvidence (g_id g)))"

definition group_validate :: "GroupState \<Rightarrow> gotime \<Rightarrow> (string, Broker) gomap \<Rightarrow> policy_error option" where
  "group_validate g now brokers =
     first_err
       [err_if (g_id g = []) GroupIDRequired,
        policy_validate (g_policy g) (g_id g),
        err_if (g_active g < 0) (NegativeTransitions (g_id g)),
        err_if (\<not> IsZero (g_last g) \<and> now < g_last g) (TransitionInFuture (g_id g)),
        err_if (gp_maximum (g_policy g) < int (length (g_membership g))) (MembershipTooLarge (g_id g)),
        check_members (g_id g) brokers [] (g_membership g),
        check_choice g]"

fun adjacentDuplicate :: "string list \<Rightarrow> string" where
  "adjacentDuplicate (x # y # zs) = (if y = x then y else adjacentDuplicate (y # zs))"
| "adjacentDuplicate xs = []"

fun add_brokers :: "ProfileCatalog \<Rightarrow> nat \<Rightarrow> (string, Broker) gomap \<Rightarrow> Broker list \<Rightarrow> policy_error + (string, Broker) gomap" where
  "add_brokers c i m [] = Inr m"
| "add_brokers c i m (b # bs) =
     (if b_id b = [] \<or> b_class b = [] \<or> b_version b = [] then Inl (BrokerIncomplete i)
      else if mget m (b_id b) \<noteq> None then Inl (DuplicateBroker (b_id b))
      else case Lookup c (b_class b) (b_version b) of
             Inl e \<Rightarrow> Inl e
           | Inr p \<Rightarrow>
               let groups = sort (b_eligible b) in
               if adjacentDuplicate groups \<noteq> [] then Inl (RepeatedEligibleGroup (b_id b) (adjacentDuplicate groups))
               else add_brokers c (Suc i) (mput (b_id b) (b\<lparr>b_eligible := groups\<rparr>) m) bs)"

definition validateInventory :: "Broker list \<Rightarrow> ProfileCatalog \<Rightarrow> policy_error + (string, Broker) gomap" where
  "validateInventory inventory c = add_brokers c 0 [] inventory"

end
