(* ===== verification/Policy_Aggregate.thy ===== *)
theory Policy_Aggregate
  imports Policy_Data
begin

text \<open>
  One telemetry cycle combined into assessments of brokers and groups
  (\<^verbatim>\<open>policy/aggregate.go\<close>). The loops that collect reasons and sums are folds over a record of
  the variables they update; the panic of \<open>findGroup\<close> is the error \<open>PanicGroupMissing\<close>.
\<close>

section \<open>Data\<close>

text \<open>The last constructor of each enumeration is the zero value of its string type.\<close>

datatype TelemetryState = TelemetryKnown | TelemetryUnknown | TelemetryStale | TelemetryZero

datatype PressureKind = PressureUnknown | PressureNone | PressureBrokerSaturation | PressureDownstreamBacklog | PressureZero

record Utilization =
  ut_ingress :: float64
  ut_egress :: float64
  ut_spool :: float64
  ut_connections :: float64

definition utilization_zero :: Utilization where
  "utilization_zero =
     \<lparr>ut_ingress = float_zero, ut_egress = float_zero, ut_spool = float_zero, ut_connections = float_zero\<rparr>"

definition Peak :: "Utilization \<Rightarrow> float64" where
  "Peak u = fmax (fmax (fmax (ut_ingress u) (ut_egress u)) (ut_spool u)) (ut_connections u)"

definition utilization_max :: "Utilization \<Rightarrow> Utilization \<Rightarrow> Utilization" where
  "utilization_max u v =
     \<lparr>ut_ingress = fmax (ut_ingress u) (ut_ingress v), ut_egress = fmax (ut_egress u) (ut_egress v),
      ut_spool = fmax (ut_spool u) (ut_spool v), ut_connections = fmax (ut_connections u) (ut_connections v)\<rparr>"

record BrokerAssessment =
  ba_broker :: string
  ba_state :: TelemetryState
  ba_reason :: string
  ba_observed :: gotime
  ba_broker_utilization :: Utilization
  ba_grouped :: Utilization
  ba_shared :: Utilization
  ba_groups :: "string list"

definition broker_assessment_zero :: BrokerAssessment where
  "broker_assessment_zero =
     \<lparr>ba_broker = [], ba_state = TelemetryZero, ba_reason = [], ba_observed = time_zero,
      ba_broker_utilization = utilization_zero, ba_grouped = utilization_zero, ba_shared = utilization_zero,
      ba_groups = []\<rparr>"

record GroupAssessment =
  ga_group :: string
  ga_state :: TelemetryState
  ga_reason :: string
  ga_pressure :: PressureKind
  ga_workload :: Utilization
  ga_shared :: Utilization
  ga_queued :: float64
  ga_unacked :: float64
  ga_ready_warm :: int
  ga_warm_shortfall :: int
  ga_sustained :: gotime
  ga_refusal :: string

definition group_assessment_zero :: GroupAssessment where
  "group_assessment_zero =
     \<lparr>ga_group = [], ga_state = TelemetryZero, ga_reason = [], ga_pressure = PressureZero,
      ga_workload = utilization_zero, ga_shared = utilization_zero, ga_queued = float_zero, ga_unacked = float_zero,
      ga_ready_warm = 0, ga_warm_shortfall = 0, ga_sustained = time_zero, ga_refusal = []\<rparr>"

record Aggregation =
  ag_captured :: gotime
  ag_brokers :: "BrokerAssessment list"
  ag_groups :: "GroupAssessment list"

record resourcesValue =
  rv_ingress :: float64
  rv_egress :: float64
  rv_spool :: float64
  rv_connections :: float64

definition resources_zero :: resourcesValue where
  "resources_zero =
     \<lparr>rv_ingress = float_zero, rv_egress = float_zero, rv_spool = float_zero, rv_connections = float_zero\<rparr>"

definition knownResources :: "Resources \<Rightarrow> resourcesValue option" where
  "knownResources r =
     (if \<not> resources_allKnown r then None
      else Some \<lparr>rv_ingress = m_value (rs_ingress r), rv_egress = m_value (rs_egress r),
                 rv_spool = m_value (rs_spool r), rv_connections = m_value (rs_connections r)\<rparr>)"

definition rv_add :: "resourcesValue \<Rightarrow> resourcesValue \<Rightarrow> resourcesValue" where
  "rv_add v w =
     \<lparr>rv_ingress = fadd (rv_ingress v) (rv_ingress w), rv_egress = fadd (rv_egress v) (rv_egress w),
      rv_spool = fadd (rv_spool v) (rv_spool w), rv_connections = fadd (rv_connections v) (rv_connections w)\<rparr>"

definition utilization :: "resourcesValue \<Rightarrow> CapacityLimits \<Rightarrow> Utilization" where
  "utilization v l =
     \<lparr>ut_ingress = fdiv (rv_ingress v) (cl_ingress l), ut_egress = fdiv (rv_egress v) (cl_egress l),
      ut_spool = fdiv (rv_spool v) (cl_spool l), ut_connections = fdiv (rv_connections v) (cl_connections l)\<rparr>"

definition fdivide :: "float64 \<Rightarrow> float64 \<Rightarrow> float64" where
  "fdivide v l = (if feq l float_zero then Infinite False else fdiv v l)"

definition utilizationAcross :: "resourcesValue \<Rightarrow> resourcesValue \<Rightarrow> Utilization" where
  "utilizationAcross v l =
     \<lparr>ut_ingress = fdivide (rv_ingress v) (rv_ingress l), ut_egress = fdivide (rv_egress v) (rv_egress l),
      ut_spool = fdivide (rv_spool v) (rv_spool l), ut_connections = fdivide (rv_connections v) (rv_connections l)\<rparr>"

definition limitsValue :: "CapacityLimits \<Rightarrow> resourcesValue" where
  "limitsValue l =
     \<lparr>rv_ingress = cl_ingress l, rv_egress = cl_egress l, rv_spool = cl_spool l, rv_connections = cl_connections l\<rparr>"

definition limits_zero :: CapacityLimits where
  "limits_zero =
     \<lparr>cl_ingress = float_zero, cl_egress = float_zero, cl_spool = float_zero, cl_connections = float_zero\<rparr>"

definition broker_zero :: Broker where
  "broker_zero = \<lparr>b_id = [], b_class = [], b_version = [], b_ready = False, b_eligible = []\<rparr>"

record aggregationContext =
  cx_now :: gotime
  cx_catalog :: ProfileCatalog
  cx_brokers :: "(string, Broker) gomap"
  cx_groups :: "GroupState list"
  cx_broker_samples :: "(string, BrokerSample) gomap"
  cx_group_samples :: "(groupBrokerKey, GroupSample) gomap"
  cx_memberships :: "(string, string list) gomap"

text \<open>\<open>strings.Join\<close>\<close>

fun join :: "string \<Rightarrow> string list \<Rightarrow> string" where
  "join sep [] = []"
| "join sep [x] = x"
| "join sep (x # y # zs) = x @ sep @ join sep (y # zs)"

section \<open>Brokers\<close>

text \<open>A loop over the groups that keeps the smallest age; zero means that no group was found yet.\<close>

definition shorter_age :: "string \<Rightarrow> duration \<Rightarrow> GroupState \<Rightarrow> duration" where
  "shorter_age b age g =
     (if b \<in> set (g_membership g) \<and> (age = 0 \<or> gp_max_age (g_policy g) < age) then gp_max_age (g_policy g) else age)"

definition maxTelemetryAgeForBroker :: "string \<Rightarrow> GroupState list \<Rightarrow> duration" where
  "maxTelemetryAgeForBroker b gs = (let age = foldl (shorter_age b) 0 gs in if age = 0 then max_duration else age)"

fun findGroup :: "GroupState list \<Rightarrow> string \<Rightarrow> GroupState option" where
  "findGroup [] i = None"
| "findGroup (g # gs) i = (if g_id g = i then Some g else findGroup gs i)"

text \<open>The profile of an inventory broker; a missing one is the zero profile.\<close>

definition profile_limits :: "aggregationContext \<Rightarrow> string \<Rightarrow> CapacityLimits" where
  "profile_limits c b =
     (let br = mget_or (cx_brokers c) b broker_zero
      in case Lookup (cx_catalog c) (b_class br) (b_version br) of Inl e \<Rightarrow> limits_zero | Inr p \<Rightarrow> cp_limits p)"

record broker_scan =
  sb_observed :: gotime
  sb_stale :: "string list"
  sb_unknown :: "string list"
  sb_grouped :: resourcesValue

definition scan_group :: "aggregationContext \<Rightarrow> string \<Rightarrow> string \<Rightarrow> broker_scan \<Rightarrow> policy_error + broker_scan" where
  "scan_group c b i st =
     (case findGroup (cx_groups c) i of
        None \<Rightarrow> Inl PanicGroupMissing
      | Some g \<Rightarrow>
          (case mget (cx_group_samples c) (i, b) of
             None \<Rightarrow> Inr (st\<lparr>sb_unknown := sb_unknown st @ [''group '' @ i @ '' sample'']\<rparr>)
           | Some s \<Rightarrow>
               let st = (if sm_observed s < sb_observed st then st\<lparr>sb_observed := sm_observed s\<rparr> else st);
                   st = (if gp_max_age (g_policy g) < time_sub (cx_now c) (sm_observed s)
                         then st\<lparr>sb_stale := sb_stale st @ [''group '' @ i @ '' sample'']\<rparr> else st)
               in case knownResources (sm_resources s) of
                    None \<Rightarrow> Inr (st\<lparr>sb_unknown := sb_unknown st @ [''group '' @ i @ '' resources'']\<rparr>)
                  | Some v \<Rightarrow> Inr (st\<lparr>sb_grouped := rv_add (sb_grouped st) v\<rparr>)))"

fun scan_groups :: "aggregationContext \<Rightarrow> string \<Rightarrow> string list \<Rightarrow> broker_scan \<Rightarrow> policy_error + broker_scan" where
  "scan_groups c b [] st = Inr st"
| "scan_groups c b (i # is) st =
     (case scan_group c b i st of Inl e \<Rightarrow> Inl e | Inr st' \<Rightarrow> scan_groups c b is st')"

definition scan_start :: "aggregationContext \<Rightarrow> string \<Rightarrow> BrokerSample \<Rightarrow> broker_scan" where
  "scan_start c b s =
     \<lparr>sb_observed = bs_observed s,
      sb_stale = (if maxTelemetryAgeForBroker b (cx_groups c) < time_sub (cx_now c) (bs_observed s)
                  then [''broker sample''] else []),
      sb_unknown = (if knownResources (bs_resources s) = None then [''broker resources''] else []),
      sb_grouped = resources_zero\<rparr>"

definition known_or_zero :: "Resources \<Rightarrow> resourcesValue" where
  "known_or_zero r = (case knownResources r of None \<Rightarrow> resources_zero | Some v \<Rightarrow> v)"

definition conclude_broker :: "CapacityLimits \<Rightarrow> BrokerSample \<Rightarrow> broker_scan \<Rightarrow> BrokerAssessment \<Rightarrow> BrokerAssessment" where
  "conclude_broker limits s st a =
     (let a = a\<lparr>ba_observed := sb_observed st\<rparr> in
      if sb_stale st \<noteq> [] then a\<lparr>ba_state := TelemetryStale, ba_reason := join '', '' (sb_stale st)\<rparr>
      else if sb_unknown st \<noteq> [] then a\<lparr>ba_state := TelemetryUnknown, ba_reason := join '', '' (sb_unknown st)\<rparr>
      else let u = utilization (known_or_zero (bs_resources s)) limits;
               v = utilization (sb_grouped st) limits
           in a\<lparr>ba_broker_utilization := u, ba_grouped := v, ba_shared := utilization_max u v\<rparr>)"

definition assessBroker :: "aggregationContext \<Rightarrow> string \<Rightarrow> policy_error + BrokerAssessment" where
  "assessBroker c b =
     (let a = broker_assessment_zero\<lparr>ba_broker := b, ba_state := TelemetryKnown, ba_groups := mget_or (cx_memberships c) b []\<rparr>
      in case mget (cx_broker_samples c) b of
           None \<Rightarrow> Inr (a\<lparr>ba_state := TelemetryUnknown, ba_reason := ''missing broker sample''\<rparr>)
         | Some s \<Rightarrow>
             (case scan_groups c b (mget_or (cx_memberships c) b []) (scan_start c b s) of
                Inl e \<Rightarrow> Inl e
              | Inr st \<Rightarrow> Inr (conclude_broker (profile_limits c b) s st a)))"

section \<open>Groups\<close>

record group_scan =
  sg_demand :: resourcesValue
  sg_capacity :: resourcesValue
  sg_stale :: "string list"
  sg_unknown :: "string list"
  sg_shared :: Utilization
  sg_queued :: float64
  sg_unacked :: float64

definition scan_sample :: "aggregationContext \<Rightarrow> GroupState \<Rightarrow> string \<Rightarrow> GroupSample \<Rightarrow> group_scan \<Rightarrow> group_scan" where
  "scan_sample c g b s st =
     (let st = (if gp_max_age (g_policy g) < time_sub (cx_now c) (sm_observed s)
                then st\<lparr>sg_stale := sg_stale st @ [''stale group sample for broker '' @ b]\<rparr> else st);
          st = (case knownResources (sm_resources s) of
                  None \<Rightarrow> st\<lparr>sg_unknown := sg_unknown st @ [''unknown group resources for broker '' @ b]\<rparr>
                | Some v \<Rightarrow> st\<lparr>sg_demand := rv_add (sg_demand st) v\<rparr>)
      in if \<not> backlog_allKnown (sm_backlog s)
         then st\<lparr>sg_unknown := sg_unknown st @ [''unknown backlog for broker '' @ b]\<rparr>
         else st\<lparr>sg_queued := fadd (sg_queued st) (m_value (bl_queued (sm_backlog s))),
                 sg_unacked := fadd (sg_unacked st) (m_value (bl_unacked (sm_backlog s)))\<rparr>)"

definition scan_member ::
  "aggregationContext \<Rightarrow> (string, BrokerAssessment) gomap \<Rightarrow> GroupState \<Rightarrow> group_scan \<Rightarrow> string \<Rightarrow> group_scan" where
  "scan_member c as g st b =
     (let a = mget_or as b broker_assessment_zero;
          st = (case ba_state a of
                  TelemetryStale \<Rightarrow> st\<lparr>sg_stale := sg_stale st @ [''broker '' @ b @ '': '' @ ba_reason a]\<rparr>
                | TelemetryUnknown \<Rightarrow> st\<lparr>sg_unknown := sg_unknown st @ [''broker '' @ b @ '': '' @ ba_reason a]\<rparr>
                | _ \<Rightarrow> st);
          st = st\<lparr>sg_shared := utilization_max (sg_shared st) (ba_shared a),
                  sg_capacity := rv_add (sg_capacity st) (limitsValue (profile_limits c b))\<rparr>
      in case mget (cx_group_samples c) (g_id g, b) of
           None \<Rightarrow> st\<lparr>sg_unknown := sg_unknown st @ [''missing group sample for broker '' @ b]\<rparr>
         | Some s \<Rightarrow> scan_sample c g b s st)"

definition group_scan_start :: "GroupState \<Rightarrow> group_scan" where
  "group_scan_start g =
     \<lparr>sg_demand = resources_zero, sg_capacity = resources_zero, sg_stale = [],
      sg_unknown = (if g_membership g = [] then [''group membership is empty''] else []),
      sg_shared = utilization_zero, sg_queued = float_zero, sg_unacked = float_zero\<rparr>"

definition ready_warm :: "aggregationContext \<Rightarrow> GroupState \<Rightarrow> int" where
  "ready_warm c g =
     int (length (filter (\<lambda>(i, b). b_id b \<notin> set (g_membership g) \<and> eligibleFor b (g_id g)) (cx_brokers c)))"

definition conclude_group :: "GroupState \<Rightarrow> group_scan \<Rightarrow> GroupAssessment \<Rightarrow> GroupAssessment" where
  "conclude_group g st a =
     (if sg_stale st \<noteq> [] then
        a\<lparr>ga_state := TelemetryStale, ga_pressure := PressureUnknown, ga_reason := join ''; '' (sg_stale st)\<rparr>
      else if sg_unknown st \<noteq> [] then
        a\<lparr>ga_state := TelemetryUnknown, ga_pressure := PressureUnknown, ga_reason := join ''; '' (sg_unknown st)\<rparr>
      else let a = a\<lparr>ga_workload := utilizationAcross (sg_demand st) (sg_capacity st)\<rparr> in
        if fle (saturationThreshold (g_policy g)) (Peak (ga_shared a)) then a\<lparr>ga_pressure := PressureBrokerSaturation\<rparr>
        else if flt float_zero (ga_queued a) \<or> flt float_zero (ga_unacked a)
        then a\<lparr>ga_pressure := PressureDownstreamBacklog\<rparr>
        else a)"

definition assessGroup :: "aggregationContext \<Rightarrow> GroupState \<Rightarrow> (string, BrokerAssessment) gomap \<Rightarrow> GroupAssessment" where
  "assessGroup c g as =
     (let st = foldl (scan_member c as g) (group_scan_start g) (g_membership g);
          warm = ready_warm c g
      in conclude_group g st
           (group_assessment_zero\<lparr>ga_group := g_id g, ga_state := TelemetryKnown, ga_pressure := PressureNone,
              ga_shared := sg_shared st, ga_queued := sg_queued st, ga_unacked := sg_unacked st,
              ga_ready_warm := warm, ga_warm_shortfall := max 0 (int64 (gp_warm (g_policy g) - warm))\<rparr>))"

section \<open>The cycle\<close>

definition add_membership :: "string \<Rightarrow> (string, string list) gomap \<Rightarrow> string \<Rightarrow> (string, string list) gomap" where
  "add_membership i m b = mput b (mget_or m b [] @ [i]) m"

fun validate_groups ::
  "gotime \<Rightarrow> (string, Broker) gomap \<Rightarrow> string list \<Rightarrow> (string, string list) gomap \<Rightarrow> GroupState list \<Rightarrow>
   policy_error + (string, string list) gomap" where
  "validate_groups now brokers seen m [] = Inr m"
| "validate_groups now brokers seen m (g # gs) =
     (if g_id g \<in> set seen then Inl (DuplicateGroup (g_id g))
      else case group_validate g now brokers of
             Some e \<Rightarrow> Inl e
           | None \<Rightarrow> validate_groups now brokers (g_id g # seen) (foldl (add_membership (g_id g)) m (g_membership g)) gs)"

fun index_broker_samples ::
  "(string, Broker) gomap \<Rightarrow> (string, BrokerSample) gomap \<Rightarrow> BrokerSample list \<Rightarrow>
   policy_error + (string, BrokerSample) gomap" where
  "index_broker_samples brokers m [] = Inr m"
| "index_broker_samples brokers m (s # ss) =
     (case mget brokers (bs_broker s) of
        None \<Rightarrow> Inl (TelemetryUnknownBroker (bs_broker s))
      | Some b \<Rightarrow>
          if bs_class s \<noteq> b_class b \<or> bs_version s \<noteq> b_version b then Inl (ProfileIdentityMismatch (bs_broker s))
          else index_broker_samples brokers (mput (bs_broker s) s m) ss)"

fun index_group_samples ::
  "(string, Broker) gomap \<Rightarrow> string list \<Rightarrow> (groupBrokerKey, GroupSample) gomap \<Rightarrow> GroupSample list \<Rightarrow>
   policy_error + (groupBrokerKey, GroupSample) gomap" where
  "index_group_samples brokers groups m [] = Inr m"
| "index_group_samples brokers groups m (s # ss) =
     (if sm_group s \<notin> set groups then Inl (TelemetryUnknownGroup (sm_group s))
      else if mget brokers (sm_broker s) = None then Inl (TelemetryUnknownBroker (sm_broker s))
      else index_group_samples brokers groups (mput (sample_key s) s m) ss)"

fun assess_brokers :: "aggregationContext \<Rightarrow> string list \<Rightarrow> policy_error + BrokerAssessment list" where
  "assess_brokers c [] = Inr []"
| "assess_brokers c (b # bs) =
     (case assessBroker c b of
        Inl e \<Rightarrow> Inl e
      | Inr a \<Rightarrow> (case assess_brokers c bs of Inl e \<Rightarrow> Inl e | Inr as \<Rightarrow> Inr (a # as)))"

definition assessments_by_broker :: "BrokerAssessment list \<Rightarrow> (string, BrokerAssessment) gomap" where
  "assessments_by_broker as = foldl (\<lambda>m a. mput (ba_broker a) a m) [] as"

definition aggregate_context ::
  "gotime \<Rightarrow> TelemetrySnapshot \<Rightarrow> ProfileCatalog \<Rightarrow> Broker list \<Rightarrow> GroupState list \<Rightarrow> policy_error + aggregationContext" where
  "aggregate_context now t c inventory groups =
     (if IsZero now then Inl EvaluationTimeRequired
      else if now < tel_captured t then Inl CaptureInFuture
      else case telemetry_Validate t of
             Some e \<Rightarrow> Inl e
           | None \<Rightarrow>
     (case validateInventory inventory c of
        Inl e \<Rightarrow> Inl e
      | Inr brokers \<Rightarrow>
     (case validate_groups now brokers [] [] groups of
        Inl e \<Rightarrow> Inl e
      | Inr memberships \<Rightarrow>
     (case index_broker_samples brokers [] (tel_brokers t) of
        Inl e \<Rightarrow> Inl e
      | Inr broker_samples \<Rightarrow>
     (case index_group_samples brokers (map g_id groups) [] (tel_groups t) of
        Inl e \<Rightarrow> Inl e
      | Inr group_samples \<Rightarrow>
          Inr \<lparr>cx_now = now, cx_catalog = c, cx_brokers = brokers, cx_groups = groups,
               cx_broker_samples = broker_samples, cx_group_samples = group_samples,
               cx_memberships = map (\<lambda>(b, is). (b, sort is)) memberships\<rparr>)))))"

definition Aggregate ::
  "gotime \<Rightarrow> TelemetrySnapshot \<Rightarrow> ProfileCatalog \<Rightarrow> Broker list \<Rightarrow> GroupState list \<Rightarrow> policy_error + Aggregation" where
  "Aggregate now t c inventory groups =
     (case aggregate_context now t c inventory groups of
        Inl e \<Rightarrow> Inl e
      | Inr cx \<Rightarrow>
          (case assess_brokers cx (sort (map fst (cx_brokers cx))) of
             Inl e \<Rightarrow> Inl e
           | Inr as \<Rightarrow>
               Inr \<lparr>ag_captured = tel_captured t, ag_brokers = as,
                    ag_groups = map (\<lambda>g. assessGroup cx g (assessments_by_broker as)) (sort_key g_id groups)\<rparr>))"

end
