(* ===== verification/Policy_Engine.thy ===== *)
theory Policy_Engine
  imports Policy_Aggregate
begin

text \<open>
  The decision engine of the capacity policy (\<^verbatim>\<open>policy/engine.go\<close>): the sustained-pressure windows
  it keeps, the recommendation for one group, and the cycle that admits recommendations within the
  global bound. The engine is the receiver of the methods, never nil.
\<close>

section \<open>Data\<close>

datatype Action = ActionNone | ActionScaleOut | ActionScaleIn

record Recommendation =
  rc_group :: string
  rc_action :: Action
  rc_broker :: string
  rc_current :: "string list"
  rc_proposed :: "string list"
  rc_pressure :: PressureKind
  rc_telemetry :: TelemetryState
  rc_reason :: string
  rc_evidence :: string

record Decision =
  dc_at :: gotime
  dc_aggregation :: Aggregation
  dc_groups :: "Recommendation list"
  dc_transitions :: "Recommendation list"

record Engine =
  en_catalog :: ProfileCatalog
  en_max_transitions :: int
  en_pressure :: "(string, gotime) gomap"
  en_last :: gotime

record EngineState =
  es_last :: gotime
  es_pressure :: "(string, gotime) gomap"

section \<open>Creation and persistence\<close>

definition NewEngine :: "ProfileCatalog \<Rightarrow> int \<Rightarrow> policy_error + Engine" where
  "NewEngine c max_transitions =
     (if max_transitions < 1 then Inl InvalidTransitionLimit
      else Inr \<lparr>en_catalog = c, en_max_transitions = max_transitions, en_pressure = [], en_last = time_zero\<rparr>)"

definition engine_State :: "Engine \<Rightarrow> EngineState" where
  "engine_State e = \<lparr>es_last = en_last e, es_pressure = foldl (\<lambda>m (g, t). mput g t m) [] (en_pressure e)\<rparr>"

fun restore_pressure :: "gotime \<Rightarrow> (string, gotime) gomap \<Rightarrow> (string, gotime) gomap \<Rightarrow> policy_error + (string, gotime) gomap" where
  "restore_pressure prev m [] = Inr m"
| "restore_pressure prev m ((g, since) # rest) =
     (if g = [] \<or> IsZero since \<or> prev < since then Inl InvalidPressureWindow
      else restore_pressure prev (mput g since m) rest)"

definition RestoreState :: "EngineState \<Rightarrow> gotime \<Rightarrow> Engine \<Rightarrow> policy_error option \<times> Engine" where
  "RestoreState s now e =
     (if IsZero now then (Some RestoreTimeRequired, e)
      else if \<not> IsZero (es_last s) \<and> now < es_last s then (Some LastEvaluationInFuture, e)
      else if IsZero (es_last s) \<and> es_pressure s \<noteq> [] then (Some PressureWithoutEvaluation, e)
      else case restore_pressure (es_last s) [] (es_pressure s) of
             Inl err \<Rightarrow> (Some err, e)
           | Inr m \<Rightarrow> (None, e\<lparr>en_last := es_last s, en_pressure := m\<rparr>))"

section \<open>The recommendation for one group\<close>

definition recommendation_for :: "GroupState \<Rightarrow> GroupAssessment \<Rightarrow> Recommendation" where
  "recommendation_for g a =
     \<lparr>rc_group = g_id g, rc_action = ActionNone, rc_broker = [], rc_current = g_membership g, rc_proposed = [],
      rc_pressure = ga_pressure a, rc_telemetry = ga_state a, rc_reason = [], rc_evidence = []\<rparr>"

text \<open>
  The code allocates the result with one place less than the membership has, which would panic for an empty membership; it is called with a
  chosen broker only, and validation has checked that this broker is a member.
\<close>

definition removeBroker :: "string list \<Rightarrow> string \<Rightarrow> string list" where
  "removeBroker membership b = filter (\<lambda>i. i \<noteq> b) membership"

definition scaleOut :: "GroupState \<Rightarrow> GroupAssessment \<Rightarrow> Broker list \<Rightarrow> string \<Rightarrow> Recommendation \<times> bool" where
  "scaleOut g a inventory reason =
     (let r = recommendation_for g a in
      if gp_maximum (g_policy g) \<le> int (length (g_membership g)) then
        (r\<lparr>rc_reason := ''maximum broker count is reached''\<rparr>, False)
      else case sort (map b_id (filter (\<lambda>b. b_id b \<notin> set (g_membership g) \<and> eligibleFor b (g_id g)) inventory)) of
             [] \<Rightarrow> (r\<lparr>rc_reason := ''no ready broker satisfies the group's feature placement constraints''\<rparr>, False)
           | b # bs \<Rightarrow>
               (r\<lparr>rc_action := ActionScaleOut, rc_broker := b, rc_proposed := g_membership g @ [b], rc_reason := reason\<rparr>,
                True))"

definition scaleIn :: "GroupState \<Rightarrow> GroupAssessment \<Rightarrow> Recommendation \<times> bool" where
  "scaleIn g a =
     (let r = recommendation_for g a; lowest = policy_floor (g_policy g) in
      if int (length (g_membership g)) \<le> lowest then
        (r\<lparr>rc_reason := ''membership is at minimum plus warm count''\<rparr>, False)
      else case g_choice g of
             None \<Rightarrow> (r\<lparr>rc_reason := ''scale-in requires an explicit safe broker choice''\<rparr>, False)
           | Some c \<Rightarrow>
               if \<not> sc_safe c then (r\<lparr>rc_reason := ''explicit scale-in choice is not proven safe''\<rparr>, False)
               else let proposed = removeBroker (g_membership g) (sc_broker c) in
                 if int (length proposed) < lowest then
                   (r\<lparr>rc_reason := ''scale-in would violate minimum plus warm count''\<rparr>, False)
                 else
                   (r\<lparr>rc_action := ActionScaleIn, rc_broker := sc_broker c, rc_proposed := proposed,
                      rc_reason := ''explicit broker choice is proven safe and capacity is below the headroom threshold'',
                      rc_evidence := sc_evidence c\<rparr>, True))"

definition recommend_saturated :: "gotime \<Rightarrow> GroupState \<Rightarrow> GroupAssessment \<Rightarrow> Broker list \<Rightarrow> gotime \<Rightarrow> Recommendation \<times> bool" where
  "recommend_saturated now g a inventory since =
     (if IsZero since \<or> time_sub now since < gp_window (g_policy g) then
        ((recommendation_for g a)
           \<lparr>rc_reason := ''broker pressure has not been sustained for the configured window''\<rparr>, False)
      else if gp_maximum (g_policy g) \<le> int (length (g_membership g)) then
        ((recommendation_for g a)
           \<lparr>rc_reason := ''broker pressure is sustained but maximum broker count is reached''\<rparr>, False)
      else scaleOut g a inventory ''broker pressure is sustained beyond the headroom threshold'')"

definition recommend :: "gotime \<Rightarrow> GroupState \<Rightarrow> GroupAssessment \<Rightarrow> Broker list \<Rightarrow> gotime \<Rightarrow> Recommendation \<times> bool" where
  "recommend now g a inventory since =
     (let r = recommendation_for g a in
      if ga_state a \<noteq> TelemetryKnown then
        (r\<lparr>rc_reason := (if ga_state a = TelemetryStale then ''policy: telemetry is stale: '' else ''policy: telemetry is unknown: '')
                        @ ga_reason a\<rparr>, False)
      else if gp_max_changes (g_policy g) \<le> g_active g then
        (r\<lparr>rc_reason := ''group transition limit reached''\<rparr>, False)
      else if 0 < g_active g then (r\<lparr>rc_reason := ''group already has a membership transition''\<rparr>, False)
      else if \<not> IsZero (g_last g) \<and> time_sub now (g_last g) < gp_cooldown (g_policy g) then
        (r\<lparr>rc_reason := ''group cooldown is active''\<rparr>, False)
      else if int (length (g_membership g)) < policy_floor (g_policy g) then
        scaleOut g a inventory ''membership is below minimum plus warm count''
      else case ga_pressure a of
             PressureBrokerSaturation \<Rightarrow> recommend_saturated now g a inventory since
           | PressureDownstreamBacklog \<Rightarrow>
               (r\<lparr>rc_reason := ''downstream backlog exists without broker saturation''\<rparr>, False)
           | _ \<Rightarrow> scaleIn g a)"

section \<open>The cycle\<close>

definition hasNewPressureObservation :: "GroupState \<Rightarrow> (string, BrokerAssessment) gomap \<Rightarrow> gotime \<Rightarrow> bool" where
  "hasNewPressureObservation g as after \<longleftrightarrow>
     list_all (\<lambda>b. after < ba_observed (mget_or as b broker_assessment_zero)) (g_membership g)"

definition freshCycle :: "gotime \<Rightarrow> (string, BrokerAssessment) gomap \<Rightarrow> GroupState \<Rightarrow> bool" where
  "freshCycle prev as g \<longleftrightarrow> IsZero prev \<or> hasNewPressureObservation g as prev"

definition saturated :: "GroupAssessment \<Rightarrow> bool" where
  "saturated a \<longleftrightarrow> ga_state a = TelemetryKnown \<and> ga_pressure a = PressureBrokerSaturation"

definition advance_window ::
  "gotime \<Rightarrow> gotime \<Rightarrow> (string, GroupAssessment) gomap \<Rightarrow> (string, BrokerAssessment) gomap \<Rightarrow> (string, gotime) gomap \<Rightarrow>
   GroupState \<Rightarrow> (string, gotime) gomap" where
  "advance_window now prev byGroup byBroker m g =
     (if saturated (mget_or byGroup (g_id g) group_assessment_zero) then
        let exists = mget m (g_id g) \<noteq> None; fresh = freshCycle prev byBroker g
        in if \<not> exists \<and> fresh then mput (g_id g) now m
           else if exists \<and> \<not> fresh then mdel (g_id g) m
           else m
      else mdel (g_id g) m)"

fun updateGroupAssessment :: "GroupAssessment \<Rightarrow> GroupAssessment list \<Rightarrow> GroupAssessment list" where
  "updateGroupAssessment u [] = []"
| "updateGroupAssessment u (a # as) = (if ga_group a = ga_group u then u # as else a # updateGroupAssessment u as)"

definition free_transitions :: "int \<Rightarrow> GroupState list \<Rightarrow> int" where
  "free_transitions limit gs = max 0 (foldl (\<lambda>free g. int64 (free - g_active g)) limit gs)"

definition refused :: "Recommendation \<Rightarrow> Recommendation" where
  "refused r = r\<lparr>rc_reason := ''global transition limit reached'', rc_action := ActionNone, rc_broker := [], rc_proposed := []\<rparr>"

record cycle =
  cy_free :: int
  cy_assessments :: "GroupAssessment list"
  cy_groups :: "Recommendation list"
  cy_transitions :: "Recommendation list"

definition decide_group ::
  "gotime \<Rightarrow> Broker list \<Rightarrow> (string, GroupAssessment) gomap \<Rightarrow> (string, gotime) gomap \<Rightarrow> cycle \<Rightarrow> GroupState \<Rightarrow> cycle" where
  "decide_group now inventory byGroup pressure cy g =
     (let since = mget_or pressure (g_id g) time_zero;
          a = (mget_or byGroup (g_id g) group_assessment_zero)\<lparr>ga_sustained := since\<rparr>;
          cy = cy\<lparr>cy_assessments := updateGroupAssessment a (cy_assessments cy)\<rparr>;
          (r, eligible) = recommend now g a inventory since
      in if eligible \<and> 0 < cy_free cy then
           cy\<lparr>cy_free := cy_free cy - 1, cy_transitions := cy_transitions cy @ [r], cy_groups := cy_groups cy @ [r]\<rparr>
         else cy\<lparr>cy_groups := cy_groups cy @ [if eligible then refused r else r]\<rparr>)"

definition Evaluate ::
  "gotime \<Rightarrow> TelemetrySnapshot \<Rightarrow> Broker list \<Rightarrow> GroupState list \<Rightarrow> Engine \<Rightarrow> (policy_error + Decision) \<times> Engine" where
  "Evaluate now t inventory groups e =
     (if \<not> IsZero (en_last e) \<and> \<not> en_last e < now then (Inl TimeNotMonotone, e)
      else case Aggregate now t (en_catalog e) inventory groups of
             Inl err \<Rightarrow> (Inl err, e)
           | Inr ag \<Rightarrow>
               let byGroup = foldl (\<lambda>m a. mput (ga_group a) a m) [] (ag_groups ag);
                   byBroker = assessments_by_broker (ag_brokers ag);
                   ordered = sort_key g_id groups;
                   pressure = foldl (advance_window now (en_last e) byGroup byBroker)
                                (foldl (\<lambda>m (g, since). mput g since m) [] (en_pressure e)) ordered;
                   cy = foldl (decide_group now inventory byGroup pressure)
                          \<lparr>cy_free = free_transitions (en_max_transitions e) ordered, cy_assessments = ag_groups ag,
                           cy_groups = [], cy_transitions = []\<rparr> ordered
               in (Inr \<lparr>dc_at = now, dc_aggregation = ag\<lparr>ag_groups := cy_assessments cy\<rparr>,
                        dc_groups = cy_groups cy, dc_transitions = cy_transitions cy\<rparr>,
                   e\<lparr>en_pressure := pressure, en_last := now\<rparr>))"

end
