(* ===== verification/Policy_Validation.thy ===== *)
theory Policy_Validation
  imports Policy_Engine
begin

text \<open>
  What the validation of a telemetry cycle establishes: known measurements are finite and not negative,
  utilizations are never NaN, the indexed samples are the samples of the snapshot, and the groups of a
  broker are exactly those whose membership names it, so that \<open>findGroup\<close> never panics.
\<close>

section \<open>Measurements and utilizations\<close>

definition rv_nonneg :: "resourcesValue \<Rightarrow> bool" where
  "rv_nonneg v \<longleftrightarrow> fnonneg (rv_ingress v) \<and> fnonneg (rv_egress v) \<and> fnonneg (rv_spool v) \<and> fnonneg (rv_connections v)"

definition ut_nonneg :: "Utilization \<Rightarrow> bool" where
  "ut_nonneg u \<longleftrightarrow> fnonneg (ut_ingress u) \<and> fnonneg (ut_egress u) \<and> fnonneg (ut_spool u) \<and> fnonneg (ut_connections u)"

definition positive :: "float64 \<Rightarrow> bool" where
  "positive x = (case x of Finite q \<Rightarrow> 0 < q | _ \<Rightarrow> False)"

definition positive_limits :: "CapacityLimits \<Rightarrow> bool" where
  "positive_limits l \<longleftrightarrow>
     positive (cl_ingress l) \<and> positive (cl_egress l) \<and> positive (cl_spool l) \<and> positive (cl_connections l)"

text \<open>Some dimension has reached the threshold.\<close>

definition ut_reaches :: "float64 \<Rightarrow> Utilization \<Rightarrow> bool" where
  "ut_reaches t u \<longleftrightarrow> fle t (ut_ingress u) \<or> fle t (ut_egress u) \<or> fle t (ut_spool u) \<or> fle t (ut_connections u)"

lemma metric_validate_known: "metric_validate m name = None \<Longrightarrow> m_known m \<Longrightarrow> fnonneg (m_value m)"
  by (cases "m_value m") (auto simp: metric_validate_def IsNaN_def IsInf_def flt_def float_zero_def split: if_splits)

lemma knownResources_nonneg:
  "resources_validate r prefix = None \<Longrightarrow> knownResources r = Some v \<Longrightarrow> rv_nonneg v"
  by (auto simp: resources_validate_def knownResources_def resources_allKnown_def rv_nonneg_def
      intro: metric_validate_known split: if_splits)

lemma rv_nonneg_add: "rv_nonneg v \<Longrightarrow> rv_nonneg w \<Longrightarrow> rv_nonneg (rv_add v w)"
  by (simp add: rv_nonneg_def rv_add_def fnonneg_fadd)

lemma rv_nonneg_zero [simp]: "rv_nonneg resources_zero"
  by (simp add: rv_nonneg_def resources_zero_def)

lemma limits_validate_positive: "limits_validate l = None \<Longrightarrow> positive_limits l"
proof -
  have "positive x" if "\<not> IsNaN x" "\<not> IsInf x" "\<not> fle x float_zero" for x
    using that by (cases x) (auto simp: positive_def IsNaN_def IsInf_def fle_def flt_def feq_def float_zero_def split: if_splits)
  then show "limits_validate l = None \<Longrightarrow> positive_limits l"
    by (simp add: limits_validate_def positive_limits_def)
qed

lemma fnonneg_fdiv_positive: "fnonneg x \<Longrightarrow> positive y \<Longrightarrow> fnonneg (fdiv x y)"
  by (cases y) (auto simp: positive_def intro: fnonneg_fdiv)

lemma ut_nonneg_utilization: "rv_nonneg v \<Longrightarrow> positive_limits l \<Longrightarrow> ut_nonneg (utilization v l)"
  by (simp add: rv_nonneg_def positive_limits_def ut_nonneg_def utilization_def fnonneg_fdiv_positive)

lemma ut_nonneg_max: "ut_nonneg u \<Longrightarrow> ut_nonneg v \<Longrightarrow> ut_nonneg (utilization_max u v)"
  by (simp add: ut_nonneg_def utilization_max_def fnonneg_fmax)

lemma ut_nonneg_zero [simp]: "ut_nonneg utilization_zero"
  by (simp add: ut_nonneg_def utilization_zero_def)

lemma ut_reaches_max:
  "ut_nonneg u \<Longrightarrow> ut_nonneg v \<Longrightarrow> ut_reaches t (utilization_max u v) \<longleftrightarrow> ut_reaches t u \<or> ut_reaches t v"
  by (auto simp: ut_nonneg_def ut_reaches_def utilization_max_def fle_fmax_iff)

lemma fle_Peak: "ut_nonneg u \<Longrightarrow> fle t (Peak u) \<longleftrightarrow> ut_reaches t u"
  by (auto simp: ut_nonneg_def ut_reaches_def Peak_def fle_fmax_iff fnonneg_fmax)

section \<open>Catalog and inventory\<close>

definition catalog_ok :: "ProfileCatalog \<Rightarrow> bool" where
  "catalog_ok c \<longleftrightarrow> (\<forall>k p. mget c k = Some p \<longrightarrow> limits_validate (cp_limits p) = None)"

lemma add_profiles_mget:
  "add_profiles i c ps = Inr c' \<Longrightarrow>
     distinct (map profile_key ps) \<and> (\<forall>p \<in> set ps. mget c (profile_key p) = None \<and> limits_validate (cp_limits p) = None) \<and>
     mget c' = (\<lambda>k. case mget c k of Some p \<Rightarrow> Some p | None \<Rightarrow> map_of (map (\<lambda>p. (profile_key p, p)) ps) k)"
proof (induction ps arbitrary: i c)
  case Nil
  then show ?case by (auto simp: fun_eq_iff split: option.split)
next
  case (Cons p ps)
  then have valid: "limits_validate (cp_limits p) = None" and fresh: "mget c (profile_key p) = None"
    and rest: "add_profiles (Suc i) (mput (profile_key p) p c) ps = Inr c'"
    by (auto split: if_splits option.splits)
  from Cons.IH [OF rest] valid fresh show ?case
    by (fastforce simp: fun_eq_iff split: option.split if_splits)
qed

lemma NewProfileCatalog_facts:
  assumes "NewProfileCatalog ps = Inr c"
  shows "distinct (map profile_key ps)" and "\<And>p. p \<in> set ps \<Longrightarrow> limits_validate (cp_limits p) = None"
    and "mget c k = map_of (map (\<lambda>p. (profile_key p, p)) ps) k"
  using add_profiles_mget [OF assms [unfolded NewProfileCatalog_def]] by simp_all

lemma NewProfileCatalog_mget:
  assumes "NewProfileCatalog ps = Inr c"
  shows "mget c k = Some p \<longleftrightarrow> p \<in> set ps \<and> profile_key p = k"
proof -
  have "distinct (map fst (map (\<lambda>p. (profile_key p, p)) ps))"
    using NewProfileCatalog_facts(1) [OF assms] by (simp add: comp_def)
  then show ?thesis
    unfolding NewProfileCatalog_facts(3) [OF assms] by (subst map_of_eq_Some_iff) auto
qed

lemma NewProfileCatalog_ok: "NewProfileCatalog ps = Inr c \<Longrightarrow> catalog_ok c"
  by (auto simp: catalog_ok_def NewProfileCatalog_mget dest: NewProfileCatalog_facts(2))

definition inventory_entry :: "ProfileCatalog \<Rightarrow> Broker list \<Rightarrow> string \<Rightarrow> Broker \<Rightarrow> bool" where
  "inventory_entry c inventory i b \<longleftrightarrow>
     (\<exists>b0 \<in> set inventory. b = b0\<lparr>b_eligible := sort (b_eligible b0)\<rparr> \<and> b_id b0 = i \<and>
        (\<exists>p. Lookup c (b_class b0) (b_version b0) = Inr p))"

definition inventory_ok :: "ProfileCatalog \<Rightarrow> Broker list \<Rightarrow> (string, Broker) gomap \<Rightarrow> bool" where
  "inventory_ok c inventory m \<longleftrightarrow>
     wf_map m \<and> dom (mget m) = b_id ` set inventory \<and> distinct (map b_id inventory) \<and>
     (\<forall>i b. mget m i = Some b \<longrightarrow> inventory_entry c inventory i b)"

lemma inventory_entry_mono: "inventory_entry c xs i b \<Longrightarrow> inventory_entry c (xs @ ys) i b"
  by (auto simp: inventory_entry_def)

lemma add_brokers_ok:
  "add_brokers c i m bs = Inr m' \<Longrightarrow> inventory_ok c old m \<Longrightarrow> inventory_ok c (old @ bs) m'"
proof (induction bs arbitrary: i m old)
  case (Cons b bs)
  define b' where "b' = b\<lparr>b_eligible := sort (b_eligible b)\<rparr>"
  from Cons obtain p where step: "mget m (b_id b) = None" "Lookup c (b_class b) (b_version b) = Inr p"
    "add_brokers c (Suc i) (mput (b_id b) b' m) bs = Inr m'"
    by (auto simp: Let_def b'_def split: if_splits sum.splits)
  have old: "wf_map m" "dom (mget m) = b_id ` set old" "distinct (map b_id old)"
    "\<And>i b. mget m i = Some b \<Longrightarrow> inventory_entry c old i b"
    using Cons.prems(2) by (auto simp: inventory_ok_def)
  have new: "b_id b \<notin> b_id ` set old" using step(1) unfolding old(2) [symmetric] by (simp add: domIff)
  have entry: "inventory_entry c (old @ [b]) (b_id b) b'" using step(2) by (auto simp: inventory_entry_def b'_def)
  have entries: "inventory_entry c (old @ [b]) i x" if "mget (mput (b_id b) b' m) i = Some x" for i x
    using that entry by (auto intro: inventory_entry_mono old(4) split: if_splits)
  have "dom (mget (mput (b_id b) b' m)) = insert (b_id b) (dom (mget m))" by (auto split: if_splits)
  then have keys: "dom (mget (mput (b_id b) b' m)) = b_id ` set (old @ [b])" by (simp add: old(2) del: mget_mput)
  have "inventory_ok c (old @ [b]) (mput (b_id b) b' m)"
    unfolding inventory_ok_def using old(1,3) new entries by (intro conjI keys) simp_all
  from Cons.IH [OF step(3) this] show ?case by simp
qed simp

lemma validateInventory_ok: "validateInventory inventory c = Inr m \<Longrightarrow> inventory_ok c inventory m"
  using add_brokers_ok [of c 0 "[]" inventory m "[]"] by (simp add: validateInventory_def inventory_ok_def)

section \<open>Groups\<close>

lemma check_members_None:
  "check_members g brokers seen bs = None \<longleftrightarrow>
     distinct bs \<and> set bs \<inter> set seen = {} \<and> (\<forall>b \<in> set bs. mget brokers b \<noteq> None)"
  by (induction bs arbitrary: seen) auto

definition group_ok :: "gotime \<Rightarrow> (string, Broker) gomap \<Rightarrow> GroupState \<Rightarrow> bool" where
  "group_ok now brokers g \<longleftrightarrow> group_validate g now brokers = None"

lemma group_ok_facts:
  assumes "group_ok now brokers g"
  shows "g_id g \<noteq> []" and "policy_validate (g_policy g) (g_id g) = None" and "0 \<le> g_active g"
    and "int (length (g_membership g)) \<le> gp_maximum (g_policy g)" and "distinct (g_membership g)"
    and "\<And>b. b \<in> set (g_membership g) \<Longrightarrow> mget brokers b \<noteq> None" and "check_choice g = None"
  using assms by (auto simp: group_ok_def group_validate_def check_members_None)

lemma policy_validate_facts:
  assumes "policy_validate p g = None"
  shows "1 \<le> gp_minimum p" and "gp_minimum p \<le> gp_maximum p" and "0 \<le> gp_warm p" and "policy_floor p \<le> gp_maximum p"
    and "0 < gp_window p" and "0 < gp_max_age p" and "0 \<le> gp_cooldown p" and "1 \<le> gp_max_changes p"
    and "fnonneg (gp_headroom p)" and "finite_value (gp_headroom p)" and "\<not> fle float_hundred (gp_headroom p)"
  using assms
  by (cases "gp_headroom p";
      auto simp: policy_validate_def policy_floor_def IsNaN_def IsInf_def flt_def float_zero_def split: if_splits)+

lemma mget_or_add_memberships:
  "distinct bs \<Longrightarrow> mget_or (foldl (add_membership i) m bs) b [] = mget_or m b [] @ (if b \<in> set bs then [i] else [])"
  by (induction bs arbitrary: m) (auto simp: add_membership_def)

definition members_of :: "GroupState list \<Rightarrow> string \<Rightarrow> string list" where
  "members_of gs b = map g_id (filter (\<lambda>g. b \<in> set (g_membership g)) gs)"

lemma validate_groups_facts:
  "validate_groups now brokers seen m gs = Inr m' \<Longrightarrow>
     distinct (map g_id gs) \<and> set (map g_id gs) \<inter> set seen = {} \<and> (\<forall>g \<in> set gs. group_ok now brokers g) \<and>
     mget_or m' b [] = mget_or m b [] @ members_of gs b"
proof (induction gs arbitrary: seen m)
  case (Cons g gs)
  then have new: "g_id g \<notin> set seen" and valid: "group_ok now brokers g"
    and rest: "validate_groups now brokers (g_id g # seen) (foldl (add_membership (g_id g)) m (g_membership g)) gs = Inr m'"
    by (auto simp: group_ok_def split: if_splits option.splits)
  from Cons.IH [OF rest] new valid show ?case
    by (auto simp: members_of_def mget_or_add_memberships group_ok_facts(5))
qed (simp add: members_of_def)

lemma mget_or_sorted: "mget_or (map (\<lambda>(b, is). (b, sort is)) m) b [] = sort (mget_or m b [])"
  by (simp add: mget_or_def map_of_map split: option.split)

lemma findGroup_eq: "distinct (map g_id gs) \<Longrightarrow> g \<in> set gs \<Longrightarrow> findGroup gs (g_id g) = Some g"
  by (induction gs) (auto simp: image_iff)

section \<open>Samples\<close>

lemma check_broker_samples_None:
  "check_broker_samples captured i seen ss = None \<Longrightarrow> s \<in> set ss \<Longrightarrow>
     resources_validate (bs_resources s) (''broker '' @ bs_broker s) = None \<and> bs_observed s \<le> captured \<and> bs_observed s \<noteq> 0"
  by (induction ss arbitrary: i seen) (auto simp: IsZero_def time_zero_def split: if_splits option.splits)

lemma check_group_samples_None:
  "check_group_samples captured i seen ss = None \<Longrightarrow> s \<in> set ss \<Longrightarrow>
     resources_validate (sm_resources s) (sample_prefix s) = None \<and> backlog_validate (sm_backlog s) (sample_prefix s) = None \<and>
     sm_observed s \<le> captured \<and> sm_observed s \<noteq> 0"
  by (induction ss arbitrary: i seen) (auto simp: IsZero_def time_zero_def split: if_splits option.splits)

lemma index_broker_samples_mget:
  "index_broker_samples brokers m ss = Inr m' \<Longrightarrow> mget m' b = Some s \<Longrightarrow> s \<in> set ss \<and> bs_broker s = b \<or> mget m b = Some s"
  by (induction ss arbitrary: m) (fastforce split: option.splits if_splits)+

lemma index_group_samples_mget:
  "index_group_samples brokers groups m ss = Inr m' \<Longrightarrow> mget m' k = Some s \<Longrightarrow> s \<in> set ss \<and> sample_key s = k \<or> mget m k = Some s"
  by (induction ss arbitrary: m) (fastforce split: option.splits if_splits)+

section \<open>The context of a cycle\<close>

definition context_ok :: "aggregationContext \<Rightarrow> bool" where
  "context_ok cx \<longleftrightarrow>
     distinct (map g_id (cx_groups cx)) \<and> (\<forall>g \<in> set (cx_groups cx). group_ok (cx_now cx) (cx_brokers cx) g) \<and>
     (\<forall>b. mget_or (cx_memberships cx) b [] = sort (members_of (cx_groups cx) b)) \<and>
     (\<forall>b s. mget (cx_broker_samples cx) b = Some s \<longrightarrow> resources_validate (bs_resources s) (''broker '' @ bs_broker s) = None) \<and>
     (\<forall>k s. mget (cx_group_samples cx) k = Some s \<longrightarrow> resources_validate (sm_resources s) (sample_prefix s) = None)"

lemma aggregate_context_Inr:
  assumes "aggregate_context now t c inventory groups = Inr cx"
  shows "\<not> IsZero now" and "tel_captured t \<le> now" and "telemetry_Validate t = None" and "cx_now cx = now" and "cx_catalog cx = c"
    and "cx_groups cx = groups" and "validateInventory inventory c = Inr (cx_brokers cx)"
    and "index_broker_samples (cx_brokers cx) [] (tel_brokers t) = Inr (cx_broker_samples cx)"
    and "index_group_samples (cx_brokers cx) (map g_id groups) [] (tel_groups t) = Inr (cx_group_samples cx)"
    and "\<exists>m. validate_groups now (cx_brokers cx) [] [] groups = Inr m \<and> cx_memberships cx = map (\<lambda>(b, is). (b, sort is)) m"
  using assms by (auto simp: aggregate_context_def split: if_splits option.splits sum.splits)

lemma aggregate_context_ok:
  assumes "aggregate_context now t c inventory groups = Inr cx"
  shows "context_ok cx"
proof -
  note facts = aggregate_context_Inr [OF assms]
  obtain m where m: "validate_groups now (cx_brokers cx) [] [] groups = Inr m"
    "cx_memberships cx = map (\<lambda>(b, is). (b, sort is)) m" using facts(10) by blast
  have valid: "check_broker_samples (tel_captured t) 0 [] (tel_brokers t) = None"
    "check_group_samples (tel_captured t) 0 [] (tel_groups t) = None"
    using facts(3) by (auto simp: telemetry_Validate_def split: if_splits option.splits)
  have brokers: "resources_validate (bs_resources s) (''broker '' @ bs_broker s) = None"
    if "mget (cx_broker_samples cx) b = Some s" for b s
    using index_broker_samples_mget [OF facts(8) that] check_broker_samples_None [OF valid(1)] by auto
  have samples: "resources_validate (sm_resources s) (sample_prefix s) = None"
    if "mget (cx_group_samples cx) k = Some s" for k s
    using index_group_samples_mget [OF facts(9) that] check_group_samples_None [OF valid(2)] by auto
  have memberships: "mget_or (cx_memberships cx) b [] = sort (members_of groups b)" for b
    using validate_groups_facts [OF m(1), of b] by (simp add: m(2) mget_or_sorted) (simp add: mget_or_def)
  show ?thesis
    unfolding context_ok_def facts(4,6) using validate_groups_facts [OF m(1)] memberships brokers samples by blast
qed

text \<open>A validated cycle never reaches the panic of \<open>findGroup\<close>.\<close>

lemma scan_group_Inr:
  assumes "context_ok cx" and "i \<in> set (members_of (cx_groups cx) b)"
  shows "\<exists>st'. scan_group cx b i st = Inr st'"
proof -
  obtain g where "g \<in> set (cx_groups cx)" "g_id g = i" using assms(2) by (auto simp: members_of_def)
  then have "findGroup (cx_groups cx) i = Some g" using assms(1) by (auto simp: context_ok_def intro: findGroup_eq)
  then show ?thesis by (auto simp: scan_group_def Let_def split: option.split)
qed

lemma scan_groups_Inr:
  assumes "context_ok cx"
  shows "set is \<subseteq> set (members_of (cx_groups cx) b) \<Longrightarrow> \<exists>st'. scan_groups cx b is st = Inr st'"
proof (induction "is" arbitrary: st)
  case (Cons i "is")
  then obtain st1 where "scan_group cx b i st = Inr st1" using scan_group_Inr [OF assms, of i b st] by auto
  moreover obtain st2 where "scan_groups cx b is st1 = Inr st2" using Cons.IH [of st1] Cons.prems by auto
  ultimately show ?case by simp
qed simp

lemma assessBroker_Inr:
  assumes "context_ok cx"
  shows "\<exists>a. assessBroker cx b = Inr a"
proof (cases "mget (cx_broker_samples cx) b")
  case (Some s)
  have "mget_or (cx_memberships cx) b [] = sort (members_of (cx_groups cx) b)"
    using assms by (simp add: context_ok_def)
  then obtain st where "scan_groups cx b (mget_or (cx_memberships cx) b []) (scan_start cx b s) = Inr st"
    using scan_groups_Inr [OF assms] by fastforce
  with Some show ?thesis by (simp add: assessBroker_def Let_def)
qed (simp add: assessBroker_def Let_def)

lemma assess_brokers_Inr:
  assumes "context_ok cx"
  shows "\<exists>as. assess_brokers cx bs = Inr as"
proof (induction bs)
  case (Cons b bs)
  with assessBroker_Inr [OF assms, of b] show ?case by auto
qed simp

lemma assess_brokers_list: "assess_brokers cx bs = Inr as \<Longrightarrow> list_all2 (\<lambda>b a. assessBroker cx b = Inr a) bs as"
  by (induction bs arbitrary: as) (auto split: sum.splits)

lemma assess_brokers_in: "assess_brokers cx bs = Inr as \<Longrightarrow> b \<in> set bs \<Longrightarrow> \<exists>a \<in> set as. assessBroker cx b = Inr a"
  by (induction bs arbitrary: as) (fastforce split: sum.splits)+

lemma assessBroker_broker: "assessBroker cx b = Inr a \<Longrightarrow> ba_broker a = b"
  by (auto simp: assessBroker_def conclude_broker_def Let_def split: option.splits sum.splits if_splits)

lemma Aggregate_Inr_iff: "(\<exists>ag. Aggregate now t c inventory groups = Inr ag) \<longleftrightarrow>
    (\<exists>cx. aggregate_context now t c inventory groups = Inr cx)"
proof
  assume "\<exists>cx. aggregate_context now t c inventory groups = Inr cx"
  then obtain cx where cx: "aggregate_context now t c inventory groups = Inr cx" by blast
  then show "\<exists>ag. Aggregate now t c inventory groups = Inr ag"
    using assess_brokers_Inr [OF aggregate_context_ok [OF cx], of "sort (map fst (cx_brokers cx))"]
    by (auto simp: Aggregate_def)
qed (auto simp: Aggregate_def split: sum.splits)

section \<open>Indexes\<close>

lemma mget_index_notin: "k \<notin> f ` set xs \<Longrightarrow> mget (foldl (\<lambda>m x. mput (f x) x m) m xs) k = mget m k"
  by (induction xs arbitrary: m) auto

lemma mget_index:
  "distinct (map f xs) \<Longrightarrow> x \<in> set xs \<Longrightarrow> mget (foldl (\<lambda>m x. mput (f x) x m) m xs) (f x) = Some x"
  by (induction xs arbitrary: m) (auto simp: mget_index_notin)

text \<open>What a successful cycle returns.\<close>

lemma Aggregate_facts:
  assumes "Aggregate now t c inventory groups = Inr ag"
  obtains cx as where "aggregate_context now t c inventory groups = Inr cx" "context_ok cx"
    "ag_brokers ag = as" "assess_brokers cx (sort (map fst (cx_brokers cx))) = Inr as"
    "ag_groups ag = map (\<lambda>g. assessGroup cx g (assessments_by_broker as)) (sort_key g_id groups)"
    "\<And>b. mget (cx_brokers cx) b \<noteq> None \<Longrightarrow>
       \<exists>a \<in> set as. assessBroker cx b = Inr a \<and> mget (assessments_by_broker as) b = Some a"
    "\<And>a. a \<in> set as \<Longrightarrow> mget (assessments_by_broker as) (ba_broker a) = Some a"
proof -
  obtain cx as where cx: "aggregate_context now t c inventory groups = Inr cx"
    "assess_brokers cx (sort (map fst (cx_brokers cx))) = Inr as" "ag_brokers ag = as"
    "ag_groups ag = map (\<lambda>g. assessGroup cx g (assessments_by_broker as)) (sort_key g_id groups)"
    using assms by (auto simp: Aggregate_def split: sum.splits)
  have ids: "map ba_broker as = sort (map fst (cx_brokers cx))"
    using assess_brokers_list [OF cx(2)] by (induction rule: list_all2_induct) (auto dest: assessBroker_broker)
  have "wf_map (cx_brokers cx)"
    using validateInventory_ok [OF aggregate_context_Inr(7) [OF cx(1)]] by (simp add: inventory_ok_def)
  then have dist: "distinct (map ba_broker as)" by (simp add: ids wf_map_def)
  have index: "mget (assessments_by_broker as) (ba_broker a) = Some a" if "a \<in> set as" for a
    unfolding assessments_by_broker_def using that by (intro mget_index dist)
  have "\<exists>a \<in> set as. assessBroker cx b = Inr a \<and> mget (assessments_by_broker as) b = Some a"
    if b: "mget (cx_brokers cx) b \<noteq> None" for b
  proof -
    have "b \<in> set (sort (map fst (cx_brokers cx)))" using b by (simp add: map_of_eq_None_iff)
    then obtain a where a: "a \<in> set as" "assessBroker cx b = Inr a"
      using assess_brokers_in [OF cx(2)] by blast
    then show ?thesis using assessBroker_broker [OF a(2)] index [OF a(1)] by auto
  qed
  then show thesis using index by (rule that [OF cx(1) aggregate_context_ok [OF cx(1)] cx(3,2,4)])
qed

end
