(* ===== verification/Policy_Saturation.thy ===== *)
theory Policy_Saturation
  imports Policy_Validation
begin

text \<open>
  When a group counts as saturated: the comparison of floating-point utilizations with the threshold
  is a comparison dimension by dimension, because none of them is NaN, and rounding never hides a
  broker whose exact use has reached the threshold.
\<close>

section \<open>Assessments of brokers\<close>

lemma broker_sample_nonneg:
  "context_ok cx \<Longrightarrow> mget (cx_broker_samples cx) b = Some s \<Longrightarrow> knownResources (bs_resources s) = Some v \<Longrightarrow> rv_nonneg v"
  unfolding context_ok_def by (blast intro: knownResources_nonneg)

lemma broker_sample_finite:
  assumes "context_ok cx" and "mget (cx_broker_samples cx) b = Some s" and "knownResources (bs_resources s) = Some v"
  shows "finite_value (rv_ingress v)" and "finite_value (rv_egress v)" and "finite_value (rv_spool v)"
    and "finite_value (rv_connections v)"
proof -
  have finite: "finite_value (m_value m)" if "metric_validate m name = None" "m_known m" for m name
    using that by (cases "m_value m") (auto simp: metric_validate_def IsNaN_def IsInf_def split: if_splits)
  have "resources_validate (bs_resources s) (''broker '' @ bs_broker s) = None"
    using assms(1,2) unfolding context_ok_def by blast
  with assms(3) show "finite_value (rv_ingress v)" and "finite_value (rv_egress v)" and "finite_value (rv_spool v)"
    and "finite_value (rv_connections v)"
    by (auto simp: resources_validate_def knownResources_def resources_allKnown_def intro: finite split: if_splits)
qed

lemma group_sample_nonneg:
  "context_ok cx \<Longrightarrow> mget (cx_group_samples cx) k = Some s \<Longrightarrow> knownResources (sm_resources s) = Some v \<Longrightarrow> rv_nonneg v"
  unfolding context_ok_def by (blast intro: knownResources_nonneg)

lemma scan_group_grouped:
  assumes "context_ok cx" and "scan_group cx b i st = Inr st'" and "rv_nonneg (sb_grouped st)"
  shows "rv_nonneg (sb_grouped st')"
  using assms(2,3) unfolding scan_group_def
  by (auto simp: Let_def intro!: rv_nonneg_add dest: group_sample_nonneg [OF assms(1)] split: option.splits if_splits)

lemma scan_groups_grouped:
  "context_ok cx \<Longrightarrow> scan_groups cx b is st = Inr st' \<Longrightarrow> rv_nonneg (sb_grouped st) \<Longrightarrow> rv_nonneg (sb_grouped st')"
  by (induction "is" arbitrary: st) (auto dest: scan_group_grouped split: sum.splits)

lemma scan_group_unknown: "scan_group cx b i st = Inr st' \<Longrightarrow> sb_unknown st' = [] \<Longrightarrow> sb_unknown st = []"
  by (auto simp: scan_group_def Let_def split: option.splits if_splits)

lemma scan_groups_unknown: "scan_groups cx b is st = Inr st' \<Longrightarrow> sb_unknown st' = [] \<Longrightarrow> sb_unknown st = []"
  by (induction "is" arbitrary: st) (auto dest: scan_group_unknown split: sum.splits)

lemma profile_limits_eq:
  assumes "inventory_ok (cx_catalog cx) inventory (cx_brokers cx)" and "mget (cx_brokers cx) b = Some br"
    and "Lookup (cx_catalog cx) (b_class br) (b_version br) = Inr p"
  shows "profile_limits cx b = cp_limits p"
  using assms(2,3) by (simp add: profile_limits_def mget_or_def)

lemma profile_limits_positive:
  assumes "catalog_ok (cx_catalog cx)" and "inventory_ok (cx_catalog cx) inventory (cx_brokers cx)"
    and "mget (cx_brokers cx) b = Some br"
  shows "positive_limits (profile_limits cx b)"
proof -
  obtain p where p: "Lookup (cx_catalog cx) (b_class br) (b_version br) = Inr p"
    using assms(2,3) unfolding inventory_ok_def inventory_entry_def by fastforce
  then have "limits_validate (cp_limits p) = None"
    using assms(1) by (auto simp: Lookup_def catalog_ok_def split: option.splits)
  then show ?thesis using profile_limits_eq [OF assms(2,3) p] limits_validate_positive by simp
qed

text \<open>The three outcomes of \<open>assessBroker\<close>; only a known broker has a utilization.\<close>

lemma assessBroker_cases:
  assumes "context_ok cx" and "positive_limits (profile_limits cx b)" and "assessBroker cx b = Inr a"
  shows "ba_state a \<in> {TelemetryUnknown, TelemetryStale} \<and> ba_shared a = utilization_zero \<or>
    ba_state a = TelemetryKnown \<and>
    (\<exists>s v. mget (cx_broker_samples cx) b = Some s \<and> knownResources (bs_resources s) = Some v \<and>
       ba_broker_utilization a = utilization v (profile_limits cx b) \<and> ut_nonneg (ba_broker_utilization a) \<and>
       ut_nonneg (ba_grouped a) \<and> ba_shared a = utilization_max (ba_broker_utilization a) (ba_grouped a))"
proof (cases "mget (cx_broker_samples cx) b")
  case None
  with assms(3) show ?thesis by (auto simp: assessBroker_def Let_def broker_assessment_zero_def)
next
  case (Some s)
  then obtain st where st: "scan_groups cx b (mget_or (cx_memberships cx) b []) (scan_start cx b s) = Inr st"
    and a: "a = conclude_broker (profile_limits cx b) s st
      (broker_assessment_zero\<lparr>ba_broker := b, ba_state := TelemetryKnown, ba_groups := mget_or (cx_memberships cx) b []\<rparr>)"
    using assms(3) by (auto simp: assessBroker_def Let_def split: sum.splits)
  show ?thesis
  proof (cases "sb_stale st \<noteq> [] \<or> sb_unknown st \<noteq> []")
    case True
    then show ?thesis by (auto simp: a conclude_broker_def Let_def broker_assessment_zero_def)
  next
    case False
    then have "sb_unknown (scan_start cx b s) = []" using scan_groups_unknown [OF st] by simp
    then obtain v where v: "knownResources (bs_resources s) = Some v"
      by (auto simp: scan_start_def split: if_splits)
    have "rv_nonneg v" using broker_sample_nonneg [OF assms(1) Some v] .
    moreover have "rv_nonneg (sb_grouped st)"
      using scan_groups_grouped [OF assms(1) st] by (simp add: scan_start_def)
    ultimately show ?thesis
      using False v Some assms(2) by (simp add: a conclude_broker_def Let_def known_or_zero_def ut_nonneg_utilization
          broker_assessment_zero_def)
  qed
qed

lemma assessBroker_shared_nonneg:
  assumes "context_ok cx" and "positive_limits (profile_limits cx b)" and "assessBroker cx b = Inr a"
  shows "ut_nonneg (ba_shared a)"
  using assessBroker_cases [OF assms] by (auto intro: ut_nonneg_max)

section \<open>Assessments of groups\<close>

lemma scan_sample_shared [simp]: "sg_shared (scan_sample c g b s st) = sg_shared st"
  by (auto simp: scan_sample_def Let_def split: option.split)

lemma scan_member_shared:
  "sg_shared (scan_member c as g st b) = utilization_max (sg_shared st) (ba_shared (mget_or as b broker_assessment_zero))"
  by (auto simp: scan_member_def Let_def split: option.split TelemetryState.split)

lemma scan_sample_clean:
  "sg_stale (scan_sample c g b s st) = [] \<Longrightarrow> sg_unknown (scan_sample c g b s st) = [] \<Longrightarrow> sg_stale st = [] \<and> sg_unknown st = []"
  by (auto simp: scan_sample_def Let_def split: option.splits if_splits)

lemma scan_member_clean:
  assumes "sg_stale (scan_member c as g st b) = []" and "sg_unknown (scan_member c as g st b) = []"
  shows "sg_stale st = [] \<and> sg_unknown st = [] \<and>
    ba_state (mget_or as b broker_assessment_zero) \<notin> {TelemetryUnknown, TelemetryStale}"
  using assms unfolding scan_member_def
  by (auto simp: Let_def dest!: scan_sample_clean split: option.splits TelemetryState.splits)

lemma scan_members_clean:
  "sg_stale (foldl (scan_member c as g) st bs) = [] \<Longrightarrow> sg_unknown (foldl (scan_member c as g) st bs) = [] \<Longrightarrow>
     sg_stale st = [] \<and> sg_unknown st = [] \<and>
     (\<forall>b \<in> set bs. ba_state (mget_or as b broker_assessment_zero) \<notin> {TelemetryUnknown, TelemetryStale})"
proof (induction bs arbitrary: st)
  case (Cons b bs)
  then have "sg_stale (scan_member c as g st b) = []" "sg_unknown (scan_member c as g st b) = []"
    and rest: "\<forall>b \<in> set bs. ba_state (mget_or as b broker_assessment_zero) \<notin> {TelemetryUnknown, TelemetryStale}"
    by simp_all
  from scan_member_clean [OF this(1,2)] rest show ?case by simp
qed simp

lemma scan_members_reaches:
  assumes "\<And>b. b \<in> set bs \<Longrightarrow> ut_nonneg (ba_shared (mget_or as b broker_assessment_zero))" and "ut_nonneg (sg_shared st)"
  shows "ut_nonneg (sg_shared (foldl (scan_member c as g) st bs)) \<and>
    (ut_reaches t (sg_shared (foldl (scan_member c as g) st bs)) \<longleftrightarrow>
       ut_reaches t (sg_shared st) \<or> (\<exists>b \<in> set bs. ut_reaches t (ba_shared (mget_or as b broker_assessment_zero))))"
  using assms by (induction bs arbitrary: st) (auto simp: scan_member_shared ut_reaches_max ut_nonneg_max)

lemma ut_reaches_zero: "ut_reaches t utilization_zero \<Longrightarrow> ut_nonneg u \<Longrightarrow> ut_reaches t u"
proof -
  have "fle t x" if "fle t float_zero" "fnonneg x" for x
    using that by (cases t; cases x) (auto simp: fle_def flt_def feq_def IsInf_def float_zero_def split: if_splits)
  then show "ut_reaches t utilization_zero \<Longrightarrow> ut_nonneg u \<Longrightarrow> ut_reaches t u"
    by (auto simp: ut_reaches_def utilization_zero_def ut_nonneg_def)
qed

text \<open>A group is assessed as known only when it has members and each of them is known.\<close>

lemma assessGroup_known:
  assumes "ga_state (assessGroup cx g as) = TelemetryKnown"
    and "\<And>b. b \<in> set (g_membership g) \<Longrightarrow> ut_nonneg (ba_shared (mget_or as b broker_assessment_zero))"
  shows "g_membership g \<noteq> []"
    and "\<And>b. b \<in> set (g_membership g) \<Longrightarrow> ba_state (mget_or as b broker_assessment_zero) \<notin> {TelemetryUnknown, TelemetryStale}"
    and "ga_pressure (assessGroup cx g as) = PressureBrokerSaturation \<longleftrightarrow>
      (\<exists>b \<in> set (g_membership g). ut_reaches (saturationThreshold (g_policy g)) (ba_shared (mget_or as b broker_assessment_zero)))"
proof -
  define st where "st = foldl (scan_member cx as g) (group_scan_start g) (g_membership g)"
  have clean: "sg_stale st = []" "sg_unknown st = []"
    using assms(1) by (auto simp: assessGroup_def conclude_group_def st_def Let_def split: if_splits)
  note scan = scan_members_clean [of cx as g "group_scan_start g" "g_membership g", folded st_def, OF clean]
  then show members: "g_membership g \<noteq> []" by (auto simp: group_scan_start_def split: if_splits)
  show "ba_state (mget_or as b broker_assessment_zero) \<notin> {TelemetryUnknown, TelemetryStale}"
    if "b \<in> set (g_membership g)" for b using scan that by blast
  have start: "sg_shared (group_scan_start g) = utilization_zero" by (simp add: group_scan_start_def)
  note reaches = scan_members_reaches [where bs = "g_membership g" and as = as and st = "group_scan_start g" and c = cx
      and g = g and t = "saturationThreshold (g_policy g)", OF assms(2), folded st_def, unfolded start]
  have "fle (saturationThreshold (g_policy g)) (Peak (sg_shared st)) \<longleftrightarrow>
      (\<exists>b \<in> set (g_membership g). ut_reaches (saturationThreshold (g_policy g)) (ba_shared (mget_or as b broker_assessment_zero)))"
  proof -
    obtain b where "b \<in> set (g_membership g)" using members by (cases "g_membership g") auto
    then show ?thesis using reaches by (auto simp: fle_Peak dest: ut_reaches_zero [OF _ assms(2)])
  qed
  then show "ga_pressure (assessGroup cx g as) = PressureBrokerSaturation \<longleftrightarrow>
      (\<exists>b \<in> set (g_membership g). ut_reaches (saturationThreshold (g_policy g)) (ba_shared (mget_or as b broker_assessment_zero)))"
    using clean by (simp add: assessGroup_def conclude_group_def Let_def group_assessment_zero_def flip: st_def)
qed

lemma assessGroup_group [simp]: "ga_group (assessGroup cx g as) = g_id g"
  by (simp add: assessGroup_def conclude_group_def Let_def)

section \<open>The threshold\<close>

lemma round_exact_one [simp]: "round_exact 1 = 1"
  by (rule round_exact_representable [where z = 1 and e = 0]) (simp_all add: pow2_def)

lemma pack_le_one:
  assumes "q \<le> 1"
  shows "finite_value (pack s q)" and "\<bar>fvalue (pack s q)\<bar> \<le> 1" and "\<not> s \<Longrightarrow> 0 \<le> fvalue (pack s q)"
proof -
  have "pow2 0 < pow2 1024" by (simp add: pow2_less_iff)
  then have one: "1 < pow2 1024" by (simp add: pow2_def)
  have rounded: "round_exact q \<le> 1" "0 \<le> round_exact q" using round_exact_mono [OF assms] by simp_all
  then have "round_mag q = Some (round_exact q)" using one by (simp add: round_mag_Some)
  with rounded show "finite_value (pack s q)" "\<bar>fvalue (pack s q)\<bar> \<le> 1" "\<not> s \<Longrightarrow> 0 \<le> fvalue (pack s q)"
    by (auto simp: pack_def signed_zero_def)
qed

lemma saturationThreshold_facts:
  assumes "policy_validate p g = None"
  shows "representable (saturationThreshold p)" and "finite_value (saturationThreshold p)"
    and "0 \<le> fvalue (saturationThreshold p)" and "fvalue (saturationThreshold p) \<le> 1"
proof -
  note valid = policy_validate_facts(9-11) [OF assms]
  define d where "d = fdiv (gp_headroom p) float_hundred"
  have range: "0 \<le> fvalue (gp_headroom p)" "fvalue (gp_headroom p) / 100 \<le> 1"
    using valid by (cases "gp_headroom p"; auto simp: fle_def flt_def feq_def IsInf_def float_hundred_def split: if_splits)+
  have quotient: "d = pack (signbit (gp_headroom p)) (fvalue (gp_headroom p) / 100)"
    using valid range(1) by (cases "gp_headroom p") (auto simp: d_def fdiv_def float_hundred_def IsInf_def Let_def)
  have finite: "finite_value d" and upper: "fvalue d \<le> 1"
    using pack_le_one(1,2) [OF range(2), of "signbit (gp_headroom p)"] by (simp_all add: quotient)
  have lower: "0 \<le> fvalue d"
  proof (cases "signbit (gp_headroom p)")
    case True
    then have "gp_headroom p = NegZero" using valid(1) by (cases "gp_headroom p") auto
    then show ?thesis by (simp add: quotient signed_zero_def)
  next
    case False
    then show ?thesis using pack_le_one(3) [OF range(2)] by (simp add: quotient)
  qed
  have neg: "fvalue (fneg d) = - fvalue d" "fneg d \<noteq> NaN" "\<not> IsInf (fneg d)"
    using finite by (cases d; simp add: IsInf_def)+
  have threshold: "saturationThreshold p =
      (let v = 1 - fvalue d in if v = 0 then signed_zero False else pack (v < 0) \<bar>v\<bar>)"
    using neg by (simp add: saturationThreshold_def fsub_def fadd_def float_one_def IsInf_def Let_def flip: d_def)
  have "representable (fneg d)" by (simp add: d_def)
  then show "representable (saturationThreshold p)" unfolding threshold by (simp add: Let_def)
  show "finite_value (saturationThreshold p)"
    unfolding threshold using lower upper pack_le_one(1) [of "\<bar>1 - fvalue d\<bar>"] by (simp add: Let_def signed_zero_def)
  show "0 \<le> fvalue (saturationThreshold p)"
    unfolding threshold using lower upper pack_le_one(3) [of "\<bar>1 - fvalue d\<bar>"] by (simp add: Let_def signed_zero_def)
  show "fvalue (saturationThreshold p) \<le> 1"
    unfolding threshold using lower upper pack_le_one(2) [of "\<bar>1 - fvalue d\<bar>" "1 - fvalue d < 0"]
    by (auto simp: Let_def signed_zero_def abs_le_iff)
qed

text \<open>The four measured values of a sample beside the four limits of a profile.\<close>

definition dimensions :: "resourcesValue \<Rightarrow> CapacityLimits \<Rightarrow> (float64 \<times> float64) list" where
  "dimensions v l =
     [(rv_ingress v, cl_ingress l), (rv_egress v, cl_egress l), (rv_spool v, cl_spool l), (rv_connections v, cl_connections l)]"

lemma fle_fdiv:
  assumes "representable t" and "finite_value t" and "0 \<le> fvalue t" and "fnonneg x" and "positive y"
    and "finite_value x" and "fvalue t \<le> fvalue x / fvalue y"
  shows "fle t (fdiv x y)"
proof -
  obtain b where b: "y = Finite b" "0 < b" using assms(5) by (cases y) (auto simp: positive_def)
  show ?thesis
  proof (cases "signbit x")
    case True
    then have x: "x = NegZero" using assms(4) by (cases x) auto
    then have "fvalue t = 0" using assms(3,7) by simp
    moreover have "fdiv x y = NegZero" using b x by (simp add: fdiv_def IsInf_def signed_zero_def)
    ultimately show ?thesis using assms(2) by (cases t) (simp_all add: fle_def feq_def IsInf_def)
  next
    case False
    have "fdiv x y = pack False (fvalue x / fvalue y)"
      using False assms(4,6) b by (cases x) (auto simp: fdiv_def IsInf_def Let_def)
    then show ?thesis using fle_pack [OF assms(1,2,7)] by simp
  qed
qed

lemma dimensions_reach:
  assumes "policy_validate p g = None" and "rv_nonneg v" and "positive_limits l" and "(x, y) \<in> set (dimensions v l)"
    and "finite_value x" and "fvalue (saturationThreshold p) \<le> fvalue x / fvalue y"
  shows "ut_reaches (saturationThreshold p) (utilization v l)"
proof -
  have "fnonneg x" "positive y" using assms(2-4) by (auto simp: dimensions_def rv_nonneg_def positive_limits_def)
  then have "fle (saturationThreshold p) (fdiv x y)"
    using fle_fdiv saturationThreshold_facts [OF assms(1)] assms(5,6) by blast
  with assms(4) show ?thesis by (auto simp: dimensions_def ut_reaches_def utilization_def)
qed

end
