(* ===== verification/Policy_Decisions.thy ===== *)
theory Policy_Decisions
  imports Policy_Saturation
begin

text \<open>
  The decisions of a cycle: what a recommendation that asks for a transition has to satisfy, how the
  cycle admits recommendations within the global bound, and how the pressure windows advance. Runs of
  an engine, across restarts that restore its saved state, are an inductive predicate that records the
  cycles.
\<close>

section \<open>Recommendations\<close>

text \<open>The guards that every change has passed.\<close>

definition change_allowed :: "gotime \<Rightarrow> GroupState \<Rightarrow> bool" where
  "change_allowed now g \<longleftrightarrow>
     g_active g \<le> 0 \<and> g_active g < gp_max_changes (g_policy g) \<and>
     (IsZero (g_last g) \<or> gp_cooldown (g_policy g) \<le> time_sub now (g_last g))"

definition scales_out :: "Broker list \<Rightarrow> GroupState \<Rightarrow> Recommendation \<Rightarrow> bool" where
  "scales_out inventory g r \<longleftrightarrow>
     rc_action r = ActionScaleOut \<and> rc_proposed r = g_membership g @ [rc_broker r] \<and>
     int (length (g_membership g)) < gp_maximum (g_policy g) \<and> rc_broker r \<notin> set (g_membership g) \<and>
     (\<exists>b \<in> set inventory. b_id b = rc_broker r \<and> eligibleFor b (g_id g)) \<and>
     (\<forall>b \<in> set inventory. eligibleFor b (g_id g) \<longrightarrow> b_id b \<in> set (g_membership g) \<or> rc_broker r \<le> b_id b)"

definition scales_in :: "GroupState \<Rightarrow> Recommendation \<Rightarrow> bool" where
  "scales_in g r \<longleftrightarrow>
     rc_action r = ActionScaleIn \<and>
     (\<exists>c. g_choice g = Some c \<and> sc_safe c \<and> rc_broker r = sc_broker c \<and> rc_evidence r = sc_evidence c) \<and>
     rc_proposed r = removeBroker (g_membership g) (rc_broker r) \<and>
     policy_floor (g_policy g) \<le> int (length (rc_proposed r))"

definition sustained :: "gotime \<Rightarrow> gotime \<Rightarrow> GroupState \<Rightarrow> bool" where
  "sustained now since g \<longleftrightarrow> \<not> IsZero since \<and> gp_window (g_policy g) \<le> time_sub now since"

lemma scaleOut_eligible:
  assumes "scaleOut g a inventory reason = (r, True)"
  shows "scales_out inventory g r" and "rc_group r = g_id g" and "rc_current r = g_membership g"
proof -
  define bs where "bs = sort (map b_id (filter (\<lambda>b. b_id b \<notin> set (g_membership g) \<and> eligibleFor b (g_id g)) inventory))"
  obtain b rest where b: "bs = b # rest" and size: "int (length (g_membership g)) < gp_maximum (g_policy g)"
    and r: "r = (recommendation_for g a)\<lparr>rc_action := ActionScaleOut, rc_broker := b, rc_proposed := g_membership g @ [b],
                 rc_reason := reason\<rparr>"
    using assms by (auto simp: scaleOut_def Let_def bs_def split: if_splits list.splits)
  have in_bs: "i \<in> set bs \<longleftrightarrow> (\<exists>b \<in> set inventory. b_id b = i \<and> i \<notin> set (g_membership g) \<and> eligibleFor b (g_id g))" for i
    by (auto simp: bs_def)
  have "sorted bs" by (simp add: bs_def)
  then have least: "\<forall>i \<in> set bs. b \<le> i" using b by auto
  have first: "\<forall>b' \<in> set inventory. eligibleFor b' (g_id g) \<longrightarrow> b_id b' \<in> set (g_membership g) \<or> b \<le> b_id b'"
    using least in_bs by blast
  have "b \<in> set bs" using b by simp
  with first size show "scales_out inventory g r" "rc_group r = g_id g" "rc_current r = g_membership g"
    unfolding scales_out_def by (auto simp: r recommendation_for_def in_bs)
qed

lemma scaleOut_action: "scaleOut g a inventory reason = (r, False) \<Longrightarrow> rc_action r = ActionNone \<and> rc_group r = g_id g"
  by (auto simp: scaleOut_def Let_def recommendation_for_def split: if_splits list.splits)

lemma scaleIn_eligible:
  "scaleIn g a = (r, True) \<Longrightarrow> scales_in g r \<and> rc_group r = g_id g \<and> rc_current r = g_membership g"
  by (auto simp: scaleIn_def scales_in_def Let_def recommendation_for_def split: if_splits option.splits)

lemma scaleIn_action: "scaleIn g a = (r, False) \<Longrightarrow> rc_action r = ActionNone \<and> rc_group r = g_id g"
  by (auto simp: scaleIn_def Let_def recommendation_for_def split: if_splits option.splits)

lemma recommend_eligible:
  assumes "recommend now g a inventory since = (r, True)"
  shows "rc_group r = g_id g" and "rc_current r = g_membership g" and "ga_state a = TelemetryKnown" and "change_allowed now g"
    and "scales_out inventory g r \<and>
           (int (length (g_membership g)) < policy_floor (g_policy g) \<or>
            ga_pressure a = PressureBrokerSaturation \<and> sustained now since g) \<or>
         scales_in g r \<and> ga_pressure a \<notin> {PressureBrokerSaturation, PressureDownstreamBacklog}"
proof -
  have guards: "ga_state a = TelemetryKnown" "g_active g < gp_max_changes (g_policy g)" "\<not> 0 < g_active g"
    "IsZero (g_last g) \<or> \<not> time_sub now (g_last g) < gp_cooldown (g_policy g)"
    using assms by (auto simp: recommend_def Let_def split: if_splits)
  then show "ga_state a = TelemetryKnown" "change_allowed now g" by (auto simp: change_allowed_def)
  consider (below) reason where "int (length (g_membership g)) < policy_floor (g_policy g)" "scaleOut g a inventory reason = (r, True)"
    | (pressure) reason where "ga_pressure a = PressureBrokerSaturation" "sustained now since g" "scaleOut g a inventory reason = (r, True)"
    | (quiet) "ga_pressure a \<notin> {PressureBrokerSaturation, PressureDownstreamBacklog}" "scaleIn g a = (r, True)"
    using assms guards
    by (auto simp: recommend_def recommend_saturated_def sustained_def Let_def not_less
        split: if_splits PressureKind.splits)
  then show "rc_group r = g_id g" "rc_current r = g_membership g"
    "scales_out inventory g r \<and>
       (int (length (g_membership g)) < policy_floor (g_policy g) \<or> ga_pressure a = PressureBrokerSaturation \<and> sustained now since g) \<or>
     scales_in g r \<and> ga_pressure a \<notin> {PressureBrokerSaturation, PressureDownstreamBacklog}"
    by (cases; auto dest: scaleOut_eligible scaleIn_eligible)+
qed

lemma recommend_ineligible:
  "recommend now g a inventory since = (r, False) \<Longrightarrow> rc_action r = ActionNone \<and> rc_group r = g_id g"
  by (auto simp: recommend_def recommend_saturated_def Let_def recommendation_for_def
      dest: scaleOut_action scaleIn_action split: if_splits PressureKind.splits)

lemma recommend_eligible_action: "recommend now g a inventory since = (r, True) \<Longrightarrow> rc_action r \<noteq> ActionNone"
  using recommend_eligible(5) by (fastforce simp: scales_out_def scales_in_def)

section \<open>Admission\<close>

text \<open>The recommendation the cycle computes for a group, before the global bound.\<close>

definition group_outcome ::
  "gotime \<Rightarrow> Broker list \<Rightarrow> (string, GroupAssessment) gomap \<Rightarrow> (string, gotime) gomap \<Rightarrow> GroupState \<Rightarrow> Recommendation \<times> bool" where
  "group_outcome now inventory byGroup pressure g =
     (let since = mget_or pressure (g_id g) time_zero
      in recommend now g ((mget_or byGroup (g_id g) group_assessment_zero)\<lparr>ga_sustained := since\<rparr>) inventory since)"

lemma group_outcome_id: "rc_group (fst (group_outcome now inventory byGroup pressure g)) = g_id g"
  by (cases "group_outcome now inventory byGroup pressure g"; cases "snd (group_outcome now inventory byGroup pressure g)")
    (auto simp: group_outcome_def Let_def dest: recommend_eligible(1) recommend_ineligible)

lemma decide_group_eq:
  "decide_group now inventory byGroup pressure cy g =
     (let (r, eligible) = group_outcome now inventory byGroup pressure g;
          a = (mget_or byGroup (g_id g) group_assessment_zero)\<lparr>ga_sustained := mget_or pressure (g_id g) time_zero\<rparr>;
          cy = cy\<lparr>cy_assessments := updateGroupAssessment a (cy_assessments cy)\<rparr>
      in if eligible \<and> 0 < cy_free cy then
           cy\<lparr>cy_free := cy_free cy - 1, cy_transitions := cy_transitions cy @ [r], cy_groups := cy_groups cy @ [r]\<rparr>
         else cy\<lparr>cy_groups := cy_groups cy @ [if eligible then refused r else r]\<rparr>)"
  by (simp add: decide_group_def group_outcome_def Let_def split: prod.split)

text \<open>The admitted transitions are the first eligible recommendations that the bound leaves room for.\<close>

lemma decide_transitions:
  "cy_transitions (foldl (decide_group now inventory byGroup pressure) cy gs) =
     cy_transitions cy @ take (nat (cy_free cy)) (map fst (filter snd (map (group_outcome now inventory byGroup pressure) gs)))"
proof (induction gs arbitrary: cy)
  case (Cons g gs)
  show ?case
  proof (cases "snd (group_outcome now inventory byGroup pressure g) \<and> 0 < cy_free cy")
    case True
    then have "nat (cy_free cy) = Suc (nat (cy_free cy - 1))" by (simp add: Suc_nat_eq_nat_zadd1)
    with True Cons.IH show ?thesis by (simp add: decide_group_eq Let_def case_prod_beta)
  next
    case False
    then show ?thesis using Cons.IH by (auto simp: decide_group_eq Let_def case_prod_beta)
  qed
qed simp

lemma decide_groups:
  "map rc_group (cy_groups (foldl (decide_group now inventory byGroup pressure) cy gs)) = map rc_group (cy_groups cy) @ map g_id gs"
  by (induction gs arbitrary: cy) (simp_all add: decide_group_eq Let_def case_prod_beta group_outcome_id refused_def)

lemma decide_admitted:
  assumes "cy_transitions cy = filter (\<lambda>r. rc_action r \<noteq> ActionNone) (cy_groups cy)"
  shows "cy_transitions (foldl (decide_group now inventory byGroup pressure) cy gs) =
    filter (\<lambda>r. rc_action r \<noteq> ActionNone) (cy_groups (foldl (decide_group now inventory byGroup pressure) cy gs))"
  using assms
proof (induction gs arbitrary: cy)
  case (Cons g gs)
  obtain r eligible where out: "group_outcome now inventory byGroup pressure g = (r, eligible)" by fastforce
  then have "rc_action r \<noteq> ActionNone \<longleftrightarrow> eligible"
    by (cases eligible) (auto simp: group_outcome_def Let_def dest: recommend_eligible_action recommend_ineligible)
  with Cons.prems out have "cy_transitions (decide_group now inventory byGroup pressure cy g) =
      filter (\<lambda>r. rc_action r \<noteq> ActionNone) (cy_groups (decide_group now inventory byGroup pressure cy g))"
    by (simp add: decide_group_eq refused_def Let_def)
  from Cons.IH [OF this] show ?case by simp
qed simp

section \<open>Pressure windows\<close>

lemma copy_map_append:
  "distinct (map fst (m @ n)) \<Longrightarrow> foldl (\<lambda>m (k, v). mput k v m) m n = m @ n"
proof (induction n arbitrary: m)
  case (Cons p n)
  have fresh: "k \<notin> fst ` set m \<Longrightarrow> mput k v m = m @ [(k, v)]" for k :: 'a and v :: 'b
    by (induction m) (auto simp: mput_def)
  have "foldl (\<lambda>m (k, v). mput k v m) (m @ [p]) n = (m @ [p]) @ n" using Cons.prems by (intro Cons.IH) auto
  moreover have "mput (fst p) (snd p) m = m @ [p]" using Cons.prems fresh [of "fst p" "snd p"] by (cases p) auto
  ultimately show ?case by (cases p) simp
qed simp

lemma copy_map [simp]: "wf_map m \<Longrightarrow> foldl (\<lambda>m (k, v). mput k v m) [] m = m"
  using copy_map_append [of "[]" m] by (simp add: wf_map_def)

text \<open>The window of one group after a cycle.\<close>

definition window_after ::
  "gotime \<Rightarrow> gotime \<Rightarrow> (string, GroupAssessment) gomap \<Rightarrow> (string, BrokerAssessment) gomap \<Rightarrow> GroupState \<Rightarrow>
   gotime option \<Rightarrow> gotime option" where
  "window_after now prev byGroup byBroker g w =
     (if saturated (mget_or byGroup (g_id g) group_assessment_zero) \<and> freshCycle prev byBroker g
      then Some (case w of None \<Rightarrow> now | Some since \<Rightarrow> since) else None)"

lemma mget_advance_window:
  "mget (advance_window now prev byGroup byBroker m g) i =
     (if i = g_id g then window_after now prev byGroup byBroker g (mget m i) else mget m i)"
  by (auto simp: advance_window_def window_after_def Let_def split: option.split)

lemma wf_map_advance_window [simp]: "wf_map m \<Longrightarrow> wf_map (advance_window now prev byGroup byBroker m g)"
  by (simp add: advance_window_def Let_def)

lemma wf_map_advance_windows [simp]: "wf_map m \<Longrightarrow> wf_map (foldl (advance_window now prev byGroup byBroker) m gs)"
  by (induction gs arbitrary: m) simp_all

lemma mget_advance_absent:
  "i \<notin> g_id ` set gs \<Longrightarrow> mget (foldl (advance_window now prev byGroup byBroker) m gs) i = mget m i"
  by (induction gs arbitrary: m) (auto simp: mget_advance_window)

lemma mget_advance_windows:
  assumes "distinct (map g_id gs)" and "g \<in> set gs"
  shows "mget (foldl (advance_window now prev byGroup byBroker) m gs) (g_id g) =
    window_after now prev byGroup byBroker g (mget m (g_id g))"
  using assms
proof (induction gs arbitrary: m)
  case (Cons h gs)
  show ?case
  proof (cases "g = h")
    case True
    then show ?thesis using Cons.prems by (simp add: mget_advance_absent mget_advance_window image_iff)
  next
    case False
    then have "g_id g \<noteq> g_id h" using Cons.prems by (auto simp: image_iff)
    with False show ?thesis using Cons by (simp add: mget_advance_window)
  qed
qed simp

section \<open>The assessments a decision reports\<close>

definition same_assessment :: "GroupAssessment \<Rightarrow> GroupAssessment \<Rightarrow> bool" where
  "same_assessment a b \<longleftrightarrow> (\<exists>since. a = b\<lparr>ga_sustained := since\<rparr>)"

lemma updateGroupAssessment_same:
  assumes "list_all2 same_assessment as bs" and "distinct (map ga_group bs)" and "b \<in> set bs"
  shows "list_all2 same_assessment (updateGroupAssessment (b\<lparr>ga_sustained := since\<rparr>) as) bs"
  using assms
proof (induction rule: list_all2_induct)
  case (Cons a as c bs)
  have group: "ga_group a = ga_group c" using Cons.hyps by (auto simp: same_assessment_def)
  show ?case
  proof (cases "b = c")
    case True
    have "same_assessment (b\<lparr>ga_sustained := since\<rparr>) c" using True by (auto simp: same_assessment_def)
    then show ?thesis using Cons.hyps group True by simp
  next
    case False
    then have b: "b \<in> set bs" "ga_group c \<noteq> ga_group b" using Cons.prems by auto
    then have "updateGroupAssessment (b\<lparr>ga_sustained := since\<rparr>) (a # as) =
        a # updateGroupAssessment (b\<lparr>ga_sustained := since\<rparr>) as"
      using group by simp
    with Cons b show ?thesis by simp
  qed
qed simp

lemma decide_assessments:
  assumes "list_all2 same_assessment (cy_assessments cy) bs" and "distinct (map ga_group bs)"
    and "\<And>g. g \<in> set gs \<Longrightarrow> \<exists>b \<in> set bs. mget byGroup (g_id g) = Some b"
  shows "list_all2 same_assessment (cy_assessments (foldl (decide_group now inventory byGroup pressure) cy gs)) bs"
  using assms
proof (induction gs arbitrary: cy)
  case (Cons g gs)
  obtain b where b: "b \<in> set bs" "mget byGroup (g_id g) = Some b" using Cons.prems(3) by fastforce
  have "cy_assessments (decide_group now inventory byGroup pressure cy g) =
      updateGroupAssessment (b\<lparr>ga_sustained := mget_or pressure (g_id g) time_zero\<rparr>) (cy_assessments cy)"
    using b(2) by (simp add: decide_group_eq Let_def case_prod_beta mget_or_def)
  then have "list_all2 same_assessment (cy_assessments (decide_group now inventory byGroup pressure cy g)) bs"
    using updateGroupAssessment_same [OF Cons.prems(1,2) b(1)] by simp
  from Cons.IH [OF this Cons.prems(2)] Cons.prems(3) show ?case by simp
qed simp

section \<open>A cycle\<close>

definition index_assessments :: "GroupAssessment list \<Rightarrow> (string, GroupAssessment) gomap" where
  "index_assessments as = foldl (\<lambda>m a. mput (ga_group a) a m) [] as"

lemma distinct_sort_key: "distinct (map f xs) \<Longrightarrow> distinct (map f (sort_key f xs))"
  by (simp add: distinct_map)

text \<open>Everything a successful cycle computes, in terms of its aggregation.\<close>

lemma Evaluate_Aggregate:
  "Evaluate now t inventory groups e = (Inr d, e') \<Longrightarrow> \<exists>ag. Aggregate now t (en_catalog e) inventory groups = Inr ag"
  by (auto simp: Evaluate_def split: if_splits sum.splits)

lemma Evaluate_facts:
  assumes "Evaluate now t inventory groups e = (Inr d, e')" and "wf_map (en_pressure e)"
    and ag: "Aggregate now t (en_catalog e) inventory groups = Inr ag"
  shows "IsZero (en_last e) \<or> en_last e < now"
    and "en_last e' = now" and "en_catalog e' = en_catalog e" and "en_max_transitions e' = en_max_transitions e"
    and "en_pressure e' = foldl (advance_window now (en_last e) (index_assessments (ag_groups ag)) (assessments_by_broker (ag_brokers ag)))
       (en_pressure e) (sort_key g_id groups)"
    and "dc_transitions d = take (nat (free_transitions (en_max_transitions e) (sort_key g_id groups)))
       (map fst (filter snd (map (group_outcome now inventory (index_assessments (ag_groups ag)) (en_pressure e')) (sort_key g_id groups))))"
    and "dc_transitions d = filter (\<lambda>r. rc_action r \<noteq> ActionNone) (dc_groups d)"
    and "map rc_group (dc_groups d) = map g_id (sort_key g_id groups)"
    and "ag_brokers (dc_aggregation d) = ag_brokers ag"
    and "list_all2 same_assessment (ag_groups (dc_aggregation d)) (ag_groups ag)"
    and "\<And>g. g \<in> set groups \<Longrightarrow> \<exists>a \<in> set (ag_groups ag). ga_group a = g_id g \<and> mget (index_assessments (ag_groups ag)) (g_id g) = Some a"
proof -
  obtain cx as where cx: "aggregate_context now t (en_catalog e) inventory groups = Inr cx" "context_ok cx"
    "ag_groups ag = map (\<lambda>g. assessGroup cx g (assessments_by_broker as)) (sort_key g_id groups)"
    by (rule Aggregate_facts [OF ag]) (rule that)
  have ids: "map ga_group (ag_groups ag) = map g_id (sort_key g_id groups)" by (simp add: cx(3))
  have dist: "distinct (map ga_group (ag_groups ag))"
    using cx(2) aggregate_context_Inr(6) [OF cx(1)] by (simp add: ids context_ok_def distinct_sort_key)
  show index: "\<exists>a \<in> set (ag_groups ag). ga_group a = g_id g \<and> mget (index_assessments (ag_groups ag)) (g_id g) = Some a"
    if "g \<in> set groups" for g
  proof -
    have "assessGroup cx g (assessments_by_broker as) \<in> set (ag_groups ag)" using that by (simp add: cx(3))
    then obtain a where a: "a \<in> set (ag_groups ag)" "ga_group a = g_id g" using assessGroup_group by blast
    with mget_index [OF dist a(1), of "[]"] show ?thesis by (auto simp: index_assessments_def)
  qed
  define pressure where "pressure =
    foldl (advance_window now (en_last e) (index_assessments (ag_groups ag)) (assessments_by_broker (ag_brokers ag)))
      (en_pressure e) (sort_key g_id groups)"
  define cy where "cy = foldl (decide_group now inventory (index_assessments (ag_groups ag)) pressure)
    \<lparr>cy_free = free_transitions (en_max_transitions e) (sort_key g_id groups), cy_assessments = ag_groups ag,
     cy_groups = [], cy_transitions = []\<rparr> (sort_key g_id groups)"
  have eval: "IsZero (en_last e) \<or> en_last e < now" "e' = e\<lparr>en_pressure := pressure, en_last := now\<rparr>"
    "d = \<lparr>dc_at = now, dc_aggregation = ag\<lparr>ag_groups := cy_assessments cy\<rparr>, dc_groups = cy_groups cy,
          dc_transitions = cy_transitions cy\<rparr>"
    using assms ag by (auto simp: Evaluate_def Let_def pressure_def cy_def index_assessments_def split: if_splits)
  have same: "list_all2 same_assessment (ag_groups ag) (ag_groups ag)"
  proof -
    have "same_assessment a a" for a by (auto simp: same_assessment_def intro: exI [of _ "ga_sustained a"])
    then show ?thesis by (rule list.rel_refl)
  qed
  have "list_all2 same_assessment (cy_assessments cy) (ag_groups ag)"
    unfolding cy_def using same dist index by (intro decide_assessments) fastforce+
  moreover have "cy_transitions cy = filter (\<lambda>r. rc_action r \<noteq> ActionNone) (cy_groups cy)"
    unfolding cy_def by (rule decide_admitted) simp
  ultimately show "IsZero (en_last e) \<or> en_last e < now"
    and "en_last e' = now" and "en_catalog e' = en_catalog e" and "en_max_transitions e' = en_max_transitions e"
    and "en_pressure e' = foldl (advance_window now (en_last e) (index_assessments (ag_groups ag)) (assessments_by_broker (ag_brokers ag)))
       (en_pressure e) (sort_key g_id groups)"
    and "dc_transitions d = take (nat (free_transitions (en_max_transitions e) (sort_key g_id groups)))
       (map fst (filter snd (map (group_outcome now inventory (index_assessments (ag_groups ag)) (en_pressure e')) (sort_key g_id groups))))"
    and "dc_transitions d = filter (\<lambda>r. rc_action r \<noteq> ActionNone) (dc_groups d)"
    and "map rc_group (dc_groups d) = map g_id (sort_key g_id groups)"
    and "ag_brokers (dc_aggregation d) = ag_brokers ag"
    and "list_all2 same_assessment (ag_groups (dc_aggregation d)) (ag_groups ag)"
    using eval(1) by (simp_all add: eval(2,3) pressure_def cy_def decide_transitions decide_groups)
qed

end
