(* ===== verification/Policy_Runs.thy ===== *)
theory Policy_Runs
  imports Policy_Decisions
begin

text \<open>
  Runs of the policy engine: cycles that succeed, cycles that fail, and restarts that restore the saved
  state into a fresh engine. A run records its successful cycles, newest first.
\<close>

section \<open>Runs\<close>

record engine_cycle =
  ec_at :: gotime
  ec_prev :: gotime
  ec_groups :: "GroupState list"
  ec_decision :: Decision

inductive engine_run :: "Engine \<Rightarrow> engine_cycle list \<Rightarrow> bool" where
  new: "NewEngine c limit = Inr e \<Longrightarrow> engine_run e []"
| cycle: "engine_run e cs \<Longrightarrow> Evaluate now t inventory groups e = (Inr d, e') \<Longrightarrow>
    engine_run e' (\<lparr>ec_at = now, ec_prev = en_last e, ec_groups = groups, ec_decision = d\<rparr> # cs)"
| failed: "engine_run e cs \<Longrightarrow> Evaluate now t inventory groups e = (Inl err, e') \<Longrightarrow> engine_run e' cs"
| restart: "engine_run e cs \<Longrightarrow> NewEngine c limit = Inr e0 \<Longrightarrow> RestoreState (engine_State e) now e0 = (None, e') \<Longrightarrow>
    engine_run e' cs"

section \<open>The engine's invariant\<close>

definition engine_inv :: "Engine \<Rightarrow> bool" where
  "engine_inv e \<longleftrightarrow>
     wf_map (en_pressure e) \<and> (IsZero (en_last e) \<longrightarrow> en_pressure e = []) \<and> 1 \<le> en_max_transitions e \<and>
     (\<forall>i since. (i, since) \<in> set (en_pressure e) \<longrightarrow> i \<noteq> [] \<and> \<not> IsZero since \<and> since \<le> en_last e)"

lemma engine_inv_new: "NewEngine c limit = Inr e \<Longrightarrow> engine_inv e"
  by (auto simp: NewEngine_def engine_inv_def split: if_splits)

lemma Evaluate_error: "Evaluate now t inventory groups e = (Inl err, e') \<Longrightarrow> e' = e"
  by (auto simp: Evaluate_def Let_def split: if_splits sum.splits)

lemma Evaluate_context:
  assumes "Evaluate now t inventory groups e = (Inr d, e')"
  obtains cx where "aggregate_context now t (en_catalog e) inventory groups = Inr cx" "context_ok cx" "cx_groups cx = groups"
    "cx_now cx = now" "\<not> IsZero now"
proof -
  obtain ag where "Aggregate now t (en_catalog e) inventory groups = Inr ag"
    using assms by (auto simp: Evaluate_def split: if_splits sum.splits)
  then obtain cx where "aggregate_context now t (en_catalog e) inventory groups = Inr cx" "context_ok cx"
    by (rule Aggregate_facts)
  then show thesis using aggregate_context_Inr(1,4,6) by (intro that) auto
qed

lemma Evaluate_pressure_cases:
  assumes "Evaluate now t inventory groups e = (Inr d, e')" and "wf_map (en_pressure e)"
    and "mget (en_pressure e') i = Some since"
  shows "mget (en_pressure e) i = Some since \<or> since = now \<and> i \<in> g_id ` set groups"
proof -
  obtain ag where ag: "Aggregate now t (en_catalog e) inventory groups = Inr ag" using Evaluate_Aggregate [OF assms(1)] by blast
  note pressure = Evaluate_facts(5) [OF assms(1,2) ag]
  obtain cx where cx: "context_ok cx" "cx_groups cx = groups" by (rule Evaluate_context [OF assms(1)])
  have dist: "distinct (map g_id (sort_key g_id groups))" using cx by (simp add: context_ok_def distinct_sort_key)
  show ?thesis
  proof (cases "i \<in> g_id ` set groups")
    case True
    then obtain g where g: "g \<in> set groups" "i = g_id g" by blast
    then show ?thesis
      using assms(3) mget_advance_windows [OF dist, of g] by (auto simp: pressure window_after_def split: if_splits option.splits)
  next
    case False
    then show ?thesis using assms(3) by (simp add: pressure mget_advance_absent)
  qed
qed

lemma engine_inv_Evaluate:
  assumes "engine_inv e" and "Evaluate now t inventory groups e = (Inr d, e')"
  shows "engine_inv e'"
proof -
  have wf: "wf_map (en_pressure e)" using assms(1) by (simp add: engine_inv_def)
  obtain ag where ag: "Aggregate now t (en_catalog e) inventory groups = Inr ag" using Evaluate_Aggregate [OF assms(2)] by blast
  note facts = Evaluate_facts(1,2,4,5) [OF assms(2) wf ag]
  obtain cx where cx: "context_ok cx" "cx_groups cx = groups" "cx_now cx = now" "\<not> IsZero now"
    by (rule Evaluate_context [OF assms(2)])
  have wf': "wf_map (en_pressure e')" by (simp add: facts(4) wf)
  have "i \<noteq> [] \<and> \<not> IsZero since \<and> since \<le> now" if "(i, since) \<in> set (en_pressure e')" for i since
  proof -
    have "mget (en_pressure e') i = Some since" using that wf' by (simp add: wf_map_mget)
    with Evaluate_pressure_cases [OF assms(2) wf] consider "mget (en_pressure e) i = Some since" | "since = now" "i \<in> g_id ` set groups"
      by blast
    then show ?thesis
    proof cases
      case 1
      then have mem: "(i, since) \<in> set (en_pressure e)" by (rule map_of_SomeD)
      then have "\<not> IsZero (en_last e)" using assms(1) unfolding engine_inv_def by fastforce
      with mem assms(1) facts(1) show ?thesis unfolding engine_inv_def by fastforce
    next
      case 2
      then show ?thesis using cx by (auto simp: context_ok_def dest: group_ok_facts(1))
    qed
  qed
  with wf' facts(2,3) cx(4) assms(1) show ?thesis by (simp add: engine_inv_def)
qed

section \<open>Saved state\<close>

lemma restore_pressure_ok:
  assumes "\<And>i since. (i, since) \<in> set n \<Longrightarrow> i \<noteq> [] \<and> \<not> IsZero since \<and> since \<le> prev"
  shows "restore_pressure prev m n = Inr (foldl (\<lambda>m (k, v). mput k v m) m n)"
  using assms
proof (induction n arbitrary: m)
  case (Cons p n)
  obtain i since where p: "p = (i, since)" by fastforce
  have "i \<noteq> [] \<and> \<not> IsZero since \<and> since \<le> prev" using Cons.prems [of i since] p by simp
  moreover have "restore_pressure prev (mput i since m) n = Inr (foldl (\<lambda>m (k, v). mput k v m) (mput i since m) n)"
    by (rule Cons.IH) (use Cons.prems in auto)
  ultimately show ?case by (simp add: p)
qed simp

lemma restore_pressure_Inr:
  "restore_pressure prev m n = Inr m' \<Longrightarrow> m' = foldl (\<lambda>m (k, v). mput k v m) m n"
proof (induction n arbitrary: m)
  case (Cons p n)
  obtain i since where p: "p = (i, since)" by fastforce
  with Cons.prems have "restore_pressure prev (mput i since m) n = Inr m'" by (simp split: if_splits)
  from Cons.IH [OF this] show ?case by (simp add: p)
qed simp

lemma engine_State_eq: "wf_map (en_pressure e) \<Longrightarrow> engine_State e = \<lparr>es_last = en_last e, es_pressure = en_pressure e\<rparr>"
  by (simp add: engine_State_def)

lemma RestoreState_State:
  assumes "engine_inv e" and "\<not> IsZero now" and "en_last e \<le> now"
  shows "RestoreState (engine_State e) now e0 = (None, e0\<lparr>en_last := en_last e, en_pressure := en_pressure e\<rparr>)"
proof -
  have inv: "wf_map (en_pressure e)" "IsZero (en_last e) \<longrightarrow> en_pressure e = []"
    using assms(1) unfolding engine_inv_def by blast+
  have "restore_pressure (en_last e) [] (en_pressure e) = Inr (foldl (\<lambda>m (k, v). mput k v m) [] (en_pressure e))"
    using assms(1) by (intro restore_pressure_ok) (simp add: engine_inv_def)
  with inv assms(2,3) show ?thesis by (simp add: RestoreState_def engine_State_eq)
qed

lemma RestoreState_same:
  assumes "engine_inv e" and "RestoreState (engine_State e) now e0 = (None, e')"
  shows "e' = e0\<lparr>en_last := en_last e, en_pressure := en_pressure e\<rparr>"
proof -
  have wf: "wf_map (en_pressure e)" using assms(1) by (simp add: engine_inv_def)
  obtain m where m: "restore_pressure (en_last e) [] (en_pressure e) = Inr m"
    "e' = e0\<lparr>en_last := en_last e, en_pressure := m\<rparr>"
    using assms(2) by (auto simp: RestoreState_def engine_State_eq [OF wf] split: if_splits sum.splits)
  then show ?thesis using restore_pressure_Inr [OF m(1)] wf by simp
qed

lemma engine_run_inv: "engine_run e cs \<Longrightarrow> engine_inv e"
proof (induction rule: engine_run.induct)
  case (new c limit e)
  then show ?case by (rule engine_inv_new)
next
  case (cycle e cs now t inventory groups d e')
  show ?case by (rule engine_inv_Evaluate [OF cycle.IH cycle.hyps(2)])
next
  case (failed e cs now t inventory groups err e')
  show ?case unfolding Evaluate_error [OF failed.hyps(2)] by (rule failed.IH)
next
  case (restart e cs c limit e0 now e')
  have "1 \<le> en_max_transitions e0" using engine_inv_new [OF restart.hyps(2)] unfolding engine_inv_def by blast
  then show ?case unfolding RestoreState_same [OF restart.IH restart.hyps(3)]
    using restart.IH unfolding engine_inv_def by (intro conjI) simp_all
qed

section \<open>The evidence behind a pressure window\<close>

definition lists :: "engine_cycle \<Rightarrow> string \<Rightarrow> bool" where
  "lists c i \<longleftrightarrow> i \<in> g_id ` set (ec_groups c)"

text \<open>
  The cycle assessed the group as saturated, on measurements of each of its brokers that are newer than
  the cycle before.
\<close>

definition saturated_on_new_evidence :: "engine_cycle \<Rightarrow> string \<Rightarrow> bool" where
  "saturated_on_new_evidence c i \<longleftrightarrow>
     (\<exists>a \<in> set (ag_groups (dc_aggregation (ec_decision c))).
        ga_group a = i \<and> ga_state a = TelemetryKnown \<and> ga_pressure a = PressureBrokerSaturation) \<and>
     (IsZero (ec_prev c) \<or>
      (\<forall>g \<in> set (ec_groups c). g_id g = i \<longrightarrow>
         (\<forall>b \<in> set (g_membership g). \<exists>ba \<in> set (ag_brokers (dc_aggregation (ec_decision c))).
            ba_broker ba = b \<and> ec_prev c < ba_observed ba)))"

definition evidence_window :: "engine_cycle list \<Rightarrow> string \<Rightarrow> gotime \<Rightarrow> bool" where
  "evidence_window cs i since \<longleftrightarrow>
     (\<exists>c \<in> set cs. ec_at c = since \<and> lists c i) \<and>
     (\<forall>c \<in> set cs. since \<le> ec_at c \<longrightarrow> lists c i \<longrightarrow> saturated_on_new_evidence c i)"

lemma reported_assessment:
  assumes "list_all2 same_assessment as bs" and "b \<in> set bs"
  shows "\<exists>a \<in> set as. ga_group a = ga_group b \<and> ga_state a = ga_state b \<and> ga_pressure a = ga_pressure b"
  using assms by (induction rule: list_all2_induct) (auto simp: same_assessment_def)

lemma cycle_saturated:
  assumes eval: "Evaluate now t inventory groups e = (Inr d, e')" and wf: "wf_map (en_pressure e)"
    and g: "g \<in> set groups" and since: "mget (en_pressure e') (g_id g) = Some since"
  shows "saturated_on_new_evidence \<lparr>ec_at = now, ec_prev = en_last e, ec_groups = groups, ec_decision = d\<rparr> (g_id g)"
proof -
  obtain ag where ag: "Aggregate now t (en_catalog e) inventory groups = Inr ag" using Evaluate_Aggregate [OF eval] by blast
  note facts = Evaluate_facts [OF eval wf ag]
  obtain cx where cx: "context_ok cx" "cx_groups cx = groups"
    and brokers: "\<And>b. mget (cx_brokers cx) b \<noteq> None \<Longrightarrow>
      \<exists>a \<in> set (ag_brokers ag). assessBroker cx b = Inr a \<and> mget (assessments_by_broker (ag_brokers ag)) b = Some a"
    using Aggregate_facts [OF ag] aggregate_context_Inr(6) by metis
  have dist: "distinct (map g_id groups)" and valid: "\<And>h. h \<in> set groups \<Longrightarrow> group_ok (cx_now cx) (cx_brokers cx) h"
    using cx by (auto simp: context_ok_def)
  have window: "window_after now (en_last e) (index_assessments (ag_groups ag)) (assessments_by_broker (ag_brokers ag)) g
      (mget (en_pressure e) (g_id g)) = Some since"
    using since g mget_advance_windows [OF distinct_sort_key [OF dist], of g] by (simp add: facts(5))
  obtain a where a: "a \<in> set (ag_groups ag)" "ga_group a = g_id g" "mget (index_assessments (ag_groups ag)) (g_id g) = Some a"
    using facts(11) [OF g] by blast
  have "ga_state a = TelemetryKnown \<and> ga_pressure a = PressureBrokerSaturation"
    using window a(3) by (auto simp: window_after_def saturated_def mget_or_def split: if_splits)
  then have reported: "\<exists>a \<in> set (ag_groups (dc_aggregation d)).
      ga_group a = g_id g \<and> ga_state a = TelemetryKnown \<and> ga_pressure a = PressureBrokerSaturation"
    using reported_assessment [OF facts(10) a(1)] a(2) by auto
  have fresh: "IsZero (en_last e) \<or> hasNewPressureObservation g (assessments_by_broker (ag_brokers ag)) (en_last e)"
    using window by (auto simp: window_after_def freshCycle_def split: if_splits)
  have "\<exists>ba \<in> set (ag_brokers ag). ba_broker ba = b \<and> en_last e < ba_observed ba"
    if mem: "b \<in> set (g_membership g)" and later: "\<not> IsZero (en_last e)" for b
  proof -
    obtain ba where ba: "ba \<in> set (ag_brokers ag)" "assessBroker cx b = Inr ba" "mget (assessments_by_broker (ag_brokers ag)) b = Some ba"
      using brokers group_ok_facts(6) [OF valid [OF g] mem] by blast
    have "en_last e < ba_observed ba"
      using fresh mem later ba(3) by (force simp: hasNewPressureObservation_def list_all_iff mget_or_def)
    then show ?thesis using ba(1) assessBroker_broker [OF ba(2)] by blast
  qed
  moreover have "h = g" if "h \<in> set groups" "g_id h = g_id g" for h
    using dist g that by (metis distinct_map inj_onD)
  ultimately show ?thesis using reported by (auto simp: saturated_on_new_evidence_def facts(9))
qed

lemma engine_run_evidence:
  "engine_run e cs \<Longrightarrow> (\<forall>c \<in> set cs. ec_at c \<le> en_last e) \<and> (IsZero (en_last e) \<longrightarrow> cs = []) \<and>
     (\<forall>i since. mget (en_pressure e) i = Some since \<longrightarrow> evidence_window cs i since)"
proof (induction rule: engine_run.induct)
  case (new c limit e)
  then show ?case by (auto simp: NewEngine_def split: if_splits)
next
  case (cycle e cs now t inventory groups d e')
  define c where "c = \<lparr>ec_at = now, ec_prev = en_last e, ec_groups = groups, ec_decision = d\<rparr>"
  have wf: "wf_map (en_pressure e)" using engine_run_inv [OF cycle.hyps(1)] unfolding engine_inv_def by blast
  obtain ag where ag: "Aggregate now t (en_catalog e) inventory groups = Inr ag" using Evaluate_Aggregate [OF cycle.hyps(2)] by blast
  note facts = Evaluate_facts(1,2) [OF cycle.hyps(2) wf ag]
  obtain cx where nonzero: "\<not> IsZero now" by (rule Evaluate_context [OF cycle.hyps(2)])
  have earlier: "ec_at c' < now" if "c' \<in> set cs" for c'
    using cycle.IH facts(1) that by fastforce
  have "evidence_window (c # cs) i since" if w: "mget (en_pressure e') i = Some since" for i since
  proof -
    have evidence: "saturated_on_new_evidence c i" if "lists c i"
      using that cycle_saturated [OF cycle.hyps(2) wf] w by (auto simp: lists_def c_def)
    from Evaluate_pressure_cases [OF cycle.hyps(2) wf w] show ?thesis
    proof
      assume "mget (en_pressure e) i = Some since"
      then have "evidence_window cs i since" using cycle.IH by blast
      then show ?thesis using evidence by (auto simp: evidence_window_def)
    next
      assume "since = now \<and> i \<in> g_id ` set groups"
      then show ?thesis using evidence earlier by (fastforce simp: evidence_window_def lists_def c_def)
    qed
  qed
  then show ?case using earlier facts(2) nonzero unfolding c_def by fastforce
next
  case (failed e cs now t inventory groups err e')
  show ?case unfolding Evaluate_error [OF failed.hyps(2)] by (rule failed.IH)
next
  case (restart e cs c limit e0 now e')
  show ?case unfolding RestoreState_same [OF engine_run_inv [OF restart.hyps(1)] restart.hyps(3)] using restart.IH by simp
qed

end
