(* ===== verification/Policy_Demo.thy ===== *)
theory Policy_Demo
  imports Policy_Runs
begin

text \<open>
  A small policy problem on which the properties are instantiated: two ready brokers, one group on the
  first of them whose use has reached its capacity, and telemetry of any instant.
\<close>

definition demo_capacity :: CapacityLimits where
  "demo_capacity = \<lparr>cl_ingress = Finite 1, cl_egress = Finite 1, cl_spool = Finite 1, cl_connections = Finite 1\<rparr>"

definition demo_catalog :: ProfileCatalog where
  "demo_catalog = [((''c'', ''v''), \<lparr>cp_class = ''c'', cp_version = ''v'', cp_limits = demo_capacity\<rparr>)]"

definition demo_inventory :: "Broker list" where
  "demo_inventory =
     [\<lparr>b_id = ''a'', b_class = ''c'', b_version = ''v'', b_ready = True, b_eligible = [''g'']\<rparr>,
      \<lparr>b_id = ''b'', b_class = ''c'', b_version = ''v'', b_ready = True, b_eligible = [''g'']\<rparr>]"

definition demo_policy :: GroupPolicy where
  "demo_policy = \<lparr>gp_minimum = 1, gp_maximum = 2, gp_warm = 0, gp_headroom = Finite 0, gp_window = 5, gp_max_age = 100,
     gp_cooldown = 0, gp_max_changes = 1\<rparr>"

definition demo_group :: GroupState where
  "demo_group = \<lparr>g_id = ''g'', g_membership = [''a''], g_policy = demo_policy, g_active = 0, g_last = 0, g_choice = None\<rparr>"

definition demo_resources :: Resources where
  "demo_resources = \<lparr>rs_ingress = KnownMetric (Finite 1), rs_egress = KnownMetric (Finite 0), rs_spool = KnownMetric (Finite 0),
     rs_connections = KnownMetric (Finite 0)\<rparr>"

definition demo_telemetry :: "gotime \<Rightarrow> TelemetrySnapshot" where
  "demo_telemetry w = \<lparr>tel_captured = w,
     tel_brokers = [\<lparr>bs_broker = ''a'', bs_class = ''c'', bs_version = ''v'', bs_observed = w, bs_resources = demo_resources\<rparr>],
     tel_groups = [\<lparr>sm_group = ''g'', sm_broker = ''a'', sm_observed = w, sm_resources = demo_resources,
       sm_backlog = \<lparr>bl_queued = KnownMetric (Finite 0), bl_unacked = KnownMetric (Finite 0)\<rparr>\<rparr>]\<rparr>"

definition demo_engine :: Engine where
  "demo_engine = \<lparr>en_catalog = demo_catalog, en_max_transitions = 1, en_pressure = [], en_last = 0\<rparr>"

lemma pack_one: "pack False 1 = Finite 1"
proof -
  have "pow2 0 < pow2 1024" by (simp add: pow2_less_iff)
  then have "1 < pow2 1024" by (simp add: pow2_def)
  then have "round_mag 1 = Some 1" by (simp add: round_mag_Some)
  then show ?thesis by (simp add: pack_def)
qed

lemma demo_float:
  "fdiv (Finite 1) (Finite 1) = Finite 1" "fdiv (Finite 0) (Finite 1) = Finite 0"
  "fadd (Finite 0) (Finite 1) = Finite 1" "fadd (Finite 0) (Finite 0) = Finite 0"
  by (simp_all add: fdiv_def fadd_def IsInf_def pack_one signed_zero_def)

lemma demo_threshold: "saturationThreshold demo_policy = Finite 1"
  by (simp add: saturationThreshold_def demo_policy_def fsub_def fadd_def fdiv_def float_one_def float_hundred_def IsInf_def
      signed_zero_def pack_one)

definition demo_cx :: "gotime \<Rightarrow> aggregationContext" where
  "demo_cx w = \<lparr>cx_now = w, cx_catalog = demo_catalog,
      cx_brokers = map (\<lambda>b. (b_id b, b)) demo_inventory, cx_groups = [demo_group],
      cx_broker_samples = map (\<lambda>s. (bs_broker s, s)) (tel_brokers (demo_telemetry w)),
      cx_group_samples = map (\<lambda>s. (sample_key s, s)) (tel_groups (demo_telemetry w)), cx_memberships = [(''a'', [''g''])]\<rparr>"

lemma demo_context:
  "0 < w \<Longrightarrow> aggregate_context w (demo_telemetry w) demo_catalog demo_inventory [demo_group] = Inr (demo_cx w)"
  by (simp add: aggregate_context_def demo_cx_def demo_telemetry_def demo_catalog_def demo_inventory_def demo_group_def demo_policy_def
      demo_resources_def IsZero_def time_zero_def telemetry_Validate_def resources_validate_def metric_validate_def KnownMetric_def
      IsNaN_def IsInf_def flt_def fle_def feq_def float_zero_def float_hundred_def backlog_validate_def validateInventory_def Lookup_def group_validate_def policy_validate_def
      check_choice_def add_membership_def mget_or_def mput_def int64_def sample_key_def Let_def)

definition demo_utilization :: Utilization where
  "demo_utilization = \<lparr>ut_ingress = Finite 1, ut_egress = Finite 0, ut_spool = Finite 0, ut_connections = Finite 0\<rparr>"

definition demo_assessment_a :: "gotime \<Rightarrow> BrokerAssessment" where
  "demo_assessment_a w = broker_assessment_zero\<lparr>ba_broker := ''a'', ba_state := TelemetryKnown, ba_observed := w,
     ba_broker_utilization := demo_utilization, ba_grouped := demo_utilization, ba_shared := demo_utilization, ba_groups := [''g'']\<rparr>"

definition demo_assessment_b :: BrokerAssessment where
  "demo_assessment_b = broker_assessment_zero\<lparr>ba_broker := ''b'', ba_state := TelemetryUnknown, ba_reason := ''missing broker sample''\<rparr>"

definition demo_assessment :: GroupAssessment where
  "demo_assessment = group_assessment_zero\<lparr>ga_group := ''g'', ga_state := TelemetryKnown, ga_pressure := PressureBrokerSaturation,
     ga_workload := demo_utilization, ga_shared := demo_utilization, ga_ready_warm := 1\<rparr>"

lemma demo_profile_limits: "profile_limits (demo_cx w) ''a'' = demo_capacity"
  by (simp add: profile_limits_def demo_cx_def demo_inventory_def demo_catalog_def mget_or_def Lookup_def Let_def)

lemma demo_resources: "knownResources demo_resources =
    Some \<lparr>rv_ingress = Finite 1, rv_egress = Finite 0, rv_spool = Finite 0, rv_connections = Finite 0\<rparr>"
  by (simp add: knownResources_def resources_allKnown_def demo_resources_def KnownMetric_def)

lemma demo_utilization: "utilization \<lparr>rv_ingress = Finite 1, rv_egress = Finite 0, rv_spool = Finite 0, rv_connections = Finite 0\<rparr>
    demo_capacity = demo_utilization"
  by (simp add: utilization_def demo_capacity_def demo_utilization_def demo_float)

lemma demo_utilization_max: "utilization_max demo_utilization demo_utilization = demo_utilization"
  "utilization_max utilization_zero demo_utilization = demo_utilization"
  by (simp_all add: utilization_max_def demo_utilization_def utilization_zero_def fmax_def flt_def IsInf_def float_zero_def)

lemma demo_rv_add: "rv_add resources_zero \<lparr>rv_ingress = Finite 1, rv_egress = Finite 0, rv_spool = Finite 0, rv_connections = Finite 0\<rparr> =
    \<lparr>rv_ingress = Finite 1, rv_egress = Finite 0, rv_spool = Finite 0, rv_connections = Finite 0\<rparr>"
  by (simp add: rv_add_def resources_zero_def demo_float float_zero_def)

lemma time_sub_self [simp]: "time_sub w w = 0"
  by (simp add: time_sub_def max_duration_def min_duration_def)

lemma demo_assess_a: "assessBroker (demo_cx w) ''a'' = Inr (demo_assessment_a w)"
proof -
  have "mget (cx_broker_samples (demo_cx w)) ''a'' = Some (hd (tel_brokers (demo_telemetry w)))"
    and "mget_or (cx_memberships (demo_cx w)) ''a'' [] = [''g'']" 
    and "maxTelemetryAgeForBroker ''a'' (cx_groups (demo_cx w)) = 100"
    and "findGroup (cx_groups (demo_cx w)) ''g'' = Some demo_group"
    and "mget (cx_group_samples (demo_cx w)) (''g'', ''a'') = Some (hd (tel_groups (demo_telemetry w)))"
    and "cx_now (demo_cx w) = w"
    by (simp_all add: demo_cx_def demo_telemetry_def mget_or_def maxTelemetryAgeForBroker_def shorter_age_def demo_group_def demo_policy_def
        sample_key_def)
  then show ?thesis
    by (simp add: assessBroker_def scan_start_def scan_group_def Let_def demo_profile_limits demo_resources demo_rv_add demo_telemetry_def
        conclude_broker_def known_or_zero_def demo_utilization demo_utilization_max demo_assessment_a_def
        broker_assessment_zero_def) (simp add: demo_group_def demo_policy_def)
qed

lemma demo_assess_b: "assessBroker (demo_cx w) ''b'' = Inr demo_assessment_b"
  by (simp add: assessBroker_def demo_cx_def demo_telemetry_def Let_def demo_assessment_b_def mget_or_def broker_assessment_zero_def)

lemma demo_assess_group:
  "assessGroup (demo_cx w) demo_group (assessments_by_broker [demo_assessment_a w, demo_assessment_b]) = demo_assessment"
proof -
  have samples: "mget (cx_group_samples (demo_cx w)) (''g'', ''a'') = Some (hd (tel_groups (demo_telemetry w)))" "cx_now (demo_cx w) = w"
    and warm: "ready_warm (demo_cx w) demo_group = 1"
    by (simp_all add: demo_cx_def demo_telemetry_def sample_key_def ready_warm_def demo_inventory_def demo_group_def eligibleFor_def)
  have assessed: "mget_or (assessments_by_broker [demo_assessment_a w, demo_assessment_b]) ''a'' broker_assessment_zero = demo_assessment_a w"
    by (simp add: assessments_by_broker_def mget_or_def demo_assessment_a_def demo_assessment_b_def)
  have g: "g_id demo_group = ''g''" "g_membership demo_group = [''a'']" "g_policy demo_group = demo_policy"
    "gp_max_age demo_policy = 100" "gp_warm demo_policy = 0" "int64 (- 1) = - 1"
    by (simp_all add: demo_group_def demo_policy_def int64_def)
  define r where "r = \<lparr>rv_ingress = Finite 1, rv_egress = Finite 0, rv_spool = Finite 0, rv_connections = Finite 0\<rparr>"
  define l where "l = \<lparr>rv_ingress = Finite 1, rv_egress = Finite 1, rv_spool = Finite 1, rv_connections = Finite 1\<rparr>"
  have sums: "rv_add resources_zero r = r" "rv_add resources_zero (limitsValue demo_capacity) = l" "knownResources demo_resources = Some r"
    by (simp_all add: demo_rv_add demo_resources r_def l_def rv_add_def resources_zero_def limitsValue_def demo_capacity_def demo_float
        float_zero_def)
  have across: "utilizationAcross r l = demo_utilization"
    by (simp add: utilizationAcross_def r_def l_def fdivide_def feq_def float_zero_def IsInf_def demo_float demo_utilization_def)
  have peak: "Peak demo_utilization = Finite 1" "fle (Finite 1) (Finite 1)"
    by (simp_all add: Peak_def demo_utilization_def fmax_def flt_def IsInf_def fle_def feq_def)
  have zeros: "fadd float_zero (m_value (KnownMetric (Finite 0))) = float_zero" "m_known (KnownMetric (Finite 0))"
    by (simp_all add: KnownMetric_def float_zero_def demo_float)
  have a: "ba_state (demo_assessment_a w) = TelemetryKnown" "ba_shared (demo_assessment_a w) = demo_utilization"
    by (simp_all add: demo_assessment_a_def)
  show ?thesis
    by (simp add: assessGroup_def g scan_member_def assessed a samples demo_telemetry_def scan_sample_def sums zeros
        group_scan_start_def Let_def demo_profile_limits demo_utilization_max backlog_allKnown_def conclude_group_def across
        demo_threshold peak warm demo_assessment_def group_assessment_zero_def)
qed

lemma demo_aggregate:
  "0 < w \<Longrightarrow> Aggregate w (demo_telemetry w) demo_catalog demo_inventory [demo_group] =
    Inr \<lparr>ag_captured = w, ag_brokers = [demo_assessment_a w, demo_assessment_b], ag_groups = [demo_assessment]\<rparr>"
proof -
  assume w: "0 < w"
  have ids: "sort (map fst (cx_brokers (demo_cx w))) = [''a'', ''b'']" by (simp add: demo_cx_def demo_inventory_def)
  show ?thesis
    by (simp add: Aggregate_def demo_context [OF w] ids demo_assess_a demo_assess_b demo_assess_group del: map_map list.map)
      (simp add: demo_telemetry_def demo_assess_group)
qed

section \<open>Two cycles\<close>

definition demo_scale_out :: Recommendation where
  "demo_scale_out = \<lparr>rc_group = ''g'', rc_action = ActionScaleOut, rc_broker = ''b'', rc_current = [''a''],
     rc_proposed = [''a'', ''b''], rc_pressure = PressureBrokerSaturation, rc_telemetry = TelemetryKnown,
     rc_reason = ''broker pressure is sustained beyond the headroom threshold'', rc_evidence = []\<rparr>"

definition demo_engine1 :: Engine where
  "demo_engine1 = demo_engine\<lparr>en_pressure := [(''g'', 10)], en_last := 10\<rparr>"

definition demo_engine2 :: Engine where
  "demo_engine2 = demo_engine\<lparr>en_pressure := [(''g'', 10)], en_last := 20\<rparr>"

lemma demo_catalog_new: "NewProfileCatalog [\<lparr>cp_class = ''c'', cp_version = ''v'', cp_limits = demo_capacity\<rparr>] = Inr demo_catalog"
  by (simp add: NewProfileCatalog_def limits_validate_def demo_capacity_def IsNaN_def IsInf_def fle_def flt_def feq_def float_zero_def
      profile_key_def mput_def demo_catalog_def)

lemma demo_engine_new: "NewEngine demo_catalog 1 = Inr demo_engine"
  by (simp add: NewEngine_def demo_engine_def time_zero_def)

lemmas demo_cycle_defs = Evaluate_def demo_aggregate Let_def assessments_by_broker_def demo_assessment_def demo_assessment_a_def
  demo_assessment_b_def group_assessment_zero_def broker_assessment_zero_def advance_window_def saturated_def freshCycle_def
  hasNewPressureObservation_def mget_or_def mput_def IsZero_def time_zero_def free_transitions_def decide_group_def recommend_def
  recommend_saturated_def scaleOut_def recommendation_for_def time_sub_def max_duration_def min_duration_def int64_def
  policy_floor_def demo_group_def demo_policy_def demo_inventory_def eligibleFor_def

lemma demo_first:
  "\<exists>d. Evaluate 10 (demo_telemetry 10) demo_inventory [demo_group] demo_engine = (Inr d, demo_engine1)"
  unfolding demo_engine_def demo_engine1_def by (simp add: Evaluate_def demo_aggregate)
    (simp add: demo_cycle_defs)

lemma demo_second:
  "\<exists>d. Evaluate 20 (demo_telemetry 20) demo_inventory [demo_group] demo_engine1 = (Inr d, demo_engine2) \<and>
     dc_transitions d = [demo_scale_out]"
  unfolding demo_engine_def demo_engine1_def demo_engine2_def by (simp add: Evaluate_def demo_aggregate)
    (simp add: demo_cycle_defs demo_scale_out_def)

end
