(* ===== verification/Policy_Properties.thy ===== *)
theory Policy_Properties
  imports Policy_Demo "HOL-Library.Multiset"
begin

text \<open>The properties of the capacity policy.\<close>

section \<open>Decisions\<close>

lemma transition_outcome:
  assumes "Evaluate now t inventory groups e = (Inr d, e')" and "wf_map (en_pressure e)" and "r \<in> set (dc_transitions d)"
  shows "\<exists>g a. g \<in> set groups \<and> rc_group r = g_id g \<and> a \<in> set (ag_groups (dc_aggregation d)) \<and> ga_group a = g_id g \<and>
    ga_state a = TelemetryKnown \<and> change_allowed now g \<and> rc_current r = g_membership g \<and>
    (scales_out inventory g r \<and> (int (length (g_membership g)) < policy_floor (g_policy g) \<or>
       sustained now (mget_or (en_pressure e') (g_id g) time_zero) g) \<or>
     scales_in g r \<and> ga_pressure a \<notin> {PressureBrokerSaturation, PressureDownstreamBacklog})"
proof -
  obtain ag where ag: "Aggregate now t (en_catalog e) inventory groups = Inr ag" using Evaluate_Aggregate [OF assms(1)] by blast
  note facts = Evaluate_facts [OF assms(1,2) ag]
  obtain g where g: "g \<in> set groups"
    and out: "group_outcome now inventory (index_assessments (ag_groups ag)) (en_pressure e') g = (r, True)"
  proof -
    have "r \<in> set (map fst (filter snd (map (group_outcome now inventory (index_assessments (ag_groups ag)) (en_pressure e')) (sort_key g_id groups))))"
      using assms(3) unfolding facts(6) by (rule in_set_takeD)
    then obtain g where "g \<in> set groups" "fst (group_outcome now inventory (index_assessments (ag_groups ag)) (en_pressure e') g) = r"
      "snd (group_outcome now inventory (index_assessments (ag_groups ag)) (en_pressure e') g)" by auto
    then show thesis using that [of g] by (simp add: prod_eq_iff)
  qed
  obtain b where b: "b \<in> set (ag_groups ag)" "ga_group b = g_id g" "mget (index_assessments (ag_groups ag)) (g_id g) = Some b"
    using facts(11) [OF g] by blast
  obtain a where a: "a \<in> set (ag_groups (dc_aggregation d))" "ga_group a = ga_group b" "ga_state a = ga_state b" "ga_pressure a = ga_pressure b"
    using reported_assessment [OF facts(10) b(1)] by blast
  define since where "since = mget_or (en_pressure e') (g_id g) time_zero"
  have rec: "recommend now g (b\<lparr>ga_sustained := since\<rparr>) inventory since = (r, True)"
    using out b(3) by (simp add: group_outcome_def mget_or_def since_def Let_def)
  have "scales_out inventory g r \<and> (int (length (g_membership g)) < policy_floor (g_policy g) \<or> sustained now since g) \<or>
      scales_in g r \<and> ga_pressure a \<notin> {PressureBrokerSaturation, PressureDownstreamBacklog}"
    using recommend_eligible(5) [OF rec] a(4) by auto
  then show ?thesis
    using g a(1-3) b(2) recommend_eligible(1-4) [OF rec] unfolding since_def by (intro exI [of _ g] exI [of _ a]) simp
qed

lemma distinct_removeBroker: "distinct xs \<Longrightarrow> distinct (removeBroker xs b)"
  by (simp add: removeBroker_def)

text \<open>
  C29. Every membership change the policy admits is sound. The change belongs to a group of the cycle
  whose telemetry is known, which has no transition under way and whose cooldown has passed, and its
  current membership is the group's. A scale-out appends exactly one broker, the first by ID of the
  ready inventory brokers that may serve the group and are not members, and stays within the maximum.
  A scale-in removes exactly the member that was explicitly chosen, with the choice marked safe and
  evidence given, only without broker pressure or backlog, and keeps the floor of minimum plus warm
  brokers, which is the 64-bit sum that the code computes.
\<close>

theorem transitions_sound:
  assumes "engine_run e cs" and "Evaluate now t inventory groups e = (Inr d, e')" and "r \<in> set (dc_transitions d)"
  shows "\<exists>g \<in> set groups. rc_group r = g_id g \<and> rc_current r = g_membership g \<and> change_allowed now g \<and>
    distinct (rc_proposed r) \<and> int (length (rc_proposed r)) \<le> gp_maximum (g_policy g) \<and>
    (\<exists>a \<in> set (ag_groups (dc_aggregation d)). ga_group a = g_id g \<and> ga_state a = TelemetryKnown \<and>
       (scales_out inventory g r \<or>
        scales_in g r \<and> rc_evidence r \<noteq> [] \<and> rc_broker r \<in> set (g_membership g) \<and>
        int (length (g_membership g)) = int (length (rc_proposed r)) + 1 \<and>
        ga_pressure a \<notin> {PressureBrokerSaturation, PressureDownstreamBacklog}))"
proof -
  have wf: "wf_map (en_pressure e)" using engine_run_inv [OF assms(1)] unfolding engine_inv_def by blast
  obtain g a where g: "g \<in> set groups" "rc_group r = g_id g" "a \<in> set (ag_groups (dc_aggregation d))" "ga_group a = g_id g"
    "ga_state a = TelemetryKnown" "change_allowed now g" "rc_current r = g_membership g"
    and kind: "scales_out inventory g r \<or> scales_in g r \<and> ga_pressure a \<notin> {PressureBrokerSaturation, PressureDownstreamBacklog}"
    using transition_outcome [OF assms(2) wf assms(3)] by blast
  obtain cx where cx: "context_ok cx" "cx_groups cx = groups" by (rule Evaluate_context [OF assms(2)])
  have ok: "group_ok (cx_now cx) (cx_brokers cx) g" using cx g(1) by (auto simp: context_ok_def)
  note valid = group_ok_facts(4,5,7) [OF ok]
  have out: "distinct (rc_proposed r) \<and> int (length (rc_proposed r)) \<le> gp_maximum (g_policy g)" if "scales_out inventory g r"
    using that valid(2) by (auto simp: scales_out_def)
  have shrinks: "distinct (rc_proposed r) \<and> int (length (rc_proposed r)) \<le> gp_maximum (g_policy g) \<and> rc_evidence r \<noteq> [] \<and>
      rc_broker r \<in> set (g_membership g) \<and> int (length (g_membership g)) = int (length (rc_proposed r)) + 1" if shrink: "scales_in g r"
  proof -
    obtain c where c: "g_choice g = Some c" "sc_safe c" "rc_broker r = sc_broker c" "rc_evidence r = sc_evidence c"
      and proposed: "rc_proposed r = removeBroker (g_membership g) (rc_broker r)" using shrink by (auto simp: scales_in_def)
    have member: "rc_broker r \<in> set (g_membership g)" "rc_evidence r \<noteq> []"
      using valid(3) c by (auto simp: check_choice_def split: if_splits)
    have "removeBroker (g_membership g) (rc_broker r) = remove1 (rc_broker r) (g_membership g)"
      using valid(2) by (simp add: removeBroker_def distinct_remove1_removeAll removeAll_filter_not_eq [symmetric] neq_commute)
        (simp add: removeAll_filter_not_eq eq_commute)
    then have "length (rc_proposed r) = length (g_membership g) - 1" using member(1) by (simp add: proposed length_remove1)
    then have "int (length (g_membership g)) = int (length (rc_proposed r)) + 1"
      using length_pos_if_in_set [OF member(1)] by linarith
    then show ?thesis using member valid(1,2) distinct_removeBroker by (auto simp: proposed)
  qed
  show ?thesis using g kind out shrinks by blast
qed

theorem transitions_sound_witness:
  "\<exists>d. Evaluate 20 (demo_telemetry 20) demo_inventory [demo_group] demo_engine1 = (Inr d, demo_engine2) \<and>
     demo_scale_out \<in> set (dc_transitions d) \<and>
     (\<exists>g \<in> set [demo_group]. rc_group demo_scale_out = g_id g \<and> rc_current demo_scale_out = g_membership g \<and> change_allowed 20 g \<and>
        distinct (rc_proposed demo_scale_out) \<and> int (length (rc_proposed demo_scale_out)) \<le> gp_maximum (g_policy g))"
proof -
  obtain d1 where d1: "Evaluate 10 (demo_telemetry 10) demo_inventory [demo_group] demo_engine = (Inr d1, demo_engine1)"
    using demo_first by blast
  obtain d where d: "Evaluate 20 (demo_telemetry 20) demo_inventory [demo_group] demo_engine1 = (Inr d, demo_engine2)"
    "dc_transitions d = [demo_scale_out]" using demo_second by blast
  have run: "engine_run demo_engine1 [\<lparr>ec_at = 10, ec_prev = en_last demo_engine, ec_groups = [demo_group], ec_decision = d1\<rparr>]"
    by (rule engine_run.cycle [OF engine_run.new [OF demo_engine_new] d1])
  have mem: "demo_scale_out \<in> set (dc_transitions d)" by (simp add: d(2))
  from transitions_sound [OF run d(1) mem] d mem show ?thesis by blast
qed

section \<open>The global bound\<close>

lemma free_transitions_eq:
  assumes "in_int64 limit" and "0 \<le> limit" and "\<And>g. g \<in> set gs \<Longrightarrow> 0 \<le> g_active g" and "sum_list (map g_active gs) < 2 ^ 63"
  shows "free_transitions limit gs = max 0 (limit - sum_list (map g_active gs))"
proof -
  have "foldl (\<lambda>free g. int64 (free - g_active g)) x gs = x - sum_list (map g_active gs)"
    if "x < 2 ^ 63" "- (2 ^ 63) \<le> x - sum_list (map g_active gs)" for x
    using that assms(3)
  proof (induction gs arbitrary: x)
    case (Cons g gs)
    have pos: "0 \<le> g_active g" "0 \<le> sum_list (map g_active gs)"
      using Cons.prems(3) by (simp, intro sum_list_nonneg) auto
    have "int64 (x - g_active g) = x - g_active g" using Cons.prems(1,2) pos by (intro int64_id) (simp add: in_int64_def)
    moreover have "foldl (\<lambda>free g. int64 (free - g_active g)) (x - g_active g) gs = (x - g_active g) - sum_list (map g_active gs)"
    proof (rule Cons.IH)
      show "x - g_active g < 2 ^ 63" using Cons.prems(1) pos(1) by simp
      show "- (2 ^ 63) \<le> x - g_active g - sum_list (map g_active gs)" using Cons.prems(2) by simp
    qed (use Cons.prems(3) in auto)
    ultimately show ?case by simp
  qed simp
  then show ?thesis using assms(1,2,4) by (simp add: free_transitions_def in_int64_def)
qed

lemma sum_active_sorted: "sum_list (map g_active (sort_key g_id gs)) = sum_list (map g_active gs)"
  by (metis mset_map mset_sort sum_mset_sum_list)

text \<open>
  C30. A cycle admits no more changes than the global bound leaves: when the transitions already under way in the groups add up to less
  than \<open>2 ^ 63\<close>, the number of admitted transitions is at most what they leave of the configured maximum, and none is admitted when they use
  it up or exceed it. The admitted transitions are the entries of the decision that ask for a change, at most one per group, and the decision
  has one entry for each group, in the order of group IDs. The sum has to be bounded because the code subtracts without an overflow check.
\<close>

theorem transitions_within_limit:
  assumes "engine_run e cs" and "Evaluate now t inventory groups e = (Inr d, e')"
    and "in_int64 (en_max_transitions e)" and "sum_list (map g_active groups) < 2 ^ 63"
  shows "dc_transitions d = filter (\<lambda>r. rc_action r \<noteq> ActionNone) (dc_groups d) \<and>
    map rc_group (dc_groups d) = sort (map g_id groups) \<and> distinct (map rc_group (dc_transitions d)) \<and>
    int (length (dc_transitions d)) + sum_list (map g_active groups) \<le> max (en_max_transitions e) (sum_list (map g_active groups))"
proof -
  have inv: "wf_map (en_pressure e)" "1 \<le> en_max_transitions e"
    using engine_run_inv [OF assms(1)] unfolding engine_inv_def by blast+
  obtain ag where ag: "Aggregate now t (en_catalog e) inventory groups = Inr ag" using Evaluate_Aggregate [OF assms(2)] by blast
  note facts = Evaluate_facts [OF assms(2) inv(1) ag]
  obtain cx where cx: "context_ok cx" "cx_groups cx = groups" by (rule Evaluate_context [OF assms(2)])
  have groups: "map rc_group (dc_groups d) = sort (map g_id groups)"
    unfolding facts(8) by (rule properties_for_sort [symmetric]) simp_all
  have "distinct (map rc_group (dc_groups d))" using cx by (simp add: groups context_ok_def)
  then have dist: "distinct (map rc_group (dc_transitions d))" unfolding facts(7) by (rule distinct_map_filter)
  have "\<And>g. g \<in> set (sort_key g_id groups) \<Longrightarrow> 0 \<le> g_active g"
    using cx by (auto simp: context_ok_def dest: group_ok_facts(3))
  then have free: "free_transitions (en_max_transitions e) (sort_key g_id groups) =
      max 0 (en_max_transitions e - sum_list (map g_active groups))"
    using free_transitions_eq [of "en_max_transitions e" "sort_key g_id groups"] assms(3,4) inv(2) by (simp add: sum_active_sorted)
  have "length (dc_transitions d) \<le> nat (max 0 (en_max_transitions e - sum_list (map g_active groups)))"
    unfolding facts(6) free by simp
  then have "int (length (dc_transitions d)) + sum_list (map g_active groups) \<le> max (en_max_transitions e) (sum_list (map g_active groups))"
    by linarith
  with facts(7) groups dist show ?thesis by blast
qed

theorem transitions_within_limit_witness:
  "\<exists>d. Evaluate 20 (demo_telemetry 20) demo_inventory [demo_group] demo_engine1 = (Inr d, demo_engine2) \<and>
     dc_transitions d = [demo_scale_out] \<and>
     int (length (dc_transitions d)) + sum_list (map g_active [demo_group]) \<le> max (en_max_transitions demo_engine1) 0"
proof -
  obtain d1 where d1: "Evaluate 10 (demo_telemetry 10) demo_inventory [demo_group] demo_engine = (Inr d1, demo_engine1)"
    using demo_first by blast
  obtain d where d: "Evaluate 20 (demo_telemetry 20) demo_inventory [demo_group] demo_engine1 = (Inr d, demo_engine2)"
    "dc_transitions d = [demo_scale_out]" using demo_second by blast
  note run = engine_run.cycle [OF engine_run.new [OF demo_engine_new] d1]
  have "in_int64 (en_max_transitions demo_engine1)" "sum_list (map g_active [demo_group]) < 2 ^ 63"
    by (simp_all add: in_int64_def demo_engine1_def demo_engine_def demo_group_def)
  from transitions_within_limit [OF run d(1) this] d show ?thesis by (auto simp: demo_group_def)
qed

text \<open>Two groups with the largest count of active transitions wrap the subtraction: more than the whole maximum seems to be free.\<close>

lemma active_count_wraps:
  assumes "1 \<le> limit" and "limit < 2 ^ 62" and "g_active g1 = 2 ^ 63 - 1" and "g_active g2 = 2 ^ 63 - 1"
  shows "free_transitions limit [g1, g2] = limit + 2"
proof -
  have "(limit - 9223372036854775806) mod 18446744073709551616 = (limit + 9223372036854775810 - 18446744073709551616) mod 18446744073709551616" by simp
  also have "\<dots> = limit + 9223372036854775810" unfolding minus_mod_self2 using assms(1,2) by (intro mod_pos_pos_trivial) simp_all
  finally show ?thesis using assms by (simp add: free_transitions_def int64_def)
qed

section \<open>Sustained evidence\<close>

text \<open>
  C31. Pressure alone adds a broker only on sustained evidence. In any run of the engine, through failed
  cycles and restarts from saved state, an admitted scale-out of a group that is not below its floor
  rests on a window: a cycle that listed the group happened at least the configured pressure window
  ago, and in every cycle since then that listed the group, this one included, the group was assessed
  as saturated with known telemetry, on measurements of each member broker that were newer than the
  cycle before.
\<close>

theorem scale_out_on_sustained_evidence:
  assumes "engine_run e cs" and "Evaluate now t inventory groups e = (Inr d, e')" and "r \<in> set (dc_transitions d)"
    and "rc_action r = ActionScaleOut"
  shows "\<exists>g \<in> set groups. rc_group r = g_id g \<and>
    (int (length (g_membership g)) < policy_floor (g_policy g) \<or>
     (\<exists>since. since + gp_window (g_policy g) \<le> now \<and>
        evidence_window (\<lparr>ec_at = now, ec_prev = en_last e, ec_groups = groups, ec_decision = d\<rparr> # cs) (g_id g) since))"
proof -
  have wf: "wf_map (en_pressure e)" using engine_run_inv [OF assms(1)] unfolding engine_inv_def by blast
  obtain g where g: "g \<in> set groups" "rc_group r = g_id g"
    and kind: "scales_out inventory g r \<and> (int (length (g_membership g)) < policy_floor (g_policy g) \<or>
        sustained now (mget_or (en_pressure e') (g_id g) time_zero) g) \<or> scales_in g r"
    using transition_outcome [OF assms(2) wf assms(3)] by blast
  obtain cx where cx: "context_ok cx" "cx_groups cx = groups" by (rule Evaluate_context [OF assms(2)])
  have ok: "group_ok (cx_now cx) (cx_brokers cx) g" using cx g(1) by (auto simp: context_ok_def)
  have window: "min_duration < gp_window (g_policy g)"
    using policy_validate_facts(5) [OF group_ok_facts(2) [OF ok]] by (simp add: min_duration_def)
  have "\<not> scales_in g r" using assms(4) by (simp add: scales_in_def)
  with kind consider "int (length (g_membership g)) < policy_floor (g_policy g)"
    | "sustained now (mget_or (en_pressure e') (g_id g) time_zero) g" by blast
  then show ?thesis
  proof cases
    case 2
    then obtain since where since: "mget (en_pressure e') (g_id g) = Some since" "gp_window (g_policy g) \<le> time_sub now since"
      by (auto simp: sustained_def mget_or_def IsZero_def split: option.splits)
    have "since + gp_window (g_policy g) \<le> now" using time_sub_ge_D [OF window since(2)] by simp
    moreover have "evidence_window (\<lparr>ec_at = now, ec_prev = en_last e, ec_groups = groups, ec_decision = d\<rparr> # cs) (g_id g) since"
      using engine_run_evidence [OF engine_run.cycle [OF assms(1,2)]] since(1) by blast
    ultimately show ?thesis using g by blast
  qed (use g in blast)
qed

theorem scale_out_on_sustained_evidence_witness:
  "\<exists>d1 d. engine_run demo_engine1 [\<lparr>ec_at = 10, ec_prev = 0, ec_groups = [demo_group], ec_decision = d1\<rparr>] \<and>
     Evaluate 20 (demo_telemetry 20) demo_inventory [demo_group] demo_engine1 = (Inr d, demo_engine2) \<and>
     demo_scale_out \<in> set (dc_transitions d) \<and> rc_action demo_scale_out = ActionScaleOut \<and>
     (\<exists>since. since + 5 \<le> 20 \<and>
        evidence_window [\<lparr>ec_at = 20, ec_prev = 10, ec_groups = [demo_group], ec_decision = d\<rparr>,
          \<lparr>ec_at = 10, ec_prev = 0, ec_groups = [demo_group], ec_decision = d1\<rparr>] ''g'' since)"
proof -
  obtain d1 where d1: "Evaluate 10 (demo_telemetry 10) demo_inventory [demo_group] demo_engine = (Inr d1, demo_engine1)"
    using demo_first by blast
  obtain d where d: "Evaluate 20 (demo_telemetry 20) demo_inventory [demo_group] demo_engine1 = (Inr d, demo_engine2)"
    "dc_transitions d = [demo_scale_out]" using demo_second by blast
  note run = engine_run.cycle [OF engine_run.new [OF demo_engine_new] d1]
  have times: "en_last demo_engine = 0" "en_last demo_engine1 = 10" by (simp_all add: demo_engine_def demo_engine1_def)
  have mem: "demo_scale_out \<in> set (dc_transitions d)" "rc_action demo_scale_out = ActionScaleOut"
    by (simp_all add: d(2) demo_scale_out_def)
  have group: "\<not> int (length (g_membership demo_group)) < policy_floor (g_policy demo_group)"
    "gp_window (g_policy demo_group) = 5" "g_id demo_group = ''g''"
    by (simp_all add: demo_group_def demo_policy_def policy_floor_def int64_def)
  from scale_out_on_sustained_evidence [OF run d(1) mem] obtain since where "since + 5 \<le> 20"
    "evidence_window [\<lparr>ec_at = 20, ec_prev = 10, ec_groups = [demo_group], ec_decision = d\<rparr>,
       \<lparr>ec_at = 10, ec_prev = 0, ec_groups = [demo_group], ec_decision = d1\<rparr>] ''g'' since"
    using group by (auto simp: times)
  with run d(1) mem show ?thesis unfolding times by blast
qed

section \<open>Saved state\<close>

text \<open>
  C32. The saved state of an engine restores it: at any point of any run, restoring \<open>State\<close> into a fresh
  engine with the same catalog and bound, at a time that is set and not before the last evaluation,
  succeeds and gives back the engine, all its pressure windows included; at a time before the last
  evaluation it is refused and the fresh engine is left as it was.
\<close>

theorem engine_state_restores:
  assumes "engine_run e cs" and "NewEngine (en_catalog e) (en_max_transitions e) = Inr e0" and "\<not> IsZero now"
  shows "RestoreState (engine_State e) now e0 =
    (if \<not> IsZero (en_last e) \<and> now < en_last e then (Some LastEvaluationInFuture, e0) else (None, e))"
proof -
  have inv: "engine_inv e" by (rule engine_run_inv [OF assms(1)])
  have e0: "e0\<lparr>en_last := en_last e, en_pressure := en_pressure e\<rparr> = e"
    using assms(2) by (auto simp: NewEngine_def split: if_splits)
  show ?thesis
  proof (cases "\<not> IsZero (en_last e) \<and> now < en_last e")
    case True
    then show ?thesis using assms(3) by (simp add: RestoreState_def engine_State_def)
  next
    case False
    show ?thesis
    proof (cases "IsZero (en_last e)")
      case True
      then have "en_pressure e = []" using inv by (simp add: engine_inv_def)
      then have "RestoreState (engine_State e) now e0 = (None, e0\<lparr>en_last := en_last e, en_pressure := en_pressure e\<rparr>)"
        using True assms(3) by (simp add: RestoreState_def engine_State_def)
      then show ?thesis unfolding e0 using True by simp
    next
      case last: False
      then have "en_last e \<le> now" using False by simp
      from RestoreState_State [OF inv assms(3) this, of e0] show ?thesis unfolding e0 using False by simp
    qed
  qed
qed

theorem engine_state_restores_witness:
  "RestoreState (engine_State demo_engine1) 15 demo_engine = (None, demo_engine1) \<and>
   RestoreState (engine_State demo_engine1) 5 demo_engine = (Some LastEvaluationInFuture, demo_engine)"
proof -
  obtain d1 where d1: "Evaluate 10 (demo_telemetry 10) demo_inventory [demo_group] demo_engine = (Inr d1, demo_engine1)"
    using demo_first by blast
  note run = engine_run.cycle [OF engine_run.new [OF demo_engine_new] d1]
  have new: "NewEngine (en_catalog demo_engine1) (en_max_transitions demo_engine1) = Inr demo_engine"
    using demo_engine_new by (simp add: demo_engine1_def demo_engine_def)
  have "\<not> IsZero 15" "\<not> IsZero 5" "en_last demo_engine1 = 10" "\<not> IsZero 10"
    by (simp_all add: IsZero_def time_zero_def demo_engine1_def)
  with engine_state_restores [OF run new] show ?thesis by simp
qed

section \<open>Saturation\<close>

text \<open>The broker assessment of a member, and the group assessment of a group, in a successful cycle.\<close>

lemma Aggregate_assessed:
  assumes "NewProfileCatalog ps = Inr c" and "Aggregate now t c inventory groups = Inr ag" and "g \<in> set groups"
    and cx: "aggregate_context now t c inventory groups = Inr cx"
  shows "inventory_ok c inventory (cx_brokers cx)" and "cx_catalog cx = c" and "group_ok now (cx_brokers cx) g"
    and "\<And>b. b \<in> set (g_membership g) \<Longrightarrow> positive_limits (profile_limits cx b)"
    and "\<And>b. b \<in> set (g_membership g) \<Longrightarrow>
       \<exists>a \<in> set (ag_brokers ag). assessBroker cx b = Inr a \<and> mget (assessments_by_broker (ag_brokers ag)) b = Some a"
    and "\<And>a. a \<in> set (ag_groups ag) \<Longrightarrow> ga_group a = g_id g \<Longrightarrow> a = assessGroup cx g (assessments_by_broker (ag_brokers ag))"
    and "\<And>a. a \<in> set (ag_brokers ag) \<Longrightarrow> mget (assessments_by_broker (ag_brokers ag)) (ba_broker a) = Some a"
proof -
  have groups: "ag_groups ag = map (\<lambda>g. assessGroup cx g (assessments_by_broker (ag_brokers ag))) (sort_key g_id groups)"
    and brokers: "\<And>b. mget (cx_brokers cx) b \<noteq> None \<Longrightarrow>
      \<exists>a \<in> set (ag_brokers ag). assessBroker cx b = Inr a \<and> mget (assessments_by_broker (ag_brokers ag)) b = Some a"
    and index: "\<And>a. a \<in> set (ag_brokers ag) \<Longrightarrow> mget (assessments_by_broker (ag_brokers ag)) (ba_broker a) = Some a"
    by (rule Aggregate_facts [OF assms(2)]; simp add: cx)+
  note facts = aggregate_context_Inr(4-7) [OF cx]
  show inventory: "inventory_ok c inventory (cx_brokers cx)" using validateInventory_ok facts(4) by blast
  show "cx_catalog cx = c" by (rule facts(2))
  have cok: "context_ok cx" by (rule aggregate_context_ok [OF cx])
  then show ok: "group_ok now (cx_brokers cx) g" using facts(1,3) assms(3) by (auto simp: context_ok_def)
  show "positive_limits (profile_limits cx b)" if member: "b \<in> set (g_membership g)" for b
  proof -
    obtain br where "mget (cx_brokers cx) b = Some br" using group_ok_facts(6) [OF ok member] by blast
    then show ?thesis using profile_limits_positive NewProfileCatalog_ok [OF assms(1)] inventory facts(2) by blast
  qed
  have dist: "distinct (map g_id groups)" using cok facts(3) by (simp add: context_ok_def)
  show "a = assessGroup cx g (assessments_by_broker (ag_brokers ag))" if a: "a \<in> set (ag_groups ag)" "ga_group a = g_id g" for a
  proof -
    obtain h where h: "h \<in> set groups" "a = assessGroup cx h (assessments_by_broker (ag_brokers ag))" using a(1) by (auto simp: groups)
    then have "g_id h = g_id g" using a(2) by simp
    then have "h = g" using dist h(1) assms(3) by (metis distinct_map inj_onD)
    with h(2) show ?thesis by simp
  qed
  show "\<And>a. a \<in> set (ag_brokers ag) \<Longrightarrow> mget (assessments_by_broker (ag_brokers ag)) (ba_broker a) = Some a" by (rule index)
  show "\<exists>a \<in> set (ag_brokers ag). assessBroker cx b = Inr a \<and> mget (assessments_by_broker (ag_brokers ag)) b = Some a"
    if "b \<in> set (g_membership g)" for b using brokers group_ok_facts(6) [OF ok that] by blast
qed

lemma group_saturation:
  assumes "NewProfileCatalog ps = Inr c" and "Aggregate now t c inventory groups = Inr ag" and "g \<in> set groups"
    and "a \<in> set (ag_groups ag)" and "ga_group a = g_id g" and "ga_state a = TelemetryKnown"
  shows "g_membership g \<noteq> [] \<and>
    (\<forall>b \<in> set (g_membership g). \<exists>ba \<in> set (ag_brokers ag). ba_broker ba = b \<and> ba_state ba = TelemetryKnown \<and>
       ut_nonneg (ba_broker_utilization ba) \<and> ut_nonneg (ba_grouped ba)) \<and>
    (ga_pressure a = PressureBrokerSaturation \<longleftrightarrow>
       (\<exists>ba \<in> set (ag_brokers ag). ba_broker ba \<in> set (g_membership g) \<and>
          (ut_reaches (saturationThreshold (g_policy g)) (ba_broker_utilization ba) \<or>
           ut_reaches (saturationThreshold (g_policy g)) (ba_grouped ba))))"
proof -
  obtain cx where cx: "aggregate_context now t c inventory groups = Inr cx" "context_ok cx"
    using Aggregate_Inr_iff aggregate_context_ok assms(2) by metis
  note assessed = Aggregate_assessed [OF assms(1-3) cx(1)]
  note limits = assessed(4) and brokers = assessed(5) and a = assessed(6) [OF assms(4,5)] and index = assessed(7)
  define of_broker where "of_broker b = mget_or (assessments_by_broker (ag_brokers ag)) b broker_assessment_zero" for b
  have member: "of_broker b \<in> set (ag_brokers ag) \<and> assessBroker cx b = Inr (of_broker b)" if "b \<in> set (g_membership g)" for b
    using brokers [OF that] by (auto simp: of_broker_def mget_or_def)
  have nonneg: "ut_nonneg (ba_shared (of_broker b))" if "b \<in> set (g_membership g)" for b
    using assessBroker_shared_nonneg [OF cx(2) limits [OF that]] member [OF that] by blast
  note known = assessGroup_known [of cx g "assessments_by_broker (ag_brokers ag)", folded of_broker_def, folded a, OF assms(6)]
  have cases: "ba_broker (of_broker b) = b \<and> ba_state (of_broker b) = TelemetryKnown \<and> ut_nonneg (ba_broker_utilization (of_broker b)) \<and>
      ut_nonneg (ba_grouped (of_broker b)) \<and>
      ba_shared (of_broker b) = utilization_max (ba_broker_utilization (of_broker b)) (ba_grouped (of_broker b))"
    if mem: "b \<in> set (g_membership g)" for b
  proof -
    have "ba_state (of_broker b) \<notin> {TelemetryUnknown, TelemetryStale}" by (rule known(2) [OF nonneg mem])
    then show ?thesis
      using assessBroker_cases [OF cx(2) limits [OF mem], of "of_broker b"] member [OF mem] assessBroker_broker [of cx b] by blast
  qed
  have unique: "ba = of_broker (ba_broker ba)" if "ba \<in> set (ag_brokers ag)" for ba
    using index [OF that] by (simp add: of_broker_def mget_or_def)
  have shared: "ut_reaches (saturationThreshold (g_policy g)) (ba_shared (of_broker b)) \<longleftrightarrow>
      ut_reaches (saturationThreshold (g_policy g)) (ba_broker_utilization (of_broker b)) \<or>
      ut_reaches (saturationThreshold (g_policy g)) (ba_grouped (of_broker b))" if "b \<in> set (g_membership g)" for b
    using cases [OF that] by (simp add: ut_reaches_max)
  have "ga_pressure a = PressureBrokerSaturation \<longleftrightarrow>
      (\<exists>b \<in> set (g_membership g). ut_reaches (saturationThreshold (g_policy g)) (ba_broker_utilization (of_broker b)) \<or>
         ut_reaches (saturationThreshold (g_policy g)) (ba_grouped (of_broker b)))"
    using known(3) nonneg shared by blast
  also have "\<dots> \<longleftrightarrow> (\<exists>ba \<in> set (ag_brokers ag). ba_broker ba \<in> set (g_membership g) \<and>
      (ut_reaches (saturationThreshold (g_policy g)) (ba_broker_utilization ba) \<or>
       ut_reaches (saturationThreshold (g_policy g)) (ba_grouped ba)))"
    using cases member unique by metis
  finally show ?thesis using known(1) nonneg cases member by blast
qed

text \<open>
  C33. A group counts as saturated exactly when one of its brokers is. In a successful cycle over a
  catalog of validated profiles, a group whose telemetry is known has members, each of them with a known
  assessment whose utilizations are never NaN, and the group's pressure is broker saturation if and only
  if in some dimension the measured use of a member broker, or the sum of the groups' use of it, has
  reached the threshold that the group's headroom leaves.
\<close>

theorem saturation_by_dimension:
  assumes "NewProfileCatalog ps = Inr c" and "Aggregate now t c inventory groups = Inr ag" and "g \<in> set groups"
    and "a \<in> set (ag_groups ag)" and "ga_group a = g_id g" and "ga_state a = TelemetryKnown"
  shows "g_membership g \<noteq> [] \<and>
    (\<forall>b \<in> set (g_membership g). \<exists>ba \<in> set (ag_brokers ag). ba_broker ba = b \<and> ba_state ba = TelemetryKnown \<and>
       ut_nonneg (ba_broker_utilization ba) \<and> ut_nonneg (ba_grouped ba)) \<and>
    (ga_pressure a = PressureBrokerSaturation \<longleftrightarrow>
       (\<exists>ba \<in> set (ag_brokers ag). ba_broker ba \<in> set (g_membership g) \<and>
          (ut_reaches (saturationThreshold (g_policy g)) (ba_broker_utilization ba) \<or>
           ut_reaches (saturationThreshold (g_policy g)) (ba_grouped ba))))"
  using group_saturation [OF assms] .

theorem saturation_by_dimension_witness:
  "ga_pressure demo_assessment = PressureBrokerSaturation \<and>
   (\<exists>ba \<in> set [demo_assessment_a 10, demo_assessment_b]. ba_broker ba \<in> set (g_membership demo_group) \<and>
      (ut_reaches (saturationThreshold (g_policy demo_group)) (ba_broker_utilization ba) \<or>
       ut_reaches (saturationThreshold (g_policy demo_group)) (ba_grouped ba)))"
proof -
  have "Aggregate 10 (demo_telemetry 10) demo_catalog demo_inventory [demo_group] =
      Inr \<lparr>ag_captured = 10, ag_brokers = [demo_assessment_a 10, demo_assessment_b], ag_groups = [demo_assessment]\<rparr>"
    by (rule demo_aggregate) simp
  from saturation_by_dimension [OF demo_catalog_new this, of demo_group demo_assessment] show ?thesis
    by (simp add: demo_assessment_def demo_group_def)
qed

lemma check_broker_samples_distinct:
  "check_broker_samples captured i seen ss = None \<Longrightarrow> distinct (map bs_broker ss) \<and> set (map bs_broker ss) \<inter> set seen = {}"
proof (induction ss arbitrary: i seen)
  case (Cons s ss)
  then have "bs_broker s \<notin> set seen" and "check_broker_samples captured (Suc i) (bs_broker s # seen) ss = None"
    by (auto split: if_splits option.splits)
  with Cons.IH [OF this(2)] show ?case by auto
qed simp

lemma index_broker_samples_keep:
  "index_broker_samples brokers m ss = Inr m' \<Longrightarrow> b \<notin> bs_broker ` set ss \<Longrightarrow> mget m' b = mget m b"
  by (induction ss arbitrary: m) (auto split: option.splits if_splits)

lemma index_broker_samples_sample:
  "index_broker_samples brokers m ss = Inr m' \<Longrightarrow> distinct (map bs_broker ss) \<Longrightarrow> s \<in> set ss \<Longrightarrow>
     mget m' (bs_broker s) = Some s \<and>
     (\<exists>b. mget brokers (bs_broker s) = Some b \<and> b_class b = bs_class s \<and> b_version b = bs_version s)"
proof (induction ss arbitrary: m)
  case (Cons x ss)
  then obtain b where b: "mget brokers (bs_broker x) = Some b" "b_class b = bs_class x" "b_version b = bs_version x"
    and rest: "index_broker_samples brokers (mput (bs_broker x) x m) ss = Inr m'"
    by (auto split: option.splits if_splits)
  show ?case
  proof (cases "s = x")
    case True
    then show ?thesis using b index_broker_samples_keep [OF rest, of "bs_broker x"] Cons.prems(2) by simp
  next
    case False
    then show ?thesis using Cons.IH [OF rest] Cons.prems by auto
  qed
qed simp

text \<open>
  C34. Rounding never hides an exhausted broker. If the exact quotient of a measured value of a member
  broker by the limit of that broker's profile has reached the group's threshold, in any of the four
  dimensions, then a group with known telemetry is reported as saturated, whatever the floating-point
  division gives.
\<close>

theorem saturation_not_missed:
  assumes "NewProfileCatalog ps = Inr c" and "Aggregate now t c inventory groups = Inr ag" and "g \<in> set groups"
    and "a \<in> set (ag_groups ag)" and "ga_group a = g_id g" and "ga_state a = TelemetryKnown"
    and "s \<in> set (tel_brokers t)" and "bs_broker s \<in> set (g_membership g)" and "p \<in> set ps"
    and "profile_key p = (bs_class s, bs_version s)" and "knownResources (bs_resources s) = Some v"
    and "(x, y) \<in> set (dimensions v (cp_limits p))" and "fvalue (saturationThreshold (g_policy g)) \<le> fvalue x / fvalue y"
  shows "ga_pressure a = PressureBrokerSaturation"
proof -
  obtain cx where cx: "aggregate_context now t c inventory groups = Inr cx" "context_ok cx"
    using Aggregate_Inr_iff aggregate_context_ok assms(2) by metis
  note assessed = Aggregate_assessed [OF assms(1-3) cx(1)] and facts = aggregate_context_Inr [OF cx(1)]
  have "check_broker_samples (tel_captured t) 0 [] (tel_brokers t) = None"
    using facts(3) by (auto simp: telemetry_Validate_def split: if_splits option.splits)
  then have sample: "mget (cx_broker_samples cx) (bs_broker s) = Some s"
    and broker: "\<exists>b. mget (cx_brokers cx) (bs_broker s) = Some b \<and> b_class b = bs_class s \<and> b_version b = bs_version s"
    using index_broker_samples_sample [OF facts(8) _ assms(7)] check_broker_samples_distinct by blast+
  obtain b where b: "mget (cx_brokers cx) (bs_broker s) = Some b" "b_class b = bs_class s" "b_version b = bs_version s"
    using broker by blast
  have "Lookup (cx_catalog cx) (b_class b) (b_version b) = Inr p"
    using NewProfileCatalog_mget [OF assms(1), of "(bs_class s, bs_version s)" p] assms(9,10) b by (simp add: Lookup_def assessed(2))
  then have limits: "profile_limits cx (bs_broker s) = cp_limits p"
    using profile_limits_eq [of cx inventory] assessed(1,2) b(1) by simp
  obtain ba where ba: "ba \<in> set (ag_brokers ag)" "assessBroker cx (bs_broker s) = Inr ba" using assessed(5) [OF assms(8)] by blast
  have id: "ba_broker ba = bs_broker s" by (rule assessBroker_broker [OF ba(2)])
  have "ba_state ba = TelemetryKnown"
  proof -
    obtain bb where "bb \<in> set (ag_brokers ag)" "ba_broker bb = bs_broker s" "ba_state bb = TelemetryKnown"
      using group_saturation [OF assms(1-6)] assms(8) by blast
    then show ?thesis using assessed(7) ba(1) id by (metis option.inject)
  qed
  then have "ba_broker_utilization ba = utilization v (cp_limits p)"
    using assessBroker_cases [OF cx(2) assessed(4) [OF assms(8)] ba(2)] sample assms(11) limits by auto
  moreover have "ut_reaches (saturationThreshold (g_policy g)) (utilization v (cp_limits p))"
  proof (rule dimensions_reach [OF _ _ _ assms(12) _ assms(13)])
    show "policy_validate (g_policy g) (g_id g) = None" by (rule group_ok_facts(2) [OF assessed(3)])
    show "rv_nonneg v" by (rule broker_sample_nonneg [OF cx(2) sample assms(11)])
    show "positive_limits (cp_limits p)" using assessed(4) [OF assms(8)] limits by simp
    show "finite_value x" using assms(12) broker_sample_finite [OF cx(2) sample assms(11)] by (auto simp: dimensions_def)
  qed
  ultimately have "ba_broker ba \<in> set (g_membership g) \<and> ut_reaches (saturationThreshold (g_policy g)) (ba_broker_utilization ba)"
    using id assms(8) by simp
  with group_saturation [OF assms(1-6)] ba(1) show ?thesis by blast
qed

theorem saturation_not_missed_witness:
  "ga_pressure demo_assessment = PressureBrokerSaturation \<and>
   fvalue (saturationThreshold (g_policy demo_group)) \<le> fvalue (Finite 1) / fvalue (cl_ingress demo_capacity)"
proof -
  define p where "p = \<lparr>cp_class = ''c'', cp_version = ''v'', cp_limits = demo_capacity\<rparr>"
  define s where "s = \<lparr>bs_broker = ''a'', bs_class = ''c'', bs_version = ''v'', bs_observed = 10, bs_resources = demo_resources\<rparr>"
  have agg: "Aggregate 10 (demo_telemetry 10) demo_catalog demo_inventory [demo_group] =
      Inr \<lparr>ag_captured = 10, ag_brokers = [demo_assessment_a 10, demo_assessment_b], ag_groups = [demo_assessment]\<rparr>"
    by (rule demo_aggregate) simp
  have cat: "NewProfileCatalog [p] = Inr demo_catalog" unfolding p_def by (rule demo_catalog_new)
  have thr: "fvalue (saturationThreshold (g_policy demo_group)) \<le> fvalue (Finite 1) / fvalue (cl_ingress demo_capacity)"
    using demo_threshold by (simp add: demo_group_def demo_capacity_def)
  have "ga_pressure demo_assessment = PressureBrokerSaturation"
  proof (rule saturation_not_missed [where p = p and s = s and x = "Finite 1" and y = "cl_ingress demo_capacity", OF cat agg _ _ _ _ _ _ _ _ _ _ thr])
    show "s \<in> set (tel_brokers (demo_telemetry 10))" by (simp add: s_def demo_telemetry_def)
    show "knownResources (bs_resources s) =
      Some \<lparr>rv_ingress = Finite 1, rv_egress = Finite 0, rv_spool = Finite 0, rv_connections = Finite 0\<rparr>"
      by (simp add: s_def demo_resources)
  qed (simp_all add: p_def s_def demo_group_def demo_assessment_def profile_key_def dimensions_def)
  with thr show ?thesis by blast
qed

section \<open>Failed cycles\<close>

text \<open>No validator returns the error that stands for the panic of \<open>findGroup\<close>.\<close>

lemma metric_no_panic: "metric_validate m name \<noteq> Some PanicGroupMissing"
  by (auto simp: metric_validate_def)

lemma first_err_no_panic: "list_all (\<lambda>x. x \<noteq> Some e) xs \<Longrightarrow> first_err xs \<noteq> Some e"
  by (induction xs rule: first_err.induct) auto

lemma resources_no_panic: "resources_validate r prefix \<noteq> Some PanicGroupMissing"
  unfolding resources_validate_def by (rule first_err_no_panic) (simp add: metric_no_panic)

lemma samples_no_panic:
  "check_broker_samples captured i seen bs \<noteq> Some PanicGroupMissing"
  "check_group_samples captured j keys gs \<noteq> Some PanicGroupMissing"
proof -
  show "check_broker_samples captured i seen bs \<noteq> Some PanicGroupMissing"
    by (induction bs arbitrary: i seen) (auto simp: resources_no_panic split: option.split)
  have backlog: "backlog_validate b prefix \<noteq> Some PanicGroupMissing" for b prefix
    by (auto simp: backlog_validate_def metric_no_panic split: option.split)
  show "check_group_samples captured j keys gs \<noteq> Some PanicGroupMissing"
    by (induction gs arbitrary: j keys) (auto simp: resources_no_panic backlog split: option.split)
qed

lemma group_no_panic: "group_validate g now brokers \<noteq> Some PanicGroupMissing"
proof -
  have "check_members i m seen bs \<noteq> Some PanicGroupMissing" for i m seen bs
    by (induction bs arbitrary: seen) auto
  moreover have "policy_validate p i \<noteq> Some PanicGroupMissing" for p i
    by (simp add: policy_validate_def)
  moreover have "check_choice g \<noteq> Some PanicGroupMissing"
    by (simp add: check_choice_def split: option.split)
  ultimately show ?thesis unfolding group_validate_def by (intro first_err_no_panic) simp
qed

lemma context_no_panic: "aggregate_context now t c inventory groups \<noteq> Inl PanicGroupMissing"
proof -
  have "add_brokers c i m bs \<noteq> Inl PanicGroupMissing" for i m bs
    by (induction bs arbitrary: i m) (auto simp: Let_def Lookup_def split: sum.split option.splits)
  moreover have "validate_groups now brokers seen m gs \<noteq> Inl PanicGroupMissing" for brokers seen m gs
    by (induction gs arbitrary: seen m) (auto simp: group_no_panic split: option.split)
  moreover have "index_broker_samples brokers m ss \<noteq> Inl PanicGroupMissing" for brokers m ss
    by (induction ss arbitrary: m) (auto split: option.split)
  moreover have "index_group_samples brokers ids m ss \<noteq> Inl PanicGroupMissing" for brokers ids m ss
    by (induction ss arbitrary: m) auto
  moreover have "telemetry_Validate t \<noteq> Some PanicGroupMissing"
    by (auto simp: telemetry_Validate_def samples_no_panic split: option.split)
  ultimately show ?thesis
    by (auto simp: aggregate_context_def validateInventory_def split: option.splits sum.splits)
qed

lemma Aggregate_error: "Aggregate now t c inventory groups = Inl err \<longleftrightarrow> aggregate_context now t c inventory groups = Inl err"
proof (cases "aggregate_context now t c inventory groups")
  case (Inl e)
  then show ?thesis by (simp add: Aggregate_def)
next
  case (Inr cx)
  then show ?thesis using Aggregate_Inr_iff [of now t c inventory groups] by auto
qed

text \<open>The other place where the code could panic, \<open>removeBroker\<close> of an empty membership, is not reached by a cycle.\<close>

lemma chosen_broker_is_member:
  assumes "Evaluate now t inventory groups e = (Inr d, e')" and "g \<in> set groups" and "g_choice g = Some c"
  shows "sc_broker c \<in> set (g_membership g)"
proof -
  obtain cx where cx: "context_ok cx" "cx_groups cx = groups" by (rule Evaluate_context [OF assms(1)])
  then have "group_ok (cx_now cx) (cx_brokers cx) g" using assms(2) by (auto simp: context_ok_def)
  then have "check_choice g = None" by (rule group_ok_facts(7))
  then show ?thesis using assms(3) by (simp add: check_choice_def split: if_splits)
qed

text \<open>
  C35. A cycle fails only on invalid input, and then nothing changes. \<open>Evaluate\<close> returns an error exactly
  when its time does not increase or the validation of the snapshot, the inventory and the groups
  fails; the error is never the panic of a missing group; and an engine whose cycle failed is the
  engine before it. A successful cycle keeps the catalog and the bound and moves the time of the last
  evaluation forward to its own.
\<close>

theorem Evaluate_fails_cleanly:
  assumes "engine_run e cs"
  shows "case Evaluate now t inventory groups e of
      (Inl err, e') \<Rightarrow>
        e' = e \<and> err \<noteq> PanicGroupMissing \<and>
        (if \<not> IsZero (en_last e) \<and> now \<le> en_last e then err = TimeNotMonotone
         else aggregate_context now t (en_catalog e) inventory groups = Inl err)
    | (Inr d, e') \<Rightarrow>
        en_last e' = now \<and> (IsZero (en_last e) \<or> en_last e < now) \<and> \<not> IsZero now \<and>
        en_catalog e' = en_catalog e \<and> en_max_transitions e' = en_max_transitions e \<and>
        (\<exists>cx. aggregate_context now t (en_catalog e) inventory groups = Inr cx)"
proof -
  have wf: "wf_map (en_pressure e)" using engine_run_inv [OF assms] unfolding engine_inv_def by blast
  obtain res e' where eval: "Evaluate now t inventory groups e = (res, e')" by fastforce
  show ?thesis
  proof (cases res)
    case (Inl err)
    have "(if \<not> IsZero (en_last e) \<and> now \<le> en_last e then err = TimeNotMonotone
        else aggregate_context now t (en_catalog e) inventory groups = Inl err)"
      using eval Inl by (auto simp: Evaluate_def Let_def Aggregate_error not_less split: if_splits sum.splits)
    moreover have "err \<noteq> PanicGroupMissing" using calculation context_no_panic by (auto split: if_splits)
    ultimately show ?thesis using eval Inl Evaluate_error by fastforce
  next
    case (Inr d)
    obtain ag where ag: "Aggregate now t (en_catalog e) inventory groups = Inr ag"
      using Evaluate_Aggregate eval Inr by blast
    note facts = Evaluate_facts(1-4) [OF eval [unfolded Inr] wf ag]
    obtain cx where "aggregate_context now t (en_catalog e) inventory groups = Inr cx" "\<not> IsZero now"
      by (rule Evaluate_context [OF eval [unfolded Inr]])
    then show ?thesis using eval Inr facts by auto
  qed
qed

theorem Evaluate_fails_cleanly_witness:
  "Evaluate 10 (demo_telemetry 20) demo_inventory [demo_group] demo_engine = (Inl CaptureInFuture, demo_engine) \<and>
   aggregate_context 10 (demo_telemetry 20) (en_catalog demo_engine) demo_inventory [demo_group] = Inl CaptureInFuture"
proof -
  have "Evaluate 10 (demo_telemetry 20) demo_inventory [demo_group] demo_engine = (Inl CaptureInFuture, demo_engine)"
    by (simp add: Evaluate_def Aggregate_def aggregate_context_def demo_telemetry_def demo_engine_def IsZero_def time_zero_def)
  with Evaluate_fails_cleanly [OF engine_run.new [OF demo_engine_new], of 10 "demo_telemetry 20" demo_inventory "[demo_group]"]
  show ?thesis by (simp add: demo_engine_def IsZero_def time_zero_def)
qed

section \<open>Behaviour at the edges\<close>

text \<open>
  The window of a group survives the group's absence: a cycle that does not list a group leaves its
  pressure window alone, so a group that disappears from the input and comes back continues the window
  it had, although no evidence was seen in between.
\<close>

lemma absent_group_keeps_window:
  assumes "engine_run e cs" and "Evaluate now t inventory groups e = (Inr d, e')" and "i \<notin> g_id ` set groups"
  shows "mget (en_pressure e') i = mget (en_pressure e) i"
proof -
  have wf: "wf_map (en_pressure e)" using engine_run_inv [OF assms(1)] unfolding engine_inv_def by blast
  obtain ag where ag: "Aggregate now t (en_catalog e) inventory groups = Inr ag" using Evaluate_Aggregate [OF assms(2)] by blast
  show ?thesis using assms(3) by (simp add: Evaluate_facts(5) [OF assms(2) wf ag] mget_advance_absent)
qed

text \<open>
  C37. The sum of minimum and warm brokers can overflow: a policy whose warm count is the largest 64-bit
  integer passes validation, its floor is negative, and a group at its minimum of two brokers is then
  scaled in below the minimum.
\<close>

definition overflow_policy :: GroupPolicy where
  "overflow_policy = demo_policy\<lparr>gp_minimum := 2, gp_maximum := 3, gp_warm := 2 ^ 63 - 1\<rparr>"

definition overflow_group :: GroupState where
  "overflow_group = \<lparr>g_id = ''g'', g_membership = [''a'', ''b''], g_policy = overflow_policy, g_active = 0, g_last = 0,
     g_choice = Some \<lparr>sc_broker = ''a'', sc_safe = True, sc_evidence = ''drained''\<rparr>\<rparr>"

theorem warm_count_overflow:
  "policy_validate overflow_policy ''g'' = None \<and> policy_floor overflow_policy < 0 \<and>
   (\<forall>a inventory since. \<exists>r.
      recommend 10 overflow_group (a\<lparr>ga_state := TelemetryKnown, ga_pressure := PressureNone\<rparr>) inventory since = (r, True) \<and>
      rc_action r = ActionScaleIn \<and> int (length (rc_proposed r)) < gp_minimum overflow_policy)"
proof -
  have lowest: "policy_floor overflow_policy = - (2 ^ 63) + 1"
    by (simp add: policy_floor_def overflow_policy_def int64_def)
  have valid: "policy_validate overflow_policy ''g'' = None"
    by (simp add: policy_validate_def overflow_policy_def demo_policy_def int64_def IsNaN_def IsInf_def flt_def fle_def feq_def
        float_zero_def float_hundred_def)
  have "\<exists>r. recommend 10 overflow_group (a\<lparr>ga_state := TelemetryKnown, ga_pressure := PressureNone\<rparr>) inventory since = (r, True) \<and>
      rc_action r = ActionScaleIn \<and> int (length (rc_proposed r)) < gp_minimum overflow_policy" for a :: GroupAssessment and inventory since
    by (simp add: recommend_def overflow_group_def scaleIn_def lowest Let_def removeBroker_def recommendation_for_def
        IsZero_def time_zero_def) (simp add: overflow_policy_def demo_policy_def)
  with lowest valid show ?thesis by simp
qed

end
