(* ===== verification/Publisher.thy ===== *)
theory Publisher
  imports Routing Snapshot Outbox_Select
begin

text \<open>
  The durable publisher shim (\<^verbatim>\<open>shim/publisher/publisher.go\<close>): it installs control snapshots, turns
  application messages into routed outbox records, and dispatches eligible records to their brokers.
  The customer library and the payload encoder are fields of the publisher, as in the source; the
  answers of the clock, the outbox transactions, the context and the broker are arguments of the
  operations. \<open>ApplyMembership\<close> runs under the publisher's lock and is one step on its state. \<open>AcceptBatch\<close> holds that lock for reading only
  while it writes the placement cache, so two calls at the same time race; it is one step here, for runs in which its calls do not overlap.
  \<open>Dispatch\<close> releases the lock between its records, and its parts are separate definitions.
\<close>

section \<open>Data\<close>

datatype publisher_error =
    ErrNoValidMembership string
  | ErrStaleMembership
  | ErrInvalidConfig string
  | ErrPublishRejected string string
  | ErrAckUncertain string string
  | PublishFailed string
  | ErrReservedProperty string
  | MessageIncomplete
  | CustomerFailed customer_error
  | EmptyScalingGroup
  | IncompatibleContract string
  | EncodeFailed
  | SnapshotInvalid control_error
  | AlgorithmMismatch string string
  | HashContractMismatch string
  | LibraryVersionMismatch string
  | MetadataMismatch string
  | RoutingFailed routing_error
  | DuplicateResource string
  | ResourceMissing string
  | EndpointMissing string
  | RouteChanged string
  | OutboxFailed outbox_error
  | ContextDone
  | BatchRecord nat publisher_error
  | JoinedErrors "publisher_error list"

definition PropertyEventID :: string where "PropertyEventID = ''swlb.event_id''"
definition PropertyScalingGroup :: string where "PropertyScalingGroup = ''swlb.group''"
definition PropertyBusinessHash :: string where "PropertyBusinessHash = ''swlb.business_hash''"
definition PropertyHashContract :: string where "PropertyHashContract = ''swlb.hash_contract''"
definition PropertyLibraryVersion :: string where "PropertyLibraryVersion = ''swlb.library_version''"
definition PropertyEpoch :: string where "PropertyEpoch = ''swlb.routing_epoch''"
definition PropertyQueuePartition :: string where "PropertyQueuePartition = ''JMSXGroupID''"

datatype PublishOutcome = OutcomeUnknown | OutcomeAcknowledged | OutcomeRejected | OutcomeOther nat

record BrokerMessage =
  bm_event :: string
  bm_payload :: string
  bm_topic :: string
  bm_properties :: "(string, string) gomap"
  bm_destination :: string
  bm_endpoint :: string
  bm_epoch :: u64

record Contract =
  ct_hash :: string
  ct_library :: string

record 'p Config =
  cf_outbox :: "Store option"
  cf_customer :: "'p CustomerLibrary option"
  cf_broker :: bool
  cf_contracts :: "(string, Contract) gomap"
  cf_group :: string
  cf_hash :: string
  cf_library :: string
  cf_encode :: "('p \<Rightarrow> string option) option"

record Receipt =
  rp_event :: string
  rp_state :: State
  rp_group :: string
  rp_hash :: string
  rp_epoch :: u64
  rp_broker :: string

record DispatchReport =
  dr_attempted :: int
  dr_acknowledged :: int
  dr_rejected :: int
  dr_uncertain :: int

type_synonym placementCacheKey = "string \<times> string \<times> u64"

record 'p Publisher =
  pb_outbox :: Store
  pb_customer :: "'p CustomerLibrary"
  pb_contracts :: "(string, Contract) gomap"
  pb_encode :: "'p \<Rightarrow> string option"
  pb_membership :: "(string, MembershipSnapshot) gomap"
  pb_cache :: "(placementCacheKey, Assignment) gomap"
  pb_order :: "placementCacheKey list"
  pb_limit :: nat

section \<open>Construction\<close>

text \<open>\<open>defaultEncodePayload\<close>: bytes and strings as they are, any other value by \<open>json.Marshal\<close>.\<close>

datatype 'a payload = PayloadBytes string | PayloadString string | PayloadOther 'a

definition defaultEncodePayload :: "('a \<Rightarrow> string option) \<Rightarrow> 'a payload \<Rightarrow> string option" where
  "defaultEncodePayload json_marshal p =
     (case p of PayloadBytes b \<Rightarrow> Some b | PayloadString s \<Rightarrow> Some s | PayloadOther v \<Rightarrow> json_marshal v)"

definition shorthandConfigured :: "'p Config \<Rightarrow> bool" where
  "shorthandConfigured c \<longleftrightarrow> cf_group c \<noteq> [] \<or> cf_hash c \<noteq> [] \<or> cf_library c \<noteq> []"

definition config_contracts :: "'p Config \<Rightarrow> publisher_error + (string, Contract) gomap" where
  "config_contracts c =
     (let contracts = foldl (\<lambda>m (g, k). mput g k m) [] (cf_contracts c) in
      if shorthandConfigured c then
        (if cf_contracts c \<noteq> [] \<or> cf_group c = [] \<or> cf_hash c = [] \<or> cf_library c = [] then Inl (ErrInvalidConfig ''shorthand'')
         else Inr (mput (cf_group c) \<lparr>ct_hash = cf_hash c, ct_library = cf_library c\<rparr> contracts))
      else if contracts = [] then Inl (ErrInvalidConfig ''contracts'') else Inr contracts)"

definition check_outbox_record :: "string \<Rightarrow> (string, Contract) gomap \<Rightarrow> Record \<Rightarrow> publisher_error option" where
  "check_outbox_record algorithm contracts r =
     (if r_algorithm r \<noteq> algorithm then Some (ErrInvalidConfig ''routing algorithm'')
      else case mget contracts (r_group r) of
             None \<Rightarrow> Some (ErrInvalidConfig ''customer contract'')
           | Some k \<Rightarrow> err_if (r_contract r \<noteq> ct_hash k \<or> r_library r \<noteq> ct_library k) (ErrInvalidConfig ''customer contract''))"

definition check_contract :: "string \<times> Contract \<Rightarrow> publisher_error option" where
  "check_contract e =
     (case e of (g, k) \<Rightarrow> err_if (g = [] \<or> ct_hash k = [] \<or> ct_library k = []) (ErrInvalidConfig ''empty contract''))"

definition NewPublisher :: "('p \<Rightarrow> string option) \<Rightarrow> 'p Config \<Rightarrow> publisher_error + 'p Publisher" where
  "NewPublisher default_encode c =
     (case (cf_outbox c, cf_customer c) of
        (Some s, Some cu) \<Rightarrow>
          if \<not> cf_broker c then Inl (ErrInvalidConfig ''required'')
          else (case config_contracts c of
                  Inl e \<Rightarrow> Inl e
                | Inr contracts \<Rightarrow>
                    (case RoutingPolicy (cu_policy cu) of
                       Inl e \<Rightarrow> Inl (ErrInvalidConfig ''routing policy'')
                     | Inr policy \<Rightarrow>
                         (case first_err (map (check_outbox_record (RoutingAlgorithm policy) contracts) (Records s) @
                                          map check_contract contracts) of
                            Some e \<Rightarrow> Inl e
                          | None \<Rightarrow>
                              Inr \<lparr>pb_outbox = s, pb_customer = cu, pb_contracts = contracts,
                                   pb_encode = (case cf_encode c of None \<Rightarrow> default_encode | Some f \<Rightarrow> f),
                                   pb_membership = [], pb_cache = [], pb_order = [], pb_limit = 4096\<rparr>)))
      | _ \<Rightarrow> Inl (ErrInvalidConfig ''required''))"

section \<open>Routes\<close>

definition trim_suffix :: "string \<Rightarrow> string \<Rightarrow> string" where
  "trim_suffix s suffix =
     (if length suffix \<le> length s \<and> drop (length s - length suffix) s = suffix then take (length s - length suffix) s else s)"

text \<open>The loop over the resources of the snapshot, with its \<open>matched\<close> and \<open>destination\<close> variables.\<close>

fun match_resources :: "string \<Rightarrow> bool \<Rightarrow> string \<Rightarrow> EpochResourceIdentity list \<Rightarrow> publisher_error + string" where
  "match_resources broker matched destination [] =
     (if matched then Inr destination else Inl (ResourceMissing broker))"
| "match_resources broker matched destination (r # rs) =
     (if er_broker r \<noteq> broker then match_resources broker matched destination rs
      else if matched then Inl (DuplicateResource broker)
      else match_resources broker True (trim_suffix (er_topic r) ''>'' @ ''events'') rs)"

definition route_destination :: "string \<Rightarrow> MembershipSnapshot \<Rightarrow> publisher_error + string" where
  "route_destination broker s =
     (if ms_current_resources s \<noteq> [] then match_resources broker False (d_name (ms_destination s)) (ms_current_resources s)
      else Inr (d_name (ms_destination s)))"

definition assignmentFor :: "'p CustomerLibrary \<Rightarrow> string \<Rightarrow> MembershipSnapshot \<Rightarrow> publisher_error + Assignment" where
  "assignmentFor library h s =
     (case ParseBusinessHash h of
        Inl e \<Rightarrow> Inl (CustomerFailed e)
      | Inr digest \<Rightarrow>
     (case RoutingPolicy (cu_policy library) of
        Inl e \<Rightarrow> Inl (CustomerFailed e)
      | Inr policy \<Rightarrow>
     (case RendezvousBroker (Some policy) (ms_group s) digest (ms_current s) of
        Inl e \<Rightarrow> Inl (RoutingFailed e)
      | Inr broker \<Rightarrow>
     (case route_destination broker s of
        Inl e \<Rightarrow> Inl e
      | Inr destination \<Rightarrow>
     (case BrokerEndpoint s broker False of
        None \<Rightarrow> Inl (EndpointMissing broker)
      | Some endpoint \<Rightarrow>
          Inr \<lparr>as_epoch = ms_epoch s, as_broker = broker, as_endpoint = endpoint, as_destination = destination\<rparr>)))))"

definition placement_key :: "string \<Rightarrow> MembershipSnapshot \<Rightarrow> placementCacheKey" where
  "placement_key h s = (ms_group s, h, ms_revision s)"

definition evict :: "'p Publisher \<Rightarrow> 'p Publisher" where
  "evict p =
     (if pb_limit p \<le> length (pb_order p)
      then p\<lparr>pb_cache := mdel (hd (pb_order p)) (pb_cache p), pb_order := tl (pb_order p)\<rparr> else p)"

definition cached_assignmentFor :: "string \<Rightarrow> MembershipSnapshot \<Rightarrow> 'p Publisher \<Rightarrow> (publisher_error + Assignment) \<times> 'p Publisher" where
  "cached_assignmentFor h s p =
     (let key = placement_key h s in
      case mget (pb_cache p) key of
        Some a \<Rightarrow> (Inr a, p)
      | None \<Rightarrow>
          (case assignmentFor (pb_customer p) h s of
             Inl e \<Rightarrow> (Inl e, p)
           | Inr a \<Rightarrow>
               let p = evict p
               in (Inr a, p\<lparr>pb_cache := mput key a (pb_cache p), pb_order := pb_order p @ [key]\<rparr>)))"

section \<open>Membership\<close>

definition check_snapshot :: "MembershipSnapshot \<Rightarrow> 'p Publisher \<Rightarrow> publisher_error + Contract" where
  "check_snapshot s p =
     (case RoutingPolicy (cu_policy (pb_customer p)) of
        Inl e \<Rightarrow> Inl (CustomerFailed e)
      | Inr policy \<Rightarrow>
          if ms_algorithm s \<noteq> RoutingAlgorithm policy then Inl (AlgorithmMismatch (ms_algorithm s) (RoutingAlgorithm policy))
          else case mget (pb_contracts p) (ms_group s) of
                 None \<Rightarrow> Inl (HashContractMismatch (ms_group s))
               | Some k \<Rightarrow>
                   if ms_hash s \<noteq> ct_hash k then Inl (HashContractMismatch (ms_group s))
                   else if ms_library s \<noteq> ct_library k then Inl (LibraryVersionMismatch (ms_group s))
                   else Inr k)"

definition retryable :: "MembershipSnapshot \<Rightarrow> Record \<Rightarrow> bool" where
  "retryable s r \<longleftrightarrow> r_group r = ms_group s \<and> (r_state r = StateUnassigned \<or> r_state r = StateReady)"

definition metadata_mismatch :: "Contract \<Rightarrow> MembershipSnapshot \<Rightarrow> Record \<Rightarrow> bool" where
  "metadata_mismatch k s r \<longleftrightarrow> r_contract r \<noteq> ct_hash k \<or> r_library r \<noteq> ct_library k \<or> r_algorithm r \<noteq> ms_algorithm s"

text \<open>The loop over the buffered records: the assignments, the errors, and the publisher with its cache.\<close>

fun collect_assignments ::
  "Contract \<Rightarrow> MembershipSnapshot \<Rightarrow> Record list \<Rightarrow> 'p Publisher \<Rightarrow>
   (AssignmentUpdate list \<times> publisher_error list) \<times> 'p Publisher" where
  "collect_assignments k s [] p = (([], []), p)"
| "collect_assignments k s (r # rs) p =
     (if \<not> retryable s r then collect_assignments k s rs p
      else if metadata_mismatch k s r then
        (case collect_assignments k s rs p of ((us, es), p') \<Rightarrow> ((us, MetadataMismatch (r_event r) # es), p'))
      else case cached_assignmentFor (r_hash r) s p of
             (Inl e, p1) \<Rightarrow> (case collect_assignments k s rs p1 of ((us, es), p') \<Rightarrow> ((us, e # es), p'))
           | (Inr a, p1) \<Rightarrow>
               (case collect_assignments k s rs p1 of
                  ((us, es), p') \<Rightarrow> ((\<lparr>au_event = r_event r, au_assignment = a\<rparr> # us, es), p')))"

definition install :: "MembershipSnapshot \<Rightarrow> 'p Publisher \<Rightarrow> 'p Publisher" where
  "install s p = p\<lparr>pb_membership := mput (ms_group s) s (pb_membership p)\<rparr>"

definition activate :: "gotime \<Rightarrow> bool \<Rightarrow> Contract \<Rightarrow> MembershipSnapshot \<Rightarrow> 'p Publisher \<Rightarrow> publisher_error option \<times> 'p Publisher" where
  "activate now commit k s p =
     (case collect_assignments k s (Records (pb_outbox p)) p of
        ((us, es), p1) \<Rightarrow>
          if es \<noteq> [] then (Some (JoinedErrors es), p1)
          else if us = [] then (None, install s p1)
          else case AssignBatch now commit us (pb_outbox p1) of
                 (Some e, st) \<Rightarrow> (Some (JoinedErrors [OutboxFailed e]), p1\<lparr>pb_outbox := st\<rparr>)
               | (None, st) \<Rightarrow> (None, install s (p1\<lparr>pb_outbox := st\<rparr>)))"

definition ApplyMembership ::
  "gotime \<Rightarrow> bool \<Rightarrow> MembershipSnapshot \<Rightarrow> 'p Publisher \<Rightarrow> publisher_error option \<times> 'p Publisher" where
  "ApplyMembership now commit s p =
     (case Validate s of
        Some e \<Rightarrow> (Some (SnapshotInvalid e), p)
      | None \<Rightarrow>
          (case check_snapshot s p of
             Inl e \<Rightarrow> (Some e, p)
           | Inr k \<Rightarrow>
               (case mget (pb_membership p) (ms_group s) of
                  Some current \<Rightarrow>
                    if ms_revision s \<le> ms_revision current then
                      (if ms_revision s = ms_revision current \<and> s = current then None else Some ErrStaleMembership, p)
                    else if ms_phase s \<noteq> CtlActive then (None, install s p) else activate now commit k s p
                | None \<Rightarrow> if ms_phase s \<noteq> CtlActive then (None, install s p) else activate now commit k s p)))"

section \<open>Accepting messages\<close>

definition has_prefix :: "string \<Rightarrow> string \<Rightarrow> bool" where
  "has_prefix prefix s \<longleftrightarrow> take (length prefix) s = prefix"

definition reserved :: "string \<Rightarrow> bool" where
  "reserved key \<longleftrightarrow> has_prefix ''swlb.'' key \<or> key = PropertyQueuePartition"

definition routable :: "MembershipSnapshot \<Rightarrow> bool" where
  "routable s \<longleftrightarrow> ms_phase s = CtlActive \<or> ms_phase s = CtlPrepare"

definition unrouted_record ::
  "'p MessageView \<Rightarrow> string \<Rightarrow> string \<Rightarrow> string \<Rightarrow> Contract \<Rightarrow> MembershipSnapshot \<Rightarrow> Record" where
  "unrouted_record m g h payload k s =
     zero_record\<lparr>r_event := mv_event_id m, r_payload := payload, r_topic := mv_topic m, r_properties := mv_headers m,
       r_key := g @ [CHR 0x00] @ h, r_group := g, r_hash := h, r_contract := ct_hash k, r_library := ct_library k,
       r_algorithm := ms_algorithm s, r_state := StateUnassigned\<rparr>"

definition route_record :: "Assignment \<Rightarrow> Record \<Rightarrow> Record" where
  "route_record a r = r\<lparr>r_state := StateReady, r_epoch := as_epoch a, r_broker := as_broker a, r_endpoint := as_endpoint a,
     r_destination := as_destination a\<rparr>"

text \<open>What is known of a message before its route: its group's snapshot and contract, the hash and the payload.\<close>

definition message_parts ::
  "'p Publisher \<Rightarrow> 'p MessageView \<Rightarrow> publisher_error + (MembershipSnapshot \<times> string \<times> Record)" where
  "message_parts p m =
     (if mv_event_id m = [] \<or> mv_topic m = [] then Inl MessageIncomplete
      else case List.find (\<lambda>(key, v). reserved key) (mv_headers m) of
             Some (key, v) \<Rightarrow> Inl (ErrReservedProperty key)
           | None \<Rightarrow>
     (case cu_group (pb_customer p) m of
        Inl e \<Rightarrow> Inl (CustomerFailed e)
      | Inr g \<Rightarrow>
          if g = [] then Inl EmptyScalingGroup
          else case mget (pb_membership p) g of
                 None \<Rightarrow> Inl (ErrNoValidMembership g)
               | Some s \<Rightarrow>
     (case mget (pb_contracts p) g of
        None \<Rightarrow> Inl (IncompatibleContract g)
      | Some k \<Rightarrow>
          if ms_hash s \<noteq> ct_hash k \<or> ms_library s \<noteq> ct_library k then Inl (IncompatibleContract g)
          else case cu_hash (pb_customer p) m of
                 Inl e \<Rightarrow> Inl (CustomerFailed e)
               | Inr digest \<Rightarrow>
     (case pb_encode p (mv_payload m) of
        None \<Rightarrow> Inl EncodeFailed
      | Some payload \<Rightarrow> Inr (s, hex_encode digest, unrouted_record m g (hex_encode digest) payload k s)))))"

definition recordFor :: "'p MessageView \<Rightarrow> 'p Publisher \<Rightarrow> (publisher_error + Record) \<times> 'p Publisher" where
  "recordFor m p =
     (case message_parts p m of
        Inl e \<Rightarrow> (Inl e, p)
      | Inr (s, h, r) \<Rightarrow>
          if routable s then
            (case cached_assignmentFor h s p of
               (Inl e, p1) \<Rightarrow> (Inl e, p1)
             | (Inr a, p1) \<Rightarrow> (Inr (route_record a r), p1))
          else (Inr r, p))"

fun records_for :: "nat \<Rightarrow> 'p MessageView list \<Rightarrow> 'p Publisher \<Rightarrow> (publisher_error + Record list) \<times> 'p Publisher" where
  "records_for i [] p = (Inr [], p)"
| "records_for i (m # ms) p =
     (case recordFor m p of
        (Inl e, p1) \<Rightarrow> (Inl (BatchRecord i e), p1)
      | (Inr r, p1) \<Rightarrow>
          (case records_for (Suc i) ms p1 of
             (Inl e, p2) \<Rightarrow> (Inl e, p2)
           | (Inr rs, p2) \<Rightarrow> (Inr (r # rs), p2)))"

definition receiptFor :: "Record \<Rightarrow> Receipt" where
  "receiptFor r = \<lparr>rp_event = r_event r, rp_state = r_state r, rp_group = r_group r, rp_hash = r_hash r, rp_epoch = r_epoch r,
     rp_broker = r_broker r\<rparr>"

definition publisher_AcceptBatch ::
  "gotime \<Rightarrow> bool \<Rightarrow> 'p MessageView list \<Rightarrow> 'p Publisher \<Rightarrow> (publisher_error + Receipt list) \<times> 'p Publisher" where
  "publisher_AcceptBatch now commit ms p =
     (if ms = [] then (Inr [], p)
      else case records_for 0 ms p of
             (Inl e, p1) \<Rightarrow> (Inl e, p1)
           | (Inr rs, p1) \<Rightarrow>
               (case AcceptBatch now commit rs (pb_outbox p1) of
                  (Inl e, st) \<Rightarrow> (Inl (OutboxFailed e), p1\<lparr>pb_outbox := st\<rparr>)
                | (Inr accepted, st) \<Rightarrow> (Inr (map receiptFor accepted), p1\<lparr>pb_outbox := st\<rparr>)))"

definition publisher_Accept ::
  "gotime \<Rightarrow> bool \<Rightarrow> 'p MessageView \<Rightarrow> 'p Publisher \<Rightarrow> (publisher_error + Receipt) \<times> 'p Publisher" where
  "publisher_Accept now commit m p =
     (case publisher_AcceptBatch now commit [m] p of
        (Inl e, p1) \<Rightarrow> (Inl e, p1)
      | (Inr receipts, p1) \<Rightarrow> (Inr (hd receipts), p1))"

section \<open>Dispatch\<close>

definition brokerMessage :: "Record \<Rightarrow> BrokerMessage" where
  "brokerMessage r =
     \<lparr>bm_event = r_event r, bm_payload = r_payload r, bm_topic = r_topic r,
      bm_properties = mput PropertyEpoch (format_uint (unat (r_epoch r))) (mput PropertyLibraryVersion (r_library r)
        (mput PropertyHashContract (r_contract r) (mput PropertyBusinessHash (r_hash r)
          (mput PropertyScalingGroup (r_group r) (mput PropertyEventID (r_event r) (r_properties r)))))),
      bm_destination = r_destination r, bm_endpoint = r_endpoint r, bm_epoch = r_epoch r\<rparr>"

definition activeEpochs :: "'p Publisher \<Rightarrow> (string, u64) gomap" where
  "activeEpochs p =
     foldl (\<lambda>m (g, s). if routable s then mput g (ms_epoch s) m else m) [] (pb_membership p)"

definition dispatch_select :: "int \<Rightarrow> 'p Publisher \<Rightarrow> Record list" where
  "dispatch_select limit p = EligibleFor limit (Some (activeEpochs p)) None (pb_outbox p)"

text \<open>The admission of one record under the lock: \<open>None\<close> is the \<open>continue\<close> of a record that no longer fits.\<close>

definition admitted :: "Record \<Rightarrow> 'p Publisher \<Rightarrow> bool" where
  "admitted r p \<longleftrightarrow>
     (case mget (pb_membership p) (r_group r) of None \<Rightarrow> False | Some s \<Rightarrow> routable s \<and> ms_epoch s = r_epoch r)"

definition dispatch_send ::
  "gotime \<Rightarrow> bool \<Rightarrow> Record \<Rightarrow> 'p Publisher \<Rightarrow> (outbox_error + string \<times> BrokerMessage) option \<times> 'p Publisher" where
  "dispatch_send now commit r p =
     (if \<not> admitted r p then (None, p)
      else case MarkInEventsA now commit (r_event r) (pb_outbox p) of
             (Some e, st) \<Rightarrow> (Some (Inl e), p\<lparr>pb_outbox := st\<rparr>)
           | (None, st) \<Rightarrow> (Some (Inr (r_broker r, brokerMessage r)), p\<lparr>pb_outbox := st\<rparr>))"

definition errorText :: "string option \<Rightarrow> string \<Rightarrow> string" where
  "errorText e fallback = (case e of None \<Rightarrow> fallback | Some t \<Rightarrow> t)"

definition rejected_text :: string where
  "rejected_text = ''broker definitively rejected publish''"

definition uncertain_text :: string where
  "uncertain_text = ''broker ACK is uncertain; record retained and retry may duplicate''"

text \<open>\<open>errors.Join\<close> of the broker's error, which may be nil, and the error of the outbox.\<close>

definition join_publish_error :: "string option \<Rightarrow> outbox_error \<Rightarrow> publisher_error" where
  "join_publish_error err e = JoinedErrors ((case err of None \<Rightarrow> [] | Some t \<Rightarrow> [PublishFailed t]) @ [OutboxFailed e])"

text \<open>The handling of the broker's answer, after the lock is released.\<close>

definition dispatch_finish ::
  "gotime \<Rightarrow> bool \<Rightarrow> PublishOutcome \<Rightarrow> string option \<Rightarrow> Record \<Rightarrow> DispatchReport \<times> publisher_error list \<Rightarrow> 'p Publisher \<Rightarrow>
   (DispatchReport \<times> publisher_error list) \<times> 'p Publisher" where
  "dispatch_finish now commit outcome err r res p =
     (case res of (report, es) \<Rightarrow>
        if outcome = OutcomeAcknowledged \<and> err = None then
          (case Ack now commit (r_event r) (r_attempts r + 1) (r_epoch r) (pb_outbox p) of
             (Some e, st) \<Rightarrow> ((report, es @ [OutboxFailed e]), p\<lparr>pb_outbox := st\<rparr>)
           | (None, st) \<Rightarrow> ((report\<lparr>dr_acknowledged := dr_acknowledged report + 1\<rparr>, es), p\<lparr>pb_outbox := st\<rparr>))
        else if outcome = OutcomeRejected then
          let reason = errorText err rejected_text in
          (case MarkRejected now commit (r_event r) reason (pb_outbox p) of
             (Some e, st) \<Rightarrow> ((report, es @ [join_publish_error err e]), p\<lparr>pb_outbox := st\<rparr>)
           | (None, st) \<Rightarrow>
               ((report\<lparr>dr_rejected := dr_rejected report + 1\<rparr>, es @ [ErrPublishRejected (r_event r) reason]), p\<lparr>pb_outbox := st\<rparr>))
        else
          let reason = errorText err uncertain_text in
          (case MarkAckUncertain now commit (r_event r) reason (pb_outbox p) of
             (Some e, st) \<Rightarrow> ((report, es @ [join_publish_error err e]), p\<lparr>pb_outbox := st\<rparr>)
           | (None, st) \<Rightarrow>
               ((report\<lparr>dr_uncertain := dr_uncertain report + 1\<rparr>, es @ [ErrAckUncertain (r_event r) reason]), p\<lparr>pb_outbox := st\<rparr>)))"

text \<open>The answers one record of a pass meets: the context, two clock readings and commits, and the broker.\<close>

record dispatch_answer =
  da_done :: bool
  da_send_now :: gotime
  da_send_commit :: bool
  da_outcome :: PublishOutcome
  da_error :: "string option"
  da_finish_now :: gotime
  da_finish_commit :: bool

fun dispatch_loop ::
  "(nat \<Rightarrow> dispatch_answer) \<Rightarrow> nat \<Rightarrow> Record list \<Rightarrow> DispatchReport \<times> publisher_error list \<Rightarrow> 'p Publisher \<Rightarrow>
   (DispatchReport \<times> publisher_error list) \<times> 'p Publisher" where
  "dispatch_loop env i [] res p = (res, p)"
| "dispatch_loop env i (r # rs) res p =
     (let a = env i; (report, es) = res in
      if da_done a then ((report, es @ [ContextDone]), p)
      else case dispatch_send (da_send_now a) (da_send_commit a) r p of
             (None, p1) \<Rightarrow> dispatch_loop env (Suc i) rs (report, es) p1
           | (Some (Inl e), p1) \<Rightarrow> dispatch_loop env (Suc i) rs (report, es @ [OutboxFailed e]) p1
           | (Some (Inr msg), p1) \<Rightarrow>
               (case dispatch_finish (da_finish_now a) (da_finish_commit a) (da_outcome a) (da_error a) r
                       (report\<lparr>dr_attempted := dr_attempted report + 1\<rparr>, es) p1 of
                  (res1, p2) \<Rightarrow> dispatch_loop env (Suc i) rs res1 p2))"

definition report_zero :: DispatchReport where
  "report_zero = \<lparr>dr_attempted = 0, dr_acknowledged = 0, dr_rejected = 0, dr_uncertain = 0\<rparr>"

definition Dispatch ::
  "(nat \<Rightarrow> dispatch_answer) \<Rightarrow> int \<Rightarrow> 'p Publisher \<Rightarrow> (DispatchReport \<times> publisher_error list) \<times> 'p Publisher" where
  "Dispatch env limit p =
     (if limit \<le> 0 then ((report_zero, []), p)
      else dispatch_loop env 0 (dispatch_select limit p) (report_zero, []) p)"

section \<open>Resolving uncertain publications\<close>

definition publisher_RetryAckUncertain ::
  "gotime \<Rightarrow> bool \<Rightarrow> string \<Rightarrow> 'p Publisher \<Rightarrow> publisher_error option \<times> 'p Publisher" where
  "publisher_RetryAckUncertain now commit e p =
     (case Get e (pb_outbox p) of
        Inl err \<Rightarrow> (Some (OutboxFailed err), p)
      | Inr r \<Rightarrow>
          (case mget (pb_membership p) (r_group r) of
             None \<Rightarrow> (Some (ErrNoValidMembership (r_group r)), p)
           | Some s \<Rightarrow>
               if ms_phase s \<noteq> CtlActive then (Some (ErrNoValidMembership (r_group r)), p)
               else if r_algorithm r \<noteq> ms_algorithm s then (Some (AlgorithmMismatch (r_algorithm r) (ms_algorithm s)), p)
               else case cached_assignmentFor (r_hash r) s p of
                      (Inl err, p1) \<Rightarrow> (Some err, p1)
                    | (Inr a, p1) \<Rightarrow>
                        if as_epoch a \<noteq> r_epoch r \<or> as_broker a \<noteq> r_broker r \<or> as_endpoint a \<noteq> r_endpoint r \<or>
                           as_destination a \<noteq> r_destination r
                        then (Some (RouteChanged e), p1)
                        else (case RetryAckUncertain now commit e (pb_outbox p1) of
                                (err, st) \<Rightarrow> (map_option OutboxFailed err, p1\<lparr>pb_outbox := st\<rparr>))))"

definition publisher_Ack ::
  "gotime \<Rightarrow> bool \<Rightarrow> string \<Rightarrow> u64 \<Rightarrow> u64 \<Rightarrow> 'p Publisher \<Rightarrow> publisher_error option \<times> 'p Publisher" where
  "publisher_Ack now commit e attempts epoch p =
     (case Ack now commit e attempts epoch (pb_outbox p) of (err, st) \<Rightarrow> (map_option OutboxFailed err, p\<lparr>pb_outbox := st\<rparr>))"

definition publisher_Lookup :: "string \<Rightarrow> 'p Publisher \<Rightarrow> publisher_error + Receipt" where
  "publisher_Lookup e p =
     (case Get e (pb_outbox p) of Inl err \<Rightarrow> Inl (OutboxFailed err) | Inr r \<Rightarrow> Inr (receiptFor r))"

end
