(* ===== verification/Publisher_Runs.thy ===== *)
theory Publisher_Runs
  imports Publisher
begin

text \<open>
  Runs of the publisher shim: control snapshots, batches, the two halves of a dispatch, retries and late
  acknowledgements in any order, with the outbox changed by others in between. The invariant says that the
  placement cache is bounded and holds only what the router computes for an offered snapshot, so that cached
  and uncached placement agree; it relies on the controller giving each revision of a group to one snapshot.
\<close>

section \<open>The invariant\<close>

definition one_per_revision :: "MembershipSnapshot set \<Rightarrow> bool" where
  "one_per_revision offered \<longleftrightarrow>
     (\<forall>s\<in>offered. \<forall>t\<in>offered. ms_group s = ms_group t \<and> ms_revision s = ms_revision t \<longrightarrow> s = t)"

definition cache_agrees :: "MembershipSnapshot set \<Rightarrow> 'p Publisher \<Rightarrow> bool" where
  "cache_agrees offered p \<longleftrightarrow>
     (\<forall>g h n a. mget (pb_cache p) (g, h, n) = Some a \<longrightarrow>
        (\<exists>s\<in>offered. placement_key h s = (g, h, n) \<and> assignmentFor (pb_customer p) h s = Inr a))"

definition cache_shape :: "'p Publisher \<Rightarrow> bool" where
  "cache_shape p \<longleftrightarrow> wf_map (pb_cache p) \<and> distinct (pb_order p) \<and> set (pb_order p) = set (map fst (pb_cache p)) \<and>
     length (pb_order p) \<le> pb_limit p \<and> pb_limit p = 4096"

definition installed :: "MembershipSnapshot set \<Rightarrow> 'p Publisher \<Rightarrow> bool" where
  "installed offered p \<longleftrightarrow> wf_map (pb_membership p) \<and>
     (\<forall>g s. mget (pb_membership p) g = Some s \<longrightarrow> s \<in> offered \<and> ms_group s = g \<and> Validate s = None)"

definition publisher_inv :: "MembershipSnapshot set \<Rightarrow> 'p Publisher \<Rightarrow> bool" where
  "publisher_inv offered p \<longleftrightarrow> cache_agrees offered p \<and> cache_shape p \<and> installed offered p"

lemma publisher_invD:
  assumes "publisher_inv offered p"
  shows "cache_agrees offered p" and "cache_shape p" and "installed offered p"
  using assms unfolding publisher_inv_def by blast+

lemma installedD:
  assumes "publisher_inv offered p" and "mget (pb_membership p) g = Some s"
  shows "s \<in> offered" and "ms_group s = g" and "Validate s = None"
  using publisher_invD(3) [OF assms(1)] assms(2) unfolding installed_def by blast+

text \<open>The publisher with another outbox, and with another cache.\<close>

lemma inv_outbox [simp]: "publisher_inv offered (p\<lparr>pb_outbox := st\<rparr>) = publisher_inv offered p"
  by (simp add: publisher_inv_def cache_agrees_def cache_shape_def installed_def)

definition same_but_cache :: "'p Publisher \<Rightarrow> 'p Publisher \<Rightarrow> bool" where
  "same_but_cache p p' \<longleftrightarrow> pb_outbox p' = pb_outbox p \<and> pb_customer p' = pb_customer p \<and> pb_contracts p' = pb_contracts p \<and>
     pb_encode p' = pb_encode p \<and> pb_membership p' = pb_membership p \<and> pb_limit p' = pb_limit p"

lemma same_but_cache_refl [simp]: "same_but_cache p p"
  by (simp add: same_but_cache_def)

lemma same_but_cache_trans: "same_but_cache p q \<Longrightarrow> same_but_cache q r \<Longrightarrow> same_but_cache p r"
  by (simp add: same_but_cache_def)

section \<open>The cache\<close>

lemma keys_mput: "set (map fst (mput k v m)) = insert k (set (map fst m))"
  unfolding mput_def by (induction m) auto

lemma keys_mdel: "set (map fst (mdel k m)) = set (map fst m) - {k}"
  unfolding mdel_eq_filter by auto

lemma mget_keys: "mget m k = None \<longleftrightarrow> k \<notin> set (map fst m)"
  by (induction m) auto

lemma evict_inv:
  assumes "publisher_inv offered p"
  shows "publisher_inv offered (evict p)" and "same_but_cache p (evict p)" and "length (pb_order (evict p)) < pb_limit p"
    and "set (pb_order (evict p)) \<subseteq> set (pb_order p)"
proof -
  have shape: "cache_shape p" by (rule publisher_invD(2) [OF assms])
  have "publisher_inv offered (evict p) \<and> same_but_cache p (evict p) \<and> length (pb_order (evict p)) < pb_limit p \<and>
      set (pb_order (evict p)) \<subseteq> set (pb_order p)"
  proof (cases "pb_limit p \<le> length (pb_order p)")
    case True
    then obtain k ks where o: "pb_order p = k # ks" using shape by (cases "pb_order p") (auto simp: cache_shape_def)
    have e: "evict p = p\<lparr>pb_cache := mdel k (pb_cache p), pb_order := ks\<rparr>" using True by (simp add: evict_def o)
    have "set ks = set (map fst (pb_cache p)) - {k}" using shape o by (auto simp: cache_shape_def)
    then have "cache_shape (evict p)" using shape o by (simp add: e cache_shape_def keys_mdel del: set_map)
    moreover have "cache_agrees offered (evict p)"
      using publisher_invD(1) [OF assms] by (auto simp: e cache_agrees_def)
    moreover have "installed offered (evict p)" using publisher_invD(3) [OF assms] by (simp add: e installed_def)
    moreover have "length ks < pb_limit p" using shape o by (simp add: cache_shape_def)
    ultimately show ?thesis by (auto simp: publisher_inv_def e o same_but_cache_def)
  qed (use assms in \<open>simp add: evict_def\<close>)
  then show "publisher_inv offered (evict p)" "same_but_cache p (evict p)" "length (pb_order (evict p)) < pb_limit p"
    "set (pb_order (evict p)) \<subseteq> set (pb_order p)" by blast+
qed

lemma insert_inv:
  assumes "publisher_inv offered p" and "s \<in> offered" and "assignmentFor (pb_customer p) h s = Inr a"
    and "placement_key h s \<notin> set (pb_order p)" and "length (pb_order p) < pb_limit p"
  shows "publisher_inv offered (p\<lparr>pb_cache := mput (placement_key h s) a (pb_cache p), pb_order := pb_order p @ [placement_key h s]\<rparr>)"
    (is "publisher_inv offered ?p")
proof -
  have "cache_agrees offered ?p"
    using publisher_invD(1) [OF assms(1)] assms(2,3) by (auto simp: cache_agrees_def placement_key_def)
  moreover have "cache_shape ?p"
    using publisher_invD(2) [OF assms(1)] assms(4,5) by (simp add: cache_shape_def keys_mput del: set_map)
  moreover have "installed offered ?p" using publisher_invD(3) [OF assms(1)] by (simp add: installed_def)
  ultimately show ?thesis by (simp add: publisher_inv_def)
qed

lemma cached_assignmentFor_spec:
  assumes "publisher_inv offered p" and "one_per_revision offered" and "s \<in> offered" and "cached_assignmentFor h s p = (res, p')"
  shows "res = assignmentFor (pb_customer p) h s" and "publisher_inv offered p'" and "same_but_cache p p'"
proof -
  have "res = assignmentFor (pb_customer p) h s \<and> publisher_inv offered p' \<and> same_but_cache p p'"
  proof (cases "mget (pb_cache p) (placement_key h s)")
    case None
    show ?thesis
    proof (cases "assignmentFor (pb_customer p) h s")
      case (Inl e)
      then show ?thesis using None assms(1,4) by (simp add: cached_assignmentFor_def Let_def)
    next
      case (Inr a)
      note E = evict_inv [OF assms(1)]
      let ?q = "evict p" and ?k = "placement_key h s"
      have p': "res = Inr a" "p' = ?q\<lparr>pb_cache := mput ?k a (pb_cache ?q), pb_order := pb_order ?q @ [?k]\<rparr>"
        using None Inr assms(4) by (simp_all add: cached_assignmentFor_def Let_def)
      have c: "pb_customer ?q = pb_customer p" "pb_limit ?q = pb_limit p" using E(2) by (simp_all add: same_but_cache_def)
      have "?k \<notin> set (pb_order p)"
        using None publisher_invD(2) [OF assms(1)] unfolding cache_shape_def mget_keys by blast
      then have "?k \<notin> set (pb_order ?q)" using E(4) by blast
      then have "publisher_inv offered p'"
        unfolding p'(2) using E(3) Inr by (intro insert_inv [OF E(1) assms(3)]) (simp_all add: c)
      moreover have "same_but_cache p p'" using E(2) by (simp add: p'(2) same_but_cache_def)
      ultimately show ?thesis using Inr p'(1) by simp
    qed
  next
    case (Some a)
    then obtain t where t: "t \<in> offered" "placement_key h t = placement_key h s" "assignmentFor (pb_customer p) h t = Inr a"
      using publisher_invD(1) [OF assms(1)] unfolding cache_agrees_def placement_key_def by blast
    then have "t = s" using assms(2,3) unfolding one_per_revision_def placement_key_def by blast
    then show ?thesis using Some t(3) assms(1,4) by (simp add: cached_assignmentFor_def Let_def)
  qed
  then show "res = assignmentFor (pb_customer p) h s" "publisher_inv offered p'" "same_but_cache p p'" by blast+
qed


section \<open>The uncached reference\<close>

definition direct_record :: "'p Publisher \<Rightarrow> 'p MessageView \<Rightarrow> publisher_error + Record" where
  "direct_record p m =
     (case message_parts p m of
        Inl e \<Rightarrow> Inl e
      | Inr (s, h, r) \<Rightarrow>
          if routable s then
            (case assignmentFor (pb_customer p) h s of Inl e \<Rightarrow> Inl e | Inr a \<Rightarrow> Inr (route_record a r))
          else Inr r)"

fun direct_records :: "nat \<Rightarrow> 'p Publisher \<Rightarrow> 'p MessageView list \<Rightarrow> publisher_error + Record list" where
  "direct_records i p [] = Inr []"
| "direct_records i p (m # ms) =
     (case direct_record p m of
        Inl e \<Rightarrow> Inl (BatchRecord i e)
      | Inr r \<Rightarrow> (case direct_records (Suc i) p ms of Inl e \<Rightarrow> Inl e | Inr rs \<Rightarrow> Inr (r # rs)))"

lemma same_but_cacheD:
  assumes "same_but_cache p p'"
  shows "pb_outbox p' = pb_outbox p" and "pb_customer p' = pb_customer p" and "pb_contracts p' = pb_contracts p"
    and "pb_encode p' = pb_encode p" and "pb_membership p' = pb_membership p"
  using assms by (simp_all add: same_but_cache_def)

lemma direct_record_frame:
  assumes "same_but_cache p p'"
  shows "direct_record p' m = direct_record p m"
  unfolding direct_record_def message_parts_def same_but_cacheD [OF assms] by (rule refl)

lemma direct_records_frame: "same_but_cache p p' \<Longrightarrow> direct_records i p' ms = direct_records i p ms"
  by (induction ms arbitrary: i) (simp_all add: direct_record_frame cong: sum.case_cong)

lemma message_parts_snapshot:
  assumes "message_parts p m = Inr (s, h, r)"
  shows "\<exists>g. mget (pb_membership p) g = Some s"
  using assms unfolding message_parts_def by (auto split: if_splits option.splits sum.splits)

lemma recordFor_spec:
  assumes "publisher_inv offered p" and "one_per_revision offered" and "recordFor m p = (res, p')"
  shows "res = direct_record p m" and "publisher_inv offered p'" and "same_but_cache p p'"
proof -
  have "res = direct_record p m \<and> publisher_inv offered p' \<and> same_but_cache p p'"
  proof (cases "message_parts p m")
    case (Inl e)
    then show ?thesis using assms(1,3) by (simp add: recordFor_def direct_record_def)
  next
    case (Inr x)
    obtain s h r where x: "x = (s, h, r)" by (cases x) auto
    then obtain g where "mget (pb_membership p) g = Some s" using message_parts_snapshot Inr by blast
    then have s: "s \<in> offered" by (rule installedD(1) [OF assms(1)])
    obtain out p1 where look: "cached_assignmentFor h s p = (out, p1)" by (cases "cached_assignmentFor h s p") auto
    note C = cached_assignmentFor_spec [OF assms(1,2) s look]
    show ?thesis
      using assms(1,3) Inr look C by (auto simp: recordFor_def direct_record_def x split: if_splits sum.splits)
  qed
  then show "res = direct_record p m" "publisher_inv offered p'" "same_but_cache p p'" by blast+
qed

lemma records_for_spec:
  assumes "publisher_inv offered p" and "one_per_revision offered" and "records_for i ms p = (res, p')"
  shows "res = direct_records i p ms \<and> publisher_inv offered p' \<and> same_but_cache p p'"
  using assms(1,3)
proof (induction ms arbitrary: i p res p')
  case (Cons m ms)
  obtain out p1 where one: "recordFor m p = (out, p1)" by (cases "recordFor m p") auto
  note R = recordFor_spec [OF Cons.prems(1) assms(2) one]
  show ?case
  proof (cases out)
    case (Inl e)
    then show ?thesis using Cons.prems(2) one R by auto
  next
    case (Inr r)
    obtain rest p2 where more: "records_for (Suc i) ms p1 = (rest, p2)" by (cases "records_for (Suc i) ms p1") auto
    note I = Cons.IH [OF R(2) more]
    have "p' = p2" using Cons.prems(2) one Inr more by (auto split: sum.splits)
    moreover have "direct_records (Suc i) p1 ms = direct_records (Suc i) p ms" by (rule direct_records_frame [OF R(3)])
    ultimately show ?thesis
      using Cons.prems(2) one Inr more R I same_but_cache_trans [OF R(3)] by (auto split: sum.splits)
  qed
qed simp

section \<open>Collecting the buffered records\<close>

lemma collect_spec:
  assumes "publisher_inv offered p" and "one_per_revision offered" and "s \<in> offered"
    and "collect_assignments k s rs p = ((us, es), p')"
  shows "publisher_inv offered p' \<and> same_but_cache p p' \<and>
    (es = [] \<longrightarrow> us = map (\<lambda>r. \<lparr>au_event = r_event r, au_assignment = projr (assignmentFor (pb_customer p) (r_hash r) s)\<rparr>) (filter (retryable s) rs) \<and>
       (\<forall>r\<in>set rs. retryable s r \<longrightarrow> \<not> metadata_mismatch k s r \<and> isl (assignmentFor (pb_customer p) (r_hash r) s) = False))"
  using assms(1,4)
proof (induction rs arbitrary: p us es p')
  case (Cons r rs)
  obtain out p1 where look: "cached_assignmentFor (r_hash r) s p = (out, p1)" by (cases "cached_assignmentFor (r_hash r) s p") auto
  note C = cached_assignmentFor_spec [OF Cons.prems(1) assms(2,3) look]
  have cu: "pb_customer p1 = pb_customer p" using C(3) by (simp add: same_but_cache_def)
  consider "\<not> retryable s r" | "retryable s r" "metadata_mismatch k s r" | "retryable s r" "\<not> metadata_mismatch k s r" by blast
  then show ?case
  proof cases
    case 1
    then show ?thesis using Cons.IH [OF Cons.prems(1)] Cons.prems(2) by auto
  next
    case 2
    then show ?thesis using Cons.IH [OF Cons.prems(1)] Cons.prems(2) by (auto split: prod.splits)
  next
    case 3
    obtain us1 es1 p2 where more: "collect_assignments k s rs p1 = ((us1, es1), p2)" by (metis prod.exhaust)
    note I = Cons.IH [OF C(2) more]
    have "same_but_cache p p2" using I C(3) same_but_cache_trans by blast
    then show ?thesis using Cons.prems(2) 3 look more I C(1) by (auto simp: cu split: sum.splits)
  qed
qed simp

section \<open>Steps\<close>

inductive publisher_step :: "MembershipSnapshot set \<Rightarrow> 'p Publisher \<Rightarrow> 'p Publisher \<Rightarrow> bool" for offered where
  apply_step: "\<lbrakk>s \<in> offered; ApplyMembership now commit s p = (err, p')\<rbrakk> \<Longrightarrow> publisher_step offered p p'"
| batch_step: "publisher_AcceptBatch now commit ms p = (res, p') \<Longrightarrow> publisher_step offered p p'"
| admit_step: "dispatch_send now commit r p = (out, p') \<Longrightarrow> publisher_step offered p p'"
| answer_step: "dispatch_finish now commit outcome err r acc p = (acc', p') \<Longrightarrow> publisher_step offered p p'"
| resend_step: "publisher_RetryAckUncertain now commit e p = (err, p') \<Longrightarrow> publisher_step offered p p'"
| late_ack_step: "publisher_Ack now commit e attempts epoch p = (err, p') \<Longrightarrow> publisher_step offered p p'"
| other_step: "publisher_step offered p (p\<lparr>pb_outbox := st\<rparr>)"

inductive publisher_reachable :: "MembershipSnapshot set \<Rightarrow> 'p Publisher \<Rightarrow> bool" for offered where
  constructed: "NewPublisher default_encode c = Inr p \<Longrightarrow> publisher_reachable offered p"
| moved: "\<lbrakk>publisher_reachable offered p; publisher_step offered p p'\<rbrakk> \<Longrightarrow> publisher_reachable offered p'"

lemma install_inv:
  assumes "publisher_inv offered p" and "s \<in> offered" and "Validate s = None"
  shows "publisher_inv offered (install s p)"
proof -
  have "installed offered (install s p)"
    using publisher_invD(3) [OF assms(1)] assms(2,3) by (auto simp: installed_def install_def)
  then show ?thesis
    using assms(1) by (simp add: publisher_inv_def cache_agrees_def cache_shape_def install_def)
qed

lemma activate_inv:
  assumes "publisher_inv offered p" and "one_per_revision offered" and "s \<in> offered" and "Validate s = None"
    and "activate now commit k s p = (err, p')"
  shows "publisher_inv offered p'"
proof -
  obtain us es p1 where c: "collect_assignments k s (Records (pb_outbox p)) p = ((us, es), p1)" by (metis prod.exhaust)
  have inv: "publisher_inv offered p1" using collect_spec [OF assms(1-3) c] by blast
  have "p' = p1 \<or> p' = install s p1 \<or> (\<exists>st. p' = p1\<lparr>pb_outbox := st\<rparr> \<or> p' = install s (p1\<lparr>pb_outbox := st\<rparr>))"
    using assms(5) c by (auto simp: activate_def split: if_splits prod.splits option.splits)
  then show ?thesis using inv install_inv [OF _ assms(3,4)] by auto
qed

lemma ApplyMembership_inv:
  assumes "publisher_inv offered p" and "one_per_revision offered" and "s \<in> offered"
    and "ApplyMembership now commit s p = (err, p')"
  shows "publisher_inv offered p'"
proof (cases "Validate s")
  case None
  show ?thesis
  proof (cases "check_snapshot s p")
    case (Inl e)
    then show ?thesis using assms(1,4) None by (simp add: ApplyMembership_def)
  next
    case (Inr k)
    have "p' = p \<or> p' = install s p \<or> activate now commit k s p = (err, p')"
      using assms(4) None Inr by (auto simp: ApplyMembership_def split: option.splits if_splits)
    then show ?thesis using assms(1) install_inv [OF assms(1,3) None] activate_inv [OF assms(1-3) None] by blast
  qed
qed (use assms(1,4) in \<open>simp add: ApplyMembership_def\<close>)

lemma publisher_step_inv:
  assumes "publisher_step offered p p'" and "publisher_inv offered p" and "one_per_revision offered"
  shows "publisher_inv offered p'"
  using assms(1)
proof cases
  case (apply_step s now commit err)
  then show ?thesis using ApplyMembership_inv [OF assms(2,3)] by blast
next
  case (batch_step now commit ms res)
  obtain out p1 where r: "records_for 0 ms p = (out, p1)" by (cases "records_for 0 ms p") auto
  have "publisher_inv offered p1" using records_for_spec [OF assms(2,3) r] by blast
  then show ?thesis
    using batch_step assms(2) r by (auto simp: publisher_AcceptBatch_def split: if_splits sum.splits prod.splits)
next
  case (admit_step now commit r out)
  then show ?thesis using assms(2) by (auto simp: dispatch_send_def split: if_splits prod.splits option.splits)
next
  case (answer_step now commit outcome err r acc acc')
  then show ?thesis
    using assms(2) by (auto simp: dispatch_finish_def Let_def split: if_splits prod.splits option.splits)
next
  case (resend_step now commit e err)
  show ?thesis
  proof (cases "\<exists>r s. Get e (pb_outbox p) = Inr r \<and> mget (pb_membership p) (r_group r) = Some s")
    case True
    then obtain r s where rs: "Get e (pb_outbox p) = Inr r" "mget (pb_membership p) (r_group r) = Some s" by blast
    obtain out p1 where look: "cached_assignmentFor (r_hash r) s p = (out, p1)" by (cases "cached_assignmentFor (r_hash r) s p") auto
    note C = cached_assignmentFor_spec [OF assms(2,3) installedD(1) [OF assms(2) rs(2)] look]
    show ?thesis
      using resend_step rs look C(2) assms(2) by (auto simp: publisher_RetryAckUncertain_def split: if_splits sum.splits prod.splits)
  qed (use resend_step assms(2) in \<open>auto simp: publisher_RetryAckUncertain_def split: sum.splits option.splits\<close>)
next
  case (late_ack_step now commit e attempts epoch err)
  then show ?thesis using assms(2) by (auto simp: publisher_Ack_def split: prod.splits)
qed (use assms(2) in simp)

lemma publisher_reachable_inv:
  assumes "publisher_reachable offered p" and "one_per_revision offered"
  shows "publisher_inv offered p"
  using assms(1)
proof induction
  case (constructed default_encode c p)
  then have "pb_membership p = [] \<and> pb_cache p = [] \<and> pb_order p = [] \<and> pb_limit p = 4096"
    by (auto simp: NewPublisher_def split: option.splits sum.splits if_splits)
  then show ?case by (simp add: publisher_inv_def cache_agrees_def cache_shape_def installed_def)
qed (use publisher_step_inv [OF _ _ assms(2)] in blast)

end
