(* ===== verification/Publisher_Delivery.thy ===== *)
theory Publisher_Delivery
  imports Publisher_Runs Outbox_Demo
begin

text \<open>
  What the publisher does to the records of its outbox: the routes that an activation gives to the buffered
  records, the records that an accepted batch adds, and a dispatch pass over a broker that acknowledges.
\<close>

section \<open>Placed records\<close>

definition route_of :: "Record \<Rightarrow> Assignment" where
  "route_of r = \<lparr>as_epoch = r_epoch r, as_broker = r_broker r, as_endpoint = r_endpoint r, as_destination = r_destination r\<rparr>"

definition placed :: "'p Publisher \<Rightarrow> Record \<Rightarrow> bool" where
  "placed p r \<longleftrightarrow>
     (\<exists>s. mget (pb_membership p) (r_group r) = Some s \<and>
        (if routable s then r_state r = StateReady \<and> assignmentFor (pb_customer p) (r_hash r) s = Inr (route_of r)
         else r_state r = StateUnassigned))"

lemma route_of_route_record: "route_of (route_record a r) = a"
  by (simp add: route_of_def route_record_def)

lemma route_of_accepted [simp]: "route_of (accepted_record now q r) = route_of r"
  by (simp add: route_of_def accepted_record_def Let_def)

lemma message_parts_record:
  assumes "message_parts p m = Inr (s, h, r)"
  shows "mget (pb_membership p) (r_group r) = Some s" and "r_hash r = h" and "r_event r = mv_event_id m" and "r_state r = StateUnassigned"
  using assms unfolding message_parts_def
  by (auto simp: unrouted_record_def split: if_splits option.splits sum.splits)

lemma direct_record_placed:
  assumes "direct_record p m = Inr r"
  shows "placed p r" and "r_event r = mv_event_id m" and "r_state r \<noteq> StateUnset"
proof -
  obtain s h x where parts: "message_parts p m = Inr (s, h, x)"
    using assms by (auto simp: direct_record_def split: sum.splits)
  note M = message_parts_record [OF parts]
  have "placed p r \<and> r_event r = mv_event_id m \<and> r_state r \<noteq> StateUnset"
  proof (cases "routable s")
    case True
    then obtain a where a: "assignmentFor (pb_customer p) h s = Inr a" "r = route_record a x"
      using assms parts by (auto simp: direct_record_def split: sum.splits)
    have "r_group r = r_group x" "r_hash r = r_hash x" "r_event r = r_event x" "r_state r = StateReady"
      by (simp_all add: a(2) route_record_def)
    then show ?thesis using M True a(1) route_of_route_record [of a x] by (simp add: placed_def a(2))
  next
    case False
    then have "r = x" using assms parts by (simp add: direct_record_def)
    then show ?thesis using M False by (simp add: placed_def)
  qed
  then show "placed p r" "r_event r = mv_event_id m" "r_state r \<noteq> StateUnset" by blast+
qed

lemma accepted_placed: "r_state r \<noteq> StateUnset \<Longrightarrow> placed p r \<Longrightarrow> placed p (accepted_record now q r)"
proof -
  assume "r_state r \<noteq> StateUnset" and p: "placed p r"
  then have "r_state (accepted_record now q r) = r_state r" "r_group (accepted_record now q r) = r_group r"
    "r_hash (accepted_record now q r) = r_hash r" by (simp_all add: accepted_record_def Let_def)
  with p show ?thesis unfolding placed_def route_of_accepted by metis
qed

lemma direct_records_placed:
  assumes "direct_records i p ms = Inr rs"
  shows "map r_event rs = map mv_event_id ms \<and> (\<forall>r\<in>set rs. \<exists>m\<in>set ms. direct_record p m = Inr r) \<and>
    (\<forall>r\<in>set (accepted_records now q rs). placed p r)"
  using assms
proof (induction ms arbitrary: i rs q)
  case (Cons m ms)
  then obtain r rest where r: "direct_record p m = Inr r" "direct_records (Suc i) p ms = Inr rest" "rs = r # rest"
    by (auto split: sum.splits)
  note D = direct_record_placed [OF r(1)]
  show ?case using Cons.IH [OF r(2), of "q + 1"] D accepted_placed [OF D(3,1), of now q] r(1,3) by auto
qed simp

lemma accepted_events: "map r_event (accepted_records now q rs) = map r_event rs"
  by (induction rs arbitrary: q) simp_all

section \<open>Activation\<close>

definition rerouted :: "gotime \<Rightarrow> Assignment \<Rightarrow> Record \<Rightarrow> Record" where
  "rerouted now a r = (case assign_record a r of Inl e \<Rightarrow> r | Inr r1 \<Rightarrow> r1\<lparr>r_updated := now\<rparr>)"

lemma assign_record_Inr:
  assumes "assign_record a r = Inr r1"
  shows "r_state (rerouted now a r) = StateReady" and "route_of (rerouted now a r) = a" and "same_content r (rerouted now a r)"
  using assms by (auto simp: rerouted_def assign_record_def route_of_def same_content_def split: if_splits)

lemma update_loop_mutates:
  "update_loop now s mutate es = Inr rs \<Longrightarrow> e \<in> set es \<Longrightarrow> \<exists>r r1. mget (st_records s) e = Some r \<and> mutate e r = Inr r1"
  by (induction es arbitrary: rs) (auto simp: Let_def split: option.splits sum.splits)

lemma updateMany_mutates:
  assumes "updateMany now commit mutate es s = (None, s')" and "e \<in> set es"
  shows "\<exists>r r1. mget (st_records s) e = Some r \<and> mutate e r = Inr r1"
proof -
  have "es \<noteq> []" using assms(2) by auto
  then obtain rs where "update_loop now s mutate es = Inr rs"
    using assms(1) by (auto simp: updateMany_def split: if_splits option.splits sum.splits)
  then show ?thesis using update_loop_mutates assms(2) by blast
qed

lemma fold_mput_distinct:
  assumes "distinct (map k us)" and "u \<in> set us"
  shows "mget (fold (\<lambda>u m. mput (k u) (v u) m) us m0) (k u) = Some (v u)"
  using assms
proof (induction us arbitrary: m0)
  case (Cons x us)
  show ?case
  proof (cases "u \<in> set us")
    case False
    have keep: "k x \<notin> k ` set ys \<Longrightarrow> mget (fold (\<lambda>u m. mput (k u) (v u) m) ys m) (k x) = mget m (k x)" for ys m
      by (induction ys arbitrary: m) auto
    from False Cons.prems show ?thesis by (simp add: keep)
  qed (use Cons in simp)
qed simp

lemma assign_all:
  assumes inv: "outbox_inv st" and texts: "\<forall>r\<in>set (queue st). P r \<longrightarrow> text_assignment (f r)"
    and us: "us = map (\<lambda>r. \<lparr>au_event = r_event r, au_assignment = f r\<rparr>) (filter P (queue st))"
    and run: "AssignBatch now commit us st = (None, st')"
  shows "queue st' = map (\<lambda>r. if P r then rerouted now (f r) r else r) (queue st) \<and>
    (\<forall>r\<in>set (queue st). P r \<longrightarrow> (\<exists>r1. assign_record (f r) r = Inr r1))"
proof -
  have store: "store_inv st" using inv by (simp add: outbox_inv_def)
  then have index: "index_inv st" by (simp add: store_inv_def)
  let ?as = "fold (\<lambda>u m. mput (au_event u) (au_assignment u) m) us []"
  let ?m = "\<lambda>e. assign_record (the (mget ?as e))" and ?es = "map au_event us"
  have dist: "distinct (map r_event (queue st))" by (rule queue_events(1) [OF index])
  then have "distinct (map au_event us)" using distinct_map_filter [of r_event "queue st" P] by (simp add: us comp_def)
  then have look: "mget ?as (r_event r) = Some (f r)" if "r \<in> set (queue st)" "P r" for r
    using fold_mput_distinct [of au_event us "\<lparr>au_event = r_event r, au_assignment = f r\<rparr>" au_assignment "[]"] that
    by (simp add: us)
  have ev: "r_event r \<in> set ?es \<longleftrightarrow> P r" if "r \<in> set (queue st)" for r
    using that dist by (auto simp: us distinct_map dest: inj_onD)
  have run': "updateMany now commit ?m ?es st = (None, st')" using run by (simp add: AssignBatch_def assignMany_def Let_def)
  have text_e: "text_assignment (the (mget ?as e))" if "e \<in> set ?es" for e
    using that texts look by (auto simp: us)
  have ok: "mutation_ok ?m ?es" by (intro assign_ok ballI text_e)
  have q: "queue st' = map (updated_record now ?m ?es) (queue st)" using updateMany_spec(3) [OF store ok run'] by simp
  have one: "\<exists>r1. assign_record (f r) r = Inr r1" if r: "r \<in> set (queue st)" "P r" for r
  proof -
    have "r_event r \<in> set ?es" using ev r by blast
    from updateMany_mutates [OF run' this] look [OF r] queue_member [OF index, of r] r(1) show ?thesis by auto
  qed
  have "updated_record now ?m ?es r = (if P r then rerouted now (f r) r else r)" if "r \<in> set (queue st)" for r
    using ev [OF that] look [OF that] by (auto simp: updated_record_def rerouted_def)
  then have "queue st' = map (\<lambda>r. if P r then rerouted now (f r) r else r) (queue st)" unfolding q by (intro map_cong) simp_all
  with one show ?thesis by blast
qed


lemma open_assign: "st_open (snd (AssignBatch now commit us s)) = st_open s"
  by (simp add: AssignBatch_def assignMany_def Let_def open_update)

lemma ApplyMembership_activates:
  assumes "ms_phase s = CtlActive" and new: "\<forall>t. mget (pb_membership p) (ms_group s) = Some t \<longrightarrow> ms_revision t < ms_revision s"
    and run: "ApplyMembership now commit s p = (None, p')"
  shows "\<exists>k. Validate s = None \<and> activate now commit k s p = (None, p')"
proof -
  have v: "Validate s = None" using run by (cases "Validate s") (simp_all add: ApplyMembership_def)
  obtain k where k: "check_snapshot s p = Inr k" using run v by (cases "check_snapshot s p") (simp_all add: ApplyMembership_def)
  have "ApplyMembership now commit s p = activate now commit k s p"
    using v k assms(1) new by (cases "mget (pb_membership p) (ms_group s)") (auto simp: ApplyMembership_def)
  then show ?thesis using v run by auto
qed

lemma activate_routes:
  assumes inv: "publisher_inv offered p" "one_per_revision offered" "s \<in> offered"
    and box: "outbox_inv (pb_outbox p)" "st_open (pb_outbox p)"
    and texts: "\<forall>h a. assignmentFor (pb_customer p) h s = Inr a \<longrightarrow> text_assignment a"
    and run: "activate now commit k s p = (None, p')"
  shows "queue (pb_outbox p') =
      map (\<lambda>r. if retryable s r then rerouted now (projr (assignmentFor (pb_customer p) (r_hash r) s)) r else r) (queue (pb_outbox p)) \<and>
    (\<forall>r\<in>set (queue (pb_outbox p)). retryable s r \<longrightarrow>
       (\<exists>a r1. assignmentFor (pb_customer p) (r_hash r) s = Inr a \<and> assign_record a r = Inr r1)) \<and>
    pb_membership p' = mput (ms_group s) s (pb_membership p) \<and> pb_customer p' = pb_customer p \<and> st_open (pb_outbox p')"
proof -
  let ?f = "\<lambda>r. projr (assignmentFor (pb_customer p) (r_hash r) s)" and ?q = "queue (pb_outbox p)"
  obtain us es p1 where c: "collect_assignments k s ?q p = ((us, es), p1)" by (metis prod.exhaust)
  have R: "Records (pb_outbox p) = ?q" by (rule Records_queue [OF box(2)])
  have es: "es = []" using run c by (auto simp: activate_def R split: if_splits)
  have C: "same_but_cache p p1" "us = map (\<lambda>r. \<lparr>au_event = r_event r, au_assignment = ?f r\<rparr>) (filter (retryable s) ?q)"
    "\<forall>r\<in>set ?q. retryable s r \<longrightarrow> isl (assignmentFor (pb_customer p) (r_hash r) s) = False"
    using collect_spec [OF inv c] es by blast+
  note S = same_but_cacheD [OF C(1)]
  have have_a: "assignmentFor (pb_customer p) (r_hash r) s = Inr (?f r)" if "r \<in> set ?q" "retryable s r" for r
    using C(3) that by (cases "assignmentFor (pb_customer p) (r_hash r) s") auto
  show ?thesis
  proof (cases "us = []")
    case True
    then have none: "\<not> retryable s r" if "r \<in> set ?q" for r using C(2) that by (auto simp: filter_empty_conv)
    have "p' = install s p1" using run c es True by (simp add: activate_def R)
    then have o: "pb_outbox p' = pb_outbox p" and "pb_membership p' = mput (ms_group s) s (pb_membership p)" "pb_customer p' = pb_customer p"
      using S by (simp_all add: install_def)
    moreover have "?q = map (\<lambda>r. if retryable s r then rerouted now (?f r) r else r) ?q" using none by (simp add: map_idI)
    ultimately show ?thesis using box(2) none by simp
  next
    case False
    obtain err st where a: "AssignBatch now commit us (pb_outbox p) = (err, st)" by (cases "AssignBatch now commit us (pb_outbox p)") auto
    have p': "err = None" "p' = install s (p1\<lparr>pb_outbox := st\<rparr>)"
      using run c es False a S(1) by (auto simp: activate_def R split: option.splits)
    have text_f: "\<forall>r\<in>set ?q. retryable s r \<longrightarrow> text_assignment (?f r)" using have_a texts by blast
    have q: "queue st = map (\<lambda>r. if retryable s r then rerouted now (?f r) r else r) ?q \<and>
        (\<forall>r\<in>set ?q. retryable s r \<longrightarrow> (\<exists>r1. assign_record (?f r) r = Inr r1))"
      by (rule assign_all [OF box(1) text_f C(2) a [unfolded p'(1)]])
    have o: "st_open st" using open_assign [of now commit us "pb_outbox p"] a box(2) by simp
    have f: "pb_outbox p' = st" "pb_membership p' = mput (ms_group s) s (pb_membership p)" "pb_customer p' = pb_customer p"
      using S by (simp_all add: p'(2) install_def)
    have "\<forall>r\<in>set ?q. retryable s r \<longrightarrow>
        (\<exists>a r1. assignmentFor (pb_customer p) (r_hash r) s = Inr a \<and> assign_record a r = Inr r1)" using q have_a by blast
    with q o show ?thesis unfolding f by blast
  qed
qed

lemma activate_failure:
  assumes inv: "publisher_inv offered p" "one_per_revision offered" "s \<in> offered" and act: "activate now commit k s p = (Some e, p')"
  shows "pb_membership p' = pb_membership p \<and> pb_outbox p' = pb_outbox p"
proof -
  obtain us es p1 where c: "collect_assignments k s (Records (pb_outbox p)) p = ((us, es), p1)" by (metis prod.exhaust)
  have S: "pb_membership p1 = pb_membership p" "pb_outbox p1 = pb_outbox p"
    using collect_spec [OF inv c] same_but_cacheD by blast+
  obtain err st where a: "AssignBatch now commit us (pb_outbox p1) = (err, st)" by (cases "AssignBatch now commit us (pb_outbox p1)") auto
  have "p' = p1 \<or> err \<noteq> None \<and> p' = p1\<lparr>pb_outbox := st\<rparr>"
    using act c a by (auto simp: activate_def split: if_splits option.splits)
  moreover have "st = pb_outbox p1" if "err \<noteq> None"
    using a that by (auto simp: AssignBatch_def assignMany_def updateMany_def Let_def split: if_splits option.splits sum.splits)
  ultimately show ?thesis using S by auto
qed

lemma ApplyMembership_failure:
  assumes inv: "publisher_inv offered p" "one_per_revision offered" "s \<in> offered" and run: "ApplyMembership now commit s p = (Some e, p')"
  shows "pb_membership p' = pb_membership p \<and> pb_outbox p' = pb_outbox p"
proof (cases "\<exists>k. activate now commit k s p = (Some e, p')")
  case True
  then show ?thesis using activate_failure [OF inv] by blast
next
  case False
  then have "p' = p"
    using run by (cases "Validate s"; cases "check_snapshot s p"; cases "mget (pb_membership p) (ms_group s)")
      (simp_all add: ApplyMembership_def split: if_splits)
  then show ?thesis by simp
qed


section \<open>One record acknowledged\<close>

lemma queue_filter_one:
  assumes "index_inv st" and "r \<in> set (queue st)"
  shows "x \<in> set (queue st) \<Longrightarrow> r_event x = r_event r \<Longrightarrow> x = r"
  using queue_events(1) [OF assms(1)] assms(2) by (auto simp: distinct_map dest: inj_onD)

definition sent_record :: "gotime \<Rightarrow> Record \<Rightarrow> Record" where
  "sent_record now r = r\<lparr>r_state := StateInEventsA, r_attempts := r_attempts r + 1, r_error := [], r_updated := now\<rparr>"

lemma MarkInEventsA_ready:
  assumes inv: "outbox_inv st" "st_open st" and r: "r \<in> set (queue st)" "r_state r = StateReady" and now: "json_time_ok now"
  obtains st1 where "MarkInEventsA now True (r_event r) st = (None, st1)" and "outbox_inv st1" and "st_open st1"
    and "queue st1 = map (\<lambda>x. if r_event x = r_event r then sent_record now r else x) (queue st)"
proof -
  note R = inv_record [OF inv(1) r(1)]
  define st1 where "st1 = snd (updateMany now True (\<lambda>e. in_flight_record) [r_event r] st)"
  have mut: "in_flight_record r = Inr (r\<lparr>r_state := StateInEventsA, r_attempts := r_attempts r + 1, r_error := []\<rparr>)"
    using r(2) by (simp add: in_flight_record_def)
  have "marshal ((r\<lparr>r_state := StateInEventsA, r_attempts := r_attempts r + 1, r_error := []\<rparr>)\<lparr>r_updated := now\<rparr>) \<noteq> None"
    using R(3) now by (simp add: marshal_def)
  then have none: "fst (updateMany now True (\<lambda>e. in_flight_record) [r_event r] st) = None"
    using inv(2) R(1,4) mut by (intro updateMany_None) auto
  then have run: "updateMany now True (\<lambda>e. in_flight_record) [r_event r] st = (None, st1)" by (simp add: st1_def prod_eq_iff)
  have store: "store_inv st" using inv(1) by (simp add: outbox_inv_def)
  have index: "index_inv st" using store by (simp add: store_inv_def)
  have "queue st1 = map (updated_record now (\<lambda>e. in_flight_record) [r_event r]) (queue st)"
    using updateMany_spec(3) [OF store in_flight_ok run] by simp
  also have "\<dots> = map (\<lambda>x. if r_event x = r_event r then sent_record now r else x) (queue st)"
  proof (intro map_cong refl)
    fix x assume "x \<in> set (queue st)"
    then have "x = r" if "r_event x = r_event r" using queue_filter_one [OF index r(1)] that by blast
    then show "updated_record now (\<lambda>e. in_flight_record) [r_event r] x = (if r_event x = r_event r then sent_record now r else x)"
      using mut by (auto simp: updated_record_def sent_record_def)
  qed
  finally have q: "queue st1 = map (\<lambda>x. if r_event x = r_event r then sent_record now r else x) (queue st)" .
  have step: "markInEventsAMany now True [r_event r] st = (None, st1)" using run by (simp add: markInEventsAMany_def)
  have "outbox_inv st1" using outbox_step_ok [OF inv(1) send_step [OF step]] by blast
  moreover have "st_open st1" using open_update [of now True "\<lambda>e. in_flight_record" "[r_event r]" st] inv(2) by (simp add: st1_def)
  ultimately show thesis using that q step by (simp add: MarkInEventsA_def)
qed

lemma Ack_in_flight:
  assumes inv: "outbox_inv st" "st_open st" and r: "r \<in> set (queue st)" "r_state r = StateInEventsA"
  obtains st1 where "Ack now True (r_event r) (r_attempts r) (r_epoch r) st = (None, st1)" and "outbox_inv st1" and "st_open st1"
    and "queue st1 = filter (\<lambda>x. r_event x \<noteq> r_event r) (queue st)"
proof -
  let ?c = "\<lparr>cm_event = r_event r, cm_attempts = r_attempts r, cm_epoch = r_epoch r, cm_outcome = CompletionAcknowledged, cm_reason = []\<rparr>"
  note R = inv_record [OF inv(1) r(1)]
  have store: "store_inv st" using inv(1) by (simp add: outbox_inv_def)
  have index: "index_inv st" using store by (simp add: store_inv_def)
  have res: "resolve now ?c r = Delete" using r(2) by (simp add: resolve_def)
  then obtain st1 where run: "CompleteBatch now True [?c] st = (Inr [?c], st1)" "st_open st1"
    using inv(2) R(1,4) by (simp add: CompleteBatch_def open_apply)
  have text_c: "\<forall>c\<in>set [?c]. text_completion c" by (simp add: text_completion_def utf8_valid_def bytes_def)
  have "queue st1 = List.map_filter (completed now [?c]) (queue st)" using CompleteBatch_spec(2) [OF store text_c run(1)] by simp
  also have "\<dots> = filter (\<lambda>x. r_event x \<noteq> r_event r) (queue st)"
  proof -
    have "completed now [?c] x = (if r_event x \<noteq> r_event r then Some x else None)" if "x \<in> set (queue st)" for x
      using queue_filter_one [OF index r(1) that] res by (auto simp: completed_def completion_for_def)
    then have "List.map_filter (completed now [?c]) xs = filter (\<lambda>x. r_event x \<noteq> r_event r) xs" if "set xs \<subseteq> set (queue st)" for xs
      using that by (induction xs) (simp_all add: map_filter_simps)
    then show ?thesis by blast
  qed
  finally have q: "queue st1 = filter (\<lambda>x. r_event x \<noteq> r_event r) (queue st)" .
  have "outbox_inv st1" using outbox_step_ok [OF inv(1) complete_step [OF text_c run(1)]] by blast
  then show thesis using that run q by (simp add: Ack_def)
qed


section \<open>A pass of the dispatcher\<close>

text \<open>A broker that acknowledges every message, while every transaction commits and the context lives.\<close>

definition acknowledging :: "(nat \<Rightarrow> dispatch_answer) \<Rightarrow> bool" where
  "acknowledging env \<longleftrightarrow>
     (\<forall>i. \<not> da_done (env i) \<and> da_send_commit (env i) \<and> json_time_ok (da_send_now (env i)) \<and> da_outcome (env i) = OutcomeAcknowledged \<and>
        da_error (env i) = None \<and> da_finish_commit (env i))"

definition sendable :: "'p Publisher \<Rightarrow> Record \<Rightarrow> bool" where
  "sendable p r \<longleftrightarrow> r_state r = StateReady \<and> admitted r p"

lemma activeEpochs_lookup:
  assumes "wf_map (pb_membership p)"
  shows "mget (activeEpochs p) g = Some e \<longleftrightarrow> (\<exists>s. mget (pb_membership p) g = Some s \<and> routable s \<and> ms_epoch s = e)"
proof -
  let ?step = "\<lambda>m (g, s). if routable s then mput g (ms_epoch s) m else m"
  have "mget (foldl ?step m0 xs) g = Some e \<longleftrightarrow>
      (\<exists>s. mget xs g = Some s \<and> routable s \<and> ms_epoch s = e) \<or> (\<forall>s. mget xs g = Some s \<longrightarrow> \<not> routable s) \<and> mget m0 g = Some e"
    if "wf_map xs" for m0 xs
    using that
  proof (induction xs arbitrary: m0)
    case (Cons x xs)
    obtain h s where x: "x = (h, s)" by (cases x)
    have wf: "wf_map xs" "mget xs h = None" using Cons.prems by (auto simp: x wf_map_def map_of_eq_None_iff)
    show ?case using Cons.IH [OF wf(1)] wf(2) by (auto simp: x)
  qed simp
  from this [OF assms, of "[]"] show ?thesis by (simp add: activeEpochs_def)
qed

lemma matches_admitted:
  assumes "wf_map (pb_membership p)"
  shows "matches (Some (activeEpochs p)) None used r \<longleftrightarrow> admitted r p"
  using activeEpochs_lookup [OF assms, of "r_group r" "r_epoch r"] by (auto simp: matches_def admitted_def split: option.splits)

lemma select_filter:
  assumes "\<And>used r. matches epochs slots used r = P r"
  shows "select epochs slots n used rs = take n (filter P rs)"
proof (induction rs arbitrary: n used)
  case (Cons r rs)
  then show ?case using assms by (cases n) auto
qed simp

lemma dispatch_select_eq:
  assumes "outbox_inv (pb_outbox p)" and "st_open (pb_outbox p)" and "wf_map (pb_membership p)"
  shows "dispatch_select limit p = take (nat limit) (filter (\<lambda>r. admitted r p) (ready_heads (queue (pb_outbox p))))"
proof -
  have "index_inv (pb_outbox p)" using assms(1) by (simp add: outbox_inv_def store_inv_def)
  from EligibleFor_select [OF this assms(2)] show ?thesis
    unfolding dispatch_select_def by (simp add: select_filter [OF matches_admitted [OF assms(3)]])
qed

lemma acknowledged_record:
  assumes env: "acknowledging env" and inv: "outbox_inv (pb_outbox p)" "st_open (pb_outbox p)"
    and r: "r \<in> set (queue (pb_outbox p))" "sendable p r"
  obtains st where "dispatch_loop env i (r # rs) (report, es) p =
      dispatch_loop env (Suc i) rs (report\<lparr>dr_attempted := dr_attempted report + 1, dr_acknowledged := dr_acknowledged report + 1\<rparr>, es)
        (p\<lparr>pb_outbox := st\<rparr>)"
    and "outbox_inv st" and "st_open st" and "queue st = filter (\<lambda>x. r_event x \<noteq> r_event r) (queue (pb_outbox p))"
proof -
  have e: "\<not> da_done (env i)" "da_send_commit (env i)" "json_time_ok (da_send_now (env i))" "da_outcome (env i) = OutcomeAcknowledged"
    "da_error (env i) = None" "da_finish_commit (env i)" using env by (simp_all add: acknowledging_def)
  have ready: "r_state r = StateReady" "admitted r p" using r(2) by (simp_all add: sendable_def)
  obtain st1 where s1: "MarkInEventsA (da_send_now (env i)) True (r_event r) (pb_outbox p) = (None, st1)" "outbox_inv st1" "st_open st1"
    "queue st1 = map (\<lambda>x. if r_event x = r_event r then sent_record (da_send_now (env i)) r else x) (queue (pb_outbox p))"
    using MarkInEventsA_ready [OF inv r(1) ready(1) e(3)] by blast
  let ?r = "sent_record (da_send_now (env i)) r"
  have f: "r_event ?r = r_event r" "r_attempts ?r = r_attempts r + 1" "r_epoch ?r = r_epoch r" "r_state ?r = StateInEventsA"
    by (simp_all add: sent_record_def)
  have "?r \<in> set (queue st1)" using r(1) by (auto simp: s1(4))
  then obtain st where s2: "Ack (da_finish_now (env i)) True (r_event r) (r_attempts r + 1) (r_epoch r) st1 = (None, st)" "outbox_inv st"
    "st_open st" "queue st = filter (\<lambda>x. r_event x \<noteq> r_event r) (queue st1)"
    using Ack_in_flight [OF s1(2,3) _ f(4), of "da_finish_now (env i)"] unfolding f by blast
  have "filter (\<lambda>x. r_event x \<noteq> r_event r) (map (\<lambda>x. if r_event x = r_event r then ?r else x) xs) = filter (\<lambda>x. r_event x \<noteq> r_event r) xs" for xs
    by (induction xs) (simp_all add: f)
  then have "queue st = filter (\<lambda>x. r_event x \<noteq> r_event r) (queue (pb_outbox p))" unfolding s2(4) s1(4) .
  moreover have "dispatch_loop env i (r # rs) (report, es) p =
      dispatch_loop env (Suc i) rs (report\<lparr>dr_attempted := dr_attempted report + 1, dr_acknowledged := dr_acknowledged report + 1\<rparr>, es)
        (p\<lparr>pb_outbox := st\<rparr>)"
    using e ready(2) s1(1) s2(1) by (simp add: dispatch_send_def dispatch_finish_def)
  ultimately show thesis using that s2(2,3) by blast
qed


lemma dispatch_loop_acknowledged:
  assumes env: "acknowledging env"
  shows "\<lbrakk>outbox_inv (pb_outbox p); st_open (pb_outbox p); distinct (map r_event rs); \<forall>r\<in>set rs. r \<in> set (queue (pb_outbox p)) \<and> sendable p r\<rbrakk>
    \<Longrightarrow> \<exists>st. dispatch_loop env i rs (report, es) p =
        ((report\<lparr>dr_attempted := dr_attempted report + int (length rs), dr_acknowledged := dr_acknowledged report + int (length rs)\<rparr>, es),
         p\<lparr>pb_outbox := st\<rparr>) \<and> outbox_inv st \<and> st_open st \<and>
        queue st = filter (\<lambda>x. r_event x \<notin> r_event ` set rs) (queue (pb_outbox p))"
proof (induction rs arbitrary: i report p)
  case Nil
  have "p\<lparr>pb_outbox := pb_outbox p\<rparr> = p" by simp
  with Nil show ?case by (intro exI [of _ "pb_outbox p"]) simp
next
  case (Cons r rs)
  have r: "r \<in> set (queue (pb_outbox p))" "sendable p r" using Cons.prems(4) by simp_all
  define one where "one = report\<lparr>dr_attempted := dr_attempted report + 1, dr_acknowledged := dr_acknowledged report + 1\<rparr>"
  obtain st where st: "dispatch_loop env i (r # rs) (report, es) p = dispatch_loop env (Suc i) rs (one, es) (p\<lparr>pb_outbox := st\<rparr>)"
    "outbox_inv st" "st_open st" "queue st = filter (\<lambda>x. r_event x \<noteq> r_event r) (queue (pb_outbox p))"
    using acknowledged_record [OF env Cons.prems(1,2) r, of i rs report es] unfolding one_def by blast
  let ?p = "p\<lparr>pb_outbox := st\<rparr>"
  have "r_event x \<noteq> r_event r" if "x \<in> set rs" for x using Cons.prems(3) event_neq that by blast
  then have rest: "\<forall>x\<in>set rs. x \<in> set (queue (pb_outbox ?p)) \<and> sendable ?p x"
    using Cons.prems(4) by (simp add: st(4) sendable_def admitted_def)
  have box: "outbox_inv (pb_outbox ?p)" "st_open (pb_outbox ?p)" "distinct (map r_event rs)" using st(2,3) Cons.prems(3) by simp_all
  obtain st2 where s2: "dispatch_loop env (Suc i) rs (one, es) ?p =
      ((one\<lparr>dr_attempted := dr_attempted one + int (length rs), dr_acknowledged := dr_acknowledged one + int (length rs)\<rparr>, es),
         ?p\<lparr>pb_outbox := st2\<rparr>)" "outbox_inv st2" "st_open st2"
      "queue st2 = filter (\<lambda>x. r_event x \<notin> r_event ` set rs) (queue (pb_outbox ?p))"
    using Cons.IH [OF box rest, of "Suc i" one] by blast
  have q: "queue st2 = filter (\<lambda>x. r_event x \<notin> r_event ` set (r # rs)) (queue (pb_outbox p))"
    using s2(4) by (simp add: st(4) conj_commute)
  show ?case unfolding st(1) s2(1) by (intro exI [of _ st2] conjI s2(2,3) q) (simp add: one_def add.assoc)
qed

lemma ready_heads_facts:
  assumes "index_inv st"
  shows "distinct (map r_event (ready_heads (queue st)))"
    and "r \<in> set (ready_heads (queue st)) \<longleftrightarrow> r \<in> set (queue st) \<and> r_state r = StateReady \<and>
      (\<forall>x\<in>set (queue st). effectiveOrderingKey x = effectiveOrderingKey r \<longrightarrow> r_sequence r \<le> r_sequence x)"
proof -
  have ordered: "sorted_wrt (\<lambda>r1 r2. r_sequence r1 < r_sequence r2) (queue st)"
    using assms by (simp add: index_inv_def order_ok_def queue_def)
  have "sorted_wrt (\<lambda>r1 r2. r_sequence r1 < r_sequence r2) (ready_heads (queue st))"
    using lane_heads_sorted [OF ordered] by (simp add: ready_heads_def sorted_wrt_filter)
  then have "sorted_wrt (<) (map r_sequence (ready_heads (queue st)))" by (simp add: sorted_wrt_map)
  then have d: "distinct (ready_heads (queue st))" by (simp add: strict_sorted_iff distinct_map)
  have sub: "set (ready_heads (queue st)) \<subseteq> set (queue st)" using lane_heads_subset by (auto simp: ready_heads_def)
  have "inj_on r_event (set (queue st))" using queue_events(1) [OF assms] by (simp add: distinct_map)
  then show "distinct (map r_event (ready_heads (queue st)))" using d sub inj_on_subset by (auto simp: distinct_map)
  let ?lane = "filter (\<lambda>x. effectiveOrderingKey x = effectiveOrderingKey r) (queue st)"
  have lane: "sorted_wrt (\<lambda>r1 r2. r_sequence r1 < r_sequence r2) ?lane" using ordered by (rule sorted_wrt_filter)
  have "?lane \<noteq> [] \<and> r = hd ?lane \<longleftrightarrow> r \<in> set ?lane \<and> (\<forall>x\<in>set ?lane. r_sequence r \<le> r_sequence x)"
    using lane by (cases ?lane) (auto simp: less_imp_le not_le [symmetric])
  then show "r \<in> set (ready_heads (queue st)) \<longleftrightarrow> r \<in> set (queue st) \<and> r_state r = StateReady \<and>
      (\<forall>x\<in>set (queue st). effectiveOrderingKey x = effectiveOrderingKey r \<longrightarrow> r_sequence r \<le> r_sequence x)"
    by (auto simp: ready_heads_def lane_heads_member)
qed

end
