(* ===== verification/Publisher_Drain.thy ===== *)
theory Publisher_Drain
  imports Publisher_Delivery
begin

text \<open>
  Passes of the dispatcher, one after the other, over a broker that acknowledges: each pass removes the sendable
  heads it selects, and after as many passes as there are records only those behind a record that may not be
  sent are left.
\<close>

fun dispatch_passes :: "(nat \<Rightarrow> dispatch_answer) list \<Rightarrow> int \<Rightarrow> 'p Publisher \<Rightarrow> 'p Publisher" where
  "dispatch_passes [] limit p = p"
| "dispatch_passes (env # envs) limit p = dispatch_passes envs limit (snd (Dispatch env limit p))"

text \<open>A record is blocked when it or an earlier record of its ordering key may not be sent.\<close>

definition blocked :: "'p Publisher \<Rightarrow> Record list \<Rightarrow> Record \<Rightarrow> bool" where
  "blocked p rs r \<longleftrightarrow>
     (\<exists>x\<in>set rs. effectiveOrderingKey x = effectiveOrderingKey r \<and> r_sequence x \<le> r_sequence r \<and> \<not> sendable p x)"

definition publisher_box :: "'p Publisher \<Rightarrow> bool" where
  "publisher_box p \<longleftrightarrow> outbox_inv (pb_outbox p) \<and> st_open (pb_outbox p) \<and> wf_map (pb_membership p)"

lemma sendable_frame [simp]: "sendable (p\<lparr>pb_outbox := st\<rparr>) = sendable p"
  by (rule ext) (simp add: sendable_def admitted_def)

lemma selected_facts:
  assumes "publisher_box p"
  shows "distinct (map r_event (dispatch_select limit p))"
    and "r \<in> set (dispatch_select limit p) \<Longrightarrow> r \<in> set (queue (pb_outbox p)) \<and> sendable p r \<and> \<not> blocked p (queue (pb_outbox p)) r"
proof -
  let ?q = "queue (pb_outbox p)"
  have box: "outbox_inv (pb_outbox p)" "st_open (pb_outbox p)" "wf_map (pb_membership p)" using assms by (simp_all add: publisher_box_def)
  have index: "index_inv (pb_outbox p)" using box(1) by (simp add: outbox_inv_def store_inv_def)
  note S = dispatch_select_eq [OF box, of limit]
  show "distinct (map r_event (dispatch_select limit p))"
    unfolding S take_map [symmetric] using distinct_map_filter [OF ready_heads_facts(1) [OF index]] by (rule distinct_take)
  show "r \<in> set ?q \<and> sendable p r \<and> \<not> blocked p ?q r" if "r \<in> set (dispatch_select limit p)"
  proof -
    have "r \<in> set (ready_heads ?q)" "admitted r p" using that set_take_subset unfolding S by fastforce+
    then have r: "r \<in> set ?q" "sendable p r" "\<forall>x\<in>set ?q. effectiveOrderingKey x = effectiveOrderingKey r \<longrightarrow> r_sequence r \<le> r_sequence x"
      using ready_heads_facts(2) [OF index, of r] by (auto simp: sendable_def)
    have "inj_on r_sequence (set ?q)"
    proof -
      have "sorted_wrt (\<lambda>r1 r2. r_sequence r1 < r_sequence r2) ?q" using index by (simp add: index_inv_def order_ok_def queue_def)
      then have "sorted_wrt (<) (map r_sequence ?q)" by (simp add: sorted_wrt_map)
      then show ?thesis by (simp add: strict_sorted_iff distinct_map)
    qed
    then have "x = r" if "x \<in> set ?q" "effectiveOrderingKey x = effectiveOrderingKey r" "r_sequence x \<le> r_sequence r" for x
      using that r by (metis antisym inj_onD)
    then have "\<not> blocked p ?q r" using r(2) unfolding blocked_def by blast
    with r show ?thesis by blast
  qed
qed

lemma nothing_selected:
  assumes "publisher_box p" and "0 < limit" and "dispatch_select limit p = []" and "r \<in> set (queue (pb_outbox p))"
  shows "blocked p (queue (pb_outbox p)) r"
proof (rule ccontr)
  let ?q = "queue (pb_outbox p)"
  have box: "outbox_inv (pb_outbox p)" "st_open (pb_outbox p)" "wf_map (pb_membership p)" using assms(1) by (simp_all add: publisher_box_def)
  have index: "index_inv (pb_outbox p)" using box(1) by (simp add: outbox_inv_def store_inv_def)
  assume free: "\<not> blocked p ?q r"
  let ?lane = "{x \<in> set ?q. effectiveOrderingKey x = effectiveOrderingKey r}"
  define h where "h = arg_min_on r_sequence ?lane"
  have lane: "finite ?lane" "?lane \<noteq> {}" using assms(4) by auto
  have h: "h \<in> ?lane" "\<forall>x\<in>?lane. r_sequence h \<le> r_sequence x"
    using arg_min_if_finite(1) [OF lane] arg_min_least [OF lane] unfolding h_def by blast+
  then have "r_sequence h \<le> r_sequence r" using assms(4) by blast
  then have "sendable p h" using free h(1) unfolding blocked_def by blast
  then have "h \<in> set (ready_heads ?q)" "admitted h p" using h ready_heads_facts(2) [OF index, of h] by (auto simp: sendable_def)
  moreover have "filter (\<lambda>r. admitted r p) (ready_heads ?q) = []" using assms(2,3) by (simp add: dispatch_select_eq [OF box])
  ultimately show False by (auto simp: filter_empty_conv)
qed

lemma Dispatch_acknowledged:
  assumes env: "acknowledging env" and "publisher_box p" and "0 < limit"
  shows "\<exists>st. Dispatch env limit p =
      ((\<lparr>dr_attempted = int (length (dispatch_select limit p)), dr_acknowledged = int (length (dispatch_select limit p)), dr_rejected = 0,
         dr_uncertain = 0\<rparr>, []), p\<lparr>pb_outbox := st\<rparr>) \<and> publisher_box (p\<lparr>pb_outbox := st\<rparr>) \<and>
     queue st = filter (\<lambda>x. r_event x \<notin> r_event ` set (dispatch_select limit p)) (queue (pb_outbox p))"
proof -
  have box: "outbox_inv (pb_outbox p)" "st_open (pb_outbox p)" using assms(2) by (simp_all add: publisher_box_def)
  note F = selected_facts [OF assms(2), where limit = limit]
  have "\<forall>r\<in>set (dispatch_select limit p). r \<in> set (queue (pb_outbox p)) \<and> sendable p r" using F(2) by blast
  from dispatch_loop_acknowledged [OF env box F(1) this, of 0 report_zero "[]"] show ?thesis
    using assms(2,3) by (auto simp: Dispatch_def report_zero_def publisher_box_def)
qed

definition free_records :: "'p Publisher \<Rightarrow> Record list" where
  "free_records p = filter (\<lambda>r. \<not> blocked p (queue (pb_outbox p)) r) (queue (pb_outbox p))"

lemma drain_step:
  assumes box: "publisher_box p" and st: "queue st = filter (\<lambda>x. r_event x \<notin> r_event ` set (dispatch_select limit p)) (queue (pb_outbox p))"
  shows "filter (blocked (p\<lparr>pb_outbox := st\<rparr>) (queue st)) (queue st) = filter (blocked p (queue (pb_outbox p))) (queue (pb_outbox p))"
    and "free_records (p\<lparr>pb_outbox := st\<rparr>) = filter (\<lambda>r. r \<notin> set (dispatch_select limit p)) (free_records p)"
proof -
  let ?q = "queue (pb_outbox p)" and ?sel = "set (dispatch_select limit p)"
  note F = selected_facts(2) [OF box, where limit = limit]
  have index: "index_inv (pb_outbox p)" using box by (simp add: publisher_box_def outbox_inv_def store_inv_def)
  have "r_event x \<in> r_event ` ?sel \<longleftrightarrow> x \<in> ?sel" if "x \<in> set ?q" for x
  proof -
    have "y = x" if "y \<in> ?sel" "r_event y = r_event x" for y using queue_filter_one [OF index \<open>x \<in> set ?q\<close>] F that by blast
    then show ?thesis by (auto simp: image_iff)
  qed
  then have q: "queue st = filter (\<lambda>x. x \<notin> ?sel) ?q" unfolding st by (intro filter_cong) simp_all
  have same: "blocked (p\<lparr>pb_outbox := st\<rparr>) (queue st) r = blocked p ?q r" for r
    using F unfolding blocked_def sendable_frame q set_filter by blast
  show "filter (blocked (p\<lparr>pb_outbox := st\<rparr>) (queue st)) (queue st) = filter (blocked p ?q) ?q"
    unfolding same [abs_def] unfolding q filter_filter using F by (intro filter_cong) auto
  show "free_records (p\<lparr>pb_outbox := st\<rparr>) = filter (\<lambda>r. r \<notin> ?sel) (free_records p)"
    by (simp add: free_records_def same) (simp add: q conj_commute)
qed

lemma drain_shrinks:
  assumes box: "publisher_box p" and limit: "0 < limit" and q: "queue st = filter (\<lambda>x. r_event x \<notin> r_event ` set (dispatch_select limit p)) (queue (pb_outbox p))"
  shows "length (free_records (p\<lparr>pb_outbox := st\<rparr>)) \<le> length (free_records p) - 1"
proof (cases "dispatch_select limit p")
  case Nil
  then have "free_records p = []" using nothing_selected [OF box limit] by (auto simp: free_records_def filter_empty_conv)
  then show ?thesis unfolding drain_step(2) [OF box q] by simp
next
  case (Cons r rs)
  then have "r \<in> set (free_records p)" using selected_facts(2) [OF box, of r limit] by (simp add: free_records_def)
  then have "length (filter (\<lambda>r. r \<notin> set (dispatch_select limit p)) (free_records p)) < length (free_records p)"
    using Cons by (intro length_filter_less [of r]) simp_all
  then show ?thesis unfolding drain_step(2) [OF box q] by simp
qed

lemma dispatch_passes_drain:
  assumes "publisher_box p" and "0 < limit" and "\<forall>env\<in>set envs. acknowledging env" and "length (free_records p) \<le> length envs"
  shows "\<exists>st. dispatch_passes envs limit p = p\<lparr>pb_outbox := st\<rparr> \<and> publisher_box (p\<lparr>pb_outbox := st\<rparr>) \<and>
    queue st = filter (blocked p (queue (pb_outbox p))) (queue (pb_outbox p))"
  using assms
proof (induction envs arbitrary: p)
  case Nil
  then have "filter (blocked p (queue (pb_outbox p))) (queue (pb_outbox p)) = queue (pb_outbox p)"
    by (simp add: free_records_def filter_empty_conv filter_id_conv)
  moreover have "p\<lparr>pb_outbox := pb_outbox p\<rparr> = p" by simp
  ultimately show ?case using Nil by (intro exI [of _ "pb_outbox p"]) simp
next
  case (Cons env envs)
  have env: "acknowledging env" using Cons.prems(3) by simp
  obtain st where st: "snd (Dispatch env limit p) = p\<lparr>pb_outbox := st\<rparr>" "publisher_box (p\<lparr>pb_outbox := st\<rparr>)"
    "queue st = filter (\<lambda>x. r_event x \<notin> r_event ` set (dispatch_select limit p)) (queue (pb_outbox p))"
    using Dispatch_acknowledged [OF env Cons.prems(1,2)] snd_conv by metis
  let ?p = "p\<lparr>pb_outbox := st\<rparr>"
  have "length (free_records ?p) \<le> length envs" using drain_shrinks [OF Cons.prems(1,2) st(3)] Cons.prems(4) by simp
  then obtain st2 where s2: "dispatch_passes envs limit ?p = ?p\<lparr>pb_outbox := st2\<rparr>" "publisher_box (?p\<lparr>pb_outbox := st2\<rparr>)"
    "queue st2 = filter (blocked ?p (queue (pb_outbox ?p))) (queue (pb_outbox ?p))"
    using Cons.IH [OF st(2) Cons.prems(2)] Cons.prems(3) by (meson list.set_intros(2))
  have "dispatch_passes (env # envs) limit p = p\<lparr>pb_outbox := st2\<rparr>" using s2(1) st(1) by simp
  moreover have "publisher_box (p\<lparr>pb_outbox := st2\<rparr>)" using s2(2) by simp
  moreover have "queue st2 = filter (blocked p (queue (pb_outbox p))) (queue (pb_outbox p))"
    using s2(3) drain_step(1) [OF Cons.prems(1) st(3)] by simp
  ultimately show ?case by blast
qed

end
