(* ===== verification/Publisher_Demo.thy ===== *)
theory Publisher_Demo
  imports Publisher_Drain
begin

text \<open>
  The run that the witnesses of the publisher's properties use: a new publisher installs an active snapshot and
  accepts one message; the same broker then becomes the member of a second epoch.
\<close>

section \<open>A library, a snapshot and a message\<close>

definition demo_digest :: business_hash where
  "demo_digest = replicate 32 (CHR ''a'')"

definition demo_hash :: string where
  "demo_hash = hex_encode demo_digest"

definition demo_library :: "string CustomerLibrary" where
  "demo_library = \<lparr>cu_group = (\<lambda>m. Inr ''events-a''), cu_hash = (\<lambda>m. Inr demo_digest), cu_policy = Some sample_policy\<rparr>"

definition demo_contract :: Contract where
  "demo_contract = \<lparr>ct_hash = ''entity-affinity-v1'', ct_library = ''v1''\<rparr>"

definition demo_config :: "string Config" where
  "demo_config = \<lparr>cf_outbox = Some demo_new, cf_customer = Some demo_library, cf_broker = True, cf_contracts = [(''events-a'', demo_contract)],
     cf_group = [], cf_hash = [], cf_library = [], cf_encode = None\<rparr>"

definition demo_publisher :: "string Publisher" where
  "demo_publisher = \<lparr>pb_outbox = demo_new, pb_customer = demo_library, pb_contracts = [(''events-a'', demo_contract)], pb_encode = Some,
     pb_membership = [], pb_cache = [], pb_order = [], pb_limit = 4096\<rparr>"

definition demo_snapshot :: MembershipSnapshot where
  "demo_snapshot = sample_active\<lparr>ms_algorithm := ''rev''\<rparr>"

definition demo_next :: MembershipSnapshot where
  "demo_next = demo_snapshot\<lparr>ms_revision := 8, ms_epoch := 2, ms_current_resources := [sample_resource 2 ''broker-a'' ''q-a-2'']\<rparr>"

definition demo_message :: "string MessageView" where
  "demo_message = \<lparr>mv_topic = ''t'', mv_headers = [], mv_payload = ''x'', mv_event_id = ''a''\<rparr>"

definition demo_routed :: Record where
  "demo_routed = zero_record\<lparr>r_event := ''a'', r_payload := ''x'', r_topic := ''t'', r_key := ''events-a'' @ [CHR 0x00] @ demo_hash,
     r_group := ''events-a'', r_hash := demo_hash, r_contract := ''entity-affinity-v1'', r_library := ''v1'', r_algorithm := ''rev'',
     r_state := StateReady, r_epoch := 1, r_broker := ''broker-a'', r_endpoint := ''amqps://a.example:5671'', r_destination := ''ingressevents''\<rparr>"

definition offered_demo :: "MembershipSnapshot set" where
  "offered_demo = {demo_snapshot, demo_next}"

lemma one_per_revision_demo: "one_per_revision offered_demo"
  by (auto simp: one_per_revision_def offered_demo_def demo_next_def demo_snapshot_def sample_active_def)

lemma demo_valid: "Validate demo_snapshot = None" "Validate demo_next = None"
proof -
  have rev: "identifier_ok ''rev''" by (simp add: plain_identifier_ok plain_char_def)
  show "Validate demo_snapshot = None" "Validate demo_next = None"
    by (simp_all add: Validate_def demo_next_def demo_snapshot_def sample_active_def rev SnapshotVersion_def membership_ok_def
        maxMembershipSize_def descriptors_ok_def sample_endpoint_ok resources_ok_def validateResources_def broker_coverage_def
        broker_sets_def consumer_sets_def sample_resource_def validate_phase_shape_def validateBrokerDescriptors_None)
qed

lemma demo_parse: "ParseBusinessHash demo_hash = Inr demo_digest"
  by (simp add: ParseBusinessHash_def demo_hash_def demo_digest_def DigestBytes_def del: replicate.simps hex_encode.simps)

lemma demo_assignment:
  "assignmentFor demo_library demo_hash demo_snapshot =
     Inr \<lparr>as_epoch = 1, as_broker = ''broker-a'', as_endpoint = ''amqps://a.example:5671'', as_destination = ''ingressevents''\<rparr>"
  "assignmentFor demo_library demo_hash demo_next =
     Inr \<lparr>as_epoch = 2, as_broker = ''broker-a'', as_endpoint = ''amqps://a.example:5671'', as_destination = ''ingressevents''\<rparr>"
  by (simp_all add: assignmentFor_def demo_parse)
    (simp_all add: demo_library_def RoutingPolicy_def sample_policy_def RendezvousBroker_def score_input_def demo_next_def demo_snapshot_def
      sample_active_def route_destination_def sample_resource_def trim_suffix_def BrokerEndpoint_def)

section \<open>The run\<close>

lemma demo_constructed: "NewPublisher Some demo_config = Inr demo_publisher"
  by (simp add: NewPublisher_def demo_config_def config_contracts_def shorthandConfigured_def demo_library_def RoutingPolicy_def sample_policy_def
      Records_def demo_new_eq live_def map_filter_simps check_contract_def demo_contract_def demo_publisher_def mput_def)

definition demo_active :: "string Publisher" where
  "demo_active = install demo_snapshot demo_publisher"

lemma demo_apply: "ApplyMembership 0 True demo_snapshot demo_publisher = (None, demo_active)"
proof -
  have "check_snapshot demo_snapshot demo_publisher = Inr demo_contract"
    by (simp add: check_snapshot_def demo_publisher_def demo_library_def RoutingPolicy_def sample_policy_def demo_snapshot_def sample_active_def demo_contract_def)
  moreover have "ms_phase demo_snapshot = CtlActive" by (simp add: demo_snapshot_def sample_active_def)
  moreover have "Records (pb_outbox demo_publisher) = []" "pb_membership demo_publisher = []"
    by (simp_all add: demo_publisher_def Records_def demo_new_eq live_def map_filter_simps)
  ultimately show ?thesis
    using demo_valid(1) by (simp add: ApplyMembership_def activate_def demo_active_def)
qed

lemma demo_active_reachable: "publisher_reachable offered_demo demo_active"
  by (rule moved [OF constructed [OF demo_constructed] apply_step [OF _ demo_apply]]) (simp add: offered_demo_def)

lemma demo_active_fields: "pb_outbox demo_active = demo_new" "pb_customer demo_active = demo_library" "pb_encode demo_active = Some"
  "pb_membership demo_active = [(''events-a'', demo_snapshot)]" "pb_contracts demo_active = [(''events-a'', demo_contract)]"
  by (simp_all add: demo_active_def install_def demo_publisher_def mput_def) (simp add: demo_snapshot_def sample_active_def)

lemma demo_library_fields: "cu_group demo_library m = Inr ''events-a''" "cu_hash demo_library m = Inr demo_digest"
  by (simp_all add: demo_library_def)

lemma demo_direct: "direct_record demo_active demo_message = Inr demo_routed"
proof -
  have s: "routable demo_snapshot" "ms_hash demo_snapshot = ''entity-affinity-v1''" "ms_library demo_snapshot = ''v1''" "ms_algorithm demo_snapshot = ''rev''"
    by (simp_all add: routable_def demo_snapshot_def sample_active_def)
  have "message_parts demo_active demo_message =
      Inr (demo_snapshot, demo_hash, unrouted_record demo_message ''events-a'' demo_hash ''x'' demo_contract demo_snapshot)"
    by (simp add: message_parts_def demo_active_fields demo_library_fields demo_message_def s demo_hash_def demo_contract_def)
  then show ?thesis
    by (simp add: direct_record_def s(1) demo_active_fields demo_assignment(1))
      (simp add: route_record_def unrouted_record_def demo_routed_def demo_message_def demo_contract_def s(4) zero_record_def)
qed


section \<open>The accepted message\<close>

lemma demo_hash_text: "utf8_valid demo_hash" "utf8_valid (''events-a'' @ [CHR 0x00] @ demo_hash)"
  by code_simp+

lemma demo_hash_nonempty: "demo_hash \<noteq> []"
  by code_simp

lemma demo_routed_size: "acceptedSize demo_routed < 1000"
  by code_simp

lemma demo_routed_text: "text_content demo_routed"
proof -
  have "list_all utf8_valid [''events-a'', ''entity-affinity-v1'', ''v1'', ''rev'', ''broker-a'', ''amqps://a.example:5671'', ''ingressevents'']"
    by code_simp
  then show ?thesis using demo_texts demo_hash_text by (simp add: text_content_def text_ok_def demo_routed_def zero_record_def)
qed

definition demo_outbox :: Store where
  "demo_outbox = snd (acceptMany 1 True [demo_routed] demo_new)"

definition demo_stored :: Record where
  "demo_stored = accepted_record 1 1 demo_routed"

lemma demo_new_reachable: "outbox_reachable demo_limits demo_new"
  by (rule created [of _ 0 None]) (simp_all add: int64_limits_def demo_limits_def max_int64_def load_def demo_new_def)

lemma demo_fresh: "\<forall>r\<in>set [demo_routed]. fresh_event demo_new (r_event r) \<and> text_content r"
  using demo_routed_text by (simp add: demo_routed_def fresh_event_def demo_new_eq)

lemma demo_outbox_facts: "acceptMany 1 True [demo_routed] demo_new = (Inr [demo_stored], demo_outbox)"
  "queue demo_outbox = [demo_stored]" "st_open demo_outbox" "outbox_reachable demo_limits demo_outbox"
proof -
  have "validateNewRecord demo_routed = None"
    by (simp add: validateNewRecord_def missing_identity_def demo_routed_def zero_record_def demo_hash_nonempty)
  moreover have "1 \<le> unat (max_u64 - 1)" by (simp add: max_u64_def)
  ultimately have "acceptable demo_new [demo_routed]"
    using demo_routed_size by (simp add: acceptable_def demo_new_eq demo_limits_def)
  then obtain rs s' where run: "acceptMany 1 True [demo_routed] demo_new = (Inr rs, s')"
    using acceptMany_Inr_iff [of "[demo_routed]" 1 demo_new True] demo_routed_text by (auto simp: demo_new_eq)
  have n: "queue demo_new = []" "st_next demo_new = 1" "st_open demo_new" by (simp_all add: demo_new_eq queue_def live_def map_filter_simps)
  have "store_inv demo_new" using outbox_reachable_inv [OF demo_new_reachable] by (simp add: outbox_inv_def)
  from acceptMany_spec(2) [OF this demo_fresh run] n
  show r: "acceptMany 1 True [demo_routed] demo_new = (Inr [demo_stored], demo_outbox)" and "queue demo_outbox = [demo_stored]"
    using run by (simp_all add: demo_outbox_def demo_stored_def)
  show "st_open demo_outbox" using open_accept [of 1 True "[demo_routed]" demo_new] n by (simp add: demo_outbox_def)
  show "outbox_reachable demo_limits demo_outbox" by (rule stepped [OF demo_new_reachable accept_step [OF demo_fresh r]])
qed

definition demo_buffered :: "string Publisher" where
  "demo_buffered = snd (publisher_AcceptBatch 1 True [demo_message] demo_active)"

lemma demo_buffered_fields: "pb_outbox demo_buffered = demo_outbox" "pb_customer demo_buffered = demo_library"
  "pb_membership demo_buffered = [(''events-a'', demo_snapshot)]" "pb_contracts demo_buffered = [(''events-a'', demo_contract)]"
  "fst (publisher_AcceptBatch 1 True [demo_message] demo_active) = Inr [receiptFor demo_stored]"
proof -
  obtain res p1 where r: "records_for 0 [demo_message] demo_active = (res, p1)" by (cases "records_for 0 [demo_message] demo_active") auto
  have inv: "publisher_inv offered_demo demo_active" by (rule publisher_reachable_inv [OF demo_active_reachable one_per_revision_demo])
  have R: "res = Inr [demo_routed]" "same_but_cache demo_active p1"
    using records_for_spec [OF inv one_per_revision_demo r] demo_direct by simp_all
  note S = same_but_cacheD [OF R(2)]
  have run: "publisher_AcceptBatch 1 True [demo_message] demo_active = (Inr [receiptFor demo_stored], p1\<lparr>pb_outbox := demo_outbox\<rparr>)"
    using r R(1) S(1) demo_outbox_facts(1) by (simp add: publisher_AcceptBatch_def demo_active_fields AcceptBatch_def)
  show "pb_outbox demo_buffered = demo_outbox" "pb_customer demo_buffered = demo_library"
    "pb_membership demo_buffered = [(''events-a'', demo_snapshot)]" "pb_contracts demo_buffered = [(''events-a'', demo_contract)]"
    "fst (publisher_AcceptBatch 1 True [demo_message] demo_active) = Inr [receiptFor demo_stored]"
    using S by (simp_all add: demo_buffered_def run demo_active_fields)
qed

lemma demo_buffered_reachable: "publisher_reachable offered_demo demo_buffered"
  unfolding demo_buffered_def by (rule moved [OF demo_active_reachable batch_step [OF prod.collapse [symmetric]]])

end
