(* ===== verification/Publisher_Properties.thy ===== *)
theory Publisher_Properties
  imports Publisher_Demo
begin

text \<open>
  The properties of the publisher shim: what an accepted batch puts into the outbox, what an activation does to the
  buffered records, and what passes of the dispatcher leave.
\<close>

section \<open>Acceptance\<close>

text \<open>
  C38. Acceptance: in every publisher a run can reach, with one snapshot per revision of a group and calls that do not overlap, a batch whose event ids
  the outbox does not remember and whose records have UTF-8 texts is refused with
  the outbox unchanged, or every message has become a record at the end of the outbox, in the order of the batch. The
  record is ready with the epoch, broker, endpoint and destination that the router computes from the installed snapshot
  of its group when that snapshot is active or preparing, and unassigned otherwise; the placement cache, which
  holds at most 4096 entries, never changes this route.
\<close>

theorem accepted_batch_is_placed:
  assumes "publisher_reachable offered p" and "one_per_revision offered" and "outbox_reachable lim (pb_outbox p)" and "st_open (pb_outbox p)"
    and "\<forall>m\<in>set ms. fresh_event (pb_outbox p) (mv_event_id m)" and "\<forall>m\<in>set ms. \<forall>r. direct_record p m = Inr r \<longrightarrow> text_content r"
    and "publisher_AcceptBatch now commit ms p = (res, p')"
  shows "(case res of
      Inl e \<Rightarrow> pb_outbox p' = pb_outbox p
    | Inr receipts \<Rightarrow> \<exists>rs. receipts = map receiptFor rs \<and> map r_event rs = map mv_event_id ms \<and> (\<forall>r\<in>set rs. placed p r) \<and>
        Records (pb_outbox p') = Records (pb_outbox p) @ rs) \<and>
    pb_membership p' = pb_membership p \<and> length (pb_cache p') \<le> 4096"
proof -
  have inv: "publisher_inv offered p" by (rule publisher_reachable_inv [OF assms(1,2)])
  have inv': "publisher_inv offered p'" by (rule publisher_step_inv [OF batch_step [OF assms(7)] inv assms(2)])
  have "length (pb_cache p') = length (pb_order p')"
    using publisher_invD(2) [OF inv'] by (metis cache_shape_def distinct_card length_map wf_map_def)
  then have bound: "length (pb_cache p') \<le> 4096" using publisher_invD(2) [OF inv'] by (simp add: cache_shape_def)
  have store: "store_inv (pb_outbox p)" using outbox_reachable_inv [OF assms(3)] by (simp add: outbox_inv_def)
  obtain out p1 where r: "records_for 0 ms p = (out, p1)" by (cases "records_for 0 ms p") auto
  have R: "out = direct_records 0 p ms" "same_but_cache p p1" using records_for_spec [OF inv assms(2) r] by blast+
  note S = same_but_cacheD [OF R(2)]
  show ?thesis
  proof (cases "ms = []")
    case True
    then have "res = Inr []" "p' = p" using assms(7) by (simp_all add: publisher_AcceptBatch_def)
    then show ?thesis using bound True by simp
  next
    case ne: False
    show ?thesis
    proof (cases out)
      case (Inl e)
      then have "res = Inl e" "p' = p1" using assms(7) ne r by (simp_all add: publisher_AcceptBatch_def)
      then show ?thesis using S bound by simp
    next
      case (Inr rs)
      obtain x st where a: "acceptMany now commit rs (pb_outbox p) = (x, st)" by (cases "acceptMany now commit rs (pb_outbox p)") auto
      have p': "p' = p1\<lparr>pb_outbox := st\<rparr>" "res = (case x of Inl e \<Rightarrow> Inl (OutboxFailed e) | Inr rs \<Rightarrow> Inr (map receiptFor rs))"
        using assms(7) ne r Inr a S(1) by (auto simp: publisher_AcceptBatch_def AcceptBatch_def split: sum.splits)
      have D: "map r_event rs = map mv_event_id ms" "\<forall>r\<in>set rs. \<exists>m\<in>set ms. direct_record p m = Inr r"
        "\<forall>r\<in>set (accepted_records now (st_next (pb_outbox p)) rs). placed p r"
        using direct_records_placed R(1) Inr by blast+
      have "fresh_event (pb_outbox p) (r_event r) \<and> text_content r" if "r \<in> set rs" for r
        using D(2) that assms(5,6) direct_record_placed(2) by metis
      then have A: "case x of Inl e \<Rightarrow> st = pb_outbox p
          | Inr ys \<Rightarrow> ys = accepted_records now (st_next (pb_outbox p)) rs \<and> queue st = queue (pb_outbox p) @ ys"
        using acceptMany_spec(2) [OF store _ a] by blast
      have o: "st_open st" using open_accept [of now commit rs "pb_outbox p"] a assms(4) by simp
      show ?thesis
        using A D accepted_events [of now "st_next (pb_outbox p)" rs] bound S(5)
        by (cases x) (simp_all add: p' Records_queue o assms(4))
    qed
  qed
qed

theorem accepted_batch_is_placed_witness:
  "placed demo_active demo_stored \<and> rp_broker (receiptFor demo_stored) = ''broker-a'' \<and>
   Records (pb_outbox demo_buffered) = Records (pb_outbox demo_active) @ [demo_stored]"
proof -
  have o: "outbox_reachable demo_limits (pb_outbox demo_active)" "st_open (pb_outbox demo_active)"
    using demo_new_reachable by (simp_all add: demo_active_fields demo_new_eq)
  have f: "\<forall>m\<in>set [demo_message]. fresh_event (pb_outbox demo_active) (mv_event_id m)"
    using demo_fresh by (simp add: demo_active_fields demo_routed_def demo_message_def)
  have t: "\<forall>m\<in>set [demo_message]. \<forall>r. direct_record demo_active m = Inr r \<longrightarrow> text_content r"
    using demo_direct demo_routed_text by simp
  have run: "publisher_AcceptBatch 1 True [demo_message] demo_active = (Inr [receiptFor demo_stored], demo_buffered)"
    using demo_buffered_fields(5) by (simp add: demo_buffered_def prod_eq_iff)
  have box: "Records (pb_outbox demo_buffered) = [demo_stored]" "Records (pb_outbox demo_active) = []"
    using demo_outbox_facts(2,3) by (simp_all add: demo_buffered_fields demo_active_fields Records_queue) (simp add: Records_def demo_new_eq live_def map_filter_simps)
  obtain rs where rs: "\<forall>r\<in>set rs. placed demo_active r" "Records (pb_outbox demo_buffered) = Records (pb_outbox demo_active) @ rs"
    using accepted_batch_is_placed [OF demo_active_reachable one_per_revision_demo o f t run] by auto
  have "rp_broker (receiptFor demo_stored) = ''broker-a''"
    by (simp add: receiptFor_def demo_stored_def accepted_record_def demo_routed_def Let_def)
  moreover have "rs = [demo_stored]" using rs(2) box by simp
  ultimately show ?thesis using rs by simp
qed


section \<open>Activation\<close>

text \<open>
  C39. Activation: when the snapshots offered have one value per revision of a group and the outbox was used under its producer rules, an active snapshot with a newer revision is installed only after every buffered record of its group, ready
  or unassigned, has a durable route computed from that snapshot, in its place in the outbox and with its content unchanged,
  while all other records stay as they were. When any record cannot be routed or the transaction fails, the outbox and the
  installed memberships are unchanged.
\<close>

theorem activation_routes_buffered:
  assumes "publisher_reachable offered p" and "one_per_revision offered" and "s \<in> offered"
    and "outbox_reachable lim (pb_outbox p)" and "st_open (pb_outbox p)" and "ms_phase s = CtlActive"
    and "\<forall>t. mget (pb_membership p) (ms_group s) = Some t \<longrightarrow> ms_revision t < ms_revision s"
    and "\<forall>h a. assignmentFor (pb_customer p) h s = Inr a \<longrightarrow> text_assignment a"
    and "ApplyMembership now commit s p = (err, p')"
  shows "if err = None
    then mget (pb_membership p') (ms_group s) = Some s \<and>
      (\<forall>g. g \<noteq> ms_group s \<longrightarrow> mget (pb_membership p') g = mget (pb_membership p) g) \<and>
      list_all2 (\<lambda>r r'. if retryable s r then same_content r r' \<and> placed p' r' else r' = r) (Records (pb_outbox p)) (Records (pb_outbox p'))
    else pb_membership p' = pb_membership p \<and> pb_outbox p' = pb_outbox p"
proof (cases err)
  case None
  have inv: "publisher_inv offered p" by (rule publisher_reachable_inv [OF assms(1,2)])
  have box: "outbox_inv (pb_outbox p)" using outbox_reachable_inv [OF assms(4)] by simp
  obtain k where act: "activate now commit k s p = (None, p')"
    using ApplyMembership_activates [OF assms(6,7)] assms(9) None by blast
  let ?q = "queue (pb_outbox p)" and ?f = "\<lambda>r. projr (assignmentFor (pb_customer p) (r_hash r) s)"
  have A: "queue (pb_outbox p') = map (\<lambda>r. if retryable s r then rerouted now (?f r) r else r) ?q"
    "\<forall>r\<in>set ?q. retryable s r \<longrightarrow> (\<exists>a r1. assignmentFor (pb_customer p) (r_hash r) s = Inr a \<and> assign_record a r = Inr r1)"
    "pb_membership p' = mput (ms_group s) s (pb_membership p)" "pb_customer p' = pb_customer p" "st_open (pb_outbox p')"
    using activate_routes [OF inv assms(2,3) box assms(5,8) act] by blast+
  have m: "mget (pb_membership p') (ms_group s) = Some s" "routable s" using A(3) assms(6) by (simp_all add: routable_def)
  have "same_content r (rerouted now (?f r) r) \<and> placed p' (rerouted now (?f r) r)" if r: "r \<in> set ?q" "retryable s r" for r
  proof -
    obtain a r1 where a: "assignmentFor (pb_customer p) (r_hash r) s = Inr a" "assign_record a r = Inr r1" using A(2) r by blast
    note N = assign_record_Inr [OF a(2), of now]
    have "r_group (rerouted now a r) = ms_group s" "r_hash (rerouted now a r) = r_hash r"
      using N(3) r(2) by (simp_all add: same_content_def retryable_def)
    then show ?thesis using N a(1) m A(4) by (simp add: placed_def)
  qed
  then have "list_all2 (\<lambda>r r'. if retryable s r then same_content r r' \<and> placed p' r' else r' = r) ?q (queue (pb_outbox p'))"
    unfolding A(1) list.rel_map by (intro list.rel_refl_strong) simp
  then show ?thesis using None A(3) assms(5) A(5) by (simp add: Records_queue)
next
  case (Some e)
  have inv: "publisher_inv offered p" by (rule publisher_reachable_inv [OF assms(1,2)])
  then show ?thesis using ApplyMembership_failure [OF inv assms(2,3)] assms(9) Some by simp
qed

lemma demo_activation: "\<exists>p'. ApplyMembership 2 True demo_next demo_buffered = (None, p')"
proof -
  let ?a = "\<lparr>as_epoch = 2, as_broker = ''broker-a'', as_endpoint = ''amqps://a.example:5671'', as_destination = ''ingressevents''\<rparr>"
  let ?u = "\<lparr>au_event = ''a'', au_assignment = ?a\<rparr>"
  have s: "ms_algorithm demo_next = ''rev''" "ms_group demo_next = ''events-a''" "ms_hash demo_next = ''entity-affinity-v1''"
    "ms_library demo_next = ''v1''" "ms_phase demo_next = CtlActive" "ms_revision demo_next = 8" "ms_revision demo_snapshot = 7"
    by (simp_all add: demo_next_def demo_snapshot_def sample_active_def)
  have policy: "RoutingPolicy (cu_policy demo_library) = Inr sample_policy" "RoutingAlgorithm sample_policy = ''rev''"
    by (simp_all add: demo_library_def RoutingPolicy_def sample_policy_def)
  have check: "check_snapshot demo_next demo_buffered = Inr demo_contract"
    by (simp add: check_snapshot_def demo_buffered_fields policy s) (simp add: demo_contract_def)
  have rec: "r_event demo_stored = ''a''" "r_group demo_stored = ''events-a''" "r_hash demo_stored = demo_hash" "r_state demo_stored = StateReady"
    "r_contract demo_stored = ''entity-affinity-v1''" "r_library demo_stored = ''v1''" "r_algorithm demo_stored = ''rev''" "r_epoch demo_stored = 1"
    by (simp_all add: demo_stored_def accepted_record_def demo_routed_def Let_def)
  have records: "Records (pb_outbox demo_buffered) = [demo_stored]" using demo_outbox_facts by (simp add: demo_buffered_fields Records_queue)
  have inv: "publisher_inv offered_demo demo_buffered" by (rule publisher_reachable_inv [OF demo_buffered_reachable one_per_revision_demo])
  obtain out p1 where look: "cached_assignmentFor demo_hash demo_next demo_buffered = (out, p1)"
    by (cases "cached_assignmentFor demo_hash demo_next demo_buffered") auto
  have C: "out = Inr ?a" "same_but_cache demo_buffered p1"
    using cached_assignmentFor_spec [OF inv one_per_revision_demo _ look] demo_assignment(2)
    by (simp_all add: offered_demo_def demo_buffered_fields)
  have c: "collect_assignments demo_contract demo_next [demo_stored] demo_buffered = (([?u], []), p1)"
    using look C(1) by (simp add: retryable_def metadata_mismatch_def rec s) (simp add: demo_contract_def)
  have box: "outbox_inv demo_outbox" using outbox_reachable_inv [OF demo_outbox_facts(4)] by simp
  note R = inv_record [OF box, of demo_stored, unfolded demo_outbox_facts(2), simplified]
  have "assign_record ?a demo_stored = Inr (demo_stored\<lparr>r_epoch := 2, r_broker := ''broker-a'', r_endpoint := ''amqps://a.example:5671'',
      r_destination := ''ingressevents'', r_state := StateReady, r_error := []\<rparr>)"
    by (simp add: assign_record_def incomplete_def rec)
  then have "fst (AssignBatch 2 True [?u] demo_outbox) = None"
    unfolding AssignBatch_def assignMany_def Let_def using R(1,3) demo_outbox_facts(3)
    by (intro updateMany_None) (simp_all add: rec marshal_def)
  then obtain st where "AssignBatch 2 True [?u] (pb_outbox p1) = (None, st)"
    using same_but_cacheD(1) [OF C(2)] by (metis demo_buffered_fields(1) prod.collapse)
  then have "\<exists>p'. activate 2 True demo_contract demo_next demo_buffered = (None, p')" using c by (simp add: activate_def records)
  then show ?thesis using demo_valid(2) check by (simp add: ApplyMembership_def demo_buffered_fields s)
qed

theorem activation_routes_buffered_witness:
  "\<exists>p' r. ApplyMembership 2 True demo_next demo_buffered = (None, p') \<and> mget (pb_membership p') ''events-a'' = Some demo_next \<and>
     Records (pb_outbox p') = [r] \<and> r_event r = ''a'' \<and> r_epoch demo_stored = 1 \<and> r_epoch r = 2"
proof -
  obtain p' where run: "ApplyMembership 2 True demo_next demo_buffered = (None, p')" using demo_activation by blast
  have s: "ms_group demo_next = ''events-a''" "ms_phase demo_next = CtlActive" "ms_revision demo_next = 8" "ms_revision demo_snapshot = 7" "ms_epoch demo_next = 2"
    by (simp_all add: demo_next_def demo_snapshot_def sample_active_def)
  have rec: "r_event demo_stored = ''a''" "r_group demo_stored = ''events-a''" "r_state demo_stored = StateReady" "r_epoch demo_stored = 1"
    by (simp_all add: demo_stored_def accepted_record_def demo_routed_def Let_def)
  have o: "demo_next \<in> offered_demo" "outbox_reachable demo_limits (pb_outbox demo_buffered)" "st_open (pb_outbox demo_buffered)"
    using demo_outbox_facts by (simp_all add: offered_demo_def demo_buffered_fields)
  have new: "\<forall>t. mget (pb_membership demo_buffered) (ms_group demo_next) = Some t \<longrightarrow> ms_revision t < ms_revision demo_next"
    by (simp add: demo_buffered_fields s)
  have texts: "\<forall>h a. assignmentFor (pb_customer demo_buffered) h demo_next = Inr a \<longrightarrow> text_assignment a"
  proof (intro allI impI)
    fix h a assume "assignmentFor (pb_customer demo_buffered) h demo_next = Inr a"
    then have "as_broker a = ''broker-a''" "as_endpoint a = ''amqps://a.example:5671''" "as_destination a = ''ingressevents''"
      by (auto simp: assignmentFor_def demo_buffered_fields demo_library_def RoutingPolicy_def sample_policy_def RendezvousBroker_def score_input_def
          demo_next_def demo_snapshot_def sample_active_def route_destination_def sample_resource_def trim_suffix_def BrokerEndpoint_def
          split: sum.splits)
    moreover have "list_all utf8_valid [''broker-a'', ''amqps://a.example:5671'', ''ingressevents'']" by code_simp
    ultimately show "text_assignment a" by (simp add: text_assignment_def)
  qed
  have A: "mget (pb_membership p') ''events-a'' = Some demo_next"
    "list_all2 (\<lambda>r r'. if retryable demo_next r then same_content r r' \<and> placed p' r' else r' = r) [demo_stored] (Records (pb_outbox p'))"
    using activation_routes_buffered [OF demo_buffered_reachable one_per_revision_demo o s(2) new texts run] demo_outbox_facts
    by (simp_all add: s demo_buffered_fields Records_queue)
  then obtain r where r: "Records (pb_outbox p') = [r]" "same_content demo_stored r" "placed p' r"
    by (auto simp: list_all2_Cons1 retryable_def s rec)
  have "routable demo_next" by (simp add: routable_def s)
  then have "assignmentFor (pb_customer p') (r_hash r) demo_next = Inr (route_of r)"
    using r(2,3) A(1) by (auto simp: placed_def same_content_def rec)
  then have "r_epoch r = 2" by (auto simp: assignmentFor_def route_of_def s split: sum.splits option.splits)
  then show ?thesis using run A(1) r(1,2) rec by (auto simp: same_content_def)
qed

section \<open>Dispatch\<close>

text \<open>
  C40. Dispatch terminates, with one snapshot per revision of a group and an outbox used under its producer rules: over a broker that acknowledges, with transactions that commit, as many passes as there are
  records, with any positive limit on the messages of a pass, empty the outbox of everything that may be sent. What is left,
  in its order and unchanged, are exactly the records that stand at or behind a record of their ordering key that is not
  ready or whose epoch is not the one its group publishes in; a further pass attempts nothing.
\<close>

theorem dispatch_drains:
  assumes "publisher_reachable offered p" and "one_per_revision offered" and "outbox_reachable lim (pb_outbox p)" and "st_open (pb_outbox p)"
    and "0 < limit" and "\<forall>env\<in>set envs. acknowledging env" and "length (Records (pb_outbox p)) \<le> length envs"
  shows "Records (pb_outbox (dispatch_passes envs limit p)) = filter (blocked p (Records (pb_outbox p))) (Records (pb_outbox p)) \<and>
    fst (Dispatch env limit (dispatch_passes envs limit p)) = (report_zero, [])"
proof -
  have "wf_map (pb_membership p)"
    using publisher_invD(3) [OF publisher_reachable_inv [OF assms(1,2)]] by (simp add: installed_def)
  then have box: "publisher_box p" using outbox_reachable_inv [OF assms(3)] assms(4) by (simp add: publisher_box_def)
  have R: "Records (pb_outbox p) = queue (pb_outbox p)" by (rule Records_queue [OF assms(4)])
  have "length (free_records p) \<le> length envs"
    using assms(7) length_filter_le [of _ "queue (pb_outbox p)"] unfolding free_records_def R by (rule order_trans [rotated])
  then obtain st where st: "dispatch_passes envs limit p = p\<lparr>pb_outbox := st\<rparr>" "publisher_box (p\<lparr>pb_outbox := st\<rparr>)"
    "queue st = filter (blocked p (queue (pb_outbox p))) (queue (pb_outbox p))"
    using dispatch_passes_drain [OF box assms(5,6)] by blast
  have "dispatch_select limit (p\<lparr>pb_outbox := st\<rparr>) = []"
  proof (rule ccontr)
    assume "dispatch_select limit (p\<lparr>pb_outbox := st\<rparr>) \<noteq> []"
    then obtain r where "r \<in> set (dispatch_select limit (p\<lparr>pb_outbox := st\<rparr>))" by (cases "dispatch_select limit (p\<lparr>pb_outbox := st\<rparr>)") auto
    then have r: "r \<in> set (queue st)" "sendable p r" "\<not> blocked (p\<lparr>pb_outbox := st\<rparr>) (queue st) r"
      using selected_facts(2) [OF st(2)] by auto
    then obtain x where x: "x \<in> set (queue (pb_outbox p))" "effectiveOrderingKey x = effectiveOrderingKey r" "r_sequence x \<le> r_sequence r" "\<not> sendable p x"
      using st(3) by (auto simp: blocked_def)
    then have "x \<in> set (queue st)" using st(3) by (auto simp: blocked_def)
    with x r(3) show False by (auto simp: blocked_def)
  qed
  then have "fst (Dispatch env limit (p\<lparr>pb_outbox := st\<rparr>)) = (report_zero, [])"
    using assms(5) by (simp add: Dispatch_def)
  moreover have "st_open st" using st(2) by (simp add: publisher_box_def)
  ultimately show ?thesis using st(1,3) R by (simp add: Records_queue)
qed

definition demo_answer :: dispatch_answer where
  "demo_answer = \<lparr>da_done = False, da_send_now = 2, da_send_commit = True, da_outcome = OutcomeAcknowledged, da_error = None,
     da_finish_now = 3, da_finish_commit = True\<rparr>"

theorem dispatch_drains_witness:
  "length (Records (pb_outbox demo_buffered)) = 1 \<and> Records (pb_outbox (dispatch_passes [\<lambda>i. demo_answer] 10 demo_buffered)) = []"
proof -
  have env: "acknowledging (\<lambda>i. demo_answer)" by (simp add: acknowledging_def demo_answer_def)
  have o: "outbox_reachable demo_limits (pb_outbox demo_buffered)" "st_open (pb_outbox demo_buffered)"
    using demo_outbox_facts by (simp_all add: demo_buffered_fields)
  have R: "Records (pb_outbox demo_buffered) = [demo_stored]" using demo_outbox_facts by (simp add: demo_buffered_fields Records_queue)
  have "r_group demo_stored = ''events-a''" "r_state demo_stored = StateReady" "r_epoch demo_stored = 1"
    by (simp_all add: demo_stored_def accepted_record_def demo_routed_def Let_def)
  moreover have "routable demo_snapshot" "ms_epoch demo_snapshot = 1" by (simp_all add: routable_def demo_snapshot_def sample_active_def)
  ultimately have "\<not> blocked demo_buffered [demo_stored] demo_stored"
    by (simp add: blocked_def sendable_def admitted_def demo_buffered_fields)
  then show ?thesis
    using dispatch_drains [OF demo_buffered_reachable one_per_revision_demo o, of 10 "[\<lambda>i. demo_answer]"] env by (simp add: R)
qed

end
