(* ===== verification/Subscriber_Lanes.thy ===== *)
theory Subscriber_Lanes
  imports Customer
begin

text \<open>
  The ordering lanes of the subscriber shim (\<^verbatim>\<open>shim/subscriber/subscriber.go\<close>): one lane per scaling group and
  business hash, a ticket lock with a channel per waiting ticket, and a failed delivery that blocks its lane. A
  region that the source runs under the lane's mutex is one function on the lane. A channel has a buffer of one and
  belongs to one ticket: it is the ticket, and \<open>la_tokens\<close> lists the channels that hold a value. Tickets are natural
  numbers: a lane is dropped when it is idle, and would have to stay busy for \<open>2^64\<close> deliveries to wrap around.
\<close>

section \<open>Lanes\<close>

type_synonym laneKey = "string \<times> business_hash"

record 'd blockedDelivery =
  bd_delivery :: 'd
  bd_succeeded :: bool

record 'd delivery_lane =
  la_waiters :: "nat list"
  la_tokens :: "nat list"
  la_next :: nat
  la_serving :: nat
  la_users :: nat
  la_blocked :: "'d blockedDelivery option"

type_synonym 'd lanes = "(laneKey, 'd delivery_lane) gomap"

definition fresh_lane :: "'d delivery_lane" where
  "fresh_lane = \<lparr>la_waiters = [], la_tokens = [], la_next = 0, la_serving = 0, la_users = 0, la_blocked = None\<rparr>"

definition take_ticket :: "'d delivery_lane \<Rightarrow> nat \<times> 'd delivery_lane" where
  "take_ticket l = (la_next l, l\<lparr>la_next := la_next l + 1, la_users := la_users l + 1, la_waiters := la_next l # la_waiters l\<rparr>)"

definition acquireLane :: "laneKey \<Rightarrow> 'd lanes \<Rightarrow> nat \<times> 'd lanes" where
  "acquireLane k lanes = (case take_ticket (mget_or lanes k fresh_lane) of (ticket, l) \<Rightarrow> (ticket, mput k l lanes))"

definition acquireExistingLane :: "laneKey \<Rightarrow> 'd lanes \<Rightarrow> 'd lanes option" where
  "acquireExistingLane k lanes =
     (case mget lanes k of None \<Rightarrow> None | Some l \<Rightarrow> Some (mput k (l\<lparr>la_users := la_users l + 1\<rparr>) lanes))"

definition releaseLane :: "laneKey \<Rightarrow> 'd delivery_lane \<Rightarrow> 'd lanes \<Rightarrow> 'd lanes" where
  "releaseLane k l lanes =
     (let l1 = l\<lparr>la_users := la_users l - 1\<rparr>
      in if la_users l1 = 0 \<and> la_blocked l1 = None then mdel k lanes else mput k l1 lanes)"

section \<open>Turns\<close>

text \<open>The loop of \<open>notifyServing\<close>: tickets without a waiter are skipped, and the first waiter is woken.\<close>

function notify_loop :: "'d delivery_lane \<Rightarrow> 'd delivery_lane" where
  "notify_loop l =
     (if la_serving l < la_next l then
        (if la_serving l \<in> set (la_waiters l)
         then l\<lparr>la_waiters := removeAll (la_serving l) (la_waiters l), la_tokens := la_serving l # la_tokens l\<rparr>
         else notify_loop (l\<lparr>la_serving := la_serving l + 1\<rparr>))
      else l)"
  by pat_completeness auto

termination by (relation "measure (\<lambda>l. la_next l - la_serving l)") auto

declare notify_loop.simps [simp del]

definition notifyServing :: "'d delivery_lane \<Rightarrow> 'd delivery_lane" where
  "notifyServing l = (if la_blocked l \<noteq> None then l else notify_loop l)"

definition leave_waiters :: "nat \<Rightarrow> 'd delivery_lane \<Rightarrow> 'd delivery_lane" where
  "leave_waiters t l = l\<lparr>la_waiters := removeAll t (la_waiters l)\<rparr>"

text \<open>One iteration of \<open>waitForTurn\<close>; the boolean of \<open>TurnWait\<close> tells whether the channel it waits for is not nil.\<close>

datatype turn_result = TurnCancelled | TurnGranted | TurnWait bool

definition check_turn :: "bool \<Rightarrow> nat \<Rightarrow> 'd delivery_lane \<Rightarrow> turn_result \<times> 'd delivery_lane" where
  "check_turn cancelled t l =
     (if cancelled then
        (TurnCancelled,
         let l1 = leave_waiters t l
         in if t = la_serving l1 \<and> la_blocked l1 = None then notifyServing (l1\<lparr>la_serving := la_serving l1 + 1\<rparr>) else l1)
      else if t = la_serving l \<and> la_blocked l = None then (TurnGranted, leave_waiters t l)
      else (TurnWait (t \<in> set (la_waiters l)), l))"

definition finishTurn :: "nat \<Rightarrow> 'd delivery_lane \<Rightarrow> 'd delivery_lane" where
  "finishTurn t l = notifyServing (if t = la_serving l then l\<lparr>la_serving := la_serving l + 1\<rparr> else l)"

section \<open>Blocked deliveries\<close>

datatype lane_error = ErrNoBlockedDelivery | RetryFailed | RetryAckFailed | NotRejectable | RejectFailed

definition block_lane :: "'d \<Rightarrow> bool \<Rightarrow> 'd delivery_lane \<Rightarrow> 'd delivery_lane" where
  "block_lane d succeeded l = l\<lparr>la_blocked := Some \<lparr>bd_delivery = d, bd_succeeded = succeeded\<rparr>\<rparr>"

text \<open>The locked regions of \<open>Retry\<close> and \<open>Release\<close>, over the answers of the application and of the delivery.\<close>

definition retry_region :: "bool \<Rightarrow> bool \<Rightarrow> 'd delivery_lane \<Rightarrow> lane_error option \<times> 'd delivery_lane" where
  "retry_region handled acked l =
     (case la_blocked l of
        None \<Rightarrow> (Some ErrNoBlockedDelivery, l)
      | Some b \<Rightarrow>
          if \<not> bd_succeeded b \<and> \<not> handled then (Some RetryFailed, l)
          else let l1 = l\<lparr>la_blocked := Some (b\<lparr>bd_succeeded := True\<rparr>)\<rparr> in
               if \<not> acked then (Some RetryAckFailed, l1) else (None, notifyServing (l1\<lparr>la_blocked := None\<rparr>)))"

definition release_region :: "('d \<Rightarrow> bool) \<Rightarrow> bool \<Rightarrow> 'd delivery_lane \<Rightarrow> lane_error option \<times> 'd delivery_lane" where
  "release_region rejectable rejected l =
     (case la_blocked l of
        None \<Rightarrow> (Some ErrNoBlockedDelivery, l)
      | Some b \<Rightarrow>
          if \<not> rejectable (bd_delivery b) then (Some NotRejectable, l)
          else if \<not> rejected then (Some RejectFailed, l)
          else (None, notifyServing (l\<lparr>la_blocked := None\<rparr>)))"

section \<open>Concurrent calls\<close>

text \<open>
  Where a call of \<open>Handle\<close>, \<open>Retry\<close> or \<open>Release\<close> stands between two locked regions: \<open>Queued\<close> before the test of
  \<open>waitForTurn\<close>, \<open>Waiting\<close> in its select, \<open>Serving\<close> in the application and the acknowledgement, \<open>Failing\<close> when the block is
  recorded and \<open>Served\<close> when the delivery is acknowledged, both before \<open>finishTurn\<close>, \<open>Leaving\<close> before \<open>releaseLane\<close>,
  and \<open>Resolving\<close> before the region of \<open>Retry\<close> or \<open>Release\<close>.
\<close>

datatype call_point = Queued | Waiting bool | Serving | Failing | Served | Leaving | Resolving | Gone

record call =
  cl_key :: laneKey
  cl_ticket :: nat
  cl_point :: call_point

definition moved_to :: "call_point \<Rightarrow> call \<Rightarrow> call" where
  "moved_to pt c = c\<lparr>cl_point := pt\<rparr>"

definition turn_point :: "turn_result \<Rightarrow> call_point" where
  "turn_point res = (case res of TurnCancelled \<Rightarrow> Leaving | TurnGranted \<Rightarrow> Serving | TurnWait chan \<Rightarrow> Waiting chan)"

text \<open>
  A call on a lane takes it out of the table by its key: the table holds it while it has users. With \<open>careful\<close>, \<open>Retry\<close> and
  \<open>Release\<close> do not fall between the recording of a block and the end of that turn.
\<close>

definition between_block_and_finish :: "laneKey \<Rightarrow> call list \<Rightarrow> bool" where
  "between_block_and_finish k cs \<longleftrightarrow> (\<exists>c\<in>set cs. cl_key c = k \<and> cl_point c = Failing)"

inductive lane_step :: "bool \<Rightarrow> 'd lanes \<times> call list \<Rightarrow> 'd lanes \<times> call list \<Rightarrow> bool" for careful where
  arrive_step: "acquireLane k ls = (t, ls') \<Longrightarrow> lane_step careful (ls, cs) (ls', cs @ [\<lparr>cl_key = k, cl_ticket = t, cl_point = Queued\<rparr>])"
| check_step: "\<lbrakk>i < length cs; cs ! i = c; cl_point c = Queued; mget ls (cl_key c) = Some l; check_turn cancelled (cl_ticket c) l = (res, l')\<rbrakk>
    \<Longrightarrow> lane_step careful (ls, cs) (mput (cl_key c) l' ls, cs[i := moved_to (turn_point res) c])"
| wake_step: "\<lbrakk>i < length cs; cs ! i = c; cl_point c = Waiting True; mget ls (cl_key c) = Some l; cl_ticket c \<in> set (la_tokens l)\<rbrakk>
    \<Longrightarrow> lane_step careful (ls, cs) (mput (cl_key c) (l\<lparr>la_tokens := removeAll (cl_ticket c) (la_tokens l)\<rparr>) ls, cs[i := moved_to Queued c])"
| cancel_step: "\<lbrakk>i < length cs; cs ! i = c; cl_point c = Waiting chan\<rbrakk> \<Longrightarrow> lane_step careful (ls, cs) (ls, cs[i := moved_to Queued c])"
| fail_step: "\<lbrakk>i < length cs; cs ! i = c; cl_point c = Serving; mget ls (cl_key c) = Some l\<rbrakk>
    \<Longrightarrow> lane_step careful (ls, cs) (mput (cl_key c) (block_lane d succeeded l) ls, cs[i := moved_to Failing c])"
| serve_step: "\<lbrakk>i < length cs; cs ! i = c; cl_point c = Serving\<rbrakk> \<Longrightarrow> lane_step careful (ls, cs) (ls, cs[i := moved_to Served c])"
| finish_step: "\<lbrakk>i < length cs; cs ! i = c; cl_point c = Failing \<or> cl_point c = Served; mget ls (cl_key c) = Some l\<rbrakk>
    \<Longrightarrow> lane_step careful (ls, cs) (mput (cl_key c) (finishTurn (cl_ticket c) l) ls, cs[i := moved_to Leaving c])"
| leave_step: "\<lbrakk>i < length cs; cs ! i = c; cl_point c = Leaving; mget ls (cl_key c) = Some l\<rbrakk>
    \<Longrightarrow> lane_step careful (ls, cs) (releaseLane (cl_key c) l ls, cs[i := moved_to Gone c])"
| resolver_step: "acquireExistingLane k ls = Some ls' \<Longrightarrow> lane_step careful (ls, cs) (ls', cs @ [\<lparr>cl_key = k, cl_ticket = 0, cl_point = Resolving\<rparr>])"
| resolve_step: "\<lbrakk>i < length cs; cs ! i = c; cl_point c = Resolving; mget ls (cl_key c) = Some l;
      careful \<longrightarrow> \<not> between_block_and_finish (cl_key c) cs;
      retry_region handled acked l = (err, l') \<or> release_region rejectable rejected l = (err, l')\<rbrakk>
    \<Longrightarrow> lane_step careful (ls, cs) (mput (cl_key c) l' ls, cs[i := moved_to Leaving c])"

inductive lane_reachable :: "bool \<Rightarrow> 'd lanes \<times> call list \<Rightarrow> bool" for careful where
  no_lanes: "lane_reachable careful ([], [])"
| lane_moved: "\<lbrakk>lane_reachable careful st; lane_step careful st st'\<rbrakk> \<Longrightarrow> lane_reachable careful st'"

section \<open>The invariant\<close>

text \<open>A call waits for its turn, is in its turn, or still uses the lane.\<close>

definition waiting :: "call \<Rightarrow> bool" where
  "waiting c \<longleftrightarrow> cl_point c = Queued \<or> (\<exists>chan. cl_point c = Waiting chan)"

definition in_turn :: "call \<Rightarrow> bool" where
  "in_turn c \<longleftrightarrow> cl_point c = Serving \<or> cl_point c = Failing \<or> cl_point c = Served"

definition busy :: "call \<Rightarrow> bool" where
  "busy c \<longleftrightarrow> cl_point c \<noteq> Gone"

definition calls_of :: "laneKey \<Rightarrow> call list \<Rightarrow> call list" where
  "calls_of k cs = filter (\<lambda>c. cl_key c = k) cs"

text \<open>
  A lane and the calls of its key: tickets are distinct and between the one served and the next, every entry of the table of
  waiters belongs to a waiting call, and no call waits on a nil channel.
\<close>

definition tickets_ok :: "'d delivery_lane \<Rightarrow> call list \<Rightarrow> bool" where
  "tickets_ok l cs \<longleftrightarrow> la_users l = length (filter busy cs) \<and> la_serving l \<le> la_next l \<and>
     (\<forall>i<length cs. waiting (cs ! i) \<or> in_turn (cs ! i) \<longrightarrow> la_serving l \<le> cl_ticket (cs ! i) \<and> cl_ticket (cs ! i) < la_next l) \<and>
     (\<forall>i<length cs. \<forall>j<length cs. (waiting (cs ! i) \<or> in_turn (cs ! i)) \<and> (waiting (cs ! j) \<or> in_turn (cs ! j)) \<and>
        cl_ticket (cs ! i) = cl_ticket (cs ! j) \<longrightarrow> i = j) \<and>
     (\<forall>t\<in>set (la_waiters l). \<exists>i<length cs. waiting (cs ! i) \<and> cl_ticket (cs ! i) = t) \<and>
     (\<forall>i<length cs. cl_point (cs ! i) \<noteq> Waiting False)"

text \<open>
  The call in its turn has the ticket being served, and blocks the lane exactly when it has failed. A waiting call is in the table
  of waiters or has been let through; on a free lane that nobody holds, one has been let through unless nobody waits.
\<close>

definition can_proceed :: "'d delivery_lane \<Rightarrow> call \<Rightarrow> bool" where
  "can_proceed l c \<longleftrightarrow> waiting c \<and> cl_ticket c = la_serving l \<and> (cl_point c = Queued \<or> cl_ticket c \<in> set (la_tokens l))"

definition turns_ok :: "'d delivery_lane \<Rightarrow> call list \<Rightarrow> bool" where
  "turns_ok l cs \<longleftrightarrow>
     (\<forall>i<length cs. in_turn (cs ! i) \<longrightarrow> cl_ticket (cs ! i) = la_serving l \<and> (cl_point (cs ! i) = Failing \<longleftrightarrow> la_blocked l \<noteq> None)) \<and>
     (\<forall>i<length cs. waiting (cs ! i) \<longrightarrow> cl_ticket (cs ! i) \<in> set (la_waiters l) \<or> la_blocked l = None \<and> can_proceed l (cs ! i)) \<and>
     (la_blocked l = None \<and> (\<forall>i<length cs. \<not> in_turn (cs ! i)) \<longrightarrow>
        la_serving l = la_next l \<or> (\<exists>i<length cs. can_proceed l (cs ! i)))"

definition lane_ok :: "'d delivery_lane \<Rightarrow> call list \<Rightarrow> bool" where
  "lane_ok l cs \<longleftrightarrow> tickets_ok l cs \<and> turns_ok l cs"

definition lanes_inv :: "'d lanes \<times> call list \<Rightarrow> bool" where
  "lanes_inv st \<longleftrightarrow> wf_map (fst st) \<and>
     (\<forall>k. case mget (fst st) k of
            None \<Rightarrow> \<forall>c\<in>set (calls_of k (snd st)). \<not> busy c
          | Some l \<Rightarrow> lane_ok l (calls_of k (snd st)))"

end
