(* ===== verification/Subscriber_Turns.thy ===== *)
theory Subscriber_Turns
  imports Subscriber_Lanes
begin

text \<open>
  The invariant of the ordering lanes, step by step: each locked region keeps it for its lane, provided \<open>Retry\<close> and \<open>Release\<close> do
  not fall between the recording of a block and the end of that turn, and the calls of other keys are not touched.
\<close>

section \<open>Waking the next ticket\<close>

lemma notify_loop_cases:
  assumes "la_serving l \<le> la_next l"
  shows "(\<exists>t. t \<in> set (la_waiters l) \<and> la_serving l \<le> t \<and> t < la_next l \<and> (\<forall>u\<in>set (la_waiters l). la_serving l \<le> u \<longrightarrow> t \<le> u) \<and>
      notify_loop l = l\<lparr>la_serving := t, la_waiters := removeAll t (la_waiters l), la_tokens := t # la_tokens l\<rparr>) \<or>
    (\<forall>u\<in>set (la_waiters l). la_serving l \<le> u \<longrightarrow> la_next l \<le> u) \<and> notify_loop l = l\<lparr>la_serving := la_next l\<rparr>"
  using assms
proof (induction l rule: notify_loop.induct)
  case (1 l)
  show ?case
  proof (cases "la_serving l < la_next l")
    case True
    show ?thesis
    proof (cases "la_serving l \<in> set (la_waiters l)")
      case w: True
      have "notify_loop l = l\<lparr>la_serving := la_serving l, la_waiters := removeAll (la_serving l) (la_waiters l), la_tokens := la_serving l # la_tokens l\<rparr>"
        using True w by (simp add: notify_loop.simps [of l])
      then show ?thesis using True w by blast
    next
      case False
      let ?m = "l\<lparr>la_serving := la_serving l + 1\<rparr>"
      have eq: "notify_loop l = notify_loop ?m" using True False by (simp add: notify_loop.simps [of l])
      have next_ge: "la_serving ?m \<le> u \<longleftrightarrow> la_serving l \<le> u" if "u \<in> set (la_waiters l)" for u
        using False that by (cases "u = la_serving l") auto
      from 1(1) [OF True False] True show ?thesis unfolding eq using next_ge by (auto simp: Suc_le_eq)
    qed
  next
    case False
    then have "la_serving l = la_next l" "notify_loop l = l" using 1(2) by (simp_all add: notify_loop.simps [of l])
    then show ?thesis by simp
  qed
qed

lemma tickets_okD:
  assumes "tickets_ok l cs"
  shows "la_users l = length (filter busy cs)" and "la_serving l \<le> la_next l"
    and "\<And>i. i < length cs \<Longrightarrow> waiting (cs ! i) \<or> in_turn (cs ! i) \<Longrightarrow> la_serving l \<le> cl_ticket (cs ! i) \<and> cl_ticket (cs ! i) < la_next l"
    and "\<And>i j. i < length cs \<Longrightarrow> j < length cs \<Longrightarrow> waiting (cs ! i) \<or> in_turn (cs ! i) \<Longrightarrow> waiting (cs ! j) \<or> in_turn (cs ! j) \<Longrightarrow>
      cl_ticket (cs ! i) = cl_ticket (cs ! j) \<Longrightarrow> i = j"
    and "\<And>t. t \<in> set (la_waiters l) \<Longrightarrow> \<exists>i<length cs. waiting (cs ! i) \<and> cl_ticket (cs ! i) = t"
    and "\<And>i. i < length cs \<Longrightarrow> cl_point (cs ! i) \<noteq> Waiting False"
  using assms unfolding tickets_ok_def by blast+

lemma tickets_okI:
  assumes "la_users l = length (filter busy cs)" and "la_serving l \<le> la_next l"
    and "\<And>i. i < length cs \<Longrightarrow> waiting (cs ! i) \<or> in_turn (cs ! i) \<Longrightarrow> la_serving l \<le> cl_ticket (cs ! i) \<and> cl_ticket (cs ! i) < la_next l"
    and "\<And>i j. i < length cs \<Longrightarrow> j < length cs \<Longrightarrow> waiting (cs ! i) \<or> in_turn (cs ! i) \<Longrightarrow> waiting (cs ! j) \<or> in_turn (cs ! j) \<Longrightarrow>
      cl_ticket (cs ! i) = cl_ticket (cs ! j) \<Longrightarrow> i = j"
    and "\<And>t. t \<in> set (la_waiters l) \<Longrightarrow> \<exists>i<length cs. waiting (cs ! i) \<and> cl_ticket (cs ! i) = t"
    and "\<And>i. i < length cs \<Longrightarrow> cl_point (cs ! i) \<noteq> Waiting False"
  shows "tickets_ok l cs"
  using assms unfolding tickets_ok_def by blast

lemma turns_okD:
  assumes "turns_ok l cs"
  shows "\<And>i. i < length cs \<Longrightarrow> in_turn (cs ! i) \<Longrightarrow> cl_ticket (cs ! i) = la_serving l \<and> (cl_point (cs ! i) = Failing \<longleftrightarrow> la_blocked l \<noteq> None)"
    and "\<And>i. i < length cs \<Longrightarrow> waiting (cs ! i) \<Longrightarrow> cl_ticket (cs ! i) \<in> set (la_waiters l) \<or> la_blocked l = None \<and> can_proceed l (cs ! i)"
    and "la_blocked l = None \<Longrightarrow> \<forall>i<length cs. \<not> in_turn (cs ! i) \<Longrightarrow> la_serving l = la_next l \<or> (\<exists>i<length cs. can_proceed l (cs ! i))"
  using assms unfolding turns_ok_def by blast+

text \<open>A lane that nobody holds and whose waiting calls are all in the table is right after \<open>notifyServing\<close>.\<close>

lemma notify_restores:
  assumes t: "tickets_ok l cs" and turn: "\<forall>i<length cs. \<not> in_turn (cs ! i)"
    and table: "\<forall>i<length cs. waiting (cs ! i) \<longrightarrow> cl_ticket (cs ! i) \<in> set (la_waiters l)"
  shows "lane_ok (notifyServing l) cs"
proof (cases "la_blocked l")
  case (Some b)
  then have "notifyServing l = l" by (simp add: notifyServing_def)
  moreover have "turns_ok l cs" using turn table Some by (simp add: turns_ok_def)
  ultimately show ?thesis using t by (simp add: lane_ok_def)
next
  case None
  note T = tickets_okD [OF t]
  have w: "i < length cs \<Longrightarrow> waiting (cs ! i) \<Longrightarrow> cl_ticket (cs ! i) \<in> set (la_waiters l) \<and> la_serving l \<le> cl_ticket (cs ! i)" for i
    using table T(3) by blast
  from notify_loop_cases [OF T(2)] show ?thesis
  proof (elim disjE exE conjE)
    fix s assume s: "s \<in> set (la_waiters l)" "la_serving l \<le> s" "s < la_next l" "\<forall>u\<in>set (la_waiters l). la_serving l \<le> u \<longrightarrow> s \<le> u"
      "notify_loop l = l\<lparr>la_serving := s, la_waiters := removeAll s (la_waiters l), la_tokens := s # la_tokens l\<rparr>"
    let ?l = "l\<lparr>la_serving := s, la_waiters := removeAll s (la_waiters l), la_tokens := s # la_tokens l\<rparr>"
    have eq: "notifyServing l = ?l" using None s(5) by (simp add: notifyServing_def)
    have "tickets_ok ?l cs"
    proof (rule tickets_okI)
      show "la_serving ?l \<le> cl_ticket (cs ! i) \<and> cl_ticket (cs ! i) < la_next ?l" if "i < length cs" "waiting (cs ! i) \<or> in_turn (cs ! i)" for i
        using that turn w s(4) T(3) by auto
    qed (use T s(3) in auto)
    moreover have "turns_ok ?l cs"
      unfolding turns_ok_def
    proof (intro conjI allI impI)
      fix i assume i: "i < length cs" "waiting (cs ! i)"
      then show "cl_ticket (cs ! i) \<in> set (la_waiters ?l) \<or> la_blocked ?l = None \<and> can_proceed ?l (cs ! i)"
        using w None by (auto simp: can_proceed_def)
    next
      obtain i where "i < length cs" "waiting (cs ! i)" "cl_ticket (cs ! i) = s" using T(5) s(1) by blast
      then show "la_serving ?l = la_next ?l \<or> (\<exists>i<length cs. can_proceed ?l (cs ! i))" by (auto simp: can_proceed_def)
    qed (use turn in auto)
    ultimately show ?thesis unfolding eq lane_ok_def by blast
  next
    assume none: "\<forall>u\<in>set (la_waiters l). la_serving l \<le> u \<longrightarrow> la_next l \<le> u" and eq': "notify_loop l = l\<lparr>la_serving := la_next l\<rparr>"
    have eq: "notifyServing l = l\<lparr>la_serving := la_next l\<rparr>" using None eq' by (simp add: notifyServing_def)
    have no: "\<not> waiting (cs ! i)" if "i < length cs" for i
      using that w none T(3) by (metis not_less)
    have "tickets_ok (l\<lparr>la_serving := la_next l\<rparr>) cs"
    proof (rule tickets_okI)
      show "\<exists>i<length cs. waiting (cs ! i) \<and> cl_ticket (cs ! i) = u" if "u \<in> set (la_waiters (l\<lparr>la_serving := la_next l\<rparr>))" for u
        using T(5) that by simp
    qed (use T no turn in auto)
    moreover have "turns_ok (l\<lparr>la_serving := la_next l\<rparr>) cs" using no turn by (simp add: turns_ok_def)
    ultimately show ?thesis unfolding eq lane_ok_def by blast
  qed
qed


section \<open>Regions of one lane\<close>

lemma point_simps [simp]:
  "cl_ticket (moved_to pt c) = cl_ticket c" "cl_key (moved_to pt c) = cl_key c" "cl_point (moved_to pt c) = pt"
  by (simp_all add: moved_to_def)

lemma count_update:
  assumes "j < length cs"
  shows "length (filter P (cs[j := c])) + (if P (cs ! j) then 1 else 0) = length (filter P cs) + (if P c then 1 else 0)"
  using assms
proof (induction cs arbitrary: j)
  case (Cons x cs)
  then show ?case by (cases j) auto
qed simp

lemma busy_update:
  assumes "j < length cs" and "busy (cs ! j)" and "busy c"
  shows "length (filter busy (cs[j := c])) = length (filter busy cs)"
  using count_update [OF assms(1), of busy c] assms(2,3) by simp

lemma active_busy: "waiting c \<or> in_turn c \<Longrightarrow> busy c"
  by (auto simp: waiting_def in_turn_def busy_def)

lemma not_both: "waiting c \<Longrightarrow> \<not> in_turn c"
  by (auto simp: waiting_def in_turn_def)

lemma same_ticket:
  assumes "lane_ok l cs" and "i < length cs" and "j < length cs" and "waiting (cs ! i) \<or> in_turn (cs ! i)" and "waiting (cs ! j) \<or> in_turn (cs ! j)"
    and "cl_ticket (cs ! i) = cl_ticket (cs ! j)"
  shows "i = j"
  using tickets_okD(4) [of l cs i j] assms unfolding lane_ok_def by blast

lemma lane_okD: assumes "lane_ok l cs" shows "tickets_ok l cs" and "turns_ok l cs"
  using assms by (simp_all add: lane_ok_def)

text \<open>A call that keeps its ticket: its place changes, and the table of waiters loses at most its entry.\<close>

lemma tickets_keep:
  assumes t: "tickets_ok l cs" and j: "j < length cs" "waiting (cs ! j) \<or> in_turn (cs ! j)"
    and c: "cl_ticket c = cl_ticket (cs ! j)" "waiting c \<or> in_turn c" "cl_point c \<noteq> Waiting False"
    and l': "la_users l' = la_users l" "la_next l' = la_next l" "la_serving l' = la_serving l"
    and w: "set (la_waiters l') \<subseteq> set (la_waiters l)" "\<not> waiting c \<Longrightarrow> cl_ticket c \<notin> set (la_waiters l')"
  shows "tickets_ok l' (cs[j := c])"
proof -
  note T = tickets_okD [OF t]
  have n: "cs[j := c] ! i = (if i = j then c else cs ! i)" if "i < length cs" for i using that j(1) by (simp add: nth_list_update)
  have role: "(waiting (cs[j := c] ! i) \<or> in_turn (cs[j := c] ! i)) = (waiting (cs ! i) \<or> in_turn (cs ! i))"
    and ticket: "cl_ticket (cs[j := c] ! i) = cl_ticket (cs ! i)" if "i < length cs" for i
    using n [OF that] j(2) c(1,2) by auto
  show ?thesis
  proof (rule tickets_okI)
    show "la_users l' = length (filter busy (cs[j := c]))"
      using T(1) busy_update [OF j(1) active_busy [OF j(2)] active_busy [OF c(2)]] l'(1) by simp
    show "la_serving l' \<le> la_next l'" using T(2) l' by simp
    show "la_serving l' \<le> cl_ticket (cs[j := c] ! i) \<and> cl_ticket (cs[j := c] ! i) < la_next l'"
      if "i < length (cs[j := c])" "waiting (cs[j := c] ! i) \<or> in_turn (cs[j := c] ! i)" for i
      using T(3) [of i] that role [of i] ticket [of i] l' by simp
    show "i = k" if "i < length (cs[j := c])" "k < length (cs[j := c])" "waiting (cs[j := c] ! i) \<or> in_turn (cs[j := c] ! i)"
      "waiting (cs[j := c] ! k) \<or> in_turn (cs[j := c] ! k)" "cl_ticket (cs[j := c] ! i) = cl_ticket (cs[j := c] ! k)" for i k
      using T(4) [of i k] that role [of i] role [of k] ticket [of i] ticket [of k] by simp
    show "\<exists>i<length (cs[j := c]). waiting (cs[j := c] ! i) \<and> cl_ticket (cs[j := c] ! i) = u" if u: "u \<in> set (la_waiters l')" for u
    proof -
      obtain i where i: "i < length cs" "waiting (cs ! i)" "cl_ticket (cs ! i) = u" using T(5) w(1) u by blast
      then have "waiting (cs[j := c] ! i)" unfolding n [OF i(1)] using w(2) u c(1) by auto
      then show ?thesis using i ticket [OF i(1)] by auto
    qed
    show "cl_point (cs[j := c] ! i) \<noteq> Waiting False" if "i < length (cs[j := c])" for i 
      using that T(6) [of i] c(3) j(1) by (simp add: nth_list_update)
  qed
qed

text \<open>A call that gives up its ticket.\<close>

lemma tickets_drop:
  assumes ok: "lane_ok l cs" and j: "j < length cs" "waiting (cs ! j) \<or> in_turn (cs ! j)"
  shows "tickets_ok (leave_waiters (cl_ticket (cs ! j)) l) (cs[j := moved_to Leaving (cs ! j)])" (is "tickets_ok ?l ?cs")
proof -
  note T = tickets_okD [OF lane_okD(1) [OF ok]]
  have n: "?cs ! i = (if i = j then moved_to Leaving (cs ! j) else cs ! i)" if "i < length cs" for i using that j(1) by (simp add: nth_list_update)
  have gone: "\<not> waiting (moved_to Leaving (cs ! j))" "\<not> in_turn (moved_to Leaving (cs ! j))" by (simp_all add: waiting_def in_turn_def)
  have kept: "i \<noteq> j \<and> ?cs ! i = cs ! i" if "i < length ?cs" "waiting (?cs ! i) \<or> in_turn (?cs ! i)" for i
    using that n [of i] gone by (cases "i = j") auto
  show ?thesis
  proof (rule tickets_okI)
    have "busy (moved_to Leaving (cs ! j))" by (simp add: busy_def)
    then show "la_users ?l = length (filter busy ?cs)"
      using T(1) busy_update [OF j(1) active_busy [OF j(2)]] by (simp add: leave_waiters_def)
    show "\<exists>i<length ?cs. waiting (?cs ! i) \<and> cl_ticket (?cs ! i) = u" if "u \<in> set (la_waiters ?l)" for u
    proof -
      have u: "u \<in> set (la_waiters l)" "u \<noteq> cl_ticket (cs ! j)" using that by (simp_all add: leave_waiters_def)
      then obtain i where i: "i < length cs" "waiting (cs ! i)" "cl_ticket (cs ! i) = u" using T(5) by blast
      then have "i \<noteq> j" using u by blast
      then show ?thesis using i n [OF i(1)] by auto
    qed
    show "cl_point (?cs ! i) \<noteq> Waiting False" if "i < length ?cs" for i
      using that T(6) [of i] j(1) by (simp add: nth_list_update)
    show "la_serving ?l \<le> cl_ticket (?cs ! i) \<and> cl_ticket (?cs ! i) < la_next ?l" if "i < length ?cs" "waiting (?cs ! i) \<or> in_turn (?cs ! i)" for i
      using kept [OF that] that T(3) [of i] by (simp add: leave_waiters_def)
    show "i = k" if "i < length ?cs" "k < length ?cs" "waiting (?cs ! i) \<or> in_turn (?cs ! i)" "waiting (?cs ! k) \<or> in_turn (?cs ! k)"
      "cl_ticket (?cs ! i) = cl_ticket (?cs ! k)" for i k
      using kept [of i] kept [of k] that T(4) [of i k] by simp
  qed (use T in \<open>simp add: leave_waiters_def\<close>)
qed

text \<open>The call whose ticket is served gives it up, and the next one is let through.\<close>

lemma pass_turn:
  assumes ok: "lane_ok l cs" and j: "j < length cs" "waiting (cs ! j) \<or> in_turn (cs ! j)" "cl_ticket (cs ! j) = la_serving l"
  shows "lane_ok (notifyServing ((leave_waiters (cl_ticket (cs ! j)) l)\<lparr>la_serving := la_serving l + 1\<rparr>)) (cs[j := moved_to Leaving (cs ! j)])"
    (is "lane_ok (notifyServing ?l) ?cs")
proof (rule notify_restores)
  let ?d = "leave_waiters (cl_ticket (cs ! j)) l"
  note D = tickets_okD [OF tickets_drop [OF ok j(1,2)]]
  have n: "?cs ! i = (if i = j then moved_to Leaving (cs ! j) else cs ! i)" if "i < length cs" for i using that j(1) by (simp add: nth_list_update)
  have gone: "\<not> waiting (moved_to Leaving (cs ! j))" "\<not> in_turn (moved_to Leaving (cs ! j))" by (simp_all add: waiting_def in_turn_def)
  have other: "i < length cs \<and> i \<noteq> j \<and> ?cs ! i = cs ! i \<and> cl_ticket (cs ! i) \<noteq> la_serving l"
    if "i < length ?cs" "waiting (?cs ! i) \<or> in_turn (?cs ! i)" for i
  proof -
    have i: "i < length cs" "i \<noteq> j" "?cs ! i = cs ! i" using that n [of i] gone by (cases "i = j"; simp)+
    then show ?thesis using same_ticket [OF ok i(1) j(1) _ j(2)] that j(3) by auto
  qed
  have served: "la_serving l < la_next l" using tickets_okD(3) [OF lane_okD(1) [OF ok] j(1,2)] j(3) by simp
  show "tickets_ok ?l ?cs"
  proof (rule tickets_okI)
    show "la_serving ?l \<le> cl_ticket (?cs ! i) \<and> cl_ticket (?cs ! i) < la_next ?l" if "i < length ?cs" "waiting (?cs ! i) \<or> in_turn (?cs ! i)" for i
      using D(3) [OF that] other [OF that] by (auto simp: leave_waiters_def)
    show "la_users ?l = length (filter busy ?cs)" using D(1) by simp
    show "la_serving ?l \<le> la_next ?l" using served by (simp add: leave_waiters_def)
    show "i = k" if "i < length ?cs" "k < length ?cs" "waiting (?cs ! i) \<or> in_turn (?cs ! i)" "waiting (?cs ! k) \<or> in_turn (?cs ! k)"
      "cl_ticket (?cs ! i) = cl_ticket (?cs ! k)" for i k by (rule D(4) [OF that])
    show "\<exists>i<length ?cs. waiting (?cs ! i) \<and> cl_ticket (?cs ! i) = u" if "u \<in> set (la_waiters ?l)" for u using D(5) that by simp
    show "cl_point (?cs ! i) \<noteq> Waiting False" if "i < length ?cs" for i by (rule D(6) [OF that])
  qed
  show "\<forall>i<length ?cs. \<not> in_turn (?cs ! i)"
    using other turns_okD(1) [OF lane_okD(2) [OF ok]] by metis
  show "\<forall>i<length ?cs. waiting (?cs ! i) \<longrightarrow> cl_ticket (?cs ! i) \<in> set (la_waiters ?l)"
  proof (intro allI impI)
    fix i assume i: "i < length ?cs" "waiting (?cs ! i)"
    then have o: "i < length cs" "?cs ! i = cs ! i" "cl_ticket (cs ! i) \<noteq> la_serving l" using other by blast+
    then have "cl_ticket (cs ! i) \<in> set (la_waiters l)" using turns_okD(2) [OF lane_okD(2) [OF ok] o(1)] i(2) by (auto simp: can_proceed_def)
    then show "cl_ticket (?cs ! i) \<in> set (la_waiters ?l)" using o j(3) by (simp add: leave_waiters_def)
  qed
qed


lemma granted_ok:
  assumes ok: "lane_ok l cs" and j: "j < length cs" "cl_point (cs ! j) = Queued" and free: "cl_ticket (cs ! j) = la_serving l" "la_blocked l = None"
  shows "lane_ok (leave_waiters (cl_ticket (cs ! j)) l) (cs[j := moved_to Serving (cs ! j)])" (is "lane_ok ?l ?cs")
proof -
  have w: "waiting (cs ! j)" using j(2) by (simp add: waiting_def)
  have n: "?cs ! i = (if i = j then moved_to Serving (cs ! j) else cs ! i)" if "i < length cs" for i using that j(1) by (simp add: nth_list_update)
  have new: "in_turn (moved_to Serving (cs ! j))" "\<not> waiting (moved_to Serving (cs ! j))" by (simp_all add: in_turn_def waiting_def)
  have "tickets_ok ?l ?cs"
    using w new by (intro tickets_keep [OF lane_okD(1) [OF ok] j(1)]) (auto simp: leave_waiters_def)
  moreover have "turns_ok ?l ?cs"
    unfolding turns_ok_def
  proof (intro conjI allI impI)
    fix i assume i: "i < length ?cs" "in_turn (?cs ! i)"
    then have "i = j"
      using n [of i] same_ticket [OF ok _ j(1), of i] turns_okD(1) [OF lane_okD(2) [OF ok], of i] w free(1) by (auto split: if_splits)
    then show "cl_ticket (?cs ! i) = la_serving ?l" "(cl_point (?cs ! i) = Failing) = (la_blocked ?l \<noteq> None)"
      using j(1) free by (simp_all add: leave_waiters_def)
  next
    fix i assume i: "i < length ?cs" "waiting (?cs ! i)"
    then have o: "i < length cs" "i \<noteq> j" "?cs ! i = cs ! i" using n [of i] new by (cases "i = j"; simp)+
    then have "cl_ticket (cs ! i) \<noteq> la_serving l" using same_ticket [OF ok o(1) j(1)] i(2) w free(1) by auto
    then show "cl_ticket (?cs ! i) \<in> set (la_waiters ?l) \<or> la_blocked ?l = None \<and> can_proceed ?l (?cs ! i)"
      using turns_okD(2) [OF lane_okD(2) [OF ok] o(1)] i(2) o(3) free by (auto simp: can_proceed_def leave_waiters_def)
  next
    assume "la_blocked ?l = None \<and> (\<forall>i<length ?cs. \<not> in_turn (?cs ! i))"
    then have "\<not> in_turn (?cs ! j)" using j(1) by (metis length_list_update)
    then show "la_serving ?l = la_next ?l \<or> (\<exists>i<length ?cs. can_proceed ?l (?cs ! i))" using new j(1) by simp
  qed
  ultimately show ?thesis by (simp add: lane_ok_def)
qed

text \<open>A waiting call that goes on waiting, at another point of its loop.\<close>

lemma waiting_ok:
  assumes ok: "lane_ok l cs" and j: "j < length cs" "waiting (cs ! j)" and c: "c = moved_to pt (cs ! j)" "waiting c" "pt \<noteq> Waiting False"
    and l': "l' = l\<lparr>la_tokens := toks\<rparr>" "\<And>u. u \<noteq> cl_ticket (cs ! j) \<Longrightarrow> u \<in> set (la_tokens l) \<Longrightarrow> u \<in> set toks"
    and step: "pt = Queued \<or> cl_ticket (cs ! j) \<in> set (la_waiters l) \<and> (la_blocked l \<noteq> None \<or> cl_ticket (cs ! j) \<noteq> la_serving l)"
  shows "lane_ok l' (cs[j := c])"
proof -
  let ?cs = "cs[j := c]"
  have n: "?cs ! i = (if i = j then c else cs ! i)" if "i < length cs" for i using that j(1) by (simp add: nth_list_update)
  have turn: "in_turn (?cs ! i) \<longleftrightarrow> in_turn (cs ! i)" "in_turn (?cs ! i) \<Longrightarrow> ?cs ! i = cs ! i" if "i < length cs" for i
    using n [OF that] not_both [OF j(2)] not_both [OF c(2)] by (auto split: if_splits)
  have tc: "cl_ticket c = cl_ticket (cs ! j)" "cl_point c = pt" by (simp_all add: c(1))
  have others: "can_proceed l' (cs ! i)" if "i < length cs" "i \<noteq> j" "can_proceed l (cs ! i)" for i
  proof -
    have "cl_ticket (cs ! i) \<noteq> cl_ticket (cs ! j)"
      using same_ticket [OF ok that(1) j(1) _ disjI1 [OF j(2)]] that(2,3) by (auto simp: can_proceed_def)
    then show ?thesis using that(3) l'(2) [of "la_serving l"] by (auto simp: can_proceed_def l'(1))
  qed
  have "tickets_ok l' ?cs"
    using c j(2) by (intro tickets_keep [OF lane_okD(1) [OF ok] j(1)]) (auto simp: l'(1) tc)
  moreover have "turns_ok l' ?cs"
    unfolding turns_ok_def
  proof (intro conjI allI impI)
    fix i assume i: "i < length ?cs" "in_turn (?cs ! i)"
    then show "cl_ticket (?cs ! i) = la_serving l'" "(cl_point (?cs ! i) = Failing) = (la_blocked l' \<noteq> None)"
      using turn [of i] turns_okD(1) [OF lane_okD(2) [OF ok], of i] by (simp_all add: l'(1))
  next
    fix i assume i: "i < length ?cs" "waiting (?cs ! i)"
    show "cl_ticket (?cs ! i) \<in> set (la_waiters l') \<or> la_blocked l' = None \<and> can_proceed l' (?cs ! i)"
    proof (cases "i = j")
      case True
      then show ?thesis
        using turns_okD(2) [OF lane_okD(2) [OF ok] j] step j(1) c(2) tc by (auto simp: can_proceed_def l'(1))
    next
      case False
      then show ?thesis using turns_okD(2) [OF lane_okD(2) [OF ok], of i] i others [of i] j(1) by (auto simp: l'(1))
    qed
  next
    assume free: "la_blocked l' = None \<and> (\<forall>i<length ?cs. \<not> in_turn (?cs ! i))"
    then have "la_serving l = la_next l \<or> (\<exists>i<length cs. can_proceed l (cs ! i))"
      using turns_okD(3) [OF lane_okD(2) [OF ok]] turn(1) by (simp add: l'(1))
    then show "la_serving l' = la_next l' \<or> (\<exists>i<length ?cs. can_proceed l' (?cs ! i))"
    proof
      assume "\<exists>i<length cs. can_proceed l (cs ! i)"
      then obtain i where i: "i < length cs" "can_proceed l (cs ! i)" by blast
      show ?thesis
      proof (cases "i = j")
        case True
        then have "can_proceed l' c" using i step free c(2) tc by (auto simp: can_proceed_def l'(1))
        then show ?thesis using j(1) by (intro disjI2 exI [of _ j]) simp
      next
        case False
        then show ?thesis using others [OF i(1)] i n [OF i(1)] by (intro disjI2 exI [of _ i]) simp
      qed
    qed (simp add: l'(1))
  qed
  ultimately show ?thesis by (simp add: lane_ok_def)
qed

lemma cancelled_ok:
  assumes ok: "lane_ok l cs" and j: "j < length cs" "waiting (cs ! j)" and "cl_ticket (cs ! j) \<noteq> la_serving l \<or> la_blocked l \<noteq> None"
  shows "lane_ok (leave_waiters (cl_ticket (cs ! j)) l) (cs[j := moved_to Leaving (cs ! j)])" (is "lane_ok ?l ?cs")
proof -
  have n: "?cs ! i = (if i = j then moved_to Leaving (cs ! j) else cs ! i)" if "i < length cs" for i using that j(1) by (simp add: nth_list_update)
  have gone: "\<not> waiting (moved_to Leaving (cs ! j))" "\<not> in_turn (moved_to Leaving (cs ! j))" by (simp_all add: waiting_def in_turn_def)
  have kept: "i < length cs \<and> i \<noteq> j \<and> ?cs ! i = cs ! i" if "i < length ?cs" "waiting (?cs ! i) \<or> in_turn (?cs ! i)" for i
    using that n [of i] gone by (cases "i = j") auto
  have turn: "in_turn (?cs ! i) \<longleftrightarrow> in_turn (cs ! i)" if "i < length cs" for i
    using n [OF that] not_both [OF j(2)] gone by (auto split: if_splits)
  have same: "can_proceed ?l c = can_proceed l c" for c by (simp add: can_proceed_def leave_waiters_def)
  have "turns_ok ?l ?cs"
    unfolding turns_ok_def same
  proof (intro conjI allI impI)
    fix i assume i: "i < length ?cs" "in_turn (?cs ! i)"
    then show "cl_ticket (?cs ! i) = la_serving ?l" "(cl_point (?cs ! i) = Failing) = (la_blocked ?l \<noteq> None)"
      using kept [of i] turns_okD(1) [OF lane_okD(2) [OF ok], of i] by (simp_all add: leave_waiters_def)
  next
    fix i assume i: "i < length ?cs" "waiting (?cs ! i)"
    then have k: "i < length cs" "i \<noteq> j" "?cs ! i = cs ! i" using kept by blast+
    then have "cl_ticket (cs ! i) \<noteq> cl_ticket (cs ! j)" using same_ticket [OF ok k(1) j(1)] i(2) j(2) by auto
    then show "cl_ticket (?cs ! i) \<in> set (la_waiters ?l) \<or> la_blocked ?l = None \<and> can_proceed l (?cs ! i)"
      using turns_okD(2) [OF lane_okD(2) [OF ok] k(1)] i(2) k(3) by (auto simp: leave_waiters_def)
  next
    assume free: "la_blocked ?l = None \<and> (\<forall>i<length ?cs. \<not> in_turn (?cs ! i))"
    then have "la_serving l = la_next l \<or> (\<exists>i<length cs. can_proceed l (cs ! i))"
      using turns_okD(3) [OF lane_okD(2) [OF ok]] turn by (simp add: leave_waiters_def)
    moreover have "i \<noteq> j" if "can_proceed l (cs ! i)" for i
      using that assms(4) free by (auto simp: can_proceed_def leave_waiters_def)
    then have "?cs ! i = cs ! i" if "can_proceed l (cs ! i)" for i using that by (metis nth_list_update_neq)
    ultimately show "la_serving ?l = la_next ?l \<or> (\<exists>i<length ?cs. can_proceed l (?cs ! i))"
      by (simp add: leave_waiters_def) metis
  qed
  then show ?thesis using tickets_drop [OF ok j(1) disjI1 [OF j(2)]] by (simp add: lane_ok_def)
qed

lemma check_ok:
  assumes ok: "lane_ok l cs" and j: "j < length cs" "cl_point (cs ! j) = Queued" and run: "check_turn cancelled (cl_ticket (cs ! j)) l = (res, l')"
  shows "lane_ok l' (cs[j := moved_to (turn_point res) (cs ! j)])"
proof -
  let ?t = "cl_ticket (cs ! j)"
  have w: "waiting (cs ! j)" using j(2) by (simp add: waiting_def)
  consider "cancelled" "?t = la_serving l" "la_blocked l = None" | "cancelled" "?t \<noteq> la_serving l \<or> la_blocked l \<noteq> None"
    | "\<not> cancelled" "?t = la_serving l" "la_blocked l = None" | "\<not> cancelled" "?t \<noteq> la_serving l \<or> la_blocked l \<noteq> None" by blast
  then show ?thesis
  proof cases
    case 1
    then have "res = TurnCancelled" "l' = notifyServing ((leave_waiters ?t l)\<lparr>la_serving := la_serving l + 1\<rparr>)"
      using run by (auto simp: check_turn_def Let_def leave_waiters_def)
    then show ?thesis using pass_turn [OF ok j(1) disjI1 [OF w] 1(2)] by (simp add: turn_point_def)
  next
    case 2
    then have "res = TurnCancelled" "l' = leave_waiters ?t l" using run by (auto simp: check_turn_def Let_def leave_waiters_def)
    then show ?thesis using cancelled_ok [OF ok j(1) w 2(2)] by (simp add: turn_point_def)
  next
    case 3
    then have "res = TurnGranted" "l' = leave_waiters ?t l" using run by (auto simp: check_turn_def)
    then show ?thesis using granted_ok [OF ok j 3(2,3)] by (simp add: turn_point_def)
  next
    case 4
    then have r: "res = TurnWait (?t \<in> set (la_waiters l))" "l' = l" using run by (auto simp: check_turn_def)
    have "?t \<in> set (la_waiters l)" using turns_okD(2) [OF lane_okD(2) [OF ok] j(1) w] 4(2) by (auto simp: can_proceed_def)
    then show ?thesis
      using r 4(2) by (intro waiting_ok [OF ok j(1) w, where pt = "Waiting True" and toks = "la_tokens l"]) (auto simp: turn_point_def waiting_def)
  qed
qed


lemma wake_ok:
  assumes ok: "lane_ok l cs" and j: "j < length cs" "waiting (cs ! j)"
  shows "lane_ok (l\<lparr>la_tokens := removeAll (cl_ticket (cs ! j)) (la_tokens l)\<rparr>) (cs[j := moved_to Queued (cs ! j)])"
  by (rule waiting_ok [OF ok j, where pt = Queued and toks = "removeAll (cl_ticket (cs ! j)) (la_tokens l)"]) (simp_all add: waiting_def)

lemma cancel_wait_ok:
  assumes ok: "lane_ok l cs" and j: "j < length cs" "waiting (cs ! j)"
  shows "lane_ok l (cs[j := moved_to Queued (cs ! j)])"
  by (rule waiting_ok [OF ok j, where pt = Queued and toks = "la_tokens l"]) (simp_all add: waiting_def)

lemma turn_not_listed:
  assumes ok: "lane_ok l cs" and j: "j < length cs" "in_turn (cs ! j)"
  shows "cl_ticket (cs ! j) \<notin> set (la_waiters l)"
proof
  assume "cl_ticket (cs ! j) \<in> set (la_waiters l)"
  then obtain i where "i < length cs" "waiting (cs ! i)" "cl_ticket (cs ! i) = cl_ticket (cs ! j)"
    using tickets_okD(5) [OF lane_okD(1) [OF ok]] by blast
  then show False using same_ticket [OF ok _ j(1) _ disjI2 [OF j(2)]] not_both j(2) by blast
qed

lemma fail_ok:
  assumes ok: "lane_ok l cs" and j: "j < length cs" "in_turn (cs ! j)" and c: "c = moved_to pt (cs ! j)" "in_turn c"
    and l': "l' = l\<lparr>la_blocked := b\<rparr>" "pt = Failing \<longleftrightarrow> b \<noteq> None"
  shows "lane_ok l' (cs[j := c])"
proof -
  let ?cs = "cs[j := c]"
  have n: "?cs ! i = (if i = j then c else cs ! i)" if "i < length cs" for i using that j(1) by (simp add: nth_list_update)
  have tc: "cl_ticket c = cl_ticket (cs ! j)" "cl_point c = pt" by (simp_all add: c(1))
  have served: "cl_ticket (cs ! j) = la_serving l" using turns_okD(1) [OF lane_okD(2) [OF ok] j] by simp
  note nw = turn_not_listed [OF ok j]
  have "tickets_ok l' ?cs"
    using c(2) j(2) nw by (intro tickets_keep [OF lane_okD(1) [OF ok] j(1)]) (auto simp: l'(1) tc in_turn_def)
  moreover have "turns_ok l' ?cs"
    unfolding turns_ok_def
  proof (intro conjI allI impI)
    fix i assume i: "i < length ?cs" "in_turn (?cs ! i)"
    have "i = j"
    proof (rule ccontr)
      assume "i \<noteq> j"
      then have "in_turn (cs ! i)" "i < length cs" using i n [of i] by auto
      then show False using same_ticket [OF ok _ j(1), of i] turns_okD(1) [OF lane_okD(2) [OF ok], of i] j(2) served \<open>i \<noteq> j\<close> by auto
    qed
    then show "cl_ticket (?cs ! i) = la_serving l'" "(cl_point (?cs ! i) = Failing) = (la_blocked l' \<noteq> None)"
      using j(1) served l' tc by simp_all
  next
    fix i assume i: "i < length ?cs" "waiting (?cs ! i)"
    then have o: "i < length cs" "i \<noteq> j" "?cs ! i = cs ! i" using n [of i] c(2) not_both by (cases "i = j"; force)+
    then have "cl_ticket (cs ! i) \<noteq> la_serving l" using same_ticket [OF ok o(1) j(1)] i(2) j(2) served by auto
    then show "cl_ticket (?cs ! i) \<in> set (la_waiters l') \<or> la_blocked l' = None \<and> can_proceed l' (?cs ! i)"
      using turns_okD(2) [OF lane_okD(2) [OF ok] o(1)] i(2) o(3) by (auto simp: can_proceed_def l'(1))
  next
    assume "la_blocked l' = None \<and> (\<forall>i<length ?cs. \<not> in_turn (?cs ! i))"
    then have "\<not> in_turn (?cs ! j)" using j(1) by (metis length_list_update)
    then show "la_serving l' = la_next l' \<or> (\<exists>i<length ?cs. can_proceed l' (?cs ! i))" using c(2) j(1) by simp
  qed
  ultimately show ?thesis by (simp add: lane_ok_def)
qed

lemma finish_ok:
  assumes ok: "lane_ok l cs" and j: "j < length cs" "in_turn (cs ! j)"
  shows "lane_ok (finishTurn (cl_ticket (cs ! j)) l) (cs[j := moved_to Leaving (cs ! j)])"
proof -
  have served: "cl_ticket (cs ! j) = la_serving l" using turns_okD(1) [OF lane_okD(2) [OF ok] j] by simp
  note nw = turn_not_listed [OF ok j]
  have "(leave_waiters (cl_ticket (cs ! j)) l)\<lparr>la_serving := la_serving l + 1\<rparr> = l\<lparr>la_serving := la_serving l + 1\<rparr>"
    using nw by (simp add: leave_waiters_def)
  then show ?thesis using pass_turn [OF ok j(1) disjI2 [OF j(2)] served] served by (simp add: finishTurn_def)
qed

text \<open>Calls that hold no ticket.\<close>

definition idle :: "call \<Rightarrow> bool" where
  "idle c \<longleftrightarrow> \<not> waiting c \<and> \<not> in_turn c \<and> cl_point c \<noteq> Waiting False"

lemma idle_ok:
  assumes ok: "lane_ok l cs" and j: "j < length cs" "idle (cs ! j)" and c: "idle c" and l': "l' = l\<lparr>la_users := length (filter busy (cs[j := c])), la_blocked := b\<rparr>"
    "b = None \<longleftrightarrow> la_blocked l = None"
  shows "lane_ok l' (cs[j := c])"
proof -
  let ?cs = "cs[j := c]"
  have n: "?cs ! i = (if i = j then c else cs ! i)" if "i < length cs" for i using that j(1) by (simp add: nth_list_update)
  have role: "waiting (?cs ! i) = waiting (cs ! i)" "in_turn (?cs ! i) = in_turn (cs ! i)" "cl_point (?cs ! i) \<noteq> Waiting False"
    "waiting (cs ! i) \<or> in_turn (cs ! i) \<Longrightarrow> ?cs ! i = cs ! i" if "i < length cs" for i
    using n [OF that] j(2) c tickets_okD(6) [OF lane_okD(1) [OF ok] that] by (auto simp: idle_def)
  note T = tickets_okD [OF lane_okD(1) [OF ok]] and U = turns_okD [OF lane_okD(2) [OF ok]]
  have proceed: "can_proceed l' d = can_proceed l d" for d by (simp add: can_proceed_def l'(1))
  have "tickets_ok l' ?cs"
  proof (rule tickets_okI)
    show "\<exists>i<length ?cs. waiting (?cs ! i) \<and> cl_ticket (?cs ! i) = u" if "u \<in> set (la_waiters l')" for u
      using T(5) [of u] that role by (auto simp: l'(1))
    show "la_serving l' \<le> cl_ticket (?cs ! i) \<and> cl_ticket (?cs ! i) < la_next l'" if "i < length ?cs" "waiting (?cs ! i) \<or> in_turn (?cs ! i)" for i
      using that T(3) [of i] role [of i] by (auto simp: l'(1))
    show "i = k" if "i < length ?cs" "k < length ?cs" "waiting (?cs ! i) \<or> in_turn (?cs ! i)" "waiting (?cs ! k) \<or> in_turn (?cs ! k)"
      "cl_ticket (?cs ! i) = cl_ticket (?cs ! k)" for i k
      using that T(4) [of i k] role [of i] role [of k] by auto
  qed (use T role in \<open>simp_all add: l'(1)\<close>)
  moreover have "turns_ok l' ?cs"
    unfolding turns_ok_def proceed
  proof (intro conjI allI impI)
    fix i assume "i < length ?cs" "in_turn (?cs ! i)"
    then show "cl_ticket (?cs ! i) = la_serving l'" "(cl_point (?cs ! i) = Failing) = (la_blocked l' \<noteq> None)"
      using U(1) [of i] role [of i] l' by simp_all
  next
    fix i assume "i < length ?cs" "waiting (?cs ! i)"
    then show "cl_ticket (?cs ! i) \<in> set (la_waiters l') \<or> la_blocked l' = None \<and> can_proceed l (?cs ! i)"
      using U(2) [of i] role [of i] l' by auto
  next
    assume "la_blocked l' = None \<and> (\<forall>i<length ?cs. \<not> in_turn (?cs ! i))"
    then have "la_serving l = la_next l \<or> (\<exists>i<length cs. can_proceed l (cs ! i))" using U(3) role(2) l' by simp
    moreover have "?cs ! i = cs ! i" if "i < length cs" "can_proceed l (cs ! i)" for i using role(4) that by (simp add: can_proceed_def)
    ultimately show "la_serving l' = la_next l' \<or> (\<exists>i<length ?cs. can_proceed l (?cs ! i))" by (simp add: l'(1)) metis
  qed
  ultimately show ?thesis by (simp add: lane_ok_def)
qed


lemma lane_users: "lane_ok l cs \<Longrightarrow> la_users l = length (filter busy cs)"
  by (simp add: lane_ok_def tickets_ok_def)

text \<open>The regions of \<open>Retry\<close> and \<open>Release\<close> leave the lane, or change the record of the block, or lift the block.\<close>

lemma resolve_cases:
  assumes "retry_region handled acked l = (err, l') \<or> release_region rejectable rejected l = (err, l')"
  shows "(\<exists>b. l' = l\<lparr>la_blocked := b\<rparr> \<and> (b = None \<longleftrightarrow> la_blocked l = None)) \<or>
    la_blocked l \<noteq> None \<and> l' = notifyServing (l\<lparr>la_blocked := None\<rparr>)"
proof (cases "la_blocked l")
  case None
  then have "l' = l\<lparr>la_blocked := None\<rparr>" using assms by (auto simp: retry_region_def release_region_def)
  then show ?thesis using None by blast
next
  case (Some b)
  then have "l' = l\<lparr>la_blocked := Some b\<rparr> \<or> l' = l\<lparr>la_blocked := Some (b\<lparr>bd_succeeded := True\<rparr>)\<rparr> \<or> l' = notifyServing (l\<lparr>la_blocked := None\<rparr>)"
    using assms by (auto simp: retry_region_def release_region_def Let_def split: if_splits)
  then show ?thesis using Some by (elim disjE) auto
qed

lemma resolve_ok:
  assumes ok: "lane_ok l cs" and j: "j < length cs" "cl_point (cs ! j) = Resolving" and none: "\<forall>i<length cs. cl_point (cs ! i) \<noteq> Failing"
    and run: "retry_region handled acked l = (err, l') \<or> release_region rejectable rejected l = (err, l')"
  shows "lane_ok l' (cs[j := moved_to Leaving (cs ! j)])" (is "lane_ok l' ?cs")
proof -
  have i: "idle (cs ! j)" "idle (moved_to Leaving (cs ! j))" using j(2) by (simp_all add: idle_def waiting_def in_turn_def)
  have "busy (cs ! j)" "busy (moved_to Leaving (cs ! j))" using j(2) by (simp_all add: busy_def)
  then have users: "length (filter busy ?cs) = la_users l" using busy_update [OF j(1)] lane_users [OF ok] by simp
  have kept: "lane_ok (l\<lparr>la_blocked := b\<rparr>) ?cs" if "b = None \<longleftrightarrow> la_blocked l = None" for b
    by (rule idle_ok [OF ok j(1) i, where b = b]) (use users that in simp_all)
  from resolve_cases [OF run] show ?thesis
  proof (elim disjE exE conjE)
    fix b assume "l' = l\<lparr>la_blocked := b\<rparr>" "b = None \<longleftrightarrow> la_blocked l = None"
    then show ?thesis using kept by simp
  next
    assume blocked: "la_blocked l \<noteq> None" and l': "l' = notifyServing (l\<lparr>la_blocked := None\<rparr>)"
    have ok': "lane_ok l ?cs" using kept [of "la_blocked l"] by simp
    note U = turns_okD [OF lane_okD(2) [OF ok']]
    have "\<not> in_turn (?cs ! k)" if "k < length ?cs" for k
    proof
      assume "in_turn (?cs ! k)"
      then have "cl_point (?cs ! k) = Failing" using U(1) [OF that] blocked by simp
      then show False using none that j(1) by (cases "k = j") auto
    qed
    moreover have "cl_ticket (?cs ! k) \<in> set (la_waiters l)" if "k < length ?cs" "waiting (?cs ! k)" for k
      using U(2) [OF that] blocked by simp
    moreover have "tickets_ok (l\<lparr>la_blocked := None\<rparr>) ?cs" using lane_okD(1) [OF ok'] by (simp add: tickets_ok_def)
    ultimately show ?thesis unfolding l' by (intro notify_restores) simp_all
  qed
qed

lemma leave_ok:
  assumes ok: "lane_ok l cs" and j: "j < length cs" "cl_point (cs ! j) = Leaving"
  shows "lane_ok (l\<lparr>la_users := la_users l - 1\<rparr>) (cs[j := moved_to Gone (cs ! j)])"
    and "la_users l - 1 = 0 \<Longrightarrow> \<forall>c\<in>set (cs[j := moved_to Gone (cs ! j)]). \<not> busy c"
proof -
  let ?cs = "cs[j := moved_to Gone (cs ! j)]"
  have i: "idle (cs ! j)" "idle (moved_to Gone (cs ! j))" using j(2) by (simp_all add: idle_def waiting_def in_turn_def)
  have "busy (cs ! j)" "\<not> busy (moved_to Gone (cs ! j))" using j(2) by (simp_all add: busy_def)
  then have users: "length (filter busy ?cs) = la_users l - 1" using count_update [OF j(1), of busy "moved_to Gone (cs ! j)"] lane_users [OF ok] by simp
  show "lane_ok (l\<lparr>la_users := la_users l - 1\<rparr>) ?cs"
    by (rule idle_ok [OF ok j(1) i, where b = "la_blocked l"]) (simp_all add: users)
  assume "la_users l - 1 = 0"
  then show "\<forall>c\<in>set ?cs. \<not> busy c" using users by (simp add: filter_empty_conv)
qed

lemma append_nth: "i < length (cs @ [c]) \<Longrightarrow> (cs @ [c]) ! i = (if i < length cs then cs ! i else c)"
  by (auto simp: nth_append less_Suc_eq)

lemma arrive_ok:
  assumes ok: "lane_ok l cs" and new: "cl_ticket c = la_next l" "cl_point c = Queued"
    and l': "l' = snd (take_ticket l)"
  shows "lane_ok l' (cs @ [c])"
proof -
  note T = tickets_okD [OF lane_okD(1) [OF ok]] and U = turns_okD [OF lane_okD(2) [OF ok]]
  have c: "waiting c" "busy c" "\<not> in_turn c" "cl_ticket c = la_next l" "cl_point c = Queued" using new by (simp_all add: waiting_def busy_def in_turn_def)
  note n = append_nth [of _ cs c]
  have l: "la_users l' = la_users l + 1" "la_next l' = la_next l + 1" "la_serving l' = la_serving l" "la_blocked l' = la_blocked l" "la_tokens l' = la_tokens l"
    "set (la_waiters l') = insert (la_next l) (set (la_waiters l))" by (simp_all add: take_ticket_def l')
  have "tickets_ok l' (cs @ [c])"
  proof (rule tickets_okI)
    show "la_users l' = length (filter busy (cs @ [c]))" using T(1) c(2) l(1) by simp
    show "la_serving l' \<le> la_next l'" using T(2) l by simp
    show "la_serving l' \<le> cl_ticket ((cs @ [c]) ! i) \<and> cl_ticket ((cs @ [c]) ! i) < la_next l'"
      if "i < length (cs @ [c])" "waiting ((cs @ [c]) ! i) \<or> in_turn ((cs @ [c]) ! i)" for i
      using that n [OF that(1)] T(2) T(3) [of i] l c(4) by (auto simp: less_Suc_eq split: if_splits)
    show "i = j" if h: "i < length (cs @ [c])" "j < length (cs @ [c])" "waiting ((cs @ [c]) ! i) \<or> in_turn ((cs @ [c]) ! i)"
      "waiting ((cs @ [c]) ! j) \<or> in_turn ((cs @ [c]) ! j)" "cl_ticket ((cs @ [c]) ! i) = cl_ticket ((cs @ [c]) ! j)" for i j
    proof -
      have old: "cl_ticket (cs ! a) < la_next l" if "a < length cs" "waiting (cs ! a) \<or> in_turn (cs ! a)" for a using T(3) [OF that] by simp
      note h' = h(3-5) [unfolded n [OF h(1)] n [OF h(2)]]
      show ?thesis
      proof (cases "i < length cs \<and> j < length cs")
        case True
        then show ?thesis using T(4) [of i j] h' by simp
      next
        case False
        then have "\<not> i < length cs" "\<not> j < length cs" using h' old [of i] old [of j] c(4) by (cases "i < length cs"; cases "j < length cs"; simp)+
        then show ?thesis using h(1,2) by simp
      qed
    qed
    show "\<exists>i<length (cs @ [c]). waiting ((cs @ [c]) ! i) \<and> cl_ticket ((cs @ [c]) ! i) = u" if "u \<in> set (la_waiters l')" for u
    proof (cases "u = la_next l")
      case True
      then show ?thesis using c n [of "length cs"] by (intro exI [of _ "length cs"]) simp
    next
      case False
      then have "u \<in> set (la_waiters l)" using that l(6) by simp
      from T(5) [OF this] obtain i where "i < length cs" "waiting (cs ! i)" "cl_ticket (cs ! i) = u" by blast
      then show ?thesis using n [of i] by (intro exI [of _ i]) simp
    qed
    show "cl_point ((cs @ [c]) ! i) \<noteq> Waiting False" if "i < length (cs @ [c])" for i using n [OF that] T(6) [of i] c(5) by (auto split: if_splits)
  qed
  moreover have "turns_ok l' (cs @ [c])"
    unfolding turns_ok_def
  proof (intro conjI allI impI)
    fix i assume i: "i < length (cs @ [c])" "in_turn ((cs @ [c]) ! i)"
    then show "cl_ticket ((cs @ [c]) ! i) = la_serving l'" "(cl_point ((cs @ [c]) ! i) = Failing) = (la_blocked l' \<noteq> None)"
      using n [OF i(1)] U(1) [of i] c(3) l by (auto split: if_splits)
  next
    fix i assume i: "i < length (cs @ [c])" "waiting ((cs @ [c]) ! i)"
    then show "cl_ticket ((cs @ [c]) ! i) \<in> set (la_waiters l') \<or> la_blocked l' = None \<and> can_proceed l' ((cs @ [c]) ! i)"
      using n [OF i(1)] U(2) [of i] c(4) l by (auto simp: can_proceed_def split: if_splits)
  next
    assume free: "la_blocked l' = None \<and> (\<forall>i<length (cs @ [c]). \<not> in_turn ((cs @ [c]) ! i))"
    have old: "i < length (cs @ [c])" "(cs @ [c]) ! i = cs ! i" if "i < length cs" for i using that by (simp_all add: nth_append)
    have "\<forall>i<length cs. \<not> in_turn (cs ! i)" using free old by metis
    then consider "la_serving l = la_next l" | i where "i < length cs" "can_proceed l (cs ! i)" using U(3) free l by auto
    then show "la_serving l' = la_next l' \<or> (\<exists>i<length (cs @ [c]). can_proceed l' ((cs @ [c]) ! i))"
    proof cases
      case 1
      then have "can_proceed l' c" using c l by (simp add: can_proceed_def)
      then show ?thesis using n [of "length cs"] by (intro disjI2 exI [of _ "length cs"]) simp
    next
      case 2
      then show ?thesis using old [of i] l by (intro disjI2 exI [of _ i]) (auto simp: can_proceed_def)
    qed
  qed
  ultimately show ?thesis by (simp add: lane_ok_def)
qed


lemma resolver_ok:
  assumes ok: "lane_ok l cs" and c: "cl_point c = Resolving" and l': "l' = l\<lparr>la_users := la_users l + 1\<rparr>"
  shows "lane_ok l' (cs @ [c])"
proof -
  note T = tickets_okD [OF lane_okD(1) [OF ok]] and U = turns_okD [OF lane_okD(2) [OF ok]]
  have idle: "\<not> waiting c" "\<not> in_turn c" "busy c" using c by (simp_all add: waiting_def in_turn_def busy_def)
  have old: "i < length (cs @ [c])" "(cs @ [c]) ! i = cs ! i" if "i < length cs" for i using that by (simp_all add: nth_append)
  have only: "i < length cs" if "i < length (cs @ [c])" "waiting ((cs @ [c]) ! i) \<or> in_turn ((cs @ [c]) ! i)" for i
    using that idle append_nth [OF that(1)] by (auto split: if_splits)
  have proceed: "can_proceed l' d = can_proceed l d" for d by (simp add: can_proceed_def l')
  have "tickets_ok l' (cs @ [c])"
  proof (rule tickets_okI)
    show "la_serving l' \<le> cl_ticket ((cs @ [c]) ! i) \<and> cl_ticket ((cs @ [c]) ! i) < la_next l'"
      if "i < length (cs @ [c])" "waiting ((cs @ [c]) ! i) \<or> in_turn ((cs @ [c]) ! i)" for i
      using that only [OF that] old T(3) [of i] by (simp add: l')
    show "i = j" if h: "i < length (cs @ [c])" "j < length (cs @ [c])" "waiting ((cs @ [c]) ! i) \<or> in_turn ((cs @ [c]) ! i)"
      "waiting ((cs @ [c]) ! j) \<or> in_turn ((cs @ [c]) ! j)" "cl_ticket ((cs @ [c]) ! i) = cl_ticket ((cs @ [c]) ! j)" for i j
    proof -
      note a = only [OF h(1,3)] and b = only [OF h(2,4)]
      show ?thesis by (rule T(4) [OF a b h(3-5) [unfolded old(2) [OF a] old(2) [OF b]]])
    qed
    show "\<exists>i<length (cs @ [c]). waiting ((cs @ [c]) ! i) \<and> cl_ticket ((cs @ [c]) ! i) = u" if "u \<in> set (la_waiters l')" for u
    proof -
      have "u \<in> set (la_waiters l)" using that by (simp add: l')
      from T(5) [OF this] obtain i where "i < length cs" "waiting (cs ! i)" "cl_ticket (cs ! i) = u" by blast
      then show ?thesis using old [of i] by (intro exI [of _ i]) simp
    qed
    show "cl_point ((cs @ [c]) ! i) \<noteq> Waiting False" if "i < length (cs @ [c])" for i
      using append_nth [OF that] T(6) [of i] c by (auto split: if_splits)
  qed (use T idle in \<open>simp_all add: l'\<close>)
  moreover have "turns_ok l' (cs @ [c])"
    unfolding turns_ok_def proceed
  proof (intro conjI allI impI)
    fix i assume i: "i < length (cs @ [c])" "in_turn ((cs @ [c]) ! i)"
    note a = only [OF i(1) disjI2 [OF i(2)]]
    show "cl_ticket ((cs @ [c]) ! i) = la_serving l'" "(cl_point ((cs @ [c]) ! i) = Failing) = (la_blocked l' \<noteq> None)"
      unfolding old(2) [OF a] using U(1) [OF a i(2) [unfolded old(2) [OF a]]] by (simp_all add: l')
  next
    fix i assume i: "i < length (cs @ [c])" "waiting ((cs @ [c]) ! i)"
    note a = only [OF i(1) disjI1 [OF i(2)]]
    show "cl_ticket ((cs @ [c]) ! i) \<in> set (la_waiters l') \<or> la_blocked l' = None \<and> can_proceed l ((cs @ [c]) ! i)"
      unfolding old(2) [OF a] using U(2) [OF a i(2) [unfolded old(2) [OF a]]] by (simp add: l')
  next
    assume free: "la_blocked l' = None \<and> (\<forall>i<length (cs @ [c]). \<not> in_turn ((cs @ [c]) ! i))"
    have "\<not> in_turn (cs ! i)" if "i < length cs" for i using conjunct2 [OF free, rule_format, of i] old [OF that] by (simp del: length_append)
    then have "la_serving l = la_next l \<or> (\<exists>i<length cs. can_proceed l (cs ! i))" using U(3) free by (simp add: l')
    then show "la_serving l' = la_next l' \<or> (\<exists>i<length (cs @ [c]). can_proceed l ((cs @ [c]) ! i))"
    proof (elim disjE exE conjE)
      fix i assume "i < length cs" "can_proceed l (cs ! i)"
      then show ?thesis using old [of i] by (intro disjI2 exI [of _ i]) simp
    qed (simp add: l')
  qed
  ultimately show ?thesis by (simp add: lane_ok_def)
qed

lemma fresh_ok: "\<forall>c\<in>set cs. \<not> busy c \<Longrightarrow> lane_ok fresh_lane cs"
proof -
  assume none: "\<forall>c\<in>set cs. \<not> busy c"
  have "cl_point (cs ! i) = Gone" if "i < length cs" for i using none nth_mem [OF that] by (auto simp: busy_def)
  then have "\<not> waiting (cs ! i)" "\<not> in_turn (cs ! i)" "cl_point (cs ! i) \<noteq> Waiting False" if "i < length cs" for i
    using that by (simp_all add: waiting_def in_turn_def)
  then show ?thesis using none by (simp add: lane_ok_def tickets_ok_def turns_ok_def fresh_lane_def filter_empty_conv)
qed

section \<open>The table of lanes\<close>

lemma filter_update:
  assumes "i < length xs" and "P (xs ! i)" and "P y"
  shows "\<exists>j<length (filter P xs). filter P xs ! j = xs ! i \<and> filter P (xs[i := y]) = (filter P xs)[j := y]"
proof -
  let ?j = "length (filter P (take i xs))"
  have xs: "xs = take i xs @ xs ! i # drop (Suc i) xs" using assms(1) by (simp add: id_take_nth_drop)
  have f: "filter P xs = filter P (take i xs) @ xs ! i # filter P (drop (Suc i) xs)" by (subst xs) (simp add: assms(2))
  have g: "filter P (xs[i := y]) = filter P (take i xs) @ y # filter P (drop (Suc i) xs)"
    using assms by (simp add: upd_conv_take_nth_drop)
  have "?j < length (filter P xs)" "filter P xs ! ?j = xs ! i" "filter P (xs[i := y]) = (filter P xs)[?j := y]"
    unfolding f g by (simp_all add: nth_append list_update_append)
  then show ?thesis by blast
qed

lemma filter_update_other: "\<not> P (xs ! i) \<Longrightarrow> \<not> P y \<Longrightarrow> filter P (xs[i := y]) = filter P xs"
proof (cases "i < length xs")
  assume a: "\<not> P (xs ! i)" "\<not> P y" and i: "i < length xs"
  have xs: "xs = take i xs @ xs ! i # drop (Suc i) xs" using i by (simp add: id_take_nth_drop)
  have "filter P xs = filter P (take i xs) @ filter P (drop (Suc i) xs)" by (subst xs) (simp add: a)
  then show ?thesis using a i by (simp add: upd_conv_take_nth_drop)
qed (simp add: list_update_beyond)

definition key_ok :: "'d lanes \<Rightarrow> call list \<Rightarrow> laneKey \<Rightarrow> bool" where
  "key_ok ls cs k \<longleftrightarrow> (case mget ls k of None \<Rightarrow> \<forall>c\<in>set (calls_of k cs). \<not> busy c | Some l \<Rightarrow> lane_ok l (calls_of k cs))"

lemma lanes_inv_key: "lanes_inv (ls, cs) \<longleftrightarrow> wf_map ls \<and> (\<forall>k. key_ok ls cs k)"
  unfolding lanes_inv_def key_ok_def fst_conv snd_conv by (rule refl)

text \<open>A region that replaces one call and the lane of its key.\<close>

lemma region_inv:
  assumes inv: "lanes_inv (ls, cs)" and i: "i < length cs" "cs ! i = c" and c': "cl_key c' = cl_key c"
    and others: "\<And>k. k \<noteq> cl_key c \<Longrightarrow> mget ls' k = mget ls k" "wf_map ls'"
    and own: "\<And>j. j < length (calls_of (cl_key c) cs) \<Longrightarrow> calls_of (cl_key c) cs ! j = c \<Longrightarrow> calls_of (cl_key c) (cs[i := c']) = (calls_of (cl_key c) cs)[j := c'] \<Longrightarrow>
      key_ok ls' (cs[i := c']) (cl_key c)"
  shows "lanes_inv (ls', cs[i := c'])"
proof -
  have "key_ok ls' (cs[i := c']) k" for k
  proof (cases "k = cl_key c")
    case True
    obtain j where "j < length (calls_of (cl_key c) cs)" "calls_of (cl_key c) cs ! j = c" "calls_of (cl_key c) (cs[i := c']) = (calls_of (cl_key c) cs)[j := c']"
      using filter_update [OF i(1), of "\<lambda>x. cl_key x = cl_key c" c'] i(2) c' unfolding calls_of_def by auto
    then show ?thesis using own True by blast
  next
    case False
    then have "calls_of k (cs[i := c']) = calls_of k cs"
      using filter_update_other [of "\<lambda>x. cl_key x = k" cs i c'] i c' by (auto simp: calls_of_def)
    then have "key_ok ls' (cs[i := c']) k = key_ok ls cs k" unfolding key_ok_def others(1) [OF False] by (simp only:)
    then show ?thesis using inv unfolding lanes_inv_key by blast
  qed
  then show ?thesis using others(2) unfolding lanes_inv_key by blast
qed


lemma lanes_invD: assumes "lanes_inv (ls, cs)" shows "key_ok ls cs k" and "wf_map ls"
  using assms unfolding lanes_inv_key by blast+

lemma own_lane:
  assumes "lanes_inv (ls, cs)" and "mget ls k = Some l"
  shows "lane_ok l (calls_of k cs)" and "wf_map ls"
  using lanes_invD(1) [OF assms(1), of k] lanes_invD(2) [OF assms(1)] assms(2) by (simp_all add: key_ok_def)

text \<open>A region that keeps the lane in the table.\<close>

lemma lane_region_inv:
  assumes inv: "lanes_inv (ls, cs)" and i: "i < length cs" "cs ! i = c" and l: "mget ls (cl_key c) = Some l"
    and own: "\<And>j. j < length (calls_of (cl_key c) cs) \<Longrightarrow> calls_of (cl_key c) cs ! j = c \<Longrightarrow> lane_ok l (calls_of (cl_key c) cs) \<Longrightarrow>
      lane_ok l' ((calls_of (cl_key c) cs)[j := moved_to pt c])"
  shows "lanes_inv (mput (cl_key c) l' ls, cs[i := moved_to pt c])"
proof (rule region_inv [OF inv i])
  fix j assume "j < length (calls_of (cl_key c) cs)" "calls_of (cl_key c) cs ! j = c"
    and eq: "calls_of (cl_key c) (cs[i := moved_to pt c]) = (calls_of (cl_key c) cs)[j := moved_to pt c]"
  then have "lane_ok l' ((calls_of (cl_key c) cs)[j := moved_to pt c])" using own own_lane(1) [OF inv l] by blast
  then show "key_ok (mput (cl_key c) l' ls) (cs[i := moved_to pt c]) (cl_key c)" unfolding key_ok_def eq by simp
qed (use own_lane(2) [OF inv l] in simp_all)

lemma append_inv:
  assumes inv: "lanes_inv (ls, cs)" and own: "lane_ok l' (calls_of (cl_key c) cs @ [c])"
  shows "lanes_inv (mput (cl_key c) l' ls, cs @ [c])"
proof -
  have "key_ok (mput (cl_key c) l' ls) (cs @ [c]) k" for k
  proof (cases "k = cl_key c")
    case True
    then show ?thesis using own by (simp add: key_ok_def calls_of_def)
  next
    case False
    then have "calls_of k (cs @ [c]) = calls_of k cs" "mget (mput (cl_key c) l' ls) k = mget ls k" by (simp_all add: calls_of_def)
    then have "key_ok (mput (cl_key c) l' ls) (cs @ [c]) k = key_ok ls cs k" unfolding key_ok_def by (simp only:)
    then show ?thesis using lanes_invD(1) [OF inv] by simp
  qed
  moreover have "wf_map (mput (cl_key c) l' ls)" using lanes_invD(2) [OF inv] by simp
  ultimately show ?thesis unfolding lanes_inv_key by blast
qed

lemma same_lane: "wf_map ls \<Longrightarrow> mget ls k = Some l \<Longrightarrow> lanes_inv (mput k l ls, cs) = lanes_inv (ls, cs)"
proof -
  assume wf: "wf_map ls" and l: "mget ls k = Some l"
  have "key_ok (mput k l ls) cs k' = key_ok ls cs k'" for k' using l by (cases "k' = k") (simp_all add: key_ok_def)
  then show ?thesis unfolding lanes_inv_key using wf by simp
qed

lemma busy_has_lane:
  assumes "lanes_inv (ls, cs)" and "i < length cs" and "busy (cs ! i)"
  obtains l where "mget ls (cl_key (cs ! i)) = Some l"
proof (cases "mget ls (cl_key (cs ! i))")
  case None
  then have "\<forall>c\<in>set (calls_of (cl_key (cs ! i)) cs). \<not> busy c"
    using lanes_invD(1) [OF assms(1), of "cl_key (cs ! i)"] by (simp add: key_ok_def)
  moreover have "cs ! i \<in> set (calls_of (cl_key (cs ! i)) cs)" using assms(2) by (simp add: calls_of_def)
  ultimately show thesis using assms(3) by blast
qed (use that in blast)

lemma stay_inv:
  fixes ls :: "'d lanes"
  assumes inv: "lanes_inv (ls, cs)" and i: "i < length cs" "cs ! i = c" "busy c"
    and own: "\<And>(l :: 'd delivery_lane) j. j < length (calls_of (cl_key c) cs) \<Longrightarrow> calls_of (cl_key c) cs ! j = c \<Longrightarrow> lane_ok l (calls_of (cl_key c) cs) \<Longrightarrow>
      lane_ok l ((calls_of (cl_key c) cs)[j := moved_to pt c])"
  shows "lanes_inv (ls, cs[i := moved_to pt c])"
proof -
  obtain l where l: "mget ls (cl_key c) = Some l" using busy_has_lane [OF inv i(1)] i(2,3) by blast
  have "lanes_inv (mput (cl_key c) l ls, cs[i := moved_to pt c])" by (rule lane_region_inv [OF inv i(1,2) l]) (use own in blast)
  then show ?thesis using same_lane [OF own_lane(2) [OF inv l] l] by blast
qed

lemma leave_inv:
  assumes inv: "lanes_inv (ls, cs)" and i: "i < length cs" "cs ! i = c" "cl_point c = Leaving" and l: "mget ls (cl_key c) = Some l"
  shows "lanes_inv (releaseLane (cl_key c) l ls, cs[i := moved_to Gone c])"
proof (cases "la_users l - 1 = 0 \<and> la_blocked l = None")
  case False
  then have r: "releaseLane (cl_key c) l ls = mput (cl_key c) (l\<lparr>la_users := la_users l - 1\<rparr>) ls" by (auto simp: releaseLane_def Let_def)
  show ?thesis unfolding r by (rule lane_region_inv [OF inv i(1,2) l]) (metis leave_ok(1) i(3))
next
  case True
  then have r: "releaseLane (cl_key c) l ls = mdel (cl_key c) ls" by (simp add: releaseLane_def Let_def)
  show ?thesis
    unfolding r
  proof (rule region_inv [OF inv i(1,2)])
    fix j assume j: "j < length (calls_of (cl_key c) cs)" "calls_of (cl_key c) cs ! j = c"
      and eq: "calls_of (cl_key c) (cs[i := moved_to Gone c]) = (calls_of (cl_key c) cs)[j := moved_to Gone c]"
    have "cl_point (calls_of (cl_key c) cs ! j) = Leaving" using j(2) i(3) by simp
    from leave_ok(2) [OF own_lane(1) [OF inv l] j(1) this conjunct1 [OF True]]
    have "\<forall>x\<in>set ((calls_of (cl_key c) cs)[j := moved_to Gone c]). \<not> busy x" unfolding j(2) by blast
    then show "key_ok (mdel (cl_key c) ls) (cs[i := moved_to Gone c]) (cl_key c)" unfolding key_ok_def eq by simp
  qed (use own_lane(2) [OF inv l] in simp_all)
qed

lemma lane_step_inv:
  assumes "lane_step True st st'" and "lanes_inv st"
  shows "lanes_inv st'"
  using assms
proof (induction rule: lane_step.induct)
  case (arrive_step k ls t ls' cs)
  let ?c = "\<lparr>cl_key = k, cl_ticket = t, cl_point = Queued\<rparr>" and ?l = "mget_or ls k fresh_lane"
  have ls': "t = la_next ?l" "ls' = mput k (snd (take_ticket ?l)) ls" using arrive_step.hyps by (auto simp: acquireLane_def take_ticket_def)
  have "key_ok ls cs k" using arrive_step.prems unfolding lanes_inv_key by blast
  then have "lane_ok ?l (calls_of k cs)" using fresh_ok by (cases "mget ls k") (simp_all add: key_ok_def mget_or_def)
  then have "lane_ok (snd (take_ticket ?l)) (calls_of k cs @ [?c])" by (rule arrive_ok) (simp_all add: ls'(1))
  then show ?case using append_inv [OF arrive_step.prems, of _ ?c] by (simp add: ls'(2))
next
  case (check_step i cs c ls l cancelled res l')
  show ?case
    by (rule lane_region_inv [OF check_step.prems check_step.hyps(1,2,4)]) (metis check_ok check_step.hyps(3,5))
next
  case (wake_step i cs c ls l)
  have w: "waiting c" using wake_step.hyps(3) unfolding waiting_def by blast
  show ?case by (rule lane_region_inv [OF wake_step.prems wake_step.hyps(1,2,4)]) (metis w wake_ok)
next
  case (cancel_step i cs c chan ls)
  have w: "waiting c" "busy c" using cancel_step.hyps(3) by (simp_all add: waiting_def busy_def)
  show ?case by (rule stay_inv [OF cancel_step.prems cancel_step.hyps(1,2) w(2)]) (metis w(1) cancel_wait_ok)
next
  case (fail_step i cs c ls l d succeeded)
  have f: "in_turn c" "in_turn (moved_to Failing c)" using fail_step.hyps(3) by (simp_all add: in_turn_def)
  show ?case
  proof (rule lane_region_inv [OF fail_step.prems fail_step.hyps(1,2,4)])
    fix j assume j: "j < length (calls_of (cl_key c) cs)" "calls_of (cl_key c) cs ! j = c" "lane_ok l (calls_of (cl_key c) cs)"
    show "lane_ok (block_lane d succeeded l) ((calls_of (cl_key c) cs)[j := moved_to Failing c])"
      by (rule fail_ok [OF j(3,1), where pt = Failing and b = "Some \<lparr>bd_delivery = d, bd_succeeded = succeeded\<rparr>"])
        (simp_all add: j(2) f block_lane_def)
  qed
next
  case (serve_step i cs c ls)
  have f: "in_turn c" "in_turn (moved_to Served c)" "busy c" using serve_step.hyps(3) by (simp_all add: in_turn_def busy_def)
  show ?case
  proof (rule stay_inv [OF serve_step.prems serve_step.hyps(1,2) f(3)])
    fix l j assume j: "j < length (calls_of (cl_key c) cs)" "calls_of (cl_key c) cs ! j = c" "lane_ok l (calls_of (cl_key c) cs)"
    have free: "la_blocked l = None" using turns_okD(1) [OF lane_okD(2) [OF j(3)] j(1)] j(2) f(1) serve_step.hyps(3) by simp
    then have "l = l\<lparr>la_blocked := None\<rparr>" by simp
    then show "lane_ok l ((calls_of (cl_key c) cs)[j := moved_to Served c])"
      by (intro fail_ok [OF j(3,1), where pt = Served and b = None]) (simp_all add: j(2) f)
  qed
next
  case (finish_step i cs c ls l)
  have f: "in_turn c" using finish_step.hyps(3) by (auto simp: in_turn_def)
  show ?case by (rule lane_region_inv [OF finish_step.prems finish_step.hyps(1,2,4)]) (metis f finish_ok)
next
  case (leave_step i cs c ls l)
  then show ?case using leave_inv by blast
next
  case (resolver_step k ls ls' cs)
  let ?c = "\<lparr>cl_key = k, cl_ticket = 0, cl_point = Resolving\<rparr>"
  obtain l where l: "mget ls k = Some l" "ls' = mput k (l\<lparr>la_users := la_users l + 1\<rparr>) ls"
    using resolver_step.hyps by (auto simp: acquireExistingLane_def split: option.splits)
  have "lane_ok (l\<lparr>la_users := la_users l + 1\<rparr>) (calls_of k cs @ [?c])"
    by (rule resolver_ok [OF own_lane(1) [OF resolver_step.prems l(1)]]) simp_all
  then show ?case using append_inv [OF resolver_step.prems, of _ ?c] by (simp add: l(2))
next
  case (resolve_step i cs c ls l handled acked err l' rejectable rejected)
  have "x \<in> set (calls_of (cl_key c) cs) \<Longrightarrow> cl_point x \<noteq> Failing" for x
    using resolve_step.hyps(5) by (auto simp: between_block_and_finish_def calls_of_def)
  then have none: "\<forall>j<length (calls_of (cl_key c) cs). cl_point (calls_of (cl_key c) cs ! j) \<noteq> Failing" by simp
  show ?case
    by (rule lane_region_inv [OF resolve_step.prems resolve_step.hyps(1,2,4)])
      (metis none resolve_ok resolve_step.hyps(3,6))
qed

lemma lane_reachable_inv: "lane_reachable True st \<Longrightarrow> lanes_inv st"
proof (induction rule: lane_reachable.induct)
  case no_lanes
  then show ?case by (simp add: lanes_inv_def calls_of_def)
qed (use lane_step_inv in blast)

end
