(* ===== verification/Subscriber_Properties.thy ===== *)
theory Subscriber_Properties
  imports Subscriber_Turns
begin

text \<open>
  The order in which the subscriber shim hands deliveries of one business key to the application: the lane of a key serves
  its calls one at a time and in the order of their arrival, and a free lane always lets the next call through; and the
  interleaving of \<open>Retry\<close> with a failing \<open>Handle\<close> that breaks this.
\<close>

section \<open>Arrival order\<close>

abbreviation holds_ticket :: "call \<Rightarrow> bool" where
  "holds_ticket c \<equiv> waiting c \<or> in_turn c"

definition by_arrival :: "call list \<Rightarrow> bool" where
  "by_arrival cs \<longleftrightarrow> (\<forall>i j. i < j \<longrightarrow> j < length cs \<longrightarrow> cl_key (cs ! i) = cl_key (cs ! j) \<longrightarrow> holds_ticket (cs ! i) \<longrightarrow> holds_ticket (cs ! j) \<longrightarrow>
     cl_ticket (cs ! i) < cl_ticket (cs ! j))"

lemma by_arrivalD:
  "by_arrival cs \<Longrightarrow> i < j \<Longrightarrow> j < length cs \<Longrightarrow> cl_key (cs ! i) = cl_key (cs ! j) \<Longrightarrow> holds_ticket (cs ! i) \<Longrightarrow> holds_ticket (cs ! j) \<Longrightarrow>
     cl_ticket (cs ! i) < cl_ticket (cs ! j)"
  unfolding by_arrival_def by blast

lemma by_arrival_update:
  assumes o: "by_arrival cs" and c: "cs ! i = c" and pt: "holds_ticket (moved_to pt c) \<longrightarrow> holds_ticket c"
  shows "by_arrival (cs[i := moved_to pt c])"
proof (cases "i < length cs")
  case True
  have m: "cl_key (cs[i := moved_to pt c] ! j) = cl_key (cs ! j) \<and> cl_ticket (cs[i := moved_to pt c] ! j) = cl_ticket (cs ! j) \<and>
      (holds_ticket (cs[i := moved_to pt c] ! j) \<longrightarrow> holds_ticket (cs ! j))" for j
    using c pt True by (cases "j = i") (auto simp: moved_to_def)
  show ?thesis unfolding by_arrival_def length_list_update using by_arrivalD [OF o] m by metis
qed (simp add: list_update_beyond o)

lemma by_arrival_append:
  assumes o: "by_arrival cs" and new: "\<And>x. x \<in> set cs \<Longrightarrow> cl_key x = cl_key c \<Longrightarrow> holds_ticket x \<Longrightarrow> holds_ticket c \<Longrightarrow> cl_ticket x < cl_ticket c"
  shows "by_arrival (cs @ [c])"
  unfolding by_arrival_def
proof (intro allI impI)
  fix i j
  assume i: "i < j" "j < length (cs @ [c])" "cl_key ((cs @ [c]) ! i) = cl_key ((cs @ [c]) ! j)" "holds_ticket ((cs @ [c]) ! i)" "holds_ticket ((cs @ [c]) ! j)"
  then have l: "i < length cs" "(cs @ [c]) ! i = cs ! i" by (auto simp: nth_append)
  show "cl_ticket ((cs @ [c]) ! i) < cl_ticket ((cs @ [c]) ! j)"
  proof (cases "j < length cs")
    case True
    then have j: "(cs @ [c]) ! j = cs ! j" by (simp add: nth_append)
    show ?thesis using by_arrivalD [OF o i(1) True] i(3-5) unfolding l(2) j by blast
  next
    case False
    then have j: "(cs @ [c]) ! j = c" using i(2) by (simp add: nth_append)
    show ?thesis using new [OF nth_mem [OF l(1)]] i(3-5) unfolding l(2) j by blast
  qed
qed

text \<open>What the invariant of a lane says of a call by its key.\<close>

lemma call_facts:
  assumes inv: "lanes_inv (ls, cs)" and l: "mget ls (cl_key x) = Some l" and x: "x \<in> set cs"
  shows "holds_ticket x \<Longrightarrow> la_serving l \<le> cl_ticket x \<and> cl_ticket x < la_next l" and "in_turn x \<Longrightarrow> cl_ticket x = la_serving l"
proof -
  have "x \<in> set (calls_of (cl_key x) cs)" using x by (simp add: calls_of_def)
  then obtain i where i: "i < length (calls_of (cl_key x) cs)" "calls_of (cl_key x) cs ! i = x" by (auto simp: in_set_conv_nth)
  note ok = lane_okD [OF own_lane(1) [OF inv l]]
  show "holds_ticket x \<Longrightarrow> la_serving l \<le> cl_ticket x \<and> cl_ticket x < la_next l" using tickets_okD(3) [OF ok(1) i(1)] i(2) by simp
  show "in_turn x \<Longrightarrow> cl_ticket x = la_serving l" using turns_okD(1) [OF ok(2) i(1)] i(2) by simp
qed

lemma holder_has_lane:
  assumes "lanes_inv (ls, cs)" and "x \<in> set cs" and "holds_ticket x"
  obtains l where "mget ls (cl_key x) = Some l"
proof -
  obtain i where "i < length cs" "cs ! i = x" using assms(2) by (auto simp: in_set_conv_nth)
  moreover have "busy x" using assms(3) by (auto simp: busy_def waiting_def in_turn_def)
  ultimately show thesis using busy_has_lane [OF assms(1)] that by metis
qed

lemma points_moved [simp]:
  "waiting (moved_to pt c) \<longleftrightarrow> pt = Queued \<or> (\<exists>chan. pt = Waiting chan)"
  "in_turn (moved_to pt c) \<longleftrightarrow> pt = Serving \<or> pt = Failing \<or> pt = Served"
  by (simp_all add: waiting_def in_turn_def moved_to_def)

lemma by_arrival_step:
  assumes "lane_step careful st st'" and "lanes_inv st" and "by_arrival (snd st)"
  shows "by_arrival (snd st')"
  using assms
proof (induction rule: lane_step.induct)
  case (arrive_step k ls t ls' cs)
  have t: "t = la_next (mget_or ls k fresh_lane)" using arrive_step.hyps by (auto simp: acquireLane_def take_ticket_def)
  show ?case
    unfolding snd_conv
  proof (rule by_arrival_append)
    fix x assume x: "x \<in> set cs" "cl_key x = cl_key \<lparr>cl_key = k, cl_ticket = t, cl_point = Queued\<rparr>" "holds_ticket x"
    obtain l where l: "mget ls (cl_key x) = Some l" using holder_has_lane [OF arrive_step.prems(1) x(1,3)] by blast
    show "cl_ticket x < cl_ticket \<lparr>cl_key = k, cl_ticket = t, cl_point = Queued\<rparr>"
      using call_facts(1) [OF arrive_step.prems(1) l x(1,3)] l x(2) by (simp add: t mget_or_def)
  qed (use arrive_step.prems(2) in simp)
next
  case (resolver_step k ls ls' cs)
  show ?case
    unfolding snd_conv
    by (rule by_arrival_append) (use resolver_step.prems(2) in \<open>auto simp: waiting_def in_turn_def\<close>)
qed (auto intro!: by_arrival_update simp: waiting_def in_turn_def)

lemma careful_runs: "lane_reachable True st \<Longrightarrow> lanes_inv st \<and> by_arrival (snd st)"
proof (induction rule: lane_reachable.induct)
  case no_lanes
  then show ?case using lane_reachable_inv [OF lane_reachable.no_lanes] by (simp add: by_arrival_def)
qed (use lane_step_inv by_arrival_step in blast)

section \<open>One turn at a time\<close>

lemma turn_is_first:
  assumes inv: "lanes_inv (ls, cs)" and ord: "by_arrival cs" and i: "i < length cs" "in_turn (cs ! i)"
    and j: "j < length cs" "cl_key (cs ! j) = cl_key (cs ! i)" "holds_ticket (cs ! j)" "j \<noteq> i"
  shows "i < j \<and> \<not> in_turn (cs ! j)"
proof -
  obtain l where l: "mget ls (cl_key (cs ! i)) = Some l" using holder_has_lane [OF inv nth_mem [OF i(1)]] i(2) by blast
  have a: "cl_ticket (cs ! i) = la_serving l" using call_facts(2) [OF inv l nth_mem [OF i(1)] i(2)] .
  have b: "la_serving l \<le> cl_ticket (cs ! j)" using call_facts(1) [OF inv _ nth_mem [OF j(1)] j(3), of l] l j(2) by simp
  have "\<not> j < i" using by_arrivalD [OF ord, of j i] i j a b by fastforce
  then have ij: "i < j" using j(4) by simp
  then have "cl_ticket (cs ! i) < cl_ticket (cs ! j)" using by_arrivalD [OF ord ij j(1)] i(2) j(2,3) by simp
  then have "\<not> in_turn (cs ! j)" using call_facts(2) [OF inv _ nth_mem [OF j(1)], of l] l j(2) a by auto
  then show ?thesis using ij by blast
qed

text \<open>A call that can proceed is served by its own next steps.\<close>

lemma queued_is_served:
  assumes i: "i < length cs" "cl_point (cs ! i) = Queued" and l: "mget ls (cl_key (cs ! i)) = Some l"
    and free: "la_blocked l = None" "cl_ticket (cs ! i) = la_serving l"
  shows "lane_step careful (ls, cs) (mput (cl_key (cs ! i)) (leave_waiters (cl_ticket (cs ! i)) l) ls, cs[i := moved_to Serving (cs ! i)])"
proof -
  have "check_turn False (cl_ticket (cs ! i)) l = (TurnGranted, leave_waiters (cl_ticket (cs ! i)) l)" using free by (simp add: check_turn_def)
  from check_step [OF i(1) refl i(2) l this, of careful] show ?thesis by (simp add: turn_point_def)
qed

lemma proceeding_is_served:
  assumes i: "i < length cs" and l: "mget ls (cl_key (cs ! i)) = Some l" and free: "la_blocked l = None"
    and p: "can_proceed l (cs ! i)" "cl_point (cs ! i) \<noteq> Waiting False"
  shows "\<exists>st. (lane_step careful)\<^sup>*\<^sup>* (ls, cs) st \<and> snd st = cs[i := moved_to Serving (cs ! i)]"
proof (cases "cl_point (cs ! i) = Queued")
  case True
  from queued_is_served [OF i True l free] p(1) have "lane_step careful (ls, cs)
      (mput (cl_key (cs ! i)) (leave_waiters (cl_ticket (cs ! i)) l) ls, cs[i := moved_to Serving (cs ! i)])" by (simp add: can_proceed_def)
  from r_into_rtranclp [of "lane_step careful", OF this] show ?thesis by (meson snd_conv)
next
  case False
  then have w: "cl_point (cs ! i) = Waiting True" "cl_ticket (cs ! i) \<in> set (la_tokens l)" "cl_ticket (cs ! i) = la_serving l"
    using p by (auto simp: can_proceed_def waiting_def)
  let ?l = "l\<lparr>la_tokens := removeAll (cl_ticket (cs ! i)) (la_tokens l)\<rparr>" and ?cs = "cs[i := moved_to Queued (cs ! i)]"
  have first: "lane_step careful (ls, cs) (mput (cl_key (cs ! i)) ?l ls, ?cs)" by (rule wake_step [OF i refl w(1) l w(2)])
  have c: "?cs ! i = moved_to Queued (cs ! i)" using i by simp
  have q: "i < length ?cs" "cl_point (?cs ! i) = Queued" "cl_ticket (?cs ! i) = la_serving ?l" "la_blocked ?l = None"
    "mget (mput (cl_key (cs ! i)) ?l ls) (cl_key (?cs ! i)) = Some ?l"
    unfolding c using i free w(3) by (simp_all add: moved_to_def)
  have e: "?cs[i := moved_to Serving (?cs ! i)] = cs[i := moved_to Serving (cs ! i)]" unfolding c by (simp add: moved_to_def)
  from converse_rtranclp_into_rtranclp [of "lane_step careful", OF first
      r_into_rtranclp [of "lane_step careful", OF queued_is_served [OF q(1,2,5,4,3)]]]
  show ?thesis unfolding e by (meson snd_conv)
qed

text \<open>On a free lane that nobody holds, the waiting call that arrived first can proceed.\<close>

lemma first_proceeds:
  assumes inv: "lanes_inv (ls, cs)" and ord: "by_arrival cs" and l: "mget ls k = Some l" "la_blocked l = None"
    and none: "\<forall>c\<in>set cs. cl_key c = k \<longrightarrow> \<not> in_turn c" and w: "x \<in> set cs" "cl_key x = k" "waiting x"
  shows "\<exists>i<length cs. cl_key (cs ! i) = k \<and> can_proceed l (cs ! i) \<and> cl_point (cs ! i) \<noteq> Waiting False \<and>
      (\<forall>j<i. \<not> (cl_key (cs ! j) = k \<and> waiting (cs ! j)))"
proof -
  note ok = lane_okD [OF own_lane(1) [OF inv l(1)]]
  have mem: "calls_of k cs ! i \<in> set cs \<and> cl_key (calls_of k cs ! i) = k" if "i < length (calls_of k cs)" for i
    using nth_mem [OF that] by (simp add: calls_of_def)
  have "cl_ticket x < la_next l" "la_serving l \<le> cl_ticket x" using call_facts(1) [OF inv _ w(1), of l] w(2,3) l(1) by simp_all
  then have "la_serving l \<noteq> la_next l" by simp
  then obtain m where m: "m < length (calls_of k cs)" "can_proceed l (calls_of k cs ! m)"
    using turns_okD(3) [OF ok(2) l(2)] none mem by blast
  obtain i where i: "i < length cs" "cs ! i = calls_of k cs ! m" using mem [OF m(1)] by (auto simp: in_set_conv_nth)
  have k: "cl_key (cs ! i) = k" "can_proceed l (cs ! i)" "cl_point (cs ! i) \<noteq> Waiting False"
    using mem [OF m(1)] m(2) tickets_okD(6) [OF ok(1) m(1)] unfolding i(2) by simp_all
  have "\<not> (cl_key (cs ! j) = k \<and> waiting (cs ! j))" if "j < i" for j
  proof
    assume j: "cl_key (cs ! j) = k \<and> waiting (cs ! j)"
    have "cl_ticket (cs ! j) < cl_ticket (cs ! i)" using by_arrivalD [OF ord that i(1)] j k(1,2) by (simp add: can_proceed_def)
    moreover have "la_serving l \<le> cl_ticket (cs ! j)" using call_facts(1) [OF inv, of "cs ! j" l] j l(1) that i(1) by simp
    ultimately show False using k(2) by (simp add: can_proceed_def)
  qed
  then show ?thesis using i(1) k by blast
qed

lemma first_is_served:
  assumes inv: "lanes_inv (ls, cs)" "by_arrival cs" and k: "mget ls k = Some l" "la_blocked l = None"
    "\<forall>c\<in>set cs. cl_key c = k \<longrightarrow> \<not> in_turn c" "\<exists>c\<in>set cs. cl_key c = k \<and> waiting c"
  shows "\<exists>i<length cs. cl_key (cs ! i) = k \<and> waiting (cs ! i) \<and> (\<forall>j<i. \<not> (cl_key (cs ! j) = k \<and> waiting (cs ! j))) \<and>
      (\<exists>st. (lane_step careful)\<^sup>*\<^sup>* (ls, cs) st \<and> snd st = cs[i := moved_to Serving (cs ! i)])"
proof -
  obtain x where x: "x \<in> set cs" "cl_key x = k" "waiting x" using k(4) by blast
  obtain i where i: "i < length cs" "cl_key (cs ! i) = k" "can_proceed l (cs ! i)" "cl_point (cs ! i) \<noteq> Waiting False"
    "\<forall>j<i. \<not> (cl_key (cs ! j) = k \<and> waiting (cs ! j))"
    using first_proceeds [OF inv k(1-3) x] by blast
  have "mget ls (cl_key (cs ! i)) = Some l" using i(2) k(1) by simp
  from proceeding_is_served [OF i(1) this k(2) i(3,4), of careful] i(1,2,5) i(3) [unfolded can_proceed_def]
  show ?thesis by blast
qed

text \<open>
  C3. The lanes of the subscriber keep the order of a business key. In every interleaving of \<open>Handle\<close>, \<open>Retry\<close> and \<open>Release\<close> calls,
  with cancellations and failures, in which no \<open>Retry\<close> or \<open>Release\<close> falls between the recording of a failure and the end of that
  turn: the call that is in the application is the only one of its key and arrived before every other call of the key that still
  waits; and when nobody is in the application for a key whose lane is not blocked, the waiting call that arrived first can
  be served by its own next steps, so no wake-up is lost.
\<close>

theorem key_is_serialized:
  assumes "lane_reachable True (ls, cs)"
  shows "(\<forall>i<length cs. \<forall>j<length cs. in_turn (cs ! i) \<and> cl_key (cs ! j) = cl_key (cs ! i) \<and> (waiting (cs ! j) \<or> in_turn (cs ! j)) \<and> j \<noteq> i \<longrightarrow>
        i < j \<and> \<not> in_turn (cs ! j)) \<and>
      (\<forall>k l. mget ls k = Some l \<and> la_blocked l = None \<and> (\<forall>c\<in>set cs. cl_key c = k \<longrightarrow> \<not> in_turn c) \<and> (\<exists>c\<in>set cs. cl_key c = k \<and> waiting c) \<longrightarrow>
        (\<exists>i<length cs. cl_key (cs ! i) = k \<and> waiting (cs ! i) \<and> (\<forall>j<i. \<not> (cl_key (cs ! j) = k \<and> waiting (cs ! j))) \<and>
          (\<exists>st. (lane_step True)\<^sup>*\<^sup>* (ls, cs) st \<and> snd st = cs[i := moved_to Serving (cs ! i)])))"
proof -
  have inv: "lanes_inv (ls, cs)" "by_arrival cs" using careful_runs [OF assms] by simp_all
  show ?thesis using turn_is_first [OF inv] first_is_served [OF inv] by blast
qed

section \<open>Concrete runs\<close>

text \<open>The states of a run on one key: its lane, and the ticket and place of every call.\<close>

definition demo_key :: laneKey where "demo_key = (''orders'', ''k'')"

definition demo_state :: "nat delivery_lane \<Rightarrow> (nat \<times> call_point) list \<Rightarrow> nat lanes \<times> call list" where
  "demo_state l ps = ([(demo_key, l)], map (\<lambda>(t, pt). \<lparr>cl_key = demo_key, cl_ticket = t, cl_point = pt\<rparr>) ps)"

lemma demo_put [simp]: "mput k v [(k, w)] = [(k, v)]" by (simp add: mput_def)

lemma demo_arrive: "lane_step careful (demo_state l ps) (demo_state (snd (take_ticket l)) (ps @ [(la_next l, Queued)]))"
  unfolding demo_state_def map_append list.map prod.case
  by (rule arrive_step) (simp add: acquireLane_def take_ticket_def mget_or_def)

lemma demo_check:
  assumes "i < length ps" and "ps ! i = (t, Queued)" and "check_turn False t l = (res, l')"
  shows "lane_step careful (demo_state l ps) (demo_state l' (ps[i := (t, turn_point res)]))"
  using check_step [of i "snd (demo_state l ps)" _ "fst (demo_state l ps)" l False res l' careful] assms
  by (simp add: demo_state_def map_update moved_to_def)

lemma demo_wake:
  assumes "i < length ps" and "ps ! i = (t, Waiting True)" and "t \<in> set (la_tokens l)"
  shows "lane_step careful (demo_state l ps) (demo_state (l\<lparr>la_tokens := removeAll t (la_tokens l)\<rparr>) (ps[i := (t, Queued)]))"
  using wake_step [of i "snd (demo_state l ps)" _ "fst (demo_state l ps)" l careful] assms
  by (simp add: demo_state_def map_update moved_to_def)

lemma demo_fail:
  assumes "i < length ps" and "ps ! i = (t, Serving)"
  shows "lane_step careful (demo_state l ps) (demo_state (block_lane d succeeded l) (ps[i := (t, Failing)]))"
  using fail_step [of i "snd (demo_state l ps)" _ "fst (demo_state l ps)" l careful d succeeded] assms
  by (simp add: demo_state_def map_update moved_to_def)

lemma demo_finish:
  assumes "i < length ps" and "ps ! i = (t, Failing)"
  shows "lane_step careful (demo_state l ps) (demo_state (finishTurn t l) (ps[i := (t, Leaving)]))"
  using finish_step [of i "snd (demo_state l ps)" _ "fst (demo_state l ps)" l careful] assms
  by (simp add: demo_state_def map_update moved_to_def)

lemma demo_resolver: "lane_step careful (demo_state l ps) (demo_state (l\<lparr>la_users := la_users l + 1\<rparr>) (ps @ [(0, Resolving)]))"
  unfolding demo_state_def map_append list.map prod.case
  by (rule resolver_step) (simp add: acquireExistingLane_def)

lemma demo_retry:
  assumes "i < length ps" and "ps ! i = (t, Resolving)" and "retry_region True True l = (err, l')"
  shows "lane_step False (demo_state l ps) (demo_state l' (ps[i := (t, Leaving)]))"
  using resolve_step [of i "snd (demo_state l ps)" _ "fst (demo_state l ps)" l False True True err l'] assms
  by (simp add: demo_state_def map_update moved_to_def)

lemma demo_start: "lane_reachable careful (demo_state (snd (take_ticket fresh_lane)) [(0, Queued)])"
proof -
  have "acquireLane demo_key [] = (0, [(demo_key, snd (take_ticket fresh_lane) :: nat delivery_lane)])"
    by (simp add: acquireLane_def take_ticket_def mget_or_def fresh_lane_def mput_def)
  from lane_moved [OF no_lanes arrive_step [OF this, of careful "[]"]] show ?thesis by (simp add: demo_state_def)
qed

lemmas demo_eval = take_ticket_def fresh_lane_def check_turn_def leave_waiters_def turn_point_def

text \<open>Three calls arrive; the first is in the application and the others wait for it.\<close>

definition demo_lane :: "nat delivery_lane" where
  "demo_lane = \<lparr>la_waiters = [2, 1], la_tokens = [], la_next = 3, la_serving = 0, la_users = 3, la_blocked = None\<rparr>"

lemma demo_served: "lane_reachable careful (demo_state demo_lane [(0, Serving), (1, Waiting True), (2, Waiting True)])"
proof -
  have "lane_reachable careful (demo_state (demo_lane\<lparr>la_waiters := [2, 1, 0]\<rparr>) [(0, Queued), (1, Queued), (2, Queued)])"
    using lane_moved [OF lane_moved [OF demo_start demo_arrive] demo_arrive, of careful] by (simp add: demo_eval demo_lane_def eval_nat_numeral)
  from lane_moved [OF this demo_check [of 0 _ 0 _ TurnGranted demo_lane]]
  have "lane_reachable careful (demo_state demo_lane [(0, Serving), (1, Queued), (2, Queued)])" by (simp add: demo_eval demo_lane_def)
  from lane_moved [OF this demo_check [of 1 _ 1 _ "TurnWait True" demo_lane]]
  have "lane_reachable careful (demo_state demo_lane [(0, Serving), (1, Waiting True), (2, Queued)])" by (simp add: demo_eval demo_lane_def)
  from lane_moved [OF this demo_check [of 2 _ 2 _ "TurnWait True" demo_lane]] show ?thesis by (simp add: demo_eval demo_lane_def)
qed

text \<open>Witness of C3: of three calls of a key the first is in the application and the others wait.\<close>

theorem key_is_serialized_witness:
  "lane_reachable True (demo_state demo_lane [(0, Serving), (1, Waiting True), (2, Waiting True)]) \<and>
   \<not> in_turn (snd (demo_state demo_lane [(0, Serving), (1, Waiting True), (2, Waiting True)]) ! 1) \<and>
   \<not> in_turn (snd (demo_state demo_lane [(0, Serving), (1, Waiting True), (2, Waiting True)]) ! 2)"
proof -
  let ?ps = "[(0, Serving), (1, Waiting True), (2, Waiting True)] :: (nat \<times> call_point) list"
  have r: "lane_reachable True (fst (demo_state demo_lane ?ps), snd (demo_state demo_lane ?ps))" using demo_served [of True] by simp
  have "in_turn (snd (demo_state demo_lane ?ps) ! 0)" "waiting (snd (demo_state demo_lane ?ps) ! 1)" "waiting (snd (demo_state demo_lane ?ps) ! 2)"
    by (auto simp: demo_state_def waiting_def in_turn_def)
  moreover have "length (snd (demo_state demo_lane ?ps)) = 3" "cl_key (snd (demo_state demo_lane ?ps) ! j) = demo_key" if "j < 3" for j
    using that by (auto simp: demo_state_def less_Suc_eq eval_nat_numeral)
  ultimately have "\<not> in_turn (snd (demo_state demo_lane ?ps) ! 1)" "\<not> in_turn (snd (demo_state demo_lane ?ps) ! 2)"
    using conjunct1 [OF key_is_serialized [OF r], rule_format, of 0 1] conjunct1 [OF key_is_serialized [OF r], rule_format, of 0 2] by force+
  then show ?thesis using demo_served [of True] by blast
qed

section \<open>A retry during a failing turn\<close>

text \<open>The failure of the first call is recorded, and \<open>Retry\<close> resolves it before the turn of that call ends.\<close>

definition demo_retried :: "nat delivery_lane" where
  "demo_retried = \<lparr>la_waiters = [2], la_tokens = [1], la_next = 3, la_serving = 1, la_users = 4, la_blocked = None\<rparr>"

lemma demo_retry_region: "retry_region True True ((block_lane d s demo_lane)\<lparr>la_users := 4\<rparr>) = (None, demo_retried)"
  by (simp add: retry_region_def block_lane_def demo_lane_def notifyServing_def notify_loop.simps demo_retried_def)

lemma demo_resolved:
  "lane_reachable False (demo_state demo_retried [(0, Failing), (1, Waiting True), (2, Waiting True), (0, Leaving)])"
proof -
  have "lane_reachable False (demo_state (block_lane 7 False demo_lane) [(0, Failing), (1, Waiting True), (2, Waiting True)])"
    using lane_moved [OF demo_served demo_fail [of 0 _ 0, where d = 7 and succeeded = False], of False] by simp
  from lane_moved [OF this demo_resolver]
  have "lane_reachable False (demo_state ((block_lane 7 False demo_lane)\<lparr>la_users := 4\<rparr>)
      [(0, Failing), (1, Waiting True), (2, Waiting True), (0, Resolving)])"
    by (simp add: block_lane_def demo_lane_def)
  from lane_moved [OF this demo_retry [of 3 _ 0, OF _ _ demo_retry_region]] show ?thesis by simp
qed

definition demo_finished :: "nat delivery_lane" where
  "demo_finished = \<lparr>la_waiters = [], la_tokens = [2], la_next = 3, la_serving = 2, la_users = 4, la_blocked = None\<rparr>"

lemma demo_both:
  "lane_reachable False (demo_state (demo_finished\<lparr>la_tokens := []\<rparr>) [(0, Leaving), (1, Serving), (2, Serving), (0, Leaving)])"
proof -
  from lane_moved [OF demo_resolved demo_wake [of 1 _ 1]]
  have "lane_reachable False (demo_state (demo_retried\<lparr>la_tokens := []\<rparr>) [(0, Failing), (1, Queued), (2, Waiting True), (0, Leaving)])"
    by (simp add: demo_retried_def)
  from lane_moved [OF this demo_check [of 1 _ 1 _ TurnGranted "demo_retried\<lparr>la_tokens := []\<rparr>"]]
  have "lane_reachable False (demo_state (demo_retried\<lparr>la_tokens := []\<rparr>) [(0, Failing), (1, Serving), (2, Waiting True), (0, Leaving)])"
    by (simp add: demo_eval demo_retried_def)
  from lane_moved [OF this demo_finish [of 0 _ 0]]
  have "lane_reachable False (demo_state demo_finished [(0, Leaving), (1, Serving), (2, Waiting True), (0, Leaving)])"
    by (simp add: finishTurn_def notifyServing_def notify_loop.simps demo_retried_def demo_finished_def eval_nat_numeral)
  from lane_moved [OF this demo_wake [of 2 _ 2]]
  have "lane_reachable False (demo_state (demo_finished\<lparr>la_tokens := []\<rparr>) [(0, Leaving), (1, Serving), (2, Queued), (0, Leaving)])"
    by (simp add: demo_finished_def)
  from lane_moved [OF this demo_check [of 2 _ 2 _ TurnGranted "demo_finished\<lparr>la_tokens := []\<rparr>"]]
  show ?thesis by (simp add: demo_eval demo_finished_def)
qed

lemma demo_lost:
  "lane_reachable False (demo_state demo_finished [(0, Leaving), (1, Waiting False), (2, Waiting True), (0, Leaving)])"
proof -
  from lane_moved [OF demo_resolved demo_wake [of 1 _ 1]]
  have "lane_reachable False (demo_state (demo_retried\<lparr>la_tokens := []\<rparr>) [(0, Failing), (1, Queued), (2, Waiting True), (0, Leaving)])"
    by (simp add: demo_retried_def)
  from lane_moved [OF this demo_finish [of 0 _ 0]]
  have "lane_reachable False (demo_state demo_finished [(0, Leaving), (1, Queued), (2, Waiting True), (0, Leaving)])"
    by (simp add: finishTurn_def notifyServing_def notify_loop.simps demo_retried_def demo_finished_def eval_nat_numeral)
  from lane_moved [OF this demo_check [of 1 _ 1 _ "TurnWait False" demo_finished]]
  show ?thesis by (simp add: demo_eval demo_finished_def)
qed

text \<open>
  C5. Without the restriction of C3 the lanes do not keep the order. \<open>Handle\<close> records a failed delivery and ends its turn in two
  separate locked regions; a \<open>Retry\<close> between them lets the next call through, and the end of the first call's turn then skips that
  call's ticket. There is a run after which two calls of one business key are in the application at the same time, and a run after
  which a call of an unblocked lane waits on a nil channel with a ticket that is already passed, which only its cancellation ends.
\<close>

theorem retry_during_failure_breaks_order:
  "(\<exists>(ls :: nat lanes) cs i j. lane_reachable False (ls, cs) \<and> i < length cs \<and> j < length cs \<and> i \<noteq> j \<and> cl_key (cs ! i) = cl_key (cs ! j) \<and>
      cl_point (cs ! i) = Serving \<and> cl_point (cs ! j) = Serving) \<and>
   (\<exists>(ls :: nat lanes) cs i l. lane_reachable False (ls, cs) \<and> i < length cs \<and> mget ls (cl_key (cs ! i)) = Some l \<and> la_blocked l = None \<and>
      cl_point (cs ! i) = Waiting False \<and> cl_ticket (cs ! i) < la_serving l)"
proof
  let ?both = "demo_state (demo_finished\<lparr>la_tokens := []\<rparr>) [(0, Leaving), (1, Serving), (2, Serving), (0, Leaving)]"
  have "lane_reachable False (fst ?both, snd ?both) \<and> 1 < length (snd ?both) \<and> 2 < length (snd ?both) \<and> (1::nat) \<noteq> 2 \<and>
      cl_key (snd ?both ! 1) = cl_key (snd ?both ! 2) \<and> cl_point (snd ?both ! 1) = Serving \<and> cl_point (snd ?both ! 2) = Serving"
    using demo_both by (simp add: demo_state_def)
  then show "\<exists>(ls :: nat lanes) cs i j. lane_reachable False (ls, cs) \<and> i < length cs \<and> j < length cs \<and> i \<noteq> j \<and> cl_key (cs ! i) = cl_key (cs ! j) \<and>
      cl_point (cs ! i) = Serving \<and> cl_point (cs ! j) = Serving" by blast
  let ?lost = "demo_state demo_finished [(0, Leaving), (1, Waiting False), (2, Waiting True), (0, Leaving)]"
  have "lane_reachable False (fst ?lost, snd ?lost) \<and> 1 < length (snd ?lost) \<and> mget (fst ?lost) (cl_key (snd ?lost ! 1)) = Some demo_finished \<and>
      la_blocked demo_finished = None \<and> cl_point (snd ?lost ! 1) = Waiting False \<and> cl_ticket (snd ?lost ! 1) < la_serving demo_finished"
    using demo_lost by (simp add: demo_state_def demo_finished_def)
  then show "\<exists>(ls :: nat lanes) cs i l. lane_reachable False (ls, cs) \<and> i < length cs \<and> mget ls (cl_key (cs ! i)) = Some l \<and> la_blocked l = None \<and>
      cl_point (cs ! i) = Waiting False \<and> cl_ticket (cs ! i) < la_serving l" by blast
qed

end
