(* ===== verification/Subscriber.thy ===== *)
theory Subscriber
  imports Snapshot Subscriber_Lanes
begin

text \<open>
  The lifecycle of the subscriber shim (\<^verbatim>\<open>shim/subscriber/subscriber.go\<close>): bindings and transitions, the consumers of each group, and
  the operations that establish, activate, pause and close them. Every operation holds \<open>lifecycleMu\<close>, so it is one function on the
  shim. The consumer factory, the consumers and the readiness reporter are interfaces: an environment answers the calls, from the
  history of the calls made so far, and chooses the order in which \<open>range\<close> visits a map. A consumer is its identity.
\<close>

section \<open>Bindings and transitions\<close>

record Binding =
  bi_group :: string
  bi_broker :: string
  bi_endpoint :: string
  bi_epoch :: u64
  bi_destination :: string

record BindingTransition =
  bt_id :: string
  bt_group :: string
  bt_source_epoch :: u64
  bt_proposed_epoch :: u64
  bt_source :: "Binding list"
  bt_proposed :: "Binding list"

datatype subscriber_error =
    InvalidBinding
  | InvalidTransition
  | NoProposedBinding
  | BindingGroupMismatch string
  | DuplicateBinding string
  | SourceBindingEpoch u64
  | ProposedBindingEpoch u64
  | ControlFailed control_error
  | TransitionPhaseRequired
  | ResolverRequired
  | Unresolved string
  | NoEndpoint string
  | PolicyFailed customer_error
  | AlgorithmMismatch
  | ErrUnexpectedContract string
  | ErrStaleTransition
  | ErrTransitionNotFound
  | ErrTransitionInProgress
  | ErrSourceCoverage "string list"
  | SourceNotEstablished subscriber_error
  | PrepareFailed string
  | ActivateFailed string
  | PauseFailed string
  | CloseFailed string
  | ResumeFailed string
  | ReportFailed
  | GroupNameRequired
  | JoinedFailures "subscriber_error list"
  | InvalidShimConfig
  | LibraryFailed customer_error
  | ErrWrongScalingGroup string string
  | ErrRoutingMetadata
  | MetadataFailed
  | MetadataMismatch
  | MetadataIncomplete
  | TopicMismatch

text \<open>\<open>errors.Join\<close>: the errors that are not nil.\<close>

definition join_errors :: "subscriber_error option list \<Rightarrow> subscriber_error option" where
  "join_errors es = (case List.map_filter (\<lambda>e. e) es of [] \<Rightarrow> None | fs \<Rightarrow> Some (JoinedFailures fs))"

definition binding_Validate :: "Binding \<Rightarrow> subscriber_error option" where
  "binding_Validate b = err_if (bi_group b = [] \<or> bi_broker b = [] \<or> bi_destination b = [] \<or> bi_epoch b = 0) InvalidBinding"

definition binding_key :: "Binding \<Rightarrow> string" where
  "binding_key b = bi_group b @ [CHR 0x00] @ bi_broker b @ [CHR 0x00] @ bi_endpoint b @ [CHR 0x00] @
     format_uint (unat (bi_epoch b)) @ [CHR 0x00] @ bi_destination b"

fun check_bindings :: "string \<Rightarrow> string list \<Rightarrow> Binding list \<Rightarrow> subscriber_error option" where
  "check_bindings g seen [] = None"
| "check_bindings g seen (b # bs) =
     first_err
       [binding_Validate b, err_if (bi_group b \<noteq> g) (BindingGroupMismatch (bi_group b)),
        err_if (binding_key b \<in> set seen) (DuplicateBinding (bi_broker b)), check_bindings g (binding_key b # seen) bs]"

definition transition_Validate :: "BindingTransition \<Rightarrow> subscriber_error option" where
  "transition_Validate t =
     first_err
       [err_if (bt_id t = [] \<or> bt_group t = [] \<or> bt_source_epoch t = 0 \<or> bt_proposed_epoch t \<le> bt_source_epoch t) InvalidTransition,
        err_if (bt_proposed t = []) NoProposedBinding,
        check_bindings (bt_group t) [] (bt_source t), check_bindings (bt_group t) [] (bt_proposed t),
        first_err (map (\<lambda>b. err_if (bi_epoch b \<noteq> bt_source_epoch t) (SourceBindingEpoch (bi_epoch b))) (bt_source t)),
        first_err (map (\<lambda>b. err_if (bi_epoch b \<noteq> bt_proposed_epoch t) (ProposedBindingEpoch (bi_epoch b))) (bt_proposed t))]"

text \<open>The destination resolver: \<open>None\<close> is an error. A nil resolver is no resolver.\<close>

type_synonym resolver = "string \<Rightarrow> u64 \<Rightarrow> DestinationInfo \<Rightarrow> string option"

definition resolve_binding :: "resolver \<Rightarrow> MembershipSnapshot \<Rightarrow> u64 \<Rightarrow> bool \<Rightarrow> string \<Rightarrow> subscriber_error + Binding" where
  "resolve_binding destination snap epoch proposed broker =
     (case destination broker epoch (ms_destination snap) of
        None \<Rightarrow> Inl (Unresolved broker)
      | Some name \<Rightarrow>
          (case BrokerEndpoint snap broker proposed of
             None \<Rightarrow> Inl (NoEndpoint broker)
           | Some endpoint \<Rightarrow> Inr \<lparr>bi_group = ms_group snap, bi_broker = broker, bi_endpoint = endpoint, bi_epoch = epoch, bi_destination = name\<rparr>))"

fun resolve_bindings :: "resolver \<Rightarrow> MembershipSnapshot \<Rightarrow> u64 \<Rightarrow> bool \<Rightarrow> membership \<Rightarrow> subscriber_error + Binding list" where
  "resolve_bindings destination snap epoch proposed [] = Inr []"
| "resolve_bindings destination snap epoch proposed (b # bs) =
     (case resolve_binding destination snap epoch proposed b of
        Inl e \<Rightarrow> Inl e
      | Inr x \<Rightarrow> (case resolve_bindings destination snap epoch proposed bs of Inl e \<Rightarrow> Inl e | Inr xs \<Rightarrow> Inr (x # xs)))"

definition TransitionFromSnapshot :: "MembershipSnapshot \<Rightarrow> resolver option \<Rightarrow> subscriber_error + BindingTransition" where
  "TransitionFromSnapshot snap destination =
     (case Validate snap of
        Some e \<Rightarrow> Inl (ControlFailed e)
      | None \<Rightarrow>
     if ms_phase snap \<noteq> CtlPrepare \<and> ms_phase snap \<noteq> CtlPaused \<and> ms_phase snap \<noteq> CtlDrain then Inl TransitionPhaseRequired
     else (case (destination, ms_transition snap) of
        (Some dest, Some tr) \<Rightarrow>
     (case resolve_bindings dest snap (tr_from tr) False (ms_current snap) of
        Inl e \<Rightarrow> Inl e
      | Inr source \<Rightarrow>
     (case resolve_bindings dest snap (tr_to tr) True (ms_proposed snap) of
        Inl e \<Rightarrow> Inl e
      | Inr proposed \<Rightarrow>
          let t = \<lparr>bt_id = tr_id tr, bt_group = ms_group snap, bt_source_epoch = tr_from tr, bt_proposed_epoch = tr_to tr,
                   bt_source = source, bt_proposed = proposed\<rparr>
          in (case transition_Validate t of Some e \<Rightarrow> Inl e | None \<Rightarrow> Inr t)))
      | _ \<Rightarrow> Inl ResolverRequired))"

definition membershipMatches :: "Binding list \<Rightarrow> membership \<Rightarrow> bool" where
  "membershipMatches bs ms \<longleftrightarrow> length bs = length ms \<and> list_all2 (\<lambda>b m. bi_broker b = m) bs ms"

section \<open>The shim and its environment\<close>

record Readiness =
  rd_participant :: string
  rd_group :: string
  rd_transition :: string
  rd_epoch :: u64
  rd_bindings :: "Binding list"
  rd_ready :: bool
  rd_reason :: string

datatype consumer_call = CallActivate nat | CallPause nat | CallClose nat | CallReport Readiness

datatype shim_event = Established Binding "string + nat" | Answered consumer_call bool

record subscriber_env =
  se_prepare :: "shim_event list \<Rightarrow> Binding \<Rightarrow> string + nat"
  se_answer :: "shim_event list \<Rightarrow> consumer_call \<Rightarrow> bool"
  se_order :: "shim_event list \<Rightarrow> string \<Rightarrow> nat \<Rightarrow> nat list"

record boundConsumer =
  bc_binding :: Binding
  bc_consumer :: nat

type_synonym consumers = "(string, boundConsumer) gomap"

text \<open>The maps from keys to true are the lists of their keys.\<close>

record preparedTransition =
  pt_spec :: BindingTransition
  pt_prepared :: consumers
  pt_activated :: "string list"
  pt_closed_source :: "string list"
  pt_closed_prepared :: "string list"
  pt_resumed_source :: "string list"
  pt_paused :: bool

record shimGroup =
  ga_active :: consumers
  ga_transition :: "preparedTransition option"

record subscriber_Contract =
  xc_hash :: string
  xc_library :: string

text \<open>\<open>sh_cleanup\<close> lists the consumers of the cleanup map; \<open>sh_calls\<close> is the history of the calls with their answers.\<close>

record 'p Shim =
  sh_participant :: string
  sh_library :: "'p CustomerLibrary"
  sh_contracts :: "(string, subscriber_Contract) gomap"
  sh_groups :: "(string, shimGroup) gomap"
  sh_cleanup :: "nat list"
  sh_calls :: "shim_event list"

record 'p subscriber_Config =
  sf_participant :: string
  sf_library :: "'p CustomerLibrary option"
  sf_dependencies :: bool
  sf_contracts :: "(string, subscriber_Contract) gomap"

text \<open>\<open>sf_dependencies\<close>: the handler, the factory and the reporter are not nil.\<close>

definition NewShim :: "'p subscriber_Config \<Rightarrow> subscriber_error + 'p Shim" where
  "NewShim c =
     (case sf_library c of
        None \<Rightarrow> Inl InvalidShimConfig
      | Some library \<Rightarrow>
          if sf_participant c = [] \<or> \<not> sf_dependencies c \<or> sf_contracts c = [] then Inl InvalidShimConfig
          else (case RoutingPolicy (cu_policy library) of
                  Inl e \<Rightarrow> Inl (PolicyFailed e)
                | Inr _ \<Rightarrow>
                    if list_ex (\<lambda>(g, k). g = [] \<or> xc_hash k = [] \<or> xc_library k = []) (sf_contracts c) then Inl InvalidShimConfig
                    else Inr \<lparr>sh_participant = sf_participant c, sh_library = library, sh_contracts = sf_contracts c,
                              sh_groups = [], sh_cleanup = [], sh_calls = []\<rparr>))"

definition ask :: "subscriber_env \<Rightarrow> consumer_call \<Rightarrow> 'p Shim \<Rightarrow> bool \<times> 'p Shim" where
  "ask e q s = (let ok = se_answer e (sh_calls s) q in (ok, s\<lparr>sh_calls := sh_calls s @ [Answered q ok]\<rparr>))"

definition establish :: "subscriber_env \<Rightarrow> Binding \<Rightarrow> 'p Shim \<Rightarrow> (string + nat) \<times> 'p Shim" where
  "establish e b s = (let r = se_prepare e (sh_calls s) b in (r, s\<lparr>sh_calls := sh_calls s @ [Established b r]\<rparr>))"

text \<open>\<open>range\<close> over a map: its entries in an order of the environment, which may differ at each loop of the code.\<close>

definition range_map :: "subscriber_env \<Rightarrow> string \<Rightarrow> 'a list \<Rightarrow> 'p Shim \<Rightarrow> 'a list" where
  "range_map e loop m s = map (nth m) (se_order e (sh_calls s) loop (length m))"

definition empty_group :: shimGroup where
  "empty_group = \<lparr>ga_active = [], ga_transition = None\<rparr>"

definition ensureGroup :: "string \<Rightarrow> 'p Shim \<Rightarrow> 'p Shim" where
  "ensureGroup g s = (if mget (sh_groups s) g = None then s\<lparr>sh_groups := mput g empty_group (sh_groups s)\<rparr> else s)"

definition group_of :: "string \<Rightarrow> 'p Shim \<Rightarrow> shimGroup" where
  "group_of g s = mget_or (sh_groups s) g empty_group"

definition put_shim_group :: "string \<Rightarrow> shimGroup \<Rightarrow> 'p Shim \<Rightarrow> 'p Shim" where
  "put_shim_group g gs s = s\<lparr>sh_groups := mput g gs (sh_groups s)\<rparr>"

text \<open>
  The cleanup map is keyed by the type and address of a consumer, which tell consumers apart that are pointers, as those of the runtime are;
  a number stands for that key.
\<close>

definition trackCleanup :: "nat \<Rightarrow> 'p Shim \<Rightarrow> 'p Shim" where
  "trackCleanup c s = s\<lparr>sh_cleanup := List.insert c (sh_cleanup s)\<rparr>"

text \<open>The pending transition of a group, and a change of it through the pointer that an operation holds.\<close>

definition pending :: "string \<Rightarrow> 'p Shim \<Rightarrow> preparedTransition option" where
  "pending g s = ga_transition (group_of g s)"

definition on_pending :: "string \<Rightarrow> (preparedTransition \<Rightarrow> preparedTransition) \<Rightarrow> 'p Shim \<Rightarrow> 'p Shim" where
  "on_pending g f s =
     (case mget (sh_groups s) g of
        None \<Rightarrow> s
      | Some gs \<Rightarrow> put_shim_group g (gs\<lparr>ga_transition := map_option f (ga_transition gs)\<rparr>) s)"

definition validateContract :: "'p Shim \<Rightarrow> string \<Rightarrow> string \<Rightarrow> string \<Rightarrow> subscriber_error option" where
  "validateContract s g hashContract libraryVersion =
     (case mget (sh_contracts s) g of
        None \<Rightarrow> Some (ErrUnexpectedContract g)
      | Some k \<Rightarrow> err_if (hashContract \<noteq> xc_hash k \<or> libraryVersion \<noteq> xc_library k) (ErrUnexpectedContract g))"

section \<open>Establishing consumers\<close>

definition addActive :: "subscriber_env \<Rightarrow> Binding \<Rightarrow> 'p Shim \<Rightarrow> subscriber_error option \<times> 'p Shim" where
  "addActive e b s =
     (case binding_Validate b of
        Some err \<Rightarrow> (Some err, s)
      | None \<Rightarrow>
     let s1 = ensureGroup (bi_group b) s in
     if mget (ga_active (group_of (bi_group b) s1)) (binding_key b) \<noteq> None then (None, s1)
     else (case establish e b s1 of
        (Inl msg, s2) \<Rightarrow> (Some (PrepareFailed msg), s2)
      | (Inr c, s2) \<Rightarrow>
     (case ask e (CallActivate c) s2 of
        (False, s3) \<Rightarrow>
          (case ask e (CallClose c) s3 of
             (True, s4) \<Rightarrow> (Some (ActivateFailed (bi_broker b)), s4)
           | (False, s4) \<Rightarrow> (Some (JoinedFailures [ActivateFailed (bi_broker b), CloseFailed (bi_broker b)]), trackCleanup c s4))
      | (True, s3) \<Rightarrow>
          let s4 = ensureGroup (bi_group b) s3; gs = group_of (bi_group b) s4 in
          if mget (ga_active gs) (binding_key b) \<noteq> None
          then (case ask e (CallClose c) s4 of
                  (True, s5) \<Rightarrow> (None, s5)
                | (False, s5) \<Rightarrow> (Some (CloseFailed (bi_broker b)), trackCleanup c s5))
          else (None, put_shim_group (bi_group b) (gs\<lparr>ga_active := mput (binding_key b) \<lparr>bc_binding = b, bc_consumer = c\<rparr> (ga_active gs)\<rparr>) s4))))"

fun addActives :: "subscriber_env \<Rightarrow> Binding list \<Rightarrow> 'p Shim \<Rightarrow> subscriber_error option \<times> 'p Shim" where
  "addActives e [] s = (None, s)"
| "addActives e (b # bs) s =
     (case addActive e b s of (Some err, s1) \<Rightarrow> (Some err, s1) | (None, s1) \<Rightarrow> addActives e bs s1)"

fun close_prepared_loop :: "subscriber_env \<Rightarrow> consumers \<Rightarrow> consumers \<Rightarrow> 'p Shim \<Rightarrow> subscriber_error list \<times> 'p Shim" where
  "close_prepared_loop e active [] s = ([], s)"
| "close_prepared_loop e active ((k, b) # bs) s =
     (if mget active k \<noteq> None then close_prepared_loop e active bs s
      else (case ask e (CallClose (bc_consumer b)) s of
              (True, s1) \<Rightarrow> close_prepared_loop e active bs s1
            | (False, s1) \<Rightarrow>
                (case close_prepared_loop e active bs (trackCleanup (bc_consumer b) s1) of
                   (errs, s2) \<Rightarrow> (CloseFailed (bi_broker (bc_binding b)) # errs, s2))))"

definition closePrepared :: "subscriber_env \<Rightarrow> consumers \<Rightarrow> consumers \<Rightarrow> 'p Shim \<Rightarrow> subscriber_error option \<times> 'p Shim" where
  "closePrepared e prepared active s =
     (case close_prepared_loop e active (range_map e ''closePrepared'' prepared s) s of (errs, s1) \<Rightarrow> (join_errors (map Some errs), s1))"

definition missingBindings :: "Binding list \<Rightarrow> consumers \<Rightarrow> string list" where
  "missingBindings required active = map bi_broker (filter (\<lambda>b. mget active (binding_key b) = None) required)"

text \<open>\<open>slices.SortFunc\<close> leaves the order of equal brokers open; they keep the order of the map here, which is open as well.\<close>

definition bindings_of :: "subscriber_env \<Rightarrow> consumers \<Rightarrow> 'p Shim \<Rightarrow> Binding list" where
  "bindings_of e m s = sort_key bi_broker (map (\<lambda>(k, b). bc_binding b) (range_map e ''bindings'' m s))"

definition readiness :: "BindingTransition \<Rightarrow> Binding list \<Rightarrow> bool \<Rightarrow> string \<Rightarrow> 'p Shim \<Rightarrow> Readiness" where
  "readiness t bs ready reason s =
     \<lparr>rd_participant = sh_participant s, rd_group = bt_group t, rd_transition = bt_id t, rd_epoch = bt_proposed_epoch t,
      rd_bindings = bs, rd_ready = ready, rd_reason = reason\<rparr>"

fun join_words :: "string list \<Rightarrow> string" where
  "join_words [] = []"
| "join_words [w] = w"
| "join_words (w # ws) = w @ '' '' @ join_words ws"

text \<open>The loop of \<open>prepare\<close> over the proposed bindings; an error stops it with the consumers prepared so far.\<close>

fun prepare_loop :: "subscriber_env \<Rightarrow> consumers \<Rightarrow> Binding list \<Rightarrow> consumers \<Rightarrow> 'p Shim \<Rightarrow> (string option \<times> consumers) \<times> 'p Shim" where
  "prepare_loop e active [] prepared s = ((None, prepared), s)"
| "prepare_loop e active (b # bs) prepared s =
     (case mget active (binding_key b) of
        Some existing \<Rightarrow> prepare_loop e active bs (mput (binding_key b) existing prepared) s
      | None \<Rightarrow>
          (case establish e b s of
             (Inl msg, s1) \<Rightarrow> ((Some msg, prepared), s1)
           | (Inr c, s1) \<Rightarrow> prepare_loop e active bs (mput (binding_key b) \<lparr>bc_binding = b, bc_consumer = c\<rparr> prepared) s1))"

definition new_pending :: "BindingTransition \<Rightarrow> consumers \<Rightarrow> preparedTransition" where
  "new_pending t prepared =
     \<lparr>pt_spec = t, pt_prepared = prepared, pt_activated = [], pt_closed_source = [], pt_closed_prepared = [], pt_resumed_source = [], pt_paused = False\<rparr>"

definition report :: "subscriber_env \<Rightarrow> Readiness \<Rightarrow> 'p Shim \<Rightarrow> subscriber_error option \<times> 'p Shim" where
  "report e r s = (case ask e (CallReport r) s of (ok, s1) \<Rightarrow> (err_if (\<not> ok) ReportFailed, s1))"

definition shim_prepare :: "subscriber_env \<Rightarrow> BindingTransition \<Rightarrow> 'p Shim \<Rightarrow> subscriber_error option \<times> 'p Shim" where
  "shim_prepare e t s =
     (case transition_Validate t of
        Some err \<Rightarrow> (Some err, s)
      | None \<Rightarrow>
     let s1 = ensureGroup (bt_group t) s; gs = group_of (bt_group t) s1; active = ga_active gs in
     (case ga_transition gs of
        Some p \<Rightarrow>
          if pt_spec p = t then report e (readiness t (bindings_of e (pt_prepared p) s1) True [] s1) s1
          else (Some ErrTransitionInProgress, s1)
      | None \<Rightarrow>
     let missing = missingBindings (bt_source t) active in
     if missing \<noteq> [] then
       (case report e (readiness t [] False (''source coverage incomplete: missing ['' @ join_words missing @ '']'') s1) s1 of
          (None, s2) \<Rightarrow> (Some (ErrSourceCoverage missing), s2)
        | (Some err, s2) \<Rightarrow> (Some (JoinedFailures [ErrSourceCoverage missing, err]), s2))
     else
     (case prepare_loop e active (bt_proposed t) [] s1 of
        ((Some msg, prepared), s2) \<Rightarrow>
          (case closePrepared e prepared active s2 of
             (closeErr, s3) \<Rightarrow>
               (case report e (readiness t (bindings_of e prepared s3) False msg s3) s3 of
                  (reportErr, s4) \<Rightarrow> (join_errors [Some (PrepareFailed msg), closeErr, reportErr], s4)))
      | ((None, prepared), s2) \<Rightarrow>
          let s3 = ensureGroup (bt_group t) s2; gs3 = group_of (bt_group t) s3 in
          (case ga_transition gs3 of
             Some _ \<Rightarrow>
               (case closePrepared e prepared active s3 of (closeErr, s4) \<Rightarrow> (join_errors [Some ErrTransitionInProgress, closeErr], s4))
           | None \<Rightarrow>
               let s4 = put_shim_group (bt_group t) (gs3\<lparr>ga_transition := Some (new_pending t prepared)\<rparr>) s3
               in report e (readiness t (bt_proposed t) True [] s4) s4))))"

section \<open>Ending a transition\<close>

text \<open>The pending transition an operation names, with its group.\<close>

definition find_pending :: "string \<Rightarrow> string \<Rightarrow> 'p Shim \<Rightarrow> subscriber_error + shimGroup \<times> preparedTransition" where
  "find_pending g i s =
     (case mget (sh_groups s) g of
        None \<Rightarrow> Inl ErrTransitionNotFound
      | Some gs \<Rightarrow>
          (case ga_transition gs of
             None \<Rightarrow> Inl ErrTransitionNotFound
           | Some t \<Rightarrow> if bt_id (pt_spec t) \<noteq> i then Inl ErrStaleTransition else Inr (gs, t)))"

fun pause_loop :: "subscriber_env \<Rightarrow> (string \<times> boundConsumer) list \<Rightarrow> 'p Shim \<Rightarrow> subscriber_error option \<times> 'p Shim" where
  "pause_loop e [] s = (None, s)"
| "pause_loop e ((k, b) # bs) s =
     (case ask e (CallPause (bc_consumer b)) s of
        (True, s1) \<Rightarrow> pause_loop e bs s1
      | (False, s1) \<Rightarrow> (Some (PauseFailed (bi_broker (bc_binding b))), s1))"

definition of_epoch :: "u64 \<Rightarrow> string \<times> boundConsumer \<Rightarrow> bool" where
  "of_epoch epoch p \<longleftrightarrow> bi_epoch (bc_binding (snd p)) = epoch"

definition pauseSource :: "subscriber_env \<Rightarrow> string \<Rightarrow> string \<Rightarrow> 'p Shim \<Rightarrow> subscriber_error option \<times> 'p Shim" where
  "pauseSource e g i s =
     (case find_pending g i s of
        Inl err \<Rightarrow> (Some err, s)
      | Inr (gs, t) \<Rightarrow>
          if pt_paused t then (None, s)
          else (case pause_loop e (filter (of_epoch (bt_source_epoch (pt_spec t))) (range_map e ''pause'' (ga_active gs) s)) s of
                  (Some err, s1) \<Rightarrow> (Some err, s1)
                | (None, s1) \<Rightarrow> (None, on_pending g (\<lambda>p. if bt_id (pt_spec p) = i then p\<lparr>pt_paused := True\<rparr> else p) s1)))"

text \<open>
  The loops of \<open>activate\<close> and \<open>rollback\<close>: each skips the entries whose key it has marked before, makes one call for each other
  entry, stops at the first failure, and marks the key after a success, so that a repetition continues where it stopped.
\<close>

fun marking_loop :: "subscriber_env \<Rightarrow> string \<Rightarrow> (preparedTransition \<Rightarrow> string list) \<Rightarrow>
    ((string list \<Rightarrow> string list) \<Rightarrow> preparedTransition \<Rightarrow> preparedTransition) \<Rightarrow> (nat \<Rightarrow> consumer_call) \<Rightarrow> (string \<Rightarrow> subscriber_error) \<Rightarrow>
    (string \<times> boundConsumer) list \<Rightarrow> 'p Shim \<Rightarrow> subscriber_error option \<times> 'p Shim" where
  "marking_loop e g marks update call failed [] s = (None, s)"
| "marking_loop e g marks update call failed ((k, b) # bs) s =
     (if (case pending g s of None \<Rightarrow> False | Some t \<Rightarrow> k \<in> set (marks t)) then marking_loop e g marks update call failed bs s
      else (case ask e (call (bc_consumer b)) s of
              (False, s1) \<Rightarrow> (Some (failed (bi_broker (bc_binding b))), s1)
            | (True, s1) \<Rightarrow> marking_loop e g marks update call failed bs (on_pending g (update (List.insert k)) s1)))"

definition shim_activate :: "subscriber_env \<Rightarrow> string \<Rightarrow> string \<Rightarrow> 'p Shim \<Rightarrow> subscriber_error option \<times> 'p Shim" where
  "shim_activate e g i s =
     (case find_pending g i s of
        Inl err \<Rightarrow> (Some err, s)
      | Inr (gs, t) \<Rightarrow>
     let prepared = pt_prepared t; active = ga_active gs; source = of_epoch (bt_source_epoch (pt_spec t)) in
     (case marking_loop e g pt_activated pt_activated_update CallActivate ActivateFailed (range_map e ''activate'' prepared s) s of
        (Some err, s1) \<Rightarrow> (Some err, s1)
      | (None, s1) \<Rightarrow>
     (case marking_loop e g pt_closed_source pt_closed_source_update CallClose CloseFailed (filter source (range_map e ''source'' active s1)) s1 of
        (Some err, s2) \<Rightarrow> (Some err, s2)
      | (None, s2) \<Rightarrow>
          let active' = foldl (\<lambda>m (k, b). mput k b m) (filter (\<lambda>p. \<not> source p) active) (range_map e ''install'' prepared s2);
              s3 = ensureGroup g s2 in
          (case pending g s3 of
             None \<Rightarrow> (Some ErrStaleTransition, s3)
           | Some t3 \<Rightarrow>
               if bt_id (pt_spec t3) \<noteq> i then (Some ErrStaleTransition, s3)
               else (None, put_shim_group g \<lparr>ga_active = active', ga_transition = None\<rparr> s3)))))"

definition shim_rollback :: "subscriber_env \<Rightarrow> string \<Rightarrow> string \<Rightarrow> 'p Shim \<Rightarrow> subscriber_error option \<times> 'p Shim" where
  "shim_rollback e g i s =
     (case find_pending g i s of
        Inl err \<Rightarrow> (Some err, s)
      | Inr (gs, t) \<Rightarrow>
     let prepared = pt_prepared t; active = ga_active gs in
     (case marking_loop e g pt_closed_prepared pt_closed_prepared_update CallClose CloseFailed
             (filter (\<lambda>(k, b). mget active k = None) (range_map e ''rollback'' prepared s)) s of
        (Some err, s1) \<Rightarrow> (Some err, s1)
      | (None, s1) \<Rightarrow>
     (case (if pt_paused t
            then marking_loop e g pt_resumed_source pt_resumed_source_update CallActivate ResumeFailed
                   (filter (of_epoch (bt_source_epoch (pt_spec t))) (range_map e ''resume'' active s1)) s1
            else (None, s1)) of
        (Some err, s2) \<Rightarrow> (Some err, s2)
      | (None, s2) \<Rightarrow>
          (case pending g s2 of
             None \<Rightarrow> (None, s2)
           | Some t2 \<Rightarrow>
               (None, if bt_id (pt_spec t2) = i then put_shim_group g (group_of g s2\<lparr>ga_transition := None\<rparr>) s2 else s2)))))"

fun obsolete_loop :: "subscriber_env \<Rightarrow> string \<Rightarrow> (string \<times> boundConsumer) list \<Rightarrow> 'p Shim \<Rightarrow> subscriber_error option \<times> 'p Shim" where
  "obsolete_loop e g [] s = (None, s)"
| "obsolete_loop e g ((k, b) # bs) s =
     (case ask e (CallClose (bc_consumer b)) s of
        (False, s1) \<Rightarrow> (Some (CloseFailed (bi_broker (bc_binding b))), s1)
      | (True, s1) \<Rightarrow>
          obsolete_loop e g bs
            (case mget (sh_groups s1) g of
               None \<Rightarrow> s1
             | Some gs \<Rightarrow>
                 (case mget (ga_active gs) k of
                    None \<Rightarrow> s1
                  | Some owned \<Rightarrow>
                      if bc_consumer owned = bc_consumer b then put_shim_group g (gs\<lparr>ga_active := mdel k (ga_active gs)\<rparr>) s1 else s1)))"

definition closeObsoleteActive :: "subscriber_env \<Rightarrow> string \<Rightarrow> string list \<Rightarrow> 'p Shim \<Rightarrow> subscriber_error option \<times> 'p Shim" where
  "closeObsoleteActive e g current s =
     (case mget (sh_groups s) g of
        None \<Rightarrow> (None, s)
      | Some gs \<Rightarrow> obsolete_loop e g (range_map e ''obsolete'' (filter (\<lambda>(k, b). k \<notin> set current) (ga_active gs)) s) s)"

section \<open>Snapshots\<close>

text \<open>The bindings of an active snapshot are resolved and added one by one.\<close>

fun bootstrap_loop :: "subscriber_env \<Rightarrow> resolver \<Rightarrow> MembershipSnapshot \<Rightarrow> membership \<Rightarrow> string list \<Rightarrow> 'p Shim \<Rightarrow>
    (subscriber_error + string list) \<times> 'p Shim" where
  "bootstrap_loop e destination snap [] current s = (Inr current, s)"
| "bootstrap_loop e destination snap (broker # bs) current s =
     (case resolve_binding destination snap (ms_epoch snap) False broker of
        Inl err \<Rightarrow> (Inl err, s)
      | Inr b \<Rightarrow>
          (case addActive e b s of
             (Some err, s1) \<Rightarrow> (Inl err, s1)
           | (None, s1) \<Rightarrow> bootstrap_loop e destination snap bs (binding_key b # current) s1))"

definition end_pending :: "subscriber_env \<Rightarrow> MembershipSnapshot \<Rightarrow> preparedTransition \<Rightarrow> 'p Shim \<Rightarrow> (subscriber_error + Binding list) \<times> 'p Shim" where
  "end_pending e snap t s =
     (if bt_proposed_epoch (pt_spec t) = ms_epoch snap \<and> membershipMatches (bt_proposed (pt_spec t)) (ms_current snap)
      then (case shim_activate e (ms_group snap) (bt_id (pt_spec t)) s of
              (Some err, s1) \<Rightarrow> (Inl err, s1) | (None, s1) \<Rightarrow> (Inr (bt_proposed (pt_spec t)), s1))
      else if bt_source_epoch (pt_spec t) = ms_epoch snap \<and> membershipMatches (bt_source (pt_spec t)) (ms_current snap)
      then (case shim_rollback e (ms_group snap) (bt_id (pt_spec t)) s of
              (Some err, s1) \<Rightarrow> (Inl err, s1) | (None, s1) \<Rightarrow> (Inr (bt_source (pt_spec t)), s1))
      else (Inl ErrStaleTransition, s))"

definition apply_active :: "subscriber_env \<Rightarrow> resolver \<Rightarrow> MembershipSnapshot \<Rightarrow> 'p Shim \<Rightarrow> subscriber_error option \<times> 'p Shim" where
  "apply_active e destination snap s =
     (case pending (ms_group snap) s of
        Some t \<Rightarrow>
          (case end_pending e snap t s of
             (Inl err, s1) \<Rightarrow> (Some err, s1)
           | (Inr target, s1) \<Rightarrow> closeObsoleteActive e (ms_group snap) (map binding_key target) s1)
      | None \<Rightarrow>
          (case bootstrap_loop e destination snap (ms_current snap) [] s of
             (Inl err, s1) \<Rightarrow> (Some err, s1)
           | (Inr current, s1) \<Rightarrow> closeObsoleteActive e (ms_group snap) current s1))"

definition check_apply :: "resolver option \<Rightarrow> MembershipSnapshot \<Rightarrow> 'p Shim \<Rightarrow> subscriber_error option" where
  "check_apply destination snap s =
     first_err
       [map_option ControlFailed (Validate snap), err_if (destination = None) ResolverRequired,
        (case RoutingPolicy (cu_policy (sh_library s)) of
           Inl err \<Rightarrow> Some (PolicyFailed err)
         | Inr policy \<Rightarrow> err_if (ms_algorithm snap \<noteq> RoutingAlgorithm policy) AlgorithmMismatch),
        validateContract s (ms_group snap) (ms_hash snap) (ms_library snap)]"

definition shim_ApplySnapshot :: "subscriber_env \<Rightarrow> resolver option \<Rightarrow> MembershipSnapshot \<Rightarrow> 'p Shim \<Rightarrow> subscriber_error option \<times> 'p Shim" where
  "shim_ApplySnapshot e destination snap s =
     (case (check_apply destination snap s, destination) of
        (None, Some dest) \<Rightarrow>
          if ms_phase snap = CtlCommitted then (None, s)
          else if ms_phase snap = CtlActive then apply_active e dest snap s
          else (case TransitionFromSnapshot snap destination of
                  Inl err \<Rightarrow> (Some err, s)
                | Inr t \<Rightarrow>
                    (case addActives e (bt_source t) s of
                       (Some err, s1) \<Rightarrow> (Some (SourceNotEstablished err), s1)
                     | (None, s1) \<Rightarrow> shim_prepare e t s1))
      | (err, _) \<Rightarrow> (err, s))"

section \<open>Closing\<close>

text \<open>The map \<open>seen\<close> of \<open>FailClosed\<close> has one entry per consumer identity.\<close>

definition group_consumers :: "shimGroup \<Rightarrow> nat list" where
  "group_consumers gs =
     map (bc_consumer \<circ> snd) (ga_active gs) @
     (case ga_transition gs of None \<Rightarrow> [] | Some t \<Rightarrow> map (bc_consumer \<circ> snd) (pt_prepared t))"

fun close_all :: "subscriber_env \<Rightarrow> nat list \<Rightarrow> 'p Shim \<Rightarrow> subscriber_error list \<times> 'p Shim" where
  "close_all e [] s = ([], s)"
| "close_all e (c # cs) s =
     (case ask e (CallClose c) s of
        (ok, s1) \<Rightarrow> (case close_all e cs s1 of (errs, s2) \<Rightarrow> ((if ok then errs else CloseFailed [] # errs), s2)))"

definition FailClosed :: "subscriber_env \<Rightarrow> string \<Rightarrow> 'p Shim \<Rightarrow> subscriber_error option \<times> 'p Shim" where
  "FailClosed e g s =
     (if g = [] then (Some GroupNameRequired, s)
      else (case mget (sh_groups s) g of
              None \<Rightarrow> (None, s)
            | Some gs \<Rightarrow>
                let seen = remdups (group_consumers gs) in
                (case close_all e (range_map e ''seen'' seen s) s of
                   (errs, s1) \<Rightarrow>
                     (join_errors (map Some errs),
                      if errs = []
                      then s1\<lparr>sh_cleanup := filter (\<lambda>c. c \<notin> set seen) (sh_cleanup s1), sh_groups := mdel g (sh_groups s1)\<rparr>
                      else s1))))"

record ownedConsumer =
  oc_group :: string
  oc_key :: string
  oc_consumer :: nat

text \<open>The consumers \<open>Close\<close> owns: those of the cleanup map, then those of every group, each identity once.\<close>

definition group_owned :: "subscriber_env \<Rightarrow> 'p Shim \<Rightarrow> string \<times> shimGroup \<Rightarrow> ownedConsumer list" where
  "group_owned e s p =
     (case p of (g, gs) \<Rightarrow>
        map (\<lambda>(k, b). \<lparr>oc_group = g, oc_key = k, oc_consumer = bc_consumer b\<rparr>)
          (range_map e (''active '' @ g) (ga_active gs) s @
           (case ga_transition gs of None \<Rightarrow> [] | Some t \<Rightarrow> range_map e (''prepared '' @ g) (pt_prepared t) s)))"

fun once_each :: "nat list \<Rightarrow> ownedConsumer list \<Rightarrow> ownedConsumer list" where
  "once_each seen [] = []"
| "once_each seen (x # xs) = (if oc_consumer x \<in> set seen then once_each seen xs else x # once_each (oc_consumer x # seen) xs)"

definition owned_list :: "subscriber_env \<Rightarrow> 'p Shim \<Rightarrow> ownedConsumer list" where
  "owned_list e s =
     once_each []
       (map (\<lambda>c. \<lparr>oc_group = [], oc_key = [], oc_consumer = c\<rparr>) (range_map e ''cleanup'' (sh_cleanup s) s) @
        concat (map (group_owned e s) (range_map e ''groups'' (sh_groups s) s)))"

definition drop_same :: "nat \<Rightarrow> string \<Rightarrow> consumers \<Rightarrow> consumers" where
  "drop_same c k m = (case mget m k of None \<Rightarrow> m | Some b \<Rightarrow> if bc_consumer b = c then mdel k m else m)"

definition forget :: "ownedConsumer \<Rightarrow> 'p Shim \<Rightarrow> 'p Shim" where
  "forget x s =
     (let s1 = s\<lparr>sh_cleanup := removeAll (oc_consumer x) (sh_cleanup s)\<rparr> in
      case mget (sh_groups s1) (oc_group x) of
        None \<Rightarrow> s1
      | Some gs \<Rightarrow>
          put_shim_group (oc_group x)
            \<lparr>ga_active = drop_same (oc_consumer x) (oc_key x) (ga_active gs),
             ga_transition = map_option (\<lambda>t. t\<lparr>pt_prepared := drop_same (oc_consumer x) (oc_key x) (pt_prepared t)\<rparr>) (ga_transition gs)\<rparr> s1)"

fun close_owned :: "subscriber_env \<Rightarrow> ownedConsumer list \<Rightarrow> 'p Shim \<Rightarrow> subscriber_error list \<times> 'p Shim" where
  "close_owned e [] s = ([], s)"
| "close_owned e (x # xs) s =
     (case ask e (CallClose (oc_consumer x)) s of
        (False, s1) \<Rightarrow> (case close_owned e xs s1 of (errs, s2) \<Rightarrow> (CloseFailed [] # errs, s2))
      | (True, s1) \<Rightarrow> close_owned e xs (forget x s1))"

definition shim_Close :: "subscriber_env \<Rightarrow> 'p Shim \<Rightarrow> subscriber_error option \<times> 'p Shim" where
  "shim_Close e s =
     (case close_owned e (owned_list e s) s of
        (errs, s1) \<Rightarrow> (join_errors (map Some errs), if errs = [] then s1\<lparr>sh_groups := [], sh_cleanup := []\<rparr> else s1))"

section \<open>Deliveries\<close>

record RoutingMetadata =
  rm_group :: string
  rm_hash :: business_hash
  rm_contract :: string
  rm_library :: string
  rm_epoch :: u64
  rm_topic :: string

text \<open>
  The checks of \<open>Handle\<close> before it takes a ticket, with the lane they choose. The metadata is \<open>None\<close> when the delivery does not
  carry it, and \<open>Some None\<close> when reading it fails.
\<close>

definition handle_lane :: "'p Shim \<Rightarrow> Binding \<Rightarrow> 'p MessageView \<Rightarrow> RoutingMetadata option option \<Rightarrow> subscriber_error + laneKey" where
  "handle_lane s b message routed =
     (case cu_group (sh_library s) message of
        Inl err \<Rightarrow> Inl (LibraryFailed err)
      | Inr g \<Rightarrow>
     if g \<noteq> bi_group b then Inl (ErrWrongScalingGroup g (bi_group b)) else
     (case cu_hash (sh_library s) message of
        Inl err \<Rightarrow> Inl (LibraryFailed err)
      | Inr h \<Rightarrow>
     (case routed of
        None \<Rightarrow> Inl ErrRoutingMetadata
      | Some None \<Rightarrow> Inl MetadataFailed
      | Some (Some m) \<Rightarrow>
     if rm_group m \<noteq> g \<or> rm_hash m \<noteq> h \<or> rm_epoch m \<noteq> bi_epoch b then Inl MetadataMismatch
     else if rm_topic m = [] \<or> rm_contract m = [] \<or> rm_library m = [] then Inl MetadataIncomplete
     else (case validateContract s g (rm_contract m) (rm_library m) of
        Some err \<Rightarrow> Inl err
      | None \<Rightarrow>
          if mv_topic message \<noteq> [] \<and> rm_topic m \<noteq> mv_topic message then Inl TopicMismatch else Inr (g, rm_hash m)))))"

end
