(* ===== verification/Subscriber_Owned.thy ===== *)
theory Subscriber_Owned
  imports Subscriber "HOL-Library.Multiset"
begin

text \<open>
  The consumers of the subscriber shim: what the operations keep of the groups, and that a consumer the factory has established is
  held by the shim until a \<open>Close\<close> of it has succeeded.
\<close>

section \<open>Maps and orders\<close>

text \<open>Each loop over a map visits every entry once.\<close>

definition fair_order :: "subscriber_env \<Rightarrow> bool" where
  "fair_order e \<longleftrightarrow> (\<forall>calls loop n. mset (se_order e calls loop n) = mset [0..<n])"

lemma range_map_mset: "fair_order e \<Longrightarrow> mset (range_map e loop m s) = mset m"
proof -
  assume "fair_order e"
  then have "mset (map (nth m) (se_order e (sh_calls s) loop (length m))) = mset (map (nth m) [0..<length m])"
    unfolding mset_map fair_order_def by simp
  then show ?thesis by (simp add: range_map_def map_nth)
qed

lemma set_range_map: "fair_order e \<Longrightarrow> set (range_map e loop m s) = set m"
  by (metis range_map_mset set_mset_mset)

lemma mput_same [simp]: "mget m k = Some v \<Longrightarrow> mput k v m = m"
  by (induction m) (auto simp: mput_def split: if_splits)

lemma mput_append: "mget m k = None \<Longrightarrow> mput k v m = m @ [(k, v)]"
  by (induction m) (auto simp: mput_def split: if_splits)

lemma mput_mput [simp]: "mput k v (mput k w m) = mput k v m"
  by (simp add: mput_def)

abbreviation mkeys :: "('k, 'v) gomap \<Rightarrow> 'k set" where
  "mkeys m \<equiv> fst ` set m"

lemma mget_None_keys: "mget m k = None \<longleftrightarrow> k \<notin> mkeys m"
  by (simp add: map_of_eq_None_iff)

lemma mkeys_mput [simp]: "mkeys (mput k v m) = insert k (mkeys m)"
proof (rule set_eqI)
  fix x show "x \<in> mkeys (mput k v m) \<longleftrightarrow> x \<in> insert k (mkeys m)"
    using mget_None_keys [of "mput k v m" x] mget_None_keys [of m x] by (auto split: if_splits)
qed

lemma mkeys_mdel [simp]: "mkeys (mdel k m) = mkeys m - {k}"
proof (rule set_eqI)
  fix x show "x \<in> mkeys (mdel k m) \<longleftrightarrow> x \<in> mkeys m - {k}"
    using mget_None_keys [of "mdel k m" x] mget_None_keys [of m x] by (auto split: if_splits)
qed

lemma values_mput: "snd ` set (mput k v m) \<subseteq> insert v (snd ` set m)"
  by (induction m) (auto simp: mput_def)

lemma in_values:
  assumes wf: "wf_map m"
  shows "v \<in> snd ` set m \<longleftrightarrow> (\<exists>k. mget m k = Some v)"
proof
  assume "v \<in> snd ` set m"
  then obtain k where "(k, v) \<in> set m" by auto
  then show "\<exists>k. mget m k = Some v" using wf wf_map_mget by metis
qed (use map_of_SomeD image_iff in \<open>metis snd_conv\<close>)

section \<open>Calls\<close>

definition established :: "shim_event list \<Rightarrow> nat set" where
  "established evs = {c. \<exists>b. Established b (Inr c) \<in> set evs}"

definition closed :: "shim_event list \<Rightarrow> nat set" where
  "closed evs = {c. Answered (CallClose c) True \<in> set evs}"

definition started :: "shim_event list \<Rightarrow> nat set" where
  "started evs = {c. Answered (CallActivate c) True \<in> set evs}"

lemma established_append [simp]: "established (xs @ ys) = established xs \<union> established ys" by (auto simp: established_def)

lemma closed_append [simp]: "closed (xs @ ys) = closed xs \<union> closed ys" by (auto simp: closed_def)

lemma started_append [simp]: "started (xs @ ys) = started xs \<union> started ys" by (auto simp: started_def)

lemma established_simps [simp]:
  "established [] = {}" "established (Answered q ok # evs) = established evs" "established (Established b (Inl msg) # evs) = established evs"
  "established (Established b (Inr c) # evs) = insert c (established evs)"
  by (auto simp: established_def)

lemma closed_simps [simp]:
  "closed [] = {}" "closed (Established b r # evs) = closed evs"
  "closed (Answered q ok # evs) = (case q of CallClose c \<Rightarrow> if ok then insert c (closed evs) else closed evs | _ \<Rightarrow> closed evs)"
  by (auto simp: closed_def split: consumer_call.splits)

section \<open>Owned consumers\<close>

definition bound_consumers :: "consumers \<Rightarrow> nat set" where
  "bound_consumers m = bc_consumer ` snd ` set m"

definition prepared_of :: "shimGroup \<Rightarrow> consumers" where
  "prepared_of gs = (case ga_transition gs of None \<Rightarrow> [] | Some t \<Rightarrow> pt_prepared t)"

definition group_holds :: "shimGroup \<Rightarrow> nat set" where
  "group_holds gs = bound_consumers (ga_active gs) \<union> bound_consumers (prepared_of gs)"

definition owns :: "'p Shim \<Rightarrow> nat \<Rightarrow> bool" where
  "owns s c \<longleftrightarrow> c \<in> set (sh_cleanup s) \<or> (\<exists>g. c \<in> group_holds (group_of g s))"

text \<open>A consumer is accounted for when the shim owns it or has closed it.\<close>

definition holds :: "'p Shim \<Rightarrow> nat \<Rightarrow> bool" where
  "holds s c \<longleftrightarrow> owns s c \<or> c \<in> closed (sh_calls s)"

definition accounted :: "'p Shim \<Rightarrow> bool" where
  "accounted s \<longleftrightarrow> (\<forall>c\<in>established (sh_calls s). holds s c)"

definition retains :: "'p Shim \<Rightarrow> 'p Shim \<Rightarrow> bool" where
  "retains s s' \<longleftrightarrow> (\<forall>c. holds s c \<longrightarrow> holds s' c) \<and> (\<forall>c\<in>established (sh_calls s'). c \<in> established (sh_calls s) \<or> holds s' c)"

lemma retains_refl [simp]: "retains s s" by (simp add: retains_def)

lemma retains_trans: "retains s s1 \<Longrightarrow> retains s1 s2 \<Longrightarrow> retains s s2"
  unfolding retains_def by blast

lemma retains_accounted: "retains s s' \<Longrightarrow> accounted s \<Longrightarrow> accounted s'"
  unfolding retains_def accounted_def by blast

lemma retainsI:
  assumes "established (sh_calls s') = established (sh_calls s)" and "\<And>c. owns s c \<Longrightarrow> holds s' c" and "closed (sh_calls s) \<subseteq> closed (sh_calls s')"
  shows "retains s s'"
  using assms unfolding retains_def holds_def by blast

text \<open>The invariant of a group: agreement of active and prepared consumers, and marks that stand for successful calls.\<close>

definition pending_ok :: "shim_event list \<Rightarrow> consumers \<Rightarrow> preparedTransition \<Rightarrow> bool" where
  "pending_ok evs active t \<longleftrightarrow> wf_map (pt_prepared t) \<and>
     (\<forall>k a p. mget active k = Some a \<longrightarrow> mget (pt_prepared t) k = Some p \<longrightarrow> a = p) \<and>
     (\<forall>k p. k \<in> set (pt_activated t) \<longrightarrow> mget (pt_prepared t) k = Some p \<longrightarrow> bc_consumer p \<in> started evs) \<and>
     (\<forall>k a. k \<in> set (pt_closed_source t) \<longrightarrow> mget active k = Some a \<longrightarrow> bc_consumer a \<in> closed evs) \<and>
     (\<forall>k p. k \<in> set (pt_closed_prepared t) \<longrightarrow> mget (pt_prepared t) k = Some p \<longrightarrow> bc_consumer p \<in> closed evs)"

definition consumers_ok :: "shim_event list \<Rightarrow> shimGroup \<Rightarrow> bool" where
  "consumers_ok evs gs \<longleftrightarrow> wf_map (ga_active gs) \<and> (\<forall>t. ga_transition gs = Some t \<longrightarrow> pending_ok evs (ga_active gs) t)"

definition shim_ok :: "'p Shim \<Rightarrow> bool" where
  "shim_ok s \<longleftrightarrow> wf_map (sh_groups s) \<and> (\<forall>g. consumers_ok (sh_calls s) (group_of g s))"

lemma pending_ok_mono: "pending_ok evs active t \<Longrightarrow> started evs \<subseteq> started evs' \<Longrightarrow> closed evs \<subseteq> closed evs' \<Longrightarrow> pending_ok evs' active t"
  unfolding pending_ok_def by blast

lemma consumers_ok_mono: "consumers_ok evs gs \<Longrightarrow> consumers_ok (evs @ new) gs"
  unfolding consumers_ok_def using pending_ok_mono [of evs _ _ "evs @ new"] by simp

lemma shim_okD: assumes "shim_ok s" shows "wf_map (sh_groups s)" and "consumers_ok (sh_calls s) (group_of g s)"
  using assms unfolding shim_ok_def by blast+

section \<open>The groups of a shim\<close>

lemma empty_group_simps [simp]: "consumers_ok evs empty_group" "group_holds empty_group = {}" "ga_active empty_group = []" "ga_transition empty_group = None"
  by (simp_all add: consumers_ok_def empty_group_def group_holds_def bound_consumers_def prepared_of_def)

lemma group_of_simps [simp]:
  "group_of g' (put_shim_group g gs s) = (if g' = g then gs else group_of g' s)" "group_of g (ensureGroup g' s) = group_of g s"
  "group_of g (s\<lparr>sh_calls := evs\<rparr>) = group_of g s" "group_of g (s\<lparr>sh_cleanup := cl\<rparr>) = group_of g s" "group_of g (trackCleanup c s) = group_of g s"
  by (simp_all add: group_of_def put_shim_group_def ensureGroup_def mget_or_def trackCleanup_def)

lemma shim_fields [simp]:
  "sh_calls (put_shim_group g gs s) = sh_calls s" "sh_calls (ensureGroup g s) = sh_calls s" "sh_calls (trackCleanup c s) = sh_calls s"
  "sh_cleanup (put_shim_group g gs s) = sh_cleanup s" "sh_cleanup (ensureGroup g s) = sh_cleanup s"
  "set (sh_cleanup (trackCleanup c s)) = insert c (set (sh_cleanup s))"
  "sh_groups (trackCleanup c s) = sh_groups s" "sh_groups (put_shim_group g gs s) = mput g gs (sh_groups s)"
  by (simp_all add: put_shim_group_def ensureGroup_def trackCleanup_def)

lemma wf_ensureGroup [simp]: "wf_map (sh_groups s) \<Longrightarrow> wf_map (sh_groups (ensureGroup g s))"
  by (simp add: ensureGroup_def)

lemma pending_simps [simp]:
  "pending g' (put_shim_group g gs s) = (if g' = g then ga_transition gs else pending g' s)" "pending g (ensureGroup g' s) = pending g s"
  "pending g (s\<lparr>sh_calls := evs\<rparr>) = pending g s" "pending g (s\<lparr>sh_cleanup := cl\<rparr>) = pending g s" "pending g (trackCleanup c s) = pending g s"
  by (simp_all add: pending_def)

lemma ask_eq: "ask e q s = (ok, s') \<Longrightarrow> s' = s\<lparr>sh_calls := sh_calls s @ [Answered q ok]\<rparr>"
  by (auto simp: ask_def Let_def)

lemma establish_eq: "establish e b s = (r, s') \<Longrightarrow> s' = s\<lparr>sh_calls := sh_calls s @ [Established b r]\<rparr>"
  by (auto simp: establish_def Let_def)

lemma find_pending_Inr:
  assumes "find_pending g i s = Inr (gs, t)"
  shows "mget (sh_groups s) g = Some gs" and "gs = group_of g s" and "pending g s = Some t" and "ga_transition gs = Some t" and "bt_id (pt_spec t) = i"
  using assms by (auto simp: find_pending_def group_of_def pending_def mget_or_def split: option.splits if_splits)

lemma on_pending_eq:
  assumes "mget (sh_groups s) g = Some gs" and "ga_transition gs = Some t"
  shows "on_pending g f s = put_shim_group g (gs\<lparr>ga_transition := Some (f t)\<rparr>) s"
  using assms by (simp add: on_pending_def)

text \<open>What a change of one group after some calls retains.\<close>

lemma calls_ok: "shim_ok s \<Longrightarrow> shim_ok (s\<lparr>sh_calls := sh_calls s @ new\<rparr>)"
  unfolding shim_ok_def using consumers_ok_mono by simp

lemma ensure_ok [simp]: "shim_ok s \<Longrightarrow> shim_ok (ensureGroup g s)"
  unfolding shim_ok_def by simp

lemma track_ok [simp]: "shim_ok s \<Longrightarrow> shim_ok (trackCleanup c s)"
  unfolding shim_ok_def by simp

lemma put_ok: "shim_ok s \<Longrightarrow> consumers_ok (sh_calls s) gs \<Longrightarrow> shim_ok (put_shim_group g gs s)"
  unfolding shim_ok_def by simp

lemma calls_retains: "established new = {} \<Longrightarrow> retains s (s\<lparr>sh_calls := sh_calls s @ new\<rparr>)"
  by (rule retainsI) (auto simp: holds_def owns_def)

lemma ensure_retains [simp]: "retains s (ensureGroup g s)"
  by (rule retainsI) (auto simp: holds_def owns_def)

lemma track_retains [simp]: "retains s (trackCleanup c s)"
  by (rule retainsI) (auto simp: holds_def owns_def)

lemma owns_put:
  assumes "owns s x" and "x \<in> group_holds (group_of g s) \<Longrightarrow> x \<in> group_holds gs"
  shows "owns (put_shim_group g gs s) x"
proof -
  have "\<exists>g'. x \<in> group_holds (group_of g' (put_shim_group g gs s))" if "x \<in> group_holds (group_of h s)" for h
    using that assms(2) by (intro exI [of _ h]) auto
  then show ?thesis using assms(1) unfolding owns_def shim_fields(4) by blast
qed

lemma put_retains:
  assumes "\<And>c. c \<in> group_holds (group_of g s) \<Longrightarrow> c \<in> group_holds gs \<or> c \<in> set (sh_cleanup s) \<or> c \<in> closed (sh_calls s)"
  shows "retains s (put_shim_group g gs s)"
proof (rule retainsI)
  fix c assume "owns s c"
  then consider "c \<in> set (sh_cleanup s)" | g' where "c \<in> group_holds (group_of g' s)" "g' \<noteq> g" | "c \<in> group_holds (group_of g s)"
    unfolding owns_def by blast
  then show "holds (put_shim_group g gs s) c"
  proof cases
    case 2
    then have "owns (put_shim_group g gs s) c" unfolding owns_def by (intro disjI2 exI [of _ g']) simp
    then show ?thesis by (simp add: holds_def)
  next
    case 3
    from assms [OF this] have "owns (put_shim_group g gs s) c \<or> c \<in> closed (sh_calls s)" unfolding owns_def by (metis group_of_simps(1) shim_fields(4))
    then show ?thesis by (simp add: holds_def)
  qed (simp add: holds_def owns_def)
qed simp_all

section \<open>Loops that mark what they have done\<close>

text \<open>A set of marks of a pending transition: reading it after a change of it, and changing it twice.\<close>

locale mark_field =
  fixes marks :: "preparedTransition \<Rightarrow> string list"
    and update :: "(string list \<Rightarrow> string list) \<Rightarrow> preparedTransition \<Rightarrow> preparedTransition"
  assumes marks_update: "marks (update f t) = f (marks t)"
    and update_update: "update f (update h t) = update (\<lambda>x. f (h x)) t"
    and update_same: "update (\<lambda>_. marks t) t = t"
begin

lemma loop_result:
  assumes "marking_loop e g marks update call failed items s = (err, s')" and "mget (sh_groups s) g = Some gs" and "ga_transition gs = Some t"
  shows "\<exists>ms new. s' = put_shim_group g (gs\<lparr>ga_transition := Some (update (\<lambda>_. ms) t)\<rparr>) (s\<lparr>sh_calls := sh_calls s @ new\<rparr>) \<and>
      set (marks t) \<subseteq> set ms \<and> (err = None \<longrightarrow> fst ` set items \<subseteq> set ms) \<and>
      (\<forall>ev\<in>set new. \<exists>p\<in>set items. \<exists>ok. ev = Answered (call (bc_consumer (snd p))) ok) \<and>
      (\<forall>k\<in>set ms. k \<in> set (marks t) \<or> (\<exists>b. (k, b) \<in> set items \<and> Answered (call (bc_consumer b)) True \<in> set new))"
  using assms
proof (induction items arbitrary: s gs t)
  case Nil
  have "s = put_shim_group g (gs\<lparr>ga_transition := Some (update (\<lambda>_. marks t) t)\<rparr>) (s\<lparr>sh_calls := sh_calls s @ []\<rparr>)"
    using Nil.prems(2,3) by (simp add: put_shim_group_def update_same)
  then show ?case using Nil.prems(1) by (intro exI [of _ "marks t"] exI [of _ "[]"]) simp
next
  case (Cons p items)
  obtain k b where p: "p = (k, b)" by (cases p)
  have pend: "pending g s = Some t" using Cons.prems(2,3) by (simp add: pending_def group_of_def mget_or_def)
  show ?case
  proof (cases "k \<in> set (marks t)")
    case True
    then have "marking_loop e g marks update call failed items s = (err, s')" using Cons.prems(1) by (simp add: p pend)
    from Cons.IH [OF this Cons.prems(2,3)] obtain ms new where n:
      "s' = put_shim_group g (gs\<lparr>ga_transition := Some (update (\<lambda>_. ms) t)\<rparr>) (s\<lparr>sh_calls := sh_calls s @ new\<rparr>)"
      "set (marks t) \<subseteq> set ms" "err = None \<longrightarrow> fst ` set items \<subseteq> set ms"
      "\<forall>ev\<in>set new. \<exists>p\<in>set items. \<exists>ok. ev = Answered (call (bc_consumer (snd p))) ok"
      "\<forall>k\<in>set ms. k \<in> set (marks t) \<or> (\<exists>b. (k, b) \<in> set items \<and> Answered (call (bc_consumer b)) True \<in> set new)" by blast
    have "err = None \<longrightarrow> fst ` set (p # items) \<subseteq> set ms" using n(2,3) True p by auto
    then show ?thesis using n by (intro exI [of _ ms] exI [of _ new]) fastforce
  next
    case False
    obtain ok s1 where a: "ask e (call (bc_consumer b)) s = (ok, s1)" by (cases "ask e (call (bc_consumer b)) s")
    note s1 = ask_eq [OF a]
    show ?thesis
    proof (cases ok)
      case no: False
      have "s' = s1" "err \<noteq> None" using Cons.prems(1) False by (auto simp: p pend a no)
      moreover have "s1 = put_shim_group g (gs\<lparr>ga_transition := Some (update (\<lambda>_. marks t) t)\<rparr>) (s\<lparr>sh_calls := sh_calls s @ [Answered (call (bc_consumer b)) ok]\<rparr>)"
        using Cons.prems(2,3) s1 by (simp add: put_shim_group_def update_same)
      ultimately show ?thesis by (intro exI [of _ "marks t"] exI [of _ "[Answered (call (bc_consumer b)) ok]"]) (auto simp: p)
    next
      case yes: True
      let ?t = "update (List.insert k) t" and ?gs = "gs\<lparr>ga_transition := Some (update (List.insert k) t)\<rparr>"
      have g1: "mget (sh_groups s1) g = Some gs" using Cons.prems(2) s1 by simp
      have "marking_loop e g marks update call failed items (on_pending g (update (List.insert k)) s1) = (err, s')"
        using Cons.prems(1) False by (simp add: p pend a yes)
      then have l: "marking_loop e g marks update call failed items (put_shim_group g ?gs s1) = (err, s')"
        by (simp add: on_pending_eq [OF g1 Cons.prems(3)])
      have g2: "mget (sh_groups (put_shim_group g ?gs s1)) g = Some ?gs" "ga_transition ?gs = Some ?t" by simp_all
      from Cons.IH [OF l g2] obtain ms new where n:
        "s' = put_shim_group g (?gs\<lparr>ga_transition := Some (update (\<lambda>_. ms) ?t)\<rparr>) (put_shim_group g ?gs s1\<lparr>sh_calls := sh_calls s1 @ new\<rparr>)"
        "set (marks ?t) \<subseteq> set ms" "err = None \<longrightarrow> fst ` set items \<subseteq> set ms"
        "\<forall>ev\<in>set new. \<exists>p\<in>set items. \<exists>ok. ev = Answered (call (bc_consumer (snd p))) ok"
        "\<forall>k\<in>set ms. k \<in> set (marks ?t) \<or> (\<exists>b. (k, b) \<in> set items \<and> Answered (call (bc_consumer b)) True \<in> set new)" by auto
      let ?new = "Answered (call (bc_consumer b)) True # new"
      have "s' = put_shim_group g (gs\<lparr>ga_transition := Some (update (\<lambda>_. ms) t)\<rparr>) (s\<lparr>sh_calls := sh_calls s @ ?new\<rparr>)"
        unfolding n(1) s1 by (simp add: put_shim_group_def update_update yes)
      moreover have m: "set (marks ?t) = insert k (set (marks t))" by (simp add: marks_update)
      moreover have "\<forall>ev\<in>set ?new. \<exists>p\<in>set (p # items). \<exists>ok. ev = Answered (call (bc_consumer (snd p))) ok" using n(4) p by auto
      moreover have "\<forall>j\<in>set ms. j \<in> set (marks t) \<or> (\<exists>b. (j, b) \<in> set (p # items) \<and> Answered (call (bc_consumer b)) True \<in> set ?new)"
        using n(5) m p by fastforce
      moreover have "err = None \<longrightarrow> fst ` set (p # items) \<subseteq> set ms" using n(2,3) m p by auto
      ultimately show ?thesis using n(2) by (intro exI [of _ ms] exI [of _ ?new]) blast
    qed
  qed
qed

end

interpretation activated_marks: mark_field pt_activated pt_activated_update by unfold_locales simp_all

interpretation source_marks: mark_field pt_closed_source pt_closed_source_update by unfold_locales simp_all

interpretation prepared_marks: mark_field pt_closed_prepared pt_closed_prepared_update by unfold_locales simp_all

interpretation resumed_marks: mark_field pt_resumed_source pt_resumed_source_update by unfold_locales simp_all

end
