(* ===== verification/Subscriber_Lifecycle.thy ===== *)
theory Subscriber_Lifecycle
  imports Subscriber_Owned
begin

text \<open>
  The operations of the subscriber shim, one by one: each retains the invariant of the groups and every consumer it was responsible
  for. The theories that follow put them together.
\<close>

section \<open>Adding active consumers\<close>

text \<open>
  A key is reused when it is not active but is prepared by the pending transition of its group, or marked as closed there.
\<close>

definition reused_key :: "Binding \<Rightarrow> 'p Shim \<Rightarrow> bool" where
  "reused_key b s \<longleftrightarrow> mget (ga_active (group_of (bi_group b) s)) (binding_key b) = None \<and>
     (case pending (bi_group b) s of
        None \<Rightarrow> False
      | Some t \<Rightarrow> mget (pt_prepared t) (binding_key b) \<noteq> None \<or> binding_key b \<in> set (pt_closed_source t))"

definition with_active :: "Binding \<Rightarrow> nat \<Rightarrow> shimGroup \<Rightarrow> shimGroup" where
  "with_active b c gs = gs\<lparr>ga_active := mput (binding_key b) \<lparr>bc_binding = b, bc_consumer = c\<rparr> (ga_active gs)\<rparr>"

lemma addActive_cases:
  assumes "addActive e b s = (err, s')"
  obtains "err \<noteq> None" "s' = s"
  | "err = None" "s' = ensureGroup (bi_group b) s" "mget (ga_active (group_of (bi_group b) s)) (binding_key b) \<noteq> None"
  | msg where "err \<noteq> None" "s' = ensureGroup (bi_group b) s\<lparr>sh_calls := sh_calls s @ [Established b (Inl msg)]\<rparr>"
  | c where "err \<noteq> None" "s' = ensureGroup (bi_group b) s\<lparr>sh_calls := sh_calls s @ [Established b (Inr c), Answered (CallActivate c) False, Answered (CallClose c) True]\<rparr>"
  | c where "err \<noteq> None" "s' = trackCleanup c (ensureGroup (bi_group b) s\<lparr>sh_calls := sh_calls s @ [Established b (Inr c), Answered (CallActivate c) False, Answered (CallClose c) False]\<rparr>)"
  | c where "err = None" "s' = put_shim_group (bi_group b) (with_active b c (group_of (bi_group b) s))
        (ensureGroup (bi_group b) s\<lparr>sh_calls := sh_calls s @ [Established b (Inr c), Answered (CallActivate c) True]\<rparr>)"
      "mget (ga_active (group_of (bi_group b) s)) (binding_key b) = None"
proof (cases "binding_Validate b")
  case (Some x)
  then have "err = Some x" "s' = s" using assms by (simp_all add: addActive_def)
  then show thesis using that(1) by simp
next
  case valid: None
  let ?s = "ensureGroup (bi_group b) s"
  show thesis
  proof (cases "mget (ga_active (group_of (bi_group b) s)) (binding_key b)")
    case Some
    then show thesis using assms valid that(2) by (simp add: addActive_def Let_def)
  next
    case new: None
    obtain r s2 where r: "establish e b ?s = (r, s2)" by (cases "establish e b ?s")
    note s2 = establish_eq [OF r]
    show thesis
    proof (cases r)
      case (Inl msg)
      have "err \<noteq> None" "s' = s2" using assms valid new Inl by (auto simp: addActive_def Let_def r)
      then show thesis using that(3) [of msg] s2 Inl by simp
    next
      case (Inr c)
      obtain ok s3 where a: "ask e (CallActivate c) s2 = (ok, s3)" by (cases "ask e (CallActivate c) s2")
      note s3 = ask_eq [OF a]
      show thesis
      proof (cases ok)
        case no: False
        obtain ok' s4 where q: "ask e (CallClose c) s3 = (ok', s4)" by (cases "ask e (CallClose c) s3")
        note s4 = ask_eq [OF q]
        show thesis
        proof (cases ok')
          case True
          then have "err \<noteq> None" "s' = s4" using assms valid new by (auto simp: addActive_def Let_def r Inr a no q)
          then show thesis using that(4) [of c] s2 s3 s4 Inr no True by simp
        next
          case False
          then have "err \<noteq> None" "s' = trackCleanup c s4" using assms valid new by (auto simp: addActive_def Let_def r Inr a no q)
          then show thesis using that(5) [of c] s2 s3 s4 Inr no False by simp
        qed
      next
        case yes: True
        have exists: "mget (sh_groups s3) (bi_group b) \<noteq> None" by (simp add: s2 s3 ensureGroup_def)
        then have same: "ensureGroup (bi_group b) s3 = s3" by (auto simp: ensureGroup_def)
        have gs: "group_of (bi_group b) s3 = group_of (bi_group b) s" by (simp add: s2 s3)
        have "err = None" "s' = put_shim_group (bi_group b) (with_active b c (group_of (bi_group b) s)) s3"
          using assms valid new by (simp_all add: addActive_def Let_def r Inr a yes with_active_def same gs)
        then show thesis using new that(6) [of c] s2 s3 Inr yes by simp
      qed
    qed
  qed
qed

text \<open>Adding a consumer leaves pending transitions alone and retains active entries.\<close>

definition grows :: "'p Shim \<Rightarrow> 'p Shim \<Rightarrow> bool" where
  "grows s s' \<longleftrightarrow> (\<forall>g. pending g s' = pending g s) \<and> (\<forall>g k a. mget (ga_active (group_of g s)) k = Some a \<longrightarrow> mget (ga_active (group_of g s')) k = Some a)"

lemma grows_refl [simp]: "grows s s" by (simp add: grows_def)

lemma grows_trans: "grows s s1 \<Longrightarrow> grows s1 s2 \<Longrightarrow> grows s s2"
  unfolding grows_def by simp

lemma grows_reused:
  assumes "grows s s'" and "\<not> reused_key b s"
  shows "\<not> reused_key b s'"
proof -
  have p: "pending (bi_group b) s' = pending (bi_group b) s" using assms(1) by (simp add: grows_def)
  have "mget (ga_active (group_of (bi_group b) s')) (binding_key b) = None \<Longrightarrow> mget (ga_active (group_of (bi_group b) s)) (binding_key b) = None"
    using assms(1) unfolding grows_def by (metis not_None_eq)
  then show ?thesis using assms(2) unfolding reused_key_def p by blast
qed

lemma addActive_grows:
  assumes "addActive e b s = (err, s')"
  shows "grows s s'" and "err = None \<Longrightarrow> mget (ga_active (group_of (bi_group b) s')) (binding_key b) \<noteq> None"
    and "err = None \<Longrightarrow> mget (sh_groups s') (bi_group b) \<noteq> None"
proof -
  show "grows s s'" using assms by (cases rule: addActive_cases) (auto simp: grows_def with_active_def pending_def)
  show "mget (ga_active (group_of (bi_group b) s')) (binding_key b) \<noteq> None" if "err = None"
    using assms that by (cases rule: addActive_cases) (auto simp: with_active_def)
  show "mget (sh_groups s') (bi_group b) \<noteq> None" if "err = None"
    using assms that by (cases rule: addActive_cases) (auto simp: ensureGroup_def)
qed

lemma with_active_ok:
  assumes "consumers_ok evs gs" and "mget (ga_active gs) (binding_key b) = None"
    and "\<And>t. ga_transition gs = Some t \<Longrightarrow> mget (pt_prepared t) (binding_key b) = None \<and> binding_key b \<notin> set (pt_closed_source t)"
  shows "consumers_ok evs (with_active b c gs)"
  using assms unfolding consumers_ok_def pending_ok_def by (auto simp: with_active_def split: if_splits)

lemma with_active_holds:
  "mget (ga_active gs) (binding_key b) = None \<Longrightarrow> group_holds (with_active b c gs) = insert c (group_holds gs)"
  by (auto simp: mput_append with_active_def group_holds_def bound_consumers_def prepared_of_def)

lemma addActive_ok:
  assumes ok: "shim_ok s" and a: "addActive e b s = (err, s')" and fresh: "\<not> reused_key b s"
  shows "shim_ok s' \<and> retains s s'"
  using a
proof (cases rule: addActive_cases)
  case (3 msg)
  have "retains s s'" unfolding 3(2) using retains_trans [OF ensure_retains [of s "bi_group b"] calls_retains [of "[Established b (Inl msg)]"]] by simp
  then show ?thesis using calls_ok [OF ensure_ok [OF ok, of "bi_group b"], of "[Established b (Inl msg)]"] unfolding 3(2) by simp
next
  case (4 c)
  let ?new = "[Established b (Inr c), Answered (CallActivate c) False, Answered (CallClose c) True]"
  have "retains s s'" unfolding 4(2) by (auto simp: retains_def holds_def owns_def)
  then show ?thesis using calls_ok [OF ensure_ok [OF ok, of "bi_group b"], of ?new] unfolding 4(2) by simp
next
  case (5 c)
  let ?new = "[Established b (Inr c), Answered (CallActivate c) False, Answered (CallClose c) False]"
  have "retains s s'" unfolding 5(2) by (auto simp: retains_def holds_def owns_def)
  then show ?thesis using track_ok [OF calls_ok [OF ensure_ok [OF ok, of "bi_group b"], of ?new], of c] unfolding 5(2) by simp
next
  case (6 c)
  let ?g = "bi_group b" and ?new = "[Established b (Inr c), Answered (CallActivate c) True]"
  have "consumers_ok (sh_calls s @ ?new) (with_active b c (group_of ?g s))"
    by (rule with_active_ok [OF consumers_ok_mono [OF shim_okD(2) [OF ok]] 6(3)]) (use fresh 6(3) in \<open>auto simp: reused_key_def pending_def\<close>)
  then have "shim_ok s'" unfolding 6(2) by (intro put_ok) (use calls_ok [OF ensure_ok [OF ok, of ?g], of ?new] in simp_all)
  moreover have "retains s s'"
  proof -
    have holds: "group_holds (with_active b c (group_of ?g s)) = insert c (group_holds (group_of ?g s))" using with_active_holds [OF 6(3)] .
    have "owns s' x \<longleftrightarrow> x = c \<or> owns s x" for x
      unfolding 6(2) owns_def by (simp add: holds) (metis (full_types) holds insert_iff)
    then show ?thesis unfolding retains_def holds_def by (auto simp: 6(2))
  qed
  ultimately show ?thesis ..
qed (use ok in simp_all)

lemma addActives_result:
  assumes "shim_ok s" and "addActives e bs s = (err, s')" and "\<forall>b\<in>set bs. \<not> reused_key b s"
  shows "shim_ok s' \<and> retains s s' \<and> grows s s' \<and> (err = None \<longrightarrow> (\<forall>b\<in>set bs. mget (ga_active (group_of (bi_group b) s')) (binding_key b) \<noteq> None))"
  using assms
proof (induction bs arbitrary: s)
  case (Cons b bs)
  obtain err1 s1 where a: "addActive e b s = (err1, s1)" by (cases "addActive e b s")
  note ok = addActive_ok [OF Cons.prems(1) a] and g = addActive_grows [OF a]
  show ?case
  proof (cases err1)
    case None
    then have l: "addActives e bs s1 = (err, s')" using Cons.prems(2) a by simp
    have "\<forall>b\<in>set bs. \<not> reused_key b s1" using Cons.prems(3) grows_reused [OF g(1)] by simp
    from Cons.IH [OF _ l this] ok Cons.prems(3)
    have n: "shim_ok s'" "retains s1 s'" "grows s1 s'" "err = None \<longrightarrow> (\<forall>b\<in>set bs. mget (ga_active (group_of (bi_group b) s')) (binding_key b) \<noteq> None)"
      by auto
    have "mget (ga_active (group_of (bi_group b) s')) (binding_key b) \<noteq> None"
      using g(2) [OF None] n(3) unfolding grows_def by (metis not_None_eq)
    then show ?thesis using n ok Cons.prems(3) retains_trans grows_trans [OF g(1) n(3)] by auto
  next
    case (Some x)
    then show ?thesis using Cons.prems(2,3) ok g(1) a by auto
  qed
qed simp

section \<open>Preparing a transition\<close>

text \<open>Calls that establish nothing and at most extend the cleanup map.\<close>

definition calls_only :: "'p Shim \<Rightarrow> 'p Shim \<Rightarrow> bool" where
  "calls_only s s' \<longleftrightarrow> (\<exists>new cl. s' = s\<lparr>sh_calls := sh_calls s @ new, sh_cleanup := cl\<rparr> \<and> set (sh_cleanup s) \<subseteq> set cl \<and> established new = {})"

lemma calls_onlyI: "established new = {} \<Longrightarrow> calls_only s (s\<lparr>sh_calls := sh_calls s @ new\<rparr>)"
  unfolding calls_only_def by (intro exI [of _ new] exI [of _ "sh_cleanup s"]) simp

lemma calls_only_refl [simp]: "calls_only s s"
  using calls_onlyI [of "[]" s] by simp

lemma calls_only_track: "calls_only s (trackCleanup c s)"
  unfolding calls_only_def by (intro exI [of _ "[]"] exI [of _ "List.insert c (sh_cleanup s)"]) (auto simp: trackCleanup_def)

lemma calls_only_trans: "calls_only s s1 \<Longrightarrow> calls_only s1 s2 \<Longrightarrow> calls_only s s2"
proof -
  assume "calls_only s s1" "calls_only s1 s2"
  then obtain new cl new' cl' where n: "s1 = s\<lparr>sh_calls := sh_calls s @ new, sh_cleanup := cl\<rparr>" "set (sh_cleanup s) \<subseteq> set cl" "established new = {}"
    "s2 = s1\<lparr>sh_calls := sh_calls s1 @ new', sh_cleanup := cl'\<rparr>" "set (sh_cleanup s1) \<subseteq> set cl'" "established new' = {}" unfolding calls_only_def by blast
  then show ?thesis unfolding calls_only_def by (intro exI [of _ "new @ new'"] exI [of _ cl']) auto
qed

lemma calls_only_result:
  assumes "calls_only s s'"
  shows "shim_ok s \<Longrightarrow> shim_ok s'" and "retains s s'" and "group_of g s' = group_of g s" and "sh_groups s' = sh_groups s"
    and "set (sh_cleanup s) \<subseteq> set (sh_cleanup s')" and "closed (sh_calls s) \<subseteq> closed (sh_calls s')" and "pending g s' = pending g s"
    and "established (sh_calls s') = established (sh_calls s)"
proof -
  obtain new cl where n: "s' = s\<lparr>sh_calls := sh_calls s @ new, sh_cleanup := cl\<rparr>" "set (sh_cleanup s) \<subseteq> set cl" "established new = {}"
    using assms unfolding calls_only_def by blast
  show "shim_ok s \<Longrightarrow> shim_ok s'" using consumers_ok_mono unfolding shim_ok_def n(1) by simp
  show "retains s s'" using n(2,3) unfolding n(1) retains_def holds_def owns_def by auto
qed (use assms in \<open>auto simp: calls_only_def pending_def\<close>)

lemma ask_only: "ask e q s = (ok, s') \<Longrightarrow> calls_only s s'"
  using ask_eq calls_onlyI [of "[Answered q ok]"] by fastforce

lemma report_only: "report e r s = (err, s') \<Longrightarrow> calls_only s s'"
  using ask_only by (auto simp: report_def split: prod.splits)

lemma close_prepared_loop_result:
  assumes "close_prepared_loop e active items s = (errs, s')"
  shows "calls_only s s' \<and> (\<forall>p\<in>set items. mget active (fst p) = None \<longrightarrow> bc_consumer (snd p) \<in> closed (sh_calls s') \<union> set (sh_cleanup s'))"
  using assms
proof (induction items arbitrary: s errs)
  case (Cons p items)
  obtain k b where p: "p = (k, b)" by (cases p)
  show ?case
  proof (cases "mget active k")
    case (Some a)
    then show ?thesis using Cons by (auto simp: p)
  next
    case None
    obtain ok s1 where a: "ask e (CallClose (bc_consumer b)) s = (ok, s1)" by (cases "ask e (CallClose (bc_consumer b)) s")
    note s1 = ask_eq [OF a]
    define s2 where "s2 = (if ok then s1 else trackCleanup (bc_consumer b) s1)"
    have l: "\<exists>es. close_prepared_loop e active items s2 = (es, s')" using Cons.prems None by (auto simp: p a s2_def split: prod.splits if_splits bool.splits)
    have c: "calls_only s s2" using ask_only [OF a] calls_only_trans [OF ask_only [OF a] calls_only_track] unfolding s2_def by (cases ok) simp_all
    have m: "bc_consumer b \<in> closed (sh_calls s2) \<union> set (sh_cleanup s2)" by (simp add: s2_def s1)
    from l obtain es where l: "close_prepared_loop e active items s2 = (es, s')" ..
    note i = Cons.IH [OF l]
    have "bc_consumer b \<in> closed (sh_calls s') \<union> set (sh_cleanup s')" using m calls_only_result(5,6) [of s2 s'] i by blast
    then show ?thesis using i calls_only_trans [OF c] by (auto simp: p)
  qed
qed simp

lemma closePrepared_result:
  assumes "fair_order e" and "closePrepared e prepared active s = (err, s')"
  shows "calls_only s s' \<and> (\<forall>k b. mget prepared k = Some b \<longrightarrow> mget active k = None \<longrightarrow> bc_consumer b \<in> closed (sh_calls s') \<union> set (sh_cleanup s'))"
proof -
  obtain errs where l: "close_prepared_loop e active (range_map e ''closePrepared'' prepared s) s = (errs, s')"
    using assms(2) by (auto simp: closePrepared_def split: prod.splits)
  from close_prepared_loop_result [OF l] show ?thesis
    unfolding set_range_map [OF assms(1)] using map_of_SomeD by (metis fst_conv snd_conv)
qed

text \<open>The consumers made by the loop of \<open>prepare\<close> are prepared under keys that are not active.\<close>

lemma prepare_loop_result:
  assumes "prepare_loop e active bs prepared s = ((err, p'), s')" and "wf_map prepared" and "distinct (map binding_key bs)"
    and "\<And>b. b \<in> set bs \<Longrightarrow> mget prepared (binding_key b) = None"
    and "\<And>k p. mget prepared k = Some p \<Longrightarrow> mget active k = None \<or> mget active k = Some p"
  shows "\<exists>new. s' = s\<lparr>sh_calls := sh_calls s @ new\<rparr> \<and> wf_map p' \<and>
      (\<forall>k p. mget prepared k = Some p \<longrightarrow> mget p' k = Some p) \<and>
      (\<forall>k p. mget p' k = Some p \<longrightarrow> mget active k = None \<or> mget active k = Some p) \<and>
      (\<forall>c\<in>established new. \<exists>k p. mget p' k = Some p \<and> bc_consumer p = c \<and> mget active k = None) \<and>
      (err = None \<longrightarrow> (\<forall>b\<in>set bs. mget p' (binding_key b) \<noteq> None))"
  using assms
proof (induction bs arbitrary: prepared s)
  case Nil
  then show ?case by (intro exI [of _ "[]"]) simp
next
  case (Cons b bs)
  show ?case
  proof (cases "mget active (binding_key b)")
    case (Some a)
    let ?p = "mput (binding_key b) a prepared"
    have l: "prepare_loop e active bs ?p s = ((err, p'), s')" using Cons.prems(1) Some by simp
    have "mget ?p (binding_key x) = None" if x: "x \<in> set bs" for x
    proof -
      have "binding_key x \<noteq> binding_key b" using Cons.prems(3) x by (auto simp: image_iff)
      then show ?thesis using Cons.prems(4) [of x] x by simp
    qed
    moreover have "\<And>k p. mget ?p k = Some p \<Longrightarrow> mget active k = None \<or> mget active k = Some p" using Cons.prems(5) Some by (auto split: if_splits)
    ultimately obtain new where n: "s' = s\<lparr>sh_calls := sh_calls s @ new\<rparr>" "wf_map p'"
      "\<forall>k p. mget ?p k = Some p \<longrightarrow> mget p' k = Some p" "\<forall>k p. mget p' k = Some p \<longrightarrow> mget active k = None \<or> mget active k = Some p"
      "\<forall>c\<in>established new. \<exists>k p. mget p' k = Some p \<and> bc_consumer p = c \<and> mget active k = None"
      "err = None \<longrightarrow> (\<forall>b\<in>set bs. mget p' (binding_key b) \<noteq> None)"
      using Cons.IH [OF l] Cons.prems(2,3) by auto
    have "mget p' (binding_key b) = Some a" using n(3) by simp
    moreover have "\<forall>k p. mget prepared k = Some p \<longrightarrow> mget p' k = Some p" using n(3) Cons.prems(4) [of b] by (metis list.set_intros(1) mget_mput option.discI)
    ultimately show ?thesis using n by (intro exI [of _ new]) auto
  next
    case None
    obtain r s1 where r: "establish e b s = (r, s1)" by (cases "establish e b s")
    note s1 = establish_eq [OF r]
    show ?thesis
    proof (cases r)
      case (Inl msg)
      then have "s' = s1" "p' = prepared" "err \<noteq> None" using Cons.prems(1) None r by auto
      then show ?thesis using Cons.prems(2,5) s1 Inl by (intro exI [of _ "[Established b r]"]) auto
    next
      case (Inr c)
      let ?x = "\<lparr>bc_binding = b, bc_consumer = c\<rparr>" let ?p = "mput (binding_key b) ?x prepared"
      have l: "prepare_loop e active bs ?p s1 = ((err, p'), s')" using Cons.prems(1) None r Inr by simp
      have "mget ?p (binding_key x) = None" if x: "x \<in> set bs" for x
    proof -
      have "binding_key x \<noteq> binding_key b" using Cons.prems(3) x by (auto simp: image_iff)
      then show ?thesis using Cons.prems(4) [of x] x by simp
    qed
      moreover have "\<And>k p. mget ?p k = Some p \<Longrightarrow> mget active k = None \<or> mget active k = Some p" using Cons.prems(5) None by (auto split: if_splits)
      ultimately obtain new where n: "s' = s1\<lparr>sh_calls := sh_calls s1 @ new\<rparr>" "wf_map p'"
        "\<forall>k p. mget ?p k = Some p \<longrightarrow> mget p' k = Some p" "\<forall>k p. mget p' k = Some p \<longrightarrow> mget active k = None \<or> mget active k = Some p"
        "\<forall>c\<in>established new. \<exists>k p. mget p' k = Some p \<and> bc_consumer p = c \<and> mget active k = None"
        "err = None \<longrightarrow> (\<forall>b\<in>set bs. mget p' (binding_key b) \<noteq> None)"
        using Cons.IH [OF l] Cons.prems(2,3) by auto
      have p: "mget p' (binding_key b) = Some ?x" using n(3) by simp
      moreover have "\<forall>k p. mget prepared k = Some p \<longrightarrow> mget p' k = Some p" using n(3) Cons.prems(4) [of b] by (metis list.set_intros(1) mget_mput option.discI)
      moreover have "\<forall>d\<in>established (Established b r # new). \<exists>k p. mget p' k = Some p \<and> bc_consumer p = d \<and> mget active k = None"
        using n(5) p None Inr by (auto intro: exI [of _ "binding_key b"])
      moreover have "s' = s\<lparr>sh_calls := sh_calls s @ Established b r # new\<rparr>" using n(1) s1 by simp
      ultimately show ?thesis using n(2,4,6) by (intro exI [of _ "Established b r # new"]) auto
    qed
  qed
qed

lemma check_bindings_None:
  "check_bindings g seen bs = None \<Longrightarrow> distinct (map binding_key bs) \<and> (\<forall>b\<in>set bs. binding_key b \<notin> set seen \<and> bi_group b = g)"
proof (induction bs arbitrary: seen)
  case (Cons b bs)
  then have c: "bi_group b = g" "binding_key b \<notin> set seen" "check_bindings g (binding_key b # seen) bs = None" by simp_all
  from Cons.IH [OF c(3)] have "binding_key b \<notin> binding_key ` set bs" by force
  then show ?case using Cons.IH [OF c(3)] c(1,2) by simp
qed simp

lemma transition_Validate_None:
  assumes "transition_Validate t = None"
  shows "distinct (map binding_key (bt_proposed t))" and "\<forall>b\<in>set (bt_source t). bi_group b = bt_group t \<and> bi_epoch b = bt_source_epoch t"
    and "\<forall>b\<in>set (bt_proposed t). bi_group b = bt_group t \<and> bi_epoch b = bt_proposed_epoch t" and "bt_source_epoch t < bt_proposed_epoch t"
  using assms check_bindings_None [of "bt_group t" "[]"] by (auto simp: transition_Validate_def first_err_map_None)

text \<open>A pending transition is covered when it is valid, its sources are active and its proposed bindings are prepared.\<close>

definition pending_covered :: "shimGroup \<Rightarrow> preparedTransition \<Rightarrow> bool" where
  "pending_covered gs t \<longleftrightarrow> transition_Validate (pt_spec t) = None \<and> (\<forall>b\<in>set (bt_source (pt_spec t)). mget (ga_active gs) (binding_key b) \<noteq> None) \<and>
     (\<forall>b\<in>set (bt_proposed (pt_spec t)). mget (pt_prepared t) (binding_key b) \<noteq> None)"

definition covered :: "'p Shim \<Rightarrow> bool" where
  "covered s \<longleftrightarrow> (\<forall>g t. pending g s = Some t \<longrightarrow> pending_covered (group_of g s) t)"

lemma grows_covered:
  assumes "grows s s'" and "covered s"
  shows "covered s'"
  unfolding covered_def
proof (intro allI impI)
  fix g t assume t: "pending g s' = Some t"
  then have "pending_covered (group_of g s) t" using assms unfolding grows_def covered_def by simp
  then show "pending_covered (group_of g s') t" using assms(1) unfolding grows_def pending_covered_def by (metis not_None_eq)
qed

text \<open>Failed preparations close what they prepared; the cleanup map retains the rest.\<close>

lemma failed_prepare:
  assumes fair: "fair_order e" and ok: "shim_ok s" and p: "prepare_loop e (ga_active (group_of g s)) bs [] s = ((err, prepared), s2)"
    and d: "distinct (map binding_key bs)" and c: "closePrepared e prepared (ga_active (group_of g s)) s2 = (err', s3)"
  shows "shim_ok s3 \<and> retains s s3 \<and> sh_groups s3 = sh_groups s"
proof -
  let ?active = "ga_active (group_of g s)"
  obtain new where n: "s2 = s\<lparr>sh_calls := sh_calls s @ new\<rparr>"
    "\<forall>c\<in>established new. \<exists>k p. mget prepared k = Some p \<and> bc_consumer p = c \<and> mget ?active k = None"
    using prepare_loop_result [OF p] d by auto
  note r = closePrepared_result [OF fair c]
  note co = calls_only_result [OF conjunct1 [OF r]]
  have "holds s3 x" if "x \<in> established new" for x
  proof -
    from bspec [OF n(2) that] obtain k q where "mget prepared k = Some q" "bc_consumer q = x" "mget ?active k = None" by (elim exE conjE)
    then have "x \<in> closed (sh_calls s3) \<union> set (sh_cleanup s3)" using r by blast
    then show ?thesis by (auto simp: holds_def owns_def)
  qed
  moreover have "holds s x \<Longrightarrow> holds s3 x" for x
  proof -
    assume "holds s x"
    then have "holds s2 x" unfolding n(1) by (auto simp: holds_def owns_def)
    then show ?thesis using co(2) by (simp add: retains_def)
  qed
  moreover have "established (sh_calls s3) = established (sh_calls s) \<union> established new" using co(8) n(1) by simp
  ultimately have "retains s s3" unfolding retains_def by blast
  moreover have "shim_ok s2" using calls_ok [OF ok] n(1) by simp
  ultimately show ?thesis using co(1,4) n(1) by simp
qed

lemma new_pending_ok:
  assumes "wf_map prepared" and "\<forall>k p. mget prepared k = Some p \<longrightarrow> mget (ga_active gs) k = None \<or> mget (ga_active gs) k = Some p" and "consumers_ok evs gs"
  shows "consumers_ok evs (gs\<lparr>ga_transition := Some (new_pending t prepared)\<rparr>)"
proof -
  have "a = p" if "mget (ga_active gs) k = Some a" "mget prepared k = Some p" for k a p using assms(2) that by fastforce
  then show ?thesis using assms(1,3) by (simp add: consumers_ok_def pending_ok_def new_pending_def)
qed

text \<open>The outcome of \<open>prepare\<close>: nothing changes in the groups, or the transition becomes pending.\<close>

definition prepared_result :: "BindingTransition \<Rightarrow> 'p Shim \<Rightarrow> 'p Shim \<Rightarrow> bool" where
  "prepared_result t s s' \<longleftrightarrow> shim_ok s' \<and> retains s s' \<and>
     ((\<forall>g. group_of g s' = group_of g s) \<or>
      (\<exists>prepared. ga_transition (group_of (bt_group t) s) = None \<and>
         (\<forall>g. group_of g s' = (if g = bt_group t then group_of g s\<lparr>ga_transition := Some (new_pending t prepared)\<rparr> else group_of g s)) \<and>
         pending_covered (group_of (bt_group t) s) (new_pending t prepared)))"

lemma prepared_unchanged:
  assumes "shim_ok s" and "calls_only (ensureGroup g s) s'"
  shows "prepared_result t s s'"
  using calls_only_result(1-3) [OF assms(2)] assms(1) retains_trans [OF ensure_retains] unfolding prepared_result_def by auto

lemma prepare_succeeds:
  assumes ok: "shim_ok s" and v: "transition_Validate t = None" and none: "ga_transition (group_of (bt_group t) s) = None"
    and cover: "missingBindings (bt_source t) (ga_active (group_of (bt_group t) s)) = []"
    and p: "prepare_loop e (ga_active (group_of (bt_group t) s)) (bt_proposed t) [] s = ((None, prepared), s2)"
    and s4: "calls_only (put_shim_group (bt_group t) (group_of (bt_group t) s\<lparr>ga_transition := Some (new_pending t prepared)\<rparr>) (ensureGroup (bt_group t) s2)) s4"
  shows "prepared_result t s s4"
proof -
  let ?g = "bt_group t" let ?gs = "group_of ?g s\<lparr>ga_transition := Some (new_pending t prepared)\<rparr>" let ?s3 = "put_shim_group ?g ?gs (ensureGroup ?g s2)"
  obtain new where n: "s2 = s\<lparr>sh_calls := sh_calls s @ new\<rparr>" "wf_map prepared"
    "\<forall>k p. mget prepared k = Some p \<longrightarrow> mget (ga_active (group_of ?g s)) k = None \<or> mget (ga_active (group_of ?g s)) k = Some p"
    "\<forall>c\<in>established new. \<exists>k p. mget prepared k = Some p \<and> bc_consumer p = c \<and> mget (ga_active (group_of ?g s)) k = None"
    "\<forall>b\<in>set (bt_proposed t). mget prepared (binding_key b) \<noteq> None"
    using prepare_loop_result [OF p] transition_Validate_None(1) [OF v] by auto
  have "shim_ok ?s3"
    by (rule put_ok) (use calls_ok [OF ok, of new] n(1) new_pending_ok [OF n(2,3) consumers_ok_mono [OF shim_okD(2) [OF ok]]] in simp_all)
  moreover have "retains s ?s3"
  proof -
    have "group_holds (group_of ?g s) \<subseteq> group_holds ?gs" using none by (auto simp: group_holds_def prepared_of_def bound_consumers_def)
    then have "owns s x \<Longrightarrow> owns ?s3 x" for x using n(1) by (intro owns_put) (auto simp: owns_def)
    moreover have "owns ?s3 x" if "x \<in> established new" for x
    proof -
      from bspec [OF n(4) that] obtain k q where "mget prepared k = Some q" "bc_consumer q = x" by (elim exE conjE)
      then have "x \<in> group_holds ?gs" using map_of_SomeD by (force simp: group_holds_def prepared_of_def bound_consumers_def new_pending_def)
      then show ?thesis unfolding owns_def by (intro disjI2 exI [of _ ?g]) simp
    qed
    ultimately show ?thesis unfolding retains_def holds_def by (auto simp: n(1))
  qed
  moreover have "pending_covered (group_of ?g s) (new_pending t prepared)"
    using cover n(5) v by (auto simp: pending_covered_def new_pending_def missingBindings_def filter_empty_conv)
  ultimately show ?thesis
    unfolding prepared_result_def using calls_only_result(1-3) [OF s4] retains_trans none n(1) by (intro conjI disjI2 exI [of _ prepared]) auto
qed

lemma shim_prepare_result:
  assumes fair: "fair_order e" and ok: "shim_ok s" and p: "shim_prepare e t s = (err, s')"
  shows "prepared_result t s s'"
proof (cases "transition_Validate t")
  case (Some x)
  then show ?thesis using p ok by (simp add: shim_prepare_def prepared_result_def)
next
  case v: None
  let ?g = "bt_group t" and ?s1 = "ensureGroup (bt_group t) s"
  let ?active = "ga_active (group_of ?g s)"
  show ?thesis
  proof (cases "ga_transition (group_of ?g s)")
    case (Some q)
    have "calls_only ?s1 s'" using p v Some report_only by (auto simp: shim_prepare_def Let_def split: if_splits)
    then show ?thesis by (rule prepared_unchanged [OF ok])
  next
    case none: None
    show ?thesis
    proof (cases "missingBindings (bt_source t) ?active = []")
      case False
      then have "calls_only ?s1 s'" using p v none report_only by (auto simp: shim_prepare_def Let_def split: prod.splits option.splits)
      then show ?thesis by (rule prepared_unchanged [OF ok])
    next
      case cover: True
      obtain err2 prepared s2 where l: "prepare_loop e ?active (bt_proposed t) [] ?s1 = ((err2, prepared), s2)"
        by (metis prod.exhaust)
      have d: "distinct (map binding_key (bt_proposed t))" using transition_Validate_None(1) [OF v] .
      have l1: "prepare_loop e (ga_active (group_of ?g ?s1)) (bt_proposed t) [] ?s1 = ((err2, prepared), s2)" using l by simp
      obtain new where s2: "s2 = ?s1\<lparr>sh_calls := sh_calls ?s1 @ new\<rparr>" using prepare_loop_result [OF l] d by auto
      have k: "prepared_result t s s'" if "prepared_result t ?s1 s'"
        using that retains_trans [OF ensure_retains] unfolding prepared_result_def by auto
      show ?thesis
      proof (cases err2)
        case (Some msg)
        obtain err3 s3 where c: "closePrepared e prepared ?active s2 = (err3, s3)" by (cases "closePrepared e prepared ?active s2")
        have f: "shim_ok s3 \<and> retains ?s1 s3 \<and> sh_groups s3 = sh_groups ?s1"
          using failed_prepare [OF fair ensure_ok [OF ok] l1 d] c by simp
        have "calls_only s3 s'" using p v none cover l Some c report_only by (auto simp: shim_prepare_def Let_def split: prod.splits)
        from calls_only_result(1-4) [OF this] f have "shim_ok s'" "retains ?s1 s'" "sh_groups s' = sh_groups ?s1" using retains_trans by auto
        then show ?thesis by (intro k) (simp add: prepared_result_def group_of_def)
      next
        case None
        let ?s4 = "put_shim_group ?g (group_of ?g ?s1\<lparr>ga_transition := Some (new_pending t prepared)\<rparr>) (ensureGroup ?g s2)"
        have "calls_only ?s4 s'" using p v none cover l None s2 report_only by (auto simp: shim_prepare_def Let_def)
        then show ?thesis using prepare_succeeds [OF ensure_ok [OF ok] v _ _ l1 [unfolded None]] none cover by (intro k) simp
      qed
    qed
  qed
qed

end
