(* ===== verification/Subscriber_Cutover.thy ===== *)
theory Subscriber_Cutover
  imports Subscriber_Lifecycle
begin

text \<open>
  The operations of the subscriber shim that end a transition or close consumers: pausing, activation, rollback, the closing of
  obsolete consumers, \<open>FailClosed\<close> and \<open>Close\<close>.
\<close>

section \<open>Maps\<close>

lemma mget_filter:
  assumes "wf_map m"
  shows "mget (filter P m) k = (case mget m k of None \<Rightarrow> None | Some v \<Rightarrow> if P (k, v) then Some v else None)"
  using assms
proof (induction m)
  case (Cons p m)
  then show ?case by (cases p) (auto simp: wf_map_def map_of_eq_None_iff image_iff split: option.splits if_splits)
qed simp

lemma wf_map_filter: "wf_map m \<Longrightarrow> wf_map (filter P m)"
  by (simp add: wf_map_def distinct_map_filter)

lemma foldl_mput:
  "distinct (map fst items) \<Longrightarrow> mget (foldl (\<lambda>m (k, b). mput k b m) m0 items) k = (case mget items k of None \<Rightarrow> mget m0 k | Some v \<Rightarrow> Some v)"
proof (induction items arbitrary: m0)
  case (Cons p items)
  obtain k0 v where p: "p = (k0, v)" by (cases p)
  have "mget items k0 = None" using Cons.prems p by (simp add: map_of_eq_None_iff)
  then show ?case using Cons p by (cases "k = k0") (simp_all split: option.split)
qed simp

lemma wf_foldl_mput: "wf_map m0 \<Longrightarrow> wf_map (foldl (\<lambda>m (k, b). mput k b m) m0 items)"
  by (induction items arbitrary: m0) auto

lemma range_map_mget:
  assumes "fair_order e" and "wf_map m"
  shows "distinct (map fst (range_map e loop m s))" and "mget (range_map e loop m s) = mget m"
proof -
  have m: "mset (range_map e loop m s) = mset m" using range_map_mset [OF assms(1)] .
  then have "mset (map fst (range_map e loop m s)) = mset (map fst m)" by simp
  then show d: "distinct (map fst (range_map e loop m s))" using assms(2) by (metis mset_eq_imp_distinct_iff wf_map_def)
  show "mget (range_map e loop m s) = mget m"
    by (rule map_of_inject_set [THEN iffD2, OF d]) (use assms(2) m mset_eq_setD in \<open>auto simp: wf_map_def\<close>)
qed

section \<open>Changes of marks\<close>

text \<open>The groups differ in the marks of their pending transitions only.\<close>

definition remarks :: "'p Shim \<Rightarrow> 'p Shim \<Rightarrow> bool" where
  "remarks s s' \<longleftrightarrow> (\<forall>g. ga_active (group_of g s') = ga_active (group_of g s) \<and>
     rel_option (\<lambda>t t'. pt_spec t' = pt_spec t \<and> pt_prepared t' = pt_prepared t) (pending g s) (pending g s'))"

lemma remarks_calls: "calls_only s s' \<Longrightarrow> remarks s s'"
  using calls_only_result(3,7) [of s s'] by (simp add: remarks_def option.rel_refl)

lemma remarks_covered: "remarks s s' \<Longrightarrow> covered s \<Longrightarrow> covered s'"
  unfolding covered_def
proof (intro allI impI)
  fix g t' assume r: "remarks s s'" and c: "\<forall>g t. pending g s = Some t \<longrightarrow> pending_covered (group_of g s) t" and t': "pending g s' = Some t'"
  obtain t where t: "pending g s = Some t" "pt_spec t' = pt_spec t" "pt_prepared t' = pt_prepared t"
    using r [unfolded remarks_def, rule_format, of g] t' by (auto simp: option_rel_Some2)
  have "ga_active (group_of g s') = ga_active (group_of g s)" using r by (simp add: remarks_def)
  then show "pending_covered (group_of g s') t'" using c t unfolding pending_covered_def by simp
qed

lemma put_marks:
  assumes "pending g s = Some t" and "pt_spec t' = pt_spec t" and "pt_prepared t' = pt_prepared t"
  shows "remarks s (put_shim_group g (group_of g s\<lparr>ga_transition := Some t'\<rparr>) (s\<lparr>sh_calls := evs\<rparr>))"
    and "established new = {} \<Longrightarrow> retains s (put_shim_group g (group_of g s\<lparr>ga_transition := Some t'\<rparr>) (s\<lparr>sh_calls := sh_calls s @ new\<rparr>))"
proof -
  have t: "ga_transition (group_of g s) = Some t" using assms(1) by (simp add: pending_def)
  show "remarks s (put_shim_group g (group_of g s\<lparr>ga_transition := Some t'\<rparr>) (s\<lparr>sh_calls := evs\<rparr>))"
    using assms by (simp add: remarks_def option.rel_refl)
  have same: "group_holds (group_of g s\<lparr>ga_transition := Some t'\<rparr>) = group_holds (group_of g s)" using t assms(3) by (simp add: group_holds_def prepared_of_def)
  show "retains s (put_shim_group g (group_of g s\<lparr>ga_transition := Some t'\<rparr>) (s\<lparr>sh_calls := sh_calls s @ new\<rparr>))" if "established new = {}"
    by (rule retains_trans [OF calls_retains [OF that] put_retains]) (simp add: same)
qed

text \<open>The loops of pausing make calls only.\<close>

lemma pause_loop_only: "pause_loop e items s = (err, s') \<Longrightarrow> calls_only s s'"
proof (induction items arbitrary: s)
  case (Cons p items)
  obtain k b where p: "p = (k, b)" by (cases p)
  obtain ok s1 where a: "ask e (CallPause (bc_consumer b)) s = (ok, s1)" by (cases "ask e (CallPause (bc_consumer b)) s")
  show ?case
  proof (cases ok)
    case True
    then have "pause_loop e items s1 = (err, s')" using Cons.prems by (simp add: p a)
    then show ?thesis using Cons.IH calls_only_trans [OF ask_only [OF a]] by blast
  next
    case False
    then show ?thesis using Cons.prems ask_only [OF a] by (simp add: p a)
  qed
qed simp

lemma pauseSource_result:
  assumes ok: "shim_ok s" and p: "pauseSource e g i s = (err, s')"
  shows "shim_ok s' \<and> retains s s' \<and> remarks s s'"
proof (cases "find_pending g i s")
  case (Inl x)
  then show ?thesis using p ok remarks_calls [of s s] by (simp add: pauseSource_def)
next
  case (Inr x)
  obtain gs t where x: "find_pending g i s = Inr (gs, t)" using Inr by (cases x) simp
  note f = find_pending_Inr [OF x]
  show ?thesis
  proof (cases "pt_paused t")
    case True
    then show ?thesis using p ok remarks_calls [of s s] x by (simp add: pauseSource_def)
  next
    case False
    obtain err1 s1 where l: "pause_loop e (filter (of_epoch (bt_source_epoch (pt_spec t))) (range_map e ''pause'' (ga_active gs) s)) s = (err1, s1)"
      by (metis prod.exhaust)
    note c = pause_loop_only [OF l] note r = calls_only_result [OF c]
    show ?thesis
    proof (cases err1)
      case (Some y)
      then show ?thesis using p x False l r(1,2) ok remarks_calls [OF c] by (simp add: pauseSource_def)
    next
      case None
      let ?t = "t\<lparr>pt_paused := True\<rparr>" and ?gs = "group_of g s1"
      have g1: "mget (sh_groups s1) g = Some gs" "gs = ?gs" "pending g s1 = Some t" using f(1-3) r(3,4,7) by simp_all
      have s': "s' = put_shim_group g (?gs\<lparr>ga_transition := Some ?t\<rparr>) (s1\<lparr>sh_calls := sh_calls s1 @ []\<rparr>)"
        using p x False l None on_pending_eq [OF g1(1) f(4)] f(5) g1(2) by (simp add: pauseSource_def)
      have "pending_ok (sh_calls s1) (ga_active ?gs) t" using shim_okD(2) [OF r(1) [OF ok], of g] f(4) g1(2) by (simp add: consumers_ok_def)
      then have "consumers_ok (sh_calls s1) (?gs\<lparr>ga_transition := Some ?t\<rparr>)"
        using shim_okD(2) [OF r(1) [OF ok], of g] by (simp add: consumers_ok_def pending_ok_def)
      then have "shim_ok s'" unfolding s' using put_ok [OF r(1) [OF ok]] by simp
      moreover have m: "remarks s1 s'" unfolding s' by (rule put_marks(1) [OF g1(3)]) simp_all
      moreover have "retains s1 s'" unfolding s' by (rule put_marks(2) [OF g1(3)]) simp_all
      moreover have "remarks s s'" using m r(3,7) by (simp add: remarks_def)
      ultimately show ?thesis using retains_trans [OF r(2)] by blast
    qed
  qed
qed

section \<open>Activation\<close>

text \<open>One marking loop on the pending transition of a group, for a kind of mark that stands for successful calls.\<close>

lemma activate_marks_ok:
  assumes ok: "consumers_ok evs gs" and t: "ga_transition gs = Some t"
    and ms: "\<forall>k\<in>set ms. k \<in> set (pt_activated t) \<or> (\<exists>b. (k, b) \<in> set (pt_prepared t) \<and> Answered (CallActivate (bc_consumer b)) True \<in> set new)"
  shows "consumers_ok (evs @ new) (gs\<lparr>ga_transition := Some (t\<lparr>pt_activated := ms\<rparr>)\<rparr>)"
proof -
  have p: "pending_ok evs (ga_active gs) t" and wf: "wf_map (ga_active gs)" using ok t by (simp_all add: consumers_ok_def)
  have "bc_consumer p \<in> started (evs @ new)" if k: "k \<in> set ms" "mget (pt_prepared t) k = Some p" for k p
  proof (cases "k \<in> set (pt_activated t)")
    case True
    then show ?thesis using p k(2) by (simp add: pending_ok_def)
  next
    case False
    then obtain b where b: "(k, b) \<in> set (pt_prepared t)" "Answered (CallActivate (bc_consumer b)) True \<in> set new" using ms k(1) by blast
    have "b = p" using p b(1) k(2) wf_map_mget by (fastforce simp: pending_ok_def)
    then show ?thesis using b(2) by (simp add: started_def)
  qed
  then show ?thesis using pending_ok_mono [OF p, of "evs @ new"] wf by (simp add: consumers_ok_def pending_ok_def)
qed

lemma source_marks_ok:
  assumes ok: "consumers_ok evs gs" and t: "ga_transition gs = Some t"
    and ms: "\<forall>k\<in>set ms. k \<in> set (pt_closed_source t) \<or> (\<exists>b. (k, b) \<in> set (ga_active gs) \<and> Answered (CallClose (bc_consumer b)) True \<in> set new)"
  shows "consumers_ok (evs @ new) (gs\<lparr>ga_transition := Some (t\<lparr>pt_closed_source := ms\<rparr>)\<rparr>)"
proof -
  have p: "pending_ok evs (ga_active gs) t" and wf: "wf_map (ga_active gs)" using ok t by (simp_all add: consumers_ok_def)
  have "bc_consumer p \<in> closed (evs @ new)" if k: "k \<in> set ms" "mget (ga_active gs) k = Some p" for k p
  proof (cases "k \<in> set (pt_closed_source t)")
    case True
    then show ?thesis using p k(2) by (simp add: pending_ok_def)
  next
    case False
    then obtain b where b: "(k, b) \<in> set (ga_active gs)" "Answered (CallClose (bc_consumer b)) True \<in> set new" using ms k(1) by blast
    have "b = p" using wf b(1) k(2) wf_map_mget by fastforce
    then show ?thesis using b(2) by (simp add: closed_def)
  qed
  then show ?thesis using pending_ok_mono [OF p, of "evs @ new"] wf by (simp add: consumers_ok_def pending_ok_def)
qed

lemma prepared_marks_ok:
  assumes ok: "consumers_ok evs gs" and t: "ga_transition gs = Some t"
    and ms: "\<forall>k\<in>set ms. k \<in> set (pt_closed_prepared t) \<or> (\<exists>b. (k, b) \<in> set (pt_prepared t) \<and> Answered (CallClose (bc_consumer b)) True \<in> set new)"
  shows "consumers_ok (evs @ new) (gs\<lparr>ga_transition := Some (t\<lparr>pt_closed_prepared := ms\<rparr>)\<rparr>)"
proof -
  have p: "pending_ok evs (ga_active gs) t" and wf: "wf_map (ga_active gs)" using ok t by (simp_all add: consumers_ok_def)
  have "bc_consumer p \<in> closed (evs @ new)" if k: "k \<in> set ms" "mget (pt_prepared t) k = Some p" for k p
  proof (cases "k \<in> set (pt_closed_prepared t)")
    case True
    then show ?thesis using p k(2) by (simp add: pending_ok_def)
  next
    case False
    then obtain b where b: "(k, b) \<in> set (pt_prepared t)" "Answered (CallClose (bc_consumer b)) True \<in> set new" using ms k(1) by blast
    have "b = p" using p b(1) k(2) wf_map_mget by (fastforce simp: pending_ok_def)
    then show ?thesis using b(2) by (simp add: closed_def)
  qed
  then show ?thesis using pending_ok_mono [OF p, of "evs @ new"] wf by (simp add: consumers_ok_def pending_ok_def)
qed

text \<open>A marking loop changes the marks of the group and makes calls that establish nothing.\<close>

lemma marking_step:
  assumes ok: "shim_ok s" and t: "pending g s = Some t" and t': "pt_spec t' = pt_spec t" "pt_prepared t' = pt_prepared t"
    and s': "s' = put_shim_group g (group_of g s\<lparr>ga_transition := Some t'\<rparr>) (s\<lparr>sh_calls := sh_calls s @ new\<rparr>)"
    and g': "consumers_ok (sh_calls s @ new) (group_of g s\<lparr>ga_transition := Some t'\<rparr>)"
    and new: "\<forall>ev\<in>set new. \<exists>q ok. ev = Answered q ok"
  shows "shim_ok s'" and "retains s s'" and "remarks s s'" and "pending g s' = Some t'" and "group_of g s' = group_of g s\<lparr>ga_transition := Some t'\<rparr>"
    and "\<And>h. h \<noteq> g \<Longrightarrow> group_of h s' = group_of h s" and "sh_calls s' = sh_calls s @ new" and "mget (sh_groups s') g = Some (group_of g s')"
proof -
  have o: "established new = {}" using new by (auto simp: established_def)
  show "shim_ok s'" unfolding s' using put_ok [OF calls_ok [OF ok]] g' by simp
  show "retains s s'" unfolding s' by (rule put_marks(2) [OF t t' o])
  show "remarks s s'" unfolding s' by (rule put_marks(1) [OF t t'])
qed (simp_all add: s')

lemma remarks_trans: "remarks s s1 \<Longrightarrow> remarks s1 s2 \<Longrightarrow> remarks s s2"
  unfolding remarks_def
proof (intro allI)
  fix g
  let ?R = "\<lambda>t t'. pt_spec t' = pt_spec t \<and> pt_prepared t' = pt_prepared t"
  assume a: "\<forall>g. ga_active (group_of g s1) = ga_active (group_of g s) \<and> rel_option ?R (pending g s) (pending g s1)"
    and b: "\<forall>g. ga_active (group_of g s2) = ga_active (group_of g s1) \<and> rel_option ?R (pending g s1) (pending g s2)"
  have "rel_option ?R (pending g s) (pending g s2)"
    using spec [OF a, of g] spec [OF b, of g] by (cases "pending g s"; cases "pending g s1"; cases "pending g s2") auto
  then show "ga_active (group_of g s2) = ga_active (group_of g s) \<and> rel_option ?R (pending g s) (pending g s2)" using a b by simp
qed

lemma in_bound:
  assumes "wf_map m"
  shows "c \<in> bound_consumers m \<longleftrightarrow> (\<exists>k b. mget m k = Some b \<and> bc_consumer b = c)"
  unfolding bound_consumers_def by (metis (no_types) in_values [OF assms] image_iff)

lemma pending_okD:
  assumes "pending_ok evs active t"
  shows "wf_map (pt_prepared t)" and "mget active k = Some a \<Longrightarrow> mget (pt_prepared t) k = Some p \<Longrightarrow> a = p"
    and "k \<in> set (pt_activated t) \<Longrightarrow> mget (pt_prepared t) k = Some p \<Longrightarrow> bc_consumer p \<in> started evs"
    and "k \<in> set (pt_closed_source t) \<Longrightarrow> mget active k = Some a \<Longrightarrow> bc_consumer a \<in> closed evs"
    and "k \<in> set (pt_closed_prepared t) \<Longrightarrow> mget (pt_prepared t) k = Some p \<Longrightarrow> bc_consumer p \<in> closed evs"
  using assms unfolding pending_ok_def by blast+

lemma group_pending_ok:
  assumes "shim_ok s" and "pending g s = Some t"
  shows "pending_ok (sh_calls s) (ga_active (group_of g s)) t" and "wf_map (ga_active (group_of g s))"
  using shim_okD(2) [OF assms(1), of g] assms(2) by (simp_all add: consumers_ok_def pending_def)

text \<open>The first loop of \<open>activate\<close>.\<close>

lemma activate_loop_result:
  assumes fair: "fair_order e" and ok: "shim_ok s" and f: "mget (sh_groups s) g = Some (group_of g s)" "pending g s = Some t"
    and l: "marking_loop e g pt_activated pt_activated_update CallActivate failed (range_map e loop (pt_prepared t) s) s = (err, s')"
  shows "\<exists>ms as. s' = put_shim_group g (group_of g s\<lparr>ga_transition := Some (t\<lparr>pt_activated := ms\<rparr>)\<rparr>) (s\<lparr>sh_calls := sh_calls s @ as\<rparr>) \<and>
      consumers_ok (sh_calls s @ as) (group_of g s\<lparr>ga_transition := Some (t\<lparr>pt_activated := ms\<rparr>)\<rparr>) \<and>
      (\<forall>ev\<in>set as. \<exists>p\<in>set (pt_prepared t). \<exists>ok. ev = Answered (CallActivate (bc_consumer (snd p))) ok) \<and>
      (err = None \<longrightarrow> (\<forall>p\<in>set (pt_prepared t). bc_consumer (snd p) \<in> started (sh_calls s @ as)))"
proof -
  let ?gs = "group_of g s"
  have t: "ga_transition ?gs = Some t" using f(2) by (simp add: pending_def)
  obtain ms as where m: "s' = put_shim_group g (?gs\<lparr>ga_transition := Some (t\<lparr>pt_activated := ms\<rparr>)\<rparr>) (s\<lparr>sh_calls := sh_calls s @ as\<rparr>)"
    "err = None \<longrightarrow> fst ` set (pt_prepared t) \<subseteq> set ms"
    "\<forall>ev\<in>set as. \<exists>p\<in>set (pt_prepared t). \<exists>ok. ev = Answered (CallActivate (bc_consumer (snd p))) ok"
    "\<forall>k\<in>set ms. k \<in> set (pt_activated t) \<or> (\<exists>b. (k, b) \<in> set (pt_prepared t) \<and> Answered (CallActivate (bc_consumer b)) True \<in> set as)"
    using activated_marks.loop_result [OF l f(1) t] unfolding set_range_map [OF fair] by blast
  have c: "consumers_ok (sh_calls s @ as) (?gs\<lparr>ga_transition := Some (t\<lparr>pt_activated := ms\<rparr>)\<rparr>)"
    by (rule activate_marks_ok [OF shim_okD(2) [OF ok] t m(4)])
  then have p: "pending_ok (sh_calls s @ as) (ga_active ?gs) (t\<lparr>pt_activated := ms\<rparr>)" by (simp add: consumers_ok_def)
  have "bc_consumer (snd q) \<in> started (sh_calls s @ as)" if "err = None" "q \<in> set (pt_prepared t)" for q
  proof -
    have "fst q \<in> set ms" using m(2) that by force
    moreover have "mget (pt_prepared t) (fst q) = Some (snd q)" using wf_map_mget [of "pt_prepared t"] pending_okD(1) [OF p] that(2) by simp
    ultimately show ?thesis using pending_okD(3) [OF p, of "fst q" "snd q"] by simp
  qed
  then show ?thesis using m(1,3) c by blast
qed

text \<open>The second loop of \<open>activate\<close>.\<close>

lemma source_loop_result:
  assumes fair: "fair_order e" and ok: "shim_ok s" and f: "mget (sh_groups s) g = Some (group_of g s)" "pending g s = Some t"
    and l: "marking_loop e g pt_closed_source pt_closed_source_update CallClose failed (filter P (range_map e loop (ga_active (group_of g s)) s)) s = (err, s')"
  shows "\<exists>ms cs. s' = put_shim_group g (group_of g s\<lparr>ga_transition := Some (t\<lparr>pt_closed_source := ms\<rparr>)\<rparr>) (s\<lparr>sh_calls := sh_calls s @ cs\<rparr>) \<and>
      consumers_ok (sh_calls s @ cs) (group_of g s\<lparr>ga_transition := Some (t\<lparr>pt_closed_source := ms\<rparr>)\<rparr>) \<and>
      (\<forall>ev\<in>set cs. \<exists>p\<in>set (ga_active (group_of g s)). P p \<and> (\<exists>ok. ev = Answered (CallClose (bc_consumer (snd p))) ok)) \<and>
      (err = None \<longrightarrow> (\<forall>k a. mget (ga_active (group_of g s)) k = Some a \<longrightarrow> P (k, a) \<longrightarrow> bc_consumer a \<in> closed (sh_calls s @ cs)))"
proof -
  let ?gs = "group_of g s"
  have t: "ga_transition ?gs = Some t" using f(2) by (simp add: pending_def)
  have items: "set (filter P (range_map e loop (ga_active ?gs) s)) = {p \<in> set (ga_active ?gs). P p}" by (simp add: set_range_map [OF fair])
  obtain ms cs where m: "s' = put_shim_group g (?gs\<lparr>ga_transition := Some (t\<lparr>pt_closed_source := ms\<rparr>)\<rparr>) (s\<lparr>sh_calls := sh_calls s @ cs\<rparr>)"
    "err = None \<longrightarrow> fst ` {p \<in> set (ga_active ?gs). P p} \<subseteq> set ms"
    "\<forall>ev\<in>set cs. \<exists>p\<in>{p \<in> set (ga_active ?gs). P p}. \<exists>ok. ev = Answered (CallClose (bc_consumer (snd p))) ok"
    "\<forall>k\<in>set ms. k \<in> set (pt_closed_source t) \<or> (\<exists>b. (k, b) \<in> {p \<in> set (ga_active ?gs). P p} \<and> Answered (CallClose (bc_consumer b)) True \<in> set cs)"
    using source_marks.loop_result [OF l f(1) t] unfolding items by blast
  have c: "consumers_ok (sh_calls s @ cs) (?gs\<lparr>ga_transition := Some (t\<lparr>pt_closed_source := ms\<rparr>)\<rparr>)"
    by (rule source_marks_ok [OF shim_okD(2) [OF ok] t]) (use m(4) in blast)
  then have p: "pending_ok (sh_calls s @ cs) (ga_active ?gs) (t\<lparr>pt_closed_source := ms\<rparr>)" by (simp add: consumers_ok_def)
  have "bc_consumer a \<in> closed (sh_calls s @ cs)" if "err = None" "mget (ga_active ?gs) k = Some a" "P (k, a)" for k a
  proof -
    have "k \<in> set ms" using m(2) that(1,3) map_of_SomeD [OF that(2)] by force
    then show ?thesis using pending_okD(4) [OF p, of k a] that(2) by simp
  qed
  moreover have "\<forall>ev\<in>set cs. \<exists>p\<in>set (ga_active ?gs). P p \<and> (\<exists>ok. ev = Answered (CallClose (bc_consumer (snd p))) ok)" using m(3) by blast
  ultimately show ?thesis using m(1) c by blast
qed

text \<open>The active consumers after the cutover.\<close>

definition cutover_active :: "preparedTransition \<Rightarrow> consumers \<Rightarrow> string \<Rightarrow> boundConsumer option" where
  "cutover_active t active k =
     (case mget (pt_prepared t) k of
        Some p \<Rightarrow> Some p
      | None \<Rightarrow> (case mget active k of None \<Rightarrow> None | Some a \<Rightarrow> if of_epoch (bt_source_epoch (pt_spec t)) (k, a) then None else Some a))"

lemma install_result:
  assumes fair: "fair_order e" and wf: "wf_map active" "wf_map (pt_prepared t)"
    and a': "active' = foldl (\<lambda>m (k, b). mput k b m) (filter (\<lambda>p. \<not> of_epoch (bt_source_epoch (pt_spec t)) p) active) (range_map e loop (pt_prepared t) s)"
  shows "wf_map active'" and "mget active' k = cutover_active t active k"
proof -
  show "wf_map active'" unfolding a' by (rule wf_foldl_mput [OF wf_map_filter [OF wf(1)]])
  show "mget active' k = cutover_active t active k"
    unfolding a' foldl_mput [OF range_map_mget(1) [OF fair wf(2)]] range_map_mget(2) [OF fair wf(2)] mget_filter [OF wf(1)] cutover_active_def
    by (simp split: option.split)
qed

lemma install_retains:
  assumes ok: "shim_ok s" and t: "pending g s = Some t" and wf: "wf_map active'" and a': "\<And>k. mget active' k = cutover_active t (ga_active (group_of g s)) k"
    and closed: "\<And>k a. mget (ga_active (group_of g s)) k = Some a \<Longrightarrow> of_epoch (bt_source_epoch (pt_spec t)) (k, a) \<Longrightarrow> bc_consumer a \<in> closed (sh_calls s)"
  shows "retains s (put_shim_group g \<lparr>ga_active = active', ga_transition = None\<rparr> s)"
proof (rule put_retains)
  note p = group_pending_ok [OF ok t]
  have tr: "ga_transition (group_of g s) = Some t" using t by (simp add: pending_def)
  have holds: "group_holds \<lparr>ga_active = active', ga_transition = None\<rparr> = bound_consumers active'" by (simp add: group_holds_def prepared_of_def bound_consumers_def)
  fix c assume "c \<in> group_holds (group_of g s)"
  then consider k a where "mget (ga_active (group_of g s)) k = Some a" "bc_consumer a = c" | k a where "mget (pt_prepared t) k = Some a" "bc_consumer a = c"
    unfolding group_holds_def prepared_of_def tr option.case by (auto simp: in_bound [OF p(2)] in_bound [OF pending_okD(1) [OF p(1)]])
  then have "(\<exists>k b. mget active' k = Some b \<and> bc_consumer b = c) \<or> c \<in> closed (sh_calls s)"
  proof cases
    case 1
    show ?thesis
    proof (cases "mget (pt_prepared t) k")
      case None
      then show ?thesis using 1 closed [OF 1(1)] a' [of k] by (auto simp: cutover_active_def split: if_splits)
    next
      case (Some q)
      then have "mget active' k = Some a" using pending_okD(2) [OF p(1) 1(1) Some] a' [of k] by (simp add: cutover_active_def)
      then show ?thesis using 1(2) by blast
    qed
  next
    case 2
    then have "mget active' k = Some a" using a' [of k] by (simp add: cutover_active_def)
    then show ?thesis using 2(2) by blast
  qed
  then show "c \<in> group_holds \<lparr>ga_active = active', ga_transition = None\<rparr> \<or> c \<in> set (sh_cleanup s) \<or> c \<in> closed (sh_calls s)"
    unfolding holds in_bound [OF wf] by blast
qed

text \<open>
  The outcome of \<open>activate\<close>: activations first, then closings of source consumers once every prepared consumer is active; a failure
  leaves everything but marks as it was, and a success installs the prepared consumers in place of the sources.
\<close>

definition activation_order :: "'p Shim \<Rightarrow> 'p Shim \<Rightarrow> consumers \<Rightarrow> preparedTransition \<Rightarrow> bool \<Rightarrow> bool" where
  "activation_order s s' active t success \<longleftrightarrow> (\<exists>as cs. sh_calls s' = sh_calls s @ as @ cs \<and>
     (\<forall>ev\<in>set as. \<exists>p\<in>set (pt_prepared t). \<exists>ok. ev = Answered (CallActivate (bc_consumer (snd p))) ok) \<and>
     (\<forall>ev\<in>set cs. \<exists>p\<in>set active. of_epoch (bt_source_epoch (pt_spec t)) p \<and> (\<exists>ok. ev = Answered (CallClose (bc_consumer (snd p))) ok)) \<and>
     (cs \<noteq> [] \<or> success \<longrightarrow> (\<forall>p\<in>set (pt_prepared t). bc_consumer (snd p) \<in> started (sh_calls s @ as))))"

definition group_result :: "string \<Rightarrow> 'p Shim \<Rightarrow> 'p Shim \<Rightarrow> bool" where
  "group_result g s s' \<longleftrightarrow> shim_ok s' \<and> retains s s' \<and> (\<forall>h. h \<noteq> g \<longrightarrow> group_of h s' = group_of h s)"

lemma group_result_trans: "group_result g s s1 \<Longrightarrow> group_result g s1 s2 \<Longrightarrow> group_result g s s2"
  using retains_trans unfolding group_result_def by metis

lemma shim_activate_result:
  assumes fair: "fair_order e" and ok: "shim_ok s" and f: "find_pending g i s = Inr (gs, t)" and a: "shim_activate e g i s = (err, s')"
  shows "group_result g s s'" and "activation_order s s' (ga_active gs) t (err = None)" and "err \<noteq> None \<Longrightarrow> remarks s s'"
    and "err = None \<Longrightarrow> ga_transition (group_of g s') = None" and "err = None \<Longrightarrow> mget (ga_active (group_of g s')) k = cutover_active t (ga_active gs) k"
proof -
  note p = find_pending_Inr [OF f]
  let ?src = "of_epoch (bt_source_epoch (pt_spec t))"
  have gs: "mget (sh_groups s) g = Some (group_of g s)" using p(1,2) by simp
  obtain err1 s1 where l1: "marking_loop e g pt_activated pt_activated_update CallActivate ActivateFailed (range_map e ''activate'' (pt_prepared t) s) s = (err1, s1)"
    by (metis prod.exhaust)
  obtain ms as where m1: "s1 = put_shim_group g (group_of g s\<lparr>ga_transition := Some (t\<lparr>pt_activated := ms\<rparr>)\<rparr>) (s\<lparr>sh_calls := sh_calls s @ as\<rparr>)"
    "consumers_ok (sh_calls s @ as) (group_of g s\<lparr>ga_transition := Some (t\<lparr>pt_activated := ms\<rparr>)\<rparr>)"
    "\<forall>ev\<in>set as. \<exists>p\<in>set (pt_prepared t). \<exists>ok. ev = Answered (CallActivate (bc_consumer (snd p))) ok"
    "err1 = None \<longrightarrow> (\<forall>p\<in>set (pt_prepared t). bc_consumer (snd p) \<in> started (sh_calls s @ as))"
    using activate_loop_result [OF fair ok gs p(3) l1] by blast
  let ?t1 = "t\<lparr>pt_activated := ms\<rparr>"
  have n1: "\<forall>ev\<in>set as. \<exists>q ok. ev = Answered q ok" using m1(3) by blast
  note s1 = marking_step [OF ok p(3) _ _ m1(1,2) n1, simplified]
  have r1: "group_result g s s1" using s1(1,2,6) by (simp add: group_result_def)
  have sub: "group_result g s s' \<and> activation_order s s' (ga_active gs) t (err = None) \<and> (err \<noteq> None \<longrightarrow> remarks s s') \<and>
      (err = None \<longrightarrow> ga_transition (group_of g s') = None \<and> (\<forall>k. mget (ga_active (group_of g s')) k = cutover_active t (ga_active gs) k))"
  proof (cases err1)
    case (Some x)
    have "s' = s1" "err = Some x" using a by (simp_all add: shim_activate_def f l1 Some Let_def)
    moreover have "activation_order s s1 (ga_active gs) t False"
      unfolding activation_order_def s1(7) using m1(3) by (intro exI [of _ as] exI [of _ "[]"]) simp
    ultimately show ?thesis using r1 s1(3) by simp
  next
    case None
    have gs1: "ga_active (group_of g s1) = ga_active gs" using s1(5) p(2) by simp
    obtain err2 s2 where l2: "marking_loop e g pt_closed_source pt_closed_source_update CallClose CloseFailed
        (filter ?src (range_map e ''source'' (ga_active (group_of g s1)) s1)) s1 = (err2, s2)" by (metis prod.exhaust)
    obtain ms2 cs where m2: "s2 = put_shim_group g (group_of g s1\<lparr>ga_transition := Some (?t1\<lparr>pt_closed_source := ms2\<rparr>)\<rparr>) (s1\<lparr>sh_calls := sh_calls s1 @ cs\<rparr>)"
      "consumers_ok (sh_calls s1 @ cs) (group_of g s1\<lparr>ga_transition := Some (?t1\<lparr>pt_closed_source := ms2\<rparr>)\<rparr>)"
      "\<forall>ev\<in>set cs. \<exists>p\<in>set (ga_active (group_of g s1)). ?src p \<and> (\<exists>ok. ev = Answered (CallClose (bc_consumer (snd p))) ok)"
      "err2 = None \<longrightarrow> (\<forall>k a. mget (ga_active (group_of g s1)) k = Some a \<longrightarrow> ?src (k, a) \<longrightarrow> bc_consumer a \<in> closed (sh_calls s1 @ cs))"
      using source_loop_result [OF fair s1(1) s1(8) s1(4) l2] by blast
    let ?t2 = "?t1\<lparr>pt_closed_source := ms2\<rparr>"
    have n2: "\<forall>ev\<in>set cs. \<exists>q ok. ev = Answered q ok" using m2(3) by blast
    note s2 = marking_step [OF s1(1,4) _ _ m2(1,2) n2, simplified]
    have r2: "group_result g s s2" by (rule group_result_trans [OF r1]) (use s2(1,2,6) in \<open>simp add: group_result_def\<close>)
    have order: "activation_order s s3 (ga_active gs) t b" if "sh_calls s3 = sh_calls s2" for s3 :: "'a Shim" and b
      unfolding activation_order_def that s2(7) s1(7) using m1(3,4) m2(3) None gs1 by (intro exI [of _ as] exI [of _ cs]) simp
    show ?thesis
    proof (cases err2)
      case (Some x)
      have "s' = s2" "err = Some x" using a by (simp_all add: shim_activate_def f l1 None l2 [unfolded gs1] Some Let_def)
      then show ?thesis using r2 order [of s2] remarks_trans [OF s1(3) s2(3)] by simp
    next
      case n: None
      define active' where "active' = foldl (\<lambda>m (k, b). mput k b m) (filter (\<lambda>p. \<not> ?src p) (ga_active gs)) (range_map e ''install'' (pt_prepared t) s2)"
      have same: "ensureGroup g s2 = s2" using s2(8) by (simp add: ensureGroup_def)
      have e: "err = None" "s' = put_shim_group g \<lparr>ga_active = active', ga_transition = None\<rparr> s2"
        using a p(5) by (simp_all add: shim_activate_def f l1 None l2 [unfolded gs1] n Let_def same s2(4) active'_def)
      have gs2: "ga_active (group_of g s2) = ga_active gs" using s2(5) gs1 by simp
      note ok2 = group_pending_ok [OF s2(1) s2(4)]
      have wf: "wf_map (ga_active gs)" "wf_map (pt_prepared t)" using ok2(2) gs2 pending_okD(1) [OF ok2(1)] by simp_all
      note inst = install_result [OF fair wf active'_def]
      have cut: "mget active' k = cutover_active ?t2 (ga_active (group_of g s2)) k" for k using inst(2) [of k] gs2 by (simp add: cutover_active_def split: option.split)
      have cl: "bc_consumer a \<in> closed (sh_calls s2)" if "mget (ga_active (group_of g s2)) k = Some a" "of_epoch (bt_source_epoch (pt_spec ?t2)) (k, a)" for k a
        using m2(4) n that gs2 gs1 s2(7) by simp
      have "retains s2 s'" unfolding e(2) by (rule install_retains [OF s2(1,4) inst(1) cut cl])
      moreover have "shim_ok s'" unfolding e(2) by (rule put_ok [OF s2(1)]) (simp add: consumers_ok_def inst(1))
      ultimately have "group_result g s2 s'" using e(2) by (simp add: group_result_def)
      then show ?thesis using group_result_trans [OF r2] order [of s'] e inst(2) by simp
    qed
  qed
  show "group_result g s s'" "activation_order s s' (ga_active gs) t (err = None)" "err \<noteq> None \<Longrightarrow> remarks s s'"
    "err = None \<Longrightarrow> ga_transition (group_of g s') = None" "err = None \<Longrightarrow> mget (ga_active (group_of g s')) k = cutover_active t (ga_active gs) k"
    using sub by blast+
qed

section \<open>Rollback\<close>

lemma prepared_loop_result:
  assumes fair: "fair_order e" and ok: "shim_ok s" and f: "mget (sh_groups s) g = Some (group_of g s)" "pending g s = Some t"
    and l: "marking_loop e g pt_closed_prepared pt_closed_prepared_update CallClose failed (filter P (range_map e loop (pt_prepared t) s)) s = (err, s')"
  shows "\<exists>ms cs. s' = put_shim_group g (group_of g s\<lparr>ga_transition := Some (t\<lparr>pt_closed_prepared := ms\<rparr>)\<rparr>) (s\<lparr>sh_calls := sh_calls s @ cs\<rparr>) \<and>
      consumers_ok (sh_calls s @ cs) (group_of g s\<lparr>ga_transition := Some (t\<lparr>pt_closed_prepared := ms\<rparr>)\<rparr>) \<and>
      (\<forall>ev\<in>set cs. \<exists>q ok. ev = Answered q ok) \<and>
      (err = None \<longrightarrow> (\<forall>k a. mget (pt_prepared t) k = Some a \<longrightarrow> P (k, a) \<longrightarrow> bc_consumer a \<in> closed (sh_calls s @ cs)))"
proof -
  let ?gs = "group_of g s"
  have t: "ga_transition ?gs = Some t" using f(2) by (simp add: pending_def)
  have items: "set (filter P (range_map e loop (pt_prepared t) s)) = {p \<in> set (pt_prepared t). P p}" by (simp add: set_range_map [OF fair])
  obtain ms cs where m: "s' = put_shim_group g (?gs\<lparr>ga_transition := Some (t\<lparr>pt_closed_prepared := ms\<rparr>)\<rparr>) (s\<lparr>sh_calls := sh_calls s @ cs\<rparr>)"
    "err = None \<longrightarrow> fst ` {p \<in> set (pt_prepared t). P p} \<subseteq> set ms"
    "\<forall>ev\<in>set cs. \<exists>p\<in>{p \<in> set (pt_prepared t). P p}. \<exists>ok. ev = Answered (CallClose (bc_consumer (snd p))) ok"
    "\<forall>k\<in>set ms. k \<in> set (pt_closed_prepared t) \<or> (\<exists>b. (k, b) \<in> {p \<in> set (pt_prepared t). P p} \<and> Answered (CallClose (bc_consumer b)) True \<in> set cs)"
    using prepared_marks.loop_result [OF l f(1) t] unfolding items by blast
  have c: "consumers_ok (sh_calls s @ cs) (?gs\<lparr>ga_transition := Some (t\<lparr>pt_closed_prepared := ms\<rparr>)\<rparr>)"
    by (rule prepared_marks_ok [OF shim_okD(2) [OF ok] t]) (use m(4) in blast)
  then have p: "pending_ok (sh_calls s @ cs) (ga_active ?gs) (t\<lparr>pt_closed_prepared := ms\<rparr>)" by (simp add: consumers_ok_def)
  have "bc_consumer a \<in> closed (sh_calls s @ cs)" if "err = None" "mget (pt_prepared t) k = Some a" "P (k, a)" for k a
  proof -
    have "k \<in> set ms" using m(2) that(1,3) map_of_SomeD [OF that(2)] by force
    then show ?thesis using pending_okD(5) [OF p, of k a] that(2) by simp
  qed
  moreover have "\<forall>ev\<in>set cs. \<exists>q ok. ev = Answered q ok" using m(3) by blast
  ultimately show ?thesis using m(1) c by blast
qed

lemma resume_loop_result:
  assumes ok: "shim_ok s" and f: "mget (sh_groups s) g = Some (group_of g s)" "pending g s = Some t"
    and l: "marking_loop e g pt_resumed_source pt_resumed_source_update call failed items s = (err, s')"
  shows "\<exists>ms as. s' = put_shim_group g (group_of g s\<lparr>ga_transition := Some (t\<lparr>pt_resumed_source := ms\<rparr>)\<rparr>) (s\<lparr>sh_calls := sh_calls s @ as\<rparr>) \<and>
      consumers_ok (sh_calls s @ as) (group_of g s\<lparr>ga_transition := Some (t\<lparr>pt_resumed_source := ms\<rparr>)\<rparr>) \<and> (\<forall>ev\<in>set as. \<exists>q ok. ev = Answered q ok)"
proof -
  have t: "ga_transition (group_of g s) = Some t" using f(2) by (simp add: pending_def)
  obtain ms as where m: "s' = put_shim_group g (group_of g s\<lparr>ga_transition := Some (t\<lparr>pt_resumed_source := ms\<rparr>)\<rparr>) (s\<lparr>sh_calls := sh_calls s @ as\<rparr>)"
    and q: "\<forall>ev\<in>set as. \<exists>p\<in>set items. \<exists>ok. ev = Answered (call (bc_consumer (snd p))) ok"
    using resumed_marks.loop_result [OF l f(1) t] by blast
  have n: "\<forall>ev\<in>set as. \<exists>q ok. ev = Answered q ok" using q by blast
  have "consumers_ok (sh_calls s @ as) (group_of g s)" by (rule consumers_ok_mono [OF shim_okD(2) [OF ok]])
  then have "consumers_ok (sh_calls s @ as) (group_of g s\<lparr>ga_transition := Some (t\<lparr>pt_resumed_source := ms\<rparr>)\<rparr>)"
    using t by (simp add: consumers_ok_def pending_ok_def)
  then show ?thesis using m n by blast
qed

lemma end_retains:
  assumes ok: "shim_ok s" and t: "pending g s = Some t"
    and closed: "\<And>k a. mget (pt_prepared t) k = Some a \<Longrightarrow> mget (ga_active (group_of g s)) k = None \<Longrightarrow> bc_consumer a \<in> closed (sh_calls s)"
  shows "retains s (put_shim_group g (group_of g s\<lparr>ga_transition := None\<rparr>) s)"
proof (rule put_retains)
  note p = group_pending_ok [OF ok t]
  have tr: "ga_transition (group_of g s) = Some t" using t by (simp add: pending_def)
  fix c assume "c \<in> group_holds (group_of g s)"
  then consider "c \<in> bound_consumers (ga_active (group_of g s))" | k a where "mget (pt_prepared t) k = Some a" "bc_consumer a = c"
    unfolding group_holds_def prepared_of_def tr option.case by (auto simp: in_bound [OF pending_okD(1) [OF p(1)]])
  then have "c \<in> bound_consumers (ga_active (group_of g s)) \<or> c \<in> closed (sh_calls s)"
  proof cases
    case 2
    then show ?thesis
      using closed [OF 2(1)] pending_okD(2) [OF p(1) _ 2(1)] by (cases "mget (ga_active (group_of g s)) k") (auto simp: in_bound [OF p(2)])
  qed blast
  then show "c \<in> group_holds (group_of g s\<lparr>ga_transition := None\<rparr>) \<or> c \<in> set (sh_cleanup s) \<or> c \<in> closed (sh_calls s)"
    by (auto simp: group_holds_def)
qed

text \<open>The outcome of \<open>rollback\<close>: the transition is gone and the active consumers are as before, or only marks have changed.\<close>

lemma shim_rollback_result:
  assumes fair: "fair_order e" and ok: "shim_ok s" and f: "find_pending g i s = Inr (gs, t)" and a: "shim_rollback e g i s = (err, s')"
  shows "group_result g s s' \<and> (err \<noteq> None \<longrightarrow> remarks s s') \<and> (err = None \<longrightarrow> group_of g s' = gs\<lparr>ga_transition := None\<rparr>)"
proof -
  note p = find_pending_Inr [OF f]
  let ?P = "\<lambda>(k, b). mget (ga_active gs) k = None"
  have gs: "mget (sh_groups s) g = Some (group_of g s)" using p(1,2) by simp
  obtain err1 s1 where l1: "marking_loop e g pt_closed_prepared pt_closed_prepared_update CallClose CloseFailed
      (filter ?P (range_map e ''rollback'' (pt_prepared t) s)) s = (err1, s1)" by (metis prod.exhaust)
  obtain ms cs where m1: "s1 = put_shim_group g (group_of g s\<lparr>ga_transition := Some (t\<lparr>pt_closed_prepared := ms\<rparr>)\<rparr>) (s\<lparr>sh_calls := sh_calls s @ cs\<rparr>)"
    "consumers_ok (sh_calls s @ cs) (group_of g s\<lparr>ga_transition := Some (t\<lparr>pt_closed_prepared := ms\<rparr>)\<rparr>)" "\<forall>ev\<in>set cs. \<exists>q ok. ev = Answered q ok"
    "err1 = None \<longrightarrow> (\<forall>k a. mget (pt_prepared t) k = Some a \<longrightarrow> ?P (k, a) \<longrightarrow> bc_consumer a \<in> closed (sh_calls s @ cs))"
    using prepared_loop_result [OF fair ok gs p(3) l1] by blast
  let ?t1 = "t\<lparr>pt_closed_prepared := ms\<rparr>"
  note s1 = marking_step [OF ok p(3) _ _ m1(1,2,3), simplified]
  have r1: "group_result g s s1" using s1(1,2,6) by (simp add: group_result_def)
  show ?thesis
  proof (cases err1)
    case (Some x)
    have "s' = s1" "err = Some x" using a by (simp_all add: shim_rollback_def f l1 Some Let_def)
    then show ?thesis using r1 s1(3) by simp
  next
    case None
    let ?second = "if pt_paused t then marking_loop e g pt_resumed_source pt_resumed_source_update CallActivate ResumeFailed
        (filter (of_epoch (bt_source_epoch (pt_spec t))) (range_map e ''resume'' (ga_active gs) s1)) s1 else (None, s1)"
    obtain err2 s2 where l2: "?second = (err2, s2)" by (metis prod.exhaust)
    have s2: "group_result g s1 s2 \<and> remarks s1 s2 \<and> mget (sh_groups s2) g = Some (group_of g s2) \<and> closed (sh_calls s1) \<subseteq> closed (sh_calls s2) \<and>
        (\<exists>t2. pending g s2 = Some t2 \<and> group_of g s2 = group_of g s1\<lparr>ga_transition := Some t2\<rparr> \<and> pt_spec t2 = pt_spec t \<and> pt_prepared t2 = pt_prepared t)"
    proof (cases "pt_paused t")
      case True
      then have l: "marking_loop e g pt_resumed_source pt_resumed_source_update CallActivate ResumeFailed
          (filter (of_epoch (bt_source_epoch (pt_spec t))) (range_map e ''resume'' (ga_active gs) s1)) s1 = (err2, s2)" using l2 by simp
      obtain ms2 as where m2: "s2 = put_shim_group g (group_of g s1\<lparr>ga_transition := Some (?t1\<lparr>pt_resumed_source := ms2\<rparr>)\<rparr>) (s1\<lparr>sh_calls := sh_calls s1 @ as\<rparr>)"
        "consumers_ok (sh_calls s1 @ as) (group_of g s1\<lparr>ga_transition := Some (?t1\<lparr>pt_resumed_source := ms2\<rparr>)\<rparr>)" "\<forall>ev\<in>set as. \<exists>q ok. ev = Answered q ok"
        using resume_loop_result [OF s1(1,8,4) l] by blast
      note s2 = marking_step [OF s1(1,4) _ _ m2, simplified]
      show ?thesis using s2(1-8) by (auto simp: group_result_def)
    next
      case False
      then have "s2 = s1" using l2 by simp
      then show ?thesis using s1 p(2) remarks_calls [of s1 s1] by (auto simp: group_result_def)
    qed
    then obtain t2 where t2: "pending g s2 = Some t2" "group_of g s2 = group_of g s1\<lparr>ga_transition := Some t2\<rparr>" "pt_spec t2 = pt_spec t" "pt_prepared t2 = pt_prepared t" by blast
    have r2: "group_result g s s2" using group_result_trans [OF r1] s2 by blast
    show ?thesis
    proof (cases err2)
      case (Some x)
      have "s' = s2" "err = Some x" using a by (simp_all add: shim_rollback_def f l1 None l2 Some Let_def)
      then show ?thesis using r2 remarks_trans [OF s1(3)] s2 by simp
    next
      case n: None
      have e: "err = None" "s' = put_shim_group g (group_of g s2\<lparr>ga_transition := None\<rparr>) s2"
        using a p(5) by (simp_all add: shim_rollback_def f l1 None l2 n Let_def t2(1,3))
      have ok2: "shim_ok s2" using r2 by (simp add: group_result_def)
      have active: "ga_active (group_of g s2) = ga_active gs" using t2(2) s1(5) p(2) by simp
      have "retains s2 s'"
        unfolding e(2) by (rule end_retains [OF ok2 t2(1)]) (use m1(4) None active t2(4) s2 s1(7) in auto)
      moreover have "shim_ok s'" unfolding e(2) by (rule put_ok [OF ok2]) (use shim_okD(2) [OF ok2, of g] in \<open>simp add: consumers_ok_def\<close>)
      ultimately have "group_result g s2 s'" using e(2) by (simp add: group_result_def)
      moreover have "group_of g s' = gs\<lparr>ga_transition := None\<rparr>" using e(2) t2(2) s1(5) p(2) by simp
      ultimately show ?thesis using group_result_trans [OF r2] e(1) by simp
    qed
  qed
qed

section \<open>Obsolete consumers\<close>

text \<open>Entries may leave the maps of a group.\<close>

definition submap :: "consumers \<Rightarrow> consumers \<Rightarrow> bool" where
  "submap m m' \<longleftrightarrow> wf_map m \<and> (\<forall>k b. mget m k = Some b \<longrightarrow> mget m' k = Some b)"

lemma pending_ok_submap: "pending_ok evs active t \<Longrightarrow> submap active' active \<Longrightarrow> submap p (pt_prepared t) \<Longrightarrow> pending_ok evs active' (t\<lparr>pt_prepared := p\<rparr>)"
  unfolding pending_ok_def submap_def by simp metis

lemma submap_mdel: "wf_map m \<Longrightarrow> submap (mdel k m) m"
  by (auto simp: submap_def split: if_splits)

lemma submap_refl: "wf_map m \<Longrightarrow> submap m m"
  by (simp add: submap_def)

lemma drop_active_ok:
  assumes "consumers_ok evs gs"
  shows "consumers_ok evs (gs\<lparr>ga_active := mdel k (ga_active gs)\<rparr>)"
proof -
  have wf: "wf_map (ga_active gs)" using assms by (simp add: consumers_ok_def)
  have "pending_ok evs (mdel k (ga_active gs)) t" if "ga_transition gs = Some t" for t
  proof -
    have p: "pending_ok evs (ga_active gs) t" using assms that by (simp add: consumers_ok_def)
    show ?thesis using pending_ok_submap [OF p submap_mdel [OF wf] submap_refl [OF pending_okD(1) [OF p]]] by simp
  qed
  then show ?thesis using wf by (simp add: consumers_ok_def)
qed

lemma obsolete_loop_result:
  assumes "obsolete_loop e g items s = (err, s')" and "shim_ok s" and "mget (sh_groups s) g = Some (group_of g s)" and "distinct (map fst items)"
    and "\<forall>p\<in>set items. mget (ga_active (group_of g s)) (fst p) = Some (snd p)"
  shows "group_result g s s' \<and> pending g s' = pending g s \<and> (\<forall>k. k \<notin> fst ` set items \<longrightarrow> mget (ga_active (group_of g s')) k = mget (ga_active (group_of g s)) k) \<and>
    (err = None \<longrightarrow> (\<forall>k\<in>fst ` set items. mget (ga_active (group_of g s')) k = None))"
  using assms
proof (induction items arbitrary: s)
  case Nil
  then show ?case by (simp add: group_result_def)
next
  case (Cons p items)
  obtain k b where p: "p = (k, b)" by (cases p)
  obtain ok s1 where a: "ask e (CallClose (bc_consumer b)) s = (ok, s1)" by (cases "ask e (CallClose (bc_consumer b)) s")
  note s1 = ask_eq [OF a] and c1 = calls_only_result [OF ask_only [OF a]]
  have r1: "group_result g s s1" using c1(1) [OF Cons.prems(2)] c1(2,3) by (simp add: group_result_def)
  show ?case
  proof (cases ok)
    case False
    have "s' = s1" "err \<noteq> None" using Cons.prems(1) by (auto simp: p a False)
    then show ?thesis using r1 c1(3,7) by auto
  next
    case True
    let ?gs = "group_of g s" let ?s2 = "put_shim_group g (?gs\<lparr>ga_active := mdel k (ga_active ?gs)\<rparr>) s1"
    have own: "mget (ga_active ?gs) k = Some b" using Cons.prems(5) p by simp
    have g1: "mget (sh_groups s1) g = Some ?gs" using Cons.prems(3) c1(4) by simp
    have l: "obsolete_loop e g items ?s2 = (err, s')" using Cons.prems(1) by (simp add: p a True g1 own)
    have ok2: "shim_ok ?s2"
      by (rule put_ok [OF c1(1) [OF Cons.prems(2)]]) (rule drop_active_ok, use shim_okD(2) [OF c1(1) [OF Cons.prems(2)], of g] c1(3) in simp)
    have "retains s1 ?s2"
    proof (rule put_retains)
      fix c assume "c \<in> group_holds (group_of g s1)"
      then have "c \<in> group_holds ?gs" using c1(3) by simp
      moreover have "bound_consumers (ga_active ?gs) \<subseteq> insert (bc_consumer b) (bound_consumers (mdel k (ga_active ?gs)))"
        using own wf_map_mget [of "ga_active ?gs" k] shim_okD(2) [OF Cons.prems(2), of g]
        by (auto simp: bound_consumers_def mdel_eq_filter consumers_ok_def image_iff) (metis option.inject)
      ultimately show "c \<in> group_holds (?gs\<lparr>ga_active := mdel k (ga_active ?gs)\<rparr>) \<or> c \<in> set (sh_cleanup s1) \<or> c \<in> closed (sh_calls s1)"
        using True by (auto simp: group_holds_def prepared_of_def s1)
    qed
    then have r2: "group_result g s1 ?s2" using ok2 by (simp add: group_result_def)
    have k: "k \<notin> fst ` set items" using Cons.prems(4) p by simp
    have "\<forall>q\<in>set items. mget (ga_active (group_of g ?s2)) (fst q) = Some (snd q)" using Cons.prems(5) k by (auto simp: image_iff)
    from Cons.IH [OF l ok2 _ _ this] Cons.prems(4)
    have i: "group_result g ?s2 s'" "pending g s' = pending g ?s2" "\<forall>k. k \<notin> fst ` set items \<longrightarrow> mget (ga_active (group_of g s')) k = mget (ga_active (group_of g ?s2)) k"
      "err = None \<longrightarrow> (\<forall>k\<in>fst ` set items. mget (ga_active (group_of g s')) k = None)" by simp_all
    have "pending g s' = pending g s" using i(2) by (simp add: pending_def)
    moreover have "group_result g s s'" using group_result_trans [OF group_result_trans [OF r1 r2] i(1)] .
    ultimately show ?thesis using i(3,4) k p by simp
  qed
qed

lemma closeObsoleteActive_result:
  assumes fair: "fair_order e" and ok: "shim_ok s" and c: "closeObsoleteActive e g current s = (err, s')"
  shows "group_result g s s' \<and> pending g s' = pending g s \<and>
    (\<forall>k. k \<in> set current \<longrightarrow> mget (ga_active (group_of g s')) k = mget (ga_active (group_of g s)) k) \<and>
    (err = None \<longrightarrow> (\<forall>k. k \<notin> set current \<longrightarrow> mget (ga_active (group_of g s')) k = None))"
proof (cases "mget (sh_groups s) g")
  case None
  then have "s' = s" "group_of g s = empty_group" using c by (simp_all add: closeObsoleteActive_def group_of_def mget_or_def)
  then show ?thesis using ok by (simp add: group_result_def)
next
  case (Some gs)
  let ?m = "filter (\<lambda>(k, b). k \<notin> set current) (ga_active gs)"
  have gs: "gs = group_of g s" using Some by (simp add: group_of_def mget_or_def)
  have wf: "wf_map (ga_active gs)" using shim_okD(2) [OF ok, of g] gs by (simp add: consumers_ok_def)
  have l: "obsolete_loop e g (range_map e ''obsolete'' ?m s) s = (err, s')" using c Some by (simp add: closeObsoleteActive_def)
  have items: "set (range_map e ''obsolete'' ?m s) = set ?m" "distinct (map fst (range_map e ''obsolete'' ?m s))"
    by (rule set_range_map [OF fair], rule range_map_mget(1) [OF fair wf_map_filter [OF wf]])
  have "\<forall>p\<in>set ?m. mget (ga_active (group_of g s)) (fst p) = Some (snd p)" using wf_map_mget [OF wf] gs by auto
  then have i: "\<forall>p\<in>set (range_map e ''obsolete'' ?m s). mget (ga_active (group_of g s)) (fst p) = Some (snd p)" unfolding items(1) .
  have o: "mget (sh_groups s) g = Some (group_of g s)" using Some gs by simp
  note R = obsolete_loop_result [OF l ok o items(2) i, unfolded items(1)]
  note r = conjunct1 [OF R] conjunct1 [OF conjunct2 [OF R]] conjunct1 [OF conjunct2 [OF conjunct2 [OF R]]] conjunct2 [OF conjunct2 [OF conjunct2 [OF R]]]
  have none: "mget (ga_active gs) k = None" if "k \<notin> set current" "k \<notin> fst ` set ?m" for k
  proof (cases "mget (ga_active gs) k")
    case (Some a)
    then have "k \<in> fst ` set ?m" using that(1) map_of_SomeD [OF Some] by (force simp: image_iff)
    then show ?thesis using that(2) by blast
  qed
  have "mget (ga_active (group_of g s')) k = None" if k: "err = None" "k \<notin> set current" for k
  proof (cases "k \<in> fst ` set ?m")
    case True
    then show ?thesis using bspec [OF mp [OF r(4) k(1)] True] by simp
  next
    case False
    then show ?thesis using mp [OF spec [OF r(3)] False] none [OF k(2) False] gs by simp
  qed
  moreover have "mget (ga_active (group_of g s')) k = mget (ga_active (group_of g s)) k" if k: "k \<in> set current" for k
  proof -
    have "k \<notin> fst ` set ?m" using k by auto
    then show ?thesis by (rule mp [OF spec [OF r(3)]])
  qed
  ultimately show ?thesis by (intro conjI allI impI r(1) r(2))
qed

end
