(* ===== verification/Subscriber_Closing.thy ===== *)
theory Subscriber_Closing
  imports Subscriber_Cutover
begin

text \<open>
  The operations of the subscriber shim that close consumers for good: \<open>FailClosed\<close> for a group and \<open>Close\<close> for the whole shim.
\<close>

section \<open>Closing\<close>

lemma close_all_result:
  assumes "close_all e cs s = (errs, s')"
  shows "calls_only s s' \<and> (errs = [] \<longrightarrow> set cs \<subseteq> closed (sh_calls s'))"
  using assms
proof (induction cs arbitrary: s errs)
  case (Cons c cs)
  obtain ok s1 where a: "ask e (CallClose c) s = (ok, s1)" by (cases "ask e (CallClose c) s")
  obtain errs1 where l: "close_all e cs s1 = (errs1, s')" and errs: "errs = (if ok then errs1 else CloseFailed [] # errs1)"
    using Cons.prems by (auto simp: a split: prod.splits)
  note i = Cons.IH [OF l] and only = ask_only [OF a]
  have "c \<in> closed (sh_calls s')" if "errs = []"
  proof -
    have "c \<in> closed (sh_calls s1)" using that errs ask_eq [OF a] by (simp split: if_splits)
    then show ?thesis using calls_only_result(6) [OF conjunct1 [OF i]] by blast
  qed
  then show ?case using i calls_only_trans [OF only] errs by (auto split: if_splits)
qed simp

lemma group_holds_consumers: "group_holds gs = set (group_consumers gs)"
  by (auto simp: group_holds_def group_consumers_def bound_consumers_def prepared_of_def image_image split: option.splits)

lemma group_of_mdel: "group_of h (s\<lparr>sh_groups := mdel g (sh_groups s)\<rparr>) = (if h = g then empty_group else group_of h s)"
  by (simp add: group_of_def mget_or_def)

lemma FailClosed_result:
  assumes fair: "fair_order e" and ok: "shim_ok s" and f: "FailClosed e g s = (err, s')"
  shows "group_result g s s' \<and> (group_of g s' = group_of g s \<or> group_of g s' = empty_group)"
proof (cases "g = [] \<or> mget (sh_groups s) g = None")
  case True
  then have "s' = s" using f by (cases "g = []") (auto simp: FailClosed_def)
  then show ?thesis using ok by (simp add: group_result_def)
next
  case False
  then obtain gs where gs: "mget (sh_groups s) g = Some gs" "gs = group_of g s" by (auto simp: group_of_def mget_or_def)
  let ?seen = "remdups (group_consumers gs)"
  obtain errs s1 where l: "close_all e (range_map e ''seen'' ?seen s) s = (errs, s1)" by (metis prod.exhaust)
  note r = close_all_result [OF l] note co = calls_only_result [OF conjunct1 [OF r]]
  have s': "s' = (if errs = [] then s1\<lparr>sh_cleanup := filter (\<lambda>c. c \<notin> set ?seen) (sh_cleanup s1), sh_groups := mdel g (sh_groups s1)\<rparr> else s1)"
    using f False gs(1) l by (auto simp: FailClosed_def Let_def)
  show ?thesis
  proof (cases "errs = []")
    case no: False
    then show ?thesis using s' co(1) [OF ok] co(2,3) by (simp add: group_result_def)
  next
    case yes: True
    have closed: "set ?seen \<subseteq> closed (sh_calls s1)" using r yes set_range_map [OF fair, of "''seen''" ?seen s] by simp
    have s2: "s' = s1\<lparr>sh_cleanup := filter (\<lambda>c. c \<notin> set ?seen) (sh_cleanup s1), sh_groups := mdel g (sh_groups s1)\<rparr>" using s' yes by simp
    have g': "group_of h s' = (if h = g then empty_group else group_of h s1)" for h unfolding s2 by (simp add: group_of_def mget_or_def)
    have "holds s' c" if "owns s1 c" for c
    proof (cases "c \<in> set ?seen")
      case True
      then show ?thesis using closed by (auto simp: holds_def s2)
    next
      case other: False
      from that [unfolded owns_def] have "c \<in> set (sh_cleanup s') \<or> (\<exists>h. c \<in> group_holds (group_of h s'))"
      proof
        assume "\<exists>h. c \<in> group_holds (group_of h s1)"
        then obtain h where h: "c \<in> group_holds (group_of h s1)" ..
        then have "h \<noteq> g" using other gs(2) co(3) by (auto simp: group_holds_consumers)
        then show ?thesis using h g' [of h] by (intro disjI2 exI [of _ h]) simp
      qed (use other in \<open>simp add: s2\<close>)
      then show ?thesis unfolding holds_def owns_def by blast
    qed
    then have "retains s1 s'" by (rule retainsI [rotated]) (simp_all add: s2)
    moreover have "shim_ok s'"
      using co(1) [OF ok] g' unfolding shim_ok_def by (simp add: s2)
    ultimately show ?thesis using retains_trans [OF co(2)] g' co(3) by (simp add: group_result_def)
  qed
qed

lemma submap_drop_same: "wf_map m \<Longrightarrow> submap (drop_same c k m) m"
  by (simp add: drop_same_def submap_mdel submap_refl split: option.split)

lemma bound_drop_same: "wf_map m \<Longrightarrow> bound_consumers m \<subseteq> insert c (bound_consumers (drop_same c k m))"
proof
  fix x assume wf: "wf_map m" and "x \<in> bound_consumers m"
  then obtain j b where b: "mget m j = Some b" "bc_consumer b = x" by (auto simp: in_bound)
  have "mget (drop_same c k m) j = Some b \<or> x = c" using b by (auto simp: drop_same_def split: option.splits)
  then show "x \<in> insert c (bound_consumers (drop_same c k m))" using b(2) wf submap_drop_same [OF wf] by (auto simp: in_bound submap_def)
qed

lemma bound_submap:
  assumes "submap m m'" and "wf_map m'"
  shows "bound_consumers m \<subseteq> bound_consumers m'"
proof
  fix c assume "c \<in> bound_consumers m"
  then obtain k b where "mget m k = Some b" "bc_consumer b = c" using assms(1) in_bound [of m c] unfolding submap_def by blast
  then show "c \<in> bound_consumers m'" using assms(1) in_bound [OF assms(2), of c] unfolding submap_def by blast
qed

lemma forget_result:
  assumes ok: "shim_ok s" and closed: "oc_consumer x \<in> closed (sh_calls s)"
  shows "shim_ok (forget x s)" and "retains s (forget x s)" and "sh_calls (forget x s) = sh_calls s" and "\<And>c. owns (forget x s) c \<Longrightarrow> owns s c"
proof -
  let ?c = "oc_consumer x" and ?g = "oc_group x" let ?s = "s\<lparr>sh_cleanup := removeAll (oc_consumer x) (sh_cleanup s)\<rparr>" let ?gs = "group_of ?g s"
  let ?new = "\<lparr>ga_active = drop_same ?c (oc_key x) (ga_active ?gs), ga_transition = map_option (\<lambda>t. t\<lparr>pt_prepared := drop_same ?c (oc_key x) (pt_prepared t)\<rparr>) (ga_transition ?gs)\<rparr>"
  have okg: "consumers_ok (sh_calls s) ?gs" by (rule shim_okD(2) [OF ok])
  have wf: "wf_map (ga_active ?gs)" using okg by (simp add: consumers_ok_def)
  have wfp: "wf_map (prepared_of ?gs)" using okg by (auto simp: consumers_ok_def prepared_of_def pending_ok_def split: option.splits)
  have prepared: "prepared_of ?new = drop_same ?c (oc_key x) (prepared_of ?gs)" by (simp add: prepared_of_def drop_same_def split: option.split)
  have f: "forget x s = (if mget (sh_groups s) ?g = None then ?s else put_shim_group ?g ?new ?s)"
    by (simp add: forget_def group_of_def mget_or_def Let_def split: option.split)
  have ok1: "shim_ok ?s" using ok by (simp add: shim_ok_def)
  have r1: "retains s ?s" by (rule retainsI) (use closed in \<open>auto simp: holds_def owns_def\<close>)
  have "pending_ok (sh_calls s) (ga_active ?new) (t\<lparr>pt_prepared := drop_same ?c (oc_key x) (pt_prepared t)\<rparr>)" if "ga_transition ?gs = Some t" for t
  proof -
    have p: "pending_ok (sh_calls s) (ga_active ?gs) t" using okg that by (simp add: consumers_ok_def)
    show ?thesis using pending_ok_submap [OF p submap_drop_same [OF wf] submap_drop_same [OF pending_okD(1) [OF p]]] by simp
  qed
  then have "consumers_ok (sh_calls s) ?new" using submap_drop_same [OF wf, of ?c "oc_key x"] by (auto simp: consumers_ok_def submap_def)
  then have ok2: "shim_ok (put_shim_group ?g ?new ?s)" by (intro put_ok [OF ok1]) simp
  have sub: "group_holds ?gs \<subseteq> insert ?c (group_holds ?new)"
    using bound_drop_same [OF wf, of ?c "oc_key x"] bound_drop_same [OF wfp, of ?c "oc_key x"] prepared by (auto simp: group_holds_def)
  have r2: "retains ?s (put_shim_group ?g ?new ?s)" by (rule put_retains) (use sub closed in auto)
  have smaller: "group_holds ?new \<subseteq> group_holds ?gs"
    using bound_submap [OF submap_drop_same [OF wf] wf, of ?c "oc_key x"] bound_submap [OF submap_drop_same [OF wfp] wfp, of ?c "oc_key x"] prepared
    by (auto simp: group_holds_def)
  show "shim_ok (forget x s)" "sh_calls (forget x s) = sh_calls s" using ok1 ok2 f by simp_all
  show "retains s (forget x s)" using r1 r2 retains_trans f by auto
  show "owns s c" if "owns (forget x s) c" for c
    using that smaller f by (auto simp: owns_def split: if_splits)
qed

lemma close_owned_result:
  assumes "close_owned e xs s = (errs, s')" and "shim_ok s"
  shows "shim_ok s' \<and> retains s s' \<and> closed (sh_calls s) \<subseteq> closed (sh_calls s') \<and> (\<forall>c. owns s' c \<longrightarrow> owns s c) \<and> (errs = [] \<longrightarrow> oc_consumer ` set xs \<subseteq> closed (sh_calls s'))"
  using assms
proof (induction xs arbitrary: s errs)
  case (Cons x xs)
  obtain ok s1 where a: "ask e (CallClose (oc_consumer x)) s = (ok, s1)" by (cases "ask e (CallClose (oc_consumer x)) s")
  note c = calls_only_result [OF ask_only [OF a]] and ok1 = calls_only_result(1) [OF ask_only [OF a] Cons.prems(2)]
  have own1: "owns s1 y = owns s y" for y using ask_eq [OF a] by (simp add: owns_def)
  show ?case
  proof (cases ok)
    case False
    obtain errs1 where l: "close_owned e xs s1 = (errs1, s')" and e: "errs \<noteq> []" using Cons.prems(1) by (auto simp: a False split: prod.splits)
    show ?thesis using Cons.IH [OF l ok1] retains_trans [OF c(2)] c(6) e own1 by blast
  next
    case True
    have l: "close_owned e xs (forget x s1) = (errs, s')" using Cons.prems(1) by (simp add: a True)
    have cl: "oc_consumer x \<in> closed (sh_calls s1)" using ask_eq [OF a] True by simp
    note f = forget_result [OF ok1 cl]
    note i = Cons.IH [OF l f(1)]
    have "closed (sh_calls s1) \<subseteq> closed (sh_calls s')" using i f(3) by simp
    moreover have "retains s s'" using retains_trans [OF c(2) retains_trans [OF f(2)]] i by blast
    moreover have "\<forall>y. owns s' y \<longrightarrow> owns s y" using i f(4) own1 by blast
    ultimately show ?thesis using i cl c(6) by auto
  qed
qed simp

lemma once_each_covers: "oc_consumer ` set xs \<subseteq> set seen \<union> oc_consumer ` set (once_each seen xs)"
  by (induction seen xs rule: once_each.induct) auto

lemma group_owned_consumers:
  assumes "fair_order e"
  shows "oc_consumer ` set (group_owned e s (g, gs)) = group_holds gs"
proof -
  have f: "oc_consumer ` (\<lambda>(k, b). \<lparr>oc_group = g, oc_key = k, oc_consumer = bc_consumer b\<rparr>) ` X = bc_consumer ` snd ` X" for X :: "(string \<times> boundConsumer) set"
    by force
  have "set (range_map e l (ga_active gs) s @ (case ga_transition gs of None \<Rightarrow> [] | Some t \<Rightarrow> range_map e l' (pt_prepared t) s)) =
      set (ga_active gs) \<union> set (prepared_of gs)" for l l'
    by (simp add: set_range_map [OF assms] prepared_of_def split: option.split)
  then show ?thesis unfolding group_owned_def prod.case set_map f by (simp add: group_holds_def bound_consumers_def image_Un)
qed

lemma owned_list_covers:
  assumes fair: "fair_order e" and ok: "shim_ok s" and c: "owns s c"
  shows "c \<in> oc_consumer ` set (owned_list e s)"
proof -
  let ?xs = "map (\<lambda>c. \<lparr>oc_group = [], oc_key = [], oc_consumer = c\<rparr>) (range_map e ''cleanup'' (sh_cleanup s) s) @
      concat (map (group_owned e s) (range_map e ''groups'' (sh_groups s) s))"
  have "c \<in> oc_consumer ` set ?xs"
  proof (cases "c \<in> set (sh_cleanup s)")
    case True
    then have "\<lparr>oc_group = [], oc_key = [], oc_consumer = c\<rparr> \<in> set ?xs" by (simp add: set_range_map [OF fair])
    from imageI [OF this, of oc_consumer] show ?thesis by simp
  next
    case False
    then obtain g where g: "c \<in> group_holds (group_of g s)" using c unfolding owns_def by blast
    then obtain gs where gs: "mget (sh_groups s) g = Some gs" "gs = group_of g s" by (cases "mget (sh_groups s) g") (simp_all add: group_of_def mget_or_def)
    have "c \<in> oc_consumer ` set (group_owned e s (g, gs))" using g gs(2) by (simp add: group_owned_consumers [OF fair])
    then obtain y where y: "y \<in> set (group_owned e s (g, gs))" "c = oc_consumer y" by blast
    have "(g, gs) \<in> set (range_map e ''groups'' (sh_groups s) s)" unfolding set_range_map [OF fair] by (rule map_of_SomeD [OF gs(1)])
    then have "y \<in> set ?xs" using y(1) by auto
    then show ?thesis using y(2) by (rule rev_image_eqI)
  qed
  from subsetD [OF once_each_covers [of ?xs "[]"] this] show ?thesis by (simp add: owned_list_def)
qed

lemma shim_Close_result:
  assumes fair: "fair_order e" and ok: "shim_ok s" and c: "shim_Close e s = (err, s')"
  shows "shim_ok s' \<and> retains s s' \<and> (err = None \<longrightarrow> sh_groups s' = [] \<and> sh_cleanup s' = [])"
proof -
  obtain errs s1 where l: "close_owned e (owned_list e s) s = (errs, s1)" by (metis prod.exhaust)
  note r = close_owned_result [OF l ok]
  have s': "s' = (if errs = [] then s1\<lparr>sh_groups := [], sh_cleanup := []\<rparr> else s1)" "err = join_errors (map Some errs)" using c l by (simp_all add: shim_Close_def)
  show ?thesis
  proof (cases "errs = []")
    case False
    have "List.map_filter (\<lambda>e. e) (map Some errs) = errs" by (induction errs) (simp_all add: List.map_filter_simps)
    then have "err \<noteq> None" using False s'(2) by (simp add: join_errors_def split: list.split)
    then show ?thesis using r False s'(1) by auto
  next
    case True
    have "c \<in> closed (sh_calls s1)" if "owns s1 c" for c using owned_list_covers [OF fair ok] r True that by blast
    then have "retains s1 (s1\<lparr>sh_groups := [], sh_cleanup := []\<rparr>)" by (intro retainsI) (simp_all add: holds_def)
    moreover have "shim_ok (s1\<lparr>sh_groups := [], sh_cleanup := []\<rparr>)" by (simp add: shim_ok_def group_of_def mget_or_def)
    ultimately show ?thesis using r True s'(1) retains_trans by auto
  qed
qed

end
