(* ===== verification/Subscriber_Runs.thy ===== *)
theory Subscriber_Runs
  imports Subscriber_Closing
begin

text \<open>
  Runs of the subscriber shim: its operations in any order, with any answers of the environment, and what holds in all of them.
\<close>

section \<open>Runs\<close>

datatype shim_op =
    OpAddActive Binding
  | OpPrepare BindingTransition
  | OpPauseSource string string
  | OpActivate string string
  | OpRollback string string
  | OpApplySnapshot "resolver option" MembershipSnapshot
  | OpFailClosed string
  | OpClose

fun run_op :: "subscriber_env \<Rightarrow> shim_op \<Rightarrow> 'p Shim \<Rightarrow> subscriber_error option \<times> 'p Shim" where
  "run_op e (OpAddActive b) s = addActive e b s"
| "run_op e (OpPrepare t) s = shim_prepare e t s"
| "run_op e (OpPauseSource g i) s = pauseSource e g i s"
| "run_op e (OpActivate g i) s = shim_activate e g i s"
| "run_op e (OpRollback g i) s = shim_rollback e g i s"
| "run_op e (OpApplySnapshot d snap) s = shim_ApplySnapshot e d snap s"
| "run_op e (OpFailClosed g) s = FailClosed e g s"
| "run_op e OpClose s = shim_Close e s"

text \<open>No operation adds an active consumer for a key that the pending transition of the group has prepared or closed.\<close>

definition careful_op :: "shim_op \<Rightarrow> 'p Shim \<Rightarrow> bool" where
  "careful_op op s =
     (case op of
        OpAddActive b \<Rightarrow> \<not> reused_key b s
      | OpApplySnapshot d snap \<Rightarrow>
          (case TransitionFromSnapshot snap d of Inl _ \<Rightarrow> True | Inr t \<Rightarrow> list_all (\<lambda>b. \<not> reused_key b s) (bt_source t))
      | _ \<Rightarrow> True)"

text \<open>With \<open>closing\<close>, the run may include calls of \<open>Close\<close> that fail.\<close>

inductive shim_reachable :: "bool \<Rightarrow> subscriber_env \<Rightarrow> 'p Shim \<Rightarrow> bool" for closing e where
  new_shim: "NewShim c = Inr s \<Longrightarrow> shim_reachable closing e s"
| op_step: "\<lbrakk>shim_reachable closing e s; careful_op op s; run_op e op s = (err, s'); op = OpClose \<longrightarrow> closing \<or> err = None\<rbrakk>
    \<Longrightarrow> shim_reachable closing e s'"

section \<open>Coverage\<close>

lemma covered_group:
  assumes r: "group_result g s s'" and c: "covered s" and own: "\<And>t. pending g s' = Some t \<Longrightarrow> pending_covered (group_of g s') t"
  shows "covered s'"
  unfolding covered_def
proof (intro allI impI)
  fix h t assume t: "pending h s' = Some t"
  show "pending_covered (group_of h s') t"
  proof (cases "h = g")
    case True
    then show ?thesis using own t by simp
  next
    case False
    then have "group_of h s' = group_of h s" using r by (simp add: group_result_def)
    then show ?thesis using c t unfolding covered_def pending_def by simp
  qed
qed

lemma prepared_covered:
  assumes "prepared_result t s s'" and c: "covered s"
  shows "covered s'"
proof -
  consider "\<forall>g. group_of g s' = group_of g s"
    | prepared where "\<forall>g. group_of g s' = (if g = bt_group t then group_of g s\<lparr>ga_transition := Some (new_pending t prepared)\<rparr> else group_of g s)"
      "pending_covered (group_of (bt_group t) s) (new_pending t prepared)"
    using assms(1) unfolding prepared_result_def by blast
  then show ?thesis
  proof cases
    case 1
    then show ?thesis using c unfolding covered_def pending_def by simp
  next
    case 2
    then show ?thesis using c unfolding covered_def pending_def by (auto simp: pending_covered_def)
  qed
qed

lemma find_pending_pending:
  assumes "pending g s = Some t"
  shows "find_pending g (bt_id (pt_spec t)) s = Inr (group_of g s, t)"
  using assms by (cases "mget (sh_groups s) g") (simp_all add: find_pending_def pending_def group_of_def mget_or_def)

lemma find_pending_Inl: "find_pending g i s = Inl x \<Longrightarrow> shim_activate e g i s = (Some x, s) \<and> shim_rollback e g i s = (Some x, s)"
  by (simp add: shim_activate_def shim_rollback_def)

section \<open>Snapshots\<close>

text \<open>The bindings of a snapshot: its brokers, in its epoch and group.\<close>

definition bindings_of_snapshot :: "MembershipSnapshot \<Rightarrow> Binding list \<Rightarrow> bool" where
  "bindings_of_snapshot snap bs \<longleftrightarrow> map bi_broker bs = ms_current snap \<and> (\<forall>b\<in>set bs. bi_epoch b = ms_epoch snap)"

lemma membershipMatches_eq: "membershipMatches bs ms \<longleftrightarrow> map bi_broker bs = ms"
  by (auto simp: membershipMatches_def list_all2_conv_all_nth list_eq_iff_nth_eq)

lemma end_pending_result:
  assumes fair: "fair_order e" and ok: "shim_ok s" and t: "pending (ms_group snap) s = Some t" and r: "end_pending e snap t s = (res, s')"
  shows "group_result (ms_group snap) s s'" and "res = Inl x \<Longrightarrow> remarks s s'" and "res = Inr target \<Longrightarrow> pending (ms_group snap) s' = None"
    and "res = Inr target \<Longrightarrow> covered s \<Longrightarrow> bindings_of_snapshot snap target \<and>
      (\<forall>b\<in>set target. mget (ga_active (group_of (ms_group snap) s')) (binding_key b) \<noteq> None)"
proof -
  let ?g = "ms_group snap" and ?i = "bt_id (pt_spec t)"
  note f = find_pending_pending [OF t]
  have pc: "pending_covered (group_of ?g s) t" if "covered s" using that t by (simp add: covered_def)
  consider (proposed) err where "bt_proposed_epoch (pt_spec t) = ms_epoch snap" "membershipMatches (bt_proposed (pt_spec t)) (ms_current snap)"
      "shim_activate e ?g ?i s = (err, s')" "res = (case err of None \<Rightarrow> Inr (bt_proposed (pt_spec t)) | Some x \<Rightarrow> Inl x)"
    | (source) err where "bt_source_epoch (pt_spec t) = ms_epoch snap" "membershipMatches (bt_source (pt_spec t)) (ms_current snap)"
      "shim_rollback e ?g ?i s = (err, s')" "res = (case err of None \<Rightarrow> Inr (bt_source (pt_spec t)) | Some x \<Rightarrow> Inl x)"
    | (stale) x where "res = Inl x" "s' = s"
    using r by (auto simp: end_pending_def split: if_splits prod.splits option.splits)
  then have "group_result ?g s s' \<and> (\<forall>x. res = Inl x \<longrightarrow> remarks s s') \<and> (\<forall>target. res = Inr target \<longrightarrow> pending ?g s' = None \<and>
      (covered s \<longrightarrow> bindings_of_snapshot snap target \<and> (\<forall>b\<in>set target. mget (ga_active (group_of ?g s')) (binding_key b) \<noteq> None)))"
  proof cases
    case proposed
    note a = shim_activate_result [OF fair ok f proposed(3)]
    have "mget (ga_active (group_of ?g s')) (binding_key b) \<noteq> None" if h: "err = None" "covered s" "b \<in> set (bt_proposed (pt_spec t))" for b
    proof -
      obtain q where "mget (pt_prepared t) (binding_key b) = Some q" using pc [OF h(2)] h(3) by (auto simp: pending_covered_def)
      then show ?thesis using a(5) [OF h(1), of "binding_key b"] by (simp add: cutover_active_def)
    qed
    moreover have "bindings_of_snapshot snap (bt_proposed (pt_spec t))" if "covered s"
      using pc [OF that] transition_Validate_None(3) [of "pt_spec t"] proposed(1,2) by (simp add: bindings_of_snapshot_def membershipMatches_eq pending_covered_def)
    ultimately show ?thesis using a(1,3,4) proposed(4) by (auto simp: pending_def split: option.splits)
  next
    case source
    note a = shim_rollback_result [OF fair ok f source(3)]
    have "mget (ga_active (group_of ?g s')) (binding_key b) \<noteq> None" if "err = None" "covered s" "b \<in> set (bt_source (pt_spec t))" for b
      using a pc [OF that(2)] that(1,3) by (simp add: pending_covered_def)
    moreover have "bindings_of_snapshot snap (bt_source (pt_spec t))" if "covered s"
      using pc [OF that] transition_Validate_None(2) [of "pt_spec t"] source(1,2) by (simp add: bindings_of_snapshot_def membershipMatches_eq pending_covered_def)
    ultimately show ?thesis using a source(4) by (auto simp: pending_def split: option.splits)
  next
    case stale
    then show ?thesis using ok remarks_calls [of s s] by (simp add: group_result_def)
  qed
  then show "group_result (ms_group snap) s s'" "res = Inl x \<Longrightarrow> remarks s s'" "res = Inr target \<Longrightarrow> pending (ms_group snap) s' = None"
    "res = Inr target \<Longrightarrow> covered s \<Longrightarrow> bindings_of_snapshot snap target \<and>
      (\<forall>b\<in>set target. mget (ga_active (group_of (ms_group snap) s')) (binding_key b) \<noteq> None)" by blast+
qed

lemma resolve_binding_Inr:
  "resolve_binding d snap epoch proposed broker = Inr b \<Longrightarrow> bi_broker b = broker \<and> bi_epoch b = epoch \<and> bi_group b = ms_group snap"
  by (auto simp: resolve_binding_def split: option.splits)

lemma bootstrap_loop_result:
  assumes "bootstrap_loop e d snap ms current s = (res, s')" and "shim_ok s" and "pending (ms_group snap) s = None"
  shows "shim_ok s' \<and> retains s s' \<and> grows s s' \<and> (\<forall>current'. res = Inr current' \<longrightarrow> (\<exists>bs. map bi_broker bs = ms \<and>
      (\<forall>b\<in>set bs. bi_epoch b = ms_epoch snap \<and> mget (ga_active (group_of (ms_group snap) s')) (binding_key b) \<noteq> None) \<and>
      set current' = set current \<union> binding_key ` set bs))"
  using assms
proof (induction ms arbitrary: current s)
  case Nil
  then show ?case by auto
next
  case (Cons m ms)
  show ?case
  proof (cases "resolve_binding d snap (ms_epoch snap) False m")
    case (Inl x)
    then show ?thesis using Cons.prems by auto
  next
    case (Inr b)
    note b = resolve_binding_Inr [OF Inr]
    obtain err s1 where a: "addActive e b s = (err, s1)" by (cases "addActive e b s")
    have fresh: "\<not> reused_key b s" using Cons.prems(3) b by (simp add: reused_key_def)
    note o = addActive_ok [OF Cons.prems(2) a fresh] and g = addActive_grows [OF a]
    show ?thesis
    proof (cases err)
      case (Some x)
      then show ?thesis using Cons.prems(1) Inr a o g(1) by auto
    next
      case None
      have l: "bootstrap_loop e d snap ms (binding_key b # current) s1 = (res, s')" using Cons.prems(1) Inr a None by simp
      have p: "pending (ms_group snap) s1 = None" using g(1) Cons.prems(3) by (simp add: grows_def)
      note i = Cons.IH [OF l conjunct1 [OF o] p]
      have g1: "grows s1 s'" using i by blast
      have act: "mget (ga_active (group_of (ms_group snap) s')) (binding_key b) \<noteq> None"
        using g(2) [OF None] g1 b unfolding grows_def by (metis not_None_eq)
      have "\<exists>bs. map bi_broker bs = m # ms \<and> (\<forall>b\<in>set bs. bi_epoch b = ms_epoch snap \<and> mget (ga_active (group_of (ms_group snap) s')) (binding_key b) \<noteq> None) \<and>
          set current' = set current \<union> binding_key ` set bs" if "res = Inr current'" for current'
      proof -
        obtain bs where bs: "map bi_broker bs = ms" "\<forall>b\<in>set bs. bi_epoch b = ms_epoch snap \<and> mget (ga_active (group_of (ms_group snap) s')) (binding_key b) \<noteq> None"
          "set current' = set (binding_key b # current) \<union> binding_key ` set bs" using i \<open>res = Inr current'\<close> by blast
        then show ?thesis using b act by (intro exI [of _ "b # bs"]) auto
      qed
      moreover have "shim_ok s'" "retains s s'" using i retains_trans [OF conjunct2 [OF o]] by blast+
      ultimately show ?thesis using grows_trans [OF g(1) g1] by (intro conjI allI impI)
    qed
  qed
qed

lemma apply_active_result:
  assumes fair: "fair_order e" and ok: "shim_ok s" and a: "apply_active e d snap s = (err, s')"
  shows "shim_ok s' \<and> retains s s' \<and> (covered s \<longrightarrow> covered s') \<and> (err = None \<longrightarrow> pending (ms_group snap) s' = None \<and>
      (covered s \<longrightarrow> (\<exists>bs. bindings_of_snapshot snap bs \<and> (\<forall>k. mget (ga_active (group_of (ms_group snap) s')) k \<noteq> None \<longleftrightarrow> k \<in> binding_key ` set bs))))"
proof -
  let ?g = "ms_group snap"
  have close: "shim_ok s' \<and> retains s1 s' \<and> (covered s1 \<longrightarrow> covered s') \<and> (err = None \<longrightarrow> pending ?g s' = None \<and>
      (\<forall>k. mget (ga_active (group_of ?g s')) k \<noteq> None \<longleftrightarrow> k \<in> set current))"
    if c: "closeObsoleteActive e ?g current s1 = (err, s')" and ok1: "shim_ok s1" and n: "pending ?g s1 = None"
      and act: "\<forall>k\<in>set current. mget (ga_active (group_of ?g s1)) k \<noteq> None" for current s1
  proof -
    note r = closeObsoleteActive_result [OF fair ok1 c]
    have "covered s'" if "covered s1" using covered_group [OF conjunct1 [OF r] that] r n by simp
    moreover have "mget (ga_active (group_of ?g s')) k \<noteq> None \<longleftrightarrow> k \<in> set current" if "err = None" for k
      using r act that by (cases "k \<in> set current") auto
    ultimately show ?thesis using r n by (simp add: group_result_def)
  qed
  show ?thesis
  proof (cases "pending ?g s")
    case (Some t)
    obtain res s1 where l: "end_pending e snap t s = (res, s1)" by (cases "end_pending e snap t s")
    note ep = end_pending_result [OF fair ok Some l]
    have r1: "shim_ok s1" "retains s s1" using ep(1) by (simp_all add: group_result_def)
    show ?thesis
    proof (cases res)
      case (Inl x)
      then have "s' = s1" "err = Some x" using a Some l by (simp_all add: apply_active_def)
      then show ?thesis using r1 remarks_covered [OF ep(2) [OF Inl]] by simp
    next
      case (Inr target)
      have c: "closeObsoleteActive e ?g (map binding_key target) s1 = (err, s')" using a Some l Inr by (simp add: apply_active_def)
      have n: "pending ?g s1 = None" using ep(3) [OF Inr] .
      have co1: "covered s1" if "covered s" using covered_group [OF ep(1) that] n by simp
      show ?thesis
      proof (cases "covered s")
        case True
        note t = ep(4) [OF Inr True]
        have "\<forall>k\<in>set (map binding_key target). mget (ga_active (group_of ?g s1)) k \<noteq> None" using t by auto
        from close [OF c r1(1) n this] show ?thesis using t co1 retains_trans [OF r1(2)] by auto
      next
        case False
        note r = closeObsoleteActive_result [OF fair r1(1) c]
        then show ?thesis using False n retains_trans [OF r1(2)] by (auto simp: group_result_def)
      qed
    qed
  next
    case None
    obtain res s1 where l: "bootstrap_loop e d snap (ms_current snap) [] s = (res, s1)" by (cases "bootstrap_loop e d snap (ms_current snap) [] s")
    note b = bootstrap_loop_result [OF l ok None]
    have n: "pending ?g s1 = None" using b None by (simp add: grows_def)
    have co1: "covered s1" if "covered s" using grows_covered b that by blast
    show ?thesis
    proof (cases res)
      case (Inl x)
      then have "s' = s1" "err = Some x" using a None l by (simp_all add: apply_active_def)
      then show ?thesis using b co1 by simp
    next
      case (Inr current)
      have c: "closeObsoleteActive e ?g current s1 = (err, s')" using a None l Inr by (simp add: apply_active_def)
      obtain bs where bs: "map bi_broker bs = ms_current snap" "\<forall>b\<in>set bs. bi_epoch b = ms_epoch snap \<and> mget (ga_active (group_of ?g s1)) (binding_key b) \<noteq> None"
        "set current = binding_key ` set bs" using b Inr by auto
      have s: "bindings_of_snapshot snap bs" using bs(1,2) by (simp add: bindings_of_snapshot_def)
      have "\<forall>k\<in>set current. mget (ga_active (group_of ?g s1)) k \<noteq> None" using bs(2,3) by auto
      from close [OF c conjunct1 [OF b] n this] show ?thesis using s bs(3) co1 b retains_trans by metis
    qed
  qed
qed

lemma shim_ApplySnapshot_result:
  assumes fair: "fair_order e" and ok: "shim_ok s" and c: "careful_op (OpApplySnapshot d snap) s" and a: "shim_ApplySnapshot e d snap s = (err, s')"
  shows "shim_ok s' \<and> retains s s' \<and> (covered s \<longrightarrow> covered s')"
proof -
  consider "s' = s" | dest where "apply_active e dest snap s = (err, s')"
    | t x where "TransitionFromSnapshot snap d = Inr t" "addActives e (bt_source t) s = (Some x, s')"
    | t s1 where "TransitionFromSnapshot snap d = Inr t" "addActives e (bt_source t) s = (None, s1)" "shim_prepare e t s1 = (err, s')"
    using a by (auto simp: shim_ApplySnapshot_def split: option.splits if_splits sum.splits prod.splits)
  then show ?thesis
  proof cases
    case 1
    then show ?thesis using ok by simp
  next
    case 2
    then show ?thesis using apply_active_result [OF fair ok 2] by blast
  next
    case 3
    have "\<forall>b\<in>set (bt_source t). \<not> reused_key b s" using c 3(1) by (simp add: careful_op_def list_all_iff)
    then show ?thesis using addActives_result [OF ok 3(2)] grows_covered by blast
  next
    case 4
    have "\<forall>b\<in>set (bt_source t). \<not> reused_key b s" using c 4(1) by (simp add: careful_op_def list_all_iff)
    then have r: "shim_ok s1" "retains s s1" "grows s s1" using addActives_result [OF ok 4(2)] by simp_all
    note p = shim_prepare_result [OF fair r(1) 4(3)]
    show ?thesis using p prepared_covered [OF p] grows_covered [OF r(3)] retains_trans [OF r(2)] unfolding prepared_result_def by blast
  qed
qed

lemma run_op_result:
  assumes fair: "fair_order e" and ok: "shim_ok s" and c: "careful_op op s" and r: "run_op e op s = (err, s')"
  shows "shim_ok s' \<and> retains s s'" and "covered s \<Longrightarrow> op = OpClose \<longrightarrow> err = None \<Longrightarrow> covered s'"
proof -
  have "shim_ok s' \<and> retains s s' \<and> (covered s \<and> (op = OpClose \<longrightarrow> err = None) \<longrightarrow> covered s')"
  proof (cases op)
    case (OpAddActive b)
    then have a: "addActive e b s = (err, s')" and f: "\<not> reused_key b s" using r c by (simp_all add: careful_op_def)
    show ?thesis using addActive_ok [OF ok a f] grows_covered [OF addActive_grows(1) [OF a]] by blast
  next
    case (OpPrepare t)
    then have p: "prepared_result t s s'" using shim_prepare_result [OF fair ok] r by simp
    then show ?thesis using prepared_covered [OF p] unfolding prepared_result_def by blast
  next
    case (OpPauseSource g i)
    then show ?thesis using pauseSource_result [OF ok, of e g i err s'] r remarks_covered by auto
  next
    case (OpActivate g i)
    then have a: "shim_activate e g i s = (err, s')" using r by simp
    show ?thesis
    proof (cases "find_pending g i s")
      case (Inl x)
      then show ?thesis using find_pending_Inl [OF Inl, of e] a ok by simp
    next
      case (Inr x)
      obtain gs t where f: "find_pending g i s = Inr (gs, t)" using Inr by (cases x) simp
      note act = shim_activate_result [OF fair ok f a]
      have "covered s'" if "covered s"
        using remarks_covered [OF act(3) that] covered_group [OF act(1) that] act(4) by (cases err) (auto simp: pending_def)
      then show ?thesis using act(1) by (simp add: group_result_def)
    qed
  next
    case (OpRollback g i)
    then have a: "shim_rollback e g i s = (err, s')" using r by simp
    show ?thesis
    proof (cases "find_pending g i s")
      case (Inl x)
      then show ?thesis using find_pending_Inl [OF Inl, of e] a ok by simp
    next
      case (Inr x)
      obtain gs t where f: "find_pending g i s = Inr (gs, t)" using Inr by (cases x) simp
      note act = shim_rollback_result [OF fair ok f a]
      have "covered s'" if "covered s"
        using act remarks_covered [OF _ that] covered_group [OF conjunct1 [OF act] that] by (cases err) (auto simp: pending_def)
      then show ?thesis using act by (simp add: group_result_def)
    qed
  next
    case (OpApplySnapshot d snap)
    then show ?thesis using shim_ApplySnapshot_result [OF fair ok, of d snap err s'] c r by simp
  next
    case (OpFailClosed g)
    then have f: "group_result g s s'" "group_of g s' = group_of g s \<or> group_of g s' = empty_group" using FailClosed_result [OF fair ok, of g err s'] r by auto
    have "covered s'" if "covered s"
      by (rule covered_group [OF f(1) that]) (use f(2) that in \<open>auto simp: covered_def pending_def\<close>)
    then show ?thesis using f(1) by (simp add: group_result_def)
  next
    case OpClose
    then have c: "shim_ok s' \<and> retains s s' \<and> (err = None \<longrightarrow> sh_groups s' = [] \<and> sh_cleanup s' = [])" using shim_Close_result [OF fair ok] r by simp
    then have "err = None \<Longrightarrow> covered s'" by (simp add: covered_def pending_def group_of_def mget_or_def)
    then show ?thesis using c OpClose by blast
  qed
  then show "shim_ok s' \<and> retains s s'" "covered s \<Longrightarrow> op = OpClose \<longrightarrow> err = None \<Longrightarrow> covered s'" by blast+
qed

lemma NewShim_ok:
  assumes "NewShim c = Inr s"
  shows "shim_ok s \<and> accounted s \<and> covered s"
proof -
  have "sh_groups s = []" "sh_calls s = []" using assms by (auto simp: NewShim_def split: option.splits sum.splits if_splits)
  then show ?thesis by (simp add: shim_ok_def accounted_def covered_def pending_def group_of_def mget_or_def)
qed

lemma reachable_result:
  assumes "shim_reachable closing e s" and "fair_order e"
  shows "shim_ok s \<and> accounted s \<and> (\<not> closing \<longrightarrow> covered s)"
  using assms
proof (induction rule: shim_reachable.induct)
  case (new_shim c s)
  then show ?case using NewShim_ok by blast
next
  case (op_step s op err s')
  note r = run_op_result [OF op_step.prems _ op_step.hyps(2,3)]
  show ?case using op_step.IH [OF op_step.prems] r retains_accounted op_step.hyps(4) by blast
qed

end
