(* ===== verification/Subscriber_Consumers.thy ===== *)
theory Subscriber_Consumers
  imports Subscriber_Runs
begin

text \<open>
  The properties of the consumers of the subscriber shim: what an active snapshot leaves, the order of a cutover, and that no
  consumer is lost; and the run that their witnesses use.
\<close>

section \<open>A run\<close>

text \<open>An environment whose calls succeed: consumers are numbered by the calls made before, and maps are visited in order.\<close>

definition sub_env :: subscriber_env where
  "sub_env = \<lparr>se_prepare = (\<lambda>calls b. Inr (length calls)), se_answer = (\<lambda>calls q. True), se_order = (\<lambda>calls loop n. [0..<n])\<rparr>"

definition sub_resolver :: resolver where "sub_resolver b epoch d = Some ''queue''"

definition sub_library :: "unit CustomerLibrary" where
  "sub_library = \<lparr>cu_group = (\<lambda>m. Inr ''events-a''), cu_hash = (\<lambda>m. Inr ''h''),
     cu_policy = Some \<lparr>GetRendezvousScore = (\<lambda>i. Inr []), RoutingAlgorithm = ''swlb-rendezvous-v1''\<rparr>\<rparr>"

definition sub_config :: "unit subscriber_Config" where
  "sub_config = \<lparr>sf_participant = ''s1'', sf_library = Some sub_library, sf_dependencies = True,
     sf_contracts = [(''events-a'', \<lparr>xc_hash = ''entity-affinity-v1'', xc_library = ''v1''\<rparr>)]\<rparr>"

definition sub_shim :: "unit Shim" where
  "sub_shim = \<lparr>sh_participant = ''s1'', sh_library = sub_library, sh_contracts = sf_contracts sub_config, sh_groups = [], sh_cleanup = [], sh_calls = []\<rparr>"

definition sub_old :: Binding where
  "sub_old = \<lparr>bi_group = ''events-a'', bi_broker = ''broker-a'', bi_endpoint = ''amqps://a.example:5671'', bi_epoch = 1, bi_destination = ''queue''\<rparr>"

definition sub_new :: Binding where
  "sub_new = \<lparr>bi_group = ''events-a'', bi_broker = ''broker-b'', bi_endpoint = ''amqps://b.example:5671'', bi_epoch = 2, bi_destination = ''queue''\<rparr>"

definition sub_transition :: BindingTransition where
  "sub_transition = \<lparr>bt_id = ''t1'', bt_group = ''events-a'', bt_source_epoch = 1, bt_proposed_epoch = 2, bt_source = [sub_old], bt_proposed = [sub_new]\<rparr>"

lemma sub_env_fair: "fair_order sub_env" by (simp add: fair_order_def sub_env_def)

lemma sub_shim_new: "NewShim sub_config = Inr sub_shim"
  by (simp add: NewShim_def sub_config_def sub_library_def sub_shim_def RoutingPolicy_def)

lemma sub_keys: "binding_key sub_old \<noteq> binding_key sub_new"
  by (simp add: binding_key_def sub_old_def sub_new_def)

lemma sub_bindings [simp]:
  "binding_Validate sub_old = None" "binding_Validate sub_new = None" "bi_group sub_old = ''events-a''" "bi_group sub_new = ''events-a''"
  "bi_epoch sub_old = 1" "bi_epoch sub_new = 2"
  by (simp_all add: binding_Validate_def sub_old_def sub_new_def)

lemma sub_answers [simp]:
  "ask sub_env q s = (True, s\<lparr>sh_calls := sh_calls s @ [Answered q True]\<rparr>)"
  "establish sub_env b s = (Inr (length (sh_calls s)), s\<lparr>sh_calls := sh_calls s @ [Established b (Inr (length (sh_calls s)))]\<rparr>)"
  "range_map sub_env loop m s = m"
  by (simp_all add: ask_def establish_def range_map_def sub_env_def map_nth Let_def)

lemma sub_put [simp]: "mput k v [] = [(k, v)]" "mput k v [(k, w)] = [(k, v)]" by (simp_all add: mput_def)

text \<open>A consumer for the old binding is active; then a transition to the new one is prepared.\<close>

definition sub_active :: "unit Shim" where
  "sub_active = sub_shim\<lparr>sh_groups := [(''events-a'', \<lparr>ga_active = [(binding_key sub_old, \<lparr>bc_binding = sub_old, bc_consumer = 0\<rparr>)], ga_transition = None\<rparr>)],
     sh_calls := [Established sub_old (Inr 0), Answered (CallActivate 0) True]\<rparr>"

lemma sub_add: "addActive sub_env sub_old sub_shim = (None, sub_active)"
  by (simp add: addActive_def Let_def ensureGroup_def group_of_def mget_or_def put_shim_group_def sub_shim_def sub_active_def empty_group_def)

definition sub_pending :: preparedTransition where
  "sub_pending = new_pending sub_transition [(binding_key sub_new, \<lparr>bc_binding = sub_new, bc_consumer = 2\<rparr>)]"

definition sub_group :: shimGroup where
  "sub_group = \<lparr>ga_active = [(binding_key sub_old, \<lparr>bc_binding = sub_old, bc_consumer = 0\<rparr>)], ga_transition = Some sub_pending\<rparr>"

definition sub_prepared :: "unit Shim" where
  "sub_prepared = sub_shim\<lparr>sh_groups := [(''events-a'', sub_group)],
     sh_calls := sh_calls sub_active @ [Established sub_new (Inr 2), Answered (CallReport (readiness sub_transition [sub_new] True [] sub_shim)) True]\<rparr>"

lemma sub_fields [simp]:
  "bt_id sub_transition = ''t1''" "bt_group sub_transition = ''events-a''" "bt_source_epoch sub_transition = 1" "bt_proposed_epoch sub_transition = 2"
  "bt_source sub_transition = [sub_old]" "bt_proposed sub_transition = [sub_new]"
  "pt_spec sub_pending = sub_transition" "pt_prepared sub_pending = [(binding_key sub_new, \<lparr>bc_binding = sub_new, bc_consumer = 2\<rparr>)]"
  "pt_activated sub_pending = []" "pt_closed_source sub_pending = []" "pt_closed_prepared sub_pending = []"
  "ga_active sub_group = [(binding_key sub_old, \<lparr>bc_binding = sub_old, bc_consumer = 0\<rparr>)]" "ga_transition sub_group = Some sub_pending"
  "sh_groups sub_prepared = [(''events-a'', sub_group)]" "sh_cleanup sub_prepared = []"
  by (simp_all add: sub_transition_def sub_pending_def new_pending_def sub_group_def sub_prepared_def sub_shim_def)

lemma sub_transition_valid [simp]: "transition_Validate sub_transition = None"
  by (simp add: transition_Validate_def word_le_nat_alt)

lemma sub_prepare: "shim_prepare sub_env sub_transition sub_active = (None, sub_prepared)"
  using sub_keys
  by (simp add: shim_prepare_def Let_def ensureGroup_def group_of_def mget_or_def sub_active_def missingBindings_def
      report_def put_shim_group_def readiness_def sub_prepared_def sub_group_def sub_pending_def sub_shim_def numeral_2_eq_2)

lemma sub_active_reachable: "shim_reachable False sub_env sub_active"
proof (rule op_step [OF new_shim [OF sub_shim_new], where op = "OpAddActive sub_old" and err = None])
  show "careful_op (OpAddActive sub_old) sub_shim" by (simp add: careful_op_def reused_key_def pending_def group_of_def mget_or_def sub_shim_def)
qed (simp_all add: sub_add)

lemma sub_prepared_reachable: "shim_reachable False sub_env sub_prepared"
  by (rule op_step [OF sub_active_reachable, where op = "OpPrepare sub_transition" and err = None]) (simp_all add: careful_op_def sub_prepare)

section \<open>Active snapshots\<close>

text \<open>
  C2. A subscriber converges to an active snapshot. When \<open>ApplySnapshot\<close> of an active snapshot returns without error, in any run of the shim
  in which no \<open>Close\<close> has failed and no key of a pending transition was added again, then whether the snapshot completes the pending transition,
  takes it back or finds none, no transition of the group is pending and the group has exactly the active consumers of the snapshot: those of
  one binding per current broker, in order, in the epoch of the snapshot.
\<close>

theorem active_snapshot_converges:
  assumes "fair_order e" and "shim_reachable False e s" and "ms_phase snap = CtlActive" and "shim_ApplySnapshot e d snap s = (None, s')"
  shows "pending (ms_group snap) s' = None \<and> (\<exists>bs. map bi_broker bs = ms_current snap \<and> (\<forall>b\<in>set bs. bi_epoch b = ms_epoch snap) \<and>
      (\<forall>k. mget (ga_active (group_of (ms_group snap) s')) k \<noteq> None \<longleftrightarrow> k \<in> binding_key ` set bs))"
proof -
  have inv: "shim_ok s" "covered s" using reachable_result [OF assms(2,1)] by simp_all
  obtain dest where "apply_active e dest snap s = (None, s')"
    using assms(3,4) by (auto simp: shim_ApplySnapshot_def check_apply_def split: option.splits)
  from apply_active_result [OF assms(1) inv(1) this] inv(2) show ?thesis unfolding bindings_of_snapshot_def by blast
qed

lemma sub_apply:
  "shim_ApplySnapshot sub_env (Some sub_resolver) sample_active sub_shim = (None, sub_active)"
proof -
  have r: "resolve_binding sub_resolver sample_active 1 False ''broker-a'' = Inr sub_old"
    by (simp add: resolve_binding_def sub_resolver_def BrokerEndpoint_def sample_active_def sub_old_def)
  have f: "ms_epoch sample_active = 1" "ms_group sample_active = ''events-a''" "ms_current sample_active = [''broker-a'']" "ms_phase sample_active = CtlActive"
    "ms_algorithm sample_active = ''swlb-rendezvous-v1''" "ms_hash sample_active = ''entity-affinity-v1''" "ms_library sample_active = ''v1''"
    by (simp_all add: sample_active_def)
  have "check_apply (Some sub_resolver) sample_active sub_shim = None"
    by (simp add: check_apply_def sample_active_valid f validateContract_def sub_shim_def sub_config_def sub_library_def RoutingPolicy_def)
  moreover have "pending ''events-a'' sub_shim = None" by (simp add: pending_def group_of_def mget_or_def sub_shim_def)
  moreover have "closeObsoleteActive sub_env ''events-a'' [binding_key sub_old] sub_active = (None, sub_active)" by (simp add: closeObsoleteActive_def sub_active_def)
  ultimately show ?thesis by (simp add: shim_ApplySnapshot_def f apply_active_def r sub_add)
qed

theorem active_snapshot_converges_witness:
  "shim_ApplySnapshot sub_env (Some sub_resolver) sample_active sub_shim = (None, sub_active) \<and> pending ''events-a'' sub_active = None"
proof -
  have "pending (ms_group sample_active) sub_active = None"
    using active_snapshot_converges [OF sub_env_fair new_shim [OF sub_shim_new] _ sub_apply] by (simp add: sample_active_def)
  then show ?thesis using sub_apply by (simp add: sample_active_def)
qed

section \<open>Cutover\<close>

text \<open>
  C12. The cutover leaves no gap. \<open>activate\<close> first calls \<open>Activate\<close> of prepared consumers and then \<open>Close\<close> of active consumers of the source epoch, and it closes
  the first source only when every prepared consumer has been activated, in this call or in an earlier one that failed; this holds in every run of the
  shim and for all answers of the consumers. When it succeeds, the prepared consumers have replaced the sources and the transition is gone; when it
  fails, the active and prepared consumers and the transition are what they were, so it can be repeated.
\<close>

theorem sources_closed_after_activation:
  assumes "fair_order e" and "shim_reachable closing e s" and "find_pending g i s = Inr (gs, t)" and "shim_activate e g i s = (err, s')"
  shows "(\<exists>as cs. sh_calls s' = sh_calls s @ as @ cs \<and>
        (\<forall>ev\<in>set as. \<exists>p\<in>set (pt_prepared t). \<exists>ok. ev = Answered (CallActivate (bc_consumer (snd p))) ok) \<and>
        (\<forall>ev\<in>set cs. \<exists>p\<in>set (ga_active gs). bi_epoch (bc_binding (snd p)) = bt_source_epoch (pt_spec t) \<and>
           (\<exists>ok. ev = Answered (CallClose (bc_consumer (snd p))) ok)) \<and>
        (cs \<noteq> [] \<or> err = None \<longrightarrow> (\<forall>p\<in>set (pt_prepared t). Answered (CallActivate (bc_consumer (snd p))) True \<in> set (sh_calls s @ as)))) \<and>
     (err = None \<longrightarrow> pending g s' = None \<and> (\<forall>k. mget (ga_active (group_of g s')) k =
        (case mget (pt_prepared t) k of
           Some p \<Rightarrow> Some p
         | None \<Rightarrow> (case mget (ga_active gs) k of
             None \<Rightarrow> None | Some a \<Rightarrow> if bi_epoch (bc_binding a) = bt_source_epoch (pt_spec t) then None else Some a)))) \<and>
     (err \<noteq> None \<longrightarrow> ga_active (group_of g s') = ga_active gs \<and>
        (\<exists>t'. pending g s' = Some t' \<and> pt_spec t' = pt_spec t \<and> pt_prepared t' = pt_prepared t))"
proof -
  have ok: "shim_ok s" using reachable_result [OF assms(2,1)] by simp
  note p = find_pending_Inr [OF assms(3)] and r = shim_activate_result [OF assms(1) ok assms(3,4)]
  have "ga_active (group_of g s') = ga_active gs" "\<exists>t'. pending g s' = Some t' \<and> pt_spec t' = pt_spec t \<and> pt_prepared t' = pt_prepared t" if "err \<noteq> None"
    using r(3) [OF that, unfolded remarks_def, rule_format, of g] p(2,3) by (auto simp: option_rel_Some1)
  moreover have "pending g s' = None" "\<forall>k. mget (ga_active (group_of g s')) k = (case mget (pt_prepared t) k of Some p \<Rightarrow> Some p | None \<Rightarrow> (case mget (ga_active gs) k of
      None \<Rightarrow> None | Some a \<Rightarrow> if bi_epoch (bc_binding a) = bt_source_epoch (pt_spec t) then None else Some a))" if "err = None"
    using r(4,5) [OF that] by (simp_all add: pending_def cutover_active_def of_epoch_def split: option.split)
  ultimately show ?thesis
    using r(2) unfolding activation_order_def of_epoch_def started_def mem_Collect_eq by (intro conjI impI) assumption+
qed

definition sub_moved :: "unit Shim" where
  "sub_moved = sub_prepared\<lparr>sh_groups := [(''events-a'', \<lparr>ga_active = [(binding_key sub_new, \<lparr>bc_binding = sub_new, bc_consumer = 2\<rparr>)], ga_transition = None\<rparr>)],
     sh_calls := sh_calls sub_prepared @ [Answered (CallActivate 2) True, Answered (CallClose 0) True]\<rparr>"

lemma sub_find: "find_pending ''events-a'' ''t1'' sub_prepared = Inr (sub_group, sub_pending)"
  by (simp add: find_pending_def)

lemma sub_activate: "shim_activate sub_env ''events-a'' ''t1'' sub_prepared = (None, sub_moved)"
  by (simp add: shim_activate_def sub_find Let_def of_epoch_def pending_def group_of_def mget_or_def on_pending_def put_shim_group_def ensureGroup_def sub_moved_def)

theorem sources_closed_after_activation_witness:
  "shim_activate sub_env ''events-a'' ''t1'' sub_prepared = (None, sub_moved) \<and> pending ''events-a'' sub_moved = None"
  using sub_activate sources_closed_after_activation [OF sub_env_fair sub_prepared_reachable sub_find sub_activate] by blast

section \<open>Owned consumers\<close>

text \<open>
  C36. No consumer is lost. In every run of the shim in which no key of a pending transition was added again, with any answers and with failing \<open>Close\<close> calls
  among the operations, every consumer that the factory has established and that has not been closed successfully is still owned: it is
  active or prepared in its group, or waits in the cleanup map for the next \<open>Close\<close>.
\<close>

theorem no_consumer_lost:
  assumes "fair_order e" and "shim_reachable closing e s" and "Established b (Inr c) \<in> set (sh_calls s)" and "Answered (CallClose c) True \<notin> set (sh_calls s)"
  shows "c \<in> set (sh_cleanup s) \<or> (\<exists>g gs k a. mget (sh_groups s) g = Some gs \<and> bc_consumer a = c \<and>
      (mget (ga_active gs) k = Some a \<or> (\<exists>t. ga_transition gs = Some t \<and> mget (pt_prepared t) k = Some a)))"
proof -
  have inv: "shim_ok s" "accounted s" using reachable_result [OF assms(2,1)] by simp_all
  have "owns s c" using inv(2) assms(3,4) unfolding accounted_def holds_def established_def closed_def by blast
  moreover have "\<exists>gs k a. mget (sh_groups s) g = Some gs \<and> bc_consumer a = c \<and>
      (mget (ga_active gs) k = Some a \<or> (\<exists>t. ga_transition gs = Some t \<and> mget (pt_prepared t) k = Some a))" if c: "c \<in> group_holds (group_of g s)" for g
  proof -
    obtain gs where gs: "mget (sh_groups s) g = Some gs" "gs = group_of g s" using c by (cases "mget (sh_groups s) g") (simp_all add: group_of_def mget_or_def)
    have ok: "consumers_ok (sh_calls s) gs" using shim_okD(2) [OF inv(1)] gs(2) by simp
    have wf: "wf_map (ga_active gs)" "wf_map (prepared_of gs)" using ok by (auto simp: consumers_ok_def prepared_of_def pending_ok_def split: option.splits)
    have "\<exists>k a. bc_consumer a = c \<and> (mget (ga_active gs) k = Some a \<or> mget (prepared_of gs) k = Some a)"
      using c gs(2) in_bound [OF wf(1), of c] in_bound [OF wf(2), of c] unfolding group_holds_def by blast
    then show ?thesis using gs(1) by (auto simp: prepared_of_def split: option.splits)
  qed
  ultimately show ?thesis unfolding owns_def by blast
qed

theorem no_consumer_lost_witness:
  "Established sub_new (Inr 2) \<in> set (sh_calls sub_prepared) \<and>
   (2 \<in> set (sh_cleanup sub_prepared) \<or> (\<exists>g gs k a. mget (sh_groups sub_prepared) g = Some gs \<and> bc_consumer a = 2 \<and>
      (mget (ga_active gs) k = Some a \<or> (\<exists>t. ga_transition gs = Some t \<and> mget (pt_prepared t) k = Some a))))"
proof -
  have e: "Established sub_new (Inr 2) \<in> set (sh_calls sub_prepared)" by (simp add: sub_prepared_def)
  have n: "Answered (CallClose 2) True \<notin> set (sh_calls sub_prepared)" by (simp add: sub_prepared_def sub_active_def)
  show ?thesis using e no_consumer_lost [OF sub_env_fair sub_prepared_reachable e n] by blast
qed

text \<open>
  The restriction is needed: when the new binding is added as an active one while it is prepared, the activation of the transition overwrites its entry,
  and the consumer that was added keeps running without an owner.
\<close>

lemma reused_key_loses_consumer:
  "\<exists>s1 s2 c. run_op sub_env (OpAddActive sub_new) sub_prepared = (None, s1) \<and> run_op sub_env (OpActivate ''events-a'' ''t1'') s1 = (None, s2) \<and>
     Established sub_new (Inr c) \<in> set (sh_calls s2) \<and> Answered (CallActivate c) True \<in> set (sh_calls s2) \<and>
     Answered (CallClose c) True \<notin> set (sh_calls s2) \<and> \<not> owns s2 c"
proof -
  let ?k = "binding_key sub_new" and ?b = "\<lparr>bc_binding = sub_new, bc_consumer = 4\<rparr>"
  define s1 where "s1 = sub_prepared\<lparr>sh_groups := [(''events-a'', sub_group\<lparr>ga_active := ga_active sub_group @ [(?k, ?b)]\<rparr>)],
     sh_calls := sh_calls sub_prepared @ [Established sub_new (Inr 4), Answered (CallActivate 4) True]\<rparr>"
  have len: "length (sh_calls sub_prepared) = 4" by (simp add: sub_prepared_def sub_active_def)
  have add: "addActive sub_env sub_new sub_prepared = (None, s1)"
    using sub_keys by (simp add: addActive_def Let_def ensureGroup_def group_of_def mget_or_def put_shim_group_def len s1_def mput_append)
  define s2 where "s2 = s1\<lparr>sh_groups := [(''events-a'', \<lparr>ga_active = pt_prepared sub_pending, ga_transition = None\<rparr>)],
     sh_calls := sh_calls s1 @ [Answered (CallActivate 2) True, Answered (CallClose 0) True]\<rparr>"
  have act: "shim_activate sub_env ''events-a'' ''t1'' s1 = (None, s2)"
    by (simp add: shim_activate_def find_pending_def Let_def of_epoch_def pending_def group_of_def mget_or_def on_pending_def put_shim_group_def ensureGroup_def s1_def s2_def)
  have "\<not> owns s2 4"
    by (simp add: owns_def s2_def s1_def group_of_def mget_or_def group_holds_def bound_consumers_def prepared_of_def empty_group_def)
  moreover have "Answered (CallClose 4) True \<notin> set (sh_calls s2)" by (simp add: s2_def s1_def sub_prepared_def sub_active_def)
  ultimately show ?thesis using add act by (intro exI [of _ s1] exI [of _ s2] exI [of _ 4]) (simp add: s2_def s1_def)
qed

end
