(* ===== verification/Spec2Isabelle.thy ===== *)
theory Spec2Isabelle
  imports Customer Routing Snapshot Reconciler Controller_Properties Outbox_Properties
    Policy_Properties Publisher_Properties Subscriber_Properties Subscriber_Consumers
begin

text \<open>
  Verification of the Solace workload balancer, a Go layer that keeps related messages on one data broker and changes
  the broker membership of a scaling group by a coordinated transition. File names below are relative to
  \<^verbatim>\<open>src/\<close>.

  \<^bold>\<open>The program and its parts.\<close> A message belongs to a scaling group and has a business hash, both computed by a customer library
  (\<^verbatim>\<open>customer/customer.go\<close>). The router (\<^verbatim>\<open>routing/membership.go\<close>) places a hash on one broker of the group by
  rendezvous hashing. The membership of a group is a control snapshot (\<^verbatim>\<open>control/snapshot.go\<close>), which participants install in order with a
  reconciler (\<^verbatim>\<open>control/reconciler.go\<close>). A capacity policy (\<^verbatim>\<open>policy/\<close>) recommends membership changes from telemetry; the
  transition controller (\<^verbatim>\<open>controller/\<close>) carries one out in durable phases PREPARE, PAUSE, DRAIN, COMMIT, ACTIVATE or ROLLBACK, publishing one
  snapshot per phase. The publisher shim (\<^verbatim>\<open>shim/publisher/publisher.go\<close>) turns messages into records of a durable outbox
  (\<^verbatim>\<open>outbox/outbox.go\<close>), routes them by the installed snapshot and dispatches them; the subscriber shim
  (\<^verbatim>\<open>shim/subscriber/subscriber.go\<close>) prepares, activates and closes consumers along the phases and hands the deliveries of one business key to
  the application one at a time.

  \<^bold>\<open>Shared theories.\<close> \<open>Go_Prelude\<close> (machine integers as words, instants, maps as association lists, errors), \<open>Go_Text\<close> (UTF-8,
  hexadecimal, decimal numbers, URLs), \<open>Go_Json\<close> (escaping, base64, big-endian keys), \<open>Go_Float\<close> (IEEE binary64 with rounding) and \<open>Go_Heap\<close>
  (\<^verbatim>\<open>container/heap\<close> over the locale \<open>go_heap\<close>) model what the source uses of Go and its library.

  \<^bold>\<open>Customer library and router.\<close> \<open>Customer\<close>: canonical encoding, entity hash, score, hash parsing; the encoding is injective (C1) and distinct keys share
  a hash only by a SHA-256 collision. \<open>Routing\<close>: the selection loop; it returns the best member under the score order of the locale
  \<open>strict_preference\<close> (C4) and a membership change moves as few keys as possible (C6).

  \<^bold>\<open>Control contract.\<close> \<open>Snapshot\<close>: the snapshot and its validation (C7). \<open>Reconciler\<close>: every method as a step; installed snapshots only move forward (C8) and a
  bootstrap installs the newest one seen (C9).

  \<^bold>\<open>Controller.\<close> \<open>Transition_Spec\<close>: the input of a transition and its snapshots, which are valid (C10), increase their revision (C11) and
  give the specification back. \<open>Controller_State\<close> and \<open>Controller\<close>: the durable document and every operation over an environment that answers
  the clock, the store, the broker fence and the publisher. \<open>Controller_Store\<close>: what the JSON store (\<^verbatim>\<open>controller/store.go\<close>) reads back from the document it
  wrote, which is the document itself when its texts are valid UTF-8 and its sample times are in UTC (\<open>storable\<close>); a restart in a run starts from such a
  document. \<open>Controller_Protocol\<close> states the protocol as a step relation and
  \<open>Controller_Refinement\<close> shows that every operation refines it, with other goroutines at its commit points;
  \<open>Controller_Invariant\<close>, \<open>Controller_Safety\<close> and \<open>Controller_Runs\<close> give the invariant, the order on states and runs with restarts;
  \<open>Controller_Properties\<close> has C13 to C16 (progress forward, restart from a storable document, encoding durable before published, sound flags).

  \<^bold>\<open>Outbox.\<close> \<open>Outbox_Data\<close>, \<open>Outbox\<close>, \<open>Outbox_Select\<close> and \<open>Outbox_Open\<close>: records, lanes, the heap of ready lane heads, the database, every operation,
  selection and recovery. \<open>Outbox_Index\<close>, \<open>Outbox_Invariant\<close>, \<open>Outbox_Store\<close>, \<open>Outbox_Operations\<close>, \<open>Outbox_Complete\<close>, \<open>Outbox_Recovery\<close>,
  \<open>Outbox_Eligible\<close>, \<open>Outbox_Runs\<close> and \<open>Outbox_Progress\<close> prove the invariant and the refinement of a queue of records. The runs of \<open>Outbox_Runs\<close> keep two
  producer rules that the code does not check: accepted event ids are not remembered by the log or a lane, and texts are valid UTF-8. \<open>Outbox_Properties\<close> has
  C17 to C28; C27 and C28 (with \<open>Outbox_Text\<close>) show what a reused identifier and a text that is not UTF-8 do.

  \<^bold>\<open>Capacity policy.\<close> \<open>Policy_Data\<close>, \<open>Policy_Aggregate\<close>, \<open>Policy_Engine\<close>: inputs, aggregation and decisions, with floating-point
  rounding. \<open>Policy_Validation\<close>, \<open>Policy_Saturation\<close>, \<open>Policy_Decisions\<close> and \<open>Policy_Runs\<close> hold the lemmas; \<open>Policy_Properties\<close> has C29 to
  C35 and C37.

  \<^bold>\<open>Publisher shim.\<close> \<open>Publisher\<close>: construction, activation, acceptance, the placement cache and dispatch over the outbox model.
  \<open>Publisher_Runs\<close> has the cache invariant, \<open>Publisher_Delivery\<close> and \<open>Publisher_Drain\<close> the effect on the outbox; \<open>Publisher_Properties\<close> has C38 to C40.

  \<^bold>\<open>Subscriber shim.\<close> \<open>Subscriber_Lanes\<close>: the ordering lanes, where each region under a lane's mutex is one function and a run interleaves the regions of any
  number of calls; \<open>Subscriber_Turns\<close> has the invariant and \<open>Subscriber_Properties\<close> the properties: one call at a time, in the order of arrival and
  without lost wake-ups, as long as no \<open>Retry\<close> or \<open>Release\<close> falls inside a failing turn (C3), and what happens when one does (C5). \<open>Subscriber\<close>: bindings,
  transitions and the lifecycle operations over an environment that answers the calls to the consumers and orders map iterations;
  \<open>Subscriber_Owned\<close>, \<open>Subscriber_Lifecycle\<close>, \<open>Subscriber_Cutover\<close> and \<open>Subscriber_Closing\<close> show what each operation keeps of the groups and of the consumers the
  factory has established, \<open>Subscriber_Runs\<close> composes them to runs, and \<open>Subscriber_Consumers\<close> has the properties: an active snapshot leaves exactly its own
  consumers (C2), a cutover activates before it closes and can be repeated after a failure (C12), and no consumer is lost (C36) unless the key of a prepared consumer
  is added again as an active one.

  \<^bold>\<open>Bounds and termination.\<close> No definition uses fuel: loops are structural recursions, or recursions with a measure (the heap walks, \<open>notifyServing\<close>).
  That dispatch passes drain the outbox is C40, with as many passes as there are records; that an outbox can be emptied is C25. Revisions, epochs and attempts
  are 64-bit words and Go's \<open>int\<close> wraps where the code adds or subtracts without a check (C37, and the condition of C30); lane tickets are natural numbers, since a lane is dropped when it
  is idle.

  \<^bold>\<open>Not modelled.\<close> The asynchronous dispatcher (\<^verbatim>\<open>shim/publisher/async_dispatcher.go\<close>) and the wiring under \<^verbatim>\<open>runtime/\<close>: goroutines, channels and timers around
  the modelled operations. JSON envelopes and resource names (\<^verbatim>\<open>control/messages.go\<close>, \<^verbatim>\<open>control/naming.go\<close>), and the YAML configuration: decoding of
  external formats whose results are inputs here. Writing and replacing the controller's file, the control transport (\<^verbatim>\<open>broker0/\<close>), AMQP, SEMP and
  cloud clients and the commands: input and output over external services, which appear as answers of the environments.
\<close>

end
